(* ===== verification/Ceph_Prelude.thy ===== *)
theory Ceph_Prelude
  imports Main "HOL-Library.Monad_Syntax"
begin

text \<open>
  The prelude of the development: what every component shares.

  \<^item> Machine arithmetic. C++ \<open>uint64_t\<close> values are natural numbers below \<open>two64\<close>, and the
    operations that can leave that range are written with their wrap-around (\<open>add64\<close>,
    \<open>sub64\<close>, \<open>mul64\<close>). The collection \<open>u64_simps\<close> turns them into plain arithmetic where
    no wrap occurs.
  \<^item> Failure. \<open>ceph_assert\<close> and \<open>ceph_abort\<close> end the process; an operation that can reach one
    returns an \<open>option\<close>, and \<open>None\<close> is that end. \<open>ensure\<close> is the assertion itself.
  \<^item> \<open>std::map\<close>. An ordered map is an association list with strictly ascending keys
    (\<open>smap_wf\<close>); \<open>smap_put\<close> is \<open>m[k] = v\<close>, \<open>smap_del\<close> is \<open>m.erase(k)\<close>, \<open>smap_emplace\<close> is an
    insertion that leaves an existing key alone, and \<open>lower_bound_ix\<close> and \<open>upper_bound_ix\<close>
    are the positions of the bounds of the same name.
  \<^item> \<open>invariant_system\<close> is the interface of every component with state: initial states, a step
    relation and an invariant they keep. Its client lemma is that reachable states satisfy the
    invariant; each component interprets it on its own steps.
  \<^item> \<open>quorum_system\<close> is what elections and voting need of quorums: any two of them meet.
\<close>

named_theorems u64_simps \<open>64-bit arithmetic without wrap-around\<close>
named_theorems smap_simps \<open>equations of the ordered map operations\<close>

subsection \<open>Unsigned 64-bit arithmetic\<close>

definition two64 :: nat where
  "two64 = 2 ^ 64"

definition two32 :: nat where
  "two32 = 2 ^ 32"

definition add64 :: "nat \<Rightarrow> nat \<Rightarrow> nat" where
  "add64 a b = (a + b) mod two64"

definition sub64 :: "nat \<Rightarrow> nat \<Rightarrow> nat" where
  "sub64 a b = (a + two64 - b mod two64) mod two64"

definition mul64 :: "nat \<Rightarrow> nat \<Rightarrow> nat" where
  "mul64 a b = (a * b) mod two64"

lemma two64_pos [simp]: "0 < two64"
  by (simp add: two64_def)

lemma add64_eq [u64_simps]: "a + b < two64 \<Longrightarrow> add64 a b = a + b"
  by (simp add: add64_def)

lemma mul64_eq [u64_simps]: "a * b < two64 \<Longrightarrow> mul64 a b = a * b"
  by (simp add: mul64_def)

lemma sub64_eq [u64_simps]:
  assumes "b \<le> a" and "a < two64"
  shows "sub64 a b = a - b"
proof -
  from assms have "a + two64 - b mod two64 = (a - b) + two64" by simp
  then have "sub64 a b = (a - b) mod two64" by (simp add: sub64_def)
  with assms show ?thesis by simp
qed

lemma add64_less [simp]: "add64 a b < two64"
  by (simp add: add64_def)

lemma sub64_less [simp]: "sub64 a b < two64"
  by (simp add: sub64_def)

lemma mul64_less [simp]: "mul64 a b < two64"
  by (simp add: mul64_def)

subsection \<open>Assertions\<close>

definition ensure :: "bool \<Rightarrow> unit option" where
  "ensure b = (if b then Some () else None)"

lemma ensure_True [simp]: "ensure True = Some ()"
  by (simp add: ensure_def)

lemma ensure_False [simp]: "ensure False = None"
  by (simp add: ensure_def)

lemma ensure_bind_Some [simp]:
  "Option.bind (ensure b) f = Some x \<longleftrightarrow> b \<and> f () = Some x"
  by (cases b) simp_all

lemma ensure_bind: "b \<Longrightarrow> Option.bind (ensure b) f = f ()"
  by simp

subsection \<open>Ordered maps\<close>

type_synonym ('k, 'v) smap = "('k \<times> 'v) list"

definition smap_wf :: "('k::linorder, 'v) smap \<Rightarrow> bool" where
  "smap_wf m \<longleftrightarrow> sorted_wrt (<) (map fst m)"

fun smap_put :: "'k::linorder \<Rightarrow> 'v \<Rightarrow> ('k, 'v) smap \<Rightarrow> ('k, 'v) smap" where
  "smap_put k v [] = [(k, v)]"
| "smap_put k v ((j, w) # m) =
     (if k < j then (k, v) # (j, w) # m
      else if k = j then (k, v) # m
      else (j, w) # smap_put k v m)"

definition smap_emplace :: "'k::linorder \<Rightarrow> 'v \<Rightarrow> ('k, 'v) smap \<Rightarrow> ('k, 'v) smap" where
  "smap_emplace k v m = (if map_of m k = None then smap_put k v m else m)"

fun smap_del :: "'k \<Rightarrow> ('k, 'v) smap \<Rightarrow> ('k, 'v) smap" where
  "smap_del k [] = []"
| "smap_del k ((j, w) # m) = (if j = k then m else (j, w) # smap_del k m)"

definition lower_bound_ix :: "('k::linorder, 'v) smap \<Rightarrow> 'k \<Rightarrow> nat" where
  "lower_bound_ix m k = length (takeWhile (\<lambda>p. fst p < k) m)"

definition upper_bound_ix :: "('k::linorder, 'v) smap \<Rightarrow> 'k \<Rightarrow> nat" where
  "upper_bound_ix m k = length (takeWhile (\<lambda>p. fst p \<le> k) m)"

definition erase_at :: "nat \<Rightarrow> 'a list \<Rightarrow> 'a list" where
  "erase_at i xs = take i xs @ drop (Suc i) xs"

lemma smap_wf_Nil [simp]: "smap_wf []"
  by (simp add: smap_wf_def)

lemma smap_wf_Cons [simp]:
  "smap_wf ((k, v) # m) \<longleftrightarrow> (\<forall>p\<in>set m. k < fst p) \<and> smap_wf m"
  by (auto simp: smap_wf_def)

lemma smap_wf_append:
  "smap_wf (m @ m') \<longleftrightarrow> smap_wf m \<and> smap_wf m' \<and> (\<forall>p\<in>set m. \<forall>q\<in>set m'. fst p < fst q)"
  by (induction m) force+

lemma map_of_put [smap_simps]: "map_of (smap_put k v m) = (map_of m)(k \<mapsto> v)"
  by (induction k v m rule: smap_put.induct) auto

lemma fst_set_put: "fst ` set (smap_put k v m) = insert k (fst ` set m)"
  by (induction k v m rule: smap_put.induct) auto

lemma smap_wf_put [intro]: "smap_wf m \<Longrightarrow> smap_wf (smap_put k v m)"
proof (induction k v m rule: smap_put.induct)
  case (2 k v j w m)
  have "\<forall>x\<in>fst ` set (smap_put k v m). j < x" if "j < k"
    using that 2(2) by (auto simp: fst_set_put)
  then have "\<forall>p\<in>set (smap_put k v m). j < fst p" if "j < k"
    using that by blast
  with 2 show ?case by (force simp: not_less_iff_gr_or_eq)
qed simp

lemma smap_put_last:
  "(\<forall>p\<in>set m. fst p < k) \<Longrightarrow> smap_put k v m = m @ [(k, v)]"
  by (induction k v m rule: smap_put.induct) auto

lemma smap_put_middle:
  "(\<forall>p\<in>set xs. fst p < k) \<Longrightarrow> (\<forall>p\<in>set ys. k < fst p) \<Longrightarrow>
   smap_put k v (xs @ ys) = xs @ (k, v) # ys"
proof (induction xs)
  case Nil
  then show ?case by (cases ys) auto
qed auto

lemma smap_put_replace:
  "(\<forall>p\<in>set xs. fst p < k) \<Longrightarrow> smap_put k v (xs @ (k, w) # ys) = xs @ (k, v) # ys"
  by (induction xs) auto

lemma smap_emplace_last:
  "(\<forall>p\<in>set m. fst p < k) \<Longrightarrow> smap_emplace k v m = m @ [(k, v)]"
proof -
  assume less: "\<forall>p\<in>set m. fst p < k"
  then have "k \<notin> fst ` set m" by auto
  then have "map_of m k = None" by (simp add: map_of_eq_None_iff)
  with less show ?thesis by (simp add: smap_emplace_def smap_put_last)
qed

lemma map_of_del [smap_simps]: "smap_wf m \<Longrightarrow> map_of (smap_del k m) = (map_of m)(k := None)"
proof (induction k m rule: smap_del.induct)
  case (2 k j w m)
  have "map_of m j = None" using 2(2) by (force simp: map_of_eq_None_iff)
  with 2 show ?case by (auto simp: fun_eq_iff)
qed (simp add: fun_eq_iff)

lemma set_smap_del: "set (smap_del k m) \<subseteq> set m"
  by (induction k m rule: smap_del.induct) auto

lemma smap_wf_del [intro]: "smap_wf m \<Longrightarrow> smap_wf (smap_del k m)"
proof (induction k m rule: smap_del.induct)
  case (2 k j w m)
  then show ?case using set_smap_del [of k m] by auto
qed simp

lemma smap_wf_filter: "smap_wf m \<Longrightarrow> smap_wf (filter P m)"
  by (induction m) auto

lemma map_of_smap_Some: "smap_wf m \<Longrightarrow> map_of m k = Some v \<longleftrightarrow> (k, v) \<in> set m"
proof (induction m)
  case (Cons p m)
  then show ?case by (cases p) force
qed simp

lemma smap_wf_distinct: "smap_wf m \<Longrightarrow> distinct (map fst m)"
  by (induction m) force+

lemma erase_at_middle [simp]: "erase_at (length xs) (xs @ y # ys) = xs @ ys"
  by (simp add: erase_at_def)

text \<open>A list splits at its lower bound.\<close>

lemma lower_bound_split:
  obtains xs ys where "m = xs @ ys" and "lower_bound_ix m k = length xs"
    and "\<forall>p\<in>set xs. fst p < k" and "ys \<noteq> [] \<Longrightarrow> k \<le> fst (hd ys)"
proof
  show "m = takeWhile (\<lambda>p. fst p < k) m @ dropWhile (\<lambda>p. fst p < k) m" by simp
  show "lower_bound_ix m k = length (takeWhile (\<lambda>p. fst p < k) m)"
    by (simp add: lower_bound_ix_def)
  show "\<forall>p\<in>set (takeWhile (\<lambda>p. fst p < k) m). fst p < k"
    by (auto dest: set_takeWhileD)
  show "k \<le> fst (hd (dropWhile (\<lambda>p. fst p < k) m))"
    if "dropWhile (\<lambda>p. fst p < k) m \<noteq> []"
    using hd_dropWhile [OF that] by simp
qed

subsection \<open>Components with state\<close>

locale invariant_system =
  fixes init :: "'s \<Rightarrow> bool"
    and step :: "'s \<Rightarrow> 's \<Rightarrow> bool"
    and inv :: "'s \<Rightarrow> bool"
  assumes inv_init: "init s \<Longrightarrow> inv s"
    and inv_step: "inv s \<Longrightarrow> step s t \<Longrightarrow> inv t"
begin

lemma inv_run: "step\<^sup>*\<^sup>* s t \<Longrightarrow> inv s \<Longrightarrow> inv t"
  by (induction rule: rtranclp_induct) (auto dest: inv_step)

lemma inv_reachable: "init s \<Longrightarrow> step\<^sup>*\<^sup>* s t \<Longrightarrow> inv t"
  using inv_init inv_run by blast

lemma inv_now: "init s \<Longrightarrow> step\<^sup>*\<^sup>* s t \<Longrightarrow> step t u \<Longrightarrow> inv u"
  using inv_reachable inv_step by blast

end

subsection \<open>Quorums\<close>

text \<open>What the safety arguments need of quorums, whatever they are.\<close>

locale quorum_system =
  fixes is_quorum :: "'a set \<Rightarrow> bool"
  assumes quorums_meet: "is_quorum q \<Longrightarrow> is_quorum r \<Longrightarrow> q \<inter> r \<noteq> {}"
begin

lemma one_choice:
  assumes "is_quorum q" and "is_quorum r" and "\<And>x. x \<in> q \<Longrightarrow> chose x a" and "\<And>x. x \<in> r \<Longrightarrow> chose x b"
    and "\<And>x a b. chose x a \<Longrightarrow> chose x b \<Longrightarrow> a = b"
  shows "a = b"
  using quorums_meet [OF assms(1,2)] assms(3-5) by blast

end

end
