(* ===== verification/Interval_Set.thy ===== *)
theory Interval_Set
  imports Ceph_Prelude
begin

text \<open>
  \<open>src/include/interval_set.h\<close>, the set of disjoint half-open ranges that the rest of the
  system keeps its free lists, removed snapshots and dirty extents in, instantiated with
  \<open>T = uint64_t\<close> and \<open>Map = std::map\<close>. The state is the record \<open>interval_set\<close>: the ordered map
  \<open>m\<close> from the start of a range to its length, and the counter \<open>_size\<close>. An iterator is a
  position of \<open>m\<close> (\<open>find_inc\<close>, \<open>find_adj\<close>) or the rest of the map from it (the loops).
  The abstraction is the set of members, \<open>elems\<close>; \<open>iset_inv\<close> is the class invariant: ranges
  are non-empty, ascending, never touching, end below \<open>2 ^ 64\<close>, and \<open>_size\<close> is their total.
\<close>

subsection \<open>State\<close>

type_synonym ivs = "(nat, nat) smap"

record interval_set =
  iset_size :: nat
  iset_m :: ivs

definition empty_iset :: interval_set where
  "empty_iset = \<lparr>iset_size = 0, iset_m = []\<rparr>"

definition iv_end :: "nat \<times> nat \<Rightarrow> nat" where
  "iv_end p = add64 (fst p) (snd p)"

subsection \<open>Position helpers\<close>

definition find_inc :: "ivs \<Rightarrow> nat \<Rightarrow> nat" where
  "find_inc m start =
     (let p = lower_bound_ix m start in
      if p \<noteq> 0 \<and> (p = length m \<or> fst (m ! p) > start)
      then (if iv_end (m ! (p - 1)) \<le> start then p else p - 1)
      else p)"

definition find_adj :: "ivs \<Rightarrow> nat \<Rightarrow> nat" where
  "find_adj m start =
     (let p = lower_bound_ix m start in
      if p \<noteq> 0 \<and> (p = length m \<or> fst (m ! p) > start)
      then (if iv_end (m ! (p - 1)) < start then p else p - 1)
      else p)"

subsection \<open>Queries\<close>

definition iset_num_intervals :: "interval_set \<Rightarrow> nat" where
  "iset_num_intervals s = length (iset_m s)"

definition iset_eq :: "interval_set \<Rightarrow> interval_set \<Rightarrow> bool" where
  "iset_eq s t \<longleftrightarrow> iset_size s = iset_size t \<and> iset_m s = iset_m t"

definition iset_empty :: "interval_set \<Rightarrow> bool" where
  "iset_empty s \<longleftrightarrow> iset_m s = []"

text \<open>\<open>contains(i, pstart, plen)\<close>: the range that holds \<open>i\<close>, if there is one.\<close>

definition contains_at :: "interval_set \<Rightarrow> nat \<Rightarrow> (nat \<times> nat) option" where
  "contains_at s i =
     (let p = find_inc (iset_m s) i in
      if p = length (iset_m s) then None
      else let x = iset_m s ! p in
        if fst x > i then None
        else if iv_end x \<le> i then None
        else Some x)"

definition contains :: "interval_set \<Rightarrow> nat \<Rightarrow> bool" where
  "contains s i \<longleftrightarrow> contains_at s i \<noteq> None"

definition contains_range :: "interval_set \<Rightarrow> nat \<Rightarrow> nat \<Rightarrow> bool" where
  "contains_range s start len =
     (let p = find_inc (iset_m s) start in
      if p = length (iset_m s) then False
      else let x = iset_m s ! p in
        if fst x > start then False
        else if iv_end x \<le> start then False
        else if iv_end x < add64 start len then False
        else True)"

definition range_start :: "interval_set \<Rightarrow> nat option" where
  "range_start s = do { ensure (\<not> iset_empty s); Some (fst (hd (iset_m s))) }"

definition range_end :: "interval_set \<Rightarrow> nat option" where
  "range_end s = do { ensure (\<not> iset_empty s); Some (iv_end (last (iset_m s))) }"

definition starts_after :: "interval_set \<Rightarrow> nat \<Rightarrow> bool option" where
  "starts_after s i = do {
     ensure (\<not> contains s i);
     Some (find_inc (iset_m s) i \<noteq> length (iset_m s)) }"

text \<open>Dereferencing \<open>m.end()\<close>, which \<open>start_after\<close> does past the last range, is undefined
  behaviour; it is the failure \<open>None\<close> here.\<close>

definition start_after :: "interval_set \<Rightarrow> nat \<Rightarrow> nat option" where
  "start_after s i = do {
     ensure (\<not> contains s i);
     let p = find_inc (iset_m s) i;
     ensure (p \<noteq> length (iset_m s));
     Some (fst (iset_m s ! p)) }"

definition end_after :: "interval_set \<Rightarrow> nat \<Rightarrow> nat option" where
  "end_after s start = do {
     ensure (contains s start);
     let p = find_inc (iset_m s) start;
     Some (iv_end (iset_m s ! p)) }"

subsection \<open>Insertion and removal of a range\<close>

text \<open>\<open>insert(start, len, pstart, plen)\<close> returns the new set with the values it stores
  through \<open>pstart\<close> and \<open>plen\<close>, the range that now holds the inserted one.\<close>

definition iset_insert :: "interval_set \<Rightarrow> nat \<Rightarrow> nat \<Rightarrow> (interval_set \<times> nat \<times> nat) option" where
  "iset_insert s start len = do {
     ensure (len > 0);
     let sz = add64 (iset_size s) len;
     let m = iset_m s;
     let p = find_adj m start;
     if p = length m then
       Some (\<lparr>iset_size = sz, iset_m = smap_put start len m\<rparr>, start, len)
     else do {
       let (pf, ps) = m ! p;
       if pf < start then do {
         ensure (add64 pf ps = start);
         let m1 = m[p := (pf, add64 ps len)];
         if Suc p \<noteq> length m1 \<and> add64 start len = fst (m1 ! Suc p) then do {
           let l = add64 (add64 ps len) (snd (m1 ! Suc p));
           Some (\<lparr>iset_size = sz, iset_m = erase_at (Suc p) (m1[p := (pf, l)])\<rparr>, pf, l) }
         else Some (\<lparr>iset_size = sz, iset_m = m1\<rparr>, pf, add64 ps len) }
       else if add64 start len = pf then
         Some (\<lparr>iset_size = sz, iset_m = smap_put start (add64 len ps) (erase_at p m)\<rparr>,
               start, add64 len ps)
       else do {
         ensure (pf > add64 start len);
         Some (\<lparr>iset_size = sz, iset_m = smap_put start len m\<rparr>, start, len) } } }"

text \<open>\<open>erase(start, len, claim)\<close>: \<open>claim\<close> may take over what is left before or after the
  erased range, which then leaves the set too. The counter wraps as \<open>uint64_t\<close> does, and the
  assertion on it is vacuous.\<close>

definition iset_erase_claim ::
  "(nat \<Rightarrow> nat \<Rightarrow> bool) \<Rightarrow> interval_set \<Rightarrow> nat \<Rightarrow> nat \<Rightarrow> interval_set option" where
  "iset_erase_claim claim s start len = do {
     let m = iset_m s;
     let p = find_inc m start;
     let sz = sub64 (iset_size s) len;
     ensure (p \<noteq> length m);
     let (pf, ps) = m ! p;
     ensure (pf \<le> start);
     let before = sub64 start pf;
     ensure (ps \<ge> add64 before len);
     let after = sub64 (sub64 ps before) len;
     let (m1, sz1) =
       (if before \<noteq> 0 then
          (if claim pf before then (erase_at p m, sub64 sz before)
           else (m[p := (pf, before)], sz))
        else (erase_at p m, sz));
     let (m2, sz2) =
       (if after \<noteq> 0 then
          (if claim (add64 start len) after then (m1, sub64 sz1 after)
           else (smap_put (add64 start len) after m1, sz1))
        else (m1, sz1));
     Some \<lparr>iset_size = sz2, iset_m = m2\<rparr> }"

definition iset_erase :: "interval_set \<Rightarrow> nat \<Rightarrow> nat \<Rightarrow> interval_set option" where
  "iset_erase = iset_erase_claim (\<lambda>_ _. False)"

fun insert_all :: "interval_set \<Rightarrow> ivs \<Rightarrow> interval_set option" where
  "insert_all s [] = Some s"
| "insert_all s ((start, len) # a) = do {
     (s', _, _) \<leftarrow> iset_insert s start len;
     insert_all s' a }"

fun erase_all :: "interval_set \<Rightarrow> ivs \<Rightarrow> interval_set option" where
  "erase_all s [] = Some s"
| "erase_all s ((start, len) # a) = do { s' \<leftarrow> iset_erase s start len; erase_all s' a }"

definition subtract :: "interval_set \<Rightarrow> interval_set \<Rightarrow> interval_set option" where
  "subtract s a = erase_all s (iset_m a)"

definition insert_set :: "interval_set \<Rightarrow> interval_set \<Rightarrow> interval_set option" where
  "insert_set s a = insert_all s (iset_m a)"

subsection \<open>Intersection\<close>

text \<open>The run of equal ranges that both intersection loops copy in one go.\<close>

fun copy_equal :: "ivs \<Rightarrow> ivs \<Rightarrow> ivs \<Rightarrow> nat \<Rightarrow> ivs \<times> ivs \<times> ivs \<times> nat" where
  "copy_equal (p # ps) (q # qs) m sz =
     (if p = q then copy_equal ps qs (smap_emplace (fst p) (snd p) m) (add64 sz (snd p))
      else (p # ps, q # qs, m, sz))"
| "copy_equal ps qs m sz = (ps, qs, m, sz)"

lemma copy_equal_length:
  "copy_equal ps qs m sz = (ps', qs', m', sz') \<Longrightarrow>
   length ps' \<le> length ps \<and> length qs' \<le> length qs"
  by (induction ps qs m sz rule: copy_equal.induct) (auto split: if_splits)

text \<open>The loop of \<open>intersection_of\<close> for sets of similar size.\<close>

function intersect_merge :: "ivs \<Rightarrow> ivs \<Rightarrow> ivs \<Rightarrow> nat \<Rightarrow> (ivs \<times> nat) option" where
  "intersect_merge [] pb m sz = Some (m, sz)"
| "intersect_merge (x # pa) [] m sz = Some (m, sz)"
| "intersect_merge (x # pa) (y # pb) m sz =
     (if iv_end x \<le> fst y then intersect_merge pa (y # pb) m sz
      else if iv_end y \<le> fst x then intersect_merge (x # pa) pb m sz
      else if x = y then
        (case copy_equal pa pb (smap_emplace (fst x) (snd x) m) (add64 sz (snd x)) of
           (pa', pb', m', sz') \<Rightarrow> intersect_merge pa' pb' m' sz')
      else
        let start = max (fst x) (fst y); en = min (iv_end x) (iv_end y) in
        if \<not> en > start then None
        else
          let m' = smap_emplace start (en - start) m;
              sz' = add64 sz (the (map_of m' start)) in
          if iv_end x > iv_end y then intersect_merge (x # pa) pb m' sz'
          else intersect_merge pa (y # pb) m' sz')"
  by pat_completeness auto
termination
  by (relation "measure (\<lambda>(pa, pb, m, sz). length pa + length pb)")
    (auto split: prod.splits dest: copy_equal_length)

text \<open>\<open>intersection_size_asym\<close>, which looks the larger set up by \<open>find_inc\<close>. The loop runs on
  fuel; \<open>None\<close> is an assertion failure or fuel that ran out, and the number of ranges of both
  sets plus one is enough.\<close>

primrec asym_loop :: "nat \<Rightarrow> nat \<Rightarrow> ivs \<Rightarrow> ivs \<Rightarrow> ivs \<Rightarrow> nat \<Rightarrow> (ivs \<times> nat) option" where
  "asym_loop 0 offset ps l m sz = None"
| "asym_loop (Suc fuel) offset ps l m sz =
     (case drop (find_inc l offset) l of
        [] \<Rightarrow> Some (m, sz)
      | y # pl \<Rightarrow>
          (case dropWhile (\<lambda>p. iv_end p \<le> fst y) ps of
             [] \<Rightarrow> Some (m, sz)
           | x # ps' \<Rightarrow>
               let off = iv_end y in
               if off \<le> fst x then asym_loop fuel (fst x) (x # ps') l m sz
               else if x = y then
                 (case copy_equal ps' pl (smap_emplace (fst x) (snd x) m) (add64 sz (snd x)) of
                    (ps'', _, m', sz') \<Rightarrow>
                      (case ps'' of
                         [] \<Rightarrow> Some (m', sz')
                       | z # _ \<Rightarrow> asym_loop fuel (fst z) ps'' l m' sz'))
               else
                 let start = max (fst x) (fst y); en = min (iv_end x) off in
                 if \<not> en > start then None
                 else
                   let m' = smap_emplace start (en - start) m;
                       sz' = add64 sz (the (map_of m' start)) in
                   if iv_end x \<le> off then
                     (case ps' of
                        [] \<Rightarrow> Some (m', sz')
                      | z # _ \<Rightarrow> asym_loop fuel (fst z) ps' l m' sz')
                   else asym_loop fuel off (x # ps') l m' sz'))"

definition intersection_size_asym :: "ivs \<Rightarrow> ivs \<Rightarrow> (ivs \<times> nat) option" where
  "intersection_size_asym s l =
     (case s of
        [] \<Rightarrow> None
      | p # _ \<Rightarrow> asym_loop (length s + length l + 1) (fst p) s l [] 0)"

definition intersection_of :: "interval_set \<Rightarrow> interval_set \<Rightarrow> interval_set option" where
  "intersection_of a b =
     (let (s, l) = (if iset_size a < iset_size b then (a, b) else (b, a)) in
      if iset_size s = 0 then Some empty_iset
      else do {
        (m, sz) \<leftarrow>
          (if iset_size l div iset_size s \<ge> 10 then intersection_size_asym (iset_m s) (iset_m l)
           else intersect_merge (iset_m a) (iset_m b) [] 0);
        Some \<lparr>iset_size = sz, iset_m = m\<rparr> })"

definition intersects :: "interval_set \<Rightarrow> nat \<Rightarrow> nat \<Rightarrow> bool option" where
  "intersects s start len = do {
     (a, _, _) \<leftarrow> iset_insert empty_iset start len;
     i \<leftarrow> intersection_of s a;
     Some (\<not> iset_empty i) }"

subsection \<open>Union, inclusion, span\<close>

definition union_of :: "interval_set \<Rightarrow> interval_set \<Rightarrow> interval_set option" where
  "union_of a b = do {
     ab \<leftarrow> intersection_of a b;
     s \<leftarrow> subtract a ab;
     insert_set s b }"

definition union_insert :: "interval_set \<Rightarrow> nat \<Rightarrow> nat \<Rightarrow> interval_set option" where
  "union_insert s off len = do {
     (a, _, _) \<leftarrow> iset_insert empty_iset off len;
     union_of s a }"

fun skip_equal :: "ivs \<Rightarrow> ivs \<Rightarrow> ivs \<times> ivs" where
  "skip_equal (p # ps) (q # qs) = (if p = q then skip_equal ps qs else (p # ps, q # qs))"
| "skip_equal ps qs = (ps, qs)"

lemma skip_equal_length:
  "skip_equal ps qs = (ps', qs') \<Longrightarrow> length ps' \<le> length ps \<and> length qs' \<le> length qs"
  by (induction ps qs rule: skip_equal.induct) (auto split: if_splits)

function subset_size_sym :: "ivs \<Rightarrow> ivs \<Rightarrow> bool" where
  "subset_size_sym [] pb = True"
| "subset_size_sym (x # pa) [] = False"
| "subset_size_sym (x # pa) (y # pb) =
     (case dropWhile (\<lambda>q. iv_end q \<le> fst x) (y # pb) of
        [] \<Rightarrow> False
      | z # pb' \<Rightarrow>
          if x = z then (case skip_equal pa pb' of (pa', pb'') \<Rightarrow> subset_size_sym pa' pb'')
          else if fst x < fst z then False
          else if iv_end x > iv_end z then False
          else subset_size_sym pa (z # pb'))"
  by pat_completeness auto
termination
  by (relation "measure (\<lambda>(pa, pb). length pa)") (auto split: prod.splits dest: skip_equal_length)

definition subset_of :: "interval_set \<Rightarrow> interval_set \<Rightarrow> bool option" where
  "subset_of s big =
     (if iset_size s = 0 then Some True
      else if iset_size s > iset_size big then Some False
      else do {
        e \<leftarrow> range_end s;
        e' \<leftarrow> range_end big;
        if e > e' then Some False
        else if iset_size big div iset_size s < 10
        then Some (subset_size_sym (iset_m s) (iset_m big))
        else Some (list_all (\<lambda>(start, len). contains_range big start len) (iset_m s)) })"

fun span_loop :: "interval_set \<Rightarrow> ivs \<Rightarrow> nat \<Rightarrow> interval_set option" where
  "span_loop acc [] len = Some acc"
| "span_loop acc (x # p) len =
     (if \<not> len > 0 then Some acc
      else if snd x < len then do {
        (acc', _, _) \<leftarrow> iset_insert acc (fst x) (snd x);
        span_loop acc' p (sub64 len (snd x)) }
      else do {
        (acc', _, _) \<leftarrow> iset_insert acc (fst x) len;
        Some acc' })"

definition span_of :: "interval_set \<Rightarrow> nat \<Rightarrow> nat \<Rightarrow> interval_set option" where
  "span_of other start len =
     (let p = find_inc (iset_m other) start in
      case drop p (iset_m other) of
        [] \<Rightarrow> Some empty_iset
      | x # ps \<Rightarrow>
          if fst x < start then
            (if iv_end x < start then Some empty_iset
             else if iv_end x < add64 start len then do {
               let howmuch = sub64 (snd x) (sub64 start (fst x));
               (acc, _, _) \<leftarrow> iset_insert empty_iset start howmuch;
               span_loop acc ps (sub64 len howmuch) }
             else do {
               (acc, _, _) \<leftarrow> iset_insert empty_iset start len;
               Some acc })
          else span_loop empty_iset (x # ps) len)"

subsection \<open>Construction from a map, removal by position, in-place forms\<close>

text \<open>The constructor from a map and the three \<open>decode\<close> functions set the map and sum the
  lengths; \<open>detach\<close> gives the map back.\<close>

definition iset_of_map :: "ivs \<Rightarrow> interval_set" where
  "iset_of_map m = \<lparr>iset_size = fold (\<lambda>p n. add64 n (snd p)) m 0, iset_m = m\<rparr>"

definition iset_detach :: "interval_set \<Rightarrow> ivs" where
  "iset_detach s = iset_m s"

definition iset_erase_iter :: "interval_set \<Rightarrow> nat \<Rightarrow> interval_set" where
  "iset_erase_iter s i = \<lparr>iset_size = sub64 (iset_size s) (snd (iset_m s ! i)),
     iset_m = erase_at i (iset_m s)\<rparr>"

definition intersection_with :: "interval_set \<Rightarrow> interval_set \<Rightarrow> interval_set option" where
  "intersection_with s b = intersection_of s b"

definition union_with :: "interval_set \<Rightarrow> interval_set \<Rightarrow> interval_set option" where
  "union_with s b = union_of s b"

end
