(* ===== verification/Interval_Set_Correct.thy ===== *)
theory Interval_Set_Correct
  imports Interval_Set
begin

text \<open>
  Correctness of \<open>interval_set\<close>: the class invariant, the meaning of every operation on the
  set of members, and the interface \<open>extent_set\<close> that clients of the class rely on.
\<close>

subsection \<open>Abstraction and invariant\<close>

abbreviation iv_stop :: "nat \<times> nat \<Rightarrow> nat" where
  "iv_stop p \<equiv> fst p + snd p"

definition elems_of :: "ivs \<Rightarrow> nat set" where
  "elems_of m = (\<Union>p\<in>set m. {fst p..<iv_stop p})"

definition iv_ok :: "nat \<times> nat \<Rightarrow> bool" where
  "iv_ok p \<longleftrightarrow> 0 < snd p \<and> iv_stop p < two64"

definition iv_wf :: "ivs \<Rightarrow> bool" where
  "iv_wf m \<longleftrightarrow> sorted_wrt (\<lambda>p q. iv_stop p < fst q) m \<and> list_all iv_ok m"

definition elems :: "interval_set \<Rightarrow> nat set" where
  "elems s = elems_of (iset_m s)"

definition iset_inv :: "interval_set \<Rightarrow> bool" where
  "iset_inv s \<longleftrightarrow> iv_wf (iset_m s) \<and> iset_size s = sum_list (map snd (iset_m s))"

lemma elems_of_simps [simp]:
  "elems_of [] = {}"
  "elems_of (p # m) = {fst p..<iv_stop p} \<union> elems_of m"
  "elems_of (m @ m') = elems_of m \<union> elems_of m'"
  by (auto simp: elems_of_def)

lemma iv_wf_Nil [simp]: "iv_wf []"
  by (simp add: iv_wf_def)

lemma iv_wf_Cons [simp]:
  "iv_wf (p # m) \<longleftrightarrow> (\<forall>q\<in>set m. iv_stop p < fst q) \<and> iv_ok p \<and> iv_wf m"
  by (auto simp: iv_wf_def)

lemma iv_wf_append [simp]:
  "iv_wf (m @ m') \<longleftrightarrow> iv_wf m \<and> iv_wf m' \<and> (\<forall>p\<in>set m. \<forall>q\<in>set m'. iv_stop p < fst q)"
  by (auto simp: iv_wf_def sorted_wrt_append)

lemma iv_wf_ok: "iv_wf m \<Longrightarrow> p \<in> set m \<Longrightarrow> iv_ok p"
  by (simp add: iv_wf_def list_all_iff)

lemma iv_end_eq [simp]: "iv_ok p \<Longrightarrow> iv_end p = iv_stop p"
  by (simp add: iv_ok_def iv_end_def u64_simps)

lemma iv_wf_end: "iv_wf m \<Longrightarrow> p \<in> set m \<Longrightarrow> iv_end p = iv_stop p"
  by (blast intro: iv_end_eq iv_wf_ok)

lemma iv_wf_smap_wf: "iv_wf m \<Longrightarrow> smap_wf m"
  by (induction m) (force simp: smap_wf_def)+

lemma elems_of_less: "iv_wf m \<Longrightarrow> x \<in> elems_of m \<Longrightarrow> x < two64"
  by (auto simp: elems_of_def iv_ok_def dest: iv_wf_ok)

lemma finite_elems_of [simp]: "finite (elems_of m)"
  by (simp add: elems_of_def)

lemma iv_wf_Cons_disjoint: "iv_wf (p # m) \<Longrightarrow> {fst p..<iv_stop p} \<inter> elems_of m = {}"
  by (fastforce simp: elems_of_def)

lemma card_elems_of: "iv_wf m \<Longrightarrow> card (elems_of m) = sum_list (map snd m)"
proof (induction m)
  case (Cons p m)
  have "{fst p..<iv_stop p} \<inter> elems_of m = {}"
    using Cons.prems by (rule iv_wf_Cons_disjoint)
  with Cons show ?case by (simp add: card_Un_disjoint)
qed simp

lemma sum_list_two64:
  assumes "iv_wf m" shows "sum_list (map snd m) < two64"
proof -
  have "elems_of m \<subseteq> {..<two64 - 1}"
    using assms by (fastforce simp: elems_of_def iv_ok_def dest: iv_wf_ok)
  then have "card (elems_of m) \<le> two64 - 1"
    using card_mono [of "{..<two64 - 1}"] by fastforce
  with assms show ?thesis
    by (metis card_elems_of diff_less le_less_trans two64_pos zero_less_one)
qed

lemma disjoint_range_iff:
  assumes "0 < len"
  shows "elems_of m \<inter> {a..<a + len} = {} \<longleftrightarrow>
    (\<forall>p\<in>set m. snd p = 0 \<or> iv_stop p \<le> a \<or> a + len \<le> fst p)"
proof -
  have *: "{f..<f + l} \<inter> {a..<a + len} = {} \<longleftrightarrow> l = 0 \<or> f + l \<le> a \<or> a + len \<le> f" for f l :: nat
    using assms by (auto simp: disjoint_iff)
  have "elems_of m \<inter> {a..<a + len} = {} \<longleftrightarrow> (\<forall>p\<in>set m. {fst p..<iv_stop p} \<inter> {a..<a + len} = {})"
    unfolding elems_of_def by blast
  also have "\<dots> \<longleftrightarrow> (\<forall>p\<in>set m. snd p = 0 \<or> iv_stop p \<le> a \<or> a + len \<le> fst p)"
    by (intro ball_cong refl *)
  finally show ?thesis .
qed

text \<open>The representation is canonical: the members determine the ranges.\<close>

lemma iv_wf_head:
  assumes "iv_wf (p # m)"
  shows "fst p \<in> elems_of (p # m)" and "\<forall>x\<in>elems_of (p # m). fst p \<le> x"
    and "iv_stop p \<notin> elems_of (p # m)"
  using assms by (force simp: iv_ok_def elems_of_def)+

lemma iv_wf_tail: "iv_wf (p # m) \<Longrightarrow> elems_of m = elems_of (p # m) - {fst p..<iv_stop p}"
  using iv_wf_Cons_disjoint [of p m] by auto

lemma iv_wf_unique: "iv_wf a \<Longrightarrow> iv_wf b \<Longrightarrow> elems_of a = elems_of b \<Longrightarrow> a = b"
proof (induction a arbitrary: b)
  case Nil
  then show ?case by (cases b) (auto simp: iv_ok_def)
next
  case (Cons p m)
  have "b \<noteq> []" using iv_wf_head(1) [OF Cons(2)] Cons(4) by auto
  then obtain q n where b: "b = q # n" by (cases b) simp_all
  note hp = iv_wf_head [OF Cons(2)] and hq = iv_wf_head [OF Cons(3) [unfolded b]]
  have eq: "elems_of (p # m) = elems_of (q # n)" using Cons(4) b by simp
  have "fst p \<le> fst q" using hp(2) hq(1) unfolding eq by blast
  moreover have "fst q \<le> fst p" using hq(2) hp(1) unfolding eq by blast
  ultimately have start: "fst p = fst q" by (rule le_antisym)
  have "\<not> iv_stop p < iv_stop q" using hp(3) start unfolding eq by simp
  moreover have "\<not> iv_stop q < iv_stop p" using hq(3) start unfolding eq [symmetric] by simp
  ultimately have pq: "p = q" using start by (simp add: prod_eq_iff)
  have "elems_of m = elems_of n"
    by (simp only: iv_wf_tail [OF Cons(2)] iv_wf_tail [OF Cons(3) [unfolded b]]
      eq [unfolded pq] pq)
  with Cons(1) [of n] Cons(2,3) b pq show ?case by simp
qed

lemma iset_eq_iff: "iset_inv s \<Longrightarrow> iset_inv t \<Longrightarrow> iset_eq s t \<longleftrightarrow> elems s = elems t"
  using iv_wf_unique [of "iset_m s" "iset_m t"] by (auto simp: iset_eq_def iset_inv_def elems_def)

subsection \<open>The position helpers are binary searches for the first relevant range\<close>

lemma bound_search_eq:
  assumes wf: "iv_wf m" and below: "\<And>e. e < k \<Longrightarrow> P e" and above: "\<And>e. k < e \<Longrightarrow> \<not> P e"
  shows "(let p = lower_bound_ix m k in
          if p \<noteq> 0 \<and> (p = length m \<or> fst (m ! p) > k)
          then (if P (iv_end (m ! (p - 1))) then p else p - 1) else p) =
         length (takeWhile (\<lambda>p. P (iv_stop p)) m)"
proof -
  obtain xs ys where m: "m = xs @ ys" and lb: "lower_bound_ix m k = length xs"
    and xs: "\<forall>p\<in>set xs. fst p < k" and ys: "ys \<noteq> [] \<Longrightarrow> k \<le> fst (hd ys)"
    using lower_bound_split [of m k] by metis
  have ys_none: "takeWhile (\<lambda>p. P (iv_stop p)) ys = []"
    using ys wf above by (cases ys) (auto simp: m iv_ok_def)
  show ?thesis
  proof (cases xs rule: rev_cases)
    case Nil
    with m lb ys_none show ?thesis by simp
  next
    case (snoc us u)
    have us: "takeWhile (\<lambda>p. P (iv_stop p)) (us @ u # ys) =
        us @ takeWhile (\<lambda>p. P (iv_stop p)) (u # ys)"
      using wf xs below by (intro takeWhile_append2) (fastforce simp: m snoc)
    have u: "iv_end u = iv_stop u" using wf by (simp add: m snoc)
    have "P (iv_stop u)" if "ys \<noteq> []" "fst (hd ys) \<le> k"
      using that wf below by (cases ys) (auto simp: m snoc)
    then show ?thesis
      using lb us u ys_none by (cases ys) (auto simp: m snoc nth_append not_less)
  qed
qed

lemma find_inc_eq:
  "iv_wf m \<Longrightarrow> find_inc m k = length (takeWhile (\<lambda>p. iv_stop p \<le> k) m)"
  unfolding find_inc_def by (rule bound_search_eq) auto

lemma find_adj_eq:
  "iv_wf m \<Longrightarrow> find_adj m k = length (takeWhile (\<lambda>p. iv_stop p < k) m)"
  unfolding find_adj_def by (rule bound_search_eq) auto

lemma find_inc_split:
  assumes "iv_wf m"
  obtains xs ys where "m = xs @ ys" and "find_inc m k = length xs"
    and "\<forall>p\<in>set xs. iv_stop p \<le> k" and "ys \<noteq> [] \<Longrightarrow> k < iv_stop (hd ys)"
proof
  let ?P = "\<lambda>p. iv_stop p \<le> k"
  show "m = takeWhile ?P m @ dropWhile ?P m" by simp
  show "find_inc m k = length (takeWhile ?P m)" by (rule find_inc_eq [OF assms])
  show "\<forall>p\<in>set (takeWhile ?P m). ?P p" by (auto dest: set_takeWhileD)
  show "k < iv_stop (hd (dropWhile ?P m))" if "dropWhile ?P m \<noteq> []"
    using hd_dropWhile [OF that] by simp
qed

lemma find_adj_split:
  assumes "iv_wf m"
  obtains xs ys where "m = xs @ ys" and "find_adj m k = length xs"
    and "\<forall>p\<in>set xs. iv_stop p < k" and "ys \<noteq> [] \<Longrightarrow> k \<le> iv_stop (hd ys)"
proof
  let ?P = "\<lambda>p. iv_stop p < k"
  show "m = takeWhile ?P m @ dropWhile ?P m" by simp
  show "find_adj m k = length (takeWhile ?P m)" by (rule find_adj_eq [OF assms])
  show "\<forall>p\<in>set (takeWhile ?P m). ?P p" by (auto dest: set_takeWhileD)
  show "k \<le> iv_stop (hd (dropWhile ?P m))" if "dropWhile ?P m \<noteq> []"
    using hd_dropWhile [OF that] by simp
qed

lemma drop_find_inc: "iv_wf m \<Longrightarrow> drop (find_inc m k) m = dropWhile (\<lambda>p. iv_stop p \<le> k) m"
  by (simp add: find_inc_eq dropWhile_eq_drop)

subsection \<open>Queries\<close>

lemma contains_at_spec:
  assumes "iset_inv s"
  shows "contains_at s i = Some p \<longleftrightarrow> p \<in> set (iset_m s) \<and> fst p \<le> i \<and> i < iv_stop p"
proof -
  have wf: "iv_wf (iset_m s)" using assms by (simp add: iset_inv_def)
  obtain xs ys where m: "iset_m s = xs @ ys" and f: "find_inc (iset_m s) i = length xs"
    and xs: "\<forall>p\<in>set xs. iv_stop p \<le> i" and ys: "ys \<noteq> [] \<Longrightarrow> i < iv_stop (hd ys)"
    using find_inc_split [OF wf] by metis
  show ?thesis
  proof (cases ys)
    case Nil
    with xs f m show ?thesis by (force simp: contains_at_def)
  next
    case (Cons y zs)
    have y: "iv_end y = iv_stop y" "\<forall>q\<in>set zs. iv_stop y < fst q"
      using wf by (simp_all add: m Cons)
    have "contains_at s i = (if fst y \<le> i then Some y else None)"
      using f ys y(1) by (simp add: contains_at_def m Cons nth_append)
    moreover have "p = y" if "p \<in> set (iset_m s)" "fst p \<le> i" "i < iv_stop p" for p
    proof -
      have "p \<notin> set xs" using that(3) xs by auto
      moreover have "p \<notin> set zs" using that(2) ys y(2) Cons by fastforce
      ultimately show ?thesis using that(1) by (simp add: m Cons)
    qed
    moreover have "y \<in> set (iset_m s)" "i < iv_stop y" using ys by (simp_all add: m Cons)
    ultimately show ?thesis by (metis option.distinct(1) option.inject)
  qed
qed

lemma contains_spec:
  assumes "iset_inv s"
  shows "contains s i \<longleftrightarrow> i \<in> elems s"
  using contains_at_spec [OF assms, of i]
  unfolding contains_def elems_def elems_of_def UN_iff atLeastLessThan_iff
  by (metis not_None_eq)

lemma contains_range_spec:
  assumes inv: "iset_inv s" and len: "0 < len" "start + len < two64"
  shows "contains_range s start len \<longleftrightarrow> {start..<start + len} \<subseteq> elems s"
proof -
  have wf: "iv_wf (iset_m s)" using inv by (simp add: iset_inv_def)
  obtain xs ys where m: "iset_m s = xs @ ys" and f: "find_inc (iset_m s) start = length xs"
    and xs: "\<forall>p\<in>set xs. iv_stop p \<le> start" and ys: "ys \<noteq> [] \<Longrightarrow> start < iv_stop (hd ys)"
    using find_inc_split [OF wf] by metis
  have no_xs: "elems_of xs \<inter> {start..<start + len} = {}"
    using xs by (fastforce simp: elems_of_def)
  show ?thesis
  proof (cases ys)
    case Nil
    then have "\<not> {start..<start + len} \<subseteq> elems s"
      using no_xs len by (simp add: elems_def m Int_absorb1 Int_absorb2)
        (metis atLeastLessThan_empty_iff2 inf.absorb2 less_add_same_cancel1 not_le)
    then show ?thesis using Nil f m by (simp add: contains_range_def)
  next
    case (Cons y zs)
    have y: "iv_end y = iv_stop y" "\<forall>q\<in>set zs. iv_stop y < fst q" "iv_wf zs"
      using wf by (simp_all add: m Cons)
    have eq: "contains_range s start len \<longleftrightarrow> fst y \<le> start \<and> start + len \<le> iv_stop y"
      using f ys len y(1) by (auto simp: contains_range_def m Cons nth_append u64_simps)
    have "start \<in> elems s \<Longrightarrow> fst y \<le> start"
      using no_xs len y(2) ys by (fastforce simp: elems_def m Cons elems_of_def)
    moreover have "iv_stop y \<notin> elems s"
      using xs ys y(2) by (fastforce simp: elems_def m Cons elems_of_def)
    ultimately have "{start..<start + len} \<subseteq> elems s \<Longrightarrow> fst y \<le> start \<and> start + len \<le> iv_stop y"
      using len ys Cons
      by (metis atLeastLessThan_iff le_add1 leI less_add_same_cancel1 less_imp_le_nat list.distinct(1) list.sel(1) subsetD)
    moreover have "fst y \<le> start \<Longrightarrow> start + len \<le> iv_stop y \<Longrightarrow> {start..<start + len} \<subseteq> elems s"
      by (auto simp: elems_def m Cons)
    ultimately show ?thesis using eq by blast
  qed
qed

lemma iset_empty_spec: "iset_inv s \<Longrightarrow> iset_empty s \<longleftrightarrow> elems s = {}"
  by (cases "iset_m s") (auto simp: iset_empty_def elems_def iset_inv_def iv_ok_def)

lemma iset_size_card: "iset_inv s \<Longrightarrow> iset_size s = card (elems s)"
  by (simp add: iset_inv_def elems_def card_elems_of)

lemma range_start_spec:
  assumes inv: "iset_inv s" and ne: "elems s \<noteq> {}"
  shows "range_start s = Some (Min (elems s))"
proof -
  obtain p m where m: "iset_m s = p # m"
    using ne by (cases "iset_m s") (auto simp: elems_def)
  have wf: "iv_ok p" "\<forall>q\<in>set m. iv_stop p < fst q"
    using inv by (simp_all add: iset_inv_def m)
  have "Min (elems s) = fst p"
    using wf by (intro Min_eqI) (fastforce simp: elems_def m elems_of_def iv_ok_def)+
  then show ?thesis by (simp add: range_start_def iset_empty_def m)
qed

lemma range_end_spec:
  assumes inv: "iset_inv s" and ne: "elems s \<noteq> {}"
  shows "range_end s = Some (Suc (Max (elems s)))"
proof -
  obtain p m where m: "iset_m s = m @ [p]"
    using ne by (cases "iset_m s" rule: rev_cases) (auto simp: elems_def)
  have wf: "iv_ok p" "\<forall>q\<in>set m. iv_stop q < fst p"
    using inv by (simp_all add: iset_inv_def m)
  have "Max (elems s) = iv_stop p - 1"
    using wf by (intro Max_eqI) (fastforce simp: elems_def m elems_of_def iv_ok_def)+
  then show ?thesis using wf by (simp add: range_end_def iset_empty_def m iv_ok_def)
qed

subsection \<open>Insertion\<close>

text \<open>What an insertion promises: the new set and the range that now holds the inserted one.\<close>

definition inserted :: "interval_set \<Rightarrow> nat \<Rightarrow> nat \<Rightarrow> interval_set \<times> nat \<times> nat \<Rightarrow> bool" where
  "inserted s start len r \<longleftrightarrow>
     (case r of (s', f, l) \<Rightarrow>
        iset_inv s' \<and> elems s' = elems s \<union> {start..<start + len} \<and>
        (f, l) \<in> set (iset_m s') \<and> f \<le> start \<and> start + len \<le> f + l)"

lemma insertedI:
  assumes "iset_inv s" and "iv_wf m'"
    and "sum_list (map snd m') = sum_list (map snd (iset_m s)) + len"
    and "elems_of m' = elems s \<union> {start..<start + len}"
    and "(f, l) \<in> set m'" and "f \<le> start" and "start + len \<le> f + l"
  shows "inserted s start len (\<lparr>iset_size = add64 (iset_size s) len, iset_m = m'\<rparr>, f, l)"
proof -
  have "iset_size s + len < two64"
    using sum_list_two64 [OF assms(2)] assms(1,3) by (simp add: iset_inv_def)
  with assms show ?thesis
    by (simp add: inserted_def iset_inv_def elems_def u64_simps)
qed

text \<open>The three branches: past the last range, extending the range before, and in front of
  the range after.\<close>

lemma insert_last:
  assumes inv: "iset_inv s" and len: "0 < len" and bound: "start + len < two64"
    and f: "find_adj (iset_m s) start = length (iset_m s)"
    and xs: "\<forall>p\<in>set (iset_m s). iv_stop p < start"
  shows "\<exists>r. iset_insert s start len = Some r \<and> inserted s start len r"
proof -
  have "\<forall>p\<in>set (iset_m s). fst p < start" using xs by auto
  then have "iset_insert s start len =
      Some (\<lparr>iset_size = add64 (iset_size s) len, iset_m = iset_m s @ [(start, len)]\<rparr>, start, len)"
    using f len by (simp add: iset_insert_def smap_put_last)
  moreover have "inserted s start len
      (\<lparr>iset_size = add64 (iset_size s) len, iset_m = iset_m s @ [(start, len)]\<rparr>, start, len)"
    using inv xs len bound by (intro insertedI inv) (auto simp: iset_inv_def elems_def iv_ok_def)
  ultimately show ?thesis by blast
qed

lemma insert_extend:
  assumes inv: "iset_inv s" and len: "0 < len" and bound: "start + len < two64"
    and m: "iset_m s = xs @ (pf, ps) # zs" and f: "find_adj (iset_m s) start = length xs"
    and pf: "pf < start" and adj: "pf + ps = start"
    and zs_apart: "\<forall>q\<in>set zs. start + len \<le> fst q"
  shows "\<exists>r. iset_insert s start len = Some r \<and> inserted s start len r"
proof -
  have wfy: "iv_wf xs" "iv_wf zs" "iv_ok (pf, ps)" "\<forall>q\<in>set zs. pf + ps < fst q"
    "\<forall>p\<in>set xs. iv_stop p < pf" "\<forall>p\<in>set xs. \<forall>q\<in>set zs. iv_stop p < fst q"
    using inv by (simp_all add: iset_inv_def m)
  have ps64: "add64 pf ps = start" "add64 ps len = ps + len" "add64 start len = start + len"
    using bound adj by (simp_all add: u64_simps)
  show ?thesis
  proof (cases "zs \<noteq> [] \<and> fst (hd zs) = start + len")
    case True
    then obtain nl ws where zs: "zs = (start + len, nl) # ws" by (cases zs) auto
    have nl: "iv_ok (start + len, nl)" "\<forall>q\<in>set ws. start + len + nl < fst q"
      using wfy(2) by (simp_all add: zs)
    then have "add64 (ps + len) nl = ps + len + nl"
      using adj by (auto simp: iv_ok_def intro!: add64_eq)
    with ps64 have "iset_insert s start len = Some (\<lparr>iset_size = add64 (iset_size s) len,
        iset_m = xs @ (pf, ps + len + nl) # ws\<rparr>, pf, ps + len + nl)"
      using f len pf
      by (simp add: iset_insert_def m zs nth_append list_update_append erase_at_def Let_def)
    moreover have "inserted s start len (\<lparr>iset_size = add64 (iset_size s) len,
        iset_m = xs @ (pf, ps + len + nl) # ws\<rparr>, pf, ps + len + nl)"
      using wfy nl adj len bound
      by (intro insertedI inv) (auto simp: m zs elems_def iv_ok_def)
    ultimately show ?thesis by blast
  next
    case False
    then have far: "\<forall>q\<in>set zs. start + len < fst q"
      using zs_apart wfy(2,4) adj by (cases zs) (fastforce simp: iv_ok_def)+
    with ps64 have "iset_insert s start len = Some (\<lparr>iset_size = add64 (iset_size s) len,
        iset_m = xs @ (pf, ps + len) # zs\<rparr>, pf, ps + len)"
      using f len pf False
      by (cases zs) (auto simp: iset_insert_def m nth_append list_update_append)
    moreover have "inserted s start len (\<lparr>iset_size = add64 (iset_size s) len,
        iset_m = xs @ (pf, ps + len) # zs\<rparr>, pf, ps + len)"
      using wfy adj len bound far
      by (intro insertedI inv) (auto simp: m elems_def iv_ok_def)
    ultimately show ?thesis by blast
  qed
qed

lemma insert_before:
  assumes inv: "iset_inv s" and len: "0 < len" and bound: "start + len < two64"
    and m: "iset_m s = xs @ (pf, ps) # zs" and f: "find_adj (iset_m s) start = length xs"
    and xs: "\<forall>p\<in>set xs. iv_stop p < start" and le: "start + len \<le> pf"
  shows "\<exists>r. iset_insert s start len = Some r \<and> inserted s start len r"
proof -
  have wfy: "iv_wf xs" "iv_wf zs" "iv_ok (pf, ps)" "\<forall>q\<in>set zs. pf + ps < fst q"
    "\<forall>p\<in>set xs. iv_stop p < pf" "\<forall>p\<in>set xs. \<forall>q\<in>set zs. iv_stop p < fst q"
    using inv by (simp_all add: iset_inv_def m)
  have xs_less: "\<forall>p\<in>set xs. fst p < start" using xs by auto
  show ?thesis
  proof (cases "start + len = pf")
    case True
    have "smap_put start (len + ps) (xs @ zs) = xs @ (start, len + ps) # zs"
      using xs_less wfy(4) le by (intro smap_put_middle) auto
    then have "iset_insert s start len = Some (\<lparr>iset_size = add64 (iset_size s) len,
        iset_m = xs @ (start, len + ps) # zs\<rparr>, start, len + ps)"
      using f len True bound wfy(3)
      by (simp add: iset_insert_def m nth_append iv_ok_def u64_simps)
    moreover have "inserted s start len (\<lparr>iset_size = add64 (iset_size s) len,
        iset_m = xs @ (start, len + ps) # zs\<rparr>, start, len + ps)"
      using wfy len bound True xs
      by (intro insertedI inv) (auto simp: m elems_def iv_ok_def)
    ultimately show ?thesis by blast
  next
    case neq: False
    have "smap_put start len (xs @ (pf, ps) # zs) = xs @ (start, len) # (pf, ps) # zs"
      using xs_less wfy(4) le len by (intro smap_put_middle) auto
    then have "iset_insert s start len = Some (\<lparr>iset_size = add64 (iset_size s) len,
        iset_m = xs @ (start, len) # (pf, ps) # zs\<rparr>, start, len)"
      using f len neq bound le by (simp add: iset_insert_def m nth_append u64_simps)
    moreover have "inserted s start len (\<lparr>iset_size = add64 (iset_size s) len,
        iset_m = xs @ (start, len) # (pf, ps) # zs\<rparr>, start, len)"
      using wfy len bound le neq xs
      by (intro insertedI inv) (fastforce simp: m elems_def iv_ok_def)+
    ultimately show ?thesis by blast
  qed
qed

lemma iset_insert_ok:
  assumes inv: "iset_inv s" and len: "0 < len" and bound: "start + len < two64"
    and dis: "elems s \<inter> {start..<start + len} = {}"
  shows "\<exists>r. iset_insert s start len = Some r \<and> inserted s start len r"
proof -
  have wf: "iv_wf (iset_m s)" using inv by (simp add: iset_inv_def)
  obtain xs ys where m: "iset_m s = xs @ ys" and f: "find_adj (iset_m s) start = length xs"
    and xs: "\<forall>p\<in>set xs. iv_stop p < start" and ys: "ys \<noteq> [] \<Longrightarrow> start \<le> iv_stop (hd ys)"
    using find_adj_split [OF wf] by metis
  have "\<forall>p\<in>set ys. 0 < snd p" using wf iv_wf_ok by (simp add: m iv_ok_def) blast
  moreover have "\<forall>p\<in>set ys. snd p = 0 \<or> iv_stop p \<le> start \<or> start + len \<le> fst p"
    using dis disjoint_range_iff [OF len, of "iset_m s" start] by (simp add: elems_def m)
  ultimately have apart: "\<forall>p\<in>set ys. iv_stop p \<le> start \<or> start + len \<le> fst p"
    by (metis less_irrefl)
  show ?thesis
  proof (cases ys)
    case Nil
    with f xs show ?thesis by (intro insert_last inv len bound) (simp_all add: m)
  next
    case (Cons y zs)
    obtain pf ps where y: "y = (pf, ps)" by (cases y)
    have ok: "iv_ok (pf, ps)" "\<forall>q\<in>set zs. pf + ps < fst q"
      using wf by (simp_all add: m Cons y)
    show ?thesis
    proof (cases "pf < start")
      case True
      with ys apart have adj: "pf + ps = start" by (simp add: Cons y)
      have "\<forall>q\<in>set zs. start + len \<le> fst q"
        using apart ok(2) adj by (fastforce simp: Cons)
      with True adj show ?thesis by (intro insert_extend [OF inv len bound m [unfolded Cons y] f])
    next
      case False
      with apart ok have "start + len \<le> pf" by (auto simp: Cons y iv_ok_def)
      then show ?thesis by (rule insert_before [OF inv len bound m [unfolded Cons y] f xs])
    qed
  qed
qed

subsection \<open>Removal\<close>

lemma range_in_one:
  assumes inv: "iset_inv s" and len: "0 < len" and sub: "{start..<start + len} \<subseteq> elems s"
  obtains xs pf ps zs where "iset_m s = xs @ (pf, ps) # zs"
    and "find_inc (iset_m s) start = length xs" and "pf \<le> start" and "start + len \<le> pf + ps"
proof -
  have "start + len - 1 \<in> elems s" using sub len by auto
  then obtain p where "p \<in> set (iset_m s)" "start + len - 1 < iv_stop p" "iv_ok p"
    using inv by (force simp: elems_def elems_of_def iset_inv_def dest: iv_wf_ok)
  then have "start + len < two64" using len unfolding iv_ok_def by linarith
  then have c: "contains_range s start len"
    using contains_range_spec [OF inv len] sub by blast
  have wf: "iv_wf (iset_m s)" using inv by (simp add: iset_inv_def)
  obtain xs ys where m: "iset_m s = xs @ ys" and f: "find_inc (iset_m s) start = length xs"
    using find_inc_split [OF wf] by metis
  obtain pf ps zs where ys: "ys = (pf, ps) # zs"
    using c f by (cases ys) (auto simp: contains_range_def m Let_def)
  have "iv_end (pf, ps) = pf + ps" using wf by (simp add: m ys)
  then have "pf \<le> start" "start + len \<le> pf + ps"
    using c f \<open>start + len < two64\<close>
    by (auto simp: contains_range_def m ys Let_def nth_append u64_simps split: if_splits)
  with m ys f that show ?thesis by blast
qed

text \<open>What \<open>claim\<close> takes of the range that a removal splits.\<close>

definition claimed :: "(nat \<Rightarrow> nat \<Rightarrow> bool) \<Rightarrow> nat \<Rightarrow> nat \<Rightarrow> nat set" where
  "claimed claim f l = (if l \<noteq> 0 \<and> claim f l then {f..<f + l} else {})"

definition kept_piece :: "(nat \<Rightarrow> nat \<Rightarrow> bool) \<Rightarrow> nat \<Rightarrow> nat \<Rightarrow> ivs" where
  "kept_piece claim f l = (if l \<noteq> 0 \<and> \<not> claim f l then [(f, l)] else [])"

lemma elems_kept_piece [simp]: "elems_of (kept_piece claim f l) = {f..<f + l} - claimed claim f l"
  by (auto simp: kept_piece_def claimed_def)

lemma claimed_subset: "claimed claim f l \<subseteq> {f..<f + l}"
  by (auto simp: claimed_def)

lemma erase_result:
  assumes wf: "iv_wf (xs @ (pf, ps) # zs)" and m: "iset_m s = xs @ (pf, ps) # zs"
    and f: "find_inc (iset_m s) start = length xs"
    and pf: "pf \<le> start" and stop: "start + len \<le> pf + ps"
  defines "after \<equiv> pf + ps - (start + len)"
  shows "\<exists>sz. iset_erase_claim claim s start len = Some \<lparr>iset_size = sz,
      iset_m = xs @ kept_piece claim pf (start - pf) @ kept_piece claim (start + len) after @ zs\<rparr> \<and>
    sz = sub64 (sub64 (sub64 (iset_size s) len) (card (claimed claim pf (start - pf))))
      (card (claimed claim (start + len) after))"
proof -
  have b: "pf + ps < two64" "\<forall>q\<in>set zs. pf + ps < fst q" "\<forall>p\<in>set xs. fst p < pf"
    using wf by (fastforce simp: iv_ok_def)+
  have s64: "sub64 start pf = start - pf" "add64 (start - pf) len = start - pf + len"
    "add64 start len = start + len" "sub64 (sub64 ps (start - pf)) len = after"
    "start - pf + len \<le> ps"
    using b(1) pf stop by (auto simp: u64_simps after_def)
  have ne: "length xs \<noteq> length (xs @ (pf, ps) # zs)" by simp
  let ?sz = "sub64 (iset_size s) len"
  have "iset_erase_claim claim s start len =
    (let (m1, sz1) = (if start - pf \<noteq> 0 then
           (if claim pf (start - pf) then (xs @ zs, sub64 ?sz (start - pf))
            else (xs @ (pf, start - pf) # zs, ?sz)) else (xs @ zs, ?sz));
         (m2, sz2) = (if after \<noteq> 0 then
           (if claim (start + len) after then (m1, sub64 sz1 after)
            else (smap_put (start + len) after m1, sz1)) else (m1, sz1))
     in Some \<lparr>iset_size = sz2, iset_m = m2\<rparr>)"
    unfolding iset_erase_claim_def Let_def f
    unfolding m nth_append_length prod.case s64(1) s64(2,3,4) list_update_length erase_at_middle
    by (simp only: ensure_bind [OF pf] ensure_bind [OF s64(5)] ensure_bind [OF ne])
  moreover have "smap_put (start + len) after (xs @ zs) = xs @ (start + len, after) # zs"
    using b stop pf by (intro smap_put_middle) fastforce+
  moreover have "smap_put (start + len) after (xs @ (pf, start - pf) # zs) =
      xs @ (pf, start - pf) # (start + len, after) # zs" if "pf \<noteq> start"
    using smap_put_middle [of "xs @ [(pf, start - pf)]" "start + len" zs after] that b stop pf
    by fastforce
  moreover have "sub64 (sub64 x y) 0 = sub64 x y" for x y
    by (simp add: sub64_def)
  ultimately show ?thesis
    using pf by (auto simp: kept_piece_def claimed_def)
qed

lemma iset_erase_claim_ok:
  assumes inv: "iset_inv s" and len: "0 < len" and sub: "{start..<start + len} \<subseteq> elems s"
  shows "\<exists>s' f l. iset_erase_claim claim s start len = Some s' \<and> iset_inv s' \<and>
    (f, l) \<in> set (iset_m s) \<and> f \<le> start \<and> start + len \<le> f + l \<and>
    elems s' = elems s - {start..<start + len} - claimed claim f (start - f)
      - claimed claim (start + len) (f + l - (start + len))"
proof -
  obtain xs pf ps zs where m: "iset_m s = xs @ (pf, ps) # zs"
    and f: "find_inc (iset_m s) start = length xs" and pf: "pf \<le> start" "start + len \<le> pf + ps"
    using range_in_one [OF inv len sub] .
  have wf: "iv_wf (xs @ (pf, ps) # zs)" using inv by (simp add: iset_inv_def m)
  let ?after = "pf + ps - (start + len)"
  let ?m = "xs @ kept_piece claim pf (start - pf) @ kept_piece claim (start + len) ?after @ zs"
  let ?cb = "card (claimed claim pf (start - pf))" and ?ca = "card (claimed claim (start + len) ?after)"
  obtain sz where e: "iset_erase_claim claim s start len = Some \<lparr>iset_size = sz, iset_m = ?m\<rparr>"
    and sz: "sz = sub64 (sub64 (sub64 (iset_size s) len) ?cb) ?ca"
    using erase_result [OF wf m f pf] by blast
  have wf': "iv_wf ?m"
    using wf pf len by (auto simp: kept_piece_def iv_ok_def)
  have sum: "sum_list (map snd ?m) + len + ?cb + ?ca = iset_size s"
    using inv pf by (auto simp: iset_inv_def m kept_piece_def claimed_def)
  have "iset_size s < two64" using inv sum_list_two64 by (auto simp: iset_inv_def)
  then have "sz = sum_list (map snd ?m)"
    unfolding sz using sum by (simp add: u64_simps)
  with wf' have inv': "iset_inv \<lparr>iset_size = sz, iset_m = ?m\<rparr>"
    by (simp add: iset_inv_def)
  have out: "elems_of xs \<inter> {pf..<pf + ps} = {}" "elems_of zs \<inter> {pf..<pf + ps} = {}"
    using wf by (fastforce simp: elems_of_def)+
  have "elems \<lparr>iset_size = sz, iset_m = ?m\<rparr> = elems s - {start..<start + len}
      - claimed claim pf (start - pf) - claimed claim (start + len) ?after"
  proof -
    have split: "{pf..<pf + ps} =
        {pf..<pf + (start - pf)} \<union> {start..<start + len} \<union> {start + len..<start + len + ?after}"
      using pf by auto
    have "{pf..<pf + (start - pf)} \<inter> {start..<start + len} = {}"
      "{pf..<pf + (start - pf)} \<inter> {start + len..<start + len + ?after} = {}"
      "{start..<start + len} \<inter> {start + len..<start + len + ?after} = {}"
      using pf by auto
    then show ?thesis
      using out claimed_subset [of claim pf "start - pf"] claimed_subset [of claim "start + len" ?after]
      unfolding elems_def m elems_of_simps elems_kept_piece interval_set.select_convs fst_conv snd_conv split
      by blast
  qed
  with e inv' pf show ?thesis by (fastforce simp: m)
qed

lemma iset_erase_ok:
  assumes "iset_inv s" and "0 < len" and "{start..<start + len} \<subseteq> elems s"
  shows "\<exists>s'. iset_erase s start len = Some s' \<and> iset_inv s' \<and>
    elems s' = elems s - {start..<start + len}"
  using iset_erase_claim_ok [OF assms, of "\<lambda>_ _. False"]
  by (auto simp: iset_erase_def claimed_def)

lemma iset_erase_claim_None:
  assumes inv: "iset_inv s" and len: "0 < len" "start + len < two64"
    and out: "\<not> {start..<start + len} \<subseteq> elems s"
  shows "iset_erase_claim claim s start len = None"
proof -
  have wf: "iv_wf (iset_m s)" using inv by (simp add: iset_inv_def)
  obtain xs ys where m: "iset_m s = xs @ ys" and f: "find_inc (iset_m s) start = length xs"
    and ys: "ys \<noteq> [] \<Longrightarrow> start < iv_stop (hd ys)"
    using find_inc_split [OF wf] by metis
  show ?thesis
  proof (cases ys)
    case Nil
    then show ?thesis using f by (simp add: iset_erase_claim_def m Let_def)
  next
    case (Cons y zs)
    obtain pf ps where y: "y = (pf, ps)" by (cases y)
    have ok: "iv_end (pf, ps) = pf + ps" "pf + ps < two64"
      using wf by (simp_all add: m Cons y) (simp add: iv_ok_def)
    have "\<not> contains_range s start len" using contains_range_spec [OF inv len] out by blast
    then have "pf \<le> start \<Longrightarrow> pf + ps < start + len"
      using f ys ok(1) len by (simp add: contains_range_def m Cons y nth_append u64_simps split: if_splits)
    then show ?thesis
      using f ok len by (auto simp: iset_erase_claim_def m Cons y nth_append Let_def u64_simps ensure_def)
  qed
qed

subsection \<open>Whole sets inserted and removed\<close>

lemma insert_all_ok:
  "iset_inv s \<Longrightarrow> iv_wf a \<Longrightarrow> elems_of a \<inter> elems s = {} \<Longrightarrow>
   \<exists>s'. insert_all s a = Some s' \<and> iset_inv s' \<and> elems s' = elems s \<union> elems_of a"
proof (induction a arbitrary: s)
  case (Cons p a)
  obtain st l where p: "p = (st, l)" by (cases p)
  have ok: "0 < l" "st + l < two64" using Cons.prems(2) by (simp_all add: p iv_ok_def)
  have dis: "elems s \<inter> {st..<st + l} = {}" using Cons.prems(3) by (auto simp: p)
  obtain s' f' l' where ins: "iset_insert s st l = Some (s', f', l')" and
    s': "iset_inv s'" "elems s' = elems s \<union> {st..<st + l}"
    using iset_insert_ok [OF Cons.prems(1) ok dis] by (auto simp: inserted_def)
  have "elems_of a \<inter> elems s' = {}"
    using Cons.prems(3) iv_wf_Cons_disjoint [OF Cons.prems(2)] unfolding s' by (auto simp: p)
  then obtain s'' where "insert_all s' a = Some s''" "iset_inv s''" "elems s'' = elems s' \<union> elems_of a"
    using Cons.IH [OF s'(1)] Cons.prems(2) by auto
  with ins s' show ?case by (simp add: p Un_assoc)
qed simp

lemma erase_all_ok:
  "iset_inv s \<Longrightarrow> iv_wf a \<Longrightarrow> elems_of a \<subseteq> elems s \<Longrightarrow>
   \<exists>s'. erase_all s a = Some s' \<and> iset_inv s' \<and> elems s' = elems s - elems_of a"
proof (induction a arbitrary: s)
  case (Cons p a)
  obtain st l where p: "p = (st, l)" by (cases p)
  have ok: "0 < l" using Cons.prems(2) by (simp add: p iv_ok_def)
  have sub: "{st..<st + l} \<subseteq> elems s" using Cons.prems(3) by (auto simp: p)
  obtain s' where er: "iset_erase s st l = Some s'" and
    s': "iset_inv s'" "elems s' = elems s - {st..<st + l}"
    using iset_erase_ok [OF Cons.prems(1) ok sub] by blast
  have "elems_of a \<subseteq> elems s'"
    using Cons.prems(3) iv_wf_Cons_disjoint [OF Cons.prems(2)] unfolding s' by (auto simp: p)
  then obtain s'' where "erase_all s' a = Some s''" "iset_inv s''" "elems s'' = elems s' - elems_of a"
    using Cons.IH [OF s'(1)] Cons.prems(2) by auto
  with er s' show ?case by (auto simp: p)
qed simp

subsection \<open>Intersection\<close>

text \<open>The reference: a plain merge of two range lists.\<close>

fun inter_ref :: "ivs \<Rightarrow> ivs \<Rightarrow> ivs" where
  "inter_ref (x # pa) (y # pb) =
     (let st = max (fst x) (fst y); en = min (iv_stop x) (iv_stop y) in
      (if st < en then [(st, en - st)] else []) @
      (if iv_stop x \<le> iv_stop y then inter_ref pa (y # pb) else inter_ref (x # pa) pb))"
| "inter_ref pa pb = []"

lemma inter_ref_Nil2 [simp]: "inter_ref pa [] = []"
  by (cases pa) simp_all

lemma elems_inter_ref:
  "iv_wf a \<Longrightarrow> iv_wf b \<Longrightarrow> elems_of (inter_ref a b) = elems_of a \<inter> elems_of b"
proof (induction a b rule: inter_ref.induct)
  case (1 x pa y pb)
  have xy: "elems_of (let st = max (fst x) (fst y); en = min (iv_stop x) (iv_stop y) in
      if st < en then [(st, en - st)] else []) = {fst x..<iv_stop x} \<inter> {fst y..<iv_stop y}"
    by (auto simp: Let_def)
  show ?case
  proof (cases "iv_stop x \<le> iv_stop y")
    case True
    have "{fst x..<iv_stop x} \<inter> elems_of pb = {}"
      using 1(4) True by (fastforce simp: elems_of_def)
    then show ?thesis using 1 True xy by (auto simp: Let_def)
  next
    case False
    have "elems_of pa \<inter> {fst y..<iv_stop y} = {}"
      using 1(3) False by (fastforce simp: elems_of_def)
    then show ?thesis using 1 False xy by (auto simp: Let_def)
  qed
qed simp_all

lemma inter_ref_within:
  "r \<in> set (inter_ref a b) \<Longrightarrow>
   (\<exists>x\<in>set a. fst x \<le> fst r \<and> iv_stop r \<le> iv_stop x) \<and>
   (\<exists>y\<in>set b. fst y \<le> fst r \<and> iv_stop r \<le> iv_stop y) \<and> 0 < snd r"
proof (induction a b rule: inter_ref.induct)
  case (1 x pa y pb)
  then show ?case by (fastforce simp: Let_def split: if_splits)
qed simp_all

lemma iv_wf_inter_ref: "iv_wf a \<Longrightarrow> iv_wf b \<Longrightarrow> iv_wf (inter_ref a b)"
proof (induction a b rule: inter_ref.induct)
  case (1 x pa y pb)
  let ?r = "(max (fst x) (fst y), min (iv_stop x) (iv_stop y) - max (fst x) (fst y))"
  show ?case
  proof (cases "iv_stop x \<le> iv_stop y")
    case True
    have "iv_stop x < fst r" if "r \<in> set (inter_ref pa (y # pb))" for r
      using inter_ref_within [OF that] 1(3) by fastforce
    with 1 True show ?thesis by (fastforce simp: Let_def iv_ok_def)
  next
    case False
    have "iv_stop y < fst r" if "r \<in> set (inter_ref (x # pa) pb)" for r
      using inter_ref_within [OF that] 1(4) by fastforce
    with 1 False show ?thesis by (fastforce simp: Let_def iv_ok_def)
  qed
qed simp_all

lemma inter_ref_skip_left:
  assumes "iv_stop p \<le> fst y"
  shows "inter_ref (p # ps) (y # pl) = inter_ref ps (y # pl)"
proof -
  have "iv_stop p \<le> iv_stop y" using assms by linarith
  with assms show ?thesis by (simp add: Let_def)
qed

lemma inter_ref_skip_right:
  assumes "iv_stop y \<le> fst x" and "0 < snd x"
  shows "inter_ref (x # pa) (y # pl) = inter_ref (x # pa) pl"
proof -
  have "\<not> iv_stop x \<le> iv_stop y" using assms by linarith
  with assms show ?thesis by (simp add: Let_def)
qed

lemma inter_ref_dropWhile_left:
  "inter_ref ps (y # pl) = inter_ref (dropWhile (\<lambda>p. iv_stop p \<le> fst y) ps) (y # pl)"
  by (induction ps) (auto simp: inter_ref_skip_left simp del: inter_ref.simps(1))

lemma inter_ref_dropWhile_right:
  "0 < snd x \<Longrightarrow> inter_ref (x # pa) l = inter_ref (x # pa) (dropWhile (\<lambda>q. iv_stop q \<le> fst x) l)"
  by (induction l) (auto simp: inter_ref_skip_right simp del: inter_ref.simps(1))

lemma inter_ref_equal:
  assumes "iv_wf (x # pa)" and "iv_wf (x # pb)"
  shows "inter_ref (x # pa) (x # pb) = x # inter_ref pa pb"
proof -
  have x: "0 < snd x" using assms by (simp add: iv_ok_def)
  have "inter_ref pa (x # pb) = inter_ref pa pb"
  proof (cases pa)
    case (Cons z pa')
    then have "iv_stop x \<le> fst z" "0 < snd z" using assms by (auto simp: iv_ok_def)
    then show ?thesis by (simp only: Cons inter_ref_skip_right)
  qed simp
  with x show ?thesis by simp
qed

lemma copy_equal_spec:
  assumes "copy_equal ps qs m sz = (ps', qs', m', sz')"
    and "iv_wf ps" and "iv_wf qs" and "smap_wf (m @ inter_ref ps qs)"
    and "sz + sum_list (map snd (inter_ref ps qs)) < two64"
  shows "\<exists>c. ps = c @ ps' \<and> qs = c @ qs' \<and> m' = m @ c \<and>
    inter_ref ps qs = c @ inter_ref ps' qs' \<and> sz' = sz + sum_list (map snd c)"
  using assms
proof (induction ps qs m sz rule: copy_equal.induct)
  case (1 p ps q qs m sz)
  show ?case
  proof (cases "p = q")
    case True
    have eq: "inter_ref (p # ps) (q # qs) = p # inter_ref ps qs"
      using 1(3,4) True inter_ref_equal by blast
    then have app: "smap_emplace (fst p) (snd p) m = m @ [p]"
      using 1(5) by (subst smap_emplace_last) (auto simp: smap_wf_append)
    have "add64 sz (snd p) = sz + snd p" using 1(6) eq by (auto intro!: add64_eq)
    with app 1(1) [OF True] 1(2-6) True eq obtain c where
      "ps = c @ ps'" "qs = c @ qs'" "m' = (m @ [p]) @ c"
      "inter_ref ps qs = c @ inter_ref ps' qs'" "sz' = sz + snd p + sum_list (map snd c)"
      by auto
    then show ?thesis using True eq by (intro exI [of _ "p # c"]) simp
  next
    case False
    with 1(2) show ?thesis by (intro exI [of _ "[]"]) simp
  qed
qed auto

end
