(* ===== verification/Interval_Set_Algebra.thy ===== *)
theory Interval_Set_Algebra
  imports Interval_Set_Correct
begin

text \<open>
  The operations of \<open>interval_set\<close> on whole sets. Both intersection algorithms, the merge and
  the one that looks up the larger set, are shown equal to one reference merge, and so are
  set intersection; union, inclusion and span follow. At the end the class is shown to
  provide the interface \<open>extent_set\<close>.
\<close>

subsection \<open>The merge\<close>

declare inter_ref.simps(1) [simp del]
lemmas inter_ref_step = inter_ref.simps(1) [unfolded Let_def]

lemma emplace_next:
  assumes "smap_wf (m @ r # rs)" and "sz + sum_list (map snd (r # rs)) < two64"
  shows "smap_emplace (fst r) (snd r) m = m @ [r]"
    and "add64 sz (the (map_of (m @ [r]) (fst r))) = sz + snd r"
    and "add64 sz (snd r) = sz + snd r"
proof -
  show "smap_emplace (fst r) (snd r) m = m @ [r]"
    using assms(1) by (subst smap_emplace_last) (auto simp: smap_wf_append)
  have "fst r \<notin> fst ` set m" using assms(1) by (force simp: smap_wf_append)
  then have "map_of m (fst r) = None" by (simp add: map_of_eq_None_iff)
  then have "map_of (m @ [r]) (fst r) = Some (snd r)" by (simp add: map_add_def)
  moreover show s: "add64 sz (snd r) = sz + snd r" using assms(2) by (simp add: u64_simps)
  ultimately show "add64 sz (the (map_of (m @ [r]) (fst r))) = sz + snd r" by simp
qed

lemma intersect_merge_eq:
  "iv_wf a \<Longrightarrow> iv_wf b \<Longrightarrow> smap_wf (m @ inter_ref a b) \<Longrightarrow>
   sz + sum_list (map snd (inter_ref a b)) < two64 \<Longrightarrow>
   intersect_merge a b m sz = Some (m @ inter_ref a b, sz + sum_list (map snd (inter_ref a b)))"
proof (induction a b m sz rule: intersect_merge.induct)
  case (3 x pa y pb m sz)
  have e: "iv_end x = iv_stop x" "iv_end y = iv_stop y" and ok: "iv_ok x" "iv_ok y"
    using 3(6,7) by simp_all
  consider (left) "iv_stop x \<le> fst y" | (right) "\<not> iv_stop x \<le> fst y" "iv_stop y \<le> fst x"
    | (same) "x = y" | (cross) "\<not> iv_stop x \<le> fst y" "\<not> iv_stop y \<le> fst x" "x \<noteq> y"
    by blast
  then show ?case
  proof cases
    case left
    then show ?thesis
      using 3(1,6-9) e inter_ref_skip_left [OF left, of pa pb]
      by simp
  next
    case right
    then show ?thesis
      using 3(2,6-9) e ok inter_ref_skip_right [OF right(2), of pa pb]
      by (simp add: iv_ok_def)
  next
    case same
    have eq: "inter_ref (x # pa) (y # pb) = x # inter_ref pa pb"
      using inter_ref_equal 3(6,7) same by blast
    note nx = emplace_next [OF 3(8) [unfolded eq] 3(9) [unfolded eq]]
    obtain pa' pb' m' sz' where ce: "copy_equal pa pb (m @ [x]) (sz + snd x) = (pa', pb', m', sz')"
      by (metis prod_cases4)
    have "\<exists>c. pa = c @ pa' \<and> pb = c @ pb' \<and> m' = (m @ [x]) @ c \<and>
        inter_ref pa pb = c @ inter_ref pa' pb' \<and> sz' = sz + snd x + sum_list (map snd c)"
      using ce by (rule copy_equal_spec) (use 3(6-9) eq in auto)
    then obtain c where c: "pa = c @ pa'" "pb = c @ pb'" "m' = (m @ [x]) @ c"
        "inter_ref pa pb = c @ inter_ref pa' pb'" "sz' = sz + snd x + sum_list (map snd c)"
      by blast
    have "\<not> iv_stop x \<le> fst x" using ok by (simp add: iv_ok_def)
    then have "intersect_merge (x # pa) (y # pb) m sz = intersect_merge pa' pb' m' sz'"
      using e nx ce by (simp add: same)
    moreover have "intersect_merge pa' pb' m' sz' =
        Some (m' @ inter_ref pa' pb', sz' + sum_list (map snd (inter_ref pa' pb')))"
      by (rule 3(3) [OF _ _ same ce [folded nx(1,3), symmetric] refl refl])
        (use 3(6-9) e c eq \<open>\<not> iv_stop x \<le> fst x\<close> in \<open>simp_all add: same\<close>)
    ultimately show ?thesis using c eq by simp
  next
    case cross
    let ?st = "max (fst x) (fst y)" and ?en = "min (iv_stop x) (iv_stop y)"
    have lt: "?st < ?en" using cross ok by (auto simp: iv_ok_def)
    have wf: "iv_wf pa" "iv_wf pb" using 3(6,7) by simp_all
    define d where "d = ?en - ?st"
    show ?thesis
    proof (cases "iv_stop x \<le> iv_stop y")
      case True
      have eq: "inter_ref (x # pa) (y # pb) = (?st, d) # inter_ref pa (y # pb)"
        using lt True by (simp add: inter_ref_step d_def)
      note nx = emplace_next [OF 3(8) [unfolded eq] 3(9) [unfolded eq], unfolded fst_conv snd_conv]
      have m': "smap_emplace ?st (?en - ?st) m = m @ [(?st, d)]"
        and s': "add64 sz (the (map_of (m @ [(?st, d)]) ?st)) = sz + d"
        using nx by (simp_all only: d_def)
      have "intersect_merge (x # pa) (y # pb) m sz = intersect_merge pa (y # pb) (m @ [(?st, d)]) (sz + d)"
        unfolding intersect_merge.simps(3) Let_def e d_def [symmetric] nx
        using cross lt True by simp
      also have "\<dots> = Some ((m @ [(?st, d)]) @ inter_ref pa (y # pb),
          sz + d + sum_list (map snd (inter_ref pa (y # pb))))"
        by (rule 3(5) [unfolded e, OF cross refl refl _ m' [symmetric] s' [symmetric]])
          (use 3(6-9) lt True eq wf in simp_all)
      finally show ?thesis by (simp add: eq)
    next
      case False
      have eq: "inter_ref (x # pa) (y # pb) = (?st, d) # inter_ref (x # pa) pb"
        using lt False by (simp add: inter_ref_step d_def)
      note nx = emplace_next [OF 3(8) [unfolded eq] 3(9) [unfolded eq], unfolded fst_conv snd_conv]
      have m': "smap_emplace ?st (?en - ?st) m = m @ [(?st, d)]"
        and s': "add64 sz (the (map_of (m @ [(?st, d)]) ?st)) = sz + d"
        using nx by (simp_all only: d_def)
      have "intersect_merge (x # pa) (y # pb) m sz = intersect_merge (x # pa) pb (m @ [(?st, d)]) (sz + d)"
        unfolding intersect_merge.simps(3) Let_def e d_def [symmetric] nx
        using cross lt False by simp
      also have "\<dots> = Some ((m @ [(?st, d)]) @ inter_ref (x # pa) pb,
          sz + d + sum_list (map snd (inter_ref (x # pa) pb)))"
        by (rule 3(4) [unfolded e, OF cross refl refl _ m' [symmetric] s' [symmetric]])
          (use 3(6-9) lt False eq wf in simp_all)
      finally show ?thesis by (simp add: eq)
    qed
  qed
qed simp_all

subsection \<open>The lookup algorithm\<close>

text \<open>\<open>rest_from o l\<close> is the part of \<open>l\<close> that \<open>find_inc\<close> positions at.\<close>

definition rest_from :: "nat \<Rightarrow> ivs \<Rightarrow> ivs" where
  "rest_from off l = dropWhile (\<lambda>q. iv_stop q \<le> off) l"

lemma drop_find_inc_rest: "iv_wf l \<Longrightarrow> drop (find_inc l off) l = rest_from off l"
  by (simp add: rest_from_def drop_find_inc)

lemma rest_from_append:
  "(\<forall>u\<in>set us. iv_stop u \<le> off) \<Longrightarrow> rest_from off (us @ vs) = rest_from off vs"
  by (simp add: rest_from_def dropWhile_append2)

lemma rest_from_Cons:
  assumes "rest_from off l = y # pl"
  obtains us where "l = us @ y # pl" and "\<forall>u\<in>set us. iv_stop u \<le> off" and "off < iv_stop y"
proof
  let ?P = "\<lambda>q. iv_stop q \<le> off"
  show "l = takeWhile ?P l @ y # pl"
    using assms takeWhile_dropWhile_id [of ?P l] by (simp add: rest_from_def)
  show "\<forall>u\<in>set (takeWhile ?P l). ?P u" by (auto dest: set_takeWhileD)
  show "off < iv_stop y" using assms hd_dropWhile [of ?P l] by (simp add: rest_from_def)
qed

lemma inter_ref_rest_from:
  "iv_ok x \<Longrightarrow> inter_ref (x # pa) (rest_from (fst x) l) = inter_ref (x # pa) l"
  unfolding rest_from_def using inter_ref_dropWhile_right [of x pa l] by (simp add: iv_ok_def)

lemma length_rest_from: "length (rest_from off l) \<le> length l"
  by (simp add: rest_from_def length_dropWhile_le)

lemma dropWhile_iv_end:
  "iv_wf ps \<Longrightarrow> dropWhile (\<lambda>p. iv_end p \<le> k) ps = dropWhile (\<lambda>p. iv_stop p \<le> k) ps"
  by (rule dropWhile_cong) (simp_all add: iv_wf_end)

lemma iv_wf_dropWhile: "iv_wf ps \<Longrightarrow> iv_wf (dropWhile P ps)"
  by (metis iv_wf_append takeWhile_dropWhile_id)

text \<open>\<open>asym_goes fuel l\<close>: with this much fuel, the loop returns the reference intersection
  from any position whose remaining ranges the fuel outnumbers.\<close>

definition asym_goes :: "nat \<Rightarrow> ivs \<Rightarrow> bool" where
  "asym_goes fuel l \<longleftrightarrow>
     (\<forall>off ps m sz. iv_wf ps \<longrightarrow> length ps + length (rest_from off l) < fuel \<longrightarrow>
        smap_wf (m @ inter_ref ps (rest_from off l)) \<longrightarrow>
        sz + sum_list (map snd (inter_ref ps (rest_from off l))) < two64 \<longrightarrow>
        asym_loop fuel off ps l m sz =
          Some (m @ inter_ref ps (rest_from off l),
                sz + sum_list (map snd (inter_ref ps (rest_from off l)))))"

lemma asym_goesD:
  assumes "asym_goes fuel l" and "iv_wf ps" and "length ps + length (rest_from off l) < fuel"
    and "R = inter_ref ps (rest_from off l)" and "smap_wf (m @ R)"
    and "sz + sum_list (map snd R) < two64"
  shows "asym_loop fuel off ps l m sz = Some (m @ R, sz + sum_list (map snd R))"
  using assms unfolding asym_goes_def by blast

lemma asym_advance:
  assumes go: "asym_goes fuel l" and ps: "iv_wf (z # ps')" and l: "l = us @ vs" "iv_wf l"
    and us: "\<forall>u\<in>set us. iv_stop u \<le> fst z" and fuel: "length (z # ps') + length vs < fuel"
    and R: "R = inter_ref (z # ps') vs" "smap_wf (m @ R)" "sz + sum_list (map snd R) < two64"
  shows "asym_loop fuel (fst z) (z # ps') l m sz = Some (m @ R, sz + sum_list (map snd R))"
proof (rule asym_goesD [OF go ps _ _ R(2,3)])
  have rf: "rest_from (fst z) l = rest_from (fst z) vs" using us by (simp add: l rest_from_append)
  show "length (z # ps') + length (rest_from (fst z) l) < fuel"
    using fuel length_rest_from [of "fst z" vs] by (simp add: rf)
  show "R = inter_ref (z # ps') (rest_from (fst z) l)"
    using ps by (simp add: rf R(1) inter_ref_rest_from)
qed

lemma asym_equal:
  assumes go: "asym_goes fuel l" and l: "l = us @ x # pl" "iv_wf l" and ps: "iv_wf (x # ps')"
    and fuel: "length (x # ps') + length (x # pl) \<le> fuel"
    and R: "R = x # inter_ref ps' pl" "smap_wf (m @ R)" "sz + sum_list (map snd R) < two64"
    and ce: "copy_equal ps' pl (m @ [x]) (sz + snd x) = (ps'', qs'', m', sz')"
  shows "(case ps'' of [] \<Rightarrow> Some (m', sz') | z # _ \<Rightarrow> asym_loop fuel (fst z) ps'' l m' sz') =
    Some (m @ R, sz + sum_list (map snd R))"
proof -
  have "\<exists>c. ps' = c @ ps'' \<and> pl = c @ qs'' \<and> m' = (m @ [x]) @ c \<and>
      inter_ref ps' pl = c @ inter_ref ps'' qs'' \<and> sz' = sz + snd x + sum_list (map snd c)"
    using ce by (rule copy_equal_spec) (use R l ps in auto)
  then obtain c where c: "ps' = c @ ps''" "pl = c @ qs''" "m' = m @ x # c"
      "inter_ref ps' pl = c @ inter_ref ps'' qs''" "sz' = sz + snd x + sum_list (map snd c)"
    by auto
  show ?thesis
  proof (cases ps'')
    case Nil
    with c R show ?thesis by simp
  next
    case (Cons z zs)
    have "asym_loop fuel (fst z) (z # zs) l m' sz' = Some (m' @ inter_ref ps'' qs'',
        sz' + sum_list (map snd (inter_ref ps'' qs'')))"
    proof (rule asym_advance [OF go, where us = "us @ x # c" and vs = qs''])
      have "\<forall>u\<in>set (x # c). iv_stop u \<le> fst z" using ps by (fastforce simp: c Cons)
      moreover have "\<forall>u\<in>set us. iv_stop u \<le> iv_stop x" using l by fastforce
      ultimately show "\<forall>u\<in>set (us @ x # c). iv_stop u \<le> fst z" by fastforce
    qed (use ps l fuel R c Cons in auto)
    with c R Cons show ?thesis by simp
  qed
qed

lemma asym_cross:
  assumes go: "asym_goes fuel l" and l: "l = us @ y # pl" "iv_wf l" and ps: "iv_wf (x # ps')"
    and fuel: "length (x # ps') + length (y # pl) \<le> fuel"
    and meet: "fst y < iv_stop x" "fst x < iv_stop y"
  defines "r \<equiv> (max (fst x) (fst y), min (iv_stop x) (iv_stop y) - max (fst x) (fst y))"
  assumes R: "R = inter_ref (x # ps') (y # pl)" "smap_wf (m @ R)" "sz + sum_list (map snd R) < two64"
  shows "(if iv_stop x \<le> iv_stop y
      then (case ps' of [] \<Rightarrow> Some (m @ [r], sz + snd r)
            | z # _ \<Rightarrow> asym_loop fuel (fst z) ps' l (m @ [r]) (sz + snd r))
      else asym_loop fuel (iv_stop y) (x # ps') l (m @ [r]) (sz + snd r)) =
    Some (m @ R, sz + sum_list (map snd R))"
proof -
  have lt: "max (fst x) (fst y) < min (iv_stop x) (iv_stop y)"
    using meet ps l by (auto simp: iv_ok_def)
  show ?thesis
  proof (cases "iv_stop x \<le> iv_stop y")
    case True
    then have Rr: "R = r # inter_ref ps' (y # pl)" using R lt by (simp add: inter_ref_step r_def)
    show ?thesis
    proof (cases ps')
      case (Cons z zs)
      have "asym_loop fuel (fst z) (z # zs) l (m @ [r]) (sz + snd r) =
          Some ((m @ [r]) @ inter_ref ps' (y # pl), sz + snd r + sum_list (map snd (inter_ref ps' (y # pl))))"
      proof (rule asym_advance [OF go, where us = us and vs = "y # pl"])
        show "\<forall>u\<in>set us. iv_stop u \<le> fst z" using l meet ps Cons by fastforce
      qed (use ps l fuel R(2,3) [unfolded Rr] Cons in auto)
      with True Cons Rr show ?thesis by simp
    qed (use True Rr in simp)
  next
    case False
    then have Rr: "R = r # inter_ref (x # ps') pl" using R lt by (simp add: inter_ref_step r_def)
    have "\<forall>u\<in>set (us @ [y]). iv_stop u \<le> iv_stop y" using l by fastforce
    then have "rest_from (iv_stop y) l = rest_from (iv_stop y) pl"
      using rest_from_append [of "us @ [y]" _ pl] l by simp
    also have "\<dots> = pl" using l by (cases pl) (auto simp: rest_from_def iv_ok_def)
    finally have rf: "rest_from (iv_stop y) l = pl" .
    have "asym_loop fuel (iv_stop y) (x # ps') l (m @ [r]) (sz + snd r) =
        Some ((m @ [r]) @ inter_ref (x # ps') pl, sz + snd r + sum_list (map snd (inter_ref (x # ps') pl)))"
      by (rule asym_goesD [OF go ps]) (use fuel R(2,3) [unfolded Rr] rf in auto)
    with False Rr show ?thesis by simp
  qed
qed

lemma asym_goes_Suc:
  assumes go: "asym_goes fuel l" and wl: "iv_wf l"
  shows "asym_goes (Suc fuel) l"
  unfolding asym_goes_def
proof (intro allI impI)
  fix off ps m sz
  let ?R = "inter_ref ps (rest_from off l)"
  assume ps: "iv_wf ps" and fuel: "length ps + length (rest_from off l) < Suc fuel"
    and sm: "smap_wf (m @ ?R)" and sz: "sz + sum_list (map snd ?R) < two64"
  show "asym_loop (Suc fuel) off ps l m sz = Some (m @ ?R, sz + sum_list (map snd ?R))"
  proof (cases "rest_from off l")
    case Nil
    then show ?thesis by (simp add: drop_find_inc_rest [OF wl])
  next
    case (Cons y pl)
    obtain us where l: "l = us @ y # pl" using rest_from_Cons [OF Cons] by blast
    have y: "iv_ok y" "iv_end y = iv_stop y" using wl l by simp_all
    define ps1 where "ps1 = dropWhile (\<lambda>p. iv_stop p \<le> fst y) ps"
    have R1: "?R = inter_ref ps1 (y # pl)"
      unfolding Cons ps1_def by (rule inter_ref_dropWhile_left)
    have wps1: "iv_wf ps1" and le1: "length ps1 \<le> length ps"
      unfolding ps1_def using ps by (simp_all add: iv_wf_dropWhile length_dropWhile_le)
    note body = asym_loop.simps(2) drop_find_inc_rest [OF wl] Cons list.case
      dropWhile_iv_end [OF ps] ps1_def [symmetric] Let_def y(2)
    show ?thesis
    proof (cases ps1)
      case Nil
      then have "inter_ref ps (y # pl) = []" using R1 by (simp add: Cons)
      then show ?thesis unfolding body using Nil by simp
    next
      case ps1: (Cons x ps')
      have x: "iv_ok x" "iv_end x = iv_stop x" using wps1 ps1 by simp_all
      have x3: "fst y < iv_stop x"
        using hd_dropWhile [of "\<lambda>p. iv_stop p \<le> fst y" ps] ps1 unfolding ps1_def by simp
      have fuel': "length (x # ps') + length (y # pl) \<le> fuel"
        using fuel le1 by (simp add: Cons ps1)
      note R = R1 [unfolded ps1] 
      note wf = wps1 [unfolded ps1]
      consider (gap) "iv_stop y \<le> fst x" | (same) "x = y" "\<not> iv_stop y \<le> fst x"
        | (cross) "\<not> iv_stop y \<le> fst x" "x \<noteq> y" by blast
      then show ?thesis
      proof cases
        case gap
        have "\<forall>u\<in>set (us @ [y]). iv_stop u \<le> fst x" using l wl gap by fastforce
        moreover have "?R = inter_ref (x # ps') pl"
          using inter_ref_skip_right [OF gap] x(1) R by (simp add: iv_ok_def)
        ultimately have "asym_loop fuel (fst x) (x # ps') l m sz = Some (m @ ?R, sz + sum_list (map snd ?R))"
          by (intro asym_advance [OF go wf, where us = "us @ [y]" and vs = pl])
            (use l wl fuel' sm sz in auto)
        then show ?thesis unfolding body ps1 using gap by simp
      next
        case same
        have eq: "?R = x # inter_ref ps' pl"
          using inter_ref_equal wf wl l same(1) unfolding R by auto
        note nx = emplace_next [OF sm [unfolded eq] sz [unfolded eq]]
        obtain ps'' qs'' m' sz' where ce: "copy_equal ps' pl (m @ [x]) (sz + snd x) = (ps'', qs'', m', sz')"
          by (metis prod_cases4)
        show ?thesis
          using asym_equal [OF go l [folded same(1)] wl wf fuel' [folded same(1)] eq sm sz ce] same ce nx
          unfolding body ps1 by simp
      next
        case cross
        let ?r = "(max (fst x) (fst y), min (iv_stop x) (iv_stop y) - max (fst x) (fst y))"
        have lt: "max (fst x) (fst y) < min (iv_stop x) (iv_stop y)"
          using cross(1) x x3 y(1) by (auto simp: iv_ok_def)
        then obtain rest where eq: "?R = ?r # rest" unfolding R by (simp add: inter_ref_step)
        note nx = emplace_next [OF sm [unfolded eq] sz [unfolded eq], unfolded fst_conv snd_conv]
        show ?thesis
          using asym_cross [OF go l wl wf fuel' x3 _ R sm sz] cross lt
          unfolding body ps1 x(2) nx fst_conv snd_conv by simp
      qed
    qed
  qed
qed

lemma asym_goes: "iv_wf l \<Longrightarrow> asym_goes fuel l"
proof (induction fuel)
  case 0
  then show ?case by (simp add: asym_goes_def)
next
  case (Suc fuel)
  then show ?case by (blast intro: asym_goes_Suc)
qed

subsection \<open>Intersection of sets\<close>

lemma inter_ref_sum:
  assumes "iv_wf a" and "iv_wf b"
  shows "smap_wf (inter_ref a b)" and "sum_list (map snd (inter_ref a b)) < two64"
  using assms by (simp_all add: iv_wf_inter_ref iv_wf_smap_wf sum_list_two64)

lemma intersection_size_asym_eq:
  assumes "iv_wf s" and "iv_wf l" and "s \<noteq> []"
  shows "intersection_size_asym s l = Some (inter_ref s l, sum_list (map snd (inter_ref s l)))"
proof -
  obtain p ps where s: "s = p # ps" using assms(3) by (cases s) auto
  have R: "inter_ref s l = inter_ref s (rest_from (fst p) l)"
    using assms(1) by (simp add: s inter_ref_rest_from)
  have "asym_loop (length s + length l + 1) (fst p) s l [] 0 =
      Some ([] @ inter_ref s l, 0 + sum_list (map snd (inter_ref s l)))"
    by (rule asym_goesD [OF asym_goes [OF assms(2)] assms(1) _ R])
      (use length_rest_from [of "fst p" l] inter_ref_sum [OF assms(1,2)] in auto)
  then show ?thesis by (simp add: intersection_size_asym_def s)
qed

lemma intersect_merge_top:
  "iv_wf a \<Longrightarrow> iv_wf b \<Longrightarrow>
   intersect_merge a b [] 0 = Some (inter_ref a b, sum_list (map snd (inter_ref a b)))"
  using intersect_merge_eq [of a b "[]" 0] by (simp add: inter_ref_sum)

lemma iset_inv_Nil: "iset_inv s \<Longrightarrow> iset_size s = 0 \<longleftrightarrow> iset_m s = []"
  by (cases "iset_m s") (auto simp: iset_inv_def iv_ok_def)

lemma empty_iset_inv [simp]: "iset_inv empty_iset" "elems empty_iset = {}"
  by (simp_all add: empty_iset_def iset_inv_def elems_def)

lemma intersection_of_ok:
  assumes a: "iset_inv a" and b: "iset_inv b"
  shows "\<exists>s. intersection_of a b = Some s \<and> iset_inv s \<and> elems s = elems a \<inter> elems b"
proof -
  define s l where "s = (if iset_size a < iset_size b then a else b)"
    and "l = (if iset_size a < iset_size b then b else a)"
  have sl: "iset_inv s" "iset_inv l" and set: "elems s \<inter> elems l = elems a \<inter> elems b"
    using a b by (auto simp: s_def l_def)
  have wf: "iv_wf (iset_m s)" "iv_wf (iset_m l)" "iv_wf (iset_m a)" "iv_wf (iset_m b)"
    using a b sl by (simp_all add: iset_inv_def)
  have eq: "intersection_of a b = (if iset_size s = 0 then Some empty_iset
      else do { (m, sz) \<leftarrow> (if iset_size l div iset_size s \<ge> 10
                  then intersection_size_asym (iset_m s) (iset_m l)
                  else intersect_merge (iset_m a) (iset_m b) [] 0);
                Some \<lparr>iset_size = sz, iset_m = m\<rparr> })"
    unfolding intersection_of_def s_def l_def by simp
  show ?thesis
  proof (cases "iset_size s = 0")
    case True
    then have "elems s = {}" using iset_inv_Nil [OF sl(1)] by (simp add: elems_def)
    with True set eq show ?thesis by auto
  next
    case False
    then have ne: "iset_m s \<noteq> []" using iset_inv_Nil [OF sl(1)] by simp
    have *: "iset_inv \<lparr>iset_size = sum_list (map snd (inter_ref x y)), iset_m = inter_ref x y\<rparr> \<and>
        elems \<lparr>iset_size = sum_list (map snd (inter_ref x y)), iset_m = inter_ref x y\<rparr> =
        elems_of x \<inter> elems_of y" if "iv_wf x" "iv_wf y" for x y
      using that by (simp add: iset_inv_def elems_def iv_wf_inter_ref elems_inter_ref)
    show ?thesis
      using * [OF wf(1,2)] * [OF wf(3,4)] set False unfolding eq
      by (simp add: intersection_size_asym_eq [OF wf(1,2) ne] intersect_merge_top [OF wf(3,4)]
          elems_def)
  qed
qed

lemma intersects_ok:
  assumes inv: "iset_inv s" and len: "0 < len" "start + len < two64"
  shows "intersects s start len = Some (elems s \<inter> {start..<start + len} \<noteq> {})"
proof -
  obtain a f l where a: "iset_insert empty_iset start len = Some (a, f, l)"
    "iset_inv a" "elems a = {start..<start + len}"
    using iset_insert_ok [OF empty_iset_inv(1) len] by (auto simp: inserted_def)
  obtain i where i: "intersection_of s a = Some i" "iset_inv i" "elems i = elems s \<inter> elems a"
    using intersection_of_ok [OF inv a(2)] by blast
  show ?thesis using a i iset_empty_spec [OF i(2)] by (simp add: intersects_def)
qed

subsection \<open>Union\<close>

lemma union_of_ok:
  assumes a: "iset_inv a" and b: "iset_inv b"
  shows "\<exists>s. union_of a b = Some s \<and> iset_inv s \<and> elems s = elems a \<union> elems b"
proof -
  obtain i where i: "intersection_of a b = Some i" "iset_inv i" "elems i = elems a \<inter> elems b"
    using intersection_of_ok [OF a b] by blast
  have "iv_wf (iset_m i)" "elems_of (iset_m i) \<subseteq> elems a"
    using i by (simp_all add: iset_inv_def elems_def)
  then obtain d where d: "erase_all a (iset_m i) = Some d" "iset_inv d"
      "elems d = elems a - elems_of (iset_m i)"
    using erase_all_ok [OF a] by blast
  have bm: "elems_of (iset_m b) = elems b" "elems_of (iset_m i) = elems a \<inter> elems b"
    using i(3) by (simp_all add: elems_def)
  then obtain s where s: "insert_all d (iset_m b) = Some s" "iset_inv s"
      "elems s = elems d \<union> elems_of (iset_m b)"
    using insert_all_ok [OF d(2), of "iset_m b"] b d(3) by (auto simp: iset_inv_def)
  have "elems s = elems a \<union> elems b" using s(3) d(3) bm by auto
  with i d s show ?thesis by (simp add: union_of_def subtract_def insert_set_def)
qed

lemma union_insert_ok:
  assumes s: "iset_inv s" and len: "0 < len" "start + len < two64"
  shows "\<exists>s'. union_insert s start len = Some s' \<and> iset_inv s' \<and>
    elems s' = elems s \<union> {start..<start + len}"
proof -
  obtain a f l where a: "iset_insert empty_iset start len = Some (a, f, l)"
    "iset_inv a" "elems a = {start..<start + len}"
    using iset_insert_ok [OF empty_iset_inv(1) len] by (auto simp: inserted_def)
  with union_of_ok [OF s a(2)] show ?thesis by (simp add: union_insert_def)
qed

subsection \<open>Inclusion\<close>

lemma skip_equal_spec:
  "skip_equal ps qs = (ps', qs') \<Longrightarrow> \<exists>c. ps = c @ ps' \<and> qs = c @ qs'"
proof (induction ps qs rule: skip_equal.induct)
  case (1 p ps q qs)
  then show ?case
  proof (cases "p = q")
    case True
    with 1 obtain c where "ps = c @ ps'" "qs = c @ qs'" by auto
    with True show ?thesis by (intro exI [of _ "p # c"]) simp
  qed auto
qed auto

lemma elems_of_prefix_subset:
  assumes "iv_wf (c @ a)" and "iv_wf (c @ b)"
  shows "elems_of (c @ a) \<subseteq> elems_of (c @ b) \<longleftrightarrow> elems_of a \<subseteq> elems_of b"
proof -
  have "elems_of c \<inter> elems_of a = {}" using assms(1) by (fastforce simp: elems_of_def)
  then show ?thesis by auto
qed

lemma elems_of_dropWhile:
  assumes "iv_wf b" and "\<forall>x\<in>A. k \<le> x"
  shows "A \<subseteq> elems_of b \<longleftrightarrow> A \<subseteq> elems_of (dropWhile (\<lambda>q. iv_stop q \<le> k) b)"
proof -
  have "\<forall>q\<in>set (takeWhile (\<lambda>q. iv_stop q \<le> k) b). iv_stop q \<le> k"
    by (auto dest: set_takeWhileD)
  then have "elems_of (takeWhile (\<lambda>q. iv_stop q \<le> k) b) \<inter> A = {}"
    using assms(2) by (fastforce simp: elems_of_def)
  moreover have "elems_of b = elems_of (takeWhile (\<lambda>q. iv_stop q \<le> k) b) \<union>
      elems_of (dropWhile (\<lambda>q. iv_stop q \<le> k) b)"
    by (metis elems_of_simps(3) takeWhile_dropWhile_id)
  ultimately show ?thesis by blast
qed

lemma elems_of_ge: "iv_wf (x # m) \<Longrightarrow> \<forall>i\<in>elems_of (x # m). fst x \<le> i"
  by (fastforce simp: elems_of_def)

lemma subset_head:
  assumes a: "iv_wf (x # pa)" and d: "iv_wf (z # pb)" and near: "fst x < iv_stop z"
  shows "elems_of (x # pa) \<subseteq> elems_of (z # pb) \<longleftrightarrow>
    fst z \<le> fst x \<and> iv_stop x \<le> iv_stop z \<and> elems_of pa \<subseteq> elems_of (z # pb)"
proof -
  have x: "fst x \<in> elems_of (x # pa)" using a by (simp add: iv_ok_def)
  have "iv_stop z \<notin> elems_of (z # pb)" using d by (fastforce simp: elems_of_def)
  moreover have "iv_stop z < iv_stop x \<Longrightarrow> iv_stop z \<in> elems_of (x # pa)" using near by simp
  moreover have "fst x \<in> elems_of (z # pb) \<Longrightarrow> fst z \<le> fst x" using elems_of_ge [OF d] by blast
  ultimately have "elems_of (x # pa) \<subseteq> elems_of (z # pb) \<Longrightarrow> fst z \<le> fst x \<and> iv_stop x \<le> iv_stop z"
    using x by (meson leI subsetD)
  moreover have "fst z \<le> fst x \<Longrightarrow> iv_stop x \<le> iv_stop z \<Longrightarrow> {fst x..<iv_stop x} \<subseteq> elems_of (z # pb)"
    by auto
  ultimately show ?thesis by auto
qed

lemma subset_size_sym_iff:
  "iv_wf a \<Longrightarrow> iv_wf b \<Longrightarrow> subset_size_sym a b \<longleftrightarrow> elems_of a \<subseteq> elems_of b"
proof (induction a b rule: subset_size_sym.induct)
  case (2 x pa)
  then show ?case by (auto simp: iv_ok_def)
next
  case (3 x pa y pb)
  define D where "D = dropWhile (\<lambda>q. iv_stop q \<le> fst x) (y # pb)"
  have D: "dropWhile (\<lambda>q. iv_end q \<le> fst x) (y # pb) = D"
    unfolding D_def using 3(4) by (rule dropWhile_iv_end)
  have wD: "iv_wf D" unfolding D_def using 3(4) by (rule iv_wf_dropWhile)
  have sub: "elems_of (x # pa) \<subseteq> elems_of (y # pb) \<longleftrightarrow> elems_of (x # pa) \<subseteq> elems_of D"
    unfolding D_def by (rule elems_of_dropWhile [OF 3(4) elems_of_ge [OF 3(3)]])
  show ?case
  proof (cases D)
    case Nil
    then show ?thesis using 3(3) sub D by (auto simp: iv_ok_def)
  next
    case (Cons z pb')
    have near: "fst x < iv_stop z"
      using hd_dropWhile [of "\<lambda>q. iv_stop q \<le> fst x" "y # pb"] Cons unfolding D_def by simp
    have wz: "iv_wf (z # pb')" using wD Cons by simp
    have e: "iv_end x = iv_stop x" "iv_end z = iv_stop z" using 3(3) wz by simp_all
    show ?thesis
    proof (cases "x = z")
      case True
      obtain pa' pb'' where sk: "skip_equal pa pb' = (pa', pb'')" by (metis prod.exhaust)
      obtain c where c: "pa = c @ pa'" "pb' = c @ pb''" using skip_equal_spec [OF sk] by blast
      have "subset_size_sym pa' pb'' \<longleftrightarrow> elems_of pa' \<subseteq> elems_of pb''"
        by (rule 3(1) [OF D [unfolded Cons] True sk [symmetric]])
          (use 3(3) wz c in simp_all)
      moreover have "elems_of (x # pa) \<subseteq> elems_of (z # pb') \<longleftrightarrow> elems_of pa' \<subseteq> elems_of pb''"
        using elems_of_prefix_subset [of "x # c" pa' pb''] 3(3) wz True c by simp
      ultimately show ?thesis
        using True sk unfolding sub subset_size_sym.simps(3) D Cons list.case by simp
    next
      case False
      have ih: "subset_size_sym pa (z # pb') \<longleftrightarrow> elems_of pa \<subseteq> elems_of (z # pb')"
        if "\<not> fst x < fst z" "\<not> iv_end z < iv_end x"
        by (rule 3(2) [OF D [unfolded Cons] False that]) (use 3(3) wz in simp_all)
      show ?thesis
        using ih subset_head [OF 3(3) wz near] False e
        unfolding sub subset_size_sym.simps(3) D Cons list.case by auto
    qed
  qed
qed simp

lemma subset_of_ok:
  assumes s: "iset_inv s" and b: "iset_inv big"
  shows "subset_of s big = Some (elems s \<subseteq> elems big)"
proof -
  have fin: "finite (elems s)" "finite (elems big)" by (simp_all add: elems_def)
  show ?thesis
  proof (cases "iset_size s = 0")
    case True
    then show ?thesis using fin by (simp add: subset_of_def iset_size_card [OF s])
  next
    case False
    then have ne: "elems s \<noteq> {}" by (auto simp: iset_size_card [OF s])
    show ?thesis
    proof (cases "iset_size s > iset_size big")
      case True
      then have "\<not> elems s \<subseteq> elems big"
        using card_mono [OF fin(2), of "elems s"] unfolding iset_size_card [OF s] iset_size_card [OF b]
        by linarith
      with True False show ?thesis by (simp add: subset_of_def)
    next
      case small: False
      then have ne': "elems big \<noteq> {}"
        using False by (auto simp: iset_size_card [OF b])
      have "elems s \<subseteq> elems big \<Longrightarrow> Max (elems s) \<le> Max (elems big)"
        using ne fin by (intro Max_mono)
      moreover have "list_all (\<lambda>(start, len). contains_range big start len) (iset_m s) \<longleftrightarrow>
          elems s \<subseteq> elems big"
      proof -
        have "contains_range big (fst p) (snd p) \<longleftrightarrow> {fst p..<iv_stop p} \<subseteq> elems big"
          if "p \<in> set (iset_m s)" for p
          using that s by (intro contains_range_spec [OF b]) (auto simp: iset_inv_def iv_ok_def dest: iv_wf_ok)
        then have "list_all (\<lambda>(start, len). contains_range big start len) (iset_m s) \<longleftrightarrow>
            (\<forall>p\<in>set (iset_m s). {fst p..<iv_stop p} \<subseteq> elems big)"
          by (simp add: list_all_iff case_prod_beta)
        then show ?thesis unfolding elems_def [of s] elems_of_def by (simp add: UN_subset_iff)
      qed
      moreover have "subset_size_sym (iset_m s) (iset_m big) \<longleftrightarrow> elems s \<subseteq> elems big"
        using s b subset_size_sym_iff by (simp add: iset_inv_def elems_def)
      ultimately show ?thesis
        using False small by (auto simp: subset_of_def range_end_spec [OF s ne] range_end_spec [OF b ne'])
    qed
  qed
qed

subsection \<open>Span\<close>

text \<open>\<open>first_n S n T\<close>: \<open>T\<close> is the \<open>n\<close> smallest members of \<open>S\<close>, or all of them.\<close>

definition first_n :: "nat set \<Rightarrow> nat \<Rightarrow> nat set \<Rightarrow> bool" where
  "first_n S n T \<longleftrightarrow> T \<subseteq> S \<and> (\<forall>x\<in>T. \<forall>y\<in>S. y < x \<longrightarrow> y \<in> T) \<and> card T = min n (card S)"

lemma first_n_Un:
  assumes "first_n B (n - card A) T" and "card A \<le> n" and "\<forall>a\<in>A. \<forall>b\<in>B. a < b"
    and "finite A" and "finite B"
  shows "first_n (A \<union> B) n (A \<union> T)"
proof -
  have T: "T \<subseteq> B" "finite T" using assms(1,5) by (auto simp: first_n_def finite_subset)
  have "A \<inter> B = {}" using assms(3) by auto
  then have "card (A \<union> T) = card A + card T" "card (A \<union> B) = card A + card B"
    using T assms(4,5) by (auto intro!: card_Un_disjoint)
  moreover have "card T = min (n - card A) (card B)" using assms(1) by (simp add: first_n_def)
  ultimately have c: "card (A \<union> T) = min n (card (A \<union> B))" using assms(2) by simp
  have "y \<in> A \<union> T" if "x \<in> A \<union> T" "y \<in> A \<union> B" "y < x" for x y
    using that assms(1,3) T(1) by (fastforce simp: first_n_def)
  with c T(1) show ?thesis by (auto simp: first_n_def)
qed

lemma first_n_prefix:
  assumes "n \<le> card A" and "\<forall>a\<in>A. \<forall>b\<in>B. a < b" and "finite B"
    and "A = {f..<f + l}"
  shows "first_n (A \<union> B) n {f..<f + n}"
proof -
  have "A \<inter> B = {}" using assms(2) by auto
  then have "card (A \<union> B) = l + card B" using assms(3,4) by (simp add: card_Un_disjoint)
  then have "card {f..<f + n} = min n (card (A \<union> B))" using assms(1,4) by simp
  moreover have "{f..<f + n} \<subseteq> A" using assms(1,4) by auto
  moreover have "y \<in> {f..<f + n}" if "x \<in> {f..<f + n}" "y \<in> A \<union> B" "y < x" for x y
  proof (cases "y \<in> B")
    case True
    with that(1) \<open>{f..<f + n} \<subseteq> A\<close> assms(2) have "x < y" by blast
    with that(3) show ?thesis by simp
  next
    case False
    with that(2) assms(4) have "f \<le> y" by simp
    with that(1,3) show ?thesis by simp
  qed
  ultimately show ?thesis unfolding first_n_def by blast
qed

lemma span_loop_ok:
  "iset_inv acc \<Longrightarrow> iv_wf p \<Longrightarrow> len < two64 \<Longrightarrow> \<forall>x\<in>elems acc. \<forall>q\<in>set p. x < fst q \<Longrightarrow>
   \<exists>s' T. span_loop acc p len = Some s' \<and> iset_inv s' \<and> elems s' = elems acc \<union> T \<and>
     first_n (elems_of p) len T"
proof (induction acc p len rule: span_loop.induct)
  case (1 acc len)
  then show ?case by (simp add: first_n_def)
next
  case (2 acc x p len)
  have x: "0 < snd x" "iv_stop x < two64" "iv_wf p" "\<forall>q\<in>set p. iv_stop x < fst q"
    using 2(3) by (simp_all add: iv_ok_def)
  have lt: "\<forall>a\<in>{fst x..<iv_stop x}. \<forall>b\<in>elems_of p. a < b"
    using x(4) by (fastforce simp: elems_of_def)
  show ?case
  proof (cases "len = 0")
    case True
    with 2(2) show ?thesis by (intro exI [of _ acc] exI [of _ "{}"]) (simp add: first_n_def)
  next
    case pos: False
    define n where "n = (if snd x < len then snd x else len)"
    have n: "0 < n" "n \<le> snd x" "n \<le> len" using x pos by (auto simp: n_def)
    have "elems acc \<inter> {fst x..<fst x + n} = {}" using 2(5) by fastforce
    then obtain acc' f l where ins: "iset_insert acc (fst x) n = Some (acc', f, l)"
        and acc': "iset_inv acc'" "elems acc' = elems acc \<union> {fst x..<fst x + n}"
      using iset_insert_ok [OF 2(2) n(1), of "fst x"] n x by (auto simp: inserted_def)
    show ?thesis
    proof (cases "snd x < len")
      case True
      then have [simp]: "n = snd x" by (simp add: n_def)
      have below: "\<forall>z\<in>elems acc'. \<forall>q\<in>set p. z < fst q"
      proof (intro ballI)
        fix z q assume "z \<in> elems acc'" and "q \<in> set p"
        then show "z < fst q" using 2(5) x(4) by (auto simp: acc'(2) intro: less_trans)
      qed
      have sub: "sub64 len (snd x) = len - snd x" using True 2(4) by (simp add: u64_simps)
      obtain s' T where s': "span_loop acc' p (len - snd x) = Some s'" "iset_inv s'"
          "elems s' = elems acc' \<union> T" "first_n (elems_of p) (len - snd x) T"
        using 2(1) [OF _ True ins [unfolded \<open>n = snd x\<close>] refl refl acc'(1) x(3) sub64_less below] pos
        unfolding sub by auto
      have "first_n ({fst x..<iv_stop x} \<union> elems_of p) len ({fst x..<iv_stop x} \<union> T)"
        by (rule first_n_Un [OF _ _ lt]) (use s'(4) True in simp_all)
      with s' ins acc' sub True pos show ?thesis
        by (intro exI [of _ s'] exI [of _ "{fst x..<iv_stop x} \<union> T"]) auto
    next
      case False
      then have [simp]: "n = len" by (simp add: n_def)
      have "first_n ({fst x..<iv_stop x} \<union> elems_of p) len {fst x..<fst x + len}"
        by (rule first_n_prefix [OF _ lt]) (use False in simp_all)
      with ins acc' pos False show ?thesis by auto
    qed
  qed
qed

lemma span_of_ok:
  assumes inv: "iset_inv other" and len: "0 < len" "start + len < two64"
  shows "\<exists>s. span_of other start len = Some s \<and> iset_inv s \<and>
    first_n (elems other \<inter> {start..}) len (elems s)"
proof -
  have wf: "iv_wf (iset_m other)" using inv by (simp add: iset_inv_def)
  obtain xs ys where m: "iset_m other = xs @ ys" and f: "find_inc (iset_m other) start = length xs"
    and xs: "\<forall>p\<in>set xs. iv_stop p \<le> start" and ys: "ys \<noteq> [] \<Longrightarrow> start < iv_stop (hd ys)"
    using find_inc_split [OF wf] by metis
  have xs0: "elems_of xs \<inter> {start..} = {}" using xs by (fastforce simp: elems_of_def)
  show ?thesis
  proof (cases ys)
    case Nil
    then show ?thesis using xs0 f by (simp add: span_of_def m elems_def first_n_def empty_iset_def iset_inv_def)
  next
    case (Cons x zs)
    have x: "0 < snd x" "iv_stop x < two64" "iv_wf zs" "\<forall>q\<in>set zs. iv_stop x < fst q" "iv_end x = iv_stop x"
      using wf by (simp_all add: m Cons iv_ok_def)
    have near: "start < iv_stop x" using ys Cons by simp
    have zs_ge: "elems_of zs \<inter> {start..} = elems_of zs"
      using x(4) near by (fastforce simp: elems_of_def)
    have whole: "elems other \<inter> {start..} = {max (fst x) start..<iv_stop x} \<union> elems_of zs"
      using xs0 zs_ge by (auto simp: elems_def m Cons)
    have lt: "\<forall>a\<in>{max (fst x) start..<iv_stop x}. \<forall>b\<in>elems_of zs. a < b"
      using x(4) by (fastforce simp: elems_of_def)
    show ?thesis
    proof (cases "fst x < start")
      case True
      define n where "n = (if iv_stop x < start + len then iv_stop x - start else len)"
      have mx: "max (fst x) start = start" using True by simp
      have lt': "\<forall>a\<in>{start..<iv_stop x}. \<forall>b\<in>elems_of zs. a < b"
        using lt unfolding mx .
      have n: "0 < n" "start + n \<le> iv_stop x" "n \<le> len" using near len by (auto simp: n_def)
      have n64: "start + n < two64" using n(2) x(2) by linarith
      obtain a f' l' where ins: "iset_insert empty_iset start n = Some (a, f', l')"
          and a: "iset_inv a" "elems a = {start..<start + n}"
        using iset_insert_ok [OF empty_iset_inv(1) n(1) n64] by (auto simp: inserted_def)
      show ?thesis
      proof (cases "iv_stop x < start + len")
        case short: True
        then have nn: "n = iv_stop x - start" by (simp add: n_def)
        have s64: "sub64 (snd x) (sub64 start (fst x)) = n" "sub64 len n = len - n"
          using True near x(2) len n by (auto simp: u64_simps nn)
        have len64: "len - n < two64" using len by linarith
        have below: "\<forall>z\<in>elems a. \<forall>q\<in>set zs. z < fst q"
        proof (intro ballI)
          fix z q assume "z \<in> elems a" and "q \<in> set zs"
          then have "z < start + n" "iv_stop x < fst q" using x(4) a(2) by auto
          with n(2) show "z < fst q" by linarith
        qed
        obtain s' T where s': "span_loop a zs (len - n) = Some s'" "iset_inv s'"
            "elems s' = elems a \<union> T" "first_n (elems_of zs) (len - n) T"
          using span_loop_ok [OF a(1) x(3) len64 below] by blast
        have "first_n ({start..<iv_stop x} \<union> elems_of zs) len ({start..<iv_stop x} \<union> T)"
          by (rule first_n_Un [OF _ _ lt']) (use s'(4) n nn in simp_all)
        moreover have "elems s' = {start..<iv_stop x} \<union> T" using s'(3) near by (simp add: a nn)
        ultimately show ?thesis
          using s' ins s64 True short near f x(5) len whole [unfolded mx]
          by (simp add: span_of_def m Cons u64_simps)
      next
        case long: False
        then have nn: "n = len" by (simp add: n_def)
        have "first_n ({start..<iv_stop x} \<union> elems_of zs) len {start..<start + len}"
          by (rule first_n_prefix [where l = "iv_stop x - start", OF _ lt'])
            (use long near in simp_all)
        then show ?thesis
          using ins a True long near f x(5) len whole [unfolded mx] nn
          by (simp add: span_of_def m Cons u64_simps)
      qed
    next
      case False
      then have "first_n (elems_of (x # zs)) len T \<longleftrightarrow> first_n (elems other \<inter> {start..}) len T" for T
        using whole by (simp add: max_def)
      then show ?thesis
        using span_loop_ok [OF empty_iset_inv(1), of "x # zs" len] wf len False f
        by (auto simp: span_of_def m Cons)
    qed
  qed
qed

subsection \<open>The interface for clients\<close>

text \<open>What the components that keep their free space in a range set rely on. \<open>grow\<close> and
  \<open>shrink\<close> are insertion and removal of one range, \<open>least\<close> the smallest member, \<open>stop_of\<close>
  the end of the range that holds a member.\<close>

locale extent_set =
  fixes void :: 's
    and grow :: "'s \<Rightarrow> nat \<Rightarrow> nat \<Rightarrow> ('s \<times> nat \<times> nat) option"
    and shrink :: "'s \<Rightarrow> nat \<Rightarrow> nat \<Rightarrow> 's option"
    and least :: "'s \<Rightarrow> nat option"
    and stop_of :: "'s \<Rightarrow> nat \<Rightarrow> nat option"
    and holds :: "'s \<Rightarrow> nat \<Rightarrow> bool"
    and members :: "'s \<Rightarrow> nat set"
    and invar :: "'s \<Rightarrow> bool"
  assumes invar_void: "invar void"
    and members_void: "members void = {}"
    and members_finite: "finite (members s)"
    and members_bound: "invar s \<Longrightarrow> x \<in> members s \<Longrightarrow> x < two64 - 1"
    and holds_iff: "invar s \<Longrightarrow> holds s x \<longleftrightarrow> x \<in> members s"
    and grow_ok: "invar s \<Longrightarrow> 0 < n \<Longrightarrow> a + n < two64 \<Longrightarrow> members s \<inter> {a..<a + n} = {} \<Longrightarrow>
      \<exists>s' f l. grow s a n = Some (s', f, l) \<and> invar s' \<and> members s' = members s \<union> {a..<a + n}"
    and shrink_ok: "invar s \<Longrightarrow> 0 < n \<Longrightarrow> {a..<a + n} \<subseteq> members s \<Longrightarrow>
      \<exists>s'. shrink s a n = Some s' \<and> invar s' \<and> members s' = members s - {a..<a + n}"
    and shrink_None: "invar s \<Longrightarrow> 0 < n \<Longrightarrow> a + n < two64 \<Longrightarrow>
      \<not> {a..<a + n} \<subseteq> members s \<Longrightarrow> shrink s a n = None"
    and least_ok: "invar s \<Longrightarrow> members s \<noteq> {} \<Longrightarrow> least s = Some (Min (members s))"
    and least_None: "invar s \<Longrightarrow> members s = {} \<Longrightarrow> least s = None"
    and stop_of_ok: "invar s \<Longrightarrow> x \<in> members s \<Longrightarrow>
      \<exists>e. stop_of s x = Some e \<and> x < e \<and> e < two64 \<and> {x..<e} \<subseteq> members s"
begin

lemma least_member: "invar s \<Longrightarrow> least s = Some x \<Longrightarrow> x \<in> members s"
  by (metis Min_in least_None least_ok members_finite option.distinct(1) option.inject)

lemma shrink_Some_iff:
  assumes "invar s" and "0 < n" and "a + n < two64"
  shows "(\<exists>s'. shrink s a n = Some s') \<longleftrightarrow> {a..<a + n} \<subseteq> members s"
  using shrink_ok [OF assms(1,2)] shrink_None [OF assms] by (metis option.distinct(1))

lemma shrink_SomeD:
  assumes "invar s" and "0 < n" and "a + n < two64" and "shrink s a n = Some s'"
  shows "invar s'" and "members s' = members s - {a..<a + n}" and "{a..<a + n} \<subseteq> members s"
  using shrink_ok [OF assms(1,2)] shrink_None [OF assms(1,2,3)] assms(4)
  by (metis option.distinct(1) option.inject)+

text \<open>Taking one member out.\<close>

lemma take_one:
  assumes "invar s" and "x < two64 - 1" and "shrink s x 1 = Some s'"
  shows "invar s'" and "members s' = members s - {x}" and "x \<in> members s"
proof -
  have "x + 1 < two64" using assms(2) by simp
  note d = shrink_SomeD [OF assms(1) zero_less_one this assms(3)]
  have "{x..<x + 1} = {x}" by auto
  with d show "invar s'" "members s' = members s - {x}" "x \<in> members s" by simp_all
qed

lemma take_one_ok:
  "invar s \<Longrightarrow> x \<in> members s \<Longrightarrow> \<exists>s'. shrink s x 1 = Some s' \<and> invar s' \<and> members s' = members s - {x}"
  using shrink_ok [of s 1 x] by (simp add: atLeastLessThanSuc)

text \<open>Giving a range back undoes taking it.\<close>

lemma grow_shrink:
  assumes "invar s" and "0 < n" and "a + n < two64" and "shrink s a n = Some s'"
  shows "\<exists>s'' f l. grow s' a n = Some (s'', f, l) \<and> invar s'' \<and> members s'' = members s"
proof -
  note d = shrink_SomeD [OF assms]
  then have "members s' \<inter> {a..<a + n} = {}" by auto
  with grow_ok [OF d(1) assms(2,3)] d(2,3) show ?thesis by (metis Diff_partition Un_commute)
qed

end

lemma end_after_ok:
  assumes inv: "iset_inv s" and x: "x \<in> elems s"
  shows "\<exists>e. end_after s x = Some e \<and> x < e \<and> e < two64 \<and> {x..<e} \<subseteq> elems s"
proof -
  have wf: "iv_wf (iset_m s)" using inv by (simp add: iset_inv_def)
  have c: "contains s x" using contains_spec [OF inv] x by simp
  then obtain p where p: "contains_at s x = Some p" by (auto simp: contains_def)
  then have "end_after s x = Some (iv_end p)"
    using c by (auto simp: end_after_def contains_at_def Let_def split: if_splits)
  moreover have m: "p \<in> set (iset_m s)" "fst p \<le> x" "x < iv_stop p"
    using contains_at_spec [OF inv] p by auto
  ultimately show ?thesis
    using iv_wf_ok [OF wf m(1)] m by (auto simp: iv_ok_def iv_end_eq elems_def elems_of_def)
qed

interpretation iset: extent_set empty_iset iset_insert iset_erase range_start end_after contains elems iset_inv
proof
  show "iset_inv empty_iset" "elems empty_iset = {}" by simp_all
  show "finite (elems s)" for s by (simp add: elems_def)
  show "x < two64 - 1" if inv: "iset_inv s" and x: "x \<in> elems s" for s x
  proof -
    obtain p where "p \<in> set (iset_m s)" "x < iv_stop p"
      using x by (auto simp: elems_def elems_of_def)
    with inv iv_wf_ok [of "iset_m s" p] show ?thesis by (auto simp: iset_inv_def iv_ok_def)
  qed
  show "contains s x \<longleftrightarrow> x \<in> elems s" if "iset_inv s" for s x
    using contains_spec [OF that] .
  show "\<exists>s' f l. iset_insert s a n = Some (s', f, l) \<and> iset_inv s' \<and> elems s' = elems s \<union> {a..<a + n}"
    if "iset_inv s" "0 < n" "a + n < two64" "elems s \<inter> {a..<a + n} = {}" for s a n
    using iset_insert_ok [OF that] by (auto simp: inserted_def)
  show "\<exists>s'. iset_erase s a n = Some s' \<and> iset_inv s' \<and> elems s' = elems s - {a..<a + n}"
    if "iset_inv s" "0 < n" "{a..<a + n} \<subseteq> elems s" for s a n
    using iset_erase_ok [OF that] .
  show "iset_erase s a n = None"
    if "iset_inv s" "0 < n" "a + n < two64" "\<not> {a..<a + n} \<subseteq> elems s" for s a n
    using iset_erase_claim_None [OF that] by (simp add: iset_erase_def)
  show "range_start s = Some (Min (elems s))" if "iset_inv s" "elems s \<noteq> {}" for s
    using range_start_spec [OF that] .
  show "range_start s = None" if "iset_inv s" "elems s = {}" for s
    using iset_empty_spec [OF that(1)] that(2) by (simp add: range_start_def)
  show "\<exists>e. end_after s x = Some e \<and> x < e \<and> e < two64 \<and> {x..<e} \<subseteq> elems s"
    if "iset_inv s" "x \<in> elems s" for s x
    using end_after_ok [OF that] .
qed

subsection \<open>Properties\<close>

definition iset_example :: interval_set where
  "iset_example = \<lparr>iset_size = 15, iset_m = [(5, 10), (20, 5)]\<rparr>"

lemma iset_example_inv: "iset_inv iset_example"
  by (simp add: iset_example_def iset_inv_def iv_ok_def two64_def)

lemma iset_example_elems: "elems iset_example = {5..<15} \<union> {20..<25}"
  by (simp add: iset_example_def elems_def)

text \<open>C5. Inserting a range that is disjoint from the set never aborts: the result is the union,
  in canonical form, with the counter advanced by the length, and the range reported through
  \<open>pstart\<close>/\<open>plen\<close> is the stored range that now holds the inserted one.\<close>

theorem interval_insert_correct:
  assumes "iset_inv s" and "0 < len" and "start + len < two64"
    and "elems s \<inter> {start..<start + len} = {}"
  shows "\<exists>s' f l. iset_insert s start len = Some (s', f, l) \<and> iset_inv s' \<and>
    elems s' = elems s \<union> {start..<start + len} \<and> iset_size s' = iset_size s + len \<and>
    (f, l) \<in> set (iset_m s') \<and> f \<le> start \<and> start + len \<le> f + l"
proof -
  obtain s' f l where r: "iset_insert s start len = Some (s', f, l)"
      and i: "inserted s start len (s', f, l)"
    using iset_insert_ok [OF assms] by (metis prod_cases3)
  have "card (elems s \<union> {start..<start + len}) = card (elems s) + len"
    using assms(4) iset.members_finite [of s] by (subst card_Un_disjoint) auto
  with r i show ?thesis
    by (auto simp: inserted_def iset_size_card [OF assms(1)] iset_size_card)
qed

theorem interval_insert_correct_witness:
  "\<exists>s' f l. iset_insert iset_example 15 5 = Some (s', f, l) \<and> elems s' = {5..<25} \<and>
    iset_size s' = 20"
proof -
  have "\<exists>s' f l. iset_insert iset_example 15 5 = Some (s', f, l) \<and> iset_inv s' \<and>
      elems s' = elems iset_example \<union> {15..<15 + 5} \<and> iset_size s' = iset_size iset_example + 5 \<and>
      (f, l) \<in> set (iset_m s') \<and> f \<le> 15 \<and> 15 + 5 \<le> f + l"
    by (rule interval_insert_correct [OF iset_example_inv])
      (auto simp: iset_example_elems two64_def)
  moreover have "elems iset_example \<union> {15..<15 + 5} = {5..<25}"
    by (auto simp: iset_example_elems)
  ultimately show ?thesis by (auto simp: iset_example_def)
qed

text \<open>C6. Removing a non-empty range aborts exactly when some of it is not in the set;
  otherwise the result is the difference, in canonical form.\<close>

theorem interval_erase_exact:
  assumes "iset_inv s" and "0 < len" and "start + len < two64"
  shows "case iset_erase s start len of
      None \<Rightarrow> \<not> {start..<start + len} \<subseteq> elems s
    | Some s' \<Rightarrow> {start..<start + len} \<subseteq> elems s \<and> iset_inv s' \<and>
        elems s' = elems s - {start..<start + len}"
  using iset.shrink_ok [OF assms(1,2)] iset.shrink_SomeD [OF assms]
  by (fastforce split: option.splits)

theorem interval_erase_exact_witness:
  "\<exists>s'. iset_erase iset_example 7 3 = Some s' \<and> elems s' = {5..<7} \<union> {10..<15} \<union> {20..<25}"
proof -
  have sub: "{7..<7 + 3} \<subseteq> elems iset_example" by (auto simp: iset_example_elems)
  have diff: "elems iset_example - {7..<7 + 3} = {5..<7} \<union> {10..<15} \<union> {20..<25}"
    by (auto simp: iset_example_elems)
  have "case iset_erase iset_example 7 3 of
      None \<Rightarrow> \<not> {7..<7 + 3} \<subseteq> elems iset_example
    | Some s' \<Rightarrow> {7..<7 + 3} \<subseteq> elems iset_example \<and> iset_inv s' \<and>
        elems s' = elems iset_example - {7..<7 + 3}"
    by (rule interval_erase_exact [OF iset_example_inv]) (simp_all add: two64_def)
  then show ?thesis unfolding diff using sub by (auto split: option.splits)
qed

text \<open>C7. \<open>intersection_of\<close> computes the intersection, in canonical form, and never fails an
  assertion, whichever of its two algorithms the sizes select.\<close>

theorem interval_intersection_correct:
  assumes "iset_inv a" and "iset_inv b"
  shows "\<exists>s. intersection_of a b = Some s \<and> iset_inv s \<and> elems s = elems a \<inter> elems b \<and>
    iset_size s = card (elems a \<inter> elems b)"
  using intersection_of_ok [OF assms] iset_size_card by metis

theorem interval_intersection_correct_witness:
  "\<exists>s. intersection_of iset_example \<lparr>iset_size = 1, iset_m = [(21, 1)]\<rparr> = Some s \<and> elems s = {21}"
proof -
  let ?b = "\<lparr>iset_size = 1, iset_m = [(21, 1)]\<rparr>"
  have b: "iset_inv ?b" by (simp add: iset_inv_def iv_ok_def two64_def)
  have "elems ?b = {21}" by (auto simp: elems_def)
  then have "elems iset_example \<inter> elems ?b = {21}" by (simp add: iset_example_elems)
  with interval_intersection_correct [OF iset_example_inv b] show ?thesis by auto
qed

text \<open>C8. The two intersection algorithms, the merge of the sorted ranges and the one that looks
  the larger set up by \<open>find_inc\<close>, return the same map and size, and the fuel of the second
  (the number of ranges of both sets plus one) is always enough.\<close>

theorem interval_intersection_algorithms_agree:
  assumes "iset_inv s" and "iset_inv l" and "\<not> iset_empty s"
  shows "\<exists>r. intersection_size_asym (iset_m s) (iset_m l) = Some r \<and>
    intersect_merge (iset_m s) (iset_m l) [] 0 = Some r"
  using assms intersection_size_asym_eq intersect_merge_top
  by (simp add: iset_inv_def iset_empty_def)

theorem interval_intersection_algorithms_agree_witness:
  "\<exists>r. intersection_size_asym (iset_m iset_example) [(7, 2), (12, 10)] = Some r \<and>
    intersect_merge (iset_m iset_example) [(7, 2), (12, 10)] [] 0 = Some r"
proof -
  let ?l = "\<lparr>iset_size = 12, iset_m = [(7, 2), (12, 10)]\<rparr>"
  have l: "iset_inv ?l" by (simp add: iset_inv_def iv_ok_def two64_def)
  have ne: "\<not> iset_empty iset_example" by (simp add: iset_example_def iset_empty_def)
  show ?thesis using interval_intersection_algorithms_agree [OF iset_example_inv l ne] by simp
qed

text \<open>\<open>union_of\<close>, which subtracts the common part and then inserts, never aborts and is the
  union in canonical form.\<close>

theorem interval_union_correct:
  assumes "iset_inv a" and "iset_inv b"
  shows "\<exists>s. union_of a b = Some s \<and> iset_inv s \<and> elems s = elems a \<union> elems b"
  using union_of_ok [OF assms] .

theorem interval_union_correct_witness:
  "\<exists>s. union_of iset_example iset_example = Some s \<and> elems s = {5..<15} \<union> {20..<25}"
  using interval_union_correct [OF iset_example_inv iset_example_inv]
  by (auto simp: iset_example_elems)

text \<open>\<open>subset_of\<close> decides inclusion, with its early exits on size and range and with either
  of its two algorithms, and never fails an assertion.\<close>

theorem interval_subset_correct:
  assumes "iset_inv s" and "iset_inv big"
  shows "subset_of s big = Some (elems s \<subseteq> elems big)"
  using subset_of_ok [OF assms] .

theorem interval_subset_correct_witness:
  "subset_of \<lparr>iset_size = 1, iset_m = [(21, 1)]\<rparr> iset_example = Some True"
proof -
  let ?s = "\<lparr>iset_size = 1, iset_m = [(21, 1)]\<rparr>"
  have s: "iset_inv ?s" by (simp add: iset_inv_def iv_ok_def two64_def)
  have "elems ?s = {21}" by (auto simp: elems_def)
  then have "elems ?s \<subseteq> elems iset_example" by (simp add: iset_example_elems)
  with interval_subset_correct [OF s iset_example_inv] show ?thesis by simp
qed

text \<open>\<open>span_of(other, start, len)\<close> is the \<open>len\<close> smallest members of \<open>other\<close> from \<open>start\<close> on, or
  all of them when there are fewer.\<close>

theorem interval_span_correct:
  assumes "iset_inv other" and "0 < len" and "start + len < two64"
  shows "\<exists>s. span_of other start len = Some s \<and> iset_inv s \<and>
    elems s \<subseteq> elems other \<inter> {start..} \<and>
    (\<forall>x\<in>elems s. \<forall>y\<in>elems other. start \<le> y \<longrightarrow> y < x \<longrightarrow> y \<in> elems s) \<and>
    card (elems s) = min len (card (elems other \<inter> {start..}))"
  using span_of_ok [OF assms] by (fastforce simp: first_n_def)

theorem interval_span_correct_witness:
  "\<exists>s. span_of iset_example 8 5 = Some s \<and> card (elems s) = 5"
proof -
  have "elems iset_example \<inter> {8..} = {8..<15} \<union> {20..<25}" by (auto simp: iset_example_elems)
  then have "card (elems iset_example \<inter> {8..}) = 12" by (simp add: card_Un_disjoint)
  with interval_span_correct [OF iset_example_inv, of 5 8] show ?thesis by (auto simp: two64_def)
qed

text \<open>C9. The branch of \<open>insert\<close> that extends the previous range does not check the next one: a
  range that overlaps the next range is accepted, and the result has overlapping ranges and a
  counter above the number of members. (The branch that puts a range in front of the next one
  asserts that they do not overlap.)\<close>

theorem interval_insert_misses_overlap:
  "\<exists>s s' f l. iset_inv s \<and> iset_insert s 5 5 = Some (s', f, l) \<and>
     elems s \<inter> {5..<5 + 5} \<noteq> {} \<and> \<not> iset_inv s' \<and> card (elems s') < iset_size s'"
proof -
  let ?s = "\<lparr>iset_size = 7, iset_m = [(0, 5), (8, 2)]\<rparr>"
  let ?t = "\<lparr>iset_size = 12, iset_m = [(0, 10), (8, 2)]\<rparr>"
  have "iset_insert ?s 5 5 = Some (?t, 0, 10)"
    by (simp add: iset_insert_def find_adj_def lower_bound_ix_def iv_end_def add64_def two64_def)
  moreover have "iset_inv ?s" by (simp add: iset_inv_def iv_ok_def two64_def)
  moreover have "\<not> iset_inv ?t" by (simp add: iset_inv_def)
  moreover have "elems ?t = {0..<10}" by (auto simp: elems_def)
  moreover have "8 \<in> elems ?s \<inter> {5..<5 + 5}" by (simp add: elems_def)
  then have "elems ?s \<inter> {5..<5 + 5} \<noteq> {}" by blast
  moreover have "card {0..<10::nat} < iset_size ?t" by simp
  ultimately show ?thesis by metis
qed

end
