(* ===== verification/Ino_Table.thy ===== *)
theory Ino_Table
  imports Interval_Set_Algebra
begin

text \<open>
  \<open>src/mds/InoTable.cc\<close> and its base class \<open>src/mds/MDSTable.cc\<close>: the table of unused inode
  numbers of one metadata server. Every change is made twice, first to \<open>projected_free\<close> when
  the operation is journalled, then to \<open>free\<close> when the journal entry is safe. The record
  \<open>inotable\<close> holds both sets and the table's versions; the type variable stands for the
  contexts that wait for a save. \<open>mds->respawn()\<close> and \<open>mds->damaged()\<close>, which do not return,
  are the failure \<open>None\<close>, as assertions are. Journalling itself (which entry becomes safe when)
  is the step relation \<open>ino_step\<close>: changes are applied in the order they were projected.
\<close>

subsection \<open>State\<close>

datatype table_state = STATE_UNDEF | STATE_OPENING | STATE_ACTIVE

record 'w inotable =
  it_rank :: int
  it_state :: table_state
  it_version :: nat
  it_committing_version :: nat
  it_committed_version :: nat
  it_projected_version :: nat
  it_waitfor_save :: "(nat, 'w list) smap"
  it_free :: interval_set
  it_projected_free :: interval_set

abbreviation is_active :: "'w inotable \<Rightarrow> bool" where
  "is_active t \<equiv> it_state t = STATE_ACTIVE"

definition u64_of_int :: "int \<Rightarrow> nat" where
  "u64_of_int i = nat (i mod 2 ^ 64)"

subsection \<open>The table's life: reset, load, save\<close>

definition reset_state :: "'w inotable \<Rightarrow> 'w inotable option" where
  "reset_state t = do {
     let start = mul64 (u64_of_int (it_rank t + 1)) (2 ^ 40);
     let len = 2 ^ 40;
     (f, _, _) \<leftarrow> iset_insert empty_iset start len;
     Some (t\<lparr>it_free := f, it_projected_free := f\<rparr>) }"

definition table_reset :: "'w inotable \<Rightarrow> 'w inotable option" where
  "table_reset t = do {
     t' \<leftarrow> reset_state t;
     Some (t'\<lparr>it_projected_version := it_version t', it_state := STATE_ACTIVE\<rparr>) }"

definition table_load :: "'w inotable \<Rightarrow> 'w inotable option" where
  "table_load t = do {
     ensure (it_state t = STATE_UNDEF);
     Some (t\<lparr>it_state := STATE_OPENING\<rparr>) }"

text \<open>\<open>load_2\<close> gets the object as decoded: version and free set, or \<open>None\<close> where decoding
  throws.\<close>

definition table_load_2 ::
  "'w inotable \<Rightarrow> int \<Rightarrow> (nat \<times> interval_set) option \<Rightarrow> 'w inotable option" where
  "table_load_2 t r object = do {
     ensure (it_state t = STATE_OPENING);
     ensure (\<not> r < 0);
     (v, f) \<leftarrow> object;
     Some (t\<lparr>it_state := STATE_ACTIVE, it_version := v, it_projected_version := v,
             it_committed_version := v, it_free := f, it_projected_free := f\<rparr>) }"

definition push_waiter :: "(nat, 'w list) smap \<Rightarrow> nat \<Rightarrow> 'w option \<Rightarrow> (nat, 'w list) smap" where
  "push_waiter m v w =
     (case w of
        None \<Rightarrow> m
      | Some c \<Rightarrow> smap_put v ((case map_of m v of None \<Rightarrow> [] | Some cs \<Rightarrow> cs) @ [c]) m)"

text \<open>\<open>save\<close> returns the object it writes, if it writes one.\<close>

definition table_save ::
  "'w inotable \<Rightarrow> 'w option \<Rightarrow> nat \<Rightarrow> ('w inotable \<times> (nat \<times> interval_set) option) option" where
  "table_save t onfinish v =
     (if v > 0 \<and> v \<le> it_committing_version t
      then Some (t\<lparr>it_waitfor_save := push_waiter (it_waitfor_save t) v onfinish\<rparr>, None)
      else do {
        ensure (is_active t);
        Some (t\<lparr>it_committing_version := it_version t,
                it_waitfor_save := push_waiter (it_waitfor_save t) (it_version t) onfinish\<rparr>,
              Some (it_version t, it_free t)) })"

text \<open>\<open>save_2\<close> returns the contexts it completes. After a failed write the rank reacts in
  \<open>handle_write_error\<close>, which is not part of the table: the table keeps its state.\<close>

definition table_save_2 :: "'w inotable \<Rightarrow> int \<Rightarrow> nat \<Rightarrow> 'w inotable \<times> 'w list" where
  "table_save_2 t r v =
     (if r < 0 then (t, [])
      else (t\<lparr>it_committed_version := v,
              it_waitfor_save := dropWhile (\<lambda>p. fst p \<le> v) (it_waitfor_save t)\<rparr>,
            concat (map snd (takeWhile (\<lambda>p. fst p \<le> v) (it_waitfor_save t)))))"

definition table_shutdown :: "'w inotable \<Rightarrow> ('w inotable \<times> (nat \<times> interval_set) option) option" where
  "table_shutdown t = (if is_active t then table_save t None 0 else Some (t, None))"

definition set_rank :: "'w inotable \<Rightarrow> int \<Rightarrow> 'w inotable" where
  "set_rank t r = t\<lparr>it_rank := r\<rparr>"

definition force_replay_version :: "'w inotable \<Rightarrow> nat \<Rightarrow> 'w inotable" where
  "force_replay_version t v = t\<lparr>it_version := v, it_projected_version := v\<rparr>"

subsection \<open>Allocation and release\<close>

definition project_alloc_id :: "'w inotable \<Rightarrow> nat \<Rightarrow> ('w inotable \<times> nat) option" where
  "project_alloc_id t ino0 = do {
     ensure (is_active t);
     ino \<leftarrow> (if ino0 = 0 then range_start (it_projected_free t) else Some ino0);
     pf \<leftarrow> iset_erase (it_projected_free t) ino 1;
     Some (t\<lparr>it_projected_free := pf, it_projected_version := add64 (it_projected_version t) 1\<rparr>, ino) }"

definition apply_alloc_id :: "'w inotable \<Rightarrow> nat \<Rightarrow> 'w inotable option" where
  "apply_alloc_id t ino = do {
     f \<leftarrow> iset_erase (it_free t) ino 1;
     Some (t\<lparr>it_free := f, it_version := add64 (it_version t) 1\<rparr>) }"

lemma iset_insert_pos: "iset_insert s a n = Some r \<Longrightarrow> 0 < n"
  by (simp add: iset_insert_def)

text \<open>The loop of \<open>project_alloc_ids\<close>: ranges are taken from the front until \<open>want\<close> is met.\<close>

function alloc_loop ::
  "interval_set \<Rightarrow> interval_set \<Rightarrow> int \<Rightarrow> (interval_set \<times> interval_set) option" where
  "alloc_loop pf ids want =
     (if \<not> want > 0 then Some (pf, ids)
      else case range_start pf of
        None \<Rightarrow> None
      | Some start \<Rightarrow>
          (case end_after pf start of
             None \<Rightarrow> None
           | Some en \<Rightarrow>
               let num0 = sub64 en start;
                   num = (if num0 > u64_of_int want then u64_of_int want else num0) in
               case iset_erase pf start num of
                 None \<Rightarrow> None
               | Some pf' \<Rightarrow>
                   (case iset_insert ids start num of
                      None \<Rightarrow> None
                    | Some (ids', _, _) \<Rightarrow>
                        alloc_loop pf' ids' (want - int num))))"
  by pat_completeness auto
termination
  by (relation "measure (\<lambda>(pf, ids, want). nat want)") (auto dest: iset_insert_pos)

declare alloc_loop.simps [simp del]

definition project_alloc_ids ::
  "'w inotable \<Rightarrow> interval_set \<Rightarrow> int \<Rightarrow> ('w inotable \<times> interval_set) option" where
  "project_alloc_ids t ids want = do {
     ensure (is_active t);
     (pf, ids') \<leftarrow> alloc_loop (it_projected_free t) ids want;
     Some (t\<lparr>it_projected_free := pf, it_projected_version := add64 (it_projected_version t) 1\<rparr>,
           ids') }"

definition apply_alloc_ids :: "'w inotable \<Rightarrow> interval_set \<Rightarrow> 'w inotable option" where
  "apply_alloc_ids t ids = do {
     f \<leftarrow> subtract (it_free t) ids;
     Some (t\<lparr>it_free := f, it_version := add64 (it_version t) 1\<rparr>) }"

definition project_release_ids :: "'w inotable \<Rightarrow> interval_set \<Rightarrow> 'w inotable option" where
  "project_release_ids t ids = do {
     pf \<leftarrow> insert_set (it_projected_free t) ids;
     Some (t\<lparr>it_projected_free := pf, it_projected_version := add64 (it_projected_version t) 1\<rparr>) }"

definition apply_release_ids :: "'w inotable \<Rightarrow> interval_set \<Rightarrow> 'w inotable option" where
  "apply_release_ids t ids = do {
     f \<leftarrow> insert_set (it_free t) ids;
     Some (t\<lparr>it_free := f, it_version := add64 (it_version t) 1\<rparr>) }"

subsection \<open>Replay and repair\<close>

text \<open>The second component of the replay results is the cluster-log error flag.\<close>

definition bump_both :: "'w inotable \<Rightarrow> 'w inotable" where
  "bump_both t = t\<lparr>it_version := add64 (it_version t) 1,
                   it_projected_version := add64 (it_version t) 1\<rparr>"

definition replay_alloc_id :: "'w inotable \<Rightarrow> nat \<Rightarrow> ('w inotable \<times> bool) option" where
  "replay_alloc_id t ino =
     (if contains (it_free t) ino then do {
        f \<leftarrow> iset_erase (it_free t) ino 1;
        pf \<leftarrow> iset_erase (it_projected_free t) ino 1;
        Some (bump_both (t\<lparr>it_free := f, it_projected_free := pf\<rparr>), False) }
      else Some (bump_both t, True))"

definition replay_alloc_ids :: "'w inotable \<Rightarrow> interval_set \<Rightarrow> ('w inotable \<times> bool) option" where
  "replay_alloc_ids t ids = do {
     common \<leftarrow> intersection_of (it_free t) ids;
     let err = (\<not> iset_eq common ids);
     f \<leftarrow> subtract (it_free t) common;
     pf \<leftarrow> subtract (it_projected_free t) common;
     Some (bump_both (t\<lparr>it_free := f, it_projected_free := pf\<rparr>), err) }"

definition replay_release_ids :: "'w inotable \<Rightarrow> interval_set \<Rightarrow> 'w inotable option" where
  "replay_release_ids t ids = do {
     f \<leftarrow> insert_set (it_free t) ids;
     pf \<leftarrow> insert_set (it_projected_free t) ids;
     Some (bump_both (t\<lparr>it_free := f, it_projected_free := pf\<rparr>)) }"

definition skip_inos :: "'w inotable \<Rightarrow> nat \<Rightarrow> 'w inotable option" where
  "skip_inos t i = do {
     first \<leftarrow> range_start (it_free t);
     (s, _, _) \<leftarrow> iset_insert empty_iset first i;
     s' \<leftarrow> intersection_of s (it_free t);
     f \<leftarrow> subtract (it_free t) s';
     Some (bump_both (t\<lparr>it_free := f, it_projected_free := f\<rparr>)) }"

definition replay_reset :: "'w inotable \<Rightarrow> 'w inotable option" where
  "replay_reset t = do {
     t' \<leftarrow> skip_inos t 10000000;
     Some (bump_both (t'\<lparr>it_projected_free := it_free t'\<rparr>)) }"

definition is_marked_free :: "'w inotable \<Rightarrow> nat \<Rightarrow> bool" where
  "is_marked_free t ino \<longleftrightarrow> contains (it_free t) ino \<or> contains (it_projected_free t) ino"

definition intersects_free :: "'w inotable \<Rightarrow> interval_set \<Rightarrow> (bool \<times> interval_set) option" where
  "intersects_free t other = do {
     i \<leftarrow> intersection_of (it_free t) other;
     Some (\<not> iset_empty i, i) }"

definition ino_repair :: "'w inotable \<Rightarrow> nat \<Rightarrow> ('w inotable \<times> bool) option" where
  "ino_repair t ino =
     (if it_projected_version t \<noteq> it_version t then Some (t, False)
      else do {
        ensure (is_marked_free t ino);
        f \<leftarrow> iset_erase (it_free t) ino 1;
        pf \<leftarrow> iset_erase (it_projected_free t) ino 1;
        Some (bump_both (t\<lparr>it_free := f, it_projected_free := pf\<rparr>), True) })"

definition force_consume :: "'w inotable \<Rightarrow> nat \<Rightarrow> ('w inotable \<times> bool) option" where
  "force_consume t ino =
     (if contains (it_free t) ino then do {
        f \<leftarrow> iset_erase (it_free t) ino 1;
        Some (t\<lparr>it_free := f\<rparr>, True) }
      else Some (t, False))"

definition force_consume_to :: "'w inotable \<Rightarrow> nat \<Rightarrow> ('w inotable \<times> bool) option" where
  "force_consume_to t ino = do {
     first \<leftarrow> range_start (it_free t);
     if first > ino then Some (t, False)
     else do {
       t' \<leftarrow> skip_inos t (sub64 (add64 ino 1) first);
       Some (t', True) } }"

end
