(* ===== verification/Ino_Table_Correct.thy ===== *)
theory Ino_Table_Correct
  imports Ino_Table
begin

text \<open>
  Correctness of the inode table: every set operation it makes is safe, an inode number in
  use is never handed out again, journalled changes apply without failing an assertion, and
  \<open>free\<close> catches up with \<open>projected_free\<close>. The proofs use \<open>interval_set\<close> only through the
  interface \<open>extent_set\<close> and its whole-set operations.
\<close>

subsection \<open>Whole sets\<close>

lemma subtract_ok:
  assumes "iset_inv s" and "iset_inv a" and "elems a \<subseteq> elems s"
  shows "\<exists>s'. subtract s a = Some s' \<and> iset_inv s' \<and> elems s' = elems s - elems a"
  using erase_all_ok [OF assms(1), of "iset_m a"] assms(2,3)
  by (auto simp: subtract_def iset_inv_def elems_def)

lemma insert_set_ok:
  assumes "iset_inv s" and "iset_inv a" and "elems a \<inter> elems s = {}"
  shows "\<exists>s'. insert_set s a = Some s' \<and> iset_inv s' \<and> elems s' = elems s \<union> elems a"
  using insert_all_ok [OF assms(1), of "iset_m a"] assms(2,3)
  by (auto simp: insert_set_def iset_inv_def elems_def)

lemma u64_of_int_nat: "0 \<le> i \<Longrightarrow> i < 2 ^ 64 \<Longrightarrow> u64_of_int i = nat i"
  by (simp add: u64_of_int_def)

subsection \<open>The allocation loop\<close>

definition taken :: "interval_set \<Rightarrow> interval_set \<Rightarrow> nat \<Rightarrow> interval_set \<times> interval_set \<Rightarrow> bool" where
  "taken pf ids n r \<longleftrightarrow>
     (case r of (pf', ids') \<Rightarrow> iset_inv pf' \<and> iset_inv ids' \<and>
        (\<exists>A \<subseteq> elems pf. card A = n \<and> elems pf' = elems pf - A \<and> elems ids' = elems ids \<union> A))"

lemma taken_step:
  assumes "taken pf' ids' (n - k) r" and "k \<le> n" and "{a..<a + k} \<subseteq> elems pf"
    and "elems pf' = elems pf - {a..<a + k}" and "elems ids' = elems ids \<union> {a..<a + k}"
  shows "taken pf ids n r"
proof -
  obtain q ds where r: "r = (q, ds)" by (cases r)
  obtain A where A: "A \<subseteq> elems pf'" "card A = n - k" "elems q = elems pf' - A"
      "elems ds = elems ids' \<union> A" and inv: "iset_inv q" "iset_inv ds"
    using assms(1) by (auto simp: taken_def r)
  have "finite A" using A(1) finite_subset iset.members_finite by blast
  moreover have "A \<inter> {a..<a + k} = {}" using A(1) assms(4) by auto
  ultimately have "card ({a..<a + k} \<union> A) = n"
    using A(2) assms(2) by (subst card_Un_disjoint) auto
  moreover have "{a..<a + k} \<union> A \<subseteq> elems pf" using A(1) assms(3,4) by auto
  moreover have "elems q = elems pf - ({a..<a + k} \<union> A)" using A(3) assms(4) by auto
  moreover have "elems ds = elems ids \<union> ({a..<a + k} \<union> A)" using A(4) assms(5) by auto
  ultimately show ?thesis using inv unfolding taken_def r by blast
qed

lemma alloc_loop_spec:
  "iset_inv pf \<Longrightarrow> iset_inv ids \<Longrightarrow> elems ids \<inter> elems pf = {} \<Longrightarrow> want < 2 ^ 64 \<Longrightarrow>
   (if nat want \<le> card (elems pf)
    then \<exists>r. alloc_loop pf ids want = Some r \<and> taken pf ids (nat want) r
    else alloc_loop pf ids want = None)"
proof (induction pf ids want rule: alloc_loop.induct)
  case (1 pf ids want)
  show ?case
  proof (cases "want > 0 \<and> elems pf \<noteq> {}")
    case False
    show ?thesis
    proof (cases "want > 0")
      case True
      with False have "range_start pf = None" "card (elems pf) = 0"
        using iset.least_None [OF 1(2)] by simp_all
      with True show ?thesis by (simp add: alloc_loop.simps)
    next
      case False
      then show ?thesis using 1(2,3) by (auto simp: alloc_loop.simps [of pf] taken_def)
    qed
  next
    case True
    then have pos: "want > 0" and ne: "elems pf \<noteq> {}" by simp_all
    define a where "a = Min (elems pf)"
    have rs: "range_start pf = Some a" unfolding a_def by (rule iset.least_ok [OF 1(2) ne])
    have am: "a \<in> elems pf" using rs iset.least_member [OF 1(2)] by blast
    obtain e where e: "end_after pf a = Some e" "a < e" "e < two64" "{a..<e} \<subseteq> elems pf"
      using iset.stop_of_ok [OF 1(2) am] by blast
    define num where "num = (if sub64 e a > u64_of_int want then u64_of_int want else sub64 e a)"
    have num: "num = min (nat want) (e - a)" "0 < num" "a + num \<le> e"
      using pos 1(5) e by (auto simp: num_def u64_of_int_nat u64_simps)
    have sub: "{a..<a + num} \<subseteq> elems pf" using e(4) num(3) by auto
    obtain pf' where pf': "iset_erase pf a num = Some pf'" "iset_inv pf'"
        "elems pf' = elems pf - {a..<a + num}"
      using iset.shrink_ok [OF 1(2) num(2) sub] by blast
    have "elems ids \<inter> {a..<a + num} = {}" "a + num < two64" using 1(4) sub num(3) e(3) by auto
    then obtain ids' f l where ids': "iset_insert ids a num = Some (ids', f, l)" "iset_inv ids'"
        "elems ids' = elems ids \<union> {a..<a + num}"
      using iset.grow_ok [OF 1(3) num(2)] by blast
    have eq: "alloc_loop pf ids want = alloc_loop pf' ids' (want - int num)"
      using pos rs e(1) pf'(1) ids'(1)
      by (subst alloc_loop.simps) (simp add: Let_def num_def [symmetric])
    have dis: "elems ids' \<inter> elems pf' = {}" using 1(4) pf'(3) ids'(3) by auto
    have ih: "if nat (want - int num) \<le> card (elems pf')
        then \<exists>r. alloc_loop pf' ids' (want - int num) = Some r \<and> taken pf' ids' (nat (want - int num)) r
        else alloc_loop pf' ids' (want - int num) = None"
      by (rule 1(1) [OF _ rs e(1) refl num_def pf'(1) ids'(1) refl refl pf'(2) ids'(2) dis])
        (use pos 1(5) in auto)
    have card: "card (elems pf') = card (elems pf) - num" "num \<le> card (elems pf)"
      using sub card_mono [OF iset.members_finite sub] unfolding pf'(3)
      by (simp_all add: card_Diff_subset)
    have "num \<le> nat want" unfolding num(1) by simp
    then have n: "nat (want - int num) = nat want - num" "num \<le> nat want" by arith+
    show ?thesis
      using ih taken_step [OF _ n(2) sub pf'(3) ids'(3)] card n(2)
      unfolding eq n(1) by (auto split: if_splits)
  qed
qed

subsection \<open>Journalled changes\<close>

datatype change = Alloc_id nat | Alloc_ids interval_set | Release_ids interval_set

fun apply_change :: "'w inotable \<Rightarrow> change \<Rightarrow> 'w inotable option" where
  "apply_change t (Alloc_id i) = apply_alloc_id t i"
| "apply_change t (Alloc_ids ids) = apply_alloc_ids t ids"
| "apply_change t (Release_ids ids) = apply_release_ids t ids"

text \<open>\<open>replays F cs P\<close>: the changes \<open>cs\<close> lead from the free set \<open>F\<close> to \<open>P\<close>, each possible where
  it is made.\<close>

fun replays :: "nat set \<Rightarrow> change list \<Rightarrow> nat set \<Rightarrow> bool" where
  "replays F [] P \<longleftrightarrow> F = P"
| "replays F (Alloc_id i # cs) P \<longleftrightarrow> i \<in> F \<and> replays (F - {i}) cs P"
| "replays F (Alloc_ids ids # cs) P \<longleftrightarrow>
     iset_inv ids \<and> elems ids \<subseteq> F \<and> replays (F - elems ids) cs P"
| "replays F (Release_ids ids # cs) P \<longleftrightarrow>
     iset_inv ids \<and> elems ids \<inter> F = {} \<and> replays (F \<union> elems ids) cs P"

record 'w ino_sys =
  tbl :: "'w inotable"
  pending :: "change list"
  held :: "nat set"

inductive ino_step :: "'w ino_sys \<Rightarrow> 'w ino_sys \<Rightarrow> bool" where
  alloc_one: "project_alloc_id (tbl s) i = Some (t, ino) \<Longrightarrow> i < two64 - 1 \<Longrightarrow>
    ino_step s (s\<lparr>tbl := t, pending := pending s @ [Alloc_id ino], held := insert ino (held s)\<rparr>)"
| alloc_many: "project_alloc_ids (tbl s) empty_iset want = Some (t, ids) \<Longrightarrow> want < 2 ^ 31 \<Longrightarrow>
    ino_step s (s\<lparr>tbl := t, pending := pending s @ [Alloc_ids ids], held := held s \<union> elems ids\<rparr>)"
| release: "project_release_ids (tbl s) ids = Some t \<Longrightarrow> iset_inv ids \<Longrightarrow> elems ids \<subseteq> held s \<Longrightarrow>
    ino_step s (s\<lparr>tbl := t, pending := pending s @ [Release_ids ids], held := held s - elems ids\<rparr>)"
| applied: "pending s = c # cs \<Longrightarrow> apply_change (tbl s) c = Some t \<Longrightarrow>
    ino_step s (s\<lparr>tbl := t, pending := cs\<rparr>)"

definition ino_init :: "'w ino_sys \<Rightarrow> bool" where
  "ino_init s \<longleftrightarrow> is_active (tbl s) \<and> iset_inv (it_free (tbl s)) \<and>
     it_projected_free (tbl s) = it_free (tbl s) \<and>
     it_projected_version (tbl s) = it_version (tbl s) \<and> it_version (tbl s) < two64 \<and>
     pending s = [] \<and> held s = {}"

definition ino_inv :: "'w ino_sys \<Rightarrow> bool" where
  "ino_inv s \<longleftrightarrow> is_active (tbl s) \<and> iset_inv (it_free (tbl s)) \<and>
     iset_inv (it_projected_free (tbl s)) \<and>
     replays (elems (it_free (tbl s))) (pending s) (elems (it_projected_free (tbl s))) \<and>
     held s \<inter> elems (it_projected_free (tbl s)) = {} \<and>
     it_projected_version (tbl s) = (it_version (tbl s) + length (pending s)) mod two64"

lemma replays_snoc:
  "replays F (cs @ [c]) P' \<longleftrightarrow> (\<exists>P. replays F cs P \<and> replays P [c] P')"
  by (induction F cs P' rule: replays.induct) (auto)

lemma alloc_one_inv:
  assumes inv: "ino_inv s" and al: "project_alloc_id (tbl s) i = Some (t, ino)" and i: "i < two64 - 1"
  shows "ino \<in> elems (it_projected_free (tbl s))"
    and "ino_inv (s\<lparr>tbl := t, pending := pending s @ [Alloc_id ino], held := insert ino (held s)\<rparr>)"
proof -
  note ok = inv [unfolded ino_inv_def]
  have pinv: "iset_inv (it_projected_free (tbl s))" using ok by simp
  obtain pf where pf: "iset_erase (it_projected_free (tbl s)) ino 1 = Some pf"
      and t: "t = tbl s\<lparr>it_projected_free := pf, it_projected_version := add64 (it_projected_version (tbl s)) 1\<rparr>"
      and ino: "ino = i \<or> range_start (it_projected_free (tbl s)) = Some ino"
    using al by (auto simp: project_alloc_id_def split: Option.bind_splits if_splits)
  have small: "ino < two64 - 1"
    using ino i iset.least_member [OF pinv] iset.members_bound [OF pinv] by blast
  note tk = iset.take_one [OF pinv small pf]
  show "ino \<in> elems (it_projected_free (tbl s))" by (rule tk(3))
  have "replays (elems (it_free (tbl s))) (pending s @ [Alloc_id ino]) (elems pf)"
    using ok tk by (auto simp: replays_snoc)
  then show "ino_inv (s\<lparr>tbl := t, pending := pending s @ [Alloc_id ino], held := insert ino (held s)\<rparr>)"
    using ok tk by (auto simp: ino_inv_def t add64_def mod_simps)
qed

lemma alloc_many_inv:
  assumes inv: "ino_inv s" and al: "project_alloc_ids (tbl s) empty_iset want = Some (t, ids)"
    and want: "want < 2 ^ 31"
  shows "elems ids \<subseteq> elems (it_projected_free (tbl s))" and "card (elems ids) = nat want"
    and "ino_inv (s\<lparr>tbl := t, pending := pending s @ [Alloc_ids ids], held := held s \<union> elems ids\<rparr>)"
proof -
  note ok = inv [unfolded ino_inv_def]
  have pinv: "iset_inv (it_projected_free (tbl s))" using ok by simp
  obtain pf where lp: "alloc_loop (it_projected_free (tbl s)) empty_iset want = Some (pf, ids)"
      and t: "t = tbl s\<lparr>it_projected_free := pf, it_projected_version := add64 (it_projected_version (tbl s)) 1\<rparr>"
    using al by (auto simp: project_alloc_ids_def split: Option.bind_splits)
  have "taken (it_projected_free (tbl s)) empty_iset (nat want) (pf, ids)"
    using alloc_loop_spec [OF pinv empty_iset_inv(1), of want] want lp by (auto split: if_splits)
  then have tk: "iset_inv pf" "iset_inv ids" "elems ids \<subseteq> elems (it_projected_free (tbl s))"
      "card (elems ids) = nat want" "elems pf = elems (it_projected_free (tbl s)) - elems ids"
    by (auto simp: taken_def)
  show "elems ids \<subseteq> elems (it_projected_free (tbl s))" "card (elems ids) = nat want"
    by (rule tk)+
  have "replays (elems (it_free (tbl s))) (pending s @ [Alloc_ids ids]) (elems pf)"
    using ok tk by (auto simp: replays_snoc)
  then show "ino_inv (s\<lparr>tbl := t, pending := pending s @ [Alloc_ids ids], held := held s \<union> elems ids\<rparr>)"
    using ok tk by (auto simp: ino_inv_def t add64_def mod_simps)
qed

lemma release_inv:
  assumes inv: "ino_inv s" and ids: "iset_inv ids" and held: "elems ids \<subseteq> held s"
  shows "\<exists>t. project_release_ids (tbl s) ids = Some t"
    and "project_release_ids (tbl s) ids = Some t \<Longrightarrow>
      ino_inv (s\<lparr>tbl := t, pending := pending s @ [Release_ids ids], held := held s - elems ids\<rparr>)"
proof -
  note ok = inv [unfolded ino_inv_def]
  have pinv: "iset_inv (it_projected_free (tbl s))" using ok by simp
  have dis: "elems ids \<inter> elems (it_projected_free (tbl s)) = {}" using ok held by auto
  obtain pf where pf: "insert_set (it_projected_free (tbl s)) ids = Some pf" "iset_inv pf"
      "elems pf = elems (it_projected_free (tbl s)) \<union> elems ids"
    using insert_set_ok [OF pinv ids dis] by blast
  show "\<exists>t. project_release_ids (tbl s) ids = Some t" by (simp add: project_release_ids_def pf)
  assume "project_release_ids (tbl s) ids = Some t"
  then have t: "t = tbl s\<lparr>it_projected_free := pf, it_projected_version := add64 (it_projected_version (tbl s)) 1\<rparr>"
    by (simp add: project_release_ids_def pf)
  have "replays (elems (it_free (tbl s))) (pending s @ [Release_ids ids]) (elems pf)"
    using ok ids pf dis by (auto simp: replays_snoc)
  then show "ino_inv (s\<lparr>tbl := t, pending := pending s @ [Release_ids ids], held := held s - elems ids\<rparr>)"
    using ok pf by (auto simp: ino_inv_def t add64_def mod_simps)
qed

text \<open>The next journalled change can always be applied.\<close>

lemma apply_change_ok:
  assumes inv: "ino_inv s" and p: "pending s = c # cs"
  shows "\<exists>f. apply_change (tbl s) c = Some (tbl s\<lparr>it_free := f, it_version := add64 (it_version (tbl s)) 1\<rparr>) \<and>
    iset_inv f \<and> replays (elems f) cs (elems (it_projected_free (tbl s)))"
proof -
  have f: "iset_inv (it_free (tbl s))" and r: "replays (elems (it_free (tbl s))) (c # cs) (elems (it_projected_free (tbl s)))"
    using inv p by (simp_all add: ino_inv_def)
  show ?thesis
  proof (cases c)
    case (Alloc_id i)
    then have "i \<in> elems (it_free (tbl s))" using r by simp
    then show ?thesis
      using iset.take_one_ok [OF f] r by (fastforce simp: Alloc_id apply_alloc_id_def)
  next
    case (Alloc_ids ids)
    then have "iset_inv ids" "elems ids \<subseteq> elems (it_free (tbl s))" using r by simp_all
    then show ?thesis
      using subtract_ok [OF f] r by (fastforce simp: Alloc_ids apply_alloc_ids_def)
  next
    case (Release_ids ids)
    then have "iset_inv ids" "elems ids \<inter> elems (it_free (tbl s)) = {}" using r by simp_all
    then show ?thesis
      using insert_set_ok [OF f] r by (fastforce simp: Release_ids apply_release_ids_def)
  qed
qed

lemma applied_inv:
  assumes inv: "ino_inv s" and p: "pending s = c # cs" and ap: "apply_change (tbl s) c = Some t"
  shows "ino_inv (s\<lparr>tbl := t, pending := cs\<rparr>)"
proof -
  obtain f where f: "apply_change (tbl s) c = Some (tbl s\<lparr>it_free := f, it_version := add64 (it_version (tbl s)) 1\<rparr>)"
      "iset_inv f" "replays (elems f) cs (elems (it_projected_free (tbl s)))"
    using apply_change_ok [OF inv p] by blast
  then have t: "t = tbl s\<lparr>it_free := f, it_version := add64 (it_version (tbl s)) 1\<rparr>"
    using ap by simp
  show ?thesis using inv f p by (auto simp: ino_inv_def t add64_def mod_simps)
qed

interpretation ino: invariant_system ino_init ino_step ino_inv
proof
  show "ino_inv s" if "ino_init s" for s :: "'a ino_sys"
    using that by (auto simp: ino_init_def ino_inv_def)
  show "ino_inv t" if "ino_inv s" "ino_step s t" for s t :: "'a ino_sys"
    using that(2,1)
    by (induction rule: ino_step.induct)
      (auto intro: alloc_one_inv(2) alloc_many_inv(3) release_inv(2) applied_inv)
qed

subsection \<open>Draining the journal\<close>

primrec drain :: "'w inotable \<Rightarrow> change list \<Rightarrow> 'w inotable option" where
  "drain t [] = Some t"
| "drain t (c # cs) = Option.bind (apply_change t c) (\<lambda>t'. drain t' cs)"

lemma drain_ok:
  "ino_inv s \<Longrightarrow> \<exists>f v. drain (tbl s) (pending s) = Some (tbl s\<lparr>it_free := f, it_version := v\<rparr>) \<and>
     iset_inv f \<and> elems f = elems (it_projected_free (tbl s)) \<and>
     (pending s \<noteq> [] \<longrightarrow> v = it_projected_version (tbl s)) \<and> (pending s = [] \<longrightarrow> v = it_version (tbl s))"
proof (induction "pending s" arbitrary: s)
  case Nil
  then show ?case
    by (intro exI [of _ "it_free (tbl s)"] exI [of _ "it_version (tbl s)"]) (auto simp: ino_inv_def)
next
  case (Cons c cs)
  have p: "pending s = c # cs" using Cons(2) by simp
  obtain f where f: "apply_change (tbl s) c = Some (tbl s\<lparr>it_free := f, it_version := add64 (it_version (tbl s)) 1\<rparr>)"
    using apply_change_ok [OF Cons(3) p] by blast
  let ?t = "tbl s\<lparr>it_free := f, it_version := add64 (it_version (tbl s)) 1\<rparr>"
  let ?s = "s\<lparr>tbl := ?t, pending := cs\<rparr>"
  have inv: "ino_inv ?s" by (rule applied_inv [OF Cons(3) p f])
  have last: "cs = [] \<Longrightarrow> add64 (it_version (tbl s)) 1 = it_projected_version (tbl s)"
    using Cons(3) p by (simp add: ino_inv_def add64_def)
  from Cons(1) [of ?s] inv last show ?case by (fastforce simp: p f)
qed

definition in_sync :: "'w inotable \<Rightarrow> bool" where
  "in_sync t \<longleftrightarrow> iset_inv (it_free t) \<and> iset_inv (it_projected_free t) \<and>
     elems (it_projected_free t) = elems (it_free t)"

lemma bump_both_sel [simp]:
  "it_free (bump_both t) = it_free t" "it_projected_free (bump_both t) = it_projected_free t"
  "it_projected_version (bump_both t) = it_version (bump_both t)"
  by (simp_all add: bump_both_def)

lemma replay_alloc_id_sync:
  assumes "in_sync t" and "ino < two64 - 1"
  shows "\<exists>t'. replay_alloc_id t ino = Some (t', ino \<notin> elems (it_free t)) \<and> in_sync t' \<and>
    elems (it_free t') = elems (it_free t) - {ino} \<and> it_projected_version t' = it_version t'"
proof -
  note ok = assms(1) [unfolded in_sync_def]
  have f: "iset_inv (it_free t)" and pf: "iset_inv (it_projected_free t)" using ok by simp_all
  have c: "contains (it_free t) ino \<longleftrightarrow> ino \<in> elems (it_free t)"
    by (rule iset.holds_iff [OF f])
  show ?thesis
  proof (cases "ino \<in> elems (it_free t)")
    case True
    then have "ino \<in> elems (it_projected_free t)" using ok by simp
    with True iset.take_one_ok [OF f True] iset.take_one_ok [OF pf] c ok show ?thesis
      by (fastforce simp: replay_alloc_id_def in_sync_def)
  qed (use c ok in \<open>auto simp: replay_alloc_id_def in_sync_def\<close>)
qed

lemma replay_alloc_ids_sync:
  assumes "in_sync t" and "iset_inv ids"
  shows "\<exists>t'. replay_alloc_ids t ids = Some (t', \<not> elems ids \<subseteq> elems (it_free t)) \<and> in_sync t' \<and>
    elems (it_free t') = elems (it_free t) - elems ids \<and> it_projected_version t' = it_version t'"
proof -
  note ok = assms(1) [unfolded in_sync_def]
  have f: "iset_inv (it_free t)" and pf: "iset_inv (it_projected_free t)" using ok by simp_all
  obtain c where c: "intersection_of (it_free t) ids = Some c" "iset_inv c"
      "elems c = elems (it_free t) \<inter> elems ids"
    using intersection_of_ok [OF f assms(2)] by blast
  have e: "iset_eq c ids \<longleftrightarrow> elems ids \<subseteq> elems (it_free t)"
    using iset_eq_iff [OF c(2) assms(2)] c(3) by blast
  obtain f' where f': "subtract (it_free t) c = Some f'" "iset_inv f'"
      "elems f' = elems (it_free t) - elems c"
    using subtract_ok [OF f c(2)] c(3) by blast
  obtain pf' where pf': "subtract (it_projected_free t) c = Some pf'" "iset_inv pf'"
      "elems pf' = elems (it_projected_free t) - elems c"
    using subtract_ok [OF pf c(2)] c(3) ok by blast
  have "elems f' = elems (it_free t) - elems ids" using f'(3) c(3) by blast
  with c f' pf' e ok show ?thesis by (simp add: replay_alloc_ids_def in_sync_def)
qed

lemma skip_inos_sync:
  assumes "in_sync t" and "elems (it_free t) \<noteq> {}" and "0 < n"
    and "Min (elems (it_free t)) + n < two64"
  shows "\<exists>t'. skip_inos t n = Some t' \<and> in_sync t' \<and> it_projected_version t' = it_version t' \<and>
    elems (it_free t') = {x \<in> elems (it_free t). Min (elems (it_free t)) + n \<le> x}"
proof -
  let ?a = "Min (elems (it_free t))"
  have f: "iset_inv (it_free t)" using assms(1) by (simp add: in_sync_def)
  obtain s g l where s: "iset_insert empty_iset ?a n = Some (s, g, l)" "iset_inv s"
      "elems s = {?a..<?a + n}"
    using iset.grow_ok [of empty_iset, OF _ assms(3,4)] by auto
  obtain c where c: "intersection_of s (it_free t) = Some c" "iset_inv c"
      "elems c = elems s \<inter> elems (it_free t)"
    using intersection_of_ok [OF s(2) f] by blast
  obtain f' where f': "subtract (it_free t) c = Some f'" "iset_inv f'"
      "elems f' = elems (it_free t) - elems c"
    using subtract_ok [OF f c(2)] c(3) by blast
  have "\<forall>x\<in>elems (it_free t). ?a \<le> x" by (simp add: iset.members_finite)
  then have "elems f' = {x \<in> elems (it_free t). ?a + n \<le> x}"
    unfolding f'(3) c(3) s(3) by auto
  with iset.least_ok [OF f assms(2)] s(1) c(1) f' show ?thesis
    by (simp add: skip_inos_def in_sync_def)
qed

subsection \<open>Properties\<close>

definition ino_example :: "unit ino_sys" where
  "ino_example = \<lparr>tbl = \<lparr>it_rank = 0, it_state = STATE_ACTIVE, it_version = 1,
       it_committing_version = 0, it_committed_version = 0, it_projected_version = 1,
       it_waitfor_save = [], it_free = iset_example, it_projected_free = iset_example\<rparr>,
     pending = [], held = {}\<rparr>"

lemmas ino_alloc_eval = ino_example_def iset_example_def project_alloc_id_def range_start_def
  iset_erase_def iset_erase_claim_def find_inc_def lower_bound_ix_def iv_end_def add64_def
  sub64_def two64_def erase_at_def iset_empty_def

lemma ino_example_init: "ino_init ino_example"
  by (simp add: ino_init_def ino_example_def iset_example_inv two64_def)

text \<open>The same table after one and after two inodes were handed out, which the journal has not applied.\<close>

definition ino_busy1 :: "unit ino_sys" where
  "ino_busy1 = ino_example\<lparr>tbl := (tbl ino_example)\<lparr>
       it_projected_free := \<lparr>iset_size = 14, iset_m = [(6, 9), (20, 5)]\<rparr>, it_projected_version := 2\<rparr>,
     pending := [Alloc_id 5], held := {5}\<rparr>"

definition ino_busy2 :: "unit ino_sys" where
  "ino_busy2 = ino_example\<lparr>tbl := (tbl ino_example)\<lparr>
       it_projected_free := \<lparr>iset_size = 13, iset_m = [(7, 8), (20, 5)]\<rparr>, it_projected_version := 3\<rparr>,
     pending := [Alloc_id 5, Alloc_id 6], held := {6, 5}\<rparr>"

lemma ino_busy_alloc:
  "project_alloc_id (tbl ino_example) 0 = Some (tbl ino_busy1, 5)" "project_alloc_id (tbl ino_busy1) 0 = Some (tbl ino_busy2, 6)"
  by (simp_all add: ino_alloc_eval ino_busy1_def ino_busy2_def)

lemma ino_busy_steps: "ino_step ino_example ino_busy1" "ino_step ino_busy1 ino_busy2"
proof -
  have z: "0 < two64 - 1" by (simp add: two64_def)
  show "ino_step ino_example ino_busy1"
    using alloc_one [OF ino_busy_alloc(1) z] by (simp add: ino_busy1_def ino_example_def)
  show "ino_step ino_busy1 ino_busy2"
    using alloc_one [OF ino_busy_alloc(2) z] by (simp add: ino_busy1_def ino_busy2_def ino_example_def)
qed

text \<open>C10. Whatever order of allocations, releases and journal commits led to a state, an
  inode number handed out next, alone or in a batch, is not one that is held; a batch has
  exactly the number of inodes asked for.\<close>

theorem ino_alloc_fresh:
  assumes "ino_init s0" and "ino_step\<^sup>*\<^sup>* s0 s"
  shows "(\<forall>i t ino. i < two64 - 1 \<longrightarrow> project_alloc_id (tbl s) i = Some (t, ino) \<longrightarrow> ino \<notin> held s) \<and>
    (\<forall>want t ids. want < 2 ^ 31 \<longrightarrow> project_alloc_ids (tbl s) empty_iset want = Some (t, ids) \<longrightarrow>
       elems ids \<inter> held s = {} \<and> card (elems ids) = nat want)"
proof -
  have inv: "ino_inv s" using assms by (rule ino.inv_reachable)
  then have "held s \<inter> elems (it_projected_free (tbl s)) = {}" by (simp add: ino_inv_def)
  with alloc_one_inv(1) [OF inv] alloc_many_inv(1,2) [OF inv] show ?thesis by blast
qed

theorem ino_alloc_fresh_witness:
  "\<exists>s t. ino_step\<^sup>*\<^sup>* ino_example s \<and> project_alloc_id (tbl s) 0 = Some (t, 6) \<and> 6 \<notin> held s \<and>
     held s = {5}"
proof -
  have step: "ino_step\<^sup>*\<^sup>* ino_example ino_busy1" using ino_busy_steps(1) by simp
  have "0 < two64 - 1" by (simp add: two64_def)
  then have "6 \<notin> held ino_busy1"
    using conjunct1 [OF ino_alloc_fresh [OF ino_example_init step]] ino_busy_alloc(2) by blast
  with step ino_busy_alloc(2) show ?thesis by (intro exI [of _ ino_busy1] exI [of _ "tbl ino_busy2"]) (simp add: ino_busy1_def)
qed

text \<open>C11. In every reachable state the whole journal can be applied: no \<open>apply_*\<close> call fails an
  assertion, and at the end \<open>free\<close> has the members of \<open>projected_free\<close> and the version is the
  projected one.\<close>

theorem ino_journal_applies:
  assumes "ino_init s0" and "ino_step\<^sup>*\<^sup>* s0 s"
  shows "\<exists>t. drain (tbl s) (pending s) = Some t \<and> in_sync t \<and>
    elems (it_free t) = elems (it_projected_free (tbl s)) \<and>
    it_projected_free t = it_projected_free (tbl s) \<and>
    (pending s \<noteq> [] \<longrightarrow> it_version t = it_projected_version t)"
proof -
  have "ino_inv s" using assms by (rule ino.inv_reachable)
  then show ?thesis using drain_ok by (fastforce simp: in_sync_def ino_inv_def)
qed

theorem ino_journal_applies_witness:
  "ino_step\<^sup>*\<^sup>* ino_example ino_busy2 \<and> pending ino_busy2 = [Alloc_id 5, Alloc_id 6] \<and>
   (\<exists>t. drain (tbl ino_busy2) (pending ino_busy2) = Some t \<and> in_sync t \<and> elems (it_free t) = {7..<15} \<union> {20..<25} \<and>
      it_version t = it_projected_version t)"
proof -
  have run: "ino_step\<^sup>*\<^sup>* ino_example ino_busy2" using ino_busy_steps by (meson converse_rtranclp_into_rtranclp r_into_rtranclp)
  have pen: "pending ino_busy2 = [Alloc_id 5, Alloc_id 6]" by (simp add: ino_busy2_def)
  have "elems (it_projected_free (tbl ino_busy2)) = {7..<15} \<union> {20..<25}" by (simp add: ino_busy2_def elems_def)
  then show ?thesis using ino_journal_applies [OF ino_example_init run] run pen by auto
qed

text \<open>C12. A batch allocation succeeds exactly when enough inodes are projected free (it
  aborts on the empty set otherwise), takes that many out of \<open>projected_free\<close>, leaves \<open>free\<close>
  alone and bumps the projected version.\<close>

theorem ino_batch_exact:
  assumes "is_active t" and "iset_inv (it_projected_free t)" and "want < 2 ^ 31"
  shows "case project_alloc_ids t empty_iset want of
      None \<Rightarrow> card (elems (it_projected_free t)) < nat want
    | Some (t', ids) \<Rightarrow> nat want \<le> card (elems (it_projected_free t)) \<and> card (elems ids) = nat want \<and>
        elems ids \<subseteq> elems (it_projected_free t) \<and>
        elems (it_projected_free t') = elems (it_projected_free t) - elems ids \<and>
        it_free t' = it_free t \<and> it_projected_version t' = add64 (it_projected_version t) 1"
  using alloc_loop_spec [OF assms(2) empty_iset_inv(1), of want] assms
  by (auto simp: project_alloc_ids_def taken_def split: if_splits)

theorem ino_batch_exact_witness:
  "\<exists>t ids. project_alloc_ids (tbl ino_example) empty_iset 12 = Some (t, ids) \<and> card (elems ids) = 12"
proof -
  let ?t = "tbl ino_example"
  have c: "card (elems (it_projected_free ?t)) = 15"
    by (simp add: ino_example_def iset_example_elems card_Un_disjoint)
  have "case project_alloc_ids ?t empty_iset 12 of
      None \<Rightarrow> card (elems (it_projected_free ?t)) < nat 12
    | Some (t', ids) \<Rightarrow> nat 12 \<le> card (elems (it_projected_free ?t)) \<and> card (elems ids) = nat 12 \<and>
        elems ids \<subseteq> elems (it_projected_free ?t) \<and>
        elems (it_projected_free t') = elems (it_projected_free ?t) - elems ids \<and>
        it_free t' = it_free ?t \<and> it_projected_version t' = add64 (it_projected_version ?t) 1"
    by (rule ino_batch_exact) (simp_all add: ino_example_def iset_example_inv)
  then show ?thesis unfolding c by (auto split: option.splits)
qed

text \<open>Journal replay keeps \<open>free\<close> and \<open>projected_free\<close> the same set without failing an
  assertion, also when the journal names inodes that are not free: those are reported and
  skipped.\<close>

theorem ino_replay_in_sync:
  assumes "in_sync t" and "ino < two64 - 1" and "iset_inv ids"
  shows "\<exists>t1 t2. replay_alloc_id t ino = Some (t1, ino \<notin> elems (it_free t)) \<and> in_sync t1 \<and>
      elems (it_free t1) = elems (it_free t) - {ino} \<and>
      it_projected_version t1 = it_version t1 \<and>
      replay_alloc_ids t ids = Some (t2, \<not> elems ids \<subseteq> elems (it_free t)) \<and> in_sync t2 \<and>
      elems (it_free t2) = elems (it_free t) - elems ids \<and>
      it_projected_version t2 = it_version t2"
  using replay_alloc_id_sync [OF assms(1,2)] replay_alloc_ids_sync [OF assms(1,3)] by blast

lemma ino_example_sync:
  "in_sync (tbl ino_example)" "elems (it_free (tbl ino_example)) = {5..<15} \<union> {20..<25}"
  by (simp_all add: ino_example_def in_sync_def iset_example_inv iset_example_elems)

theorem ino_replay_in_sync_witness:
  "\<exists>t. replay_alloc_id (tbl ino_example) 17 = Some (t, True) \<and> in_sync t"
proof -
  have "17 < two64 - 1" by (simp add: two64_def)
  from ino_replay_in_sync [OF ino_example_sync(1) this iset_example_inv] show ?thesis
    by (auto simp: ino_example_sync)
qed

text \<open>Forcing the table past an inode number leaves exactly the larger free inodes, in both
  sets, and refuses exactly when none is free up to it.\<close>

theorem ino_force_consume_to:
  assumes "in_sync t" and "elems (it_free t) \<noteq> {}" and "ino < two64 - 1"
  shows "\<exists>t' done. force_consume_to t ino = Some (t', done) \<and> in_sync t' \<and>
    elems (it_free t') = {x \<in> elems (it_free t). ino < x} \<and>
    (done \<longleftrightarrow> (\<exists>x\<in>elems (it_free t). x \<le> ino))"
proof -
  let ?a = "Min (elems (it_free t))"
  have f: "iset_inv (it_free t)" using assms(1) by (simp add: in_sync_def)
  have a: "?a \<in> elems (it_free t)" and le: "\<forall>x\<in>elems (it_free t). ?a \<le> x"
    using assms(2) iset.members_finite [of "it_free t"] by simp_all
  show ?thesis
  proof (cases "?a > ino")
    case True
    with le have "{x \<in> elems (it_free t). ino < x} = elems (it_free t)" by auto
    with True le assms(1) iset.least_ok [OF f assms(2)] show ?thesis
      by (fastforce simp: force_consume_to_def)
  next
    case False
    then have n: "sub64 (add64 ino 1) ?a = ino + 1 - ?a" using assms(3) by (simp add: u64_simps)
    have "Suc ino < two64" using assms(3) by simp
    with n have "\<exists>t'. skip_inos t (sub64 (add64 ino 1) ?a) = Some t' \<and> in_sync t' \<and>
        elems (it_free t') = {x \<in> elems (it_free t). ino < x}"
      using skip_inos_sync [OF assms(1,2), of "ino + 1 - ?a"] False assms(3)
      by (auto simp: Suc_le_eq)
    with False a iset.least_ok [OF f assms(2)] show ?thesis
      by (force simp: force_consume_to_def)
  qed
qed

theorem ino_force_consume_to_witness:
  "\<exists>t. force_consume_to (tbl ino_example) 12 = Some (t, True) \<and> in_sync t"
proof -
  have ne: "elems (it_free (tbl ino_example)) \<noteq> {}" by (auto simp: ino_example_sync)
  have lt: "12 < two64 - 1" by (simp add: two64_def)
  have "\<exists>x\<in>elems (it_free (tbl ino_example)). x \<le> 12"
    by (rule bexI [of _ 5]) (simp_all add: ino_example_sync)
  then have c: "(\<exists>x\<in>elems (it_free (tbl ino_example)). x \<le> 12) = True" by blast
  show ?thesis using ino_force_consume_to [OF ino_example_sync(1) ne lt] unfolding c by blast
qed

end
