(* ===== verification/Striper.thy ===== *)
theory Striper
  imports Ceph_Prelude
begin

text \<open>
  \<open>src/osdc/Striper.cc\<close>: the map from a byte range of a file to byte ranges of the objects the
  file is striped over, its inverse, the truncation of single objects, and the collection of
  the objects' replies into the caller's buffer.

  Layout fields are \<open>uint32_t\<close>, everything else is \<open>uint64_t\<close>; the operations that can wrap are
  written with \<open>add64\<close> and the like. A division by a zero stripe unit or stripe count ends the
  process, as a failed assertion does, and is the value \<open>None\<close>. A \<open>bufferlist\<close> is the list of
  its bytes, of any type. Names of objects and the object locator, which the heavyweight
  extents carry, are arguments.
\<close>

subsection \<open>Layouts\<close>

record file_layout =
  stripe_unit :: nat
  stripe_count :: nat
  object_size :: nat

definition layout_is_valid :: "file_layout \<Rightarrow> bool" where
  "layout_is_valid l \<longleftrightarrow>
     \<not> (stripe_unit l = 0 \<or> stripe_unit l mod 65536 \<noteq> 0) \<and>
     \<not> (object_size l = 0 \<or> object_size l mod 65536 \<noteq> 0) \<and>
     \<not> (object_size l < stripe_unit l \<or> object_size l mod stripe_unit l \<noteq> 0) \<and>
     stripe_count l \<noteq> 0"

definition get_period :: "file_layout \<Rightarrow> nat" where
  "get_period l = mul64 (stripe_count l) (object_size l)"

subsection \<open>From file ranges to object ranges\<close>

definition object_truncate_size :: "file_layout \<Rightarrow> nat \<Rightarrow> nat \<Rightarrow> nat option" where
  "object_truncate_size l objectno trunc_size =
     (if trunc_size = 0 \<or> trunc_size = two64 - 1 then Some trunc_size
      else do {
        let su = stripe_unit l;
        let sc = stripe_count l;
        ensure (object_size l \<ge> su);
        ensure (su \<noteq> 0 \<and> sc \<noteq> 0);
        let stripes_per_object = object_size l div su;
        let objectsetno = objectno div sc;
        let trunc_objectsetno = trunc_size div object_size l div sc;
        if objectsetno > trunc_objectsetno then Some 0
        else if objectsetno < trunc_objectsetno then Some (object_size l)
        else do {
          let trunc_blockno = trunc_size div su;
          let trunc_stripeno = trunc_blockno div sc;
          let trunc_stripepos = trunc_blockno mod sc;
          let trunc_objectno = add64 (mul64 trunc_objectsetno sc) trunc_stripepos;
          if objectno < trunc_objectno
          then Some (mul64 (add64 (trunc_stripeno mod stripes_per_object) 1) su)
          else if objectno > trunc_objectno
          then Some (mul64 (trunc_stripeno mod stripes_per_object) su)
          else Some (add64 (mul64 (trunc_stripeno mod stripes_per_object) su) (trunc_size mod su)) } })"

record lw_extent =
  ex_object_no :: nat
  ex_offset :: nat
  ex_length :: nat
  ex_truncate_size :: nat
  ex_buffer_extents :: "(nat \<times> nat) list"

text \<open>Where the byte \<open>cur\<close> of the file is: object number and offset in the object.\<close>

definition objectno_of :: "nat \<Rightarrow> nat \<Rightarrow> nat \<Rightarrow> nat \<Rightarrow> nat" where
  "objectno_of su sc stripes_per_object cur =
     (let blockno = cur div su;
          stripeno = blockno div sc;
          stripepos = blockno mod sc;
          objectsetno = stripeno div stripes_per_object
      in add64 (mul64 objectsetno sc) stripepos)"

definition x_offset_of :: "nat \<Rightarrow> nat \<Rightarrow> nat \<Rightarrow> nat \<Rightarrow> nat" where
  "x_offset_of su sc stripes_per_object cur =
     (let blockno = cur div su;
          stripeno = blockno div sc;
          block_start = mul64 (stripeno mod stripes_per_object) su;
          block_off = cur mod su
      in add64 block_start block_off)"

text \<open>One round's update of the sorted vector of extents: a new extent behind the object's last
  one, or the last one grown.\<close>

definition add_extent ::
  "file_layout \<Rightarrow> nat \<Rightarrow> nat \<Rightarrow> nat \<Rightarrow> nat \<Rightarrow> nat \<times> nat \<Rightarrow> lw_extent list \<Rightarrow> lw_extent list option" where
  "add_extent l trunc_size objectno x_offset x_len be exts =
     (let it = length (takeWhile (\<lambda>e. ex_object_no e \<le> objectno) exts) in
      if it = 0 \<or> ex_object_no (exts ! (it - 1)) \<noteq> objectno \<or>
         add64 (ex_offset (exts ! (it - 1))) (ex_length (exts ! (it - 1))) \<noteq> x_offset
      then do {
        ts \<leftarrow> object_truncate_size l objectno trunc_size;
        Some (take it exts @
          \<lparr>ex_object_no = objectno, ex_offset = x_offset, ex_length = x_len,
           ex_truncate_size = ts, ex_buffer_extents = [be]\<rparr> # drop it exts) }
      else
        let ex = exts ! (it - 1) in
        Some (exts[it - 1 := ex\<lparr>ex_length := add64 (ex_length ex) x_len,
                                ex_buffer_extents := ex_buffer_extents ex @ [be]\<rparr>]))"

function extents_loop ::
  "file_layout \<Rightarrow> nat \<Rightarrow> nat \<Rightarrow> nat \<Rightarrow> nat \<Rightarrow> nat \<Rightarrow> nat \<Rightarrow> nat \<Rightarrow> lw_extent list \<Rightarrow>
   lw_extent list option" where
  "extents_loop l su stripes_per_object trunc_size offset buffer_offset cur left exts =
     (if left = 0 \<or> su = 0 then Some exts
      else
        let objectno = objectno_of su (stripe_count l) stripes_per_object cur;
            x_offset = x_offset_of su (stripe_count l) stripes_per_object cur;
            max_len = su - cur mod su;
            x_len = (if left > max_len then max_len else left)
        in case add_extent l trunc_size objectno x_offset x_len
                  (add64 (sub64 cur offset) buffer_offset, x_len) exts of
             None \<Rightarrow> None
           | Some exts' \<Rightarrow>
               extents_loop l su stripes_per_object trunc_size offset buffer_offset
                 (add64 cur x_len) (left - x_len) exts')"
  by pat_completeness auto
termination
  by (relation "measure (\<lambda>(l, su, spo, ts, off, bo, cur, left, exts). left)") auto

declare extents_loop.simps [simp del]

definition file_to_extents ::
  "file_layout \<Rightarrow> nat \<Rightarrow> nat \<Rightarrow> nat \<Rightarrow> nat \<Rightarrow> lw_extent list \<Rightarrow> lw_extent list option" where
  "file_to_extents l offset len trunc_size buffer_offset exts = do {
     ensure (len > 0);
     ensure (object_size l \<ge> stripe_unit l);
     let su = (if stripe_count l = 1 then object_size l else stripe_unit l);
     ensure (su \<noteq> 0 \<and> stripe_count l \<noteq> 0);
     let stripes_per_object = object_size l div su;
     extents_loop l su stripes_per_object trunc_size offset buffer_offset offset len exts }"

text \<open>The heavyweight extents, in one vector or grouped by object name.\<close>

record ('o, 'c) object_extent =
  oe_oid :: 'o
  oe_objectno :: nat
  oe_offset :: nat
  oe_length :: nat
  oe_truncate_size :: nat
  oe_oloc :: 'c
  oe_buffer_extents :: "(nat \<times> nat) list"

definition heavy_extent :: "(nat \<Rightarrow> 'o) \<Rightarrow> 'c \<Rightarrow> lw_extent \<Rightarrow> ('o, 'c) object_extent" where
  "heavy_extent format_oid oloc e =
     \<lparr>oe_oid = format_oid (ex_object_no e), oe_objectno = ex_object_no e, oe_offset = ex_offset e,
      oe_length = ex_length e, oe_truncate_size = ex_truncate_size e, oe_oloc = oloc,
      oe_buffer_extents = ex_buffer_extents e\<rparr>"

definition file_to_extents_vector ::
  "(nat \<Rightarrow> 'o) \<Rightarrow> 'c \<Rightarrow> file_layout \<Rightarrow> nat \<Rightarrow> nat \<Rightarrow> nat \<Rightarrow> ('o, 'c) object_extent list \<Rightarrow> nat \<Rightarrow>
   ('o, 'c) object_extent list option" where
  "file_to_extents_vector format_oid oloc l offset len trunc_size extents buffer_offset = do {
     lw \<leftarrow> file_to_extents l offset len trunc_size buffer_offset [];
     Some (extents @ map (heavy_extent format_oid oloc) lw) }"

definition file_to_extents_map ::
  "(nat \<Rightarrow> 'o::linorder) \<Rightarrow> 'c \<Rightarrow> file_layout \<Rightarrow> nat \<Rightarrow> nat \<Rightarrow> nat \<Rightarrow>
   ('o, ('o, 'c) object_extent list) smap \<Rightarrow> nat \<Rightarrow> ('o, ('o, 'c) object_extent list) smap option" where
  "file_to_extents_map format_oid oloc l offset len trunc_size object_extents buffer_offset = do {
     lw \<leftarrow> file_to_extents l offset len trunc_size buffer_offset [];
     Some (fold (\<lambda>e m. let oid = format_oid (ex_object_no e);
                           es = (case map_of m oid of None \<Rightarrow> [] | Some es \<Rightarrow> es)
                       in smap_put oid (es @ [heavy_extent format_oid oloc e]) m) lw object_extents) }"

subsection \<open>From object ranges to file ranges\<close>

function file_loop ::
  "nat \<Rightarrow> nat \<Rightarrow> nat \<Rightarrow> nat \<Rightarrow> nat \<Rightarrow> nat \<Rightarrow> nat \<Rightarrow> (nat \<times> nat) list \<Rightarrow> (nat \<times> nat) list" where
  "file_loop su sc stripes_per_object objectno off off_in_block len extents =
     (if len = 0 \<or> su - off_in_block = 0 then extents
      else
        let stripepos = objectno mod sc;
            objectsetno = objectno div sc;
            stripeno = add64 (off div su) (mul64 objectsetno stripes_per_object);
            blockno = add64 (mul64 stripeno sc) stripepos;
            extent_off = add64 (mul64 blockno su) off_in_block;
            extent_len = min len (su - off_in_block)
        in file_loop su sc stripes_per_object objectno (add64 off extent_len) 0
             (len - extent_len) (extents @ [(extent_off, extent_len)]))"
  by pat_completeness auto
termination
  by (relation "measure (\<lambda>(su, sc, spo, ono, off, oib, len, exts). len)") auto

declare file_loop.simps [simp del]

definition extent_to_file ::
  "file_layout \<Rightarrow> nat \<Rightarrow> nat \<Rightarrow> nat \<Rightarrow> (nat \<times> nat) list \<Rightarrow> (nat \<times> nat) list option" where
  "extent_to_file l objectno off len extents = do {
     ensure (object_size l \<ge> stripe_unit l);
     ensure (stripe_unit l \<noteq> 0 \<and> (len > 0 \<longrightarrow> stripe_count l \<noteq> 0));
     let stripes_per_object = object_size l div stripe_unit l;
     let off_in_block = off mod stripe_unit l;
     Some (file_loop (stripe_unit l) (stripe_count l) stripes_per_object objectno off off_in_block len
             extents) }"

definition get_num_objects :: "file_layout \<Rightarrow> nat \<Rightarrow> nat option" where
  "get_num_objects l sz = do {
     let period = get_period l;
     ensure (period \<noteq> 0);
     let num_periods = sub64 (add64 sz period) 1 div period;
     let remainder_bytes = sz mod period;
     remainder_objs \<leftarrow>
       (if remainder_bytes > 0 \<and> remainder_bytes < mul64 (stripe_count l) (stripe_unit l)
        then Some (sub64 (stripe_count l)
               (sub64 (add64 remainder_bytes (stripe_unit l)) 1 div stripe_unit l))
        else Some 0);
     Some (sub64 (mul64 num_periods (stripe_count l)) remainder_objs) }"

subsection \<open>Collecting the replies\<close>

record 'b striped_result =
  partial_r :: "(nat, 'b list \<times> nat) smap"
  total_intended_len :: nat

definition partial_at :: "'b striped_result \<Rightarrow> nat \<Rightarrow> 'b list \<times> nat" where
  "partial_at s k = (case map_of (partial_r s) k of None \<Rightarrow> ([], 0) | Some r \<Rightarrow> r)"

definition put_partial :: "'b striped_result \<Rightarrow> nat \<Rightarrow> 'b list \<Rightarrow> nat \<Rightarrow> 'b striped_result" where
  "put_partial s k data intended =
     s\<lparr>partial_r := smap_put k (data, intended) (partial_r s),
       total_intended_len := add64 (total_intended_len s) intended\<rparr>"

primrec add_partial_result ::
  "'b striped_result \<Rightarrow> 'b list \<Rightarrow> (nat \<times> nat) list \<Rightarrow> 'b striped_result \<times> 'b list" where
  "add_partial_result s bl [] = (s, bl)"
| "add_partial_result s bl (p # ps) =
     (let r = partial_at s (fst p);
          actual = min (length bl) (snd p)
      in add_partial_result (put_partial s (fst p) (fst r @ take actual bl) (snd p)) (drop actual bl) ps)"

text \<open>The overload for an rvalue buffer moves the whole buffer when there is one extent.\<close>

definition add_partial_result_move ::
  "'b striped_result \<Rightarrow> 'b list \<Rightarrow> (nat \<times> nat) list \<Rightarrow> 'b striped_result \<times> 'b list" where
  "add_partial_result_move s bl bes =
     (case bes of
        [be] \<Rightarrow> (put_partial s (fst be) bl (snd be), [])
      | _ \<Rightarrow> add_partial_result s bl bes)"

text \<open>One buffer extent of a sparse reply. The iterator is what it has left of \<open>bl_map\<close>; the
  result also has the buffer, the iterator and the offset, which the caller goes on with.
  Taking more bytes than the buffer has throws or runs past its end: \<open>None\<close>. The first
  function is the body of the loop after the check for the end of the map.\<close>

type_synonym 'b sparse_state = "'b striped_result \<times> 'b list \<times> (nat \<times> nat) list \<times> nat \<times> nat \<times> nat"

definition sparse_copy ::
  "'b striped_result \<Rightarrow> 'b list \<Rightarrow> nat \<times> nat \<Rightarrow> (nat \<times> nat) list \<Rightarrow> nat \<Rightarrow> nat \<Rightarrow> nat \<Rightarrow> 'b sparse_state option" where
  "sparse_copy s bl m ms bl_off tofs tlen =
     (if \<not> fst m \<le> bl_off then None
      else
        let left = sub64 (add64 (fst m) (snd m)) bl_off;
            actual = min left tlen;
            ms' = (if actual = left then ms else m # ms)
        in if actual > length bl then None
           else if actual > 0
           then Some (put_partial s tofs (fst (partial_at s tofs) @ take actual bl) actual,
                      drop actual bl, ms', add64 bl_off actual, add64 tofs actual, tlen - actual)
           else Some (s, bl, ms', bl_off, tofs, tlen))"

definition sparse_body ::
  "'b striped_result \<Rightarrow> 'b list \<Rightarrow> nat \<times> nat \<Rightarrow> (nat \<times> nat) list \<Rightarrow> nat \<Rightarrow> nat \<Rightarrow> nat \<Rightarrow> 'b sparse_state option" where
  "sparse_body s bl m ms bl_off tofs tlen =
     (if snd m = 0 then Some (s, bl, ms, bl_off, tofs, tlen)
      else if fst m > bl_off then
        let gap = min (fst m - bl_off) tlen;
            s' = put_partial s tofs (fst (partial_at s tofs)) gap
        in if tlen - gap = 0 then Some (s', bl, m # ms, add64 bl_off gap, add64 tofs gap, 0)
           else sparse_copy s' bl m ms (add64 bl_off gap) (add64 tofs gap) (tlen - gap)
      else sparse_copy s bl m ms bl_off tofs tlen)"

lemma sparse_copy_less:
  "sparse_copy s bl m ms bl_off tofs tlen = Some (s', bl', ms', bl_off', tofs', tlen') \<Longrightarrow> 0 < tlen \<Longrightarrow>
   length ms' + tlen' < length (m # ms) + tlen"
  by (auto simp: sparse_copy_def Let_def split: if_splits)

lemma sparse_body_less:
  "sparse_body s bl m ms bl_off tofs tlen = Some (s', bl', ms', bl_off', tofs', tlen') \<Longrightarrow> 0 < tlen \<Longrightarrow>
   length ms' + tlen' < length (m # ms) + tlen"
  by (auto simp: sparse_body_def Let_def split: if_splits dest!: sparse_copy_less)

function sparse_one ::
  "'b striped_result \<Rightarrow> 'b list \<Rightarrow> (nat \<times> nat) list \<Rightarrow> nat \<Rightarrow> nat \<Rightarrow> nat \<Rightarrow>
   ('b striped_result \<times> 'b list \<times> (nat \<times> nat) list \<times> nat) option" where
  "sparse_one s bl ms bl_off tofs tlen =
     (if tlen = 0 then Some (s, bl, ms, bl_off)
      else case ms of
        [] \<Rightarrow> Some (put_partial s tofs (fst (partial_at s tofs)) tlen, bl, ms, bl_off)
      | m # ms' \<Rightarrow>
          (case sparse_body s bl m ms' bl_off tofs tlen of
             None \<Rightarrow> None
           | Some (s', bl', ms'', bl_off', tofs', tlen') \<Rightarrow> sparse_one s' bl' ms'' bl_off' tofs' tlen'))"
  by pat_completeness auto
termination
  by (relation "measure (\<lambda>(s, bl, ms, bo, tofs, tlen). length ms + tlen)")
    (auto dest!: sparse_body_less)

declare sparse_one.simps [simp del]

primrec sparse_loop ::
  "(nat \<times> nat) list \<Rightarrow> 'b striped_result \<Rightarrow> 'b list \<Rightarrow> (nat \<times> nat) list \<Rightarrow> nat \<Rightarrow>
   ('b striped_result \<times> 'b list) option" where
  "sparse_loop [] s bl ms bl_off = Some (s, bl)"
| "sparse_loop (be # bes) s bl ms bl_off =
     (case sparse_one s bl ms bl_off (fst be) (snd be) of
        None \<Rightarrow> None
      | Some (s', bl', ms', bl_off') \<Rightarrow> sparse_loop bes s' bl' ms' bl_off')"

definition add_partial_sparse_result ::
  "'b striped_result \<Rightarrow> 'b list \<Rightarrow> (nat, nat) smap \<Rightarrow> nat \<Rightarrow> (nat \<times> nat) list \<Rightarrow>
   ('b striped_result \<times> 'b list) option" where
  "add_partial_sparse_result s bl bl_map bl_off buffer_extents =
     sparse_loop buffer_extents s bl bl_map bl_off"

text \<open>The three ways to read the result out. \<open>zero\<close> is the zero byte.\<close>

primrec assemble_loop :: "'b \<Rightarrow> (nat \<times> 'b list \<times> nat) list \<Rightarrow> 'b list \<Rightarrow> nat \<Rightarrow> 'b list \<times> nat" where
  "assemble_loop zero [] bl zeros = (bl, zeros)"
| "assemble_loop zero (p # ps) bl zeros =
     (let got = length (fst (snd p)); expect = snd (snd p) in
      if got \<noteq> 0
      then assemble_loop zero ps (bl @ replicate zeros zero @ fst (snd p)) (sub64 expect got)
      else assemble_loop zero ps bl (add64 zeros (sub64 expect got)))"

definition assemble_result ::
  "'b \<Rightarrow> 'b striped_result \<Rightarrow> 'b list \<Rightarrow> bool \<Rightarrow> 'b striped_result \<times> 'b list" where
  "assemble_result zero s bl zero_tail =
     (let (out, zeros) = assemble_loop zero (partial_r s) bl 0 in
      (s\<lparr>partial_r := []\<rparr>, if zero_tail then out @ replicate zeros zero else out))"

definition write_at :: "'b list \<Rightarrow> nat \<Rightarrow> 'b list \<Rightarrow> 'b list option" where
  "write_at buf pos bytes =
     (if pos + length bytes \<le> length buf
      then Some (take pos buf @ bytes @ drop (pos + length bytes) buf) else None)"

primrec buffer_loop ::
  "'b \<Rightarrow> (nat \<times> 'b list \<times> nat) list \<Rightarrow> nat \<Rightarrow> nat \<Rightarrow> 'b list \<Rightarrow> (nat \<times> 'b list) option" where
  "buffer_loop zero [] cur stop buf = Some (cur, buf)"
| "buffer_loop zero (p # ps) cur stop buf =
     (let data = fst (snd p); intended = snd (snd p) in
      if \<not> fst p = sub64 stop intended then None
      else if \<not> cur \<ge> intended then None
      else case write_at buf (cur - intended)
                  (if length data < intended then data @ replicate (intended - length data) zero
                   else data) of
             None \<Rightarrow> None
           | Some buf' \<Rightarrow> buffer_loop zero ps (cur - intended) (fst p) buf')"

definition assemble_result_buffer ::
  "'b \<Rightarrow> 'b striped_result \<Rightarrow> 'b list \<Rightarrow> ('b striped_result \<times> 'b list) option" where
  "assemble_result_buffer zero s buf = do {
     ensure (length buf = total_intended_len s);
     case rev (partial_r s) of
       [] \<Rightarrow> Some (s, buf)
     | p # ps \<Rightarrow> do {
         (cur, buf') \<leftarrow> buffer_loop zero (p # ps) (length buf) (add64 (fst p) (snd (snd p))) buf;
         ensure (cur = 0);
         Some (s\<lparr>partial_r := []\<rparr>, buf') } }"

definition assemble_result_sparse ::
  "'b striped_result \<Rightarrow> (nat, nat) smap \<Rightarrow> 'b list \<Rightarrow> 'b striped_result \<times> (nat, nat) smap \<times> 'b list" where
  "assemble_result_sparse s extent_map bl =
     (s\<lparr>partial_r := []\<rparr>,
      fold (\<lambda>p m. if length (fst (snd p)) > 0 then smap_put (fst p) (length (fst (snd p))) m else m)
        (partial_r s) extent_map,
      bl @ concat (map (\<lambda>p. fst (snd p)) (partial_r s)))"

end
