(* ===== verification/Striper_Correct.thy ===== *)
theory Striper_Correct
  imports Striper "HOL-Library.Multiset"
begin

text \<open>
  Correctness of the striper. The map from file bytes to object bytes and back is an
  interface, \<open>striping\<close>, with the formulas of \<open>file_to_extents\<close> and \<open>extent_to_file\<close> as its
  instance. On it rest: the extents of a range cover it byte for byte with one extent per
  object, the two directions are inverse, a truncated object keeps exactly the bytes below the
  file's new size, and a striped read returns the bytes of the file.
\<close>

subsection \<open>The interface: bytes of a file and bytes of objects\<close>

locale striping =
  fixes ok :: "'l \<Rightarrow> bool"
    and osz :: "'l \<Rightarrow> nat"
    and obj :: "'l \<Rightarrow> nat \<Rightarrow> nat"
    and off :: "'l \<Rightarrow> nat \<Rightarrow> nat"
    and at :: "'l \<Rightarrow> nat \<Rightarrow> nat \<Rightarrow> nat"
  assumes at_loc: "ok l \<Longrightarrow> at l (obj l b) (off l b) = b"
    and obj_at: "ok l \<Longrightarrow> y < osz l \<Longrightarrow> obj l (at l n y) = n"
    and off_at: "ok l \<Longrightarrow> y < osz l \<Longrightarrow> off l (at l n y) = y"
    and off_less: "ok l \<Longrightarrow> off l b < osz l"
    and at_mono: "ok l \<Longrightarrow> y < y' \<Longrightarrow> at l n y < at l n y'"
begin

lemma loc_inj: "ok l \<Longrightarrow> obj l b = obj l c \<Longrightarrow> off l b = off l c \<Longrightarrow> b = c"
  using at_loc by metis

lemma same_object_order:
  assumes "ok l" and "obj l b = obj l c"
  shows "off l b < off l c \<longleftrightarrow> b < c"
proof -
  have less: "b' < c'" if "obj l b' = obj l c'" "off l b' < off l c'" for b' c'
    using at_mono [OF assms(1) that(2), of "obj l b'"] at_loc [OF assms(1)] that(1) by metis
  show ?thesis using less [of b c] less [of c b] loc_inj [OF assms] assms(2)
    by (metis less_imp_not_less linorder_neqE_nat)
qed

text \<open>A run of file bytes that reaches up to \<open>c\<close> reaches, in the object of \<open>c\<close>, up to the offset
  of \<open>c\<close>: the object's share of the run is one range.\<close>

lemma contiguous:
  assumes l: "ok l" and img: "off l ` {b. a \<le> b \<and> b < c \<and> obj l b = obj l c} = {u..<v}" and "u < v"
  shows "v = off l c"
proof (rule antisym)
  have "v - 1 \<in> {u..<v}" using \<open>u < v\<close> by auto
  then obtain b where "b < c" "obj l b = obj l c" "off l b = v - 1" unfolding img [symmetric] by auto
  then have "v - 1 < off l c" using same_object_order [OF l] by metis
  then show "v \<le> off l c" by simp
  show "off l c \<le> v"
  proof (rule ccontr)
    assume "\<not> off l c \<le> v"
    then have v: "v < off l c" by simp
    let ?d = "at l (obj l c) v"
    have d: "obj l ?d = obj l c" "off l ?d = v"
      using obj_at off_at off_less l v by (meson less_trans)+
    have "u \<in> {u..<v}" using \<open>u < v\<close> by simp
    then obtain e where e: "a \<le> e" "obj l e = obj l c" "off l e = u" unfolding img [symmetric] by auto
    have "e < ?d" using same_object_order [OF l, of e ?d] d e \<open>u < v\<close> by simp
    moreover have "?d < c" using same_object_order [OF l, of ?d c] d v by simp
    ultimately have "v \<in> off l ` {b. a \<le> b \<and> b < c \<and> obj l b = obj l c}"
      using d e(1) by (intro image_eqI [of _ _ ?d]) auto
    then show False unfolding img by simp
  qed
qed

end

subsection \<open>The code's formulas\<close>

definition layout_ok :: "file_layout \<Rightarrow> bool" where
  "layout_ok l \<longleftrightarrow> 0 < stripe_unit l \<and> 0 < stripe_count l \<and> 0 < object_size l \<and>
     object_size l mod stripe_unit l = 0 \<and>
     stripe_unit l < two32 \<and> stripe_count l < two32 \<and> object_size l < two32"

definition spo :: "file_layout \<Rightarrow> nat" where
  "spo l = object_size l div stripe_unit l"

definition lay_obj :: "file_layout \<Rightarrow> nat \<Rightarrow> nat" where
  "lay_obj l b = b div stripe_unit l div stripe_count l div spo l * stripe_count l +
     b div stripe_unit l mod stripe_count l"

definition lay_off :: "file_layout \<Rightarrow> nat \<Rightarrow> nat" where
  "lay_off l b = b div stripe_unit l div stripe_count l mod spo l * stripe_unit l + b mod stripe_unit l"

definition lay_at :: "file_layout \<Rightarrow> nat \<Rightarrow> nat \<Rightarrow> nat" where
  "lay_at l n y = ((y div stripe_unit l + n div stripe_count l * spo l) * stripe_count l +
     n mod stripe_count l) * stripe_unit l + y mod stripe_unit l"

lemma layout_is_valid_ok:
  "layout_is_valid l \<Longrightarrow> stripe_unit l < two32 \<Longrightarrow> stripe_count l < two32 \<Longrightarrow> object_size l < two32 \<Longrightarrow>
   layout_ok l"
  by (auto simp: layout_is_valid_def layout_ok_def)

lemma layout_okD:
  assumes "layout_ok l"
  shows "0 < stripe_unit l" and "0 < stripe_count l" and "0 < spo l"
    and "object_size l = spo l * stripe_unit l" and "stripe_unit l \<le> object_size l"
    and "object_size l < two32" and "stripe_count l < two32" and "0 < object_size l"
  using assms by (auto simp: layout_ok_def spo_def div_greater_zero_iff dvd_imp_le mod_eq_0_iff_dvd)

lemma lay_at_loc: "layout_ok l \<Longrightarrow> lay_at l (lay_obj l b) (lay_off l b) = b"
proof -
  assume l: "layout_ok l"
  let ?su = "stripe_unit l" and ?sc = "stripe_count l"
  let ?q = "b div ?su"
  have "lay_off l b div ?su = ?q div ?sc mod spo l" "lay_off l b mod ?su = b mod ?su"
    using layout_okD [OF l] by (simp_all add: lay_off_def)
  moreover have "lay_obj l b div ?sc = ?q div ?sc div spo l" "lay_obj l b mod ?sc = ?q mod ?sc"
    using layout_okD [OF l] by (simp_all add: lay_obj_def)
  ultimately have "lay_at l (lay_obj l b) (lay_off l b) =
      ((?q div ?sc mod spo l + ?q div ?sc div spo l * spo l) * ?sc + ?q mod ?sc) * ?su + b mod ?su"
    by (simp add: lay_at_def)
  also have "?q div ?sc mod spo l + ?q div ?sc div spo l * spo l = ?q div ?sc" by simp
  finally show ?thesis by simp
qed

lemma lay_loc_at:
  assumes l: "layout_ok l" and y: "y < object_size l"
  shows "lay_obj l (lay_at l n y) = n" and "lay_off l (lay_at l n y) = y"
proof -
  let ?su = "stripe_unit l" and ?sc = "stripe_count l"
  have "lay_at l n y div ?su = (y div ?su + n div ?sc * spo l) * ?sc + n mod ?sc"
      "lay_at l n y mod ?su = y mod ?su"
    using layout_okD [OF l] by (simp_all add: lay_at_def)
  moreover have "y div ?su < spo l"
    using y layout_okD [OF l] by (simp add: less_mult_imp_div_less)
  ultimately show "lay_obj l (lay_at l n y) = n" and "lay_off l (lay_at l n y) = y"
    using layout_okD [OF l] by (simp_all add: lay_obj_def lay_off_def)
qed

lemma lay_at_mono:
  assumes l: "layout_ok l" and y: "y < y'"
  shows "lay_at l n y < lay_at l n y'"
proof -
  let ?su = "stripe_unit l" and ?sc = "stripe_count l"
  let ?h = "\<lambda>y. (y div ?su + n div ?sc * spo l) * ?sc + n mod ?sc"
  show ?thesis
  proof (cases "y div ?su = y' div ?su")
    case True
    have "y div ?su * ?su + y mod ?su < y' div ?su * ?su + y' mod ?su"
      unfolding div_mult_mod_eq by (rule y)
    then have "y mod ?su < y' mod ?su" unfolding True by (simp only: nat_add_left_cancel_less)
    then show ?thesis by (simp add: lay_at_def True)
  next
    case False
    then have "y div ?su < y' div ?su" using y by (simp add: div_le_mono le_neq_implies_less)
    then have "(y div ?su + n div ?sc * spo l) * ?sc < (y' div ?su + n div ?sc * spo l) * ?sc"
      using layout_okD(2) [OF l] by simp
    then have "?h y + 1 \<le> ?h y'" by linarith
    then have "(?h y + 1) * ?su \<le> ?h y' * ?su" by (rule mult_le_mono1)
    moreover have "y mod ?su < ?su" using layout_okD(1) [OF l] by simp
    ultimately show ?thesis unfolding lay_at_def by simp
  qed
qed

interpretation lay: striping layout_ok object_size lay_obj lay_off lay_at
proof
  fix l b n y y' assume l: "layout_ok l"
  show "lay_at l (lay_obj l b) (lay_off l b) = b" using l by (rule lay_at_loc)
  show "y < object_size l \<Longrightarrow> lay_obj l (lay_at l n y) = n" using l by (rule lay_loc_at)
  show "y < object_size l \<Longrightarrow> lay_off l (lay_at l n y) = y" using l by (rule lay_loc_at)
  show "y < y' \<Longrightarrow> lay_at l n y < lay_at l n y'" using l by (rule lay_at_mono)
  have "(b div stripe_unit l div stripe_count l mod spo l + 1) * stripe_unit l \<le> spo l * stripe_unit l"
    using layout_okD(3) [OF l] by (intro mult_le_mono1) (simp add: Suc_le_eq)
  moreover have "b mod stripe_unit l < stripe_unit l" using layout_okD(1) [OF l] by simp
  ultimately show "lay_off l b < object_size l" unfolding lay_off_def layout_okD(4) [OF l] by simp
qed

lemma lay_obj_le: "layout_ok l \<Longrightarrow> lay_obj l b \<le> b"
proof -
  assume l: "layout_ok l"
  let ?q = "b div stripe_unit l" and ?sc = "stripe_count l"
  have "?q div ?sc div spo l * ?sc \<le> ?q div ?sc * ?sc" by (intro mult_le_mono1 div_le_dividend)
  then have "lay_obj l b \<le> ?q div ?sc * ?sc + ?q mod ?sc"
    unfolding lay_obj_def by (rule add_le_mono1)
  also have "\<dots> \<le> b" by simp
  finally show ?thesis .
qed

text \<open>With one object per stripe the code takes the object size for the stripe unit; the bytes
  stay where they are.\<close>

definition eff :: "file_layout \<Rightarrow> file_layout" where
  "eff l = (if stripe_count l = 1 then l\<lparr>stripe_unit := object_size l\<rparr> else l)"

lemma eff_ok: "layout_ok l \<Longrightarrow> layout_ok (eff l)"
  by (simp add: eff_def layout_ok_def)

lemma eff_sel [simp]: "stripe_count (eff l) = stripe_count l" "object_size (eff l) = object_size l"
  by (simp_all add: eff_def)

lemma eff_loc:
  assumes l: "layout_ok l"
  shows "lay_obj (eff l) b = lay_obj l b" and "lay_off (eff l) b = lay_off l b"
proof -
  note os = layout_okD(4) [OF l]
  have "lay_obj l b = b div object_size l" if "stripe_count l = 1"
    using that unfolding os by (simp add: lay_obj_def div_mult2_eq mult.commute)
  moreover have "lay_off l b = b mod object_size l" if "stripe_count l = 1"
    using that unfolding os by (simp add: lay_off_def mod_mult2_eq mult.commute)
  ultimately show "lay_obj (eff l) b = lay_obj l b" and "lay_off (eff l) b = lay_off l b"
    using layout_okD(8) [OF l] by (auto simp: eff_def lay_obj_def lay_off_def spo_def)
qed

lemma two32_64: "n < two32 \<Longrightarrow> n < two64"
  by (simp add: two32_def two64_def)

lemma code_loc:
  assumes l: "layout_ok l" and b: "b < two64"
  shows "objectno_of (stripe_unit l) (stripe_count l) (spo l) b = lay_obj l b"
    and "x_offset_of (stripe_unit l) (stripe_count l) (spo l) b = lay_off l b"
proof -
  have o: "lay_obj l b < two64" using lay_obj_le [OF l] b by (rule le_less_trans)
  then show "objectno_of (stripe_unit l) (stripe_count l) (spo l) b = lay_obj l b"
    by (simp add: objectno_of_def lay_obj_def Let_def mul64_eq add64_eq)
  have "lay_off l b < two64" using lay.off_less [OF l] layout_okD(6) [OF l] two32_64 less_trans by blast
  then show "x_offset_of (stripe_unit l) (stripe_count l) (spo l) b = lay_off l b"
    by (simp add: x_offset_of_def lay_off_def Let_def mul64_eq add64_eq)
qed

lemma same_block:
  fixes m :: nat
  assumes "0 < m" and "d < m - c mod m"
  shows "(c + d) div m = c div m" and "(c + d) mod m = c mod m + d"
proof -
  have e: "c + d = c div m * m + (c mod m + d)" and lt: "c mod m + d < m" using assms(2) by simp_all
  have "(c + d) div m = (c div m * m + (c mod m + d)) div m" by (simp only: e [symmetric])
  also have "\<dots> = c div m" using assms(1) lt by (simp only: div_mult_self3) simp
  finally show "(c + d) div m = c div m" .
  have "(c + d) mod m = (c div m * m + (c mod m + d)) mod m" by (simp only: e [symmetric])
  then show "(c + d) mod m = c mod m + d" using lt by (simp only: mod_mult_self3 mod_less)
qed

text \<open>Inside a block, the object stays and the offset advances with the file.\<close>

lemma block_step:
  assumes l: "layout_ok l" and d: "d < stripe_unit l - c mod stripe_unit l"
  shows "lay_obj l (c + d) = lay_obj l c" and "lay_off l (c + d) = lay_off l c + d"
proof -
  have "(c + d) div stripe_unit l = c div stripe_unit l"
      "(c + d) mod stripe_unit l = c mod stripe_unit l + d"
    using same_block [OF layout_okD(1) [OF l] d] by simp_all
  then show "lay_obj l (c + d) = lay_obj l c" and "lay_off l (c + d) = lay_off l c + d"
    by (simp_all add: lay_obj_def lay_off_def)
qed

definition loc :: "file_layout \<Rightarrow> nat \<Rightarrow> nat \<times> nat" where
  "loc l b = (lay_obj l b, lay_off l b)"

lemma block_run:
  assumes "layout_ok l" and "n \<le> stripe_unit l - c mod stripe_unit l"
  shows "map (loc l) [c..<c + n] = map (Pair (lay_obj l c)) [lay_off l c..<lay_off l c + n]"
  using block_step [OF assms(1)] assms(2) by (intro nth_equalityI) (auto simp: loc_def)

subsection \<open>A range as a chain of pieces\<close>

function pieces :: "nat \<Rightarrow> nat \<Rightarrow> nat \<Rightarrow> (nat \<times> nat) list" where
  "pieces su cur left =
     (if left = 0 \<or> su = 0 then []
      else let n = min left (su - cur mod su) in (cur, n) # pieces su (cur + n) (left - n))"
  by pat_completeness auto
termination
  by (relation "measure (\<lambda>(su, cur, left). left)") auto

declare pieces.simps [simp del]

fun chain :: "(nat \<Rightarrow> nat \<Rightarrow> bool) \<Rightarrow> nat \<Rightarrow> (nat \<times> nat) list \<Rightarrow> nat \<Rightarrow> bool" where
  "chain P c [] e \<longleftrightarrow> c = e"
| "chain P c ((c', n) # ps) e \<longleftrightarrow> c' = c \<and> 0 < n \<and> P c n \<and> chain P (c + n) ps e"

abbreviation in_block :: "file_layout \<Rightarrow> nat \<Rightarrow> nat \<Rightarrow> bool" where
  "in_block l c n \<equiv> n \<le> stripe_unit l - c mod stripe_unit l"

lemma pieces_chain:
  "0 < stripe_unit l \<Longrightarrow> chain (in_block l) cur (pieces (stripe_unit l) cur left) (cur + left)"
proof (induction "stripe_unit l" cur left rule: pieces.induct)
  case (1 cur left)
  show ?case
  proof (cases "left = 0")
    case False
    let ?n = "min left (stripe_unit l - cur mod stripe_unit l)"
    have "0 < ?n" using 1(2) False by simp
    moreover have "cur + ?n + (left - ?n) = cur + left" by simp
    ultimately show ?thesis
      using 1(1) [of ?n] 1(2) False by (subst pieces.simps) (simp add: Let_def)
  qed (simp add: pieces.simps)
qed

lemma chain_snoc: "chain P c (ps @ [(d, n)]) e \<longleftrightarrow> chain P c ps d \<and> 0 < n \<and> P d n \<and> e = d + n"
  by (induction P c ps e rule: chain.induct) auto

lemma chain_le: "chain P c ps e \<Longrightarrow> c \<le> e"
  by (induction P c ps e rule: chain.induct) auto

definition span :: "(nat \<times> nat) list \<Rightarrow> nat list" where
  "span ps = concat (map (\<lambda>p. [fst p..<fst p + snd p]) ps)"

lemma span_simps [simp]:
  "span [] = []" "span (p # ps) = [fst p..<fst p + snd p] @ span ps" "span (ps @ qs) = span ps @ span qs"
  by (simp_all add: span_def)

lemma chain_span: "chain P c ps e \<Longrightarrow> span ps = [c..<e]"
proof (induction P c ps e rule: chain.induct)
  case (2 P c c' n ps e)
  then have "c + n \<le> e" using chain_le by auto
  then have "[c..<e] = [c..<c + n] @ [c + n..<e]"
    using upt_add_eq_append [of c "c + n" "e - (c + n)"] by simp
  with 2 show ?case by simp
qed simp

subsection \<open>The extents of a range\<close>

text \<open>The loop over the range is a loop over its pieces, at their place in the buffer.\<close>

definition place :: "nat \<Rightarrow> nat \<Rightarrow> nat \<times> nat \<Rightarrow> nat \<times> nat" where
  "place offset bo p = (fst p - offset + bo, snd p)"

primrec add_pieces ::
  "file_layout \<Rightarrow> nat \<Rightarrow> nat \<Rightarrow> nat \<Rightarrow> (nat \<times> nat) list \<Rightarrow> lw_extent list \<Rightarrow> lw_extent list option" where
  "add_pieces l ts offset bo [] exts = Some exts"
| "add_pieces l ts offset bo (p # ps) exts =
     Option.bind (add_extent l ts (lay_obj l (fst p)) (lay_off l (fst p)) (snd p) (place offset bo p) exts)
       (add_pieces l ts offset bo ps)"

lemma extents_loop_pieces:
  assumes l: "layout_ok l"
  shows "offset \<le> cur \<Longrightarrow> cur + left < two64 \<Longrightarrow> cur - offset + left + bo < two64 \<Longrightarrow>
    extents_loop l (stripe_unit (eff l)) (spo (eff l)) ts offset bo cur left exts =
    add_pieces l ts offset bo (pieces (stripe_unit (eff l)) cur left) exts"
proof (induction left arbitrary: cur exts rule: less_induct)
  case (less left)
  let ?su = "stripe_unit (eff l)"
  have su: "0 < ?su" using layout_okD(1) [OF eff_ok [OF l]] .
  show ?case
  proof (cases "left = 0")
    case True
    then show ?thesis by (simp add: extents_loop.simps pieces.simps)
  next
    case False
    let ?n = "min left (?su - cur mod ?su)"
    have n: "(if ?su - cur mod ?su < left then ?su - cur mod ?su else left) = ?n" by simp
    have npos: "0 < ?n" "?n \<le> left" using su False by simp_all
    have loc: "objectno_of ?su (stripe_count l) (spo (eff l)) cur = lay_obj l cur"
        "x_offset_of ?su (stripe_count l) (spo (eff l)) cur = lay_off l cur"
      using code_loc [OF eff_ok [OF l], of cur] less(3) eff_loc [OF l] by simp_all
    have pos: "(add64 (sub64 cur offset) bo, ?n) = place offset bo (cur, ?n)"
      using less(2-4) by (simp add: place_def u64_simps)
    have adv: "add64 cur ?n = cur + ?n" using less(3) npos by (simp add: add64_eq)
    have ih: "extents_loop l ?su (spo (eff l)) ts offset bo (cur + ?n) (left - ?n) e =
        add_pieces l ts offset bo (pieces ?su (cur + ?n) (left - ?n)) e" for e
      using less(2-4) npos False by (intro less(1)) auto
    show ?thesis
      using False su unfolding extents_loop.simps [of l ?su "spo (eff l)" ts offset bo cur left exts]
        pieces.simps [of ?su cur left]
      unfolding Let_def n loc pos adv ih by (simp split: option.splits add: bind_split)
  qed
qed

lemma file_to_extents_pieces:
  assumes l: "layout_ok l" and len: "0 < len" "offset + len < two64" "bo + len < two64"
  shows "file_to_extents l offset len ts bo exts =
    add_pieces l ts offset bo (pieces (stripe_unit (eff l)) offset len) exts"
proof -
  have "(if stripe_count l = 1 then object_size l else stripe_unit l) = stripe_unit (eff l)"
    by (simp add: eff_def)
  moreover have "object_size l div stripe_unit (eff l) = spo (eff l)" by (simp add: spo_def)
  ultimately show ?thesis
    using layout_okD [OF l] layout_okD(1) [OF eff_ok [OF l]] len
      extents_loop_pieces [OF l order_refl, of offset len bo ts exts]
    by (simp add: file_to_extents_def add.commute Let_def)
qed

lemma truncate_total: "layout_ok l \<Longrightarrow> \<exists>n. object_truncate_size l k ts = Some n"
  using layout_okD [of l] by (simp add: object_truncate_size_def Let_def)

text \<open>\<open>fb\<close> takes a place in the buffer back to the byte of the file. An extent is aligned when its
  buffer extents list, in order, the places of the bytes of its object range.\<close>

definition fb :: "nat \<Rightarrow> nat \<Rightarrow> nat \<Rightarrow> nat" where
  "fb offset bo p = p - bo + offset"

definition aligned :: "file_layout \<Rightarrow> nat \<Rightarrow> nat \<Rightarrow> lw_extent \<Rightarrow> bool" where
  "aligned l offset bo e \<longleftrightarrow> 0 < ex_length e \<and>
     map (\<lambda>p. loc l (fb offset bo p)) (span (ex_buffer_extents e)) =
     map (Pair (ex_object_no e)) [ex_offset e..<ex_offset e + ex_length e]"

definition extents_inv ::
  "file_layout \<Rightarrow> nat \<Rightarrow> nat \<Rightarrow> nat \<Rightarrow> (nat \<times> nat) list \<Rightarrow> lw_extent list \<Rightarrow> bool" where
  "extents_inv l ts offset bo ps exts \<longleftrightarrow>
     sorted_wrt (<) (map ex_object_no exts) \<and>
     (\<forall>e\<in>set exts. aligned l offset bo e \<and>
        object_truncate_size l (ex_object_no e) ts = Some (ex_truncate_size e)) \<and>
     mset (concat (map ex_buffer_extents exts)) = mset (map (place offset bo) ps)"

lemma aligned_image:
  "aligned l offset bo e \<Longrightarrow> (\<lambda>p. loc l (fb offset bo p)) ` set (span (ex_buffer_extents e)) =
     {ex_object_no e} \<times> {ex_offset e..<ex_offset e + ex_length e}"
  unfolding aligned_def by (drule conjunct2, drule arg_cong [where f = set]) auto

lemma span_mset: "mset ps = mset qs \<Longrightarrow> set (span ps) = set (span qs)"
  using mset_eq_setD [of ps qs] by (simp add: span_def)

lemma mset_span: "mset (span ps) = (\<Sum>p\<in>#mset ps. mset [fst p..<fst p + snd p])"
  by (induction ps) simp_all

lemma span_place:
  "chain P c ps e \<Longrightarrow> offset \<le> c \<Longrightarrow> span (map (place offset bo) ps) = [c - offset + bo..<e - offset + bo]"
proof (induction P c ps e rule: chain.induct)
  case (2 P c c' n ps e)
  then have "c + n \<le> e" using chain_le by auto
  then have "[c - offset + bo..<e - offset + bo] =
      [c - offset + bo..<c - offset + bo + n] @ [c + n - offset + bo..<e - offset + bo]"
    using upt_add_eq_append [of "c - offset + bo" "c - offset + bo + n" "e - (c + n)"] 2(3)
    by (simp add: add.commute add.left_commute)
  with 2 show ?case by (simp add: place_def)
qed simp

lemma extents_cover:
  assumes inv: "extents_inv l ts offset bo ps exts" and ch: "chain P offset ps c"
  shows "(\<Union>e\<in>set exts. set (span (ex_buffer_extents e))) = {bo..<c - offset + bo}"
proof -
  have "(\<Union>e\<in>set exts. set (span (ex_buffer_extents e))) = set (span (concat (map ex_buffer_extents exts)))"
    by (auto simp: span_def)
  also have "\<dots> = set (span (map (place offset bo) ps))"
    using inv by (intro span_mset) (simp add: extents_inv_def)
  finally show ?thesis using span_place [OF ch order_refl] by simp
qed

text \<open>The part of the range that lies in one object.\<close>

lemma object_share:
  assumes inv: "extents_inv l ts offset bo ps exts" and ch: "chain P offset ps c" and e: "e \<in> set exts"
  shows "lay_off l ` {b. offset \<le> b \<and> b < c \<and> lay_obj l b = ex_object_no e} =
    {ex_offset e..<ex_offset e + ex_length e}" (is "?L = ?R")
proof
  note cov = extents_cover [OF inv ch]
  have al: "\<And>e. e \<in> set exts \<Longrightarrow> aligned l offset bo e" using inv by (simp add: extents_inv_def)
  have "distinct (map ex_object_no exts)"
    using inv by (simp add: extents_inv_def strict_sorted_iff)
  then have uniq: "\<And>e'. e' \<in> set exts \<Longrightarrow> ex_object_no e' = ex_object_no e \<Longrightarrow> e' = e"
    using e by (meson distinct_map inj_onD)
  show "?L \<subseteq> ?R"
  proof
    fix y assume "y \<in> ?L"
    then obtain b where b: "offset \<le> b" "b < c" "lay_obj l b = ex_object_no e" "y = lay_off l b" by auto
    then have "b - offset + bo \<in> {bo..<c - offset + bo}" by auto
    then obtain e' where e': "e' \<in> set exts" "b - offset + bo \<in> set (span (ex_buffer_extents e'))"
      unfolding cov [symmetric] by blast
    have "loc l (fb offset bo (b - offset + bo)) \<in>
        {ex_object_no e'} \<times> {ex_offset e'..<ex_offset e' + ex_length e'}"
      unfolding aligned_image [OF al [OF e'(1)], symmetric] by (rule imageI [OF e'(2)])
    then have "ex_object_no e' = ex_object_no e" "y \<in> {ex_offset e'..<ex_offset e' + ex_length e'}"
      using b by (auto simp: loc_def fb_def)
    then show "y \<in> ?R" using uniq [OF e'(1)] by simp
  qed
  show "?R \<subseteq> ?L"
  proof
    fix y assume "y \<in> ?R"
    then have "(ex_object_no e, y) \<in> (\<lambda>p. loc l (fb offset bo p)) ` set (span (ex_buffer_extents e))"
      unfolding aligned_image [OF al [OF e]] by simp
    then obtain p where p: "p \<in> set (span (ex_buffer_extents e))" "loc l (fb offset bo p) = (ex_object_no e, y)"
      by auto
    then have "p \<in> {bo..<c - offset + bo}" using cov e by blast
    then have "offset \<le> fb offset bo p" "fb offset bo p < c" by (auto simp: fb_def)
    with p(2) show "y \<in> ?L" by (auto simp: loc_def)
  qed
qed

lemma loc_eff: "layout_ok l \<Longrightarrow> loc (eff l) = loc l"
  by (simp add: loc_def fun_eq_iff eff_loc)

lemma piece_run:
  assumes l: "layout_ok l" and n: "in_block (eff l) c n" and c: "offset \<le> c"
  shows "map (\<lambda>p. loc l (fb offset bo p)) [c - offset + bo..<c - offset + bo + n] =
    map (Pair (lay_obj l c)) [lay_off l c..<lay_off l c + n]"
proof -
  have "map (\<lambda>p. loc l (fb offset bo p)) [c - offset + bo..<c - offset + bo + n] = map (loc l) [c..<c + n]"
    using c by (intro nth_equalityI) (auto simp: fb_def add.commute add.left_commute)
  also have "\<dots> = map (Pair (lay_obj l c)) [lay_off l c..<lay_off l c + n]"
    using block_run [OF eff_ok [OF l] n] eff_loc [OF l] by (simp add: loc_eff [OF l])
  finally show ?thesis .
qed

lemma aligned_new:
  assumes "layout_ok l" and "in_block (eff l) c n" and "offset \<le> c" and "0 < n"
  shows "aligned l offset bo \<lparr>ex_object_no = lay_obj l c, ex_offset = lay_off l c, ex_length = n,
    ex_truncate_size = t, ex_buffer_extents = [place offset bo (c, n)]\<rparr>"
  using piece_run [OF assms(1-3), of bo] assms(4) by (simp add: aligned_def place_def)

lemma aligned_grow:
  assumes "layout_ok l" and "in_block (eff l) c n" and "offset \<le> c" and al: "aligned l offset bo e"
    and "ex_object_no e = lay_obj l c" and "lay_off l c = ex_offset e + ex_length e"
  shows "aligned l offset bo (e\<lparr>ex_length := ex_length e + n,
    ex_buffer_extents := ex_buffer_extents e @ [place offset bo (c, n)]\<rparr>)"
proof -
  have "[ex_offset e..<ex_offset e + (ex_length e + n)] =
      [ex_offset e..<ex_offset e + ex_length e] @ [ex_offset e + ex_length e..<ex_offset e + ex_length e + n]"
    using upt_add_eq_append [of "ex_offset e" "ex_offset e + ex_length e" n] by (simp add: add.assoc)
  with al piece_run [OF assms(1-3), of bo] assms(5,6) show ?thesis
    by (simp add: aligned_def place_def)
qed

lemma extents_inv_split:
  assumes "extents_inv l ts offset bo ps (xs @ ys)" and "\<forall>e\<in>set xs. ex_object_no e < ex_object_no a"
    and "\<forall>e\<in>set ys. ex_object_no a < ex_object_no e" and "aligned l offset bo a"
    and "object_truncate_size l (ex_object_no a) ts = Some (ex_truncate_size a)"
    and "mset (ex_buffer_extents a) = mset (map (place offset bo) qs)"
  shows "extents_inv l ts offset bo (ps @ qs) (xs @ a # ys)"
  using assms by (auto simp: extents_inv_def sorted_wrt_append)

lemma extents_inv_change:
  assumes "extents_inv l ts offset bo ps (xs @ e # ys)" and "ex_object_no a = ex_object_no e"
    and "ex_truncate_size a = ex_truncate_size e" and "aligned l offset bo a"
    and "mset (ex_buffer_extents a) = mset (ex_buffer_extents e) + mset (map (place offset bo) qs)"
  shows "extents_inv l ts offset bo (ps @ qs) (xs @ a # ys)"
  using assms by (auto simp: extents_inv_def sorted_wrt_append)

lemma add_extent_inv:
  assumes l: "layout_ok l" and inv: "extents_inv l ts offset bo ps exts"
    and ch: "chain P offset ps c" and n: "0 < n" "in_block (eff l) c n"
  shows "\<exists>exts'. add_extent l ts (lay_obj l c) (lay_off l c) n (place offset bo (c, n)) exts = Some exts' \<and>
    extents_inv l ts offset bo (ps @ [(c, n)]) exts'"
proof -
  let ?o = "lay_obj l c"
  have c: "offset \<le> c" using chain_le [OF ch] .
  have srt: "sorted (map ex_object_no exts)" "distinct (map ex_object_no exts)"
    using inv by (simp_all add: extents_inv_def strict_sorted_iff)
  define xs where "xs = takeWhile (\<lambda>e. ex_object_no e \<le> ?o) exts"
  define ys where "ys = dropWhile (\<lambda>e. ex_object_no e \<le> ?o) exts"
  have ex: "exts = xs @ ys" by (simp add: xs_def ys_def)
  have xs: "\<forall>e\<in>set xs. ex_object_no e \<le> ?o" by (auto simp: xs_def dest: set_takeWhileD)
  have ys: "\<forall>e\<in>set ys. ?o < ex_object_no e"
  proof (cases ys)
    case (Cons y zs)
    then have "?o < ex_object_no y" using hd_dropWhile [of "\<lambda>e. ex_object_no e \<le> ?o" exts]
      unfolding ys_def [symmetric] by simp
    moreover have "\<forall>e\<in>set zs. ex_object_no y \<le> ex_object_no e"
      using srt(1) by (simp add: ex Cons sorted_append)
    ultimately show ?thesis using Cons by auto
  qed simp
  show ?thesis
  proof (cases "xs \<noteq> [] \<and> ex_object_no (last xs) = ?o")
    case True
    then obtain zs e where z: "xs = zs @ [e]" and e: "ex_object_no e = ?o" by (metis append_butlast_last_id)
    have "{ex_offset e..<ex_offset e + ex_length e} = lay_off l ` {b. offset \<le> b \<and> b < c \<and> lay_obj l b = ?o}"
      using object_share [OF inv ch, of e] by (simp add: ex z e)
    moreover have al: "aligned l offset bo e" using inv by (simp add: extents_inv_def ex z)
    ultimately have x: "ex_offset e + ex_length e = lay_off l c"
      by (intro lay.contiguous [OF l]) (auto simp: aligned_def)
    have small: "lay_off l c < two64"
      using lay.off_less [OF l, of c] layout_okD(6) [OF l] by (simp add: two32_64)
    have "lay_off l c + n \<le> object_size l"
    proof -
      have "lay_off l c + (n - 1) < object_size l"
        using block_step(2) [OF eff_ok [OF l], of "n - 1" c] lay.off_less [OF l, of "c + (n - 1)"] n
        by (simp add: eff_loc [OF l])
      then show ?thesis using n(1) by simp
    qed
    then have len: "add64 (ex_length e) n = ex_length e + n"
      using x layout_okD(6) [OF l] two32_64 by (simp add: add64_eq)
    let ?e = "e\<lparr>ex_length := ex_length e + n, ex_buffer_extents := ex_buffer_extents e @ [place offset bo (c, n)]\<rparr>"
    have "add_extent l ts ?o (lay_off l c) n (place offset bo (c, n)) exts = Some (zs @ ?e # ys)"
      unfolding add_extent_def xs_def [symmetric]
      using x e small by (simp add: ex z len nth_append add64_eq list_update_append)
    moreover have "extents_inv l ts offset bo (ps @ [(c, n)]) (zs @ ?e # ys)"
      using inv by (intro extents_inv_change [of _ _ _ _ _ _ e] aligned_grow [OF l n(2) c al e])
        (simp_all add: ex z x place_def)
    ultimately show ?thesis by blast
  next
    case False
    have lt: "\<forall>e\<in>set xs. ex_object_no e < ?o"
    proof (cases xs rule: rev_cases)
      case (snoc zs e)
      then have "ex_object_no e < ?o" using False xs by auto
      moreover have "\<forall>a\<in>set zs. ex_object_no a \<le> ex_object_no e"
        using srt(1) by (simp add: ex snoc sorted_append)
      ultimately show ?thesis by (auto simp: snoc)
    qed simp
    obtain t where t: "object_truncate_size l ?o ts = Some t" using truncate_total [OF l] by blast
    let ?e = "\<lparr>ex_object_no = ?o, ex_offset = lay_off l c, ex_length = n, ex_truncate_size = t,
      ex_buffer_extents = [place offset bo (c, n)]\<rparr>"
    have "length xs = 0 \<or> ex_object_no (exts ! (length xs - 1)) \<noteq> ?o"
      using False by (auto simp: ex nth_append last_conv_nth)
    then have "add_extent l ts ?o (lay_off l c) n (place offset bo (c, n)) exts = Some (xs @ ?e # ys)"
      unfolding add_extent_def xs_def [symmetric] by (auto simp: t ex Let_def)
    moreover have "extents_inv l ts offset bo (ps @ [(c, n)]) (xs @ ?e # ys)"
      using inv lt ys t by (intro extents_inv_split aligned_new [OF l n(2) c n(1)]) (simp_all add: ex)
    ultimately show ?thesis by blast
  qed
qed

lemma add_pieces_inv:
  assumes l: "layout_ok l"
  shows "extents_inv l ts offset bo ps exts \<Longrightarrow> chain (in_block (eff l)) offset ps c \<Longrightarrow>
    chain (in_block (eff l)) c qs e \<Longrightarrow>
    \<exists>exts'. add_pieces l ts offset bo qs exts = Some exts' \<and> extents_inv l ts offset bo (ps @ qs) exts'"
proof (induction qs arbitrary: ps exts c)
  case (Cons q qs)
  obtain n where q: "q = (c, n)" and n: "0 < n" "in_block (eff l) c n" "chain (in_block (eff l)) (c + n) qs e"
    using Cons(4) by (cases q) auto
  obtain ex1 where ex1: "add_extent l ts (lay_obj l c) (lay_off l c) n (place offset bo (c, n)) exts = Some ex1"
      "extents_inv l ts offset bo (ps @ [(c, n)]) ex1"
    using add_extent_inv [OF l Cons(2,3) n(1,2)] by blast
  have "chain (in_block (eff l)) offset (ps @ [(c, n)]) (c + n)"
    unfolding chain_snoc using Cons(3) n by blast
  from Cons(1) [OF ex1(2) this n(3)] show ?case by (simp add: q ex1(1))
qed simp

lemma file_to_extents_inv:
  assumes l: "layout_ok l" and len: "0 < len" "offset + len < two64" "bo + len < two64"
  shows "\<exists>exts. file_to_extents l offset len ts bo [] = Some exts \<and>
    extents_inv l ts offset bo (pieces (stripe_unit (eff l)) offset len) exts"
proof -
  have "chain (in_block (eff l)) offset (pieces (stripe_unit (eff l)) offset len) (offset + len)"
    using layout_okD(1) [OF eff_ok [OF l]] by (rule pieces_chain)
  from add_pieces_inv [OF l _ _ this, where ps = "[]" and exts = "[]" and ts = ts and bo = bo] show ?thesis
    unfolding file_to_extents_pieces [OF l len] by (simp add: extents_inv_def)
qed

subsection \<open>Back to the file\<close>

lemma lay_at_block:
  assumes "layout_ok l" and "d < stripe_unit l - y mod stripe_unit l"
  shows "lay_at l n (y + d) = lay_at l n y + d"
proof -
  have "(y + d) div stripe_unit l = y div stripe_unit l"
      "(y + d) mod stripe_unit l = y mod stripe_unit l + d"
    using same_block [OF layout_okD(1) [OF assms(1)] assms(2)] by simp_all
  then show ?thesis by (simp add: lay_at_def)
qed

lemma file_loop_span:
  assumes l: "layout_ok l"
  shows "len = 0 \<or> oib = off mod stripe_unit l \<Longrightarrow> len = 0 \<or> lay_at l n (off + len - 1) < two64 \<Longrightarrow>
    off + len < two64 \<Longrightarrow>
    span (file_loop (stripe_unit l) (stripe_count l) (spo l) n off oib len acc) =
    span acc @ map (lay_at l n) [off..<off + len]"
proof (induction len arbitrary: off oib acc rule: less_induct)
  case (less len)
  let ?su = "stripe_unit l" and ?sc = "stripe_count l"
  show ?case
  proof (cases "len = 0")
    case True
    then show ?thesis by (simp add: file_loop.simps)
  next
    case False
    then have oib: "oib = off mod ?su" and b: "lay_at l n (off + len - 1) < two64" using less(2,3) by simp_all
    let ?k = "min len (?su - off mod ?su)"
    have k: "0 < ?k" "?k \<le> len" "?k \<le> ?su - off mod ?su"
      using layout_okD(1) [OF l] False by simp_all
    have "lay_at l n off \<le> lay_at l n (off + len - 1)"
      using lay.at_mono [OF l, of off "off + len - 1" n] False by (cases "len = 1") (simp_all add: less_imp_le)
    then have small: "lay_at l n off < two64" using b by simp
    let ?s = "off div ?su + n div ?sc * spo l"
    have s1: "?s * ?sc + n mod ?sc \<le> lay_at l n off"
    proof -
      have "(?s * ?sc + n mod ?sc) * 1 \<le> (?s * ?sc + n mod ?sc) * ?su"
        by (rule mult_le_mono2) (use layout_okD(1) [OF l] in simp)
      then show ?thesis unfolding lay_at_def mult_1_right by (rule trans_le_add1)
    qed
    have s2: "?s \<le> ?s * ?sc + n mod ?sc" using layout_okD(2) [OF l] by (simp add: trans_le_add1)
    have "add64 (off div ?su) (mul64 (n div ?sc) (spo l)) = ?s"
      using s1 s2 small by (simp add: mul64_eq add64_eq)
    moreover have "add64 (mul64 ?s ?sc) (n mod ?sc) = ?s * ?sc + n mod ?sc"
      using s1 small by (simp add: mul64_eq add64_eq)
    moreover have "add64 (mul64 (?s * ?sc + n mod ?sc) ?su) (off mod ?su) = lay_at l n off"
      using small by (simp add: mul64_eq add64_eq lay_at_def)
    moreover have "add64 off ?k = off + ?k" using less(4) k(2) by (simp add: add64_eq)
    ultimately have step: "file_loop ?su ?sc (spo l) n off oib len acc =
        file_loop ?su ?sc (spo l) n (off + ?k) 0 (len - ?k) (acc @ [(lay_at l n off, ?k)])"
      using False k(1) oib by (subst file_loop.simps) (simp add: Let_def)
    have "len - ?k = 0 \<or> 0 = (off + ?k) mod ?su"
    proof (cases "?k = len")
      case False
      then have "?k = ?su - off mod ?su" using k(2) by linarith
      then have "off + ?k = off div ?su * ?su + ?su" using layout_okD(1) [OF l]
        by (metis add.assoc div_mult_mod_eq le_add_diff_inverse mod_le_divisor)
      then show ?thesis by simp
    qed simp
    then have ih: "span (file_loop ?su ?sc (spo l) n (off + ?k) 0 (len - ?k) (acc @ [(lay_at l n off, ?k)])) =
        span (acc @ [(lay_at l n off, ?k)]) @ map (lay_at l n) [off + ?k..<off + ?k + (len - ?k)]"
      using k b less(4) False by (intro less(1)) auto
    have blk: "map (lay_at l n) [off..<off + ?k] = [lay_at l n off..<lay_at l n off + ?k]"
      using lay_at_block [OF l] k(3) by (intro nth_equalityI) auto
    have "[off..<off + len] = [off..<off + ?k] @ [off + ?k..<off + len]"
      using upt_add_eq_append [of off "off + ?k" "len - ?k"] k(2) by simp
    then show ?thesis unfolding step ih using k(2) by (simp add: blk)
  qed
qed

lemma extent_to_file_span:
  assumes l: "layout_ok l" and "0 < len" and "lay_at l n (off + len - 1) < two64" and "off + len < two64"
  shows "\<exists>fx. extent_to_file l n off len [] = Some fx \<and> span fx = map (lay_at l n) [off..<off + len]"
  using file_loop_span [OF l, of len "off mod stripe_unit l" off n "[]"] layout_okD(1,2,5) [OF l] assms
  by (simp add: extent_to_file_def Let_def spo_def)

subsection \<open>Truncation\<close>

lemma lex_less:
  fixes a b m r s :: nat
  assumes "r < m" and "s < m"
  shows "a * m + r < b * m + s \<longleftrightarrow> a < b \<or> a = b \<and> r < s"
proof (cases a b rule: linorder_cases)
  case less
  then have "(a + 1) * m \<le> b * m" by (intro mult_le_mono1) simp
  with less assms show ?thesis by simp
next
  case greater
  then have "(b + 1) * m \<le> a * m" by (intro mult_le_mono1) simp
  with greater assms show ?thesis by simp
qed simp

lemma lex_eq:
  fixes a b m r s :: nat
  assumes "r < m" and "s < m"
  shows "a * m + r = b * m + s \<longleftrightarrow> a = b \<and> r = s"
  using lex_less [OF assms, of a b] lex_less [OF assms(2,1), of b a]
  by (metis less_irrefl linorder_neqE_nat)

lemma lex_less_div: "0 < m \<Longrightarrow> s < m \<Longrightarrow> y < b * m + s \<longleftrightarrow> y div m < b \<or> y div m = b \<and> y mod m < s" for m :: nat
  using lex_less [of "y mod m" m s "y div m" b] by simp

lemma lay_at_less_iff:
  assumes l: "layout_ok l" and y: "y < object_size l"
  shows "lay_at l n y < ts \<longleftrightarrow>
    n div stripe_count l < lay_obj l ts div stripe_count l \<or>
    n div stripe_count l = lay_obj l ts div stripe_count l \<and>
      (y div stripe_unit l < lay_off l ts div stripe_unit l \<or>
       y div stripe_unit l = lay_off l ts div stripe_unit l \<and>
         (n mod stripe_count l < lay_obj l ts mod stripe_count l \<or>
          n mod stripe_count l = lay_obj l ts mod stripe_count l \<and>
            y mod stripe_unit l < lay_off l ts mod stripe_unit l))"
proof -
  let ?su = "stripe_unit l" and ?sc = "stripe_count l"
  let ?o = "lay_obj l ts" and ?f = "lay_off l ts"
  note d = layout_okD [OF l]
  have yb: "y div ?su < spo l" using y d by (simp add: less_mult_imp_div_less)
  have fb: "?f div ?su < spo l" using lay.off_less [OF l, of ts] d by (simp add: less_mult_imp_div_less)
  have "lay_at l n y < ts \<longleftrightarrow> lay_at l n y < lay_at l ?o ?f" by (simp add: lay_at_loc [OF l])
  also have "\<dots> \<longleftrightarrow> (y div ?su + n div ?sc * spo l) * ?sc + n mod ?sc < (?f div ?su + ?o div ?sc * spo l) * ?sc + ?o mod ?sc \<or>
      (y div ?su + n div ?sc * spo l) * ?sc + n mod ?sc = (?f div ?su + ?o div ?sc * spo l) * ?sc + ?o mod ?sc \<and>
      y mod ?su < ?f mod ?su"
    unfolding lay_at_def using d(1) by (intro lex_less) simp_all
  also have "\<dots> \<longleftrightarrow> (y div ?su + n div ?sc * spo l < ?f div ?su + ?o div ?sc * spo l \<or>
      y div ?su + n div ?sc * spo l = ?f div ?su + ?o div ?sc * spo l \<and>
      (n mod ?sc < ?o mod ?sc \<or> n mod ?sc = ?o mod ?sc \<and> y mod ?su < ?f mod ?su))"
    using lex_less [of "n mod ?sc" ?sc "?o mod ?sc"] lex_eq [of "n mod ?sc" ?sc "?o mod ?sc"] d(2) by auto
  also have "y div ?su + n div ?sc * spo l < ?f div ?su + ?o div ?sc * spo l \<longleftrightarrow>
      n div ?sc < ?o div ?sc \<or> n div ?sc = ?o div ?sc \<and> y div ?su < ?f div ?su"
    using lex_less [OF yb fb, of "n div ?sc" "?o div ?sc"] by (simp add: add.commute)
  also have "y div ?su + n div ?sc * spo l = ?f div ?su + ?o div ?sc * spo l \<longleftrightarrow>
      n div ?sc = ?o div ?sc \<and> y div ?su = ?f div ?su"
    using lex_eq [OF yb fb, of "n div ?sc" "?o div ?sc"] by (simp add: add.commute)
  finally show ?thesis by blast
qed

lemma truncate_keeps:
  assumes l: "layout_ok l" and ts: "0 < ts" "ts < two64 - 1"
  shows "\<exists>k. object_truncate_size l n ts = Some k \<and> k \<le> object_size l \<and>
    (\<forall>y<object_size l. y < k \<longleftrightarrow> lay_at l n y < ts)"
proof -
  let ?su = "stripe_unit l" and ?sc = "stripe_count l"
  let ?o = "lay_obj l ts" and ?f = "lay_off l ts"
  note d = layout_okD [OF l]
  let ?T = "ts div ?su div ?sc"
  have set: "ts div object_size l div ?sc = ?T div spo l"
    unfolding d(4) by (simp add: div_mult2_eq [symmetric] ac_simps)
  have o: "?o div ?sc = ?T div spo l" "?o mod ?sc = ts div ?su mod ?sc"
    using d(2) by (simp_all add: lay_obj_def)
  have f: "?f div ?su = ?T mod spo l" "?f mod ?su = ts mod ?su"
    using d(1) by (simp_all add: lay_off_def)
  have tb: "?T mod spo l + 1 \<le> spo l" using d(3) by (simp add: Suc_le_eq)
  have os: "object_size l < two64" using d(6) by (rule two32_64)
  have w1: "(?T mod spo l + 1) * ?su \<le> object_size l" unfolding d(4) using tb by (rule mult_le_mono1)
  then have w2: "?T mod spo l * ?su + ts mod ?su < object_size l"
    using mod_less_divisor [OF d(1), of ts] by (simp only: distrib_right mult_1 nat_mult_1 add_less_le_mono)
  have obj: "add64 (mul64 (?T div spo l) ?sc) (ts div ?su mod ?sc) = ?o"
    using code_loc(1) [OF l, of ts] ts by (simp add: objectno_of_def Let_def)
  have spo1: "add64 (?T mod spo l) 1 = ?T mod spo l + 1"
    using tb d(1,4,5) os by (intro add64_eq) (metis le_less_trans less_le_trans mult.commute mult_le_mono2 nat_mult_1_right Suc_leI One_nat_def)
  note iff = lay_at_less_iff [OF l, of _ n ts, unfolded o f]
  have cmp: "n < ?o \<longleftrightarrow> n div ?sc < ?T div spo l \<or> n div ?sc = ?T div spo l \<and> n mod ?sc < ts div ?su mod ?sc"
    using lex_less [of "n mod ?sc" ?sc "?o mod ?sc" "n div ?sc" "?o div ?sc"] d(2)
    by (simp add: o) (simp add: lay_obj_def)
  have eq: "n = ?o \<longleftrightarrow> n div ?sc = ?T div spo l \<and> n mod ?sc = ts div ?su mod ?sc"
    using o by (metis div_mult_mod_eq)
  let ?k = "if n div ?sc > ?T div spo l then 0 else if n div ?sc < ?T div spo l then object_size l
    else if n < ?o then (?T mod spo l + 1) * ?su else if n > ?o then ?T mod spo l * ?su
    else ?T mod spo l * ?su + ts mod ?su"
  have k: "object_truncate_size l n ts = Some ?k"
    using ts d(1,2,5) w1 w2 os
    unfolding object_truncate_size_def Let_def spo_def [symmetric] set obj spo1
    by (simp add: mul64_eq add64_eq)
  have "y < ?k \<longleftrightarrow> lay_at l n y < ts" if y: "y < object_size l" for y
  proof (cases "n div ?sc" "?T div spo l" rule: linorder_cases)
    case equal
    have e1: "y < (?T mod spo l + 1) * ?su \<longleftrightarrow> y div ?su \<le> ?T mod spo l"
        "y < ?T mod spo l * ?su \<longleftrightarrow> y div ?su < ?T mod spo l"
      unfolding div_less_iff_less_mult [OF d(1), symmetric] by auto
    have e2: "y < ?T mod spo l * ?su + ts mod ?su \<longleftrightarrow>
        y div ?su < ?T mod spo l \<or> y div ?su = ?T mod spo l \<and> y mod ?su < ts mod ?su"
      using d(1) by (intro lex_less_div) simp_all
    have "n < ?o \<longleftrightarrow> n mod ?sc < ts div ?su mod ?sc" "n = ?o \<longleftrightarrow> n mod ?sc = ts div ?su mod ?sc"
      using cmp eq equal by simp_all
    with equal e1 e2 show ?thesis unfolding iff [OF y]
      by (cases n ?o rule: linorder_cases) (simp_all only: if_False if_True less_irrefl, auto)
  qed (use y iff [OF y] in simp_all)
  moreover have "?k \<le> object_size l" using w1 w2 by auto
  ultimately show ?thesis using k by blast
qed

subsection \<open>The number of objects\<close>

lemma lex_less_div_le:
  fixes m :: nat
  assumes "0 < m" and "s \<le> m"
  shows "y < b * m + s \<longleftrightarrow> y div m < b \<or> y div m = b \<and> y mod m < s"
proof (cases "s = m")
  case True
  then have "y < b * m + s \<longleftrightarrow> y div m < b + 1"
    using div_less_iff_less_mult [OF assms(1), of y "b + 1"] by (simp add: add.commute)
  then show ?thesis using True assms(1) by auto
qed (use assms lex_less_div [of m s y b] in simp)

lemma less_ceil_div: "0 < m \<Longrightarrow> a < (r + m - 1) div m \<longleftrightarrow> a * m < r" for a r m :: nat
  using less_eq_div_iff_mult_less_eq [of m "Suc a" "r + m - 1"] by (simp add: Suc_le_eq) linarith

lemma object_started:
  assumes l: "layout_ok l"
  shows "lay_obj l ` {..<sz} = {n. lay_at l n 0 < sz}"
proof -
  have "lay_at l (lay_obj l b) 0 \<le> b" for b
    using lay.at_mono [OF l, of 0 "lay_off l b" "lay_obj l b"] lay_at_loc [OF l, of b]
    by (cases "lay_off l b = 0") simp_all
  then have "lay_at l n 0 < sz" if "n \<in> lay_obj l ` {..<sz}" for n
    using that le_less_trans by auto
  moreover have "n \<in> lay_obj l ` {..<sz}" if "lay_at l n 0 < sz" for n
    using lay_loc_at(1) [OF l layout_okD(8) [OF l], of n] that by (metis imageI lessThan_iff)
  ultimately show ?thesis by blast
qed

lemma ceil_div:
  fixes m :: nat
  assumes "0 < m"
  shows "(r + m - 1) div m = (if r mod m = 0 then r div m else r div m + 1)"
proof (cases "r mod m = 0")
  case True
  have "r + m - 1 = r div m * m + (m - 1)" using True assms by (metis Nat.add_diff_assoc Suc_leI add.right_neutral div_mult_mod_eq One_nat_def)
  then have "(r + m - 1) div m = r div m + (m - 1) div m" using assms by (simp only: div_mult_self3)
  with True assms show ?thesis by simp
next
  case False
  have "r + m - 1 = (r div m + 1) * m + (r mod m - 1)"
    using False by (metis Nat.add_diff_assoc Suc_leI add.assoc add.commute add_mult_distrib div_mult_mod_eq mult_1 neq0_conv One_nat_def)
  moreover have "(r mod m - 1) div m = 0" using assms by (simp add: less_imp_diff_less)
  ultimately have "(r + m - 1) div m = r div m + 1"
    using assms by (simp only: div_mult_self3)
  with False show ?thesis by simp
qed

lemma lay_at_start:
  assumes l: "layout_ok l"
  shows "lay_at l n 0 = n div stripe_count l * (stripe_count l * object_size l) +
    n mod stripe_count l * stripe_unit l"
  unfolding layout_okD(4) [OF l] by (simp add: lay_at_def algebra_simps)

lemma get_num_objects_ok:
  assumes l: "layout_ok l" and sz: "sz + stripe_count l * object_size l < two64"
  shows "\<exists>k. get_num_objects l sz = Some k \<and> lay_obj l ` {..<sz} = {..<k}"
proof -
  let ?su = "stripe_unit l" and ?sc = "stripe_count l"
  let ?P = "?sc * object_size l"
  note d = layout_okD [OF l]
  let ?k = "sz div ?P" and ?r = "sz mod ?P"
  let ?c = "if ?r = 0 then 0 else if ?r < ?sc * ?su then (?r + ?su - 1) div ?su else ?sc"
  have P: "0 < ?P" using d by simp
  have suP: "?sc * ?su \<le> ?P" using d(5) by simp
  have cl: "(?r + ?su - 1) div ?su \<le> ?sc" if "?r < ?sc * ?su"
    using less_ceil_div [OF d(1), of ?sc ?r] that by (simp add: not_less [symmetric])
  then have cle: "?c \<le> ?sc" by simp
  have np: "sub64 (add64 sz ?P) 1 div ?P = (if ?r = 0 then ?k else ?k + 1)"
  proof -
    have "sub64 (add64 sz ?P) 1 = sz + ?P - 1"
      unfolding add64_eq [OF sz] using P by (intro sub64_eq sz) linarith
    then show ?thesis using ceil_div [OF P, of sz] by simp
  qed
  have w: "(?k + 1) * ?sc < two64"
  proof -
    have "?k * ?P + ?P \<le> sz + ?P" by (simp only: add_le_mono1 div_times_less_eq_dividend)
    then have "(?k + 1) * ?P < two64"
      unfolding add_mult_distrib mult_1 using sz by (rule le_less_trans)
    moreover have "(?k + 1) * ?sc \<le> (?k + 1) * ?P" using d(8) by (intro mult_le_mono2) simp
    ultimately show ?thesis by simp
  qed
  have N: "get_num_objects l sz = Some (?k * ?sc + ?c)"
  proof -
    have per: "get_period l = ?P" using sz by (simp add: get_period_def mul64_eq)
    have "?sc * ?su < two64" using suP sz by linarith
    moreover have "?r + ?su < two64" if "?r < ?sc * ?su"
    proof -
      have "?su \<le> ?P" using suP d(2) by (metis le_trans mult_le_mono1 mult_1 Suc_leI One_nat_def)
      moreover have "?r \<le> sz" by simp
      ultimately show ?thesis using sz by linarith
    qed
    ultimately show ?thesis using w cl P d(1)
      unfolding get_num_objects_def per Let_def np
      by (simp add: mul64_eq add64_eq sub64_eq)
  qed
  have "lay_at l n 0 < sz \<longleftrightarrow> n < ?k * ?sc + ?c" for n
  proof -
    have k: "n mod ?sc * ?su < ?sc * ?su" using d(1,2) by simp
    then have big: "\<not> ?r < ?sc * ?su \<Longrightarrow> n mod ?sc * ?su < ?r" by linarith
    from k have b: "n mod ?sc * ?su < ?P" using suP by (rule less_le_trans)
    have "lay_at l n 0 < sz \<longleftrightarrow> n div ?sc * ?P + n mod ?sc * ?su < ?k * ?P + ?r"
      unfolding lay_at_start [OF l] div_mult_mod_eq ..
    also have "\<dots> \<longleftrightarrow> n div ?sc < ?k \<or> n div ?sc = ?k \<and> n mod ?sc * ?su < ?r"
      using P b by (intro lex_less) simp_all
    also have "n mod ?sc * ?su < ?r \<longleftrightarrow> n mod ?sc < ?c"
      using less_ceil_div [OF d(1), of "n mod ?sc" ?r] d(2) big by auto
    also have "n div ?sc < ?k \<or> n div ?sc = ?k \<and> n mod ?sc < ?c \<longleftrightarrow> n < ?k * ?sc + ?c"
      using lex_less_div_le [OF d(2) cle] by blast
    finally show ?thesis .
  qed
  with N show ?thesis unfolding object_started [OF l] by auto
qed

subsection \<open>Collecting a striped read\<close>

lemma set_put_fresh: "k \<notin> fst ` set m \<Longrightarrow> set (smap_put k v m) = insert (k, v) (set m)"
  by (induction k v m rule: smap_put.induct) auto

lemma smap_set_unique: "smap_wf a \<Longrightarrow> smap_wf b \<Longrightarrow> set a = set b \<Longrightarrow> a = b"
proof (rule map_sorted_distinct_set_unique [where f = fst])
  assume wf: "smap_wf a" "smap_wf b" "set a = set b"
  then show "sorted (map fst a)" "distinct (map fst a)" "sorted (map fst b)" "distinct (map fst b)"
    by (simp_all add: smap_wf_def strict_sorted_iff)
  then show "inj_on fst (set a \<union> set b)" using wf(3) by (simp add: distinct_map)
qed

text \<open>\<open>g p\<close> is the byte that belongs at place \<open>p\<close> of the buffer.\<close>

definition entry :: "(nat \<Rightarrow> 'b) \<Rightarrow> nat \<times> nat \<Rightarrow> nat \<times> 'b list \<times> nat" where
  "entry g be = (fst be, map g [fst be..<fst be + snd be], snd be)"

definition collected :: "(nat \<Rightarrow> 'b) \<Rightarrow> (nat \<times> nat) list \<Rightarrow> 'b striped_result \<Rightarrow> bool" where
  "collected g bes s \<longleftrightarrow> smap_wf (partial_r s) \<and> set (partial_r s) = entry g ` set bes \<and>
     total_intended_len s = sum_list (map snd bes) mod two64"

lemma collected_put:
  assumes "collected g bes s" and "fst be \<notin> fst ` set bes"
  shows "collected g (bes @ [be])
    (put_partial s (fst be) (fst (partial_at s (fst be)) @ map g [fst be..<fst be + snd be]) (snd be))"
proof -
  have "fst ` set (partial_r s) = fst ` set bes"
    using assms(1) by (simp add: collected_def image_image entry_def)
  then have "fst be \<notin> fst ` set (partial_r s)" using assms(2) by simp
  moreover from this have "partial_at s (fst be) = ([], 0)"
    by (simp add: partial_at_def map_of_eq_None_iff [symmetric])
  ultimately show ?thesis using assms
    by (auto simp: collected_def put_partial_def set_put_fresh entry_def add64_def mod_simps)
qed

lemma add_partial_result_collected:
  "collected g bes s \<Longrightarrow> distinct (map fst (bes @ ps)) \<Longrightarrow>
   \<exists>s'. add_partial_result s (map g (span ps)) ps = (s', []) \<and> collected g (bes @ ps) s'"
proof (induction ps arbitrary: bes s)
  case (Cons p ps)
  let ?s = "put_partial s (fst p) (fst (partial_at s (fst p)) @ map g [fst p..<fst p + snd p]) (snd p)"
  have "collected g (bes @ [p]) ?s" using Cons(2,3) by (intro collected_put) auto
  then have "\<exists>s'. add_partial_result ?s (map g (span ps)) ps = (s', []) \<and> collected g ((bes @ [p]) @ ps) s'"
    using Cons(3) by (intro Cons(1)) simp_all
  then show ?case by (simp add: Let_def)
qed simp

text \<open>The replies of all extents, in the order they are added.\<close>

primrec collect :: "'b striped_result \<Rightarrow> ('b list \<times> (nat \<times> nat) list) list \<Rightarrow> 'b striped_result" where
  "collect s [] = s"
| "collect s (r # rs) = collect (fst (add_partial_result s (fst r) (snd r))) rs"

lemma collect_collected:
  "collected g bes s \<Longrightarrow> distinct (map fst (bes @ concat qs)) \<Longrightarrow>
   collected g (bes @ concat qs) (collect s (map (\<lambda>ps. (map g (span ps), ps)) qs))"
proof (induction qs arbitrary: bes s)
  case (Cons q qs)
  have "distinct (map fst (bes @ q))" using Cons(3) by auto
  from add_partial_result_collected [OF Cons(2) this]
  obtain s' where "add_partial_result s (map g (span q)) q = (s', [])" "collected g (bes @ q) s'" by blast
  with Cons(1) [of "bes @ q" s'] Cons(3) show ?case by simp
qed simp

lemma collected_sorted:
  assumes c: "collected g bes s" and m: "mset bes = mset ps" and srt: "sorted_wrt (<) (map fst ps)"
  shows "partial_r s = map (entry g) ps"
proof (rule smap_set_unique)
  show "smap_wf (partial_r s)" using c by (simp add: collected_def)
  show "smap_wf (map (entry g) ps)" using srt by (simp add: smap_wf_def entry_def o_def)
  show "set (partial_r s) = set (map (entry g) ps)"
    using c mset_eq_setD [OF m] by (simp add: collected_def)
qed

lemma assemble_loop_full:
  "\<forall>p\<in>set ps. 0 < snd p \<and> snd p < two64 \<Longrightarrow>
   assemble_loop zero (map (entry g) ps) bl 0 = (bl @ map g (span ps), 0)"
  by (induction ps arbitrary: bl) (auto simp: entry_def Let_def sub64_eq)

lemma buffer_loop_full:
  "chain P c ps e \<Longrightarrow> e < two64 \<Longrightarrow> e - c \<le> cur \<Longrightarrow> cur \<le> length buf \<Longrightarrow>
   buffer_loop zero (rev (map (entry g) ps)) cur e buf =
     Some (cur - (e - c), take (cur - (e - c)) buf @ map g [c..<e] @ drop cur buf)"
proof (induction ps arbitrary: e cur buf rule: rev_induct)
  case (snoc p ps)
  obtain d n where p: "p = (d, n)" and ch: "chain P c ps d" "0 < n" "e = d + n"
    using snoc(2) by (cases p) (auto simp: chain_snoc)
  have le: "c \<le> d" using chain_le [OF ch(1)] .
  then have n: "n \<le> cur" using snoc(4) ch(3) by simp
  let ?buf = "take (cur - n) buf @ map g [d..<d + n] @ drop cur buf"
  have step: "buffer_loop zero (rev (map (entry g) (ps @ [p]))) cur e buf =
      buffer_loop zero (rev (map (entry g) ps)) (cur - n) d ?buf"
    using snoc(3-5) le n by (simp add: p entry_def Let_def ch(3) sub64_eq write_at_def)
  have "buffer_loop zero (rev (map (entry g) ps)) (cur - n) d ?buf =
      Some (cur - n - (d - c), take (cur - n - (d - c)) ?buf @ map g [c..<d] @ drop (cur - n) ?buf)"
    using snoc(3-5) le ch by (intro snoc(1)) simp_all
  moreover have "[c..<e] = [c..<d] @ [d..<d + n]" using upt_add_eq_append [OF le, of n] ch(3) by simp
  ultimately show ?case using snoc(3-5) le unfolding step by (simp add: ch(3) min_def add.commute)
qed simp

lemma extent_data:
  assumes "aligned l offset bo e" and "\<forall>b. content (lay_obj l b) (lay_off l b) = f b"
  shows "map (content (ex_object_no e)) [ex_offset e..<ex_offset e + ex_length e] =
    map (\<lambda>p. f (fb offset bo p)) (span (ex_buffer_extents e))"
proof -
  let ?c = "\<lambda>q. content (fst q) (snd q)"
  have "map ?c (map (Pair (ex_object_no e)) [ex_offset e..<ex_offset e + ex_length e]) =
      map ?c (map (\<lambda>p. loc l (fb offset bo p)) (span (ex_buffer_extents e)))"
    using assms(1) by (simp add: aligned_def)
  then show ?thesis by (simp add: loc_def assms(2) o_def)
qed

lemma chain_place:
  "chain P c ps e \<Longrightarrow> offset \<le> c \<Longrightarrow>
   chain (\<lambda>_ _. True) (c - offset + bo) (map (place offset bo) ps) (e - offset + bo)"
  by (induction P c ps e rule: chain.induct) (auto simp: place_def add.commute add.left_commute)

lemma chain_sorted: "chain P c ps e \<Longrightarrow> sorted_wrt (<) (map fst ps) \<and> (\<forall>p\<in>set ps. c \<le> fst p \<and> 0 < snd p \<and> fst p + snd p \<le> e)"
proof (induction P c ps e rule: chain.induct)
  case (2 P c c' n ps e)
  then show ?case using chain_le [of P "c + n" ps e] by fastforce
qed simp

lemma chain_sum: "chain P c ps e \<Longrightarrow> sum_list (map snd ps) = e - c"
proof (induction P c ps e rule: chain.induct)
  case (2 P c c' n ps e)
  then show ?case using chain_le [of P "c + n" ps e] by simp
qed simp

text \<open>Whatever order the replies come in, both ways of assembling return the file's bytes.\<close>

lemma collect_extents:
  assumes l: "layout_ok l" and len: "0 < len" "offset + len < two64" "bo + len < two64"
    and fx: "file_to_extents l offset len ts bo [] = Some exts" and perm: "mset es = mset exts"
    and cont: "\<forall>b. content (lay_obj l b) (lay_off l b) = f b"
  defines "rs \<equiv> map (\<lambda>e. (map (content (ex_object_no e)) [ex_offset e..<ex_offset e + ex_length e],
      ex_buffer_extents e)) es"
  defines "ps \<equiv> map (place offset bo) (pieces (stripe_unit (eff l)) offset len)"
    and "g \<equiv> \<lambda>p. f (fb offset bo p)"
  shows "partial_r (collect \<lparr>partial_r = [], total_intended_len = 0\<rparr> rs) = map (entry g) ps"
    and "total_intended_len (collect \<lparr>partial_r = [], total_intended_len = 0\<rparr> rs) = len"
    and "chain (\<lambda>_ _. True) bo ps (bo + len)"
proof -
  have inv: "extents_inv l ts offset bo (pieces (stripe_unit (eff l)) offset len) exts"
    using file_to_extents_inv [OF l len, of ts] fx by simp
  have ch: "chain (in_block (eff l)) offset (pieces (stripe_unit (eff l)) offset len) (offset + len)"
    using layout_okD(1) [OF eff_ok [OF l]] by (rule pieces_chain)
  show cp: "chain (\<lambda>_ _. True) bo ps (bo + len)"
    using chain_place [OF ch order_refl, of bo] by (simp add: ps_def add.commute)
  have "\<forall>e\<in>set es. aligned l offset bo e" using inv mset_eq_setD [OF perm] by (simp add: extents_inv_def)
  then have rs: "rs = map (\<lambda>b. (map g (span b), b)) (map ex_buffer_extents es)"
    using extent_data [where content = content and f = f and l = l, OF _ cont] by (simp add: rs_def g_def)
  have "mset (concat (map ex_buffer_extents es)) = mset (concat (map ex_buffer_extents exts))"
    using perm by (metis mset_concat mset_map sum_mset_sum_list)
  then have m: "mset (concat (map ex_buffer_extents es)) = mset ps"
    using inv by (simp add: extents_inv_def ps_def)
  have srt: "sorted_wrt (<) (map fst ps)" using chain_sorted [OF cp] by simp
  then have "distinct (map fst (concat (map ex_buffer_extents es)))"
    using m by (metis mset_eq_imp_distinct_iff mset_map strict_sorted_iff)
  then have c: "collected g (concat (map ex_buffer_extents es)) (collect \<lparr>partial_r = [], total_intended_len = 0\<rparr> rs)"
    using collect_collected [of g "[]" "\<lparr>partial_r = [], total_intended_len = 0\<rparr>" "map ex_buffer_extents es"]
    by (simp add: rs collected_def)
  show "partial_r (collect \<lparr>partial_r = [], total_intended_len = 0\<rparr> rs) = map (entry g) ps"
    using collected_sorted [OF c m srt] .
  have "sum_list (map snd (concat (map ex_buffer_extents es))) = sum_list (map snd ps)"
    using m by (metis mset_map sum_mset_sum_list)
  then show "total_intended_len (collect \<lparr>partial_r = [], total_intended_len = 0\<rparr> rs) = len"
    using c chain_sum [OF cp] len by (simp add: collected_def)
qed

subsection \<open>Properties\<close>

definition layout_example :: file_layout where
  "layout_example = \<lparr>stripe_unit = 65536, stripe_count = 2, object_size = 131072\<rparr>"

lemma layout_example_ok: "layout_ok layout_example"
  by (simp add: layout_example_def layout_ok_def two32_def)

text \<open>C13. \<open>file_to_extents\<close> returns one extent per object (object numbers ascend strictly), the
  buffer extents of all of them partition the buffer range, and byte \<open>i\<close> of an extent's object
  range belongs at the \<open>i\<close>-th place of its buffer extents: the file byte there lies at that
  object and offset. Each extent carries its object's truncation size.\<close>

theorem striper_extents_exact:
  assumes "layout_ok l" and "0 < len" and "offset + len < two64" and "bo + len < two64"
  shows "\<exists>exts. file_to_extents l offset len ts bo [] = Some exts \<and>
    sorted_wrt (<) (map ex_object_no exts) \<and>
    mset (span (concat (map ex_buffer_extents exts))) = mset [bo..<bo + len] \<and>
    (\<forall>e\<in>set exts. 0 < ex_length e \<and>
       object_truncate_size l (ex_object_no e) ts = Some (ex_truncate_size e) \<and>
       map (\<lambda>p. (lay_obj l (p - bo + offset), lay_off l (p - bo + offset))) (span (ex_buffer_extents e)) =
       map (Pair (ex_object_no e)) [ex_offset e..<ex_offset e + ex_length e])"
proof -
  let ?ps = "pieces (stripe_unit (eff l)) offset len"
  obtain exts where ex: "file_to_extents l offset len ts bo [] = Some exts"
      and inv: "extents_inv l ts offset bo ?ps exts"
    using file_to_extents_inv [OF assms] by blast
  have "chain (in_block (eff l)) offset ?ps (offset + len)"
    using layout_okD(1) [OF eff_ok [OF assms(1)]] by (rule pieces_chain)
  then have "span (map (place offset bo) ?ps) = [bo..<bo + len]"
    by (simp add: span_place add.commute)
  moreover have "mset (span (concat (map ex_buffer_extents exts))) = mset (span (map (place offset bo) ?ps))"
    using inv by (simp add: mset_span extents_inv_def)
  ultimately show ?thesis
    using ex inv by (auto simp: extents_inv_def aligned_def loc_def fb_def)
qed

theorem striper_extents_exact_witness:
  "\<exists>exts. file_to_extents layout_example 1000 200000 0 0 [] = Some exts \<and>
     mset (span (concat (map ex_buffer_extents exts))) = mset [0..<0 + 200000]"
  using striper_extents_exact [OF layout_example_ok, of 200000 1000 0 0] by (auto simp: two64_def)

text \<open>C14. \<open>extent_to_file\<close> is the inverse of that map on every range of an object: the file bytes
  it lists lie, in order, at the bytes of the range.\<close>

theorem striper_extent_round_trip:
  assumes "layout_ok l" and "0 < len" and "off + len \<le> object_size l"
    and "lay_at l objectno (off + len - 1) < two64"
  shows "\<exists>fx. extent_to_file l objectno off len [] = Some fx \<and>
    map (\<lambda>b. (lay_obj l b, lay_off l b)) (span fx) = map (Pair objectno) [off..<off + len]"
proof -
  have "off + len < two64"
    using assms(3) layout_okD(6) [OF assms(1)] by (meson le_less_trans two32_64)
  then obtain fx where fx: "extent_to_file l objectno off len [] = Some fx"
      "span fx = map (lay_at l objectno) [off..<off + len]"
    using extent_to_file_span [OF assms(1,2,4)] by blast
  moreover have "\<forall>y\<in>set [off..<off + len]. lay_obj l (lay_at l objectno y) = objectno \<and>
      lay_off l (lay_at l objectno y) = y"
    using lay_loc_at [OF assms(1)] assms(3) by auto
  ultimately show ?thesis by auto
qed

theorem striper_extent_round_trip_witness:
  "\<exists>fx. extent_to_file layout_example 3 100 70000 [] = Some fx \<and>
     map (\<lambda>b. (lay_obj layout_example b, lay_off layout_example b)) (span fx) = map (Pair 3) [100..<100 + 70000]"
  by (rule striper_extent_round_trip [OF layout_example_ok])
    (simp_all add: layout_example_def lay_at_def spo_def two64_def)

text \<open>C15. When a file is truncated to \<open>ts\<close>, the size computed for each object keeps exactly the
  object's bytes that lie below \<open>ts\<close> in the file.\<close>

theorem striper_truncate_exact:
  assumes "layout_ok l" and "0 < ts" and "ts < two64 - 1"
  shows "\<exists>k. object_truncate_size l objectno ts = Some k \<and> k \<le> object_size l \<and>
    (\<forall>y<object_size l. y < k \<longleftrightarrow> lay_at l objectno y < ts)"
  using truncate_keeps [OF assms] .

theorem striper_truncate_exact_witness:
  "\<exists>k. object_truncate_size layout_example 1 100000 = Some k \<and> k \<le> 131072 \<and>
     (\<forall>y<131072. y < k \<longleftrightarrow> lay_at layout_example 1 y < 100000)"
  using striper_truncate_exact [OF layout_example_ok, of 100000 1]
  by (simp add: two64_def) (simp add: layout_example_def)

text \<open>\<open>get_num_objects\<close> counts the objects a file of that size touches; they are the first
  ones.\<close>

theorem striper_num_objects:
  assumes "layout_ok l" and "sz + stripe_count l * object_size l < two64"
  shows "\<exists>k. get_num_objects l sz = Some k \<and> lay_obj l ` {..<sz} = {..<k}"
  using get_num_objects_ok [OF assms] .

theorem striper_num_objects_witness:
  "\<exists>k. get_num_objects layout_example 300000 = Some k \<and> lay_obj layout_example ` {..<300000} = {..<k}"
  by (rule striper_num_objects [OF layout_example_ok]) (simp add: layout_example_def two64_def)

text \<open>C16. A striped read: when every object holds its share of the file and each extent's reply is
  the object's bytes, then, in whatever order the replies are added, the assembled result is the
  file's bytes of the range, through the buffer list and through a caller's buffer alike.\<close>

theorem striped_read_correct:
  assumes "layout_ok l" and "0 < len" and "offset + len < two64"
    and "file_to_extents l offset len ts 0 [] = Some exts" and "mset es = mset exts"
    and "\<forall>b. content (lay_obj l b) (lay_off l b) = f b" and "length buf = len"
  defines "s \<equiv> collect \<lparr>partial_r = [], total_intended_len = 0\<rparr>
      (map (\<lambda>e. (map (content (ex_object_no e)) [ex_offset e..<ex_offset e + ex_length e],
                 ex_buffer_extents e)) es)"
  shows "snd (assemble_result zero s [] zero_tail) = map f [offset..<offset + len] \<and>
    map_option snd (assemble_result_buffer zero s buf) = Some (map f [offset..<offset + len])"
proof -
  let ?g = "\<lambda>p. f (fb offset 0 p)"
  define ps where "ps = map (place offset 0) (pieces (stripe_unit (eff l)) offset len)"
  have bo: "0 + len < two64" using assms(3) by simp
  note c = collect_extents [OF assms(1-3) bo assms(4-6), folded s_def ps_def]
  have ch: "chain (\<lambda>_ _. True) 0 ps len" using c(3) by simp
  have bytes: "map ?g [0..<len] = map f [offset..<offset + len]"
    by (intro nth_equalityI) (auto simp: fb_def add.commute)
  have "assemble_loop zero (partial_r s) [] 0 = ([] @ map ?g (span ps), 0)"
    unfolding c(1) using chain_sorted [OF ch] bo by (intro assemble_loop_full) auto
  then have "snd (assemble_result zero s [] zero_tail) = map f [offset..<offset + len]"
    using bytes chain_span [OF ch] by (simp add: assemble_result_def)
  moreover have "map_option snd (assemble_result_buffer zero s buf) = Some (map f [offset..<offset + len])"
  proof (cases ps rule: rev_cases)
    case Nil
    then show ?thesis using ch assms(2) by simp
  next
    case (snoc qs p)
    have "fst p + snd p = len" using ch chain_snoc [of _ 0 qs "fst p" "snd p" len] by (simp add: snoc)
    then have "rev (partial_r s) = entry ?g p # rev (map (entry ?g) qs)"
        "add64 (fst (entry ?g p)) (snd (snd (entry ?g p))) = len"
      using bo by (simp_all add: c(1) snoc entry_def add64_eq)
    then show ?thesis
      using buffer_loop_full [OF ch, of len buf zero ?g] bo assms(7) c(2) bytes
      unfolding assemble_result_buffer_def by (simp add: snoc)
  qed
  ultimately show ?thesis by blast
qed

theorem striped_read_correct_witness:
  "\<exists>exts. file_to_extents layout_example 1000 200000 0 0 [] = Some exts \<and>
     snd (assemble_result 0 (collect \<lparr>partial_r = [], total_intended_len = 0\<rparr>
       (map (\<lambda>e. (map (\<lambda>y. lay_at layout_example (ex_object_no e) y mod 256)
                    [ex_offset e..<ex_offset e + ex_length e], ex_buffer_extents e)) (rev exts))) [] False) =
     map (\<lambda>b. b mod 256) [1000..<1000 + 200000]"
proof -
  let ?l = layout_example
  have len: "0 < (200000::nat)" "1000 + 200000 < two64" "0 + 200000 < two64" by (simp_all add: two64_def)
  obtain exts where ex: "file_to_extents ?l 1000 200000 0 0 [] = Some exts"
    using file_to_extents_inv [OF layout_example_ok len] by blast
  have cont: "\<forall>b. lay_at ?l (lay_obj ?l b) (lay_off ?l b) mod 256 = b mod 256"
    by (simp add: lay_at_loc [OF layout_example_ok])
  have perm: "mset (rev exts) = mset exts" by simp
  show ?thesis
    using conjunct1 [OF striped_read_correct [OF layout_example_ok len(1,2) ex perm cont length_replicate]] ex
    by blast
qed

end
