(* ===== verification/Election.thy ===== *)
theory Election
  imports Ceph_Prelude
begin

text \<open>
  Leader election among the monitors: \<open>src/mon/ElectionLogic.cc\<close>, the state machine, and
  \<open>src/mon/Elector.cc\<close>, which connects it to messages, the persistent store and the monitor.
  The record \<open>election\<close> is one monitor's part: the fields of \<open>ElectionLogic\<close>, the persisted
  epoch, the elector's \<open>peer_info\<close>, and what the election reads and writes of the monitor
  (\<open>state\<close>, \<open>quorum\<close>, \<open>rank\<close>, size and epoch of the monmap, \<open>has_ever_joined\<close>). Every operation
  returns the new state and the set of messages it sends, or \<open>None\<close> where an assertion fails or
  the process exits. The election timer is not state: the expiry \<open>end_election_period\<close> may come
  at any time. Epochs are \<open>uint32_t\<close>. The release and the feature sets of the running binary are
  in \<open>el_config\<close>; feature sets are bit masks.
\<close>

unbundle bit_operations_syntax

subsection \<open>State and messages\<close>

definition add32 :: "nat \<Rightarrow> nat \<Rightarrow> nat" where
  "add32 a b = (a + b) mod two32"

record 'm el_info =
  i_cluster_features :: nat
  i_mon_features :: nat
  i_mon_release :: nat
  i_metadata :: 'm

record 'm el_config =
  c_self :: "'m el_info"
  c_required_features :: nat
  c_required_mon_features :: nat
  c_min_mon_release :: nat

datatype el_op = OP_PROPOSE | OP_ACK | OP_VICTORY "int set" | OP_NAK

record 'm el_msg =
  m_from :: int
  m_to :: int
  m_epoch :: nat
  m_op :: el_op
  m_info :: "'m el_info"
  m_fsid_ok :: bool
  m_addr_ok :: bool
  m_monmap_epoch :: nat
  m_monmap_size :: nat

datatype mon_state = STATE_PROBING | STATE_ELECTING | STATE_LEADER | STATE_PEON int

record 'm election =
  el_rank :: int
  el_psize :: nat
  el_monmap_epoch :: nat
  el_ever_joined :: bool
  el_state :: mon_state
  el_quorum :: "int set"
  el_persisted :: nat
  el_epoch :: nat
  el_leader_acked :: int
  el_participating :: bool
  el_electing_me :: bool
  el_acked_me :: "int set"
  el_peer_info :: "int \<rightharpoonup> 'm el_info"

type_synonym 'm el_result = "('m election \<times> 'm el_msg set) option"

definition mk_msg :: "'m election \<Rightarrow> int \<Rightarrow> nat \<Rightarrow> el_op \<Rightarrow> 'm el_info \<Rightarrow> 'm el_msg" where
  "mk_msg m to_rank e op info =
     \<lparr>m_from = el_rank m, m_to = to_rank, m_epoch = e, m_op = op, m_info = info, m_fsid_ok = True,
      m_addr_ok = True, m_monmap_epoch = el_monmap_epoch m, m_monmap_size = el_psize m\<rparr>"

subsection \<open>Election logic\<close>

definition el_init :: "'m election \<Rightarrow> 'm election" where
  "el_init m =
     (let e = el_persisted m in
      if e = 0 then m\<lparr>el_epoch := 1\<rparr>
      else if e mod 2 = 1 then m\<lparr>el_epoch := add32 e 1, el_persisted := add32 e 1\<rparr>
      else m\<lparr>el_epoch := e\<rparr>)"

definition join_election :: "'m election \<Rightarrow> 'm election" where
  "join_election m = m\<lparr>el_state := STATE_ELECTING, el_quorum := {}\<rparr>"

definition bump_epoch :: "'m election \<Rightarrow> nat \<Rightarrow> 'm election option" where
  "bump_epoch m e = do {
     ensure (el_epoch m \<le> e);
     Some (join_election (m\<lparr>el_epoch := e, el_persisted := e, el_electing_me := False, el_acked_me := {}\<rparr>)) }"

definition declare_standalone_victory :: "'m election \<Rightarrow> 'm election option" where
  "declare_standalone_victory m = do {
     ensure (el_psize m = 1 \<and> el_rank m = 0);
     let m1 = el_init m;
     bump_epoch m1 (add32 (el_epoch m1) 1) }"

definition propose_to_peers :: "'m el_config \<Rightarrow> 'm election \<Rightarrow> 'm el_msg set" where
  "propose_to_peers c m =
     (\<lambda>i. mk_msg m i (el_epoch m) OP_PROPOSE (c_self c)) ` ({0..<int (el_psize m)} - {el_rank m})"

text \<open>\<open>start\<close> with the elector's \<open>_start\<close>, which begins a new \<open>peer_info\<close>. A store that cannot be
  written is not modelled.\<close>

definition el_start :: "'m el_config \<Rightarrow> 'm election \<Rightarrow> 'm el_result" where
  "el_start c m =
     (if \<not> el_participating m then Some (m, {})
      else do {
        let m1 = el_init (m\<lparr>el_acked_me := {}\<rparr>);
        m2 \<leftarrow> (if el_epoch m1 mod 2 = 0 then bump_epoch m1 (add32 (el_epoch m1) 1) else Some m1);
        let m3 = m2\<lparr>el_electing_me := True, el_acked_me := {el_rank m2}, el_leader_acked := -1,
                    el_peer_info := [el_rank m2 \<mapsto> c_self c]\<rparr>;
        Some (m3, propose_to_peers c m3) })"

definition el_defer :: "'m el_config \<Rightarrow> 'm election \<Rightarrow> int \<Rightarrow> 'm election \<times> 'm el_msg set" where
  "el_defer c m who =
     (let m1 = (if el_electing_me m then m\<lparr>el_acked_me := {}, el_electing_me := False\<rparr> else m);
          m2 = m1\<lparr>el_leader_acked := who\<rparr>
      in (m2, {mk_msg m2 who (el_epoch m2) OP_ACK (c_self c)}))"

text \<open>What the quorum has in common: features by conjunction, the oldest release.\<close>

definition common_info :: "'m el_config \<Rightarrow> (int \<rightharpoonup> 'm el_info) \<Rightarrow> int set \<Rightarrow> nat \<times> nat \<times> nat" where
  "common_info c infos q =
     fold (\<lambda>i (cf, mf, rel).
             let info = the (infos i)
             in (cf AND i_cluster_features info, mf AND i_mon_features info,
                 if rel = 0 \<or> i_mon_release info < rel then i_mon_release info else rel))
       (sorted_list_of_set q) (i_cluster_features (c_self c), i_mon_features (c_self c), 0)"

definition message_victory :: "'m el_config \<Rightarrow> 'm election \<Rightarrow> int set \<Rightarrow> 'm el_result" where
  "message_victory c m q = do {
     ensure (\<forall>i\<in>q. el_peer_info m i \<noteq> None);
     let (cf, mf, rel) = common_info c (el_peer_info m) q;
     let info = (c_self c)\<lparr>i_cluster_features := cf, i_mon_features := mf, i_mon_release := rel\<rparr>;
     ensure (el_state m = STATE_ELECTING);
     Some (m\<lparr>el_state := STATE_LEADER, el_quorum := q\<rparr>,
           (\<lambda>p. mk_msg m p (el_epoch m) (OP_VICTORY q) info) ` (q - {el_rank m})) }"

definition declare_victory :: "'m el_config \<Rightarrow> 'm election \<Rightarrow> 'm el_result" where
  "declare_victory c m = do {
     let q = el_acked_me m;
     let m1 = m\<lparr>el_leader_acked := -1, el_electing_me := False, el_acked_me := {}\<rparr>;
     ensure (el_epoch m1 mod 2 = 1);
     m2 \<leftarrow> bump_epoch m1 (add32 (el_epoch m1) 1);
     message_victory c m2 q }"

definition end_election_period :: "'m el_config \<Rightarrow> 'm election \<Rightarrow> 'm el_result" where
  "end_election_period c m =
     (if el_electing_me m \<and> card (el_acked_me m) > el_psize m div 2 then declare_victory c m
      else if el_ever_joined m then el_start c m
      else Some (m\<lparr>el_state := STATE_PROBING, el_quorum := {}\<rparr>, {}))"

text \<open>\<open>Monitor::start_election\<close>, called back through \<open>trigger_new_election\<close>.\<close>

definition start_election :: "'m el_config \<Rightarrow> 'm election \<Rightarrow> 'm el_result" where
  "start_election c m = el_start c (join_election m)"

definition receive_propose :: "'m el_config \<Rightarrow> 'm election \<Rightarrow> int \<Rightarrow> nat \<Rightarrow> 'm el_result" where
  "receive_propose c m from_rank mepoch =
     (if mepoch < el_epoch m
      then (if el_epoch m mod 2 = 0 \<and> from_rank \<notin> el_quorum m then start_election c m else Some (m, {}))
      else do {
        m1 \<leftarrow> (if mepoch > el_epoch m then bump_epoch m mepoch else Some m);
        if el_rank m1 < from_rank
        then (if el_leader_acked m1 \<ge> 0 then do {
                ensure (el_leader_acked m1 < from_rank);
                Some (m1, {}) }
              else if \<not> el_electing_me m1 then start_election c m1
              else Some (m1, {}))
        else if el_leader_acked m1 < 0 \<or> el_leader_acked m1 > from_rank \<or> el_leader_acked m1 = from_rank
        then Some (el_defer c m1 from_rank)
        else Some (m1, {}) })"

definition receive_ack :: "'m el_config \<Rightarrow> 'm election \<Rightarrow> int \<Rightarrow> nat \<Rightarrow> 'm el_result" where
  "receive_ack c m from_rank from_epoch = do {
     ensure (from_epoch mod 2 = 1);
     if from_epoch > el_epoch m
     then do {
       m1 \<leftarrow> bump_epoch m from_epoch;
       el_start c m1 }
     else if el_electing_me m
     then (let m1 = m\<lparr>el_acked_me := insert from_rank (el_acked_me m)\<rparr> in
           if card (el_acked_me m1) = el_psize m1 then declare_victory c m1 else Some (m1, {}))
     else do {
       ensure (el_leader_acked m \<ge> 0);
       Some (m, {}) } }"

text \<open>The first component tells whether the claim is accepted.\<close>

definition receive_victory_claim ::
  "'m el_config \<Rightarrow> 'm election \<Rightarrow> int \<Rightarrow> nat \<Rightarrow> (bool \<times> 'm election \<times> 'm el_msg set) option" where
  "receive_victory_claim c m from_rank from_epoch = do {
     ensure (from_rank < el_rank m);
     ensure (from_epoch mod 2 = 0);
     let m1 = m\<lparr>el_leader_acked := -1\<rparr>;
     m2 \<leftarrow> bump_epoch m1 from_epoch;
     if from_epoch \<noteq> add32 (el_epoch m1) 1
     then do {
       (m3, out) \<leftarrow> el_start c m2;
       Some (False, m3, out) }
     else Some (True, m2, {}) }"

subsection \<open>The elector's message handlers\<close>

definition nak_old_peer :: "'m el_config \<Rightarrow> 'm election \<Rightarrow> 'm el_msg \<Rightarrow> 'm el_msg" where
  "nak_old_peer c m msg =
     mk_msg m (m_from msg) (m_epoch msg) OP_NAK
       ((c_self c)\<lparr>i_cluster_features := c_required_features c,
                   i_mon_features := c_required_mon_features c, i_mon_release := c_min_mon_release c\<rparr>)"

definition lacks_features :: "nat \<Rightarrow> nat \<Rightarrow> bool" where
  "lacks_features required have_features \<longleftrightarrow> (required XOR have_features) AND required \<noteq> 0"

definition contains_all :: "nat \<Rightarrow> nat \<Rightarrow> bool" where
  "contains_all have_features required \<longleftrightarrow> have_features AND required = required"

text \<open>A proposal from a peer without the required monitor features is answered with a NAK and then
  processed all the same.\<close>

definition handle_propose :: "'m el_config \<Rightarrow> 'm election \<Rightarrow> 'm el_msg \<Rightarrow> 'm el_result" where
  "handle_propose c m msg = do {
     ensure (m_epoch msg mod 2 = 1);
     if lacks_features (c_required_features c) (i_cluster_features (m_info msg))
     then Some (m, {nak_old_peer c m msg})
     else if c_min_mon_release c > i_mon_release (m_info msg)
     then Some (m, {nak_old_peer c m msg})
     else do {
       let naks = (if \<not> contains_all (i_mon_features (m_info msg)) (c_required_mon_features c)
                   then {nak_old_peer c m msg} else {});
       (m1, out) \<leftarrow> receive_propose c m (m_from msg) (m_epoch msg);
       Some (m1, naks \<union> out) } }"

definition handle_ack :: "'m el_config \<Rightarrow> 'm election \<Rightarrow> 'm el_msg \<Rightarrow> 'm el_result" where
  "handle_ack c m msg = do {
     ensure (m_epoch msg = el_epoch m);
     if lacks_features (c_required_features c) (i_cluster_features (m_info msg)) then Some (m, {})
     else if \<not> contains_all (i_mon_features (m_info msg)) (c_required_mon_features c) then Some (m, {})
     else do {
       let m1 = (if el_electing_me m
                 then m\<lparr>el_peer_info := (el_peer_info m)(m_from msg \<mapsto> m_info msg)\<rparr> else m);
       ensure (el_electing_me m \<longrightarrow> (\<forall>q\<in>el_acked_me m. el_peer_info m1 q \<noteq> None));
       receive_ack c m1 (m_from msg) (m_epoch msg) } }"

definition handle_victory :: "'m el_config \<Rightarrow> 'm election \<Rightarrow> 'm el_msg \<Rightarrow> int set \<Rightarrow> 'm el_result" where
  "handle_victory c m msg q = do {
     (accept, m1, out) \<leftarrow> receive_victory_claim c m (m_from msg) (m_epoch msg);
     if \<not> accept then Some (m1, out)
     else Some (m1\<lparr>el_state := STATE_PEON (m_from msg), el_quorum := q\<rparr>, out) }"

text \<open>\<open>handle_nak\<close> ends the process.\<close>

definition handle_nak :: "'m election \<Rightarrow> 'm el_result" where
  "handle_nak m = None"

text \<open>\<open>dispatch\<close>, behind the monitor's own test of its state.\<close>

definition el_dispatch :: "'m el_config \<Rightarrow> 'm election \<Rightarrow> 'm el_msg \<Rightarrow> 'm el_result" where
  "el_dispatch c m msg =
     (if el_state m = STATE_PROBING then Some (m, {})
      else if \<not> el_participating m then Some (m, {})
      else if m_from msg \<ge> int (el_psize m) then Some (m, {})
      else if \<not> m_fsid_ok msg then Some (m, {})
      else if \<not> m_addr_ok msg then Some (m, {})
      else if m_monmap_epoch msg > el_monmap_epoch m
      then Some (m\<lparr>el_monmap_epoch := m_monmap_epoch msg, el_psize := m_monmap_size msg,
                   el_state := STATE_PROBING, el_quorum := {}\<rparr>, {})
      else (case m_op msg of
              OP_PROPOSE \<Rightarrow> handle_propose c m msg
            | other \<Rightarrow>
                if m_epoch msg < el_epoch m then Some (m, {})
                else (case other of
                        OP_ACK \<Rightarrow> handle_ack c m msg
                      | OP_VICTORY q \<Rightarrow> handle_victory c m msg q
                      | _ \<Rightarrow> handle_nak m)))"

text \<open>The commands \<open>quorum enter\<close> and \<open>quorum exit\<close>.\<close>

definition quorum_enter :: "'m el_config \<Rightarrow> 'm election \<Rightarrow> 'm el_result" where
  "quorum_enter c m = start_election c (m\<lparr>el_participating := True\<rparr>)"

definition quorum_exit :: "'m el_config \<Rightarrow> 'm election \<Rightarrow> 'm el_result" where
  "quorum_exit c m = do {
     (m1, out) \<leftarrow> start_election c m;
     Some (m1\<lparr>el_participating := False\<rparr>, out) }"

text \<open>A process that starts: the constructor's values, with what the store has kept.\<close>

definition el_boot :: "'m election \<Rightarrow> 'm election" where
  "el_boot m = m\<lparr>el_state := STATE_PROBING, el_quorum := {}, el_epoch := 0, el_leader_acked := -1,
     el_participating := True, el_electing_me := False, el_acked_me := {}, el_peer_info := Map.empty\<rparr>"

end
