(* ===== verification/Election_Correct.thy ===== *)
theory Election_Correct
  imports Election
begin

text \<open>
  The election as a distributed system: monitors that start, time out, restart and exchange
  messages which may be lost, delayed, reordered and duplicated. The invariant is stated for
  one monitor against the messages sent so far (\<open>node_inv\<close>), every handler keeps it and fails
  no assertion (\<open>fine\<close>), and the system's invariant follows for any interleaving.
\<close>

subsection \<open>Majorities\<close>

definition majority :: "nat \<Rightarrow> int set \<Rightarrow> bool" where
  "majority n q \<longleftrightarrow> q \<subseteq> {0..<int n} \<and> card q > n div 2"

interpretation maj: quorum_system "majority n" for n
proof
  fix q r assume m: "majority n q" "majority n r"
  show "q \<inter> r \<noteq> {}"
  proof
    assume "q \<inter> r = {}"
    moreover have fin: "finite q" "finite r"
      using m by (auto simp: majority_def intro: finite_subset)
    ultimately have "card q + card r = card (q \<union> r)" by (simp add: card_Un_disjoint)
    also have "\<dots> \<le> card {0..<int n}" using m by (intro card_mono) (auto simp: majority_def)
    finally have "card q + card r \<le> n" by simp
    then show False using m unfolding majority_def by linarith
  qed
qed

subsection \<open>One monitor against the messages sent\<close>

definition proposed :: "'m el_msg set \<Rightarrow> int \<Rightarrow> nat \<Rightarrow> bool" where
  "proposed net n e \<longleftrightarrow> (\<exists>msg\<in>net. m_op msg = OP_PROPOSE \<and> m_from msg = n \<and> m_epoch msg = e)"

definition acked :: "'m el_msg set \<Rightarrow> int \<Rightarrow> int \<Rightarrow> nat \<Rightarrow> bool" where
  "acked net k n e \<longleftrightarrow>
     (\<exists>msg\<in>net. m_op msg = OP_ACK \<and> m_from msg = k \<and> m_to msg = n \<and> m_epoch msg = e)"

lemma net_mono:
  "proposed net n e \<Longrightarrow> proposed (net \<union> out) n e" "acked net k n e \<Longrightarrow> acked (net \<union> out) k n e"
  by (auto simp: proposed_def acked_def)

definition leader_of :: "'m election \<Rightarrow> int option" where
  "leader_of m = (case el_state m of STATE_LEADER \<Rightarrow> Some (el_rank m) | STATE_PEON l \<Rightarrow> Some l | _ \<Rightarrow> None)"

lemma leader_of_simps [simp]:
  "el_state m = STATE_ELECTING \<Longrightarrow> leader_of m = None" "el_state m = STATE_PROBING \<Longrightarrow> leader_of m = None"
  "el_state m = STATE_LEADER \<Longrightarrow> leader_of m = Some (el_rank m)"
  "el_state m = STATE_PEON l \<Longrightarrow> leader_of m = Some l"
  by (simp_all add: leader_of_def)

lemma leader_of_same [simp]:
  "leader_of (m\<lparr>el_acked_me := a\<rparr>) = leader_of m" "leader_of (m\<lparr>el_peer_info := i\<rparr>) = leader_of m"
  "leader_of (m\<lparr>el_participating := b\<rparr>) = leader_of m"
  by (simp_all add: leader_of_def split: mon_state.splits)

abbreviation top_epoch :: "'m election \<Rightarrow> nat" where
  "top_epoch m \<equiv> max (el_persisted m) 1"

definition epoch_ok :: "'m election \<Rightarrow> bool" where
  "epoch_ok m \<longleftrightarrow>
     el_epoch m = 0 \<and> (el_state m = STATE_PROBING \<or> \<not> el_participating m) \<and> \<not> el_electing_me m \<or>
     el_epoch m = el_persisted m \<and> 0 < el_persisted m \<or>
     el_epoch m = 1 \<and> el_persisted m = 0"

definition candidate_ok :: "nat \<Rightarrow> 'm el_msg set \<Rightarrow> int \<Rightarrow> 'm election \<Rightarrow> bool" where
  "candidate_ok N net n m \<longleftrightarrow> odd (el_epoch m) \<and> el_leader_acked m = -1 \<and> n \<in> el_acked_me m \<and>
     el_acked_me m \<subseteq> {0..<int N} \<and> (\<forall>k\<in>el_acked_me m. el_peer_info m k \<noteq> None) \<and>
     (\<forall>k\<in>el_acked_me m - {n}. acked net k n (el_epoch m))"

definition node_inv :: "nat \<Rightarrow> nat \<Rightarrow> 'm el_msg set \<Rightarrow> int \<Rightarrow> 'm election \<Rightarrow> bool" where
  "node_inv N K net n m \<longleftrightarrow>
     el_rank m = n \<and> el_psize m = N \<and> el_monmap_epoch m = K \<and> 0 \<le> n \<and> n < int N \<and> epoch_ok m \<and>
     (el_leader_acked m = -1 \<or> 0 \<le> el_leader_acked m \<and> el_leader_acked m < n) \<and>
     (el_electing_me m \<longrightarrow> candidate_ok N net n m) \<and>
     (leader_of m \<noteq> None \<longrightarrow> even (el_epoch m) \<and> el_epoch m = el_persisted m \<and> 0 < el_persisted m) \<and>
     (\<forall>e. proposed net n e \<longrightarrow> odd e \<and> e \<le> top_epoch m) \<and>
     (proposed net n (el_epoch m) \<longrightarrow> el_electing_me m \<or> 0 \<le> el_leader_acked m)"

definition msg_ok :: "nat \<Rightarrow> nat \<Rightarrow> 'm el_msg set \<Rightarrow> 'm el_msg \<Rightarrow> bool" where
  "msg_ok N K net msg \<longleftrightarrow> 0 \<le> m_from msg \<and> m_from msg < int N \<and> m_monmap_epoch msg = K \<and>
     (case m_op msg of
        OP_PROPOSE \<Rightarrow> odd (m_epoch msg) \<and> m_from msg \<noteq> m_to msg
      | OP_ACK \<Rightarrow> odd (m_epoch msg) \<and> m_to msg < m_from msg \<and> proposed net (m_to msg) (m_epoch msg)
      | OP_VICTORY q \<Rightarrow> even (m_epoch msg) \<and> m_from msg < m_to msg \<and> m_to msg \<in> q \<and> m_from msg \<in> q \<and>
          majority N q \<and> (\<forall>k\<in>q - {m_from msg}. acked net k (m_from msg) (m_epoch msg - 1))
      | OP_NAK \<Rightarrow> True)"

text \<open>What a handler may send, and how it may join a leader.\<close>

definition out_ok :: "nat \<Rightarrow> nat \<Rightarrow> 'm el_msg set \<Rightarrow> int \<Rightarrow> 'm election \<Rightarrow> 'm el_msg \<Rightarrow> bool" where
  "out_ok N K net n m msg \<longleftrightarrow> m_from msg = n \<and> msg_ok N K net msg \<and>
     (m_op msg \<noteq> OP_NAK \<longrightarrow> m_epoch msg \<le> top_epoch m) \<and>
     (\<forall>q. m_op msg = OP_VICTORY q \<longrightarrow> el_state m = STATE_LEADER \<and> m_epoch msg = el_epoch m)"

definition join_ok :: "'m election \<Rightarrow> 'm election \<Rightarrow> bool" where
  "join_ok m m' \<longleftrightarrow> leader_of m' = None \<or>
     leader_of m' = leader_of m \<and> el_epoch m' = el_epoch m \<or> el_persisted m < el_epoch m'"

definition fine :: "nat \<Rightarrow> nat \<Rightarrow> 'm el_msg set \<Rightarrow> int \<Rightarrow> 'm election \<Rightarrow> 'm el_result \<Rightarrow> bool" where
  "fine N K net n m r \<longleftrightarrow> (\<exists>m' out. r = Some (m', out) \<and> el_persisted m \<le> el_persisted m' \<and>
     node_inv N K (net \<union> out) n m' \<and> (\<forall>msg\<in>out. out_ok N K (net \<union> out) n m' msg) \<and> join_ok m m')"

lemma fineI:
  "r = Some (m', out) \<Longrightarrow> el_persisted m \<le> el_persisted m' \<Longrightarrow> node_inv N K (net \<union> out) n m' \<Longrightarrow>
   (\<And>msg. msg \<in> out \<Longrightarrow> out_ok N K (net \<union> out) n m' msg) \<Longrightarrow> join_ok m m' \<Longrightarrow> fine N K net n m r"
  by (auto simp: fine_def)

lemma fine_same: "node_inv N K net n m \<Longrightarrow> fine N K net n m (Some (m, {}))"
  by (rule fineI) (auto simp: join_ok_def)

lemma fine_trans:
  "fine N K net n m1 r \<Longrightarrow> el_persisted m \<le> el_persisted m1 \<Longrightarrow> leader_of m1 = None \<Longrightarrow> fine N K net n m r"
  by (fastforce simp: fine_def join_ok_def)

text \<open>Messages that are not proposals or acks of the monitor change nothing in its invariant.\<close>

lemma node_inv_net:
  assumes "node_inv N K net n m" and "\<And>msg. msg \<in> out \<Longrightarrow> m_op msg = OP_PROPOSE \<Longrightarrow> m_from msg \<noteq> n"
  shows "node_inv N K (net \<union> out) n m"
proof -
  have "proposed (net \<union> out) n e \<longleftrightarrow> proposed net n e" for e
    using assms(2) by (auto simp: proposed_def)
  moreover have "candidate_ok N net n m \<Longrightarrow> candidate_ok N (net \<union> out) n m"
    by (auto simp: candidate_ok_def acked_def)
  ultimately show ?thesis using assms(1) by (auto simp: node_inv_def)
qed

lemma node_inv_no_proposal:
  "node_inv N K net n m \<Longrightarrow> (\<And>msg. msg \<in> out \<Longrightarrow> m_op msg \<noteq> OP_PROPOSE) \<Longrightarrow> node_inv N K (net \<union> out) n m"
  using node_inv_net by blast

subsection \<open>Starting an election\<close>

definition start_epoch :: "nat \<Rightarrow> nat" where
  "start_epoch p = (if p = 0 then 1 else if odd p then p + 2 else p + 1)"

lemma start_epoch_odd: "odd (start_epoch p)"
  by (simp add: start_epoch_def)

lemma start_epoch_less: "p < start_epoch p"
  by (simp add: start_epoch_def)

lemma add32_eq: "a + b < two32 \<Longrightarrow> add32 a b = a + b"
  by (simp add: add32_def)

lemma el_start_eq:
  assumes "el_participating m" and small: "el_persisted m + 2 < two32"
  shows "\<exists>m'. el_start c m = Some (m', propose_to_peers c m') \<and> el_rank m' = el_rank m \<and>
    el_psize m' = el_psize m \<and> el_monmap_epoch m' = el_monmap_epoch m \<and> el_participating m' \<and>
    el_epoch m' = start_epoch (el_persisted m) \<and>
    el_persisted m' = (if el_persisted m = 0 then 0 else start_epoch (el_persisted m)) \<and>
    el_state m' = (if el_persisted m = 0 then el_state m else STATE_ELECTING) \<and>
    el_electing_me m' \<and> el_acked_me m' = {el_rank m} \<and> el_leader_acked m' = -1 \<and>
    el_peer_info m' = [el_rank m \<mapsto> c_self c]"
proof -
  let ?p = "el_persisted m"
  consider "?p = 0" | "?p \<noteq> 0" "?p mod 2 = 1" | "?p \<noteq> 0" "?p mod 2 = 0" by fastforce
  then show ?thesis
  proof cases
    case 1
    then show ?thesis
      using assms by (simp add: el_start_def el_init_def start_epoch_def Let_def)
  next
    case 2
    then have "Suc ?p mod 2 = 0" "odd ?p" by presburger+
    with 2 show ?thesis using assms
      by (simp add: el_start_def el_init_def start_epoch_def Let_def bump_epoch_def join_election_def add32_eq)
  next
    case 3
    then have "even ?p" by presburger
    with 3 show ?thesis using assms
      by (simp add: el_start_def el_init_def start_epoch_def Let_def bump_epoch_def join_election_def add32_eq)
  qed
qed

text \<open>The state from which the election starts may differ from the monitor's in what the monitor
  resets before.\<close>

lemma start_fine_from:
  assumes inv: "node_inv N K net n m" and small: "el_persisted m + 2 < two32" and True: "el_participating m1"
    and same: "el_rank m1 = el_rank m" "el_psize m1 = el_psize m" "el_monmap_epoch m1 = el_monmap_epoch m"
      "el_persisted m1 = el_persisted m" "leader_of m1 = None \<or> leader_of m1 = leader_of m"
  shows "fine N K net n m (el_start c m1)"
proof -
  let ?e = "start_epoch (el_persisted m)"
  obtain m' where st: "el_start c m1 = Some (m', propose_to_peers c m')"
    and rk: "el_rank m' = n" "el_psize m' = N" "el_monmap_epoch m' = K"
    and ep: "el_epoch m' = ?e" "el_persisted m' = (if el_persisted m = 0 then 0 else ?e)"
    and sta: "el_state m' = (if el_persisted m = 0 then el_state m1 else STATE_ELECTING)"
    and el: "el_electing_me m'" "el_acked_me m' = {n}" "el_leader_acked m' = -1" "el_peer_info m' n \<noteq> None"
    using el_start_eq [OF True, of c] small same inv by (auto simp: node_inv_def)
  have n: "0 \<le> n" "n < int N" using inv by (simp_all add: node_inv_def)
  have top: "top_epoch m' = ?e" using ep start_epoch_less [of "el_persisted m"] by (auto simp: start_epoch_def)
  have lead: "leader_of m' = None"
  proof (cases "el_persisted m = 0")
    case True
    then have "leader_of m = None" using inv by (auto simp: node_inv_def epoch_ok_def)
    then have "leader_of m1 = None" using same(5) by auto
    then show ?thesis using True sta by (simp add: leader_of_def split: mon_state.splits)
  qed (simp add: sta)
  have msgs: "m_op msg = OP_PROPOSE \<and> m_from msg = n \<and> m_epoch msg = ?e \<and> m_to msg \<noteq> n \<and>
      m_monmap_epoch msg = K" if "msg \<in> propose_to_peers c m'" for msg
    using that rk ep by (auto simp: propose_to_peers_def mk_msg_def)
  have pr: "proposed (net \<union> propose_to_peers c m') n e \<Longrightarrow> odd e \<and> e \<le> ?e" for e
  proof -
    assume "proposed (net \<union> propose_to_peers c m') n e"
    then consider "proposed net n e" | "e = ?e" using msgs by (auto simp: proposed_def)
    then show ?thesis
    proof cases
      case 1
      then have "odd e" "e \<le> top_epoch m" using inv by (simp_all add: node_inv_def)
      moreover have "top_epoch m \<le> ?e" by (simp add: start_epoch_def)
      ultimately show ?thesis using le_trans by blast
    qed (simp add: start_epoch_odd)
  qed
  show ?thesis
  proof (rule fineI [OF st])
    show "el_persisted m \<le> el_persisted m'" using ep start_epoch_less [of "el_persisted m"] by simp
    show "node_inv N K (net \<union> propose_to_peers c m') n m'"
      using rk n ep el lead pr start_epoch_odd [of "el_persisted m"] top start_epoch_less [of "el_persisted m"]
      by (auto simp: node_inv_def candidate_ok_def epoch_ok_def start_epoch_def)
    show "out_ok N K (net \<union> propose_to_peers c m') n m' msg" if "msg \<in> propose_to_peers c m'" for msg
      using msgs [OF that] n top start_epoch_odd by (simp add: out_ok_def msg_ok_def)
    show "join_ok m m'" by (simp add: join_ok_def lead)
  qed
qed

lemma start_fine:
  assumes inv: "node_inv N K net n m" and small: "el_persisted m + 2 < two32"
  shows "fine N K net n m (el_start c m)"
proof (cases "el_participating m")
  case False
  then show ?thesis using fine_same [OF inv] by (simp add: el_start_def)
qed (use start_fine_from [OF inv small] in simp)

lemma node_inv_state:
  assumes "node_inv N K net n m" and "\<not> el_participating m \<or> st = STATE_PROBING"
    and "st = STATE_ELECTING \<or> st = STATE_PROBING"
  shows "node_inv N K net n (m\<lparr>el_state := st, el_quorum := {}\<rparr>)"
  using assms by (auto simp: node_inv_def epoch_ok_def candidate_ok_def leader_of_def)

lemma start_election_fine:
  assumes inv: "node_inv N K net n m" and small: "el_persisted m + 2 < two32"
  shows "fine N K net n m (start_election c m)"
proof (cases "el_participating m")
  case True
  then show ?thesis unfolding start_election_def
    by (intro start_fine_from [OF inv small]) (simp_all add: join_election_def)
next
  case False
  then have "node_inv N K net n (join_election m)"
    unfolding join_election_def by (intro node_inv_state inv) simp_all
  from fine_trans [OF fine_same [OF this]] False show ?thesis
    unfolding start_election_def by (simp add: el_start_def join_election_def)
qed

subsection \<open>Advancing the epoch\<close>

lemma bump_inv:
  assumes inv: "node_inv N K net n m" and e: "el_epoch m < e" "0 < el_epoch m"
  obtains m' where "bump_epoch m e = Some m'" and "node_inv N K net n m'" and "el_persisted m < el_persisted m'"
    and "leader_of m' = None" and "el_state m' = STATE_ELECTING" and "el_epoch m' = e" and "el_persisted m' = e"
    and "el_leader_acked m' = el_leader_acked m" and "\<not> el_electing_me m'" and "el_peer_info m' = el_peer_info m"
    and "el_rank m' = n" "el_participating m' = el_participating m"
proof -
  have p: "el_persisted m < e" "top_epoch m < e" using inv e by (auto simp: node_inv_def epoch_ok_def)
  then have np: "\<not> proposed net n e" using inv by (force simp: node_inv_def)
  have old: "\<forall>e'. proposed net n e' \<longrightarrow> odd e' \<and> e' \<le> max e 1"
    using inv p by (fastforce simp: node_inv_def)
  let ?m = "join_election (m\<lparr>el_epoch := e, el_persisted := e, el_electing_me := False, el_acked_me := {}\<rparr>)"
  have "epoch_ok ?m" using e by (simp add: join_election_def epoch_ok_def)
  then have "node_inv N K net n ?m"
    using inv np old unfolding node_inv_def by (simp add: join_election_def)
  then show ?thesis
    using that [of ?m] inv e p by (simp add: bump_epoch_def join_election_def node_inv_def)
qed

text \<open>On the way to a victory, one's own or another's, nobody is acked any more.\<close>

lemma bump_even:
  assumes inv: "node_inv N K net n m" and e: "el_epoch m \<le> e" "0 < el_epoch m" "even e"
  defines "m' \<equiv> join_election (m\<lparr>el_leader_acked := -1, el_epoch := e, el_persisted := e,
    el_electing_me := False, el_acked_me := {}\<rparr>)"
  shows "node_inv N K net n m'" and "el_persisted m \<le> el_persisted m'"
proof -
  have p: "el_persisted m \<le> e" "top_epoch m \<le> e" using inv e by (auto simp: node_inv_def epoch_ok_def)
  then have old: "\<forall>e'. proposed net n e' \<longrightarrow> odd e' \<and> e' \<le> max e 1"
    using inv by (fastforce simp: node_inv_def)
  then have np: "\<not> proposed net n e" using e(3) by blast
  have "epoch_ok m'" using e by (auto simp: m'_def join_election_def epoch_ok_def)
  then show "node_inv N K net n m'"
    using inv np old unfolding node_inv_def by (simp add: m'_def join_election_def)
  show "el_persisted m \<le> el_persisted m'" using p by (simp add: m'_def join_election_def)
qed

definition net_ok :: "nat \<Rightarrow> nat \<Rightarrow> 'm el_msg set \<Rightarrow> bool" where
  "net_ok N K net \<longleftrightarrow> (\<forall>msg\<in>net. msg_ok N K net msg)"

lemma net_ok_acked: "net_ok N K net \<Longrightarrow> acked net k n e \<Longrightarrow> n < k \<and> odd e \<and> proposed net n e"
  by (fastforce simp: net_ok_def msg_ok_def acked_def)

lemma victory_fine:
  assumes inv: "node_inv N K net n m" and net: "net_ok N K net" and el: "el_electing_me m"
    and maj: "card (el_acked_me m) > N div 2" and small: "el_persisted m + 2 < two32"
  shows "fine N K net n m (declare_victory c m)"
proof -
  let ?q = "el_acked_me m" and ?e = "el_epoch m + 1"
  have cand: "candidate_ok N net n m" and rk: "el_rank m = n" "el_psize m = N" "el_monmap_epoch m = K"
      and n: "0 \<le> n" "n < int N" and ep: "0 < el_epoch m" "el_persisted m \<le> el_epoch m" "el_epoch m + 2 < two32"
    using inv el small by (auto simp: node_inv_def epoch_ok_def two32_def)
  let ?b = "join_election (m\<lparr>el_leader_acked := -1, el_epoch := ?e, el_persisted := ?e,
    el_electing_me := False, el_acked_me := {}\<rparr>)"
  let ?m = "?b\<lparr>el_state := STATE_LEADER, el_quorum := ?q\<rparr>"
  have odd: "odd (el_epoch m)" using cand by (simp add: candidate_ok_def)
  have b: "node_inv N K net n ?b" using bump_even [OF inv _ ep(1), of ?e] odd by simp
  obtain cf mf rel where ci: "common_info c (el_peer_info m) ?q = (cf, mf, rel)" by (metis prod_cases3)
  define info where "info = (c_self c)\<lparr>i_cluster_features := cf, i_mon_features := mf, i_mon_release := rel\<rparr>"
  have r: "declare_victory c m = Some (?m, (\<lambda>p. mk_msg ?b p ?e (OP_VICTORY ?q) info) ` (?q - {n}))"
    using cand ep rk odd
    by (auto simp: declare_victory_def message_victory_def bump_epoch_def join_election_def candidate_ok_def
        add32_eq odd_iff_mod_2_eq_one Let_def ci info_def)
  let ?out = "(\<lambda>p. mk_msg ?b p ?e (OP_VICTORY ?q) info) ` (?q - {n})"
  have msgs: "m_op msg = OP_VICTORY ?q \<and> m_from msg = n \<and> m_epoch msg = ?e \<and> m_monmap_epoch msg = K \<and>
      m_to msg \<in> ?q - {n}" if "msg \<in> ?out" for msg
    using that rk by (auto simp: mk_msg_def join_election_def)
  show ?thesis
  proof (rule fineI [OF r])
    show "el_persisted m \<le> el_persisted ?m" using ep by (simp add: join_election_def)
    have "m_op msg \<noteq> OP_PROPOSE" if "msg \<in> ?out" for msg using msgs [OF that] by simp
    then have "node_inv N K (net \<union> ?out) n ?b" by (rule node_inv_no_proposal [OF b])
    then show "node_inv N K (net \<union> ?out) n ?m"
      using odd unfolding node_inv_def by (simp add: join_election_def epoch_ok_def)
    show "join_ok m ?m" using ep by (simp add: join_ok_def join_election_def)
    show "out_ok N K (net \<union> ?out) n ?m msg" if "msg \<in> ?out" for msg
    proof -
      have "\<forall>k\<in>?q - {n}. acked net k n (el_epoch m)" using cand by (simp add: candidate_ok_def)
      then have "n < m_to msg" using msgs [OF that] net_ok_acked [OF net] by blast
      moreover have "\<forall>k\<in>?q - {n}. acked (net \<union> ?out) k n (el_epoch m)"
        using cand by (auto simp: candidate_ok_def acked_def)
      moreover have "majority N ?q" using cand maj by (simp add: majority_def candidate_ok_def)
      ultimately show ?thesis
        using msgs [OF that] n odd cand by (simp add: out_ok_def msg_ok_def join_election_def candidate_ok_def)
    qed
  qed
qed

lemma timeout_fine:
  assumes inv: "node_inv N K net n m" and net: "net_ok N K net" and small: "el_persisted m + 2 < two32"
  shows "fine N K net n m (end_election_period c m)"
proof -
  have "node_inv N K net n (m\<lparr>el_state := STATE_PROBING, el_quorum := {}\<rparr>)"
    by (intro node_inv_state inv) simp_all
  from fine_trans [OF fine_same [OF this]]
  have "fine N K net n m (Some (m\<lparr>el_state := STATE_PROBING, el_quorum := {}\<rparr>, {}))" by simp
  moreover have "el_psize m = N" using inv by (simp add: node_inv_def)
  ultimately show ?thesis
    using victory_fine [OF inv net] start_fine [OF inv small] small by (simp add: end_election_period_def)
qed

subsection \<open>Messages\<close>

lemma out_ok_mono:
  assumes "out_ok N K net n m msg" shows "out_ok N K (net \<union> out) n m msg"
  using assms net_mono by (fastforce simp: out_ok_def msg_ok_def split: el_op.splits)

lemma fine_naks:
  assumes "fine N K net n m r" and naks: "\<And>msg. msg \<in> naks \<Longrightarrow> m_op msg = OP_NAK \<and> msg_ok N K {} msg \<and> m_from msg = n"
  shows "fine N K net n m (Option.bind r (\<lambda>(m1, out). Some (m1, naks \<union> out)))"
proof -
  obtain m' out where r: "r = Some (m', out)" "el_persisted m \<le> el_persisted m'"
      "node_inv N K (net \<union> out) n m'" "\<forall>msg\<in>out. out_ok N K (net \<union> out) n m' msg" "join_ok m m'"
    using assms(1) by (auto simp: fine_def)
  have eq: "net \<union> (naks \<union> out) = (net \<union> out) \<union> naks" by blast
  show ?thesis
  proof (rule fineI [of _ m' "naks \<union> out"])
    show "node_inv N K (net \<union> (naks \<union> out)) n m'"
      unfolding eq
    proof (rule node_inv_no_proposal [OF r(3)])
      show "m_op msg \<noteq> OP_PROPOSE" if "msg \<in> naks" for msg using naks [OF that] by simp
    qed
    show "out_ok N K (net \<union> (naks \<union> out)) n m' msg" if "msg \<in> naks \<union> out" for msg
    proof (cases "msg \<in> out")
      case True
      then show ?thesis unfolding eq using r(4) by (blast intro: out_ok_mono)
    next
      case False
      then have "m_op msg = OP_NAK" "msg_ok N K {} msg" "m_from msg = n" using that naks [of msg] by simp_all
      then show ?thesis by (simp add: out_ok_def msg_ok_def)
    qed
  qed (use r in simp_all)
qed

lemma defer_fine:
  assumes inv: "node_inv N K net n m" and w: "0 \<le> who" "who < n" and ep: "odd (el_epoch m)"
    and pr: "proposed net who (el_epoch m)"
  shows "fine N K net n m (Some (el_defer c m who))"
proof -
  have rk: "el_rank m = n" "el_monmap_epoch m = K" and n: "0 \<le> n" "n < int N"
    and top: "el_epoch m \<le> top_epoch m"
    using inv by (auto simp: node_inv_def epoch_ok_def)
  let ?m = "fst (el_defer c m who)"
  have sel: "el_rank ?m = n" "el_monmap_epoch ?m = K" "el_epoch ?m = el_epoch m" "el_persisted ?m = el_persisted m"
      "el_leader_acked ?m = who" "\<not> el_electing_me ?m" "el_psize ?m = el_psize m" "el_state ?m = el_state m"
      "el_participating ?m = el_participating m"
    using rk by (simp_all add: el_defer_def Let_def)
  have "leader_of ?m = leader_of m" using sel rk by (simp add: leader_of_def split: mon_state.splits)
  moreover have "epoch_ok ?m" using inv sel by (auto simp: node_inv_def epoch_ok_def)
  ultimately have m: "node_inv N K net n ?m" using inv sel w unfolding node_inv_def by auto
  have out: "snd (el_defer c m who) = {mk_msg ?m who (el_epoch m) OP_ACK (c_self c)}"
    by (simp add: el_defer_def Let_def)
  let ?msg = "mk_msg ?m who (el_epoch m) OP_ACK (c_self c)"
  show ?thesis
  proof (rule fineI [of _ ?m "{?msg}"])
    show "Some (el_defer c m who) = Some (?m, {?msg})" using out by (metis prod.collapse)
    show "node_inv N K (net \<union> {?msg}) n ?m" by (rule node_inv_net [OF m]) (simp add: mk_msg_def)
    show "out_ok N K (net \<union> {?msg}) n ?m msg" if "msg \<in> {?msg}" for msg
      using that sel w ep n top pr by (auto simp: out_ok_def msg_ok_def mk_msg_def proposed_def)
    show "join_ok m ?m" using sel \<open>leader_of ?m = leader_of m\<close> by (simp add: join_ok_def)
  qed (simp add: sel)
qed

text \<open>A monitor that takes part and handles messages has an epoch.\<close>

lemma live_epoch:
  assumes "node_inv N K net n m" and "el_participating m" and "el_state m \<noteq> STATE_PROBING"
  shows "0 < el_epoch m" and "top_epoch m = el_epoch m" and "el_persisted m \<le> el_epoch m"
  using assms by (auto simp: node_inv_def epoch_ok_def)

lemma receive_propose_fine:
  assumes inv: "node_inv N K net n m" and live: "0 < el_epoch m"
    and small: "el_persisted m + 2 < two32" "mepoch + 2 < two32"
    and from_ok: "0 \<le> k" "k \<noteq> n" and pr: "odd mepoch" "proposed net k mepoch"
  shows "fine N K net n m (receive_propose c m k mepoch)"
proof (cases "mepoch < el_epoch m")
  case True
  then show ?thesis
    using start_election_fine [OF inv small(1)] fine_same [OF inv] by (simp add: receive_propose_def)
next
  case False
  obtain m1 where m1: "(if mepoch > el_epoch m then bump_epoch m mepoch else Some m) = Some m1"
      and inv1: "node_inv N K net n m1" and p1: "el_persisted m \<le> el_persisted m1" "el_persisted m1 + 2 < two32"
      and l1: "leader_of m1 = None" and e1: "el_epoch m1 = mepoch"
  proof (cases "mepoch > el_epoch m")
    case True
    then obtain m' where "bump_epoch m mepoch = Some m'" "node_inv N K net n m'" "el_persisted m < el_persisted m'"
        "leader_of m' = None" "el_epoch m' = mepoch" "el_persisted m' = mepoch"
      using bump_inv [OF inv True live] by metis
    with True small show ?thesis by (intro that [of m']) simp_all
  next
    case eq: False
    then have e: "el_epoch m = mepoch" using False by simp
    then have "leader_of m = None" using inv pr(1) by (auto simp: node_inv_def)
    with eq e inv small show ?thesis by (intro that [of m]) simp_all
  qed
  have rk: "el_rank m1 = n" "el_leader_acked m1 = -1 \<or> 0 \<le> el_leader_acked m1 \<and> el_leader_acked m1 < n"
    using inv1 by (auto simp: node_inv_def)
  have "fine N K net n m1 (receive_propose c m k mepoch)"
  proof (cases "n < k")
    case True
    then show ?thesis
      using rk start_election_fine [OF inv1 p1(2)] fine_same [OF inv1] False
      by (auto simp: receive_propose_def m1)
  next
    case False
    then have "k < n" using from_ok by simp
    then show ?thesis
      using rk \<open>\<not> mepoch < el_epoch m\<close> defer_fine [OF inv1 from_ok(1), of c] fine_same [OF inv1] pr e1
      by (auto simp: receive_propose_def m1)
  qed
  then show ?thesis using fine_trans p1(1) l1 by blast
qed

lemma receive_ack_fine:
  assumes inv: "node_inv N K net n m" and net: "net_ok N K net" and small: "el_persisted m + 2 < two32"
    and ak: "acked net k n (el_epoch m)" and k: "0 \<le> k" "k < int N"
    and pi: "el_electing_me m \<Longrightarrow> el_peer_info m k \<noteq> None"
  shows "fine N K net n m (receive_ack c m k (el_epoch m))"
proof (cases "el_electing_me m")
  case True
  let ?m = "m\<lparr>el_acked_me := insert k (el_acked_me m)\<rparr>"
  have cand: "candidate_ok N net n m" using inv True by (simp add: node_inv_def)
  then have c1: "candidate_ok N net n ?m" using ak k pi [OF True] by (auto simp: candidate_ok_def)
  have "epoch_ok ?m" using inv by (auto simp: node_inv_def epoch_ok_def)
  then have inv1: "node_inv N K net n ?m" using inv c1 unfolding node_inv_def by auto
  have rk: "el_psize m = N" "odd (el_epoch m)" "n \<in> el_acked_me m" using inv cand by (auto simp: node_inv_def candidate_ok_def)
  have "fine N K net n ?m (receive_ack c m k (el_epoch m))"
  proof (cases "card (el_acked_me ?m) = N")
    case all: True
    have "n < int N" "0 \<le> n" using inv by (simp_all add: node_inv_def)
    then have "N div 2 < card (el_acked_me ?m)" unfolding all by simp
    then have "fine N K net n ?m (declare_victory c ?m)"
      using victory_fine [OF inv1 net] True small by simp
    with all True rk show ?thesis by (simp add: receive_ack_def odd_iff_mod_2_eq_one)
  next
    case False
    then show ?thesis using fine_same [OF inv1] True rk by (simp add: receive_ack_def odd_iff_mod_2_eq_one)
  qed
  moreover have "fine N K net n ?m r \<Longrightarrow> fine N K net n m r" for r
    by (simp add: fine_def join_ok_def)
  ultimately show ?thesis by blast
next
  case False
  have "odd (el_epoch m)" "proposed net n (el_epoch m)" using net_ok_acked [OF net ak] by simp_all
  moreover then have "0 \<le> el_leader_acked m" using inv False by (simp add: node_inv_def)
  ultimately show ?thesis
    using fine_same [OF inv] False by (simp add: receive_ack_def odd_iff_mod_2_eq_one)
qed

lemma handle_propose_fine:
  assumes inv: "node_inv N K net n m" and live: "0 < el_epoch m"
    and small: "el_persisted m + 2 < two32" "m_epoch msg + 2 < two32"
    and msg: "msg \<in> net" "m_op msg = OP_PROPOSE" "m_to msg = n" and net: "net_ok N K net"
  shows "fine N K net n m (handle_propose c m msg)"
proof -
  have ok: "odd (m_epoch msg)" "0 \<le> m_from msg" "m_from msg \<noteq> n" "proposed net (m_from msg) (m_epoch msg)"
    using net msg by (auto simp: net_ok_def msg_ok_def proposed_def)
  let ?nak = "nak_old_peer c m msg"
  have nak: "m_op ?nak = OP_NAK \<and> msg_ok N K {} ?nak \<and> m_from ?nak = n"
    using inv by (simp add: nak_old_peer_def mk_msg_def msg_ok_def node_inv_def)
  let ?r = "receive_propose c m (m_from msg) (m_epoch msg)"
  have "fine N K net n m (Option.bind (Some (m, {})) (\<lambda>(m1, out). Some (m1, {?nak} \<union> out)))"
    by (rule fine_naks [OF fine_same [OF inv]]) (use nak in auto)
  then have f1: "fine N K net n m (Some (m, {?nak}))" by simp
  have f2: "fine N K net n m (Option.bind ?r (\<lambda>(m1, out). Some (m1, naks \<union> out)))"
    if "naks \<subseteq> {?nak}" for naks
    using that nak by (intro fine_naks receive_propose_fine [OF inv live small ok(2,3,1,4)]) auto
  show ?thesis
    using f1 f2 [of "{?nak}"] f2 [of "{}"] ok(1)
    by (auto simp: handle_propose_def odd_iff_mod_2_eq_one Let_def)
qed

lemma handle_ack_fine:
  assumes inv: "node_inv N K net n m" and live: "0 < el_epoch m" "top_epoch m = el_epoch m"
    and small: "el_persisted m + 2 < two32" and old: "\<not> m_epoch msg < el_epoch m"
    and msg: "msg \<in> net" "m_op msg = OP_ACK" "m_to msg = n" and net: "net_ok N K net"
  shows "fine N K net n m (handle_ack c m msg)"
proof -
  have ok: "0 \<le> m_from msg" "m_from msg < int N" "proposed net n (m_epoch msg)"
    using net msg by (auto simp: net_ok_def msg_ok_def)
  then have "m_epoch msg \<le> top_epoch m" using inv by (simp add: node_inv_def)
  then have e: "m_epoch msg = el_epoch m" using old live(2) by simp
  have ak: "acked net (m_from msg) n (el_epoch m)" using msg e by (auto simp: acked_def)
  let ?m = "if el_electing_me m then m\<lparr>el_peer_info := (el_peer_info m)(m_from msg \<mapsto> m_info msg)\<rparr> else m"
  have "epoch_ok ?m" using inv by (auto simp: node_inv_def epoch_ok_def)
  moreover have "el_electing_me m \<Longrightarrow> candidate_ok N net n ?m" using inv by (auto simp: node_inv_def candidate_ok_def)
  ultimately have inv1: "node_inv N K net n ?m" using inv unfolding node_inv_def by auto
  have "fine N K net n ?m (receive_ack c ?m (m_from msg) (el_epoch ?m))"
    using small ak by (intro receive_ack_fine [OF inv1 net _ _ ok(1,2)]) auto
  then have "fine N K net n m (receive_ack c ?m (m_from msg) (m_epoch msg))"
    using e by (cases "el_electing_me m") (simp_all add: fine_def join_ok_def)
  moreover have "el_electing_me m \<longrightarrow> (\<forall>q\<in>el_acked_me m. el_peer_info ?m q \<noteq> None)"
    using inv by (auto simp: node_inv_def candidate_ok_def)
  ultimately show ?thesis
    using fine_same [OF inv] e by (simp add: handle_ack_def Let_def ensure_bind)
qed

lemma handle_victory_fine:
  assumes inv: "node_inv N K net n m" and live: "0 < el_epoch m" "el_persisted m \<le> el_epoch m"
    and small: "m_epoch msg + 2 < two32" and old: "\<not> m_epoch msg < el_epoch m"
    and msg: "msg \<in> net" "m_op msg = OP_VICTORY q" "m_to msg = n" and net: "net_ok N K net"
  shows "fine N K net n m (handle_victory c m msg q)"
proof -
  let ?e = "m_epoch msg"
  have ok: "even ?e" "m_from msg < n" "el_rank m = n" "0 \<le> m_from msg"
    using net msg inv by (auto simp: net_ok_def msg_ok_def node_inv_def)
  let ?b = "join_election (m\<lparr>el_leader_acked := -1, el_epoch := ?e, el_persisted := ?e,
    el_electing_me := False, el_acked_me := {}\<rparr>)"
  have b: "node_inv N K net n ?b" "el_persisted m \<le> el_persisted ?b"
    using bump_even [OF inv _ live(1) ok(1)] old by simp_all
  have bump: "bump_epoch (m\<lparr>el_leader_acked := -1\<rparr>) ?e = Some ?b"
    using old by (simp add: bump_epoch_def join_election_def)
  show ?thesis
  proof (cases "?e = add32 (el_epoch m) 1")
    case True
    let ?m = "?b\<lparr>el_state := STATE_PEON (m_from msg), el_quorum := q\<rparr>"
    have gt: "el_persisted m < ?e" using True live small old
      by (cases "el_epoch m + 1 < two32") (auto simp: add32_eq add32_def)
    have r: "handle_victory c m msg q = Some (?m, {})"
      using ok bump True by (simp add: handle_victory_def receive_victory_claim_def even_iff_mod_2_eq_zero)
    show ?thesis
    proof (rule fineI [OF r])
      show "node_inv N K (net \<union> {}) n ?m"
        using b(1) ok(1) gt unfolding node_inv_def by (simp add: join_election_def epoch_ok_def)
      show "join_ok m ?m" using gt by (simp add: join_ok_def join_election_def)
    qed (use b in \<open>simp_all add: join_election_def\<close>)
  next
    case False
    have "fine N K net n ?b (el_start c ?b)" by (rule start_fine [OF b(1)]) (use small in \<open>simp add: join_election_def\<close>)
    then have f: "fine N K net n m (el_start c ?b)" by (rule fine_trans [OF _ b(2)]) (simp add: join_election_def)
    have "handle_victory c m msg q = el_start c ?b"
      using ok bump False f
      by (auto simp: handle_victory_def receive_victory_claim_def even_iff_mod_2_eq_zero fine_def)
    with f show ?thesis by simp
  qed
qed

lemma dispatch_fine:
  assumes inv: "node_inv N K net n m" and net: "net_ok N K net"
    and small: "el_persisted m + 2 < two32" "m_epoch msg + 2 < two32"
    and msg: "msg \<in> net" "m_to msg = n" "m_op msg \<noteq> OP_NAK"
  shows "fine N K net n m (el_dispatch c m msg)"
proof (cases "el_state m \<noteq> STATE_PROBING \<and> el_participating m")
  case True
  note live = live_epoch [OF inv conjunct2 [OF True] conjunct1 [OF True]]
  have k: "\<not> m_monmap_epoch msg > el_monmap_epoch m"
    using net msg(1) inv by (simp add: net_ok_def msg_ok_def node_inv_def)
  show ?thesis
  proof (cases "m_op msg")
    case OP_PROPOSE
    then show ?thesis
      using handle_propose_fine [OF inv live(1) small msg(1) OP_PROPOSE msg(2) net] fine_same [OF inv] k
      by (simp add: el_dispatch_def)
  next
    case OP_ACK
    then show ?thesis
      using handle_ack_fine [OF inv live(1,2) small(1) _ msg(1) OP_ACK msg(2) net] fine_same [OF inv] k
      by (simp add: el_dispatch_def)
  next
    case (OP_VICTORY q)
    then show ?thesis
      using handle_victory_fine [OF inv live(1,3) small(2) _ msg(1) OP_VICTORY msg(2) net] fine_same [OF inv] k
      by (simp add: el_dispatch_def)
  qed (use msg in simp)
qed (use fine_same [OF inv] in \<open>auto simp: el_dispatch_def\<close>)

subsection \<open>The system\<close>

inductive el_event :: "'m el_config \<Rightarrow> 'm el_msg set \<Rightarrow> 'm election \<Rightarrow> 'm el_result \<Rightarrow> bool"
  for c net m where
  boot: "el_event c net m (Some (el_boot m, {}))"
| call: "el_event c net m (start_election c m)"
| enter: "el_event c net m (quorum_enter c m)"
| exit: "el_event c net m (quorum_exit c m)"
| timeout: "el_event c net m (end_election_period c m)"
| deliver: "msg \<in> net \<Longrightarrow> m_to msg = el_rank m \<Longrightarrow> m_op msg \<noteq> OP_NAK \<Longrightarrow> el_event c net m (el_dispatch c m msg)"

record 'm el_sys =
  nodes :: "int \<Rightarrow> 'm election"
  sent :: "'m el_msg set"
  joined :: "(int \<times> nat \<times> int) set"

text \<open>\<open>joined\<close> records, for each monitor, the epochs it entered as leader or peon and under whom.
  Epochs stay below the top of their type.\<close>

definition el_room :: "nat \<Rightarrow> 'm el_sys \<Rightarrow> bool" where
  "el_room N s \<longleftrightarrow> (\<forall>n\<in>{0..<int N}. el_persisted (nodes s n) + 2 < two32)"

inductive el_step :: "(int \<Rightarrow> 'm el_config) \<Rightarrow> nat \<Rightarrow> 'm el_sys \<Rightarrow> 'm el_sys \<Rightarrow> bool" for c N where
  "n \<in> {0..<int N} \<Longrightarrow> el_room N s \<Longrightarrow> el_event (c n) (sent s) (nodes s n) (Some (m, out)) \<Longrightarrow>
   el_step c N s (s\<lparr>nodes := (nodes s)(n := m), sent := sent s \<union> out,
     joined := joined s \<union> {(n, el_epoch m, l) | l. leader_of m = Some l}\<rparr>)"

definition el_begin :: "nat \<Rightarrow> nat \<Rightarrow> 'm el_sys \<Rightarrow> bool" where
  "el_begin N K s \<longleftrightarrow> sent s = {} \<and> joined s = {} \<and>
     (\<forall>n\<in>{0..<int N}. nodes s n = el_boot (nodes s n) \<and> el_rank (nodes s n) = n \<and>
        el_psize (nodes s n) = N \<and> el_monmap_epoch (nodes s n) = K)"

definition el_inv :: "nat \<Rightarrow> nat \<Rightarrow> 'm el_sys \<Rightarrow> bool" where
  "el_inv N K s \<longleftrightarrow>
     (\<forall>n\<in>{0..<int N}. node_inv N K (sent s) n (nodes s n)) \<and> net_ok N K (sent s) \<and>
     (\<forall>msg\<in>sent s. m_op msg \<noteq> OP_NAK \<longrightarrow> m_epoch msg \<le> top_epoch (nodes s (m_from msg))) \<and>
     (\<forall>n\<in>{0..<int N}. \<forall>l. leader_of (nodes s n) = Some l \<longrightarrow> (n, el_epoch (nodes s n), l) \<in> joined s) \<and>
     (\<forall>n e l. (n, e, l) \<in> joined s \<longrightarrow> n \<in> {0..<int N} \<and> e \<le> el_persisted (nodes s n)) \<and>
     (\<forall>n e l l'. (n, e, l) \<in> joined s \<longrightarrow> (n, e, l') \<in> joined s \<longrightarrow> l = l')"

lemma boot_node_inv:
  "(\<forall>e. proposed net n e \<longrightarrow> odd e \<and> e \<le> top_epoch m) \<Longrightarrow> 0 \<le> n \<Longrightarrow> n < int N \<Longrightarrow> el_rank m = n \<Longrightarrow>
   el_psize m = N \<Longrightarrow> el_monmap_epoch m = K \<Longrightarrow> node_inv N K net n (el_boot m)"
  by (auto simp: node_inv_def el_boot_def epoch_ok_def)

lemma exit_fine:
  assumes inv: "node_inv N K net n m" and small: "el_persisted m + 2 < two32"
  shows "fine N K net n m (quorum_exit c m)"
proof -
  obtain m1 out where r: "start_election c m = Some (m1, out)" "el_persisted m \<le> el_persisted m1"
      "node_inv N K (net \<union> out) n m1" "\<forall>msg\<in>out. out_ok N K (net \<union> out) n m1 msg" "join_ok m m1"
    using start_election_fine [OF inv small, of c] by (auto simp: fine_def)
  let ?m = "m1\<lparr>el_participating := False\<rparr>"
  show ?thesis
  proof (rule fineI [of _ ?m out])
    have "epoch_ok ?m" "candidate_ok N (net \<union> out) n ?m \<longleftrightarrow> candidate_ok N (net \<union> out) n m1"
      using r(3) by (auto simp: node_inv_def epoch_ok_def candidate_ok_def)
    then show "node_inv N K (net \<union> out) n ?m" using r(3) unfolding node_inv_def by auto
    show "out_ok N K (net \<union> out) n ?m msg" if "msg \<in> out" for msg
      using r(4) that by (simp add: out_ok_def)
    show "join_ok m ?m" using r(5) by (simp add: join_ok_def)
  qed (use r in \<open>simp_all add: quorum_exit_def\<close>)
qed

text \<open>No event makes a monitor abort, whatever has happened before.\<close>

lemma event_fine:
  assumes ev: "el_event c net m r" and inv: "node_inv N K net n m" and net: "net_ok N K net"
    and small: "el_persisted m + 2 < two32" "\<And>msg. msg \<in> net \<Longrightarrow> m_op msg \<noteq> OP_NAK \<Longrightarrow> m_epoch msg + 2 < two32"
  shows "fine N K net n m r"
  using ev
proof cases
  case boot
  have "node_inv N K net n (el_boot m)" using inv by (intro boot_node_inv) (auto simp: node_inv_def)
  then have f: "fine N K net n (el_boot m) r" unfolding boot(1) by (rule fine_same)
  show ?thesis by (rule fine_trans [OF f]) (simp_all add: el_boot_def)
next
  case call
  then show ?thesis using start_election_fine [OF inv small(1)] by simp
next
  case enter
  then show ?thesis unfolding enter quorum_enter_def start_election_def
    by (intro start_fine_from [OF inv small(1)]) (simp_all add: join_election_def)
next
  case exit
  then show ?thesis using exit_fine [OF inv small(1)] by simp
next
  case timeout
  then show ?thesis using timeout_fine [OF inv net small(1)] by simp
next
  case (deliver msg)
  then show ?thesis
    using dispatch_fine [OF inv net small(1)] small(2) inv by (simp add: node_inv_def)
qed

lemma el_inv_msgs:
  "el_inv N K s \<Longrightarrow> el_room N s \<Longrightarrow> msg \<in> sent s \<Longrightarrow> m_op msg \<noteq> OP_NAK \<Longrightarrow> m_epoch msg + 2 < two32"
proof -
  assume inv: "el_inv N K s" and room: "el_room N s" and msg: "msg \<in> sent s" "m_op msg \<noteq> OP_NAK"
  have "m_from msg \<in> {0..<int N}" "m_epoch msg \<le> top_epoch (nodes s (m_from msg))"
    using inv msg by (auto simp: el_inv_def net_ok_def msg_ok_def)
  moreover from this room have "el_persisted (nodes s (m_from msg)) + 2 < two32" by (simp add: el_room_def)
  ultimately show ?thesis by (simp add: two32_def max_def split: if_splits)
qed

lemma el_event_fine:
  assumes inv: "el_inv N K s" and room: "el_room N s" and n: "n \<in> {0..<int N}"
    and ev: "el_event c (sent s) (nodes s n) r"
  shows "fine N K (sent s) n (nodes s n) r"
proof (rule event_fine [OF ev])
  show "node_inv N K (sent s) n (nodes s n)" "net_ok N K (sent s)" using inv n by (simp_all add: el_inv_def)
  show "el_persisted (nodes s n) + 2 < two32" using room n by (simp add: el_room_def)
qed (rule el_inv_msgs [OF inv room])

lemma net_ok_Un:
  assumes "net_ok N K net" and "\<forall>msg\<in>out. out_ok N K (net \<union> out) n m msg"
  shows "net_ok N K (net \<union> out)"
proof -
  have "msg_ok N K (net \<union> out) msg" if "msg \<in> net" for msg
  proof -
    have "msg_ok N K net msg" using assms(1) that by (simp add: net_ok_def)
    then show ?thesis by (auto simp: msg_ok_def net_mono split: el_op.splits)
  qed
  then show ?thesis using assms(2) by (auto simp: net_ok_def out_ok_def)
qed

lemma el_inv_step:
  assumes inv: "el_inv N K s" and st: "el_step c N s t"
  shows "el_inv N K t"
  using st
proof cases
  case (1 n m out)
  let ?net = "sent s \<union> out" and ?old = "nodes s n"
  obtain p: "el_persisted ?old \<le> el_persisted m" and ni: "node_inv N K ?net n m"
      and oo: "\<forall>msg\<in>out. out_ok N K ?net n m msg" and jo: "join_ok ?old m"
    using el_event_fine [OF inv 1(3,2,4)] by (auto simp: fine_def)
  have froms: "\<forall>msg\<in>out. m_from msg = n" using oo by (simp add: out_ok_def)
  have others: "node_inv N K ?net k (nodes s k)" if "k \<in> {0..<int N}" "k \<noteq> n" for k
    using that froms by (intro node_inv_net) (use inv in \<open>auto simp: el_inv_def\<close>)
  have mono: "top_epoch (nodes s k) \<le> top_epoch (((nodes s)(n := m)) k)" for k
    using p by (cases "k = n") (simp_all add: max_def)
  have je: "e \<le> el_persisted ?old" if "(n, e, l) \<in> joined s" for e l
    using inv that unfolding el_inv_def by blast
  have le: "el_epoch m \<le> el_persisted m" if "leader_of m = Some l" for l
    using ni that by (simp add: node_inv_def)
  have uniq: "l = l'" if "leader_of m = Some l'" "(n, el_epoch m, l) \<in> joined s" for l l'
  proof -
    have "leader_of ?old = Some l'" "el_epoch ?old = el_epoch m"
      using jo that je by (auto simp: join_ok_def dest: leD)
    then have "(n, el_epoch m, l') \<in> joined s" using inv 1(2) by (fastforce simp: el_inv_def)
    then show ?thesis using inv that(2) unfolding el_inv_def by blast
  qed
  show ?thesis unfolding el_inv_def
  proof (intro conjI)
    show "\<forall>k\<in>{0..<int N}. node_inv N K (sent t) k (nodes t k)" using others ni by (simp add: 1)
    have "net_ok N K (sent s)" using inv by (simp add: el_inv_def)
    from net_ok_Un [OF this oo] show "net_ok N K (sent t)" by (simp add: 1)
    show "\<forall>msg\<in>sent t. m_op msg \<noteq> OP_NAK \<longrightarrow> m_epoch msg \<le> top_epoch (nodes t (m_from msg))"
    proof (intro ballI impI)
      fix msg assume msg: "msg \<in> sent t" "m_op msg \<noteq> OP_NAK"
      show "m_epoch msg \<le> top_epoch (nodes t (m_from msg))"
      proof (cases "msg \<in> out")
        case True
        then show ?thesis using oo msg(2) by (simp add: 1 out_ok_def)
      next
        case False
        then have "m_epoch msg \<le> top_epoch (nodes s (m_from msg))"
          using inv msg by (simp add: el_inv_def 1)
        then show ?thesis using mono [of "m_from msg"] le_trans by (simp add: 1)
      qed
    qed
    show "\<forall>k\<in>{0..<int N}. \<forall>l. leader_of (nodes t k) = Some l \<longrightarrow> (k, el_epoch (nodes t k), l) \<in> joined t"
      using inv by (auto simp: 1 el_inv_def)
    show "\<forall>k e l. (k, e, l) \<in> joined t \<longrightarrow> k \<in> {0..<int N} \<and> e \<le> el_persisted (nodes t k)"
    proof (intro allI impI)
      fix k e l assume "(k, e, l) \<in> joined t"
      then consider "(k, e, l) \<in> joined s" | "k = n" "e = el_epoch m" "leader_of m = Some l"
        by (auto simp: 1)
      then show "k \<in> {0..<int N} \<and> e \<le> el_persisted (nodes t k)"
      proof cases
        case old: 1
        then have "k \<in> {0..<int N} \<and> e \<le> el_persisted (nodes s k)" using inv unfolding el_inv_def by blast
        then show ?thesis using p le_trans by (auto simp: 1)
      qed (use le 1(2) in \<open>simp add: 1\<close>)
    qed
    show "\<forall>k e l l'. (k, e, l) \<in> joined t \<longrightarrow> (k, e, l') \<in> joined t \<longrightarrow> l = l'"
      using inv uniq by (auto simp: 1 el_inv_def)
  qed
qed

interpretation el: invariant_system "el_begin N K" "el_step c N" "el_inv N K" for N K c
proof
  show "el_inv N K s" if "el_begin N K s" for s :: "'a el_sys"
  proof -
    have "node_inv N K {} n (nodes s n)" if n: "n \<in> {0..<int N}" for n
    proof -
      have "node_inv N K {} n (el_boot (nodes s n))"
        using \<open>el_begin N K s\<close> n by (intro boot_node_inv) (auto simp: el_begin_def proposed_def)
      then show ?thesis using \<open>el_begin N K s\<close> n by (simp add: el_begin_def)
    qed
    moreover have "leader_of (nodes s n) = None" if n: "n \<in> {0..<int N}" for n
    proof -
      have "leader_of (el_boot (nodes s n)) = None" by (simp add: el_boot_def)
      then show ?thesis using \<open>el_begin N K s\<close> n by (simp add: el_begin_def)
    qed
    ultimately show ?thesis using \<open>el_begin N K s\<close> by (auto simp: el_inv_def el_begin_def net_ok_def)
  qed
qed (rule el_inv_step)

subsection \<open>Properties\<close>

definition quorum_formed :: "nat \<Rightarrow> 'm el_sys \<Rightarrow> int \<Rightarrow> nat \<Rightarrow> int set \<Rightarrow> bool" where
  "quorum_formed N s l e q \<longleftrightarrow> majority N q \<and> (\<forall>k\<in>q. (k, e, l) \<in> joined s)"

definition el_conf :: "int \<Rightarrow> unit el_config" where
  "el_conf n = \<lparr>c_self = \<lparr>i_cluster_features = 7, i_mon_features = 3, i_mon_release = 15, i_metadata = ()\<rparr>,
     c_required_features = 5, c_required_mon_features = 1, c_min_mon_release = 14\<rparr>"

definition el_fresh :: "nat \<Rightarrow> unit el_sys" where
  "el_fresh N = \<lparr>nodes = (\<lambda>n. \<lparr>el_rank = n, el_psize = N, el_monmap_epoch = 1, el_ever_joined = True,
       el_state = STATE_PROBING, el_quorum = {}, el_persisted = 0, el_epoch = 0, el_leader_acked = -1,
       el_participating = True, el_electing_me = False, el_acked_me = {}, el_peer_info = Map.empty\<rparr>),
     sent = {}, joined = {}\<rparr>"

lemma el_fresh_begin: "el_begin N 1 (el_fresh N)"
  by (simp add: el_begin_def el_fresh_def el_boot_def)

text \<open>A run of two monitors: both call an election, monitor 1 defers to monitor 0, which wins.\<close>

definition el_two_node :: "int \<Rightarrow> unit election" where
  "el_two_node n = (nodes (el_fresh 2) n)\<lparr>el_state := STATE_ELECTING, el_epoch := 1, el_electing_me := True,
     el_acked_me := {n}, el_peer_info := [n \<mapsto> c_self (el_conf n)]\<rparr>"

definition el_two_msg :: "int \<Rightarrow> int \<Rightarrow> nat \<Rightarrow> el_op \<Rightarrow> unit el_msg" where
  "el_two_msg f k e op = \<lparr>m_from = f, m_to = k, m_epoch = e, m_op = op, m_info = c_self (el_conf f),
     m_fsid_ok = True, m_addr_ok = True, m_monmap_epoch = 1, m_monmap_size = 2\<rparr>"

definition el_two_deferred :: "unit election" where
  "el_two_deferred = (el_two_node 1)\<lparr>el_electing_me := False, el_acked_me := {}, el_leader_acked := 0\<rparr>"

definition el_two_leader :: "unit election" where
  "el_two_leader = (el_two_node 0)\<lparr>el_state := STATE_LEADER, el_quorum := {0, 1}, el_epoch := 2, el_persisted := 2,
     el_electing_me := False, el_acked_me := {}, el_peer_info := [0 \<mapsto> c_self (el_conf 0), 1 \<mapsto> c_self (el_conf 1)]\<rparr>"

definition el_two_peon :: "unit election" where
  "el_two_peon = el_two_deferred\<lparr>el_state := STATE_PEON 0, el_quorum := {0, 1}, el_epoch := 2, el_persisted := 2,
     el_leader_acked := -1\<rparr>"

lemmas el_eval = el_two_node_def el_two_msg_def el_two_deferred_def el_two_leader_def el_two_peon_def el_fresh_def
  el_conf_def mk_msg_def Let_def join_election_def bump_epoch_def el_init_def add32_def two32_def

lemma el_two_peers: "{0..<2} - {0} = {1::int}" "{0..<2} - {1} = {0::int}"
  by auto

lemma el_two_call:
  "n = 0 \<or> n = 1 \<Longrightarrow> start_election (el_conf n) (nodes (el_fresh 2) n) =
     Some (el_two_node n, {el_two_msg n (1 - n) 1 OP_PROPOSE})"
  by (auto simp: start_election_def el_start_def propose_to_peers_def el_eval el_two_peers)

lemma el_two_defer:
  "el_dispatch (el_conf 1) (el_two_node 1) (el_two_msg 0 1 1 OP_PROPOSE) =
     Some (el_two_deferred, {el_two_msg 1 0 1 OP_ACK})"
  by (simp add: el_dispatch_def handle_propose_def receive_propose_def el_defer_def lacks_features_def
      contains_all_def el_eval)

lemma el_two_win:
  "el_dispatch (el_conf 0) (el_two_node 0) (el_two_msg 1 0 1 OP_ACK) =
     Some (el_two_leader, {el_two_msg 0 1 2 (OP_VICTORY {0, 1})})"
  by (simp add: el_dispatch_def handle_ack_def receive_ack_def declare_victory_def message_victory_def
      common_info_def lacks_features_def contains_all_def el_eval) auto

lemma el_two_lose:
  "el_dispatch (el_conf 1) el_two_deferred (el_two_msg 0 1 2 (OP_VICTORY {0, 1})) = Some (el_two_peon, {})"
  by (simp add: el_dispatch_def handle_victory_def receive_victory_claim_def el_eval)

text \<open>C17. At most one leader per epoch: when two quorums have formed in the same epoch, every member
  having entered the epoch as leader or as that leader's peon, then they have the same leader. This
  holds for every interleaving of timeouts, restarts, commands and messages, which may be lost,
  delayed, reordered or duplicated.\<close>

theorem election_one_leader:
  assumes "el_begin N K s0" and "(el_step c N)\<^sup>*\<^sup>* s0 s"
    and "quorum_formed N s l e q" and "quorum_formed N s l' e q'"
  shows "l = l'"
proof (rule maj.one_choice)
  show "majority N q" "majority N q'" using assms(3,4) by (simp_all add: quorum_formed_def)
  show "(k, e, l) \<in> joined s" if "k \<in> q" for k using assms(3) that by (simp add: quorum_formed_def)
  show "(k, e, l') \<in> joined s" if "k \<in> q'" for k using assms(4) that by (simp add: quorum_formed_def)
  have "el_inv N K s" using assms(1,2) by (rule el.inv_reachable)
  then show "\<And>k a b. (k, e, a) \<in> joined s \<Longrightarrow> (k, e, b) \<in> joined s \<Longrightarrow> a = b"
    by (auto simp: el_inv_def)
qed

definition el_two_done :: "unit el_sys" where
  "el_two_done = \<lparr>nodes = (nodes (el_fresh 2))(0 := el_two_leader, 1 := el_two_peon),
     sent = {el_two_msg 0 1 1 OP_PROPOSE, el_two_msg 1 0 1 OP_PROPOSE, el_two_msg 1 0 1 OP_ACK,
             el_two_msg 0 1 2 (OP_VICTORY {0, 1})},
     joined = {(0, 2, 0), (1, 2, 0)}\<rparr>"

lemma el_two_step:
  assumes "n = 0 \<or> n = 1" and "el_event (el_conf n) (sent s) (nodes s n) (Some (m, out))"
    and "\<And>k. el_persisted (nodes s k) \<le> 2"
    and "t = s\<lparr>nodes := (nodes s)(n := m), sent := sent s \<union> out,
           joined := joined s \<union> {(n, el_epoch m, l) | l. leader_of m = Some l}\<rparr>"
  shows "el_step el_conf 2 s t"
proof -
  have "el_persisted (nodes s k) + 2 < two32" for k using assms(3) [of k] by (simp add: two32_def)
  then show ?thesis
    unfolding assms(4) using assms(1) by (intro el_step.intros assms(2)) (auto simp: el_room_def)
qed

lemma el_two_run: "(el_step el_conf 2)\<^sup>*\<^sup>* (el_fresh 2) el_two_done"
proof -
  let ?s0 = "el_fresh 2" and ?p0 = "el_two_msg 0 1 1 OP_PROPOSE" and ?p1 = "el_two_msg 1 0 1 OP_PROPOSE"
    and ?a = "el_two_msg 1 0 1 OP_ACK" and ?v = "el_two_msg 0 1 2 (OP_VICTORY {0, 1})"
  let ?s1 = "?s0\<lparr>nodes := (nodes ?s0)(0 := el_two_node 0), sent := {?p0}\<rparr>"
  let ?s2 = "?s1\<lparr>nodes := (nodes ?s0)(0 := el_two_node 0, 1 := el_two_node 1), sent := {?p0, ?p1}\<rparr>"
  let ?s3 = "?s2\<lparr>nodes := (nodes ?s0)(0 := el_two_node 0, 1 := el_two_deferred), sent := {?p0, ?p1, ?a}\<rparr>"
  let ?s4 = "?s3\<lparr>nodes := (nodes ?s0)(0 := el_two_leader, 1 := el_two_deferred), sent := {?p0, ?p1, ?a, ?v},
    joined := {(0, 2, 0)}\<rparr>"
  have st: "el_state (el_two_node n) = STATE_ELECTING" "el_state el_two_deferred = STATE_ELECTING"
      "leader_of el_two_leader = Some 0" "leader_of el_two_peon = Some 0" "el_epoch el_two_leader = 2"
      "el_epoch el_two_peon = 2" "el_rank (el_two_node n) = n" "el_rank el_two_deferred = 1"
      "m_to ?p0 = 1" "m_to ?a = 0" "m_to ?v = 1" "m_op ?p0 = OP_PROPOSE" "m_op ?a = OP_ACK" "m_op ?v = OP_VICTORY {0, 1}" for n
    by (simp_all add: el_eval leader_of_def)
  have small: "el_persisted (el_two_node n) = 0" "el_persisted el_two_deferred = 0" "el_persisted el_two_leader = 2"
      "el_persisted (nodes ?s0 n) = 0" for n
    by (simp_all add: el_eval)
  have "el_step el_conf 2 ?s0 ?s1"
  proof (rule el_two_step [of 0])
    show "el_event (el_conf 0) (sent ?s0) (nodes ?s0 0) (Some (el_two_node 0, {?p0}))"
      using el_event.call [of "el_conf 0" _ "nodes ?s0 0"] el_two_call [of 0] by simp
  qed (use st small in \<open>simp_all add: el_fresh_def\<close>)
  moreover have "el_step el_conf 2 ?s1 ?s2"
  proof (rule el_two_step [of 1])
    show "el_event (el_conf 1) (sent ?s1) (nodes ?s1 1) (Some (el_two_node 1, {?p1}))"
      using el_event.call [of "el_conf 1" _ "nodes ?s0 1"] el_two_call [of 1] by simp
  qed (use st small in \<open>auto simp: el_fresh_def\<close>)
  moreover have "el_step el_conf 2 ?s2 ?s3"
  proof (rule el_two_step [of 1])
    show "el_event (el_conf 1) (sent ?s2) (nodes ?s2 1) (Some (el_two_deferred, {?a}))"
      using el_event.deliver [of ?p0 "sent ?s2" "el_two_node 1" "el_conf 1"] el_two_defer st by simp
  qed (use st small in \<open>auto simp: el_fresh_def\<close>)
  moreover have "el_step el_conf 2 ?s3 ?s4"
  proof (rule el_two_step [of 0])
    show "el_event (el_conf 0) (sent ?s3) (nodes ?s3 0) (Some (el_two_leader, {?v}))"
      using el_event.deliver [of ?a "sent ?s3" "el_two_node 0" "el_conf 0"] el_two_win st by simp
  qed (use st small in \<open>auto simp: el_fresh_def fun_upd_twist\<close>)
  moreover have "el_step el_conf 2 ?s4 el_two_done"
  proof (rule el_two_step [of 1])
    show "el_event (el_conf 1) (sent ?s4) (nodes ?s4 1) (Some (el_two_peon, {}))"
      using el_event.deliver [of ?v "sent ?s4" el_two_deferred "el_conf 1"] el_two_lose st by simp
  qed (use st small in \<open>auto simp: el_fresh_def el_two_done_def\<close>)
  ultimately show ?thesis by (meson r_into_rtranclp rtranclp_trans)
qed

lemma el_two_majority: "majority 2 {0, 1}"
  by (auto simp: majority_def)

theorem election_one_leader_witness:
  "{l. \<exists>q. quorum_formed 2 el_two_done l 2 q} = {0}"
proof -
  have f: "quorum_formed 2 el_two_done 0 2 {0, 1}"
    by (simp add: quorum_formed_def el_two_majority) (simp add: el_two_done_def)
  with election_one_leader [OF el_fresh_begin el_two_run] show ?thesis by blast
qed

text \<open>C18. A victory is announced only by a monitor that a majority of the monitors acked in the
  election epoch just before: every member of the announced quorum sent it an ack there, and all
  of them have a higher rank number.\<close>

theorem election_victory_backed:
  assumes "el_begin N K s0" and "(el_step c N)\<^sup>*\<^sup>* s0 s" and "msg \<in> sent s" and "m_op msg = OP_VICTORY q"
  shows "majority N q \<and> m_from msg \<in> q \<and> even (m_epoch msg) \<and>
    (\<forall>k\<in>q. k \<noteq> m_from msg \<longrightarrow> m_from msg < k \<and>
      (\<exists>a\<in>sent s. m_op a = OP_ACK \<and> m_from a = k \<and> m_to a = m_from msg \<and> m_epoch a = m_epoch msg - 1))"
proof -
  have "el_inv N K s" using assms(1,2) by (rule el.inv_reachable)
  then have net: "net_ok N K (sent s)" by (simp add: el_inv_def)
  then have "msg_ok N K (sent s) msg" using assms(3) by (simp add: net_ok_def)
  then have "majority N q" "m_from msg \<in> q" "even (m_epoch msg)"
      "\<forall>k\<in>q - {m_from msg}. acked (sent s) k (m_from msg) (m_epoch msg - 1)"
    using assms(4) by (simp_all add: msg_ok_def)
  with net_ok_acked [OF net] show ?thesis unfolding acked_def by blast
qed

theorem election_victory_backed_witness:
  "majority 2 {0, 1} \<and> (\<exists>a\<in>sent el_two_done. m_op a = OP_ACK \<and> m_from a = 1 \<and> m_to a = 0 \<and> m_epoch a = 1)"
proof -
  let ?v = "el_two_msg 0 1 2 (OP_VICTORY {0, 1})"
  have v: "?v \<in> sent el_two_done" "m_op ?v = OP_VICTORY {0, 1}" "m_from ?v = 0" "m_epoch ?v = 2"
    by (simp_all add: el_two_done_def el_two_msg_def)
  from election_victory_backed [OF el_fresh_begin el_two_run v(1,2)] v(3,4) show ?thesis by simp
qed

text \<open>C19. No assertion fails: in every reachable state, whichever monitor times out, restarts, is
  told to enter or leave the quorum, calls an election or receives any message sent so far (except
  the NAK that tells it to exit), the handler completes.\<close>

theorem election_never_aborts:
  assumes "el_begin N K s0" and "(el_step c N)\<^sup>*\<^sup>* s0 s" and "el_room N s"
    and "0 \<le> n" and "n < int N" and "el_event (c n) (sent s) (nodes s n) r"
  shows "r \<noteq> None"
proof -
  have inv: "el_inv N K s" using assms(1,2) by (rule el.inv_reachable)
  have "n \<in> {0..<int N}" using assms(4,5) by simp
  from el_event_fine [OF inv assms(3) this assms(6)] show ?thesis by (auto simp: fine_def)
qed

theorem election_never_aborts_witness: "start_election (el_conf 0) (nodes (el_fresh 3) 0) \<noteq> None"
proof (rule election_never_aborts [OF el_fresh_begin rtranclp.rtrancl_refl, where n = 0])
  show "el_event (el_conf 0) (sent (el_fresh 3)) (nodes (el_fresh 3) 0)
      (start_election (el_conf 0) (nodes (el_fresh 3) 0))"
    by (rule el_event.call)
qed (simp_all add: el_room_def el_fresh_def two32_def)

text \<open>A monitor that starts an election ends up, as the interface promises, in a new odd epoch,
  proposing itself to all others, acked by itself alone.\<close>

theorem election_start_post:
  assumes "el_participating m" and "el_persisted m + 2 < two32"
  shows "\<exists>m' out. el_start c m = Some (m', out) \<and> odd (el_epoch m') \<and> el_persisted m < el_epoch m' \<and>
    el_electing_me m' \<and> el_acked_me m' = {el_rank m} \<and> el_leader_acked m' = -1 \<and>
    (\<forall>i\<in>{0..<int (el_psize m)}. i \<noteq> el_rank m \<longrightarrow>
       (\<exists>msg\<in>out. m_op msg = OP_PROPOSE \<and> m_to msg = i \<and> m_from msg = el_rank m \<and> m_epoch msg = el_epoch m'))"
  using el_start_eq [OF assms, of c] start_epoch_odd start_epoch_less
  by (fastforce simp: propose_to_peers_def mk_msg_def)

theorem election_start_post_witness:
  "\<exists>m' out. el_start (el_conf 0) (nodes (el_fresh 3) 0) = Some (m', out) \<and> odd (el_epoch m')"
  using election_start_post [of "nodes (el_fresh 3) 0" "el_conf 0"]
  by (auto simp: el_fresh_def two32_def)

text \<open>C20. The only monitor of a cluster declares itself leader without an election. From a store that
  holds a stable (even) epoch it ends up in an odd one, which the rest of the code and the
  documentation of \<open>epoch\<close> take for an election in progress.\<close>

theorem standalone_victory_parity:
  assumes "el_psize m = 1" and "el_rank m = 0" and "el_persisted m + 2 < two32"
  shows "\<exists>m'. declare_standalone_victory m = Some m' \<and> el_persisted m < el_epoch m' \<and>
    el_persisted m' = el_epoch m' \<and> (odd (el_epoch m') \<longleftrightarrow> 0 < el_persisted m)"
proof -
  let ?p = "el_persisted m"
  consider "?p = 0" | "?p \<noteq> 0" "?p mod 2 = 1" | "?p \<noteq> 0" "?p mod 2 = 0" by fastforce
  then show ?thesis
    using assms
    by cases (auto simp: declare_standalone_victory_def el_init_def bump_epoch_def join_election_def
      add32_eq Let_def even_iff_mod_2_eq_zero)
qed

theorem standalone_victory_parity_witness:
  "\<exists>m'. declare_standalone_victory ((nodes (el_fresh 1) 0)\<lparr>el_persisted := 4\<rparr>) = Some m' \<and> odd (el_epoch m')"
  using standalone_victory_parity [of "(nodes (el_fresh 1) 0)\<lparr>el_persisted := 4\<rparr>"]
  by (auto simp: el_fresh_def two32_def)

end
