(* ===== verification/Encoding.thy ===== *)
theory Encoding
  imports Ceph_Prelude
begin

text \<open>
  The byte encodings the object classes use (\<open>src/include/encoding.h\<close>): little-endian integers,
  length-prefixed buffers and strings, and the versioned frame of \<open>ENCODE_START\<close> and
  \<open>DECODE_START\<close>. A byte is a natural number below 256. A decoder takes the bytes ahead of the
  iterator and returns the value and the bytes left, or \<open>None\<close> where the code throws
  \<open>buffer::error\<close>. The collection \<open>dec_enc\<close> holds the round trips.
\<close>

named_theorems dec_enc \<open>decoding what was encoded\<close>

type_synonym bytes = "nat list"
type_synonym 'a decoder = "bytes \<Rightarrow> ('a \<times> bytes) option"

text \<open>Error numbers of the object class methods; \<open>ABORT\<close> is a failed \<open>ceph_assert\<close>.\<close>

datatype errno = EINVAL | ENOSPC | EEXIST | ENOENT | EBUSY | EPERM | ERANGE | EIO | EFBIG | ENODATA
  | ENAMETOOLONG | ABORT

text \<open>A method either fails with an error number or returns a value.\<close>

type_synonym 'a res = "errno + 'a"

subsection \<open>Integers and buffers\<close>

primrec le_bytes :: "nat \<Rightarrow> nat \<Rightarrow> bytes" where
  "le_bytes 0 n = []"
| "le_bytes (Suc k) n = n mod 256 # le_bytes k (n div 256)"

primrec le_val :: "bytes \<Rightarrow> nat" where
  "le_val [] = 0"
| "le_val (b # bs) = b + 256 * le_val bs"

definition dec_le :: "nat \<Rightarrow> nat decoder" where
  "dec_le k bs = (if length bs < k then None else Some (le_val (take k bs), drop k bs))"

definition enc_bl :: "bytes \<Rightarrow> bytes" where
  "enc_bl b = le_bytes 4 (length b) @ b"

definition dec_bl :: "bytes decoder" where
  "dec_bl bs =
     (case dec_le 4 bs of
        None \<Rightarrow> None
      | Some (n, r) \<Rightarrow> if length r < n then None else Some (take n r, drop n r))"

lemma length_le_bytes [simp]: "length (le_bytes k n) = k"
  by (induction k arbitrary: n) simp_all

lemma le_val_bytes: "le_val (le_bytes k n) = n mod 256 ^ k"
proof (induction k arbitrary: n)
  case (Suc k)
  then show ?case by (simp add: mod_mult2_eq)
qed simp

lemma dec_le_bytes: "n < 256 ^ k \<Longrightarrow> dec_le k (le_bytes k n @ r) = Some (n, r)"
  by (simp add: dec_le_def le_val_bytes)

text \<open>The widths in use, with their bounds kept folded.\<close>

lemma dec_le_1 [dec_enc]: "n < 256 \<Longrightarrow> dec_le 1 (le_bytes 1 n @ r) = Some (n, r)"
  using dec_le_bytes [of n 1 r] by simp

lemma dec_le_2 [dec_enc]: "n < 65536 \<Longrightarrow> dec_le 2 (le_bytes 2 n @ r) = Some (n, r)"
  using dec_le_bytes [of n 2 r] by simp

lemma dec_le_4 [dec_enc]: "n < two32 \<Longrightarrow> dec_le 4 (le_bytes 4 n @ r) = Some (n, r)"
  by (rule dec_le_bytes) (simp add: two32_def)

lemma dec_le_8 [dec_enc]: "n < two64 \<Longrightarrow> dec_le 8 (le_bytes 8 n @ r) = Some (n, r)"
  by (rule dec_le_bytes) (simp add: two64_def)

lemma dec_bl_enc [dec_enc]: "length b < two32 \<Longrightarrow> dec_bl (enc_bl b @ r) = Some (b, r)"
  by (simp add: dec_bl_def enc_bl_def dec_le_4)

lemma length_enc_bl [simp]: "length (enc_bl b) = 4 + length b"
  by (simp add: enc_bl_def)

subsection \<open>Versioned frames\<close>

definition enc_struct :: "nat \<Rightarrow> nat \<Rightarrow> bytes \<Rightarrow> bytes" where
  "enc_struct v cv body = le_bytes 1 v @ le_bytes 1 cv @ le_bytes 4 (length body) @ body"

text \<open>The body's decoder may read past the frame's end, which is found afterwards; what it leaves of
  the frame is skipped.\<close>

definition dec_struct :: "nat \<Rightarrow> 'a decoder \<Rightarrow> 'a decoder" where
  "dec_struct v body bs = do {
     (struct_v, r1) \<leftarrow> dec_le 1 bs;
     (struct_compat, r2) \<leftarrow> dec_le 1 r1;
     ensure (\<not> v < struct_compat);
     (struct_len, r3) \<leftarrow> dec_le 4 r2;
     ensure (\<not> struct_len > length r3);
     (x, r4) \<leftarrow> body r3;
     ensure (\<not> length r3 - length r4 > struct_len);
     Some (x, drop (struct_len - (length r3 - length r4)) r4) }"

lemma length_enc_struct [simp]: "length (enc_struct v c b) = 6 + length b"
  by (simp add: enc_struct_def)

lemma dec_struct_enc:
  assumes "v < 256" and "cv \<le> v'" and "cv < 256" and "length b < two32" and "body (b @ r) = Some (x, r)"
  shows "dec_struct v' body (enc_struct v cv b @ r) = Some (x, r)"
  using assms unfolding dec_struct_def enc_struct_def append_assoc
  by (subst dec_le_1, simp) (simp del: One_nat_def add: dec_le_1 dec_le_4)

lemma dec_struct_enc_all:
  assumes "v < 256" and "cv \<le> v'" and "cv < 256" and "length b < two32" and "body b = Some (x, [])"
  shows "dec_struct v' body (enc_struct v cv b) = Some (x, [])"
  using dec_struct_enc [of v cv v' b body "[]" x] assms by simp

text \<open>Bytes.\<close>

lemma le_bytes_byte: "b \<in> set (le_bytes k n) \<Longrightarrow> b < 256"
  by (induction k arbitrary: n) auto

subsection \<open>Strings, booleans and vectors\<close>

definition enc_str :: "string \<Rightarrow> bytes" where
  "enc_str s = enc_bl (map of_char s)"

definition dec_str :: "string decoder" where
  "dec_str bs = map_option (\<lambda>(b, r). (map char_of b, r)) (dec_bl bs)"

definition enc_bool :: "bool \<Rightarrow> bytes" where
  "enc_bool b = le_bytes 1 (if b then 1 else 0)"

definition dec_bool :: "bool decoder" where
  "dec_bool bs = map_option (\<lambda>(n, r). (n \<noteq> 0, r)) (dec_le 1 bs)"

primrec dec_n :: "nat \<Rightarrow> 'a decoder \<Rightarrow> 'a list decoder" where
  "dec_n 0 d bs = Some ([], bs)"
| "dec_n (Suc k) d bs = do {
     (x, r1) \<leftarrow> d bs;
     (xs, r2) \<leftarrow> dec_n k d r1;
     Some (x # xs, r2) }"

definition enc_list :: "('a \<Rightarrow> bytes) \<Rightarrow> 'a list \<Rightarrow> bytes" where
  "enc_list e xs = le_bytes 4 (length xs) @ concat (map e xs)"

definition dec_list :: "'a decoder \<Rightarrow> 'a list decoder" where
  "dec_list d bs = do { (n, r) \<leftarrow> dec_le 4 bs; dec_n n d r }"

lemma dec_str_enc [dec_enc]: "length s < two32 \<Longrightarrow> dec_str (enc_str s @ r) = Some (s, r)"
  by (simp add: dec_str_def enc_str_def dec_bl_enc comp_def)

lemma dec_str_enc_all: "length s < two32 \<Longrightarrow> dec_str (enc_str s) = Some (s, [])"
  using dec_str_enc [of s "[]"] by simp

lemma length_enc_str [simp]: "length (enc_str s) = 4 + length s"
  by (simp add: enc_str_def)

lemma dec_bool_enc [dec_enc]: "dec_bool (enc_bool b @ r) = Some (b, r)"
  unfolding dec_bool_def enc_bool_def by (subst dec_le_1) (cases b; simp)+

lemma dec_n_enc:
  assumes "\<And>x r. x \<in> set xs \<Longrightarrow> d (e x @ r) = Some (x, r)"
  shows "dec_n (length xs) d (concat (map e xs) @ r) = Some (xs, r)"
  using assms by (induction xs) simp_all

lemma dec_list_enc [dec_enc]:
  assumes "length xs < two32" and "\<And>x r. x \<in> set xs \<Longrightarrow> d (e x @ r) = Some (x, r)"
  shows "dec_list d (enc_list e xs @ r) = Some (xs, r)"
  using assms by (simp add: dec_list_def enc_list_def dec_le_4 dec_n_enc)

end
