(* ===== verification/Obj_Class.thy ===== *)
theory Obj_Class
  imports Encoding
begin

text \<open>
  The object an object class method works on, and the calls it makes
  (\<open>src/osd/objclass.cc\<close>, with the parts of \<open>PrimaryLogPG\<close> they end in). An object that does not
  exist reads as an empty one. A call's offset and length pass through a C++ \<open>int\<close>, which
  \<open>int_arg\<close> writes out; a write past the configured object size fails with \<open>EFBIG\<close>. Which reads
  the disk fails is the environment's choice (\<open>eio\<close>). A method that returns an error has its
  effects dropped by the OSD, so an error carries no object.
\<close>

record hctx =
  content :: bytes
  osd_max_object_size :: nat
  eio :: "nat \<Rightarrow> nat \<Rightarrow> bool"

definition two31 :: nat where
  "two31 = 2 ^ 31"

definition int_arg :: "nat \<Rightarrow> nat" where
  "int_arg n = (let m = n mod two32 in if m < two31 then m else m + two64 - two32)"

text \<open>Bytes of an object: a read returns what there is, a write past the end fills the hole with
  zeros, and zeroing leaves the size alone.\<close>

definition obj_read :: "bytes \<Rightarrow> nat \<Rightarrow> nat \<Rightarrow> bytes" where
  "obj_read obj ofs len = take len (drop ofs obj)"

definition obj_write :: "bytes \<Rightarrow> nat \<Rightarrow> bytes \<Rightarrow> bytes" where
  "obj_write obj ofs b = take ofs (obj @ replicate (ofs - length obj) 0) @ b @ drop (ofs + length b) obj"

definition obj_zero :: "bytes \<Rightarrow> nat \<Rightarrow> nat \<Rightarrow> bytes" where
  "obj_zero obj ofs len = take ofs obj @ replicate (min len (length obj - ofs)) 0 @ drop (ofs + len) obj"

definition check_offset_and_length :: "nat \<Rightarrow> nat \<Rightarrow> nat \<Rightarrow> unit res" where
  "check_offset_and_length ofs len mx =
     (if ofs \<ge> mx \<or> len > mx \<or> add64 ofs len > mx then Inl EFBIG else Inr ())"

definition do_read :: "hctx \<Rightarrow> nat \<Rightarrow> nat \<Rightarrow> bytes res" where
  "do_read hc ofs len =
     (let sz = length (content hc);
          len = (if len = 0 then sz else len);
          trimmed = (if ofs \<ge> sz then 0 else if add64 ofs len > sz then sz - ofs else len)
      in if (ofs \<ge> sz \<or> add64 ofs len > sz) \<and> trimmed = 0 then Inr []
         else if eio hc ofs trimmed then Inl EIO
         else Inr (obj_read (content hc) ofs trimmed))"

definition cls_cxx_read2 :: "hctx \<Rightarrow> nat \<Rightarrow> nat \<Rightarrow> bytes res" where
  "cls_cxx_read2 hc ofs len = do_read hc (int_arg ofs) (int_arg len)"

definition cls_cxx_write2 :: "hctx \<Rightarrow> nat \<Rightarrow> bytes \<Rightarrow> hctx res" where
  "cls_cxx_write2 hc ofs bl =
     (if int_arg (length bl) \<noteq> length bl then Inl EINVAL
      else case check_offset_and_length (int_arg ofs) (int_arg (length bl)) (osd_max_object_size hc) of
        Inl e \<Rightarrow> Inl e
      | Inr _ \<Rightarrow> Inr (hc\<lparr>content := obj_write (content hc) (int_arg ofs) bl\<rparr>))"

definition cls_cxx_write_zero :: "hctx \<Rightarrow> nat \<Rightarrow> nat \<Rightarrow> hctx res" where
  "cls_cxx_write_zero hc ofs len =
     (case check_offset_and_length (int_arg ofs) (int_arg len) (osd_max_object_size hc) of
        Inl e \<Rightarrow> Inl e
      | Inr _ \<Rightarrow> if int_arg len = 0 then Inl ABORT
          else Inr (hc\<lparr>content := obj_zero (content hc) (int_arg ofs) (int_arg len)\<rparr>))"

subsection \<open>Byte-wise view\<close>

definition byte_at :: "bytes \<Rightarrow> nat \<Rightarrow> nat" where
  "byte_at obj i = (if i < length obj then obj ! i else 0)"

lemma length_obj_read [simp]: "length (obj_read obj ofs n) = min n (length obj - ofs)"
  by (simp add: obj_read_def min.commute)

lemma length_obj_write: "length (obj_write obj ofs b) = max (length obj) (ofs + length b)"
  by (auto simp: obj_write_def max_def min_def)

lemma length_obj_zero [simp]: "length (obj_zero obj ofs n) = length obj"
  by (auto simp: obj_zero_def min_def)

lemma byte_at_write:
  "byte_at (obj_write obj ofs b) i = (if ofs \<le> i \<and> i < ofs + length b then b ! (i - ofs) else byte_at obj i)"
proof -
  have "min (length obj) ofs + (ofs - length obj) = ofs" by simp
  then show ?thesis by (auto simp: byte_at_def obj_write_def nth_append length_obj_write)
qed

lemma byte_at_zero:
  "byte_at (obj_zero obj ofs n) i = (if ofs \<le> i \<and> i < ofs + n then 0 else byte_at obj i)"
  by (auto simp: byte_at_def obj_zero_def nth_append)

lemma obj_read_byte_at:
  "ofs + n \<le> length obj \<Longrightarrow> obj_read obj ofs n = map (\<lambda>i. byte_at obj (ofs + i)) [0..<n]"
  by (rule nth_equalityI) (auto simp: obj_read_def byte_at_def)

subsection \<open>Calls within bounds\<close>

lemma two31_less [simp]: "n < two31 \<Longrightarrow> n < two32" "n < two31 \<Longrightarrow> n < two64" "n < two32 \<Longrightarrow> n < two64"
  by (simp_all add: two31_def two32_def two64_def)

lemma int_arg_id [simp]: "n < two31 \<Longrightarrow> int_arg n = n"
  by (simp add: int_arg_def)

lemma two31_sum: "a \<le> two31 \<Longrightarrow> b \<le> two31 \<Longrightarrow> a + b < two64"
  by (simp add: two31_def two64_def)

lemma cls_read_ok:
  assumes "ofs < two31" and "len < two31" and "0 < len" and "\<And>o' n'. \<not> eio hc o' n'"
  shows "cls_cxx_read2 hc ofs len = Inr (obj_read (content hc) ofs len)"
proof -
  have "add64 ofs len = ofs + len" using assms two31_sum [of ofs len] by (simp add: add64_eq)
  with assms show ?thesis
    by (auto simp: cls_cxx_read2_def do_read_def obj_read_def Let_def)
qed

lemma cls_write_ok:
  assumes "ofs + length bl \<le> osd_max_object_size hc" and "ofs < osd_max_object_size hc"
    and "osd_max_object_size hc < two31"
  shows "cls_cxx_write2 hc ofs bl = Inr (hc\<lparr>content := obj_write (content hc) ofs bl\<rparr>)"
  using assms by (simp add: cls_cxx_write2_def check_offset_and_length_def add64_eq)

lemma cls_zero_ok:
  assumes "ofs + n \<le> osd_max_object_size hc" and "0 < n" and "osd_max_object_size hc < two31"
  shows "cls_cxx_write_zero hc ofs n = Inr (hc\<lparr>content := obj_zero (content hc) ofs n\<rparr>)"
  using assms by (simp add: cls_cxx_write_zero_def check_offset_and_length_def add64_eq)

end
