(* ===== verification/Cls_Queue.thy ===== *)
theory Cls_Queue
  imports Obj_Class
begin

text \<open>
  The queue object class (\<open>src/cls/queue\<close>): a bounded ring of entries kept in one RADOS object. The
  first \<open>max_head_size\<close> bytes hold the head, the bytes from there to \<open>queue_size\<close> the ring. A
  marker is an offset with a generation number that counts the times the ring was wrapped. One
  definition per function of \<open>cls_queue_src.cc\<close>, with the loops' bodies as definitions of their
  own, the codecs of \<open>cls_queue_types.h\<close> and \<open>cls_queue_ops.h\<close>, and the methods of
  \<open>cls_queue.cc\<close>.
\<close>

subsection \<open>Types\<close>

record cls_queue_entry =
  data :: bytes
  marker :: string

record cls_queue_marker =
  offset :: nat
  gen :: nat

record cls_queue_head =
  max_head_size :: nat
  front :: cls_queue_marker
  tail :: cls_queue_marker
  queue_size :: nat
  max_urgent_data_size :: nat
  bl_urgent_data :: bytes

definition QUEUE_HEAD_SIZE_1K :: nat where "QUEUE_HEAD_SIZE_1K = 1024"
definition QUEUE_HEAD_START :: nat where "QUEUE_HEAD_START = 0xDEAD"
definition QUEUE_ENTRY_START :: nat where "QUEUE_ENTRY_START = 0xBEEF"

definition empty_head :: cls_queue_head where
  "empty_head = \<lparr>max_head_size = QUEUE_HEAD_SIZE_1K,
     front = \<lparr>offset = QUEUE_HEAD_SIZE_1K, gen = 0\<rparr>, tail = \<lparr>offset = QUEUE_HEAD_SIZE_1K, gen = 0\<rparr>,
     queue_size = 0, max_urgent_data_size = 0, bl_urgent_data = []\<rparr>"

subsection \<open>Markers as text\<close>

fun to_string :: "nat \<Rightarrow> string" where
  "to_string n = (if n < 10 then [char_of (48 + n)] else to_string (n div 10) @ [char_of (48 + n mod 10)])"

declare to_string.simps [simp del]

definition is_digit :: "char \<Rightarrow> bool" where
  "is_digit c \<longleftrightarrow> 48 \<le> (of_char c :: nat) \<and> (of_char c :: nat) \<le> 57"

definition is_space :: "char \<Rightarrow> bool" where
  "is_space c \<longleftrightarrow> (of_char c :: nat) = 32 \<or> (9 \<le> (of_char c :: nat) \<and> (of_char c :: nat) \<le> 13)"

definition dec_val :: "string \<Rightarrow> nat" where
  "dec_val ds = foldl (\<lambda>v c. 10 * v + (of_char c - 48)) 0 ds"

text \<open>\<open>strtoull(str, &end, 10)\<close>: the value, the text at \<open>end\<close>, and whether \<open>errno\<close> is \<open>ERANGE\<close>.\<close>

definition strtoull :: "string \<Rightarrow> nat \<times> string \<times> bool" where
  "strtoull s =
     (let s1 = dropWhile is_space s;
          neg = (s1 \<noteq> [] \<and> hd s1 = CHR ''-'');
          s2 = (if s1 \<noteq> [] \<and> (hd s1 = CHR ''-'' \<or> hd s1 = CHR ''+'') then tl s1 else s1);
          ds = takeWhile is_digit s2
      in if ds = [] then (0, s, False)
         else if dec_val ds \<ge> two64 then (two64 - 1, dropWhile is_digit s2, True)
         else (if neg then sub64 0 (dec_val ds) else dec_val ds, dropWhile is_digit s2, False))"

definition to_str :: "cls_queue_marker \<Rightarrow> string" where
  "to_str m = to_string (gen m) @ ''/'' @ to_string (offset m)"

text \<open>The text ends at its first null character. The fields set before an error stay set.\<close>

definition from_str :: "string \<Rightarrow> cls_queue_marker \<Rightarrow> errno option \<times> cls_queue_marker" where
  "from_str s m =
     (let str = takeWhile (\<lambda>c. c \<noteq> char_of (0::nat)) s;
          (g, rest, err) = strtoull str;
          m = m\<lparr>gen := g\<rparr>
      in if err then (Some ERANGE, m)
         else if length rest = length str \<or> rest = [] \<or> hd rest \<noteq> CHR ''/'' then (Some EINVAL, m)
         else let str = tl rest;
                  (ofs, rest, err) = strtoull str;
                  m = m\<lparr>offset := ofs\<rparr>
              in if err then (Some ERANGE, m)
                 else if length rest = length str \<or> rest \<noteq> [] then (Some EINVAL, m)
                 else (None, m))"

subsection \<open>Encodings\<close>

definition enc_marker :: "cls_queue_marker \<Rightarrow> bytes" where
  "enc_marker m = enc_struct 1 1 (le_bytes 8 (gen m) @ le_bytes 8 (offset m))"

definition dec_marker :: "cls_queue_marker decoder" where
  "dec_marker = dec_struct 1 (\<lambda>bs. do {
     (g, bs) \<leftarrow> dec_le 8 bs;
     (ofs, bs) \<leftarrow> dec_le 8 bs;
     Some (\<lparr>offset = ofs, gen = g\<rparr>, bs) })"

definition enc_head :: "cls_queue_head \<Rightarrow> bytes" where
  "enc_head h = enc_struct 1 1 (le_bytes 8 (max_head_size h) @ enc_marker (front h) @ enc_marker (tail h) @
     le_bytes 8 (queue_size h) @ le_bytes 8 (max_urgent_data_size h) @ enc_bl (bl_urgent_data h))"

definition dec_head :: "cls_queue_head decoder" where
  "dec_head = dec_struct 1 (\<lambda>bs. do {
     (mh, bs) \<leftarrow> dec_le 8 bs;
     (fr, bs) \<leftarrow> dec_marker bs;
     (tl, bs) \<leftarrow> dec_marker bs;
     (qs, bs) \<leftarrow> dec_le 8 bs;
     (mu, bs) \<leftarrow> dec_le 8 bs;
     (ud, bs) \<leftarrow> dec_bl bs;
     Some (\<lparr>max_head_size = mh, front = fr, tail = tl, queue_size = qs, max_urgent_data_size = mu,
            bl_urgent_data = ud\<rparr>, bs) })"

definition enc_entry :: "cls_queue_entry \<Rightarrow> bytes" where
  "enc_entry e = enc_struct 1 1 (enc_bl (data e) @ enc_str (marker e))"

definition dec_entry :: "cls_queue_entry decoder" where
  "dec_entry = dec_struct 1 (\<lambda>bs. do {
     (d, bs) \<leftarrow> dec_bl bs;
     (m, bs) \<leftarrow> dec_str bs;
     Some (\<lparr>data = d, marker = m\<rparr>, bs) })"

record cls_queue_init_op =
  iop_queue_size :: nat
  iop_max_urgent_data_size :: nat
  iop_bl_urgent_data :: bytes

definition enc_init_op :: "cls_queue_init_op \<Rightarrow> bytes" where
  "enc_init_op p = enc_struct 1 1
     (le_bytes 8 (iop_queue_size p) @ le_bytes 8 (iop_max_urgent_data_size p) @ enc_bl (iop_bl_urgent_data p))"

definition dec_init_op :: "cls_queue_init_op decoder" where
  "dec_init_op = dec_struct 1 (\<lambda>bs. do {
     (qs, bs) \<leftarrow> dec_le 8 bs;
     (mu, bs) \<leftarrow> dec_le 8 bs;
     (ud, bs) \<leftarrow> dec_bl bs;
     Some (\<lparr>iop_queue_size = qs, iop_max_urgent_data_size = mu, iop_bl_urgent_data = ud\<rparr>, bs) })"

text \<open>The operation of an enqueue is its vector of buffers, that of a removal its end marker.\<close>

definition enc_enqueue_op :: "bytes list \<Rightarrow> bytes" where
  "enc_enqueue_op v = enc_struct 1 1 (enc_list enc_bl v)"

definition dec_enqueue_op :: "bytes list decoder" where
  "dec_enqueue_op = dec_struct 1 (dec_list dec_bl)"

record cls_queue_list_op =
  lop_max :: nat
  start_marker :: string

definition enc_list_op :: "cls_queue_list_op \<Rightarrow> bytes" where
  "enc_list_op p = enc_struct 1 1 (le_bytes 8 (lop_max p) @ enc_str (start_marker p))"

definition dec_list_op :: "cls_queue_list_op decoder" where
  "dec_list_op = dec_struct 1 (\<lambda>bs. do {
     (mx, bs) \<leftarrow> dec_le 8 bs;
     (sm, bs) \<leftarrow> dec_str bs;
     Some (\<lparr>lop_max = mx, start_marker = sm\<rparr>, bs) })"

record cls_queue_list_ret =
  is_truncated :: bool
  next_marker :: string
  entries :: "cls_queue_entry list"

definition enc_list_ret :: "cls_queue_list_ret \<Rightarrow> bytes" where
  "enc_list_ret p = enc_struct 1 1
     (enc_bool (is_truncated p) @ enc_str (next_marker p) @ enc_list enc_entry (entries p))"

definition dec_list_ret :: "cls_queue_list_ret decoder" where
  "dec_list_ret = dec_struct 1 (\<lambda>bs. do {
     (tr, bs) \<leftarrow> dec_bool bs;
     (nm, bs) \<leftarrow> dec_str bs;
     (es, bs) \<leftarrow> dec_list dec_entry bs;
     Some (\<lparr>is_truncated = tr, next_marker = nm, entries = es\<rparr>, bs) })"

definition enc_remove_op :: "string \<Rightarrow> bytes" where
  "enc_remove_op m = enc_struct 1 1 (enc_str m)"

definition dec_remove_op :: "string decoder" where
  "dec_remove_op = dec_struct 1 dec_str"

definition enc_capacity_ret :: "nat \<Rightarrow> bytes" where
  "enc_capacity_ret n = enc_struct 1 1 (le_bytes 8 n)"

definition dec_capacity_ret :: "nat decoder" where
  "dec_capacity_ret = dec_struct 1 (dec_le 8)"

subsection \<open>The head\<close>

definition head_bytes :: "cls_queue_head \<Rightarrow> bytes" where
  "head_bytes h = le_bytes 2 QUEUE_HEAD_START @ le_bytes 8 (length (enc_head h)) @ enc_head h"

definition queue_write_head :: "hctx \<Rightarrow> cls_queue_head \<Rightarrow> hctx res" where
  "queue_write_head hc h =
     (let bl = head_bytes h
      in if length bl > max_head_size h then Inl EINVAL else cls_cxx_write2 hc 0 bl)"

definition queue_read_head :: "hctx \<Rightarrow> cls_queue_head res" where
  "queue_read_head hc =
     (case cls_cxx_read2 hc 0 1024 of
        Inl e \<Rightarrow> Inl e
      | Inr bl_head \<Rightarrow>
          (case dec_le 2 bl_head of
             None \<Rightarrow> Inl EINVAL
           | Some (queue_head_start, it) \<Rightarrow>
               if queue_head_start \<noteq> QUEUE_HEAD_START then Inl EINVAL
               else (case dec_le 8 it of
                   None \<Rightarrow> Inl EINVAL
                 | Some (encoded_len, it) \<Rightarrow>
                     (case (if encoded_len > 1024 - 10
                            then map_sum (\<lambda>e. e) (\<lambda>remaining. it @ remaining)
                                   (cls_cxx_read2 hc 1024 (encoded_len - (1024 - 10)))
                            else Inr it) of
                        Inl e \<Rightarrow> Inl e
                      | Inr it \<Rightarrow>
                          (case dec_head it of None \<Rightarrow> Inl EINVAL | Some (h, _) \<Rightarrow> Inr h)))))"

definition queue_init :: "hctx \<Rightarrow> cls_queue_init_op \<Rightarrow> hctx res" where
  "queue_init hc op =
     (case queue_read_head hc of
        Inr _ \<Rightarrow> Inl EEXIST
      | Inl e \<Rightarrow>
          if e \<noteq> EINVAL then Inl e
          else let mh = add64 QUEUE_HEAD_SIZE_1K (iop_max_urgent_data_size op)
               in queue_write_head hc (empty_head\<lparr>
                    bl_urgent_data := (if length (iop_bl_urgent_data op) > 0 then iop_bl_urgent_data op else []),
                    max_head_size := mh,
                    queue_size := add64 (iop_queue_size op) mh,
                    max_urgent_data_size := iop_max_urgent_data_size op,
                    tail := \<lparr>offset = mh, gen = 0\<rparr>,
                    front := \<lparr>offset = mh, gen = 0\<rparr>\<rparr>))"

definition queue_get_capacity :: "hctx \<Rightarrow> nat res" where
  "queue_get_capacity hc =
     (case queue_read_head hc of
        Inl e \<Rightarrow> Inl e
      | Inr h \<Rightarrow> Inr (sub64 (queue_size h) (max_head_size h)))"

subsection \<open>Enqueueing\<close>

definition entry_bytes :: "bytes \<Rightarrow> bytes" where
  "entry_bytes bl_data = le_bytes 2 QUEUE_ENTRY_START @ le_bytes 8 (length bl_data) @ bl_data"

definition wrap_marker :: "cls_queue_head \<Rightarrow> cls_queue_marker \<Rightarrow> cls_queue_marker" where
  "wrap_marker h m =
     (if offset m = queue_size h then \<lparr>offset = max_head_size h, gen = add64 (gen m) 1\<rparr> else m)"

definition write_at_tail :: "hctx \<Rightarrow> cls_queue_head \<Rightarrow> bytes \<Rightarrow> (hctx \<times> cls_queue_head) res" where
  "write_at_tail hc h bl =
     (case cls_cxx_write2 hc (offset (tail h)) bl of
        Inl e \<Rightarrow> Inl e
      | Inr hc \<Rightarrow> Inr (hc, h\<lparr>tail := (tail h)\<lparr>offset := add64 (offset (tail h)) (length bl)\<rparr>\<rparr>))"

definition enqueue_one :: "hctx \<Rightarrow> cls_queue_head \<Rightarrow> bytes \<Rightarrow> (hctx \<times> cls_queue_head) res" where
  "enqueue_one hc h bl_data =
     (let bl = entry_bytes bl_data in
      case (if offset (tail h) \<ge> offset (front h) then
              if add64 (offset (tail h)) (length bl) \<le> queue_size h then write_at_tail hc h bl
              else let free_space_available =
                         add64 (sub64 (queue_size h) (offset (tail h))) (sub64 (offset (front h)) (max_head_size h))
                   in if length bl \<le> free_space_available then
                        let size_before_wrap = sub64 (queue_size h) (offset (tail h))
                        in case cls_cxx_write2 hc (offset (tail h)) (take size_before_wrap bl) of
                             Inl e \<Rightarrow> Inl e
                           | Inr hc \<Rightarrow>
                               write_at_tail hc
                                 (h\<lparr>tail := \<lparr>offset = max_head_size h, gen = add64 (gen (tail h)) 1\<rparr>\<rparr>)
                                 (drop size_before_wrap bl)
                      else Inl ENOSPC
            else if add64 (offset (tail h)) (length bl) \<le> offset (front h) then write_at_tail hc h bl
            else Inl ENOSPC) of
        Inl e \<Rightarrow> Inl e
      | Inr (hc, h) \<Rightarrow> Inr (hc, h\<lparr>tail := wrap_marker h (tail h)\<rparr>))"

primrec enqueue_all :: "hctx \<Rightarrow> cls_queue_head \<Rightarrow> bytes list \<Rightarrow> (hctx \<times> cls_queue_head) res" where
  "enqueue_all hc h [] = Inr (hc, h)"
| "enqueue_all hc h (d # ds) =
     (case enqueue_one hc h d of
        Inl e \<Rightarrow> Inl e
      | Inr p \<Rightarrow> enqueue_all (fst p) (snd p) ds)"

definition queue_full :: "cls_queue_head \<Rightarrow> bool" where
  "queue_full h \<longleftrightarrow> offset (front h) = offset (tail h) \<and> gen (tail h) = add64 (gen (front h)) 1"

definition queue_empty :: "cls_queue_head \<Rightarrow> bool" where
  "queue_empty h \<longleftrightarrow> offset (front h) = offset (tail h) \<and> gen (front h) = gen (tail h)"

definition queue_enqueue :: "hctx \<Rightarrow> cls_queue_head \<Rightarrow> bytes list \<Rightarrow> (hctx \<times> cls_queue_head) res" where
  "queue_enqueue hc h bl_data_vec = (if queue_full h then Inl ENOSPC else enqueue_all hc h bl_data_vec)"

subsection \<open>Listing\<close>

text \<open>The variables both loops of \<open>queue_list_entries\<close> share. \<open>bl\<close> is the data left over from one
  chunk to the next.\<close>

record list_state =
  bl :: bytes
  offset_populated :: bool
  entry_start_processed :: bool
  data_size :: nat
  last_marker :: string
  ret_entries :: "cls_queue_entry list"

text \<open>The second half of the inner loop's body: the data of an entry, when \<open>rest\<close> holds all of it.
  The result's flag says that the loop was not left.\<close>

definition list_data ::
  "nat \<Rightarrow> nat \<Rightarrow> bytes \<Rightarrow> string \<Rightarrow> list_state \<Rightarrow> nat \<times> bytes \<times> bool \<times> list_state" where
  "list_data mx index rest mk st =
     (if data_size st \<le> length rest then
        let st' = st\<lparr>ret_entries := ret_entries st @ [\<lparr>data = take (data_size st) rest, marker = mk\<rparr>],
                     offset_populated := False, entry_start_processed := False, data_size := 0,
                     last_marker := []\<rparr>
        in (index + data_size st, drop (data_size st) rest, length (ret_entries st') \<noteq> mx, st')
      else (index, rest, False,
            st\<lparr>bl := rest, offset_populated := True, entry_start_processed := True, last_marker := mk\<rparr>))"

definition list_step ::
  "nat \<Rightarrow> nat \<Rightarrow> nat \<Rightarrow> nat \<Rightarrow> bytes \<Rightarrow> list_state \<Rightarrow> (nat \<times> bytes \<times> bool \<times> list_state) res" where
  "list_step mx entry_start_offset g index rest st =
     (let mk = (if offset_populated st then last_marker st
                else to_str \<lparr>offset = add64 entry_start_offset index, gen = g\<rparr>)
      in if entry_start_processed st then Inr (list_data mx index rest mk st)
         else if length rest \<ge> 10 then
           (case dec_le 2 rest of
              None \<Rightarrow> Inl EINVAL
            | Some (entry_start, rest) \<Rightarrow>
                if entry_start \<noteq> QUEUE_ENTRY_START then Inl EINVAL
                else (case dec_le 8 rest of
                        None \<Rightarrow> Inl EINVAL
                      | Some (n, rest) \<Rightarrow> Inr (list_data mx (index + 10) rest mk (st\<lparr>data_size := n\<rparr>))))
         else Inr (index, rest, False, st\<lparr>bl := rest, offset_populated := True, last_marker := mk\<rparr>))"

definition pending :: "list_state \<Rightarrow> nat" where
  "pending st = (if entry_start_processed st then 1 else 0)"

lemma list_data_less:
  assumes "list_data mx i rest mk st = (i', rest', True, st')"
  shows "length rest' \<le> length rest" and "pending st' = 0"
  using assms by (auto simp: list_data_def Let_def pending_def split: if_splits)

lemma list_step_less:
  assumes "list_step mx eso g i rest st = Inr (i', rest', True, st')"
  shows "length rest' + pending st' < length rest + pending st"
proof (cases "entry_start_processed st")
  case True
  then have "list_data mx i rest (if offset_populated st then last_marker st
      else to_str \<lparr>offset = add64 eso i, gen = g\<rparr>) st = (i', rest', True, st')"
    using assms by (simp add: list_step_def Let_def)
  from list_data_less [OF this] True show ?thesis by (simp add: pending_def)
next
  case False
  then obtain n r2 mk where "list_data mx (i + 10) r2 mk (st\<lparr>data_size := n\<rparr>) = (i', rest', True, st')"
    and "length r2 + 10 = length rest"
    using assms by (auto simp: list_step_def Let_def dec_le_def split: if_splits)
  from list_data_less [OF this(1)] this(2) show ?thesis by simp
qed

function list_inner ::
  "nat \<Rightarrow> nat \<Rightarrow> nat \<Rightarrow> nat \<Rightarrow> bytes \<Rightarrow> list_state \<Rightarrow> (nat \<times> list_state) res" where
  "list_inner mx eso g index rest st =
     (case list_step mx eso g index rest st of
        Inl e \<Rightarrow> Inl e
      | Inr (index', rest', go, st') \<Rightarrow>
          if go \<and> rest' \<noteq> [] then list_inner mx eso g index' rest' st' else Inr (index', st'))"
  by pat_completeness auto
termination
  by (relation "measure (\<lambda>(mx, eso, g, i, rest, st). length rest + pending st)")
    (auto dest: list_step_less)

declare list_inner.simps [simp del]

text \<open>The outer loop returns \<open>next_marker\<close> and \<open>is_truncated\<close> with the loop's variables.\<close>

function list_outer ::
  "hctx \<Rightarrow> cls_queue_head \<Rightarrow> nat \<Rightarrow> nat \<Rightarrow> nat \<Rightarrow> bool \<Rightarrow> nat \<Rightarrow> list_state \<Rightarrow>
   (cls_queue_marker \<times> bool \<times> list_state) res" where
  "list_outer hc h mx start_offset contiguous_data_size wrap_around g st =
     (let size_to_read = (if contiguous_data_size > 1024 then 1024 else contiguous_data_size)
      in if size_to_read = 0 then Inr (tail h, False, st)
         else case cls_cxx_read2 hc start_offset size_to_read of
           Inl e \<Rightarrow> Inl e
         | Inr chunk \<Rightarrow>
             let entry_start_offset = sub64 start_offset (length (bl st))
             in case list_inner mx entry_start_offset g 0 (bl st @ chunk) (st\<lparr>bl := []\<rparr>) of
                  Inl e \<Rightarrow> Inl e
                | Inr (index, st) \<Rightarrow>
                    if length (ret_entries st) = mx
                    then Inr (\<lparr>offset = add64 entry_start_offset index, gen = g\<rparr>, True, st)
                    else if contiguous_data_size - size_to_read = 0 then
                      if wrap_around then
                        if length (ret_entries st) < mx
                        then list_outer hc h mx (max_head_size h) (sub64 (offset (tail h)) (max_head_size h))
                               False (add64 g 1) st
                        else Inr (\<lparr>offset = 0, gen = 0\<rparr>, True, st)
                      else Inr (tail h, False, st)
                    else if length (ret_entries st) < mx
                    then list_outer hc h mx (add64 start_offset size_to_read)
                           (contiguous_data_size - size_to_read) wrap_around g st
                    else Inr (\<lparr>offset = 0, gen = 0\<rparr>, True, st))"
  by pat_completeness auto
termination
  by (relation "measure (\<lambda>(hc, h, mx, so, n, w, g, st).
        n + (if w then 1 + sub64 (offset (tail h)) (max_head_size h) else 0))")
    (auto split: if_splits)

declare list_outer.simps [simp del]

definition list_state0 :: list_state where
  "list_state0 = \<lparr>bl = [], offset_populated = False, entry_start_processed = False, data_size = 0,
     last_marker = [], ret_entries = []\<rparr>"

text \<open>The contiguous data from the start offset on, and whether the listing goes on at the start of
  the ring.\<close>

definition list_extent :: "cls_queue_head \<Rightarrow> nat \<Rightarrow> nat \<times> bool" where
  "list_extent h start_offset =
     (if offset (tail h) > offset (front h) then (sub64 (offset (tail h)) start_offset, False)
      else if start_offset \<ge> offset (front h) then (sub64 (queue_size h) start_offset, True)
      else if start_offset \<le> offset (tail h) then (sub64 (offset (tail h)) start_offset, False)
      else (0, False))"

definition queue_list_entries :: "hctx \<Rightarrow> cls_queue_list_op \<Rightarrow> cls_queue_head \<Rightarrow> cls_queue_list_ret res" where
  "queue_list_entries hc op h =
     (if queue_empty h
      then Inr \<lparr>is_truncated = False, next_marker = to_str (front h), entries = []\<rparr>
      else
        let start = snd (from_str (start_marker op) \<lparr>offset = 0, gen = 0\<rparr>);
            (start_offset, g) = (if offset start = 0 then (offset (front h), gen (front h))
                                 else (offset start, gen start));
            (n, wrap_around) = list_extent h start_offset
        in case list_outer hc h (lop_max op) start_offset n wrap_around g list_state0 of
             Inl e \<Rightarrow> Inl e
           | Inr (nm, tr, st) \<Rightarrow>
               let nm = wrap_marker h nm
               in Inr \<lparr>is_truncated = (if offset nm = offset (tail h) \<and> gen nm = gen (tail h) then False else tr),
                       next_marker = to_str nm, entries = ret_entries st\<rparr>)"

subsection \<open>Removal\<close>

definition zero_range :: "hctx \<Rightarrow> nat \<Rightarrow> nat \<Rightarrow> hctx res" where
  "zero_range hc ofs len = (if len > 0 then cls_cxx_write_zero hc ofs len else Inr hc)"

definition queue_remove_entries :: "hctx \<Rightarrow> string \<Rightarrow> cls_queue_head \<Rightarrow> (hctx \<times> cls_queue_head) res" where
  "queue_remove_entries hc end_str h =
     (if queue_empty h then Inr (hc, h)
      else
        let end_marker = snd (from_str end_str \<lparr>offset = 0, gen = 0\<rparr>)
        in case (if offset end_marker > offset (front h) \<and> gen end_marker = gen (front h)
                 then zero_range hc (offset (front h)) (sub64 (offset end_marker) (offset (front h)))
                 else if offset (front h) \<ge> offset end_marker \<and> gen end_marker = add64 (gen (front h)) 1
                 then case zero_range hc (offset (front h)) (sub64 (queue_size h) (offset (front h))) of
                        Inl e \<Rightarrow> Inl e
                      | Inr hc \<Rightarrow> zero_range hc (max_head_size h) (sub64 (offset end_marker) (max_head_size h))
                 else if offset (front h) = offset end_marker \<and> gen (front h) = gen end_marker then Inr hc
                 else Inl EINVAL) of
             Inl e \<Rightarrow> Inl e
           | Inr hc \<Rightarrow> Inr (hc, h\<lparr>front := wrap_marker h end_marker\<rparr>))"

subsection \<open>Methods\<close>

definition cls_queue_init :: "hctx \<Rightarrow> bytes \<Rightarrow> hctx res" where
  "cls_queue_init hc inp =
     (case dec_init_op inp of None \<Rightarrow> Inl EINVAL | Some (op, _) \<Rightarrow> queue_init hc op)"

definition cls_queue_get_capacity :: "hctx \<Rightarrow> bytes res" where
  "cls_queue_get_capacity hc =
     (case queue_get_capacity hc of Inl e \<Rightarrow> Inl e | Inr n \<Rightarrow> Inr (enc_capacity_ret n))"

definition cls_queue_enqueue :: "hctx \<Rightarrow> bytes \<Rightarrow> hctx res" where
  "cls_queue_enqueue hc inp =
     (case dec_enqueue_op inp of
        None \<Rightarrow> Inl EINVAL
      | Some (op, _) \<Rightarrow>
          (case queue_read_head hc of
             Inl e \<Rightarrow> Inl e
           | Inr h \<Rightarrow>
               (case queue_enqueue hc h op of
                  Inl e \<Rightarrow> Inl e
                | Inr (hc, h) \<Rightarrow> queue_write_head hc h)))"

definition cls_queue_list_entries :: "hctx \<Rightarrow> bytes \<Rightarrow> bytes res" where
  "cls_queue_list_entries hc inp =
     (case dec_list_op inp of
        None \<Rightarrow> Inl EINVAL
      | Some (op, _) \<Rightarrow>
          (case queue_read_head hc of
             Inl e \<Rightarrow> Inl e
           | Inr h \<Rightarrow>
               (case queue_list_entries hc op h of
                  Inl e \<Rightarrow> Inl e
                | Inr op_ret \<Rightarrow> Inr (enc_list_ret op_ret))))"

definition cls_queue_remove_entries :: "hctx \<Rightarrow> bytes \<Rightarrow> hctx res" where
  "cls_queue_remove_entries hc inp =
     (case dec_remove_op inp of
        None \<Rightarrow> Inl EINVAL
      | Some (op, _) \<Rightarrow>
          (case queue_read_head hc of
             Inl e \<Rightarrow> Inl e
           | Inr h \<Rightarrow>
               (case queue_remove_entries hc op h of
                  Inl e \<Rightarrow> Inl e
                | Inr (hc, h) \<Rightarrow> queue_write_head hc h)))"

subsection \<open>The client's calls\<close>

text \<open>\<open>cls_queue_client.cc\<close>: the arguments are encoded, the method runs on the object, and its reply
  is decoded.\<close>

definition client_init :: "hctx \<Rightarrow> nat \<Rightarrow> hctx res" where
  "client_init hc sz = cls_queue_init hc (enc_init_op
     \<lparr>iop_queue_size = sz, iop_max_urgent_data_size = 0, iop_bl_urgent_data = []\<rparr>)"

definition client_get_capacity :: "hctx \<Rightarrow> nat res" where
  "client_get_capacity hc =
     (case cls_queue_get_capacity hc of
        Inl e \<Rightarrow> Inl e
      | Inr out \<Rightarrow> (case dec_capacity_ret out of None \<Rightarrow> Inl EIO | Some (n, _) \<Rightarrow> Inr n))"

definition client_enqueue :: "hctx \<Rightarrow> bytes list \<Rightarrow> hctx res" where
  "client_enqueue hc bl_data_vec = cls_queue_enqueue hc (enc_enqueue_op bl_data_vec)"

definition client_list_entries :: "hctx \<Rightarrow> string \<Rightarrow> nat \<Rightarrow> (cls_queue_entry list \<times> bool \<times> string) res" where
  "client_list_entries hc mk mx =
     (case cls_queue_list_entries hc (enc_list_op \<lparr>lop_max = mx, start_marker = mk\<rparr>) of
        Inl e \<Rightarrow> Inl e
      | Inr out \<Rightarrow>
          (case dec_list_ret out of
             None \<Rightarrow> Inl EIO
           | Some (r, _) \<Rightarrow> Inr (entries r, is_truncated r, next_marker r)))"

definition client_remove_entries :: "hctx \<Rightarrow> string \<Rightarrow> hctx res" where
  "client_remove_entries hc end_marker = cls_queue_remove_entries hc (enc_remove_op end_marker)"

end
