(* ===== verification/Cls_Queue_Correct.thy ===== *)
theory Cls_Queue_Correct
  imports Cls_Queue
begin

text \<open>
  The queue object class is a bounded FIFO queue. A marker names a position of an unbounded stream of
  bytes, of which the ring holds the last \<open>queue_size - max_head_size\<close> (\<open>pos\<close>, \<open>marker_at\<close>, \<open>ring\<close>);
  \<open>queue_rep\<close> says that the bytes between the front and the tail are the entries of a list. The
  operations are then list operations: enqueueing appends, listing reads a prefix, removal drops one.
  First the round trips of markers and heads.
\<close>

subsection \<open>Markers as text\<close>

lemma dec_val_snoc [simp]: "dec_val (ds @ [c]) = 10 * dec_val ds + (of_char c - 48)"
  by (simp add: dec_val_def)

lemma dec_val_Nil [simp]: "dec_val [] = 0"
  by (simp add: dec_val_def)

lemma of_char_digit [simp]: "n < 10 \<Longrightarrow> of_char (char_of (48 + n)) = (48 + n :: nat)"
  by simp

lemma to_string_digits: "c \<in> set (to_string n) \<Longrightarrow> is_digit c"
proof (induction n rule: to_string.induct)
  case (1 n)
  show ?case
  proof (cases "n < 10")
    case True
    then have "c = char_of (48 + n)" using 1(2) by (simp add: to_string.simps [of n])
    with True show ?thesis by (simp add: is_digit_def)
  next
    case False
    then have "c \<in> set (to_string (n div 10)) \<or> c = char_of (48 + n mod 10)"
      using 1(2) by (auto simp add: to_string.simps [of n])
    with 1(1) [OF False] show ?thesis by (auto simp: is_digit_def)
  qed
qed

lemma to_string_not_Nil [simp]: "to_string n \<noteq> []"
  by (simp add: to_string.simps [of n])

lemma dec_val_to_string [simp]: "dec_val (to_string n) = n"
proof (induction n rule: to_string.induct)
  case (1 n)
  show ?case
  proof (cases "n < 10")
    case True
    then show ?thesis using dec_val_snoc [of "[]"] by (simp add: to_string.simps [of n])
  next
    case False
    then show ?thesis using 1 by (simp add: to_string.simps [of n])
  qed
qed

lemma digit_facts:
  assumes "is_digit c"
  shows "\<not> is_space c" and "c \<noteq> CHR ''-''" and "c \<noteq> CHR ''+''" and "c \<noteq> CHR ''/''"
    and "c \<noteq> char_of (0::nat)"
  using assms by (auto simp: is_digit_def is_space_def)

lemma slash_not_nul: "CHR ''/'' \<noteq> char_of (0::nat)"
proof
  assume "CHR ''/'' = char_of (0::nat)"
  then have "(of_char (CHR ''/'') :: nat) = of_char (char_of (0::nat))" by simp
  then show False by simp
qed

lemma strtoull_to_string:
  assumes "n < two64" and "r = [] \<or> \<not> is_digit (hd r)"
  shows "strtoull (to_string n @ r) = (n, r, False)"
proof -
  have all: "\<And>c. c \<in> set (to_string n) \<Longrightarrow> is_digit c" by (rule to_string_digits)
  obtain c cs where t: "to_string n = c # cs" using to_string_not_Nil by (meson neq_Nil_conv)
  have c: "is_digit c" using all t by simp
  have "takeWhile is_digit (to_string n @ r) = to_string n"
    using assms(2) all by (cases r) (auto simp: takeWhile_append)
  moreover have "dropWhile is_digit (to_string n @ r) = r"
    using assms(2) all by (cases r) (auto simp: dropWhile_append)
  moreover have "dropWhile is_space (to_string n @ r) = to_string n @ r"
    using t digit_facts(1) [OF c] by simp
  moreover have "hd (to_string n @ r) \<noteq> CHR ''-''" "hd (to_string n @ r) \<noteq> CHR ''+''"
    using t digit_facts [OF c] by simp_all
  ultimately show ?thesis using assms(1) by (simp add: strtoull_def Let_def)
qed

lemma from_to_str:
  assumes "offset m < two64" and "gen m < two64"
  shows "from_str (to_str m) m0 = (None, m)"
proof -
  let ?r = "CHR ''/'' # to_string (offset m)"
  have "\<forall>c\<in>set (to_str m). c \<noteq> char_of (0::nat)"
    by (auto simp: to_str_def slash_not_nul dest!: to_string_digits digit_facts(5))
  then have nul: "takeWhile (\<lambda>c. c \<noteq> char_of (0::nat)) (to_str m) = to_string (gen m) @ ?r"
    by (subst takeWhile_eq_all_conv [THEN iffD2]) (simp_all add: to_str_def)
  have "strtoull (to_string (gen m) @ ?r) = (gen m, ?r, False)"
    using assms(2) by (intro strtoull_to_string) (simp_all add: is_digit_def)
  moreover have "strtoull (to_string (offset m)) = (offset m, [], False)"
    using strtoull_to_string [of "offset m" "[]"] assms(1) by simp
  moreover have "m0\<lparr>gen := gen m, offset := offset m\<rparr> = m" by (cases m; cases m0) simp
  ultimately show ?thesis unfolding from_str_def nul by (simp add: Let_def)
qed

lemma from_str_empty [simp]: "from_str [] m = (Some EINVAL, m\<lparr>gen := 0\<rparr>)"
  by (simp add: from_str_def strtoull_def Let_def)

subsection \<open>The head\<close>

definition marker_fits :: "cls_queue_marker \<Rightarrow> bool" where
  "marker_fits m \<longleftrightarrow> offset m < two64 \<and> gen m < two64"

definition head_fits :: "cls_queue_head \<Rightarrow> bool" where
  "head_fits h \<longleftrightarrow> max_head_size h < two31 \<and> marker_fits (front h) \<and> marker_fits (tail h) \<and>
     queue_size h < two64 \<and> max_urgent_data_size h < two64 \<and> length (head_bytes h) \<le> max_head_size h"

lemma length_enc_marker [simp]: "length (enc_marker m) = 22"
  by (simp add: enc_marker_def)

lemma length_enc_head [simp]: "length (enc_head h) = 78 + length (bl_urgent_data h)"
  by (simp add: enc_head_def)

lemma length_head_bytes [simp]: "length (head_bytes h) = 88 + length (bl_urgent_data h)"
  by (simp add: head_bytes_def)

lemma two32_big: "n \<le> 256 \<Longrightarrow> n < two32"
  by (simp add: two32_def)

lemma dec_marker_enc [dec_enc]: "marker_fits m \<Longrightarrow> dec_marker (enc_marker m @ r) = Some (m, r)"
  unfolding dec_marker_def enc_marker_def
  by (rule dec_struct_enc) (simp_all add: dec_le_8 marker_fits_def two32_big)

lemma dec_head_enc: "head_fits h \<Longrightarrow> dec_head (enc_head h @ r) = Some (h, r)"
  unfolding dec_head_def enc_head_def
proof (rule dec_struct_enc)
  assume fits: "head_fits h"
  then have ud: "length (bl_urgent_data h) + 88 < two31" by (simp add: head_fits_def)
  then show "length (le_bytes 8 (max_head_size h) @ enc_marker (front h) @ enc_marker (tail h) @
     le_bytes 8 (queue_size h) @ le_bytes 8 (max_urgent_data_size h) @ enc_bl (bl_urgent_data h)) < two32"
    by (simp add: two31_less)
  have "max_head_size h < two64" using fits by (simp add: head_fits_def)
  with fits ud show "do {
     (mh, bs) \<leftarrow> dec_le 8 ((le_bytes 8 (max_head_size h) @ enc_marker (front h) @ enc_marker (tail h) @
       le_bytes 8 (queue_size h) @ le_bytes 8 (max_urgent_data_size h) @ enc_bl (bl_urgent_data h)) @ r);
     (fr, bs) \<leftarrow> dec_marker bs;
     (tl, bs) \<leftarrow> dec_marker bs;
     (qs, bs) \<leftarrow> dec_le 8 bs;
     (mu, bs) \<leftarrow> dec_le 8 bs;
     (ud, bs) \<leftarrow> dec_bl bs;
     Some (\<lparr>max_head_size = mh, front = fr, tail = tl, queue_size = qs, max_urgent_data_size = mu,
            bl_urgent_data = ud\<rparr>, bs) } = Some (h, r)"
    by (simp add: dec_enc head_fits_def)
qed simp_all

definition head_stored :: "hctx \<Rightarrow> cls_queue_head \<Rightarrow> bool" where
  "head_stored hc h \<longleftrightarrow> head_fits h \<and> take (length (head_bytes h)) (content hc) = head_bytes h"

definition medium_ok :: "hctx \<Rightarrow> bool" where
  "medium_ok hc \<longleftrightarrow> (\<forall>ofs n. \<not> eio hc ofs n)"

lemma read_head_stored:
  assumes "head_stored hc h" and "medium_ok hc"
  shows "queue_read_head hc = Inr h"
proof -
  let ?e = "enc_head h"
  have fits: "head_fits h" using assms by (simp add: head_stored_def)
  then have len: "length ?e + 10 < two31" by (simp add: head_fits_def)
  obtain r where c: "content hc = head_bytes h @ r"
    using assms(1) unfolding head_stored_def by (metis append_take_drop_id)
  have rd: "cls_cxx_read2 hc ofs n = Inr (obj_read (content hc) ofs n)"
    if "ofs < two31" "n < two31" "0 < n" for ofs n
    using cls_read_ok [OF that] assms(2) by (simp add: medium_ok_def)
  define t where "t = take 1014 (?e @ r)"
  have "obj_read (content hc) 0 1024 = le_bytes 2 QUEUE_HEAD_START @ le_bytes 8 (length ?e) @ t"
    by (simp add: obj_read_def c head_bytes_def t_def)
  moreover have "cls_cxx_read2 hc 0 1024 = Inr (obj_read (content hc) 0 1024)"
    by (rule rd) (simp_all add: two31_def)
  moreover have "length ?e < two64" using len by (simp add: two31_less)
  moreover have "(if length ?e > 1014 then map_sum (\<lambda>e. e) ((@) t)
       (cls_cxx_read2 hc 1024 (length ?e - 1014)) else Inr t) =
       Inr (?e @ (if length ?e > 1014 then [] else take (1014 - length ?e) r))"
  proof (cases "length ?e > 1014")
    case True
    have "drop 1024 (content hc) = drop 1014 (?e @ r)" by (simp add: c head_bytes_def)
    then have "obj_read (content hc) 1024 (length ?e - 1014) = drop 1014 ?e"
      using True by (simp add: obj_read_def)
    moreover have "cls_cxx_read2 hc 1024 (length ?e - 1014) =
        Inr (obj_read (content hc) 1024 (length ?e - 1014))"
      using True len by (intro rd) (simp_all add: two31_def)
    moreover have "take 1014 ?e @ drop 1014 ?e = ?e" by (rule append_take_drop_id)
    ultimately show ?thesis using True by (simp add: t_def del: length_enc_head)
  qed (simp add: t_def)
  moreover have ten: "1024 - 10 = (1014::nat)" by simp
  ultimately show ?thesis
    unfolding queue_read_head_def ten
    by (simp add: dec_le_2 dec_le_8 QUEUE_HEAD_START_def dec_head_enc [OF fits] del: length_enc_head
        split del: if_split)
qed

lemma write_head_ok:
  assumes "head_fits h" and "max_head_size h < osd_max_object_size hc" and "osd_max_object_size hc < two31"
  shows "queue_write_head hc h = Inr (hc\<lparr>content := obj_write (content hc) 0 (head_bytes h)\<rparr>)"
proof -
  have "length (head_bytes h) \<le> max_head_size h" using assms(1) by (simp add: head_fits_def)
  then show ?thesis using assms
    by (simp add: queue_write_head_def Let_def cls_write_ok del: length_head_bytes)
qed

lemma head_stored_write:
  "head_fits h \<Longrightarrow> head_stored (hc\<lparr>content := obj_write (content hc) 0 (head_bytes h)\<rparr>) h"
  by (simp add: head_stored_def obj_write_def)

subsection \<open>Positions and the ring\<close>

definition cap :: "cls_queue_head \<Rightarrow> nat" where
  "cap h = queue_size h - max_head_size h"

definition pos :: "cls_queue_head \<Rightarrow> cls_queue_marker \<Rightarrow> nat" where
  "pos h m = gen m * cap h + (offset m - max_head_size h)"

definition marker_at :: "cls_queue_head \<Rightarrow> nat \<Rightarrow> cls_queue_marker" where
  "marker_at h p = \<lparr>offset = max_head_size h + p mod cap h, gen = p div cap h\<rparr>"

definition marker_ok :: "cls_queue_head \<Rightarrow> cls_queue_marker \<Rightarrow> bool" where
  "marker_ok h m \<longleftrightarrow> max_head_size h \<le> offset m \<and> offset m < queue_size h \<and> gen m < two64"

lemma marker_ok_cap:
  assumes "marker_ok h m"
  shows "0 < cap h" and "queue_size h = max_head_size h + cap h"
  using assms by (auto simp: marker_ok_def cap_def)

definition ring :: "bytes \<Rightarrow> nat \<Rightarrow> nat \<Rightarrow> nat \<Rightarrow> nat \<Rightarrow> bytes" where
  "ring obj H C p n = map (\<lambda>i. byte_at obj (H + (p + i) mod C)) [0..<n]"

lemma length_ring [simp]: "length (ring obj H C p n) = n"
  by (simp add: ring_def)

lemma ring_nth: "i < n \<Longrightarrow> ring obj H C p n ! i = byte_at obj (H + (p + i) mod C)"
  by (simp add: ring_def)

lemma ring_append: "ring obj H C p (m + n) = ring obj H C p m @ ring obj H C (p + m) n"
  by (rule nth_equalityI) (auto simp: ring_nth nth_append)

lemma ring_0 [simp]: "ring obj H C p 0 = []"
  by (simp add: ring_def)

lemma pos_div_mod:
  assumes "marker_ok h m"
  shows "pos h m div cap h = gen m" and "pos h m mod cap h = offset m - max_head_size h"
proof -
  obtain d where "offset m = max_head_size h + d" and "d < cap h"
    using assms by (auto simp: marker_ok_def le_iff_add cap_def)
  then show "pos h m div cap h = gen m" "pos h m mod cap h = offset m - max_head_size h"
    by (simp_all add: pos_def)
qed

lemma marker_at_pos: "marker_ok h m \<Longrightarrow> marker_at h (pos h m) = m"
  using pos_div_mod [of h m] by (simp add: marker_at_def marker_ok_def)

lemma pos_marker_at: "pos h (marker_at h p) = p"
  by (simp add: pos_def marker_at_def div_mult_mod_eq)

lemma ring_read:
  assumes "p mod C + n \<le> C" and "H + p mod C + n \<le> length obj"
  shows "obj_read obj (H + p mod C) n = ring obj H C p n"
proof -
  have "(p + i) mod C = p mod C + i" if "i < n" for i
    using that assms(1) mod_add_left_eq [of p C i] by simp
  then have "map (\<lambda>i. byte_at obj (H + p mod C + i)) [0..<n] = ring obj H C p n"
    by (simp add: ring_def add.assoc)
  with obj_read_byte_at [OF assms(2)] show ?thesis by simp
qed

text \<open>A change of the bytes at positions \<open>a\<close> to \<open>a + n\<close> leaves a part of the ring that does not
  meet them.\<close>

lemma ring_miss:
  assumes same: "\<And>i. \<not> (H + a mod C \<le> i \<and> i < H + a mod C + n) \<Longrightarrow> byte_at obj' i = byte_at obj i"
    and fit: "a mod C + n \<le> C" and before: "p + m \<le> a" and after: "a + n \<le> p + C"
  shows "ring obj' H C p m = ring obj H C p m"
proof (rule nth_equalityI)
  fix i assume "i < length (ring obj' H C p m)"
  then have i: "i < m" by simp
  have "\<not> (a mod C \<le> (p + i) mod C \<and> (p + i) mod C < a mod C + n)"
  proof
    assume in_range: "a mod C \<le> (p + i) mod C \<and> (p + i) mod C < a mod C + n"
    define j where "j = (p + i) mod C - a mod C"
    have j: "j < n" and "(p + i) mod C = a mod C + j" using in_range by (auto simp: j_def)
    moreover have "a mod C + j < C" using j fit by simp
    ultimately have "(a + j) mod C = (p + i) mod C"
      using mod_add_left_eq [of a C j] by simp
    moreover have "p + i \<le> a + j" using i before by simp
    ultimately have "C dvd (a + j) - (p + i)" by (simp add: mod_eq_dvd_iff_nat)
    moreover have "0 < (a + j) - (p + i)" "(a + j) - (p + i) < C" using i j before after by linarith+
    ultimately show False by (simp add: nat_dvd_not_less)
  qed
  then have "byte_at obj' (H + (p + i) mod C) = byte_at obj (H + (p + i) mod C)"
    by (intro same) linarith
  with i show "ring obj' H C p m ! i = ring obj H C p m ! i" by (simp add: ring_nth)
qed simp

lemma ring_extend:
  assumes "p \<le> t" and "t + length b \<le> p + C" and "t mod C + length b \<le> C"
  shows "ring (obj_write obj (H + t mod C) b) H C p (t + length b - p) = ring obj H C p (t - p) @ b"
proof -
  let ?obj = "obj_write obj (H + t mod C) b"
  have "ring ?obj H C p (t - p + length b) = ring ?obj H C p (t - p) @ ring ?obj H C t (length b)"
    using ring_append [of ?obj H C p "t - p" "length b"] assms(1) by simp
  moreover have "ring ?obj H C p (t - p) = ring obj H C p (t - p)"
    using assms by (intro ring_miss [where a = t and n = "length b"]) (auto simp: byte_at_write)
  moreover have "ring ?obj H C t (length b) = b"
  proof (rule nth_equalityI)
    fix i assume "i < length (ring ?obj H C t (length b))"
    then have "i < length b" by simp
    moreover then have "(t + i) mod C = t mod C + i"
      using assms(3) mod_add_left_eq [of t C i] by simp
    ultimately show "ring ?obj H C t (length b) ! i = b ! i" by (simp add: ring_nth byte_at_write)
  qed simp
  moreover have "t + length b - p = t - p + length b" using assms(1) by simp
  ultimately show ?thesis by simp
qed

lemma ring_zeroed:
  assumes "a mod C + n \<le> C" and "a + n \<le> p" and "p + m \<le> a + C"
  shows "ring (obj_zero obj (H + a mod C) n) H C p m = ring obj H C p m"
proof (rule ring_miss [where a = "a + C" and n = n])
  show "byte_at (obj_zero obj (H + a mod C) n) i = byte_at obj i"
    if "\<not> (H + (a + C) mod C \<le> i \<and> i < H + (a + C) mod C + n)" for i
    using that by (auto simp: byte_at_zero)
qed (use assms in auto)

subsection \<open>What a queue holds\<close>

text \<open>The bytes between front and tail. Once something was written, the object is long enough to
  be read up to the tail, or to the end of the ring when the tail has wrapped.\<close>

definition ring_rep :: "hctx \<Rightarrow> cls_queue_head \<Rightarrow> bytes \<Rightarrow> bool" where
  "ring_rep hc h X \<longleftrightarrow>
     marker_ok h (front h) \<and> marker_ok h (tail h) \<and>
     queue_size h \<le> osd_max_object_size hc \<and> osd_max_object_size hc < two31 \<and>
     pos h (tail h) = pos h (front h) + length X \<and> length X \<le> cap h \<and>
     (0 < pos h (tail h) \<longrightarrow> max_head_size h + min (pos h (tail h)) (cap h) \<le> length (content hc)) \<and>
     ring (content hc) (max_head_size h) (cap h) (pos h (front h)) (length X) = X"

definition stream :: "bytes list \<Rightarrow> bytes" where
  "stream ds = concat (map entry_bytes ds)"

definition queue_rep :: "hctx \<Rightarrow> cls_queue_head \<Rightarrow> bytes list \<Rightarrow> bool" where
  "queue_rep hc h ds \<longleftrightarrow> ring_rep hc h (stream ds)"

lemma length_entry_bytes [simp]: "length (entry_bytes d) = 10 + length d"
  by (simp add: entry_bytes_def)

lemma stream_Nil [simp]: "stream [] = []"
  by (simp add: stream_def)

lemma stream_Cons [simp]: "stream (d # ds) = entry_bytes d @ stream ds"
  by (simp add: stream_def)

lemma stream_append [simp]: "stream (ds @ es) = stream ds @ stream es"
  by (simp add: stream_def)

lemma stream_eq_Nil [simp]: "stream ds = [] \<longleftrightarrow> ds = []"
proof (cases ds)
  case (Cons d es)
  then have "length (stream ds) \<noteq> 0" by simp
  with Cons show ?thesis by (metis length_0_conv list.distinct(1))
qed simp

lemma ring_rep_bounds:
  assumes "ring_rep hc h X"
  shows "max_head_size h \<le> offset (front h)" "offset (front h) < max_head_size h + cap h"
    "max_head_size h \<le> offset (tail h)" "offset (tail h) < max_head_size h + cap h"
    "queue_size h = max_head_size h + cap h" "0 < cap h" "gen (front h) < two64" "gen (tail h) < two64"
    "max_head_size h + cap h < two31" "length X \<le> cap h"
proof -
  have okf: "marker_ok h (front h)" and okt: "marker_ok h (tail h)" and "queue_size h < two31"
    using assms by (auto simp: ring_rep_def)
  with marker_ok_cap [OF okf]
  show "max_head_size h \<le> offset (front h)" "offset (front h) < max_head_size h + cap h"
    "max_head_size h \<le> offset (tail h)" "offset (tail h) < max_head_size h + cap h"
    "queue_size h = max_head_size h + cap h" "0 < cap h" "gen (front h) < two64" "gen (tail h) < two64"
    "max_head_size h + cap h < two31"
    by (simp_all add: marker_ok_def)
  show "length X \<le> cap h" using assms by (simp add: ring_rep_def)
qed

text \<open>Where the tail is relative to the front.\<close>

lemma ring_rep_shape [consumes 1]:
  assumes "ring_rep hc h X"
  obtains (flat) "gen (tail h) = gen (front h)" "offset (tail h) = offset (front h) + length X"
  | (wrapped) "gen (tail h) = gen (front h) + 1" "offset (tail h) + cap h = offset (front h) + length X"
      "offset (tail h) \<le> offset (front h)"
proof -
  let ?C = "cap h" and ?f = "pos h (front h)" and ?t = "pos h (tail h)"
  have okf: "marker_ok h (front h)" and okt: "marker_ok h (tail h)" and t: "?t = ?f + length X"
    and le: "length X \<le> ?C"
    using assms by (auto simp: ring_rep_def)
  have "0 < ?C" using okf by (rule marker_ok_cap)
  then have "?f div ?C \<le> ?t div ?C" "?t div ?C \<le> (?f + ?C) div ?C" "(?f + ?C) div ?C = ?f div ?C + 1"
    using t le div_add_self2 [of ?C ?f] div_le_mono [of "?f + length X" "?f + ?C" ?C]
    by (auto intro!: div_le_mono)
  then have "gen (tail h) = gen (front h) \<or> gen (tail h) = gen (front h) + 1"
    using pos_div_mod(1) [OF okf] pos_div_mod(1) [OF okt] by linarith
  then show ?thesis
  proof
    assume g: "gen (tail h) = gen (front h)"
    then have "offset (tail h) = offset (front h) + length X"
      using t okf okt by (auto simp: pos_def marker_ok_def)
    with g show ?thesis by (rule flat)
  next
    assume g: "gen (tail h) = gen (front h) + 1"
    then have "?C + (offset (tail h) - max_head_size h) = offset (front h) - max_head_size h + length X"
      using t by (simp add: pos_def)
    then have "offset (tail h) + ?C = offset (front h) + length X"
      using okf okt by (auto simp: marker_ok_def)
    with g show ?thesis using le by (intro wrapped) auto
  qed
qed

lemma ring_rep_empty:
  assumes "ring_rep hc h X"
  shows "queue_empty h \<longleftrightarrow> X = []"
  using assms
proof (cases rule: ring_rep_shape)
  case wrapped
  with ring_rep_bounds [OF assms] show ?thesis by (auto simp: queue_empty_def)
qed (simp add: queue_empty_def)

lemma ring_rep_full:
  assumes "ring_rep hc h X"
  shows "queue_full h \<longleftrightarrow> length X = cap h"
  using assms
proof (cases rule: ring_rep_shape)
  case flat
  have "add64 (gen (front h)) 1 \<noteq> gen (front h)"
    using ring_rep_bounds(7) [OF assms] by (auto simp: add64_def mod_Suc two64_def)
  with flat show ?thesis using ring_rep_bounds [OF assms] by (auto simp: queue_full_def)
next
  case wrapped
  with ring_rep_bounds [OF assms] show ?thesis by (auto simp: queue_full_def add64_eq)
qed

subsection \<open>Enqueueing\<close>

text \<open>One write at the tail that stays before the end of the ring, with the marker wrapped after it.\<close>

definition tail_after :: "cls_queue_head \<Rightarrow> nat \<Rightarrow> cls_queue_head" where
  "tail_after h n = h\<lparr>tail := wrap_marker h ((tail h)\<lparr>offset := offset (tail h) + n\<rparr>)\<rparr>"

lemma ring_rep_write:
  assumes rep: "ring_rep hc h X" and fit: "offset (tail h) + length b \<le> queue_size h"
    and room: "length X + length b \<le> cap h"
    and g: "offset (tail h) + length b < queue_size h \<or> gen (tail h) + 1 < two64"
  shows "ring_rep (hc\<lparr>content := obj_write (content hc) (offset (tail h)) b\<rparr>) (tail_after h (length b)) (X @ b)"
proof -
  let ?H = "max_head_size h" and ?C = "cap h" and ?h = "tail_after h (length b)"
  have okt: "marker_ok h (tail h)" and pt: "pos h (tail h) = pos h (front h) + length X"
    and X: "ring (content hc) ?H ?C (pos h (front h)) (length X) = X"
    and len: "0 < pos h (tail h) \<Longrightarrow> ?H + min (pos h (tail h)) ?C \<le> length (content hc)"
    using rep by (auto simp: ring_rep_def)
  have ofs: "offset (tail h) = ?H + pos h (tail h) mod ?C"
    using pos_div_mod(2) [OF okt] okt by (simp add: marker_ok_def)
  have same: "max_head_size ?h = ?H" "queue_size ?h = queue_size h" "front ?h = front h"
    by (simp_all add: tail_after_def)
  have pos': "pos ?h = pos h" and cap': "cap ?h = ?C" and ok_eq: "marker_ok ?h = marker_ok h"
    by (simp_all add: fun_eq_iff pos_def cap_def marker_ok_def same)
  have ok': "marker_ok h (tail ?h)" and ptl: "pos h (tail ?h) = pos h (tail h) + length b"
    using okt fit g marker_ok_cap [OF okt]
    by (auto simp: tail_after_def wrap_marker_def marker_ok_def pos_def add64_eq)
  have "ring (obj_write (content hc) (offset (tail h)) b) ?H ?C (pos h (front h)) (length (X @ b)) = X @ b"
    using ring_extend [of "pos h (front h)" "pos h (tail h)" b ?C "content hc" ?H] pt X room fit ofs
      marker_ok_cap(2) [OF okt]
    by simp
  moreover have "?H + min (pos h (tail h) + length b) ?C \<le> length (obj_write (content hc) (offset (tail h)) b)"
  proof (cases "pos h (tail h) < ?C")
    case True
    then have "offset (tail h) = ?H + pos h (tail h)" using ofs by simp
    then show ?thesis unfolding length_obj_write by linarith
  next
    case False
    moreover have "0 < ?C" using okt by (rule marker_ok_cap)
    ultimately have "?H + ?C \<le> length (content hc)" using len by (simp add: min_absorb2)
    then show ?thesis unfolding length_obj_write by linarith
  qed
  ultimately show ?thesis
    using rep ok' ptl room unfolding ring_rep_def same pos' cap' ok_eq by simp
qed

lemma write_at_tail_ok:
  assumes rep: "ring_rep hc h X" and fit: "offset (tail h) + length b \<le> queue_size h"
  shows "write_at_tail hc h b =
    Inr (hc\<lparr>content := obj_write (content hc) (offset (tail h)) b\<rparr>,
         h\<lparr>tail := (tail h)\<lparr>offset := offset (tail h) + length b\<rparr>\<rparr>)"
proof -
  have "offset (tail h) < queue_size h" "queue_size h \<le> osd_max_object_size hc"
    "osd_max_object_size hc < two31"
    using rep by (auto simp: ring_rep_def marker_ok_def)
  then show ?thesis using fit by (simp add: write_at_tail_def cls_write_ok add64_eq)
qed

lemma tail_after_wrap:
  "h\<lparr>tail := wrap_marker (h\<lparr>tail := (tail h)\<lparr>offset := offset (tail h) + n\<rparr>\<rparr>)
     ((tail h)\<lparr>offset := offset (tail h) + n\<rparr>)\<rparr> = tail_after h n"
  by (simp add: tail_after_def wrap_marker_def)

text \<open>What \<open>enqueue_one\<close> leaves, as one step of the abstract ring.\<close>

definition enqueued :: "nat \<Rightarrow> hctx \<Rightarrow> cls_queue_head \<Rightarrow> hctx \<Rightarrow> cls_queue_head \<Rightarrow> bytes \<Rightarrow> bool" where
  "enqueued n hc h hc' h' X \<longleftrightarrow> ring_rep hc' h' X \<and> hc' = hc\<lparr>content := content hc'\<rparr> \<and>
     h' = h\<lparr>tail := tail h'\<rparr> \<and> gen (tail h') \<le> gen (tail h) + n \<and>
     (\<forall>i < max_head_size h. byte_at (content hc') i = byte_at (content hc) i) \<and>
     length (content hc) \<le> length (content hc')"

lemma enqueued_write:
  assumes "ring_rep hc h X" and "offset (tail h) + length b \<le> queue_size h"
    and "length X + length b \<le> cap h"
    and "offset (tail h) + length b < queue_size h \<or> gen (tail h) + 1 < two64"
  shows "enqueued 1 hc h (hc\<lparr>content := obj_write (content hc) (offset (tail h)) b\<rparr>)
    (tail_after h (length b)) (X @ b)"
  using ring_rep_write [OF assms] ring_rep_bounds(3) [OF assms(1)] assms(4)
  by (auto simp: enqueued_def tail_after_def wrap_marker_def byte_at_write length_obj_write add64_eq)

lemma enqueue_one_contiguous:
  assumes rep: "ring_rep hc h X" and room: "length X + length (entry_bytes d) \<le> cap h"
    and g: "gen (tail h) + 1 < two64"
    and fit: "offset (tail h) + length (entry_bytes d) \<le> queue_size h"
  obtains hc' h' where "enqueue_one hc h d = Inr (hc', h')" and "enqueued 1 hc h hc' h' (X @ entry_bytes d)"
proof -
  let ?b = "entry_bytes d"
  note bounds = ring_rep_bounds [OF rep]
  have "add64 (offset (tail h)) (length ?b) = offset (tail h) + length ?b"
    using fit bounds by (intro add64_eq) (simp add: two31_less)
  moreover have "offset (tail h) \<ge> offset (front h) \<or> offset (tail h) + length ?b \<le> offset (front h)"
    using rep room by (cases rule: ring_rep_shape) auto
  ultimately have "enqueue_one hc h d =
      Inr (hc\<lparr>content := obj_write (content hc) (offset (tail h)) ?b\<rparr>, tail_after h (length ?b))"
    using write_at_tail_ok [OF rep fit] fit
    by (auto simp: enqueue_one_def Let_def tail_after_wrap simp del: length_entry_bytes)
  then show ?thesis using enqueued_write [OF rep fit room] g by (intro that) auto
qed

text \<open>The two halves of an entry that is split at the end of the ring.\<close>

lemma enqueued_split:
  assumes rep: "ring_rep hc h X" and room: "length X + length b \<le> cap h" and g: "gen (tail h) + 1 < two64"
    and over: "offset (tail h) + length b > queue_size h"
    and flat: "offset (tail h) = offset (front h) + length X"
  defines "k \<equiv> queue_size h - offset (tail h)"
  defines "hc1 \<equiv> hc\<lparr>content := obj_write (content hc) (offset (tail h)) (take k b)\<rparr>"
    and "h1 \<equiv> h\<lparr>tail := \<lparr>offset = max_head_size h, gen = gen (tail h) + 1\<rparr>\<rparr>"
  defines "hc2 \<equiv> hc1\<lparr>content := obj_write (content hc1) (max_head_size h) (drop k b)\<rparr>"
  shows "ring_rep hc1 h1 (X @ take k b)"
    and "max_head_size h + length (drop k b) < queue_size h"
    and "enqueued 1 hc h hc2 (tail_after h1 (length (drop k b))) (X @ b)"
proof -
  note bounds = ring_rep_bounds [OF rep]
  have k: "length (take k b) = k" using over by (simp add: k_def)
  have h1: "tail_after h (length (take k b)) = h1"
    unfolding k using bounds g by (simp add: tail_after_def wrap_marker_def h1_def k_def add64_eq)
  have "enqueued 1 hc h hc1 h1 (X @ take k b)"
    unfolding h1 [symmetric] hc1_def
    using bounds room g k by (intro enqueued_write [OF rep]) (auto simp: k_def)
  then have e1: "ring_rep hc1 h1 (X @ take k b)"
    and same: "\<forall>i < max_head_size h. byte_at (content hc1) i = byte_at (content hc) i"
    "length (content hc) \<le> length (content hc1)"
    by (simp_all add: enqueued_def)
  show "ring_rep hc1 h1 (X @ take k b)" by (rule e1)
  show lt: "max_head_size h + length (drop k b) < queue_size h"
    using flat bounds room over by (auto simp: k_def)
  have "length (X @ take k b) + length (drop k b) \<le> cap h1"
    using room over by (simp add: h1_def cap_def k_def)
  then have "enqueued 1 hc1 h1 hc2 (tail_after h1 (length (drop k b))) ((X @ take k b) @ drop k b)"
    using enqueued_write [OF e1, of "drop k b"] lt by (simp add: h1_def hc2_def)
  moreover have "tail (tail_after h1 (length (drop k b))) = \<lparr>offset = max_head_size h + length (drop k b), gen = gen (tail h) + 1\<rparr>"
    using lt by (simp add: tail_after_def wrap_marker_def h1_def)
  ultimately show "enqueued 1 hc h hc2 (tail_after h1 (length (drop k b))) (X @ b)"
    using same by (auto simp: enqueued_def hc1_def hc2_def h1_def tail_after_def)
qed

lemma enqueue_one_split:
  assumes rep: "ring_rep hc h X" and room: "length X + length (entry_bytes d) \<le> cap h"
    and g: "gen (tail h) + 1 < two64"
    and over: "offset (tail h) + length (entry_bytes d) > queue_size h"
  obtains hc' h' where "enqueue_one hc h d = Inr (hc', h')" and "enqueued 1 hc h hc' h' (X @ entry_bytes d)"
proof -
  let ?b = "entry_bytes d" and ?k = "queue_size h - offset (tail h)"
  note bounds = ring_rep_bounds [OF rep]
  let ?hc1 = "hc\<lparr>content := obj_write (content hc) (offset (tail h)) (take ?k ?b)\<rparr>"
  let ?h1 = "h\<lparr>tail := \<lparr>offset = max_head_size h, gen = gen (tail h) + 1\<rparr>\<rparr>"
  let ?hc2 = "?hc1\<lparr>content := obj_write (content ?hc1) (max_head_size h) (drop ?k ?b)\<rparr>"
  have flat: "offset (tail h) = offset (front h) + length X"
    using rep
  proof (cases rule: ring_rep_shape)
    case wrapped
    then show ?thesis using room over bounds by simp
  qed
  note split = enqueued_split [OF rep room g over flat]
  define b2 where "b2 = drop ?k ?b"
  have "write_at_tail ?hc1 ?h1 (drop ?k ?b) =
      Inr (?hc2, ?h1\<lparr>tail := (tail ?h1)\<lparr>offset := offset (tail ?h1) + length (drop ?k ?b)\<rparr>\<rparr>)"
    using write_at_tail_ok [OF split(1), of "drop ?k ?b"] split(2) by simp
  then have "write_at_tail ?hc1 ?h1 b2 = Inr (?hc2, ?h1\<lparr>tail := (tail ?h1)\<lparr>offset := offset (tail ?h1) + length b2\<rparr>\<rparr>)"
    unfolding b2_def .
  moreover have "cls_cxx_write2 hc (offset (tail h)) (take ?k ?b) = Inr ?hc1"
    using rep bounds by (intro cls_write_ok) (auto simp: ring_rep_def)
  moreover have "add64 (offset (tail h)) (length ?b) = offset (tail h) + length ?b"
    using bounds room by (intro add64_eq two31_sum) linarith+
  moreover have "sub64 (queue_size h) (offset (tail h)) = ?k"
    using bounds by (intro sub64_eq) (simp_all add: two31_less)
  moreover have "sub64 (offset (front h)) (max_head_size h) = offset (front h) - max_head_size h"
    using bounds by (intro sub64_eq) (simp_all add: two31_less)
  moreover have "add64 ?k (offset (front h) - max_head_size h) = ?k + (offset (front h) - max_head_size h)"
    using bounds by (intro add64_eq two31_sum) linarith+
  moreover have "length ?b \<le> ?k + (offset (front h) - max_head_size h)"
    using flat bounds room by linarith
  moreover have "add64 (gen (tail h)) 1 = gen (tail h) + 1" using g by (simp add: add64_eq)
  moreover have "offset (tail h) \<ge> offset (front h)" using flat by simp
  ultimately have "enqueue_one hc h d = Inr (?hc2, tail_after ?h1 (length b2))"
    using over tail_after_wrap [of ?h1 "length b2"]
    by (simp add: enqueue_one_def Let_def not_le [symmetric] del: length_entry_bytes flip: b2_def)
  then have "enqueue_one hc h d = Inr (?hc2, tail_after ?h1 (length (drop ?k ?b)))"
    unfolding b2_def .
  then show ?thesis using split(3) by (rule that)
qed

lemma enqueue_one_ok:
  assumes "ring_rep hc h X" and "length X + length (entry_bytes d) \<le> cap h" and "gen (tail h) + 1 < two64"
  obtains hc' h' where "enqueue_one hc h d = Inr (hc', h')" and "enqueued 1 hc h hc' h' (X @ entry_bytes d)"
  using enqueue_one_contiguous [OF assms] enqueue_one_split [OF assms] not_le by metis

lemma enqueue_one_full:
  assumes rep: "ring_rep hc h X" and room: "length X + length (entry_bytes d) > cap h"
    and d: "length d < two32" and nf: "length X < cap h"
  shows "enqueue_one hc h d = Inl ENOSPC"
proof -
  let ?b = "entry_bytes d"
  note bounds = ring_rep_bounds [OF rep]
  have b: "add64 (offset (tail h)) (length ?b) = offset (tail h) + length ?b"
    using bounds d by (simp add: add64_eq two31_def two32_def two64_def)
  show ?thesis
    using rep
  proof (cases rule: ring_rep_shape)
    case flat
    have "sub64 (queue_size h) (offset (tail h)) = queue_size h - offset (tail h)"
      using bounds by (intro sub64_eq) (simp_all add: two31_less)
    moreover have "sub64 (offset (front h)) (max_head_size h) = offset (front h) - max_head_size h"
      using bounds by (intro sub64_eq) (simp_all add: two31_less)
    moreover have "add64 (queue_size h - offset (tail h)) (offset (front h) - max_head_size h) =
        (queue_size h - offset (tail h)) + (offset (front h) - max_head_size h)"
      using bounds by (intro add64_eq two31_sum) linarith+
    moreover have "\<not> offset (tail h) + length ?b \<le> queue_size h"
      "\<not> length ?b \<le> (queue_size h - offset (tail h)) + (offset (front h) - max_head_size h)"
      using flat bounds room by linarith+
    ultimately show ?thesis
      using b flat by (simp add: enqueue_one_def Let_def del: length_entry_bytes)
  next
    case wrapped
    then have "\<not> offset (tail h) + length ?b \<le> offset (front h)" "\<not> offset (tail h) \<ge> offset (front h)"
      using room nf by linarith+
    with b show ?thesis by (simp add: enqueue_one_def Let_def del: length_entry_bytes)
  qed
qed

lemma enqueued_trans:
  assumes one: "enqueued m hc h hc1 h1 X" and two: "enqueued n hc1 h1 hc2 h2 Y"
  shows "enqueued (m + n) hc h hc2 h2 Y"
proof -
  have "h2 = h\<lparr>tail := tail h1, tail := tail h2\<rparr>" "hc2 = hc\<lparr>content := content hc1, content := content hc2\<rparr>"
    using one two unfolding enqueued_def by metis+
  moreover have "max_head_size h1 = max_head_size h"
    using one unfolding enqueued_def by (metis cls_queue_head.update_convs(3) cls_queue_head.select_convs(1) cls_queue_head.surjective)
  ultimately show ?thesis using one two by (auto simp: enqueued_def)
qed

lemma enqueued_refl: "ring_rep hc h X \<Longrightarrow> enqueued 0 hc h hc h X"
  by (simp add: enqueued_def)

lemma enqueued_same:
  assumes "enqueued n hc h hc' h' X"
  shows "cap h' = cap h" and "max_head_size h' = max_head_size h" and "ring_rep hc' h' X"
    and "gen (tail h') \<le> gen (tail h) + n"
proof -
  have "h' = h\<lparr>tail := tail h'\<rparr>" using assms by (simp add: enqueued_def)
  then show "max_head_size h' = max_head_size h" and "cap h' = cap h"
    by (metis cls_queue_head.update_convs(3) cls_queue_head.select_convs(1,4) cls_queue_head.surjective cap_def)+
  show "ring_rep hc' h' X" "gen (tail h') \<le> gen (tail h) + n" using assms by (simp_all add: enqueued_def)
qed

lemma enqueue_all_ok:
  assumes "ring_rep hc h X" and "length X + length (stream ds) \<le> cap h" and "gen (tail h) + length ds < two64"
  obtains hc' h' where "enqueue_all hc h ds = Inr (hc', h')" and "enqueued (length ds) hc h hc' h' (X @ stream ds)"
  using assms
proof (induction ds arbitrary: hc h X thesis)
  case Nil
  then show ?case by (auto intro: enqueued_refl)
next
  case (Cons d ds)
  have "length X + length (entry_bytes d) \<le> cap h" "gen (tail h) + 1 < two64"
    using Cons.prems(3,4) by simp_all
  from enqueue_one_ok [OF Cons.prems(2) this] obtain hc1 h1 where one: "enqueue_one hc h d = Inr (hc1, h1)"
    and e1: "enqueued 1 hc h hc1 h1 (X @ entry_bytes d)" by metis
  note same = enqueued_same [OF e1]
  obtain hc2 h2 where "enqueue_all hc1 h1 ds = Inr (hc2, h2)"
    and e2: "enqueued (length ds) hc1 h1 hc2 h2 ((X @ entry_bytes d) @ stream ds)"
  proof (rule Cons.IH [OF _ same(3)])
    show "length (X @ entry_bytes d) + length (stream ds) \<le> cap h1" using Cons.prems(3) same(1) by simp
    show "gen (tail h1) + length ds < two64" using Cons.prems(4) same(4) by simp
  qed
  with one enqueued_trans [OF e1 e2] show ?case by (intro Cons.prems(1)) simp_all
qed

text \<open>A batch that does not fit is refused, unless a proper part of it fills the ring exactly.\<close>

lemma enqueue_all_full:
  assumes "ring_rep hc h X" and "length X + length (stream ds) > cap h" and "gen (tail h) + length ds < two64"
    and "\<forall>d\<in>set ds. length d < two32" and "\<forall>k < length ds. length X + length (stream (take k ds)) \<noteq> cap h"
  shows "enqueue_all hc h ds = Inl ENOSPC"
  using assms
proof (induction ds arbitrary: hc h X)
  case Nil
  then show ?case using ring_rep_bounds(10) by fastforce
next
  case (Cons d ds)
  have X: "length X < cap h"
    using Cons.prems(5) ring_rep_bounds(10) [OF Cons.prems(1)] by (auto dest!: spec [of _ 0])
  show ?case
  proof (cases "length X + length (entry_bytes d) \<le> cap h")
    case True
    have "gen (tail h) + 1 < two64" using Cons.prems(3) by simp
    from enqueue_one_ok [OF Cons.prems(1) True this] obtain hc1 h1 where one: "enqueue_one hc h d = Inr (hc1, h1)"
      and e1: "enqueued 1 hc h hc1 h1 (X @ entry_bytes d)" by metis
    note same = enqueued_same [OF e1]
    have "length (X @ entry_bytes d) + length (stream (take k ds)) \<noteq> cap h1" if "k < length ds" for k
      using Cons.prems(5) [rule_format, of "Suc k"] that same(1) by simp
    then have "enqueue_all hc1 h1 ds = Inl ENOSPC"
      using Cons.prems same by (intro Cons.IH [OF same(3)]) auto
    with one show ?thesis by simp
  next
    case False
    then show ?thesis using enqueue_one_full [OF Cons.prems(1) _ _ X] Cons.prems(4) by simp
  qed
qed

end
