(* ===== verification/Cls_Queue_List.thy ===== *)
theory Cls_Queue_List
  imports Cls_Queue_Correct
begin

text \<open>
  Listing the queue. The code reads the ring in chunks of at most 1024 bytes and carries what a chunk
  cuts off (part of an entry's frame, or part of its data) into the next; here this chunked reading is
  shown to return the entries of the whole stream. \<open>carry\<close> is the state between chunks: the bytes
  carried and the bytes not yet read are the rest of the stream, at position \<open>s\<close> of the reading and
  \<open>p\<close> of the next entry.
\<close>

primrec listed :: "cls_queue_head \<Rightarrow> nat \<Rightarrow> bytes list \<Rightarrow> cls_queue_entry list" where
  "listed h p [] = []"
| "listed h p (d # ds) =
     \<lparr>data = d, marker = to_str (marker_at h p)\<rparr> # listed h (p + length (entry_bytes d)) ds"

lemma length_listed [simp]: "length (listed h p ds) = length ds"
  by (induction ds arbitrary: p) simp_all

lemma listed_append: "listed h p (ds @ es) = listed h p ds @ listed h (p + length (stream ds)) es"
  by (induction ds arbitrary: p) (simp_all add: add.assoc)

lemma map_data_listed [simp]: "map data (listed h p ds) = ds"
  by (induction ds arbitrary: p) simp_all

text \<open>The rest of the stream as the loop variables see it.\<close>

definition rest_ok :: "list_state \<Rightarrow> bytes \<Rightarrow> bytes list \<Rightarrow> bool" where
  "rest_ok st B es \<longleftrightarrow>
     (if entry_start_processed st
      then es \<noteq> [] \<and> data_size st = length (hd es) \<and> B = hd es @ stream (tl es)
      else B = stream es)"

definition carry :: "cls_queue_head \<Rightarrow> nat \<Rightarrow> bytes \<Rightarrow> bytes list \<Rightarrow> nat \<Rightarrow> list_state \<Rightarrow> bool" where
  "carry h s U es p st \<longleftrightarrow>
     rest_ok st (bl st @ U) es \<and> (\<forall>d\<in>set es. length d < two64) \<and>
     p + (if entry_start_processed st then 10 else 0) + length (bl st) = s \<and>
     (if entry_start_processed st then offset_populated st \<and> length (bl st) < data_size st
      else length (bl st) < 10) \<and>
     (if offset_populated st then last_marker st = to_str (marker_at h p) else bl st = [])"

definition clean :: "list_state \<Rightarrow> bool" where
  "clean st \<longleftrightarrow> \<not> offset_populated st \<and> \<not> entry_start_processed st \<and> bl st = []"

definition emit :: "list_state \<Rightarrow> bytes \<Rightarrow> string \<Rightarrow> list_state" where
  "emit st d mk = st\<lparr>ret_entries := ret_entries st @ [\<lparr>data = d, marker = mk\<rparr>],
     offset_populated := False, entry_start_processed := False, data_size := 0, last_marker := []\<rparr>"

lemma emit_simps [simp]:
  "ret_entries (emit st d mk) = ret_entries st @ [\<lparr>data = d, marker = mk\<rparr>]"
  "clean (emit st d mk) \<longleftrightarrow> bl st = []"
  by (auto simp: emit_def clean_def)

subsection \<open>One entry\<close>

abbreviation mark :: "nat \<Rightarrow> nat \<Rightarrow> nat \<Rightarrow> list_state \<Rightarrow> string" where
  "mark eso g index st \<equiv>
     (if offset_populated st then last_marker st else to_str \<lparr>offset = add64 eso index, gen = g\<rparr>)"

lemma list_data_all:
  assumes "rest = d @ r" and "data_size st = length d"
  shows "list_data mx i rest mk st = (i + length d, r, Suc (length (ret_entries st)) \<noteq> mx, emit st d mk)"
  using assms by (simp add: list_data_def Let_def emit_def)

lemma entry_header:
  assumes "length d < two64"
  shows "dec_le 2 (entry_bytes d @ r) = Some (QUEUE_ENTRY_START, le_bytes 8 (length d) @ d @ r)"
    and "dec_le 8 (le_bytes 8 (length d) @ d @ r) = Some (length d, d @ r)"
  using assms by (simp_all add: entry_bytes_def dec_le_2 dec_le_8 QUEUE_ENTRY_START_def)

text \<open>The header decodes from any ten bytes that start an entry.\<close>

lemma list_step_header:
  assumes "\<not> entry_start_processed st" and "rest @ U = entry_bytes d @ V" and "10 \<le> length rest"
    and "length d < two64"
  shows "list_step mx eso g i rest st =
    Inr (list_data mx (i + 10) (drop 10 rest) (mark eso g i st) (st\<lparr>data_size := length d\<rparr>))"
    and "drop 10 rest @ U = d @ V"
proof -
  let ?hdr = "le_bytes 2 QUEUE_ENTRY_START @ le_bytes 8 (length d)"
  have hdr: "entry_bytes d @ V = ?hdr @ d @ V" by (simp add: entry_bytes_def)
  have "take 10 rest = take 10 (?hdr @ d @ V)" using assms(2,3) hdr by (metis append_eq_append_conv2 take_append take_all diff_is_0_eq take0 append.right_neutral)
  then have "take 10 rest = ?hdr" by simp
  then have rest: "rest = ?hdr @ drop 10 rest" by (metis append_take_drop_id)
  have "?hdr @ drop 10 rest @ U = ?hdr @ d @ V" using assms(2) hdr rest by (metis append.assoc)
  then show "drop 10 rest @ U = d @ V" by simp
  have "dec_le 2 rest = Some (QUEUE_ENTRY_START, le_bytes 8 (length d) @ drop 10 rest)"
    by (subst rest) (simp add: dec_le_2 QUEUE_ENTRY_START_def)
  with assms show "list_step mx eso g i rest st =
    Inr (list_data mx (i + 10) (drop 10 rest) (mark eso g i st) (st\<lparr>data_size := length d\<rparr>))"
    by (simp add: list_step_def Let_def dec_le_8)
qed

text \<open>The entry at hand is all in the chunk, or the step ends the chunk and carries it.\<close>

definition header_left :: "list_state \<Rightarrow> nat" where
  "header_left st = (if entry_start_processed st then 0 else 10)"

lemma list_step_emit:
  assumes rest: "rest_ok st (rest @ U) (d # es)" and all: "header_left st + length d \<le> length rest"
    and d: "length d < two64"
  obtains r where "list_step mx eso g i rest st =
      Inr (i + header_left st + length d, r, Suc (length (ret_entries st)) \<noteq> mx, emit st d (mark eso g i st))"
    and "r @ U = stream es" and "length r + header_left st + length d = length rest"
proof (cases "entry_start_processed st")
  case True
  then have "rest @ U = d @ stream es" "data_size st = length d" "length d \<le> length rest"
    using rest all by (simp_all add: rest_ok_def header_left_def)
  then obtain r where "rest = d @ r" "r @ U = stream es"
    by (metis append_eq_append_conv_if append_take_drop_id)
  then show ?thesis using True list_data_all [of rest d r st] \<open>data_size st = length d\<close>
    by (intro that [of r]) (simp_all add: list_step_def header_left_def)
next
  case False
  then have st: "rest @ U = entry_bytes d @ stream es" "10 + length d \<le> length rest"
    using rest all by (simp_all add: rest_ok_def header_left_def)
  then have ten: "10 \<le> length rest" by simp
  note hd = list_step_header [OF False st(1) ten d]
  have "length d \<le> length (drop 10 rest)" using st(2) by simp
  then obtain r where r: "drop 10 rest = d @ r" "r @ U = stream es"
    using hd(2) by (metis append_eq_append_conv_if append_take_drop_id)
  have "length (drop 10 rest) = length d + length r" using r by simp
  then have len: "length r + 10 + length d = length rest" using ten by simp
  have "list_step mx eso g i rest st = Inr (list_data mx (i + 10) (drop 10 rest) (mark eso g i st) (st\<lparr>data_size := length d\<rparr>))"
    by (rule hd(1))
  also have "\<dots> = Inr (i + 10 + length d, r, Suc (length (ret_entries st)) \<noteq> mx,
      emit (st\<lparr>data_size := length d\<rparr>) d (mark eso g i st))"
    using list_data_all [OF r(1), of "st\<lparr>data_size := length d\<rparr>"] by simp
  also have "emit (st\<lparr>data_size := length d\<rparr>) d (mark eso g i st) = emit st d (mark eso g i st)"
    by (simp add: emit_def)
  finally show ?thesis using False r(2) len by (intro that [of r]) (simp_all add: header_left_def)
qed

lemma list_step_cut:
  assumes rest: "rest_ok st (rest @ U) es" and bl: "bl st = []"
    and short: "es = [] \<or> length rest < header_left st + length (hd es)"
    and lens: "\<forall>d\<in>set es. length d < two64"
    and pos: "p + (10 - header_left st) + length rest = s"
    and mk: "mark eso g i st = to_str (marker_at h p)"
  obtains i' r st' where "list_step mx eso g i rest st = Inr (i', r, False, st')"
    and "carry h s U es p st'" and "ret_entries st' = ret_entries st"
proof (cases "entry_start_processed st")
  case True
  then have cut: "\<not> data_size st \<le> length rest"
    using rest short by (auto simp: rest_ok_def header_left_def)
  let ?st = "st\<lparr>bl := rest, offset_populated := True, entry_start_processed := True, last_marker := mark eso g i st\<rparr>"
  have "carry h s U es p ?st"
    using True rest cut lens pos mk by (auto simp: carry_def rest_ok_def header_left_def)
  moreover have "list_step mx eso g i rest st = Inr (i, rest, False, ?st)"
    using True cut by (simp add: list_step_def list_data_def Let_def)
  ultimately show ?thesis by (intro that [of i rest ?st]) simp_all
next
  case False
  show ?thesis
  proof (cases "length rest < 10")
    case True
    let ?st = "st\<lparr>bl := rest, offset_populated := True, last_marker := mark eso g i st\<rparr>"
    have "carry h s U es p ?st"
      using True False rest lens pos mk by (auto simp: carry_def rest_ok_def header_left_def)
    moreover have "list_step mx eso g i rest st = Inr (i, rest, False, ?st)"
      using True False by (simp add: list_step_def Let_def)
    ultimately show ?thesis by (intro that [of i rest ?st]) simp_all
  next
    case ten: False
    then have "es \<noteq> []" using rest False by (auto simp: rest_ok_def)
    then obtain d es' where es: "es = d # es'" by (cases es) auto
    have st: "rest @ U = entry_bytes d @ stream es'" using rest False es by (simp add: rest_ok_def)
    have d: "length d < two64" using lens es by simp
    have "10 \<le> length rest" using ten by simp
    note hd = list_step_header [OF False st this d]
    have cut: "\<not> length d \<le> length (drop 10 rest)" using short es False ten by (auto simp: header_left_def)
    let ?st = "st\<lparr>data_size := length d, bl := drop 10 rest, offset_populated := True,
       entry_start_processed := True, last_marker := mark eso g i st\<rparr>"
    have "carry h s U es p ?st"
      using hd(2) es cut lens pos mk False ten by (simp add: carry_def rest_ok_def header_left_def)
    moreover have "list_step mx eso g i rest st = Inr (i + 10, drop 10 rest, False, ?st)"
      unfolding hd(1) using cut by (simp add: list_data_def)
    ultimately show ?thesis by (intro that [of "i + 10" "drop 10 rest" ?st]) simp_all
  qed
qed

subsection \<open>One chunk\<close>

text \<open>A chunk of \<open>n\<close> bytes at position \<open>s\<close> of the stream, \<open>L\<close> bytes carried into it: the offsets the
  loop computes are those of the positions.\<close>

definition chunk_offsets :: "cls_queue_head \<Rightarrow> nat \<Rightarrow> nat \<Rightarrow> nat \<Rightarrow> nat \<Rightarrow> nat \<Rightarrow> bool" where
  "chunk_offsets h s n L eso g \<longleftrightarrow>
     s div cap h = g \<and> s mod cap h + n \<le> cap h \<and>
     (\<forall>i. L \<le> i \<and> i \<le> L + n \<longrightarrow> add64 eso i = max_head_size h + s mod cap h + (i - L))"

lemma chunk_marker:
  assumes "chunk_offsets h s n L eso g" and "L \<le> i" and "i < L + n"
  shows "\<lparr>offset = add64 eso i, gen = g\<rparr> = marker_at h (s + (i - L))"
proof -
  have lt: "s mod cap h + (i - L) < cap h" using assms by (auto simp: chunk_offsets_def)
  then have "(s + (i - L)) mod cap h = s mod cap h + (i - L)" "(s + (i - L)) div cap h = s div cap h"
    using mod_add_left_eq [of s "cap h" "i - L"] div_add1_eq [of s "i - L" "cap h"] by simp_all
  then show ?thesis using assms by (simp add: chunk_offsets_def marker_at_def)
qed

lemma marker_at_wrap:
  assumes "s mod cap h + n \<le> cap h" and "0 < cap h" and "queue_size h = max_head_size h + cap h"
    and "(s + n) div cap h < two64"
  shows "wrap_marker h \<lparr>offset = max_head_size h + s mod cap h + n, gen = s div cap h\<rparr> = marker_at h (s + n)"
proof (cases "s mod cap h + n = cap h")
  case True
  have "s + n = s div cap h * cap h + (s mod cap h + n)" by (simp add: div_mult_mod_eq flip: add.assoc)
  also have "\<dots> = (s div cap h + 1) * cap h" using True by simp
  finally have "(s + n) mod cap h = 0" "(s + n) div cap h = s div cap h + 1" using assms(2) by simp_all
  then show ?thesis using assms True by (simp add: wrap_marker_def marker_at_def add64_eq)
next
  case False
  then have "s mod cap h + n < cap h" using assms(1) by simp
  moreover then have "(s + n) mod cap h = s mod cap h + n" "(s + n) div cap h = s div cap h"
    using mod_add_left_eq [of s "cap h" n] div_add1_eq [of s n "cap h"] by simp_all
  ultimately show ?thesis using assms by (simp add: wrap_marker_def marker_at_def)
qed

text \<open>What a chunk does: it returns some of the entries and either the listing is complete or the rest
  is carried on.\<close>

definition chunk_done ::
  "cls_queue_head \<Rightarrow> nat \<Rightarrow> nat \<Rightarrow> nat \<Rightarrow> nat \<Rightarrow> bytes \<Rightarrow> bytes list \<Rightarrow> nat \<Rightarrow> list_state \<Rightarrow> nat \<Rightarrow> list_state \<Rightarrow> bool" where
  "chunk_done h mx s n L U es p st i' st' \<longleftrightarrow>
     (\<exists>k \<le> length es. ret_entries st' = ret_entries st @ listed h p (take k es) \<and>
        (let p' = p + length (stream (take k es)) in
         length (ret_entries st') = mx \<and> L \<le> i' \<and> i' \<le> L + n \<and> p' = s + (i' - L) \<or>
         length (ret_entries st') < mx \<and> carry h (s + n) U (drop k es) p' st'))"

lemma chunk_done_now:
  assumes "carry h (s + n) U es p st'" and "ret_entries st' = ret_entries st" and "length (ret_entries st) < mx"
  shows "chunk_done h mx s n L U es p st i' st'"
  using assms unfolding chunk_done_def by (intro exI [of _ 0]) simp

lemma chunk_done_Cons:
  assumes "chunk_done h mx s n L U es (p + length (entry_bytes d)) (emit st d (to_str (marker_at h p))) i' st'"
  shows "chunk_done h mx s n L U (d # es) p st i' st'"
proof -
  from assms obtain k where "k \<le> length es"
    and "ret_entries st' = ret_entries st @ listed h p (take (Suc k) (d # es))"
    and "let p' = p + length (stream (take (Suc k) (d # es))) in
         length (ret_entries st') = mx \<and> L \<le> i' \<and> i' \<le> L + n \<and> p' = s + (i' - L) \<or>
         length (ret_entries st') < mx \<and> carry h (s + n) U (drop (Suc k) (d # es)) p' st'"
    unfolding chunk_done_def by (auto simp: Let_def add.assoc)
  then show ?thesis unfolding chunk_done_def by (intro exI [of _ "Suc k"]) simp
qed

lemma chunk_done_max:
  assumes "length (ret_entries st') = mx" and "ret_entries st' = ret_entries st"
    and "L \<le> i'" and "i' \<le> L + n" and "p = s + (i' - L)"
  shows "chunk_done h mx s n L U es p st i' st'"
  using assms unfolding chunk_done_def by (intro exI [of _ 0]) (simp add: Let_def)

text \<open>After an entry was returned, the loop goes on or ends.\<close>

lemma list_inner_emitted:
  assumes step: "list_step mx eso g i0 rest0 st0 = Inr (i, r, Suc (length (ret_entries st)) \<noteq> mx, emit st d (to_str (marker_at h p)))"
    and bl: "bl st = []" and r: "r @ U = stream es" and lens: "\<forall>d\<in>set es. length d < two64"
    and pos: "L \<le> i" "i + length r = L + n" "p + length (entry_bytes d) = s + (i - L)"
    and cnt: "length (ret_entries st) < mx"
    and go: "Suc (length (ret_entries st)) \<noteq> mx \<Longrightarrow> r \<noteq> [] \<Longrightarrow>
      \<exists>i' st'. list_inner mx eso g i r (emit st d (to_str (marker_at h p))) = Inr (i', st') \<and>
        chunk_done h mx s n L U es (p + length (entry_bytes d)) (emit st d (to_str (marker_at h p))) i' st'"
  shows "\<exists>i' st'. list_inner mx eso g i0 rest0 st0 = Inr (i', st') \<and> chunk_done h mx s n L U (d # es) p st i' st'"
proof -
  define st1 where "st1 = emit st d (to_str (marker_at h p))"
  let ?p = "p + length (entry_bytes d)"
  have "\<exists>i' st'. list_inner mx eso g i0 rest0 st0 = Inr (i', st') \<and> chunk_done h mx s n L U es ?p st1 i' st'"
  proof (cases "Suc (length (ret_entries st)) \<noteq> mx \<and> r \<noteq> []")
    case True
    then have "list_inner mx eso g i0 rest0 st0 = list_inner mx eso g i r st1"
      unfolding list_inner.simps [of mx eso g i0 rest0 st0] step st1_def by simp
    then show ?thesis using go True unfolding st1_def by simp
  next
    case False
    then have li: "list_inner mx eso g i0 rest0 st0 = Inr (i, st1)"
      unfolding list_inner.simps [of mx eso g i0 rest0 st0] step st1_def by auto
    have "chunk_done h mx s n L U es ?p st1 i st1"
    proof (cases "Suc (length (ret_entries st)) = mx")
      case True
      then show ?thesis using pos by (intro chunk_done_max) (auto simp: st1_def)
    next
      case more: False
      then have "r = []" using False by simp
      then have "carry h (s + n) U es ?p st1"
        using r lens pos bl by (auto simp: carry_def rest_ok_def emit_def st1_def)
      then show ?thesis using more cnt by (intro chunk_done_now) (auto simp: st1_def)
    qed
    with li show ?thesis by blast
  qed
  then show ?thesis using chunk_done_Cons unfolding st1_def by blast
qed

lemma list_inner_cut:
  assumes "rest_ok st (rest @ U) es" and "bl st = []"
    and "es = [] \<or> length rest < header_left st + length (hd es)"
    and "\<forall>d\<in>set es. length d < two64" and "p + (10 - header_left st) + length rest = s + n"
    and "mark eso g i st = to_str (marker_at h p)" and "length (ret_entries st) < mx"
  shows "\<exists>i' st'. list_inner mx eso g i rest st = Inr (i', st') \<and> chunk_done h mx s n L U es p st i' st'"
proof -
  obtain i' r st' where "list_step mx eso g i rest st = Inr (i', r, False, st')"
    and c: "carry h (s + n) U es p st'" "ret_entries st' = ret_entries st"
    using list_step_cut [OF assms(1-6)] by metis
  then have "list_inner mx eso g i rest st = Inr (i', st')"
    unfolding list_inner.simps [of mx eso g i rest st] by simp
  then show ?thesis using chunk_done_now [OF c assms(7)] by blast
qed

lemma list_inner_clean:
  assumes "clean st" and "rest @ U = stream es" and "rest \<noteq> []" and "\<forall>d\<in>set es. length d < two64"
    and "L \<le> i" and "i + length rest = L + n" and "p = s + (i - L)"
    and "length (ret_entries st) < mx" and "chunk_offsets h s n L eso g"
  shows "\<exists>i' st'. list_inner mx eso g i rest st = Inr (i', st') \<and> chunk_done h mx s n L U es p st i' st'"
  using assms
proof (induction es arbitrary: st rest i p)
  case Nil
  then show ?case by simp
next
  case (Cons d es)
  have ro: "rest_ok st (rest @ U) (d # es)" and hl: "header_left st = 10" and bl: "bl st = []"
    using Cons.prems(1,2) by (simp_all add: rest_ok_def clean_def header_left_def)
  have mk: "mark eso g i st = to_str (marker_at h p)"
  proof -
    have "0 < length rest" using Cons.prems(3) by simp
    then have "i < L + n" using Cons.prems(6) by linarith
    then show ?thesis using Cons.prems(1,5,7) chunk_marker [OF Cons.prems(9), of i] by (simp add: clean_def)
  qed
  show ?case
  proof (cases "10 + length d \<le> length rest")
    case False
    have "p + (10 - header_left st) + length rest = s + n" using Cons.prems(5-7) hl by simp
    then show ?thesis using False hl by (intro list_inner_cut [OF ro bl _ Cons.prems(4) _ mk Cons.prems(8)]) auto
  next
    case True
    have d: "length d < two64" and lens: "\<forall>d\<in>set es. length d < two64" using Cons.prems(4) by simp_all
    let ?st = "emit st d (to_str (marker_at h p))" and ?i = "i + 10 + length d"
    obtain r where step: "list_step mx eso g i rest st = Inr (?i, r, Suc (length (ret_entries st)) \<noteq> mx, ?st)"
      and r: "r @ U = stream es" "length r + 10 + length d = length rest"
      using list_step_emit [OF ro _ d, of mx eso g i] True hl mk by auto
    have pos: "L \<le> ?i" "?i + length r = L + n" "p + length (entry_bytes d) = s + (?i - L)"
      using Cons.prems(5-7) r(2) by simp_all
    show ?thesis
      using bl Cons.prems(8)
      by (intro list_inner_emitted [OF step bl r(1) lens pos Cons.prems(8)]
          Cons.IH [OF _ r(1) _ lens pos(1,2,3) _ Cons.prems(9)]) simp_all
  qed
qed

lemma list_inner_carry:
  assumes c: "carry h s (chunk @ U) es p st" and ne: "chunk \<noteq> []" and cnt: "length (ret_entries st) < mx"
    and offs: "chunk_offsets h s (length chunk) (length (bl st)) eso g"
  shows "\<exists>i' st'. list_inner mx eso g 0 (bl st @ chunk) (st\<lparr>bl := []\<rparr>) = Inr (i', st') \<and>
    chunk_done h mx s (length chunk) (length (bl st)) U es p (st\<lparr>bl := []\<rparr>) i' st'"
proof (cases "offset_populated st")
  case False
  then have "clean (st\<lparr>bl := []\<rparr>)" "bl st = []" "chunk @ U = stream es" "p = s"
    using c by (auto simp: carry_def clean_def rest_ok_def split: if_splits)
  then show ?thesis using c ne cnt offs by (intro list_inner_clean) (simp_all add: carry_def)
next
  case True
  let ?rest = "bl st @ chunk" and ?st = "st\<lparr>bl := []\<rparr>"
  have hl: "header_left ?st = header_left st" by (simp add: header_left_def)
  have mk: "mark eso g 0 ?st = to_str (marker_at h p)" using True c by (simp add: carry_def)
  have ro: "rest_ok ?st (?rest @ U) es" and lens: "\<forall>d\<in>set es. length d < two64"
    using c by (simp_all add: carry_def rest_ok_def)
  have "es \<noteq> []" using ro ne by (auto simp: rest_ok_def split: if_splits)
  then obtain d es' where es: "es = d # es'" by (cases es) auto
  have pos: "p + (10 - header_left st) + length (bl st) = s"
    and bnd: "length (bl st) \<le> header_left st + length d"
    using c es by (auto simp: carry_def header_left_def rest_ok_def split: if_splits)
  show ?thesis
  proof (cases "header_left st + length d \<le> length ?rest")
    case all: True
    have d: "length d < two64" using lens es by simp
    obtain r where step: "list_step mx eso g 0 ?rest ?st = Inr (header_left st + length d, r,
        Suc (length (ret_entries ?st)) \<noteq> mx, emit ?st d (to_str (marker_at h p)))"
      and r: "r @ U = stream es'" and len: "length r + header_left st + length d = length ?rest"
      using list_step_emit [OF ro [unfolded es] _ d, of mx eso g 0] all hl mk by auto
    have "header_left st \<le> 10" by (simp add: header_left_def)
    then have pos': "p + length (entry_bytes d) = s + (header_left st + length d - length (bl st))"
      using pos bnd by simp
    have len': "header_left st + length d + length r = length (bl st) + length chunk"
      using len by simp
    have lens': "\<forall>d\<in>set es'. length d < two64" and bl: "bl ?st = []" and cnt': "length (ret_entries ?st) < mx"
      using lens es cnt by simp_all
    show ?thesis
      unfolding es using cnt
      by (intro list_inner_emitted [OF step bl r lens' bnd len' pos' cnt']
          list_inner_clean [OF _ r _ lens' bnd len' pos' _ offs]) simp_all
  next
    case False
    have "p + (10 - header_left ?st) + length ?rest = s + length chunk" using pos hl by simp
    then show ?thesis using False hl es cnt by (intro list_inner_cut [OF ro _ _ lens _ mk]) auto
  qed
qed

subsection \<open>All chunks\<close>

lemma carry_total:
  assumes "carry h s U es p st"
  shows "p + length (stream es) = s + length U" and "length (bl st) < two64"
proof -
  have ro: "rest_ok st (bl st @ U) es" using assms by (simp add: carry_def)
  show "p + length (stream es) = s + length U"
  proof (cases "entry_start_processed st")
    case True
    then obtain d es' where "es = d # es'" "bl st @ U = d @ stream es'" using ro by (cases es) (auto simp: rest_ok_def)
    then have "length (bl st) + length U = length d + length (stream es')" by (metis length_append)
    with \<open>es = d # es'\<close> True assms show ?thesis by (simp add: carry_def)
  next
    case False
    then have "length (bl st) + length U = length (stream es)" using ro by (metis length_append rest_ok_def)
    with False assms show ?thesis by (simp add: carry_def)
  qed
  show "length (bl st) < two64"
  proof (cases "entry_start_processed st")
    case True
    then have "length (bl st) < length (hd es)" "hd es \<in> set es" using assms by (auto simp: carry_def rest_ok_def)
    then show ?thesis using assms by (auto simp: carry_def)
  next
    case False
    then show ?thesis using assms by (simp add: carry_def two64_def)
  qed
qed

lemma carry_end:
  assumes "carry h s [] es p st"
  shows "es = []" and "p = s"
proof -
  show "es = []"
  proof (cases "entry_start_processed st")
    case True
    then have "bl st = hd es @ stream (tl es)" "length (bl st) < length (hd es)"
      using assms by (auto simp: carry_def rest_ok_def)
    then show ?thesis by simp
  next
    case False
    then have "length (stream es) < 10" using assms by (auto simp: carry_def rest_ok_def)
    then show ?thesis by (cases es) simp_all
  qed
  with carry_total(1) [OF assms] show "p = s" by simp
qed

lemma add64_sub64:
  assumes "b \<le> i" and "a + (i - b) < two64" and "b < two64"
  shows "add64 (sub64 a b) i = a + (i - b)"
proof -
  have "add64 (sub64 a b) i = (a + two64 - b + i) mod two64"
    using assms(3) by (simp add: add64_def sub64_def mod_simps)
  also have "a + two64 - b + i = a + (i - b) + two64" using assms by simp
  also have "\<dots> mod two64 = a + (i - b)" using assms(2) by simp
  finally show ?thesis .
qed

lemma chunk_offsets_start:
  assumes "s mod cap h + n \<le> cap h" and "max_head_size h + cap h < two64" and "L < two64"
  shows "chunk_offsets h s n L (sub64 (max_head_size h + s mod cap h) L) (s div cap h)"
  unfolding chunk_offsets_def
proof (intro conjI allI impI)
  fix i assume "L \<le> i \<and> i \<le> L + n"
  then show "add64 (sub64 (max_head_size h + s mod cap h) L) i = max_head_size h + s mod cap h + (i - L)"
    using assms by (intro add64_sub64) auto
qed (use assms in simp_all)

text \<open>The bytes from a position to the tail.\<close>

definition unread :: "hctx \<Rightarrow> cls_queue_head \<Rightarrow> nat \<Rightarrow> bytes" where
  "unread hc h s = ring (content hc) (max_head_size h) (cap h) s (pos h (tail h) - s)"

lemma unread_split:
  "s + c \<le> pos h (tail h) \<Longrightarrow>
   unread hc h s = ring (content hc) (max_head_size h) (cap h) s c @ unread hc h (s + c)"
  using ring_append [of "content hc" "max_head_size h" "cap h" s c "pos h (tail h) - (s + c)"]
  by (simp add: unread_def)

lemma length_unread [simp]: "length (unread hc h s) = pos h (tail h) - s"
  by (simp add: unread_def)

lemma read_unread:
  assumes rep: "ring_rep hc h X" and med: "medium_ok hc" and s: "s + c \<le> pos h (tail h)"
    and fit: "s mod cap h + c \<le> cap h" and c: "0 < c"
  shows "cls_cxx_read2 hc (max_head_size h + s mod cap h) c =
    Inr (ring (content hc) (max_head_size h) (cap h) s c)"
proof -
  note bounds = ring_rep_bounds [OF rep]
  have "s mod cap h + c \<le> min (pos h (tail h)) (cap h)"
    using s fit mod_less_eq_dividend [of s "cap h"] by linarith
  moreover have "max_head_size h + min (pos h (tail h)) (cap h) \<le> length (content hc)"
    using rep s c unfolding ring_rep_def by force
  ultimately have len: "max_head_size h + s mod cap h + c \<le> length (content hc)" by linarith
  have "cls_cxx_read2 hc (max_head_size h + s mod cap h) c =
      Inr (obj_read (content hc) (max_head_size h + s mod cap h) c)"
    using bounds fit c med by (intro cls_read_ok) (auto simp: medium_ok_def)
  then show ?thesis using ring_read [OF fit len] by simp
qed

text \<open>One turn of the outer loop.\<close>

lemma outer_turn:
  assumes rep: "ring_rep hc h X" and med: "medium_ok hc" and c: "carry h s (unread hc h s) es p st"
    and s: "s + n \<le> pos h (tail h)" and fit: "s mod cap h + n \<le> cap h" and n: "0 < n"
    and cnt: "length (ret_entries st) < mx"
  obtains i st' where "cls_cxx_read2 hc (max_head_size h + s mod cap h) n =
      Inr (ring (content hc) (max_head_size h) (cap h) s n)"
    and "list_inner mx (sub64 (max_head_size h + s mod cap h) (length (bl st))) (s div cap h) 0
      (bl st @ ring (content hc) (max_head_size h) (cap h) s n) (st\<lparr>bl := []\<rparr>) = Inr (i, st')"
    and "chunk_done h mx s n (length (bl st)) (unread hc h (s + n)) es p st i st'"
proof -
  let ?chunk = "ring (content hc) (max_head_size h) (cap h) s n"
  note bounds = ring_rep_bounds [OF rep]
  have offs: "chunk_offsets h s (length ?chunk) (length (bl st))
      (sub64 (max_head_size h + s mod cap h) (length (bl st))) (s div cap h)"
    using fit bounds carry_total(2) [OF c] by (intro chunk_offsets_start) (simp_all add: two31_less)
  have c': "carry h s (?chunk @ unread hc h (s + n)) es p st" using c unread_split [OF s, of hc] by simp
  have ne: "?chunk \<noteq> []" using n by (simp flip: length_greater_0_conv)
  from list_inner_carry [OF c' ne cnt offs] obtain i st' where
    "list_inner mx (sub64 (max_head_size h + s mod cap h) (length (bl st))) (s div cap h) 0
      (bl st @ ?chunk) (st\<lparr>bl := []\<rparr>) = Inr (i, st')"
    and "chunk_done h mx s n (length (bl st)) (unread hc h (s + n)) es p st i st'"
    by (auto simp: chunk_done_def)
  with read_unread [OF rep med s fit n] show ?thesis by (rule that)
qed

text \<open>What the outer loop returns: as many entries as were asked for, and the marker after them.\<close>

definition list_done ::
  "cls_queue_head \<Rightarrow> nat \<Rightarrow> bytes list \<Rightarrow> nat \<Rightarrow> list_state \<Rightarrow> cls_queue_marker \<Rightarrow> bool \<Rightarrow> list_state \<Rightarrow> bool" where
  "list_done h mx es p st nm tr st' \<longleftrightarrow>
     (let k = min (mx - length (ret_entries st)) (length es) in
      ret_entries st' = ret_entries st @ listed h p (take k es) \<and>
      wrap_marker h nm = marker_at h (p + length (stream (take k es))) \<and> (tr \<or> k = length es))"

lemma list_done_trans:
  assumes "ret_entries st1 = ret_entries st @ listed h p (take k es)" and "k \<le> length es"
    and "length (ret_entries st1) < mx"
    and "list_done h mx (drop k es) (p + length (stream (take k es))) st1 nm tr st'"
  shows "list_done h mx es p st nm tr st'"
proof -
  let ?k2 = "min (mx - length (ret_entries st1)) (length (drop k es))"
  have len: "length (ret_entries st1) = length (ret_entries st) + k" using assms(1,2) by simp
  have k: "min (mx - length (ret_entries st)) (length es) = k + ?k2"
    using assms(2,3) len by (simp add: min_def) linarith
  have take: "take (k + ?k2) es = take k es @ take ?k2 (drop k es)" by (rule take_add)
  have "length (stream (take k es)) + length (stream (take ?k2 (drop k es))) = length (stream (take (k + ?k2) es))"
    unfolding take by simp
  then show ?thesis
    using assms(1,4) len unfolding list_done_def Let_def k take listed_append
    by (auto simp: add.assoc)
qed

lemma wrap_tail: "ring_rep hc h X \<Longrightarrow> wrap_marker h (tail h) = marker_at h (pos h (tail h))"
  using marker_at_pos [of h "tail h"] unfolding ring_rep_def by (simp add: wrap_marker_def marker_ok_def)

lemma list_done_end:
  assumes "ring_rep hc h X" and "carry h (pos h (tail h)) [] es p st"
  shows "list_done h mx es p st (tail h) False st"
  using assms(2) wrap_tail [OF assms(1)] carry_end [OF assms(2)] by (simp add: list_done_def)

text \<open>The part the loop reads at a stretch: to the end of the ring when the tail lies behind it, else
  to the tail.\<close>

definition stretch :: "cls_queue_head \<Rightarrow> nat \<Rightarrow> nat \<Rightarrow> bool \<Rightarrow> bool" where
  "stretch h s n w \<longleftrightarrow>
     (if w then n = cap h - s mod cap h \<and> s div cap h + 1 = gen (tail h)
      else s + n = pos h (tail h) \<and> s mod cap h + n \<le> cap h)"

lemma stretch_facts:
  assumes rep: "ring_rep hc h X" and "stretch h s n w"
  shows "s + n \<le> pos h (tail h)" and "s mod cap h + n \<le> cap h"
proof -
  note bounds = ring_rep_bounds [OF rep]
  have m: "s mod cap h < cap h" using bounds by simp
  show "s mod cap h + n \<le> cap h" using assms(2) m by (auto simp: stretch_def split: if_splits)
  show "s + n \<le> pos h (tail h)"
  proof (cases w)
    case True
    then have n: "s mod cap h + n = cap h" and g: "s div cap h + 1 = gen (tail h)"
      using assms(2) m by (auto simp: stretch_def)
    have "s + n = s div cap h * cap h + (s mod cap h + n)" by (simp add: div_mult_mod_eq flip: add.assoc)
    also have "\<dots> = gen (tail h) * cap h" unfolding n g [symmetric] by simp
    finally show ?thesis by (simp add: pos_def)
  qed (use assms(2) in \<open>simp add: stretch_def\<close>)
qed

lemma stretch_next:
  assumes rep: "ring_rep hc h X" and st: "stretch h s n w" and c: "c < n"
  shows "stretch h (s + c) (n - c) w" and "(s + c) mod cap h = s mod cap h + c" and "(s + c) div cap h = s div cap h"
proof -
  have "s mod cap h + c < cap h" using stretch_facts(2) [OF rep st] c by simp
  then show "(s + c) mod cap h = s mod cap h + c" "(s + c) div cap h = s div cap h"
    using mod_add_left_eq [of s "cap h" c] div_add1_eq [of s c "cap h"] by simp_all
  then show "stretch h (s + c) (n - c) w" using st c by (auto simp: stretch_def split: if_splits)
qed

lemma stretch_wrap:
  assumes rep: "ring_rep hc h X" and st: "stretch h s n True"
  shows "stretch h (s + n) (offset (tail h) - max_head_size h) False" and "(s + n) mod cap h = 0"
    and "(s + n) div cap h = s div cap h + 1"
proof -
  note bounds = ring_rep_bounds [OF rep]
  have n: "s mod cap h + n = cap h" and g: "s div cap h + 1 = gen (tail h)"
    using st bounds(6) mod_less_divisor [of "cap h" s] by (auto simp: stretch_def)
  have "s + n = s div cap h * cap h + (s mod cap h + n)" by (simp add: div_mult_mod_eq flip: add.assoc)
  also have "\<dots> = gen (tail h) * cap h" unfolding n g [symmetric] by simp
  finally have eq: "s + n = gen (tail h) * cap h" .
  then show "(s + n) mod cap h = 0" "(s + n) div cap h = s div cap h + 1" using bounds g by simp_all
  with eq show "stretch h (s + n) (offset (tail h) - max_head_size h) False"
    using bounds by (auto simp: stretch_def pos_def)
qed

lemma list_done_max:
  assumes rep: "ring_rep hc h X" and fit: "s + c \<le> pos h (tail h)" "s mod cap h + c \<le> cap h"
    and k: "k \<le> length es" "ret_entries st1 = ret_entries st @ listed h p (take k es)"
    and "length (ret_entries st1) = mx" and i: "L \<le> i" "i \<le> L + c" "p + length (stream (take k es)) = s + (i - L)"
    and L: "L < two64"
  shows "list_done h mx es p st
    \<lparr>offset = add64 (sub64 (max_head_size h + s mod cap h) L) i, gen = s div cap h\<rparr> True st1"
proof -
  note bounds = ring_rep_bounds [OF rep]
  have "mx = length (ret_entries st) + k" using assms(6) k by simp
  then have kk: "min (mx - length (ret_entries st)) (length es) = k" using k(1) by simp
  have ofs: "add64 (sub64 (max_head_size h + s mod cap h) L) i = max_head_size h + s mod cap h + (i - L)"
    using fit(2) i bounds(9) L by (intro add64_sub64) (auto simp: two31_def two64_def)
  have "(s + (i - L)) div cap h \<le> pos h (tail h) div cap h" using fit(1) i(2) by (intro div_le_mono) simp
  also have "\<dots> = gen (tail h)" using rep unfolding ring_rep_def by (intro pos_div_mod) blast
  finally have "(s + (i - L)) div cap h < two64" using bounds by simp
  then have "wrap_marker h \<lparr>offset = max_head_size h + s mod cap h + (i - L), gen = s div cap h\<rparr> =
      marker_at h (s + (i - L))"
    using fit(2) i(2) bounds by (intro marker_at_wrap) auto
  then show ?thesis unfolding list_done_def Let_def kk ofs i(3) using k(2) by simp
qed

lemma list_outer_ok:
  assumes rep: "ring_rep hc h X" and med: "medium_ok hc"
    and "carry h s (unread hc h s) es p st" and "stretch h s n w" and "length (ret_entries st) < mx"
  shows "\<exists>nm tr st'. list_outer hc h mx (max_head_size h + s mod cap h) n w (s div cap h) st = Inr (nm, tr, st') \<and>
    list_done h mx es p st nm tr st'"
  using assms(3-5)
proof (induction "n + (if w then 1 + cap h else 0)" arbitrary: s n w es p st rule: less_induct)
  case less
  note bounds = ring_rep_bounds [OF rep]
  let ?so = "max_head_size h + s mod cap h" and ?g = "s div cap h"
  define c where "c = (if n > 1024 then 1024 else n)"
  note outer = list_outer.simps [of hc h mx ?so n w ?g st]
  show ?case
  proof (cases "n = 0")
    case True
    then have "\<not> w" using less.prems(2) mod_less_divisor [OF bounds(6), of s] by (auto simp: stretch_def)
    then have "s = pos h (tail h)" using less.prems(2) True by (simp add: stretch_def)
    then have "carry h (pos h (tail h)) [] es p st" using less.prems(1) by (simp add: unread_def)
    then have "list_done h mx es p st (tail h) False st" by (rule list_done_end [OF rep])
    moreover have "list_outer hc h mx ?so n w ?g st = Inr (tail h, False, st)"
      unfolding outer using True by (simp add: Let_def)
    ultimately show ?thesis by blast
  next
    case False
    then have c: "0 < c" "c \<le> n" by (simp_all add: c_def)
    have fit: "s + c \<le> pos h (tail h)" "s mod cap h + c \<le> cap h"
      using stretch_facts [OF rep less.prems(2)] c by simp_all
    obtain i st1 where turn: "cls_cxx_read2 hc ?so c = Inr (ring (content hc) (max_head_size h) (cap h) s c)"
      "list_inner mx (sub64 ?so (length (bl st))) ?g 0
        (bl st @ ring (content hc) (max_head_size h) (cap h) s c) (st\<lparr>bl := []\<rparr>) = Inr (i, st1)"
      and done1: "chunk_done h mx s c (length (bl st)) (unread hc h (s + c)) es p st i st1"
      using outer_turn [OF rep med less.prems(1) fit c(1) less.prems(3)] by metis
    obtain k where k: "k \<le> length es" "ret_entries st1 = ret_entries st @ listed h p (take k es)"
      and cases: "length (ret_entries st1) = mx \<and> length (bl st) \<le> i \<and> i \<le> length (bl st) + c \<and>
          p + length (stream (take k es)) = s + (i - length (bl st)) \<or>
        length (ret_entries st1) < mx \<and> carry h (s + c) (unread hc h (s + c)) (drop k es) (p + length (stream (take k es))) st1"
      using done1 unfolding chunk_done_def Let_def by blast
    have L: "length (bl st) < two64" using carry_total(2) [OF less.prems(1)] .
    note step = outer [unfolded Let_def c_def [symmetric]]
    show ?thesis
    proof (cases "length (ret_entries st1) = mx")
      case True
      then have "list_done h mx es p st \<lparr>offset = add64 (sub64 ?so (length (bl st))) i, gen = ?g\<rparr> True st1"
        using cases by (intro list_done_max [OF rep fit k _ _ _ _ L]) auto
      then show ?thesis unfolding step using c(1) turn True by (simp, blast)
    next
      case False
      let ?p = "p + length (stream (take k es))" and ?es = "drop k es"
      have more: "length (ret_entries st1) < mx" and c1: "carry h (s + c) (unread hc h (s + c)) ?es ?p st1"
        using False cases by auto
      have "\<exists>nm tr st'. list_outer hc h mx ?so n w ?g st = Inr (nm, tr, st') \<and> list_done h mx ?es ?p st1 nm tr st'"
      proof (cases "n - c = 0")
        case last: True
        then have "c = n" using c(2) by simp
        show ?thesis
        proof (cases w)
          case True
          have st: "stretch h s n True" using less.prems(2) True by simp
          note wr = stretch_wrap [OF rep st]
          have "?g + 1 = gen (tail h)" using st by (simp add: stretch_def)
          then have g: "add64 ?g 1 = (s + n) div cap h" unfolding wr(3) using bounds by (intro add64_eq) simp
          have sub: "sub64 (offset (tail h)) (max_head_size h) = offset (tail h) - max_head_size h"
            using bounds by (intro sub64_eq) (simp_all add: two31_less)
          have "list_outer hc h mx ?so n w ?g st =
              list_outer hc h mx (max_head_size h + (s + n) mod cap h) (offset (tail h) - max_head_size h) False ((s + n) div cap h) st1"
            unfolding step wr(2) using c(1) turn False True more last sub g by simp
          moreover have "offset (tail h) - max_head_size h < cap h" using bounds by linarith
          ultimately show ?thesis
            using less.hyps [OF _ c1 [unfolded \<open>c = n\<close>] wr(1) more] True by simp
        next
          case nw: False
          have "s + c = pos h (tail h)" using less.prems(2) nw \<open>c = n\<close> by (simp add: stretch_def)
          then have "carry h (pos h (tail h)) [] ?es ?p st1" using c1 by (simp add: unread_def)
          moreover have "list_outer hc h mx ?so n w ?g st = Inr (tail h, False, st1)"
            unfolding step using c(1) turn False nw last by simp
          ultimately show ?thesis using list_done_end [OF rep] by blast
        qed
      next
        case nonzero: False
        then have "c < n" using c(2) by simp
        note nx = stretch_next [OF rep less.prems(2) this]
        have so: "add64 ?so c = max_head_size h + (s + c) mod cap h"
          unfolding nx(2) using fit(2) bounds(9) by (subst add64_eq) (auto simp: two31_def two64_def)
        have "list_outer hc h mx ?so n w ?g st =
            list_outer hc h mx (max_head_size h + (s + c) mod cap h) (n - c) w ((s + c) div cap h) st1"
          unfolding step using c(1) turn False more nonzero so nx(3) by simp
        then show ?thesis using less.hyps [OF _ c1 nx(1) more] c(1) \<open>c < n\<close> by simp
      qed
      then show ?thesis using list_done_trans [OF k(2) k(1) more] by blast
    qed
  qed
qed

lemma same_gen_order:
  fixes a b C :: nat
  assumes "a \<le> b" and "a div C = b div C"
  shows "a mod C \<le> b mod C" and "b mod C - a mod C = b - a"
proof -
  have "a = b div C * C + a mod C" "b = b div C * C + b mod C"
    using div_mult_mod_eq [of a C] div_mult_mod_eq [of b C] assms(2) by simp_all
  then show "a mod C \<le> b mod C" "b mod C - a mod C = b - a" using assms(1) by linarith+
qed

lemma extent_stretch:
  assumes rep: "ring_rep hc h X" and s: "pos h (front h) \<le> s" "s < pos h (tail h)"
  obtains n w where "list_extent h (max_head_size h + s mod cap h) = (n, w)" and "stretch h s n w"
proof -
  note bounds = ring_rep_bounds [OF rep]
  have okf: "marker_ok h (front h)" and okt: "marker_ok h (tail h)" using rep by (auto simp: ring_rep_def)
  note f = pos_div_mod [OF okf] and t = pos_div_mod [OF okt]
  let ?so = "max_head_size h + s mod cap h"
  have m: "s mod cap h < cap h" using bounds by simp
  have gs: "gen (front h) \<le> s div cap h" "s div cap h \<le> gen (tail h)"
    using div_le_mono [OF s(1), of "cap h"] div_le_mono [of s "pos h (tail h)" "cap h"] s f t by simp_all
  have sub: "sub64 (offset (tail h)) ?so = pos h (tail h) - s \<and> s mod cap h + (pos h (tail h) - s) \<le> cap h \<and> ?so < offset (tail h)"
    if "s div cap h = gen (tail h)"
  proof -
    note ord = same_gen_order [of s "pos h (tail h)" "cap h"]
    have "s mod cap h \<le> pos h (tail h) mod cap h" "pos h (tail h) mod cap h - s mod cap h = pos h (tail h) - s"
      using ord s that t by simp_all
    moreover then have "s mod cap h < pos h (tail h) mod cap h" using s by linarith
    moreover have "offset (tail h) = max_head_size h + pos h (tail h) mod cap h" using t bounds by simp
    moreover have "pos h (tail h) mod cap h < cap h" using bounds by simp
    ultimately have lt: "?so < offset (tail h)" and "s mod cap h + (pos h (tail h) - s) \<le> cap h"
      and eq: "offset (tail h) - ?so = pos h (tail h) - s"
      by linarith+
    moreover have "sub64 (offset (tail h)) ?so = offset (tail h) - ?so"
      using lt bounds by (intro sub64_eq) (simp_all add: two31_def two64_def)
    ultimately show ?thesis by simp
  qed
  show ?thesis
    using rep
  proof (cases rule: ring_rep_shape)
    case flat
    then have g: "s div cap h = gen (tail h)" using gs by simp
    have "offset (tail h) > offset (front h)"
      using flat s rep by (auto simp: ring_rep_def)
    then have "list_extent h ?so = (pos h (tail h) - s, False)" using sub [OF g] by (simp add: list_extent_def)
    moreover have "stretch h s (pos h (tail h) - s) False" using sub [OF g] s by (simp add: stretch_def)
    ultimately show ?thesis by (rule that)
  next
    case wrapped
    show ?thesis
    proof (cases "s div cap h = gen (tail h)")
      case True
      then have "list_extent h ?so = (pos h (tail h) - s, False)"
        using sub wrapped by (auto simp: list_extent_def)
      moreover have "stretch h s (pos h (tail h) - s) False" using sub [OF True] s by (simp add: stretch_def)
      ultimately show ?thesis by (rule that)
    next
      case False
      then have g: "s div cap h = gen (front h)" using gs wrapped by linarith
      have "?so \<ge> offset (front h)" using same_gen_order(1) [of "pos h (front h)" s "cap h"] s(1) f g bounds by simp
      then have "list_extent h ?so = (sub64 (queue_size h) ?so, True)" using wrapped by (simp add: list_extent_def)
      moreover have "sub64 (queue_size h) ?so = cap h - s mod cap h"
        using sub64_eq [of ?so "queue_size h"] bounds m by (simp add: two31_less)
      ultimately have "list_extent h ?so = (cap h - s mod cap h, True)" by simp
      moreover have "stretch h s (cap h - s mod cap h) True" using g wrapped by (simp add: stretch_def)
      ultimately show ?thesis by (rule that)
    qed
  qed
qed

text \<open>The stream from the start of one of the entries on.\<close>

lemma unread_stream:
  assumes "queue_rep hc h (pre @ es)"
  shows "unread hc h (pos h (front h) + length (stream pre)) = stream es"
    and "pos h (tail h) = pos h (front h) + length (stream pre) + length (stream es)"
    and "d \<in> set es \<Longrightarrow> length d < two64"
proof -
  let ?f = "pos h (front h)" and ?R = "ring (content hc) (max_head_size h) (cap h)"
  have rep: "ring_rep hc h (stream pre @ stream es)" using assms by (simp add: queue_rep_def)
  then show t: "pos h (tail h) = ?f + length (stream pre) + length (stream es)"
    and "d \<in> set es \<Longrightarrow> length d < two64"
  proof -
    show "pos h (tail h) = ?f + length (stream pre) + length (stream es)" using rep by (simp add: ring_rep_def)
    assume "d \<in> set es"
    then obtain a b where "es = a @ d # b" by (auto simp: in_set_conv_decomp)
    then have "length d \<le> cap h" using ring_rep_bounds(10) [OF rep] by simp
    then show "length d < two64" using ring_rep_bounds(9) [OF rep] by (simp add: two31_def two64_def)
  qed
  have "?R ?f (length (stream pre)) @ ?R (?f + length (stream pre)) (length (stream es)) = stream pre @ stream es"
    using rep ring_append [of "content hc" "max_head_size h" "cap h" ?f "length (stream pre)" "length (stream es)"]
    by (simp add: ring_rep_def)
  then show "unread hc h (?f + length (stream pre)) = stream es"
    unfolding unread_def t by simp
qed

lemma marker_at_inject: "marker_at h p = marker_at h q \<longleftrightarrow> p = q"
  by (metis pos_marker_at)

lemma queue_list_entries_ok:
  assumes rep: "queue_rep hc h (pre @ es)" and med: "medium_ok hc" and H: "0 < max_head_size h"
    and mx: "0 < lop_max op" and es: "es \<noteq> []"
    and start: "start_marker op = to_str (marker_at h (pos h (front h) + length (stream pre))) \<or>
      start_marker op = [] \<and> pre = []"
  defines "s \<equiv> pos h (front h) + length (stream pre)" and "k \<equiv> min (lop_max op) (length es)"
  shows "queue_list_entries hc op h = Inr \<lparr>is_truncated = (k < length es),
    next_marker = to_str (marker_at h (s + length (stream (take k es)))), entries = listed h s (take k es)\<rparr>"
proof -
  have rr: "ring_rep hc h (stream (pre @ es))" using rep by (simp only: queue_rep_def)
  note bounds = ring_rep_bounds [OF rr] and un = unread_stream [OF rep, folded s_def]
  have okf: "marker_ok h (front h)" using rr by (simp add: ring_rep_def)
  have ne: "\<not> queue_empty h" using ring_rep_empty [OF rr] es by simp
  have "length (stream es) \<noteq> 0" using es by (simp only: length_0_conv stream_eq_Nil not_False_eq_True)
  then have st: "pos h (front h) \<le> s" "s < pos h (tail h)" using un(2) by (simp_all add: s_def)
  obtain n w where ext: "list_extent h (max_head_size h + s mod cap h) = (n, w)" and str: "stretch h s n w"
    by (rule extent_stretch [OF rr st])
  have "s div cap h \<le> gen (tail h)"
    using div_le_mono [of s "pos h (tail h)" "cap h"] st rr pos_div_mod(1) [of h "tail h"] by (simp add: ring_rep_def)
  moreover have "max_head_size h + s mod cap h < two31"
    using mod_less_divisor [OF bounds(6), of s] bounds(9) by linarith
  ultimately have fits: "offset (marker_at h s) < two64" "gen (marker_at h s) < two64"
    using bounds(8) by (simp_all add: marker_at_def two31_less)
  define start where "start = snd (from_str (start_marker op) \<lparr>offset = 0, gen = 0\<rparr>)"
  have beg: "(if offset start = 0 then (offset (front h), gen (front h)) else (offset start, gen start)) =
      (max_head_size h + s mod cap h, s div cap h)"
  proof (cases "start_marker op = []")
    case True
    then have "start = \<lparr>offset = 0, gen = 0\<rparr>" by (simp add: start_def)
    moreover have "pre = []" using start True by (auto simp: to_str_def)
    ultimately show ?thesis using marker_at_pos [OF okf] by (simp add: s_def marker_at_def prod_eq_iff cls_queue_marker.defs) (metis cls_queue_marker.select_convs)
  next
    case False
    then have "start = marker_at h s"
      using start from_to_str [OF fits, of "\<lparr>offset = 0, gen = 0\<rparr>"] by (simp add: start_def s_def)
    then show ?thesis using H by (simp add: marker_at_def)
  qed
  have "carry h s (unread hc h s) es s list_state0"
    using un(1,3) by (simp add: carry_def rest_ok_def list_state0_def)
  from list_outer_ok [OF rr med this str, of "lop_max op"] mx obtain nm tr st'
    where out: "list_outer hc h (lop_max op) (max_head_size h + s mod cap h) n w (s div cap h) list_state0 = Inr (nm, tr, st')"
      and ld: "list_done h (lop_max op) es s list_state0 nm tr st'"
    by (auto simp: list_state0_def)
  have nm: "wrap_marker h nm = marker_at h (s + length (stream (take k es)))" "tr \<or> k = length es"
    "ret_entries st' = listed h s (take k es)"
    using ld unfolding list_done_def Let_def by (simp_all add: k_def list_state0_def)
  have tl: "tail h = marker_at h (s + length (stream es))"
    using marker_at_pos [of h "tail h"] rr un(2) by (simp add: ring_rep_def)
  have "length (stream es) = length (stream (take k es)) + length (stream (drop k es))"
    by (metis append_take_drop_id length_append stream_append)
  then have "marker_at h (s + length (stream (take k es))) = tail h \<longleftrightarrow> k = length es"
    unfolding tl marker_at_inject by (auto simp: k_def min_def)
  then have "(if offset (wrap_marker h nm) = offset (tail h) \<and> gen (wrap_marker h nm) = gen (tail h)
      then False else tr) = (k < length es)"
    using nm(1,2) by (auto simp: k_def)
  moreover have "queue_list_entries hc op h = Inr \<lparr>is_truncated =
      (if offset (wrap_marker h nm) = offset (tail h) \<and> gen (wrap_marker h nm) = gen (tail h) then False else tr),
      next_marker = to_str (wrap_marker h nm), entries = ret_entries st'\<rparr>"
    unfolding queue_list_entries_def Let_def start_def [symmetric] beg using ne ext out by simp
  ultimately show ?thesis using nm by simp
qed

end
