(* ===== verification/Cls_Queue_Fifo.thy ===== *)
theory Cls_Queue_Fifo
  imports Cls_Queue_List
begin

text \<open>
  Removal, the methods of the class on the stored object, and the queue as a whole: \<open>fifo\<close> is the
  interface a consumer relies on, and the class's methods, called with encoded arguments, provide it.
\<close>

subsection \<open>Removal\<close>

lemma obj_zero_0 [simp]: "obj_zero obj ofs 0 = obj"
  by (simp add: obj_zero_def)

lemma zero_range_ok:
  assumes "ofs + n \<le> osd_max_object_size hc" and "osd_max_object_size hc < two31"
  shows "zero_range hc ofs n = Inr (hc\<lparr>content := obj_zero (content hc) ofs n\<rparr>)"
  using assms by (cases "n = 0") (simp_all add: zero_range_def cls_zero_ok)

lemma marker_at_ok:
  assumes "ring_rep hc h X" and "p \<le> pos h (tail h)"
  shows "marker_ok h (marker_at h p)" and "wrap_marker h (marker_at h p) = marker_at h p"
    and "marker_fits (marker_at h p)"
proof -
  note bounds = ring_rep_bounds [OF assms(1)]
  have m: "p mod cap h < cap h" using bounds by simp
  have "p div cap h \<le> pos h (tail h) div cap h" using assms(2) by (rule div_le_mono)
  also have "\<dots> = gen (tail h)" using assms(1) unfolding ring_rep_def by (intro pos_div_mod) blast
  finally have g: "p div cap h < two64" using bounds by simp
  then show "marker_ok h (marker_at h p)" using m bounds by (simp add: marker_ok_def marker_at_def)
  then show "wrap_marker h (marker_at h p) = marker_at h p" by (simp add: wrap_marker_def marker_ok_def)
  have "max_head_size h + p mod cap h < two31" using m bounds by linarith
  then show "marker_fits (marker_at h p)" using g by (simp add: marker_fits_def marker_at_def)
qed

lemma ring_rep_drop:
  assumes rep: "ring_rep hc h (P @ Q)" and len: "length c = length (content hc)"
  defines "e \<equiv> pos h (front h) + length P"
  assumes same: "ring c (max_head_size h) (cap h) e (length Q) =
      ring (content hc) (max_head_size h) (cap h) e (length Q)"
  shows "ring_rep (hc\<lparr>content := c\<rparr>) (h\<lparr>front := marker_at h e\<rparr>) Q"
proof -
  let ?h = "h\<lparr>front := marker_at h e\<rparr>"
  have eqs: "pos ?h = pos h" "cap ?h = cap h" "marker_ok ?h = marker_ok h"
    by (simp_all add: fun_eq_iff pos_def cap_def marker_ok_def)
  have t: "pos h (tail h) = e + length Q" and "length (P @ Q) \<le> cap h"
    and tail_len: "0 < pos h (tail h) \<longrightarrow> max_head_size h + min (pos h (tail h)) (cap h) \<le> length (content hc)"
    and okt: "marker_ok h (tail h)" and sz: "queue_size h \<le> osd_max_object_size hc" "osd_max_object_size hc < two31"
    using rep unfolding ring_rep_def e_def by auto
  then have ok: "marker_ok h (marker_at h e)" and Q: "length Q \<le> cap h"
    by (auto intro: marker_at_ok [OF rep])
  have "ring (content hc) (max_head_size h) (cap h) e (length Q) = Q"
    using rep ring_append [of "content hc" "max_head_size h" "cap h" "pos h (front h)" "length P" "length Q"]
    by (simp add: ring_rep_def e_def)
  with same have "ring c (max_head_size h) (cap h) e (length Q) = Q" by simp
  then show ?thesis
    using ok okt sz Q len tail_len unfolding ring_rep_def eqs by (simp add: pos_marker_at) (simp add: t)
qed

text \<open>What removal leaves.\<close>

definition removed :: "hctx \<Rightarrow> cls_queue_head \<Rightarrow> hctx \<Rightarrow> cls_queue_head \<Rightarrow> bytes \<Rightarrow> bool" where
  "removed hc h hc' h' X \<longleftrightarrow> ring_rep hc' h' X \<and> hc' = hc\<lparr>content := content hc'\<rparr> \<and> h' = h\<lparr>front := front h'\<rparr> \<and>
     (\<forall>i < max_head_size h. byte_at (content hc') i = byte_at (content hc) i) \<and>
     length (content hc') = length (content hc)"

lemma remove_flat:
  assumes rep: "ring_rep hc h (P @ Q)" and P: "P \<noteq> []"
  defines "e \<equiv> pos h (front h) + length P"
  assumes g: "e div cap h = gen (front h)"
  shows "\<exists>hc'. zero_range hc (offset (front h)) (sub64 (offset (marker_at h e)) (offset (front h))) = Inr hc' \<and>
      removed hc h hc' (h\<lparr>front := marker_at h e\<rparr>) Q"
    and "offset (marker_at h e) > offset (front h)"
proof -
  note bounds = ring_rep_bounds [OF rep]
  have okf: "marker_ok h (front h)" and t: "pos h (tail h) = e + length Q"
    using rep by (simp_all add: ring_rep_def e_def)
  note f = pos_div_mod [OF okf]
  have ofs: "offset (front h) = max_head_size h + pos h (front h) mod cap h" using f bounds by simp
  have m: "e mod cap h < cap h" using bounds by simp
  note ord = same_gen_order [of "pos h (front h)" e "cap h"]
  have d: "e mod cap h - pos h (front h) mod cap h = length P" "pos h (front h) mod cap h \<le> e mod cap h"
    using ord g f by (simp_all add: e_def)
  have "length P \<noteq> 0" using P by simp
  then show gt: "offset (marker_at h e) > offset (front h)"
    unfolding ofs marker_at_def using d by (simp, linarith)
  have "max_head_size h + e mod cap h < two31" using m bounds(9) by linarith
  then have "sub64 (offset (marker_at h e)) (offset (front h)) = offset (marker_at h e) - offset (front h)"
    using gt by (intro sub64_eq) (simp_all add: marker_at_def)
  then have n: "sub64 (offset (marker_at h e)) (offset (front h)) = length P"
    using d ofs by (simp add: marker_at_def)
  have fit: "pos h (front h) mod cap h + length P \<le> cap h" using d m by linarith
  let ?c = "obj_zero (content hc) (offset (front h)) (length P)"
  have z: "zero_range hc (offset (front h)) (length P) = Inr (hc\<lparr>content := ?c\<rparr>)"
    using rep fit ofs bounds by (intro zero_range_ok) (auto simp: ring_rep_def)
  have "ring_rep (hc\<lparr>content := ?c\<rparr>) (h\<lparr>front := marker_at h e\<rparr>) Q"
    unfolding e_def
  proof (rule ring_rep_drop [OF rep])
    show "ring ?c (max_head_size h) (cap h) (pos h (front h) + length P) (length Q) =
        ring (content hc) (max_head_size h) (cap h) (pos h (front h) + length P) (length Q)"
      unfolding ofs using fit bounds(10) by (intro ring_zeroed) simp_all
  qed simp
  then have "removed hc h (hc\<lparr>content := ?c\<rparr>) (h\<lparr>front := marker_at h e\<rparr>) Q"
    using bounds by (simp add: removed_def byte_at_zero)
  with n z show "\<exists>hc'. zero_range hc (offset (front h)) (sub64 (offset (marker_at h e)) (offset (front h))) = Inr hc' \<and>
      removed hc h hc' (h\<lparr>front := marker_at h e\<rparr>) Q" by auto
qed

lemma remove_wrapped:
  assumes rep: "ring_rep hc h (P @ Q)"
  defines "e \<equiv> pos h (front h) + length P"
  assumes g: "e div cap h = gen (front h) + 1"
  shows "\<exists>hc1 hc'. zero_range hc (offset (front h)) (sub64 (queue_size h) (offset (front h))) = Inr hc1 \<and>
      zero_range hc1 (max_head_size h) (sub64 (offset (marker_at h e)) (max_head_size h)) = Inr hc' \<and>
      removed hc h hc' (h\<lparr>front := marker_at h e\<rparr>) Q"
    and "offset (marker_at h e) \<le> offset (front h)"
proof -
  note bounds = ring_rep_bounds [OF rep]
  have okf: "marker_ok h (front h)" and t: "pos h (tail h) = e + length Q"
    and sz: "queue_size h \<le> osd_max_object_size hc" "osd_max_object_size hc < two31"
    using rep by (simp_all add: ring_rep_def e_def)
  note f = pos_div_mod [OF okf]
  have ofs: "offset (front h) = max_head_size h + pos h (front h) mod cap h" using f bounds by simp
  have m: "e mod cap h < cap h" using bounds by simp
  let ?n = "cap h - pos h (front h) mod cap h" and ?b = "(gen (front h) + 1) * cap h"
  have mf: "pos h (front h) mod cap h < cap h" using bounds by simp
  have b: "pos h (front h) + ?n = ?b" "?b mod cap h = 0" "e = ?b + e mod cap h"
  proof -
    have "pos h (front h) = gen (front h) * cap h + pos h (front h) mod cap h"
      using div_mult_mod_eq [of "pos h (front h)" "cap h"] f by simp
    then show "pos h (front h) + ?n = ?b" using mf by simp
    show "e = ?b + e mod cap h" using div_mult_mod_eq [of e "cap h"] g by simp
  qed simp
  have le: "e \<le> pos h (front h) + cap h" using bounds(10) by (simp add: e_def)
  then show "offset (marker_at h e) \<le> offset (front h)"
    unfolding marker_at_def ofs using b mf by simp
  have "sub64 (queue_size h) (offset (front h)) = queue_size h - offset (front h)"
    using bounds by (intro sub64_eq) (simp_all add: two31_less)
  then have n1: "sub64 (queue_size h) (offset (front h)) = ?n" using ofs bounds by simp
  have "max_head_size h + e mod cap h < two31" using m bounds(9) by linarith
  then have n2: "sub64 (offset (marker_at h e)) (max_head_size h) = e mod cap h"
    by (subst sub64_eq) (simp_all add: marker_at_def)
  let ?c1 = "obj_zero (content hc) (offset (front h)) ?n" and ?hc1 = "hc\<lparr>content := obj_zero (content hc) (offset (front h)) ?n\<rparr>"
  let ?c2 = "obj_zero ?c1 (max_head_size h) (e mod cap h)"
  have z1: "zero_range hc (offset (front h)) ?n = Inr ?hc1"
    using sz ofs mf bounds(5) by (intro zero_range_ok) auto
  have z2: "zero_range ?hc1 (max_head_size h) (e mod cap h) = Inr (?hc1\<lparr>content := ?c2\<rparr>)"
    using sz m bounds(5) zero_range_ok [of "max_head_size h" "e mod cap h" ?hc1] by simp
  have r1: "ring ?c1 (max_head_size h) (cap h) e (length Q) = ring (content hc) (max_head_size h) (cap h) e (length Q)"
    unfolding ofs using b bounds(10) mf by (intro ring_zeroed) (simp_all add: e_def)
  have r2: "ring (obj_zero ?c1 (max_head_size h + ?b mod cap h) (e mod cap h)) (max_head_size h) (cap h) e (length Q) =
      ring ?c1 (max_head_size h) (cap h) e (length Q)"
  proof (rule ring_zeroed)
    show "?b mod cap h + e mod cap h \<le> cap h" unfolding b(2) using m by simp
    show "?b + e mod cap h \<le> e" using b(3) by simp
    have "e + length Q \<le> pos h (front h) + cap h" using bounds(10) by (simp add: e_def)
    then show "e + length Q \<le> ?b + cap h" using b(1) by linarith
  qed
  have "ring_rep (hc\<lparr>content := ?c2\<rparr>) (h\<lparr>front := marker_at h e\<rparr>) Q"
    unfolding e_def
    by (rule ring_rep_drop [OF rep]) (use r1 r2 b(2) in \<open>simp_all add: e_def\<close>)
  then have "removed hc h (?hc1\<lparr>content := ?c2\<rparr>) (h\<lparr>front := marker_at h e\<rparr>) Q"
    using bounds by (simp add: removed_def byte_at_zero)
  then show "\<exists>hc1 hc'. zero_range hc (offset (front h)) (sub64 (queue_size h) (offset (front h))) = Inr hc1 \<and>
      zero_range hc1 (max_head_size h) (sub64 (offset (marker_at h e)) (max_head_size h)) = Inr hc' \<and>
      removed hc h hc' (h\<lparr>front := marker_at h e\<rparr>) Q"
    unfolding n1 n2 using z1 z2 by blast
qed

lemma queue_remove_ok:
  assumes rep: "queue_rep hc h (pre @ es)"
  defines "e \<equiv> pos h (front h) + length (stream pre)"
  shows "\<exists>hc' h'. queue_remove_entries hc (to_str (marker_at h e)) h = Inr (hc', h') \<and>
    removed hc h hc' h' (stream es) \<and> front h' = marker_at h e"
proof -
  have rr: "ring_rep hc h (stream pre @ stream es)" using rep by (simp add: queue_rep_def)
  note bounds = ring_rep_bounds [OF rr]
  have okf: "marker_ok h (front h)" and t: "pos h (tail h) = e + length (stream es)"
    using rr by (simp_all add: ring_rep_def e_def)
  have le: "e \<le> pos h (tail h)" using t by simp
  note mk = marker_at_ok [OF rr le]
  have fs: "snd (from_str (to_str (marker_at h e)) \<lparr>offset = 0, gen = 0\<rparr>) = marker_at h e"
    using mk(3) by (simp add: from_to_str marker_fits_def)
  have id: "removed hc h hc (h\<lparr>front := marker_at h e\<rparr>) (stream es)" if "pre = []"
    using that rr marker_at_pos [OF okf] by (simp add: removed_def e_def)
  have g0: "gen (marker_at h e) = e div cap h" by (simp add: marker_at_def)
  have g1: "add64 (gen (front h)) 1 \<noteq> gen (front h)"
    using bounds(7) by (auto simp: add64_def mod_Suc two64_def)
  note unf = queue_remove_entries_def [of hc "to_str (marker_at h e)" h, unfolded Let_def fs]
  show ?thesis
  proof (cases "pre = []")
    case True
    then have "marker_at h e = front h" using marker_at_pos [OF okf] by (simp add: e_def)
    then have "queue_remove_entries hc (to_str (marker_at h e)) h = Inr (hc, h\<lparr>front := marker_at h e\<rparr>)"
      unfolding unf using g1 mk(2) by auto
    then show ?thesis using id [OF True] by auto
  next
    case False
    then have P: "stream pre \<noteq> []" and ne: "\<not> queue_empty h" using ring_rep_empty [OF rr] by simp_all
    have gs: "gen (front h) \<le> e div cap h" "e div cap h \<le> gen (front h) + 1"
    proof -
      show "gen (front h) \<le> e div cap h"
        using div_le_mono [of "pos h (front h)" e "cap h"] pos_div_mod(1) [OF okf] by (simp add: e_def)
      have "e div cap h \<le> (pos h (front h) + cap h) div cap h"
        using bounds(10) by (intro div_le_mono) (simp add: e_def)
      then show "e div cap h \<le> gen (front h) + 1" using pos_div_mod(1) [OF okf] bounds(6)
          div_add_self2 [of "cap h" "pos h (front h)"] by simp
    qed
    show ?thesis
    proof (cases "e div cap h = gen (front h)")
      case True
      note fl = remove_flat [OF rr P, folded e_def, OF True]
      from fl(1) obtain hc' where "zero_range hc (offset (front h)) (sub64 (offset (marker_at h e)) (offset (front h))) = Inr hc'"
        and "removed hc h hc' (h\<lparr>front := marker_at h e\<rparr>) (stream es)" by blast
      then show ?thesis unfolding unf using ne fl(2) True g0 mk(2) by simp
    next
      case False
      then have g: "e div cap h = gen (front h) + 1" using gs by linarith
      note wr = remove_wrapped [OF rr, folded e_def, OF g]
      have ga: "add64 (gen (front h)) 1 = gen (front h) + 1"
        using mk(3) g g0 by (intro add64_eq) (simp add: marker_fits_def)
      from wr(1) obtain hc1 hc' where "zero_range hc (offset (front h)) (sub64 (queue_size h) (offset (front h))) = Inr hc1"
        "zero_range hc1 (max_head_size h) (sub64 (offset (marker_at h e)) (max_head_size h)) = Inr hc'"
        "removed hc h hc' (h\<lparr>front := marker_at h e\<rparr>) (stream es)" by blast
      then show ?thesis unfolding unf using ne wr(2) g g0 ga mk(2) by simp
    qed
  qed
qed

subsection \<open>The stored queue\<close>

text \<open>The object holds a head and the ring it describes. The configured object size is at most its
  default of 128 MB, so that every reply fits a frame.\<close>

definition queue_obj :: "hctx \<Rightarrow> cls_queue_head \<Rightarrow> bytes list \<Rightarrow> bool" where
  "queue_obj hc h ds \<longleftrightarrow> head_stored hc h \<and> medium_ok hc \<and> queue_rep hc h ds \<and>
     osd_max_object_size hc \<le> 134217728"

lemma byte_at_take:
  assumes "\<And>i. i < n \<Longrightarrow> byte_at c' i = byte_at c i" and "n \<le> length c" and "n \<le> length c'"
  shows "take n c' = take n c"
proof (rule nth_equalityI)
  show "length (take n c') = length (take n c)" using assms(2,3) by simp
  show "take n c' ! i = take n c ! i" if "i < length (take n c')" for i
    using that assms(1) [of i] assms(2,3) by (simp add: byte_at_def)
qed

text \<open>Writing the head back leaves the ring.\<close>

lemma ring_rep_head_write:
  assumes rep: "ring_rep hc h X" and len: "length b \<le> max_head_size h"
  shows "ring_rep (hc\<lparr>content := obj_write (content hc) 0 b\<rparr>) h X"
proof -
  have "ring (obj_write (content hc) 0 b) (max_head_size h) (cap h) p n = ring (content hc) (max_head_size h) (cap h) p n" for p n
    using len by (intro nth_equalityI) (auto simp: ring_nth byte_at_write)
  moreover have "length (content hc) \<le> length (obj_write (content hc) 0 b)" by (simp add: length_obj_write)
  ultimately show ?thesis using rep unfolding ring_rep_def by (auto intro: le_trans)
qed

lemma head_fits_markers:
  assumes fits: "head_fits h" and rep: "ring_rep hc h' X"
    and same: "h' = h\<lparr>tail := tail h', front := front h'\<rparr>"
  shows "head_fits h'"
proof -
  note bounds = ring_rep_bounds [OF rep]
  have "marker_fits (front h')" "marker_fits (tail h')"
    using bounds by (auto simp: marker_fits_def two31_def two64_def)
  moreover have "max_head_size h' = max_head_size h" "queue_size h' = queue_size h"
    "max_urgent_data_size h' = max_urgent_data_size h" "bl_urgent_data h' = bl_urgent_data h"
    by (subst same, simp)+
  ultimately show ?thesis using fits by (simp add: head_fits_def)
qed

lemma stored_after:
  assumes fits: "head_fits h" and med: "medium_ok hc'" and rep: "ring_rep hc' h' (stream ds)"
    and same: "h' = h\<lparr>tail := tail h', front := front h'\<rparr>" and sz: "osd_max_object_size hc' \<le> 134217728"
  shows "\<exists>hc2. queue_write_head hc' h' = Inr hc2 \<and> queue_obj hc2 h' ds \<and>
    osd_max_object_size hc2 = osd_max_object_size hc'"
proof -
  have fits': "head_fits h'" using head_fits_markers [OF fits rep same] .
  note bounds = ring_rep_bounds [OF rep]
  have "max_head_size h' < osd_max_object_size hc'" "osd_max_object_size hc' < two31"
    using rep bounds by (auto simp: ring_rep_def)
  from write_head_ok [OF fits' this]
  have "queue_write_head hc' h' = Inr (hc'\<lparr>content := obj_write (content hc') 0 (head_bytes h')\<rparr>)" .
  moreover have "queue_obj (hc'\<lparr>content := obj_write (content hc') 0 (head_bytes h')\<rparr>) h' ds"
    using head_stored_write [OF fits'] med sz fits' ring_rep_head_write [OF rep, of "head_bytes h'"]
    by (simp add: queue_obj_def medium_ok_def queue_rep_def head_fits_def)
  ultimately show ?thesis by simp
qed

subsection \<open>Arguments and replies\<close>

lemma length_stream_ge: "length ds * 10 \<le> length (stream ds)"
  by (induction ds) simp_all

lemma length_enc_list_bl: "length (enc_list enc_bl ds) \<le> 4 + length (stream ds)"
  by (induction ds) (simp_all add: enc_list_def)

lemma dec_enqueue_op_enc:
  assumes "length (stream ds) < two31"
  shows "dec_enqueue_op (enc_enqueue_op ds) = Some (ds, [])"
proof -
  have "length ds < two32" using length_stream_ge [of ds] assms by (simp add: two31_def two32_def)
  moreover have "length d < two32" if "d \<in> set ds" for d
  proof -
    have "\<exists>a b. ds = a @ d # b" using that by (simp add: in_set_conv_decomp)
    then obtain a b where "ds = a @ d # b" by blast
    then have "length d \<le> length (stream ds)" by simp
    with assms show ?thesis by (simp add: two31_def two32_def)
  qed
  ultimately have "dec_list dec_bl (enc_list enc_bl ds @ []) = Some (ds, [])"
    by (intro dec_list_enc) (auto simp: dec_bl_enc)
  moreover have "length (enc_list enc_bl ds) < two32"
    using length_enc_list_bl [of ds] assms by (simp add: two31_def two32_def)
  ultimately show ?thesis
    unfolding dec_enqueue_op_def enc_enqueue_op_def by (intro dec_struct_enc_all) simp_all
qed

lemma dec_remove_op_enc:
  assumes "length m < two31"
  shows "dec_remove_op (enc_remove_op m) = Some (m, [])"
proof -
  have len: "4 + length m < two32" "length m < two32" using assms by (simp_all add: two31_def two32_def)
  show ?thesis
    unfolding dec_remove_op_def enc_remove_op_def
    by (rule dec_struct_enc_all) (use len in \<open>simp_all add: dec_str_enc_all\<close>)
qed

lemma dec_list_op_enc:
  assumes "lop_max p < two64" and "length (start_marker p) < two31"
  shows "dec_list_op (enc_list_op p) = Some (p, [])"
proof -
  have len: "12 + length (start_marker p) < two32" "length (start_marker p) < two32"
    using assms by (simp_all add: two31_def two32_def)
  show ?thesis
    unfolding dec_list_op_def enc_list_op_def
    by (rule dec_struct_enc_all) (use len assms in \<open>simp_all add: dec_enc dec_str_enc_all\<close>)
qed

lemma length_to_string: "n < 10 ^ Suc k \<Longrightarrow> length (to_string n) \<le> Suc k"
proof (induction k arbitrary: n)
  case 0
  then show ?case by (simp add: to_string.simps [of n])
next
  case (Suc k)
  then have "n div 10 < 10 ^ Suc k" by (simp add: div_less_iff_less_mult)
  from Suc.IH [OF this] show ?case by (simp add: to_string.simps [of n])
qed

lemma length_to_str:
  assumes "marker_fits m"
  shows "length (to_str m) \<le> 41"
proof -
  have "two64 \<le> 10 ^ Suc 19" by (simp add: two64_def)
  then have "length (to_string (gen m)) \<le> 20" "length (to_string (offset m)) \<le> 20"
    using assms length_to_string [of _ 19] by (auto simp: marker_fits_def)
  then show ?thesis by (simp add: to_str_def)
qed

definition entry_fits :: "cls_queue_entry \<Rightarrow> bool" where
  "entry_fits e \<longleftrightarrow> length (data e) \<le> 134217728 \<and> length (marker e) \<le> 41"

lemma dec_entry_enc:
  assumes "entry_fits e"
  shows "dec_entry (enc_entry e @ r) = Some (e, r)"
  unfolding dec_entry_def enc_entry_def
  by (rule dec_struct_enc) (use assms in \<open>simp_all add: entry_fits_def dec_enc two32_def\<close>)

lemma length_enc_entries:
  "\<forall>e\<in>set es. entry_fits e \<Longrightarrow> length (concat (map enc_entry es)) \<le> 6 * length (stream (map data es))"
  by (induction es) (simp_all add: enc_entry_def entry_fits_def)

lemma dec_list_ret_enc:
  assumes fit: "\<forall>e\<in>set (entries p). entry_fits e" and nm: "length (next_marker p) \<le> 41"
    and total: "length (stream (map data (entries p))) \<le> 134217728"
  shows "dec_list_ret (enc_list_ret p) = Some (p, [])"
proof -
  have n: "length (entries p) < two32"
    using length_stream_ge [of "map data (entries p)"] total by (simp add: two32_def)
  have "dec_list dec_entry (enc_list enc_entry (entries p) @ []) = Some (entries p, [])"
    using n fit by (intro dec_list_enc) (auto simp: dec_entry_enc)
  then have es: "dec_list dec_entry (enc_list enc_entry (entries p)) = Some (entries p, [])" by simp
  have len: "length (enc_list enc_entry (entries p)) \<le> 4 + 6 * 134217728"
    using length_enc_entries [OF fit] total by (simp add: enc_list_def)
  have nm': "length (next_marker p) < two32" using nm by (simp add: two32_def)
  show ?thesis
    unfolding dec_list_ret_def enc_list_ret_def
    by (rule dec_struct_enc_all)
      (use es len nm nm' in \<open>simp_all add: dec_enc enc_bool_def [THEN arg_cong [of _ _ length]] two32_def\<close>)
qed

subsection \<open>The methods on a stored queue\<close>

lemma listed_markers:
  "x \<in> set (listed h p es) \<Longrightarrow> \<exists>q \<le> p + length (stream es). marker x = to_str (marker_at h q)"
proof (induction es arbitrary: p)
  case (Cons d es)
  then consider "x = \<lparr>data = d, marker = to_str (marker_at h p)\<rparr>"
    | "x \<in> set (listed h (p + length (entry_bytes d)) es)" by auto
  then show ?case
  proof cases
    case 1
    then show ?thesis by (intro exI [of _ p]) simp
  next
    case 2
    from Cons.IH [OF this] show ?thesis by (simp add: add.assoc)
  qed
qed simp

lemma queue_obj_facts:
  assumes "queue_obj hc h ds"
  shows "queue_read_head hc = Inr h" and "head_fits h" and "ring_rep hc h (stream ds)" and "medium_ok hc"
    and "0 < max_head_size h" and "cap h \<le> 134217728" and "length (stream ds) \<le> cap h"
proof -
  show rd: "queue_read_head hc = Inr h" and fits: "head_fits h" and rep: "ring_rep hc h (stream ds)" and "medium_ok hc"
    using assms read_head_stored by (auto simp: queue_obj_def head_stored_def queue_rep_def)
  show "0 < max_head_size h" using fits by (auto simp: head_fits_def)
  show "length (stream ds) \<le> cap h" using ring_rep_bounds [OF rep] by simp
  have "queue_size h \<le> 134217728" using assms rep by (auto simp: queue_obj_def ring_rep_def)
  then show "cap h \<le> 134217728" by (simp add: cap_def)
qed

lemma client_enqueue_ok:
  assumes q: "queue_obj hc h ds" and room: "length (stream (ds @ new)) \<le> cap h" and new: "new \<noteq> []"
    and g: "gen (tail h) + length new < two64"
  shows "\<exists>hc' h'. client_enqueue hc new = Inr hc' \<and> queue_obj hc' h' (ds @ new) \<and>
    h' = h\<lparr>tail := tail h'\<rparr> \<and> gen (tail h') \<le> gen (tail h) + length new"
proof -
  note f = queue_obj_facts [OF q]
  have "length (stream new) < two31" using room f(6) by (simp add: two31_def)
  note dec = dec_enqueue_op_enc [OF this]
  have "length (stream new) \<noteq> 0" using new by (simp only: length_0_conv stream_eq_Nil not_False_eq_True)
  then have "length (stream ds) \<noteq> cap h" using room unfolding stream_append length_append by linarith
  then have nf: "\<not> queue_full h" using ring_rep_full [OF f(3)] by simp
  have "length (stream ds) + length (stream new) \<le> cap h" using room by simp
  from enqueue_all_ok [OF f(3) this g] obtain hc1 h1 where
    all: "enqueue_all hc h new = Inr (hc1, h1)" and e: "enqueued (length new) hc h hc1 h1 (stream ds @ stream new)"
    by metis
  have same: "h1 = h\<lparr>tail := tail h1\<rparr>" and hc1: "hc1 = hc\<lparr>content := content hc1\<rparr>" and g1: "gen (tail h1) \<le> gen (tail h) + length new"
    using e by (auto simp: enqueued_def)
  have "medium_ok hc1" "osd_max_object_size hc1 \<le> 134217728"
    using f(4) q by (subst hc1, simp add: medium_ok_def queue_obj_def)+
  moreover have "front h1 = front h" by (subst same) simp
  then have "h1 = h\<lparr>tail := tail h1, front := front h1\<rparr>" using same by (cases h; cases h1) simp
  moreover have "ring_rep hc1 h1 (stream (ds @ new))" using e by (simp add: enqueued_def)
  ultimately obtain hc2 where "queue_write_head hc1 h1 = Inr hc2" "queue_obj hc2 h1 (ds @ new)"
    using stored_after [OF f(2)] by metis
  with same g1 all dec nf f(1) show ?thesis
    by (auto simp: client_enqueue_def cls_queue_enqueue_def queue_enqueue_def)
qed

lemma client_list_ok:
  assumes q: "queue_obj hc h (pre @ es)" and mx: "0 < mx" "mx < two32" and es: "es \<noteq> []"
    and start: "mk = to_str (marker_at h (pos h (front h) + length (stream pre))) \<or> mk = [] \<and> pre = []"
  defines "s \<equiv> pos h (front h) + length (stream pre)" and "k \<equiv> min mx (length es)"
  shows "client_list_entries hc mk mx =
    Inr (listed h s (take k es), k < length es, to_str (marker_at h (s + length (stream (take k es)))))"
proof -
  note f = queue_obj_facts [OF q]
  have rep: "queue_rep hc h (pre @ es)" using f(3) by (simp add: queue_rep_def)
  have t: "pos h (tail h) = s + length (stream es)" using unread_stream(2) [OF rep] by (simp add: s_def)
  have split: "length (stream es) = length (stream (take k es)) + length (stream (drop k es))"
    by (metis append_take_drop_id length_append stream_append)
  have mlen: "length (to_str (marker_at h q)) \<le> 41" if "q \<le> pos h (tail h)" for q
    using marker_at_ok(3) [OF f(3) that] by (rule length_to_str)
  let ?op = "\<lparr>lop_max = mx, start_marker = mk\<rparr>"
  have "length mk \<le> 41" using start mlen [of s] t by (auto simp: s_def)
  then have dec: "dec_list_op (enc_list_op ?op) = Some (?op, [])"
    using mx by (intro dec_list_op_enc) (simp_all add: two31_def two32_def two64_def)
  let ?r = "\<lparr>is_truncated = (k < length es), next_marker = to_str (marker_at h (s + length (stream (take k es)))),
    entries = listed h s (take k es)\<rparr>"
  have lst: "queue_list_entries hc ?op h = Inr ?r"
    using queue_list_entries_ok [OF rep f(4,5), of ?op] mx es start by (simp add: s_def k_def)
  have "entry_fits x" if x: "x \<in> set (listed h s (take k es))" for x
  proof -
    obtain q where "q \<le> s + length (stream (take k es))" "marker x = to_str (marker_at h q)"
      using listed_markers [OF x] by blast
    then have m: "length (marker x) \<le> 41" using mlen [of q] t split by simp
    have "data x \<in> set (map data (listed h s (take k es)))" using x by (simp only: set_map imageI)
    then have "data x \<in> set (take k es)" by (simp only: map_data_listed)
    then have "data x \<in> set es" by (rule in_set_takeD)
    then obtain a b where "es = a @ data x # b" by (auto simp: in_set_conv_decomp)
    then have "length (data x) \<le> length (stream (pre @ es))" by simp
    with m show ?thesis using f(6,7) by (simp add: entry_fits_def)
  qed
  then have "dec_list_ret (enc_list_ret ?r) = Some (?r, [])"
    using mlen [of "s + length (stream (take k es))"] t split f(6,7)
    by (intro dec_list_ret_enc) auto
  with dec lst f(1) show ?thesis
    by (simp add: client_list_entries_def cls_queue_list_entries_def)
qed

lemma client_remove_ok:
  assumes q: "queue_obj hc h (pre @ es)"
  defines "e \<equiv> pos h (front h) + length (stream pre)"
  shows "\<exists>hc' h'. client_remove_entries hc (to_str (marker_at h e)) = Inr hc' \<and> queue_obj hc' h' es \<and>
    h' = h\<lparr>front := front h'\<rparr> \<and> front h' = marker_at h e"
proof -
  note f = queue_obj_facts [OF q]
  have rep: "queue_rep hc h (pre @ es)" using f(3) by (simp add: queue_rep_def)
  have le: "e \<le> pos h (tail h)" using unread_stream(2) [OF rep] by (simp add: e_def)
  have "length (to_str (marker_at h e)) < two31"
    using length_to_str [OF marker_at_ok(3) [OF f(3) le]] by (simp add: two31_def)
  note dec = dec_remove_op_enc [OF this]
  obtain hc1 h1 where rem: "queue_remove_entries hc (to_str (marker_at h e)) h = Inr (hc1, h1)"
    and r: "removed hc h hc1 h1 (stream es)" and fr: "front h1 = marker_at h e"
    using queue_remove_ok [OF rep] unfolding e_def by blast
  have same: "h1 = h\<lparr>front := front h1\<rparr>" and hc1: "hc1 = hc\<lparr>content := content hc1\<rparr>"
    using r by (auto simp: removed_def)
  have "medium_ok hc1" "osd_max_object_size hc1 \<le> 134217728"
    using f(4) q by (subst hc1, simp add: medium_ok_def queue_obj_def)+
  moreover have "tail h1 = tail h" by (subst same) simp
  then have "h1 = h\<lparr>tail := tail h1, front := front h1\<rparr>" using same by (cases h; cases h1) simp
  moreover have "ring_rep hc1 h1 (stream es)" using r by (simp add: removed_def)
  ultimately obtain hc2 where "queue_write_head hc1 h1 = Inr hc2" "queue_obj hc2 h1 es"
    using stored_after [OF f(2)] by metis
  with same fr rem dec f(1) show ?thesis
    by (auto simp: client_remove_entries_def cls_queue_remove_entries_def)
qed

lemma client_list_empty:
  assumes q: "queue_obj hc h []" and mx: "mx < two64"
  shows "client_list_entries hc [] mx = Inr ([], False, to_str (marker_at h (pos h (front h))))"
proof -
  note f = queue_obj_facts [OF q]
  have "pos h (tail h) = pos h (front h)" "marker_ok h (front h)" using f(3) by (simp_all add: ring_rep_def)
  then have mk: "marker_at h (pos h (front h)) = front h" and fits: "marker_fits (marker_at h (pos h (front h)))"
    using marker_at_pos [of h "front h"] marker_at_ok(3) [OF f(3), of "pos h (front h)"] by simp_all
  have dec: "dec_list_op (enc_list_op \<lparr>lop_max = mx, start_marker = []\<rparr>) = Some (\<lparr>lop_max = mx, start_marker = []\<rparr>, [])"
    using mx by (intro dec_list_op_enc) (simp_all add: two31_def)
  let ?r = "\<lparr>is_truncated = False, next_marker = to_str (front h), entries = []\<rparr>"
  have "dec_list_ret (enc_list_ret ?r) = Some (?r, [])"
    using length_to_str [OF fits] mk by (intro dec_list_ret_enc) simp_all
  moreover have "queue_empty h" using ring_rep_empty [OF f(3)] by simp
  ultimately show ?thesis using dec f(1) mk
    by (simp add: client_list_entries_def cls_queue_list_entries_def queue_list_entries_def)
qed

lemma client_init_ok:
  assumes hc: "content hc = []" and med: "medium_ok hc" and sz: "0 < sz" "1024 + sz \<le> osd_max_object_size hc"
    and mx: "osd_max_object_size hc \<le> 134217728"
  defines "h \<equiv> \<lparr>max_head_size = 1024, front = \<lparr>offset = 1024, gen = 0\<rparr>, tail = \<lparr>offset = 1024, gen = 0\<rparr>,
     queue_size = sz + 1024, max_urgent_data_size = 0, bl_urgent_data = []\<rparr>"
  shows "\<exists>hc'. client_init hc sz = Inr hc' \<and> queue_obj hc' h [] \<and> osd_max_object_size hc' = osd_max_object_size hc"
    and "cap h = sz"
proof -
  let ?op = "\<lparr>iop_queue_size = sz, iop_max_urgent_data_size = 0, iop_bl_urgent_data = []\<rparr>"
  have big: "sz + 1024 < two31" "sz < two64" using sz(2) mx by (simp_all add: two31_def two64_def)
  have dec: "dec_init_op (enc_init_op ?op) = Some (?op, [])"
    unfolding dec_init_op_def enc_init_op_def
    by (rule dec_struct_enc_all) (use big dec_bl_enc [of "[]" "[]"] in \<open>simp_all add: dec_enc two32_def\<close>)
  have "cls_cxx_read2 hc 0 1024 = Inr []"
    using cls_read_ok [of 0 1024 hc] med hc by (simp add: medium_ok_def obj_read_def two31_def)
  then have rd: "queue_read_head hc = Inl EINVAL" by (simp add: queue_read_head_def dec_le_def)
  have fits: "head_fits h" using big by (simp add: h_def head_fits_def marker_fits_def two31_def two64_def)
  have rep: "ring_rep hc h (stream [])"
    using sz mx big by (simp add: ring_rep_def h_def marker_ok_def pos_def two31_def)
  have "add64 QUEUE_HEAD_SIZE_1K 0 = 1024" "add64 sz 1024 = sz + 1024"
    using big by (simp_all add: add64_eq QUEUE_HEAD_SIZE_1K_def two64_def two31_def)
  then have "client_init hc sz = queue_write_head hc h"
    using dec rd by (simp add: client_init_def cls_queue_init_def queue_init_def empty_head_def h_def Let_def)
  moreover have "h = h\<lparr>tail := tail h, front := front h\<rparr>" by simp
  ultimately show "\<exists>hc'. client_init hc sz = Inr hc' \<and> queue_obj hc' h [] \<and> osd_max_object_size hc' = osd_max_object_size hc"
    using stored_after [OF fits med rep _ mx] by simp
  show "cap h = sz" by (simp add: h_def cap_def)
qed

lemma client_capacity_ok:
  assumes "queue_obj hc h ds"
  shows "client_get_capacity hc = Inr (cap h)"
proof -
  note f = queue_obj_facts [OF assms]
  note bounds = ring_rep_bounds [OF f(3)]
  have "sub64 (queue_size h) (max_head_size h) = cap h"
    using bounds by (subst sub64_eq) (simp_all add: two31_less)
  moreover have "dec_capacity_ret (enc_capacity_ret (cap h)) = Some (cap h, [])"
    unfolding dec_capacity_ret_def enc_capacity_ret_def
    by (rule dec_struct_enc_all) (use f(6) dec_le_8 [of "cap h" "[]"] in \<open>simp_all add: two32_def two64_def\<close>)
  ultimately show ?thesis using f(1)
    by (simp add: client_get_capacity_def cls_queue_get_capacity_def queue_get_capacity_def)
qed

subsection \<open>The consumer\<close>

text \<open>A consumer works through a queue in turns: it looks at the first entries and removes them.\<close>

primrec consume ::
  "('s \<Rightarrow> nat \<Rightarrow> 'e + ('a list \<times> 'm)) \<Rightarrow> ('s \<Rightarrow> 'm \<Rightarrow> 'e + 's) \<Rightarrow> nat \<Rightarrow> nat \<Rightarrow> 's \<Rightarrow> 'e + ('a list \<times> 's)" where
  "consume peek pop n 0 s = Inr ([], s)"
| "consume peek pop n (Suc k) s =
     (case peek s n of
        Inl e \<Rightarrow> Inl e
      | Inr (xs, m) \<Rightarrow>
          (case pop s m of
             Inl e \<Rightarrow> Inl e
           | Inr s \<Rightarrow>
               (case consume peek pop n k s of
                  Inl e \<Rightarrow> Inl e
                | Inr (ys, s) \<Rightarrow> Inr (xs @ ys, s))))"

locale fifo =
  fixes rep :: "'s \<Rightarrow> 'a list \<Rightarrow> bool"
    and peek :: "'s \<Rightarrow> nat \<Rightarrow> 'e + ('a list \<times> 'm)"
    and pop :: "'s \<Rightarrow> 'm \<Rightarrow> 'e + 's"
    and limit :: nat
  assumes peek_pop: "rep s xs \<Longrightarrow> 0 < n \<Longrightarrow> n < limit \<Longrightarrow>
    \<exists>m s'. peek s n = Inr (take n xs, m) \<and> pop s m = Inr s' \<and> rep s' (drop n xs)"
begin

lemma consume_prefix:
  assumes "rep s xs" and "0 < n" and "n < limit"
  shows "\<exists>s'. consume peek pop n k s = Inr (take (n * k) xs, s') \<and> rep s' (drop (n * k) xs)"
  using assms(1)
proof (induction k arbitrary: s xs)
  case 0
  then show ?case by simp
next
  case (Suc k)
  obtain m s1 where "peek s n = Inr (take n xs, m)" "pop s m = Inr s1" and r: "rep s1 (drop n xs)"
    using peek_pop [OF Suc.prems assms(2,3)] by blast
  moreover obtain s2 where "consume peek pop n k s1 = Inr (take (n * k) (drop n xs), s2)"
    and "rep s2 (drop (n * k) (drop n xs))"
    using Suc.IH [OF r] by blast
  moreover have "take n xs @ take (n * k) (drop n xs) = take (n * Suc k) xs" by (simp add: take_add)
  ultimately show ?case by (auto simp: add.commute)
qed

lemma consume_all:
  assumes "rep s xs" and "0 < n" and "n < limit" and "length xs \<le> n * k"
  shows "\<exists>s'. consume peek pop n k s = Inr (xs, s') \<and> rep s' []"
  using consume_prefix [OF assms(1-3), of k] assms(4) by simp

end

definition queue_peek :: "hctx \<Rightarrow> nat \<Rightarrow> (bytes list \<times> string) res" where
  "queue_peek hc n =
     (case client_list_entries hc [] n of Inl e \<Rightarrow> Inl e | Inr (es, _, m) \<Rightarrow> Inr (map data es, m))"

lemma queue_peek_pop:
  assumes q: "queue_obj hc h ds" and n: "0 < n" "n < two32"
  shows "\<exists>m hc'. queue_peek hc n = Inr (take n ds, m) \<and> client_remove_entries hc m = Inr hc' \<and>
    (\<exists>h'. queue_obj hc' h' (drop n ds))"
proof -
  let ?m = "to_str (marker_at h (pos h (front h) + length (stream (take n ds))))"
  have "queue_peek hc n = Inr (take n ds, ?m)"
  proof (cases "ds = []")
    case True
    then show ?thesis using client_list_empty [of hc h n] q n by (simp add: queue_peek_def)
  next
    case False
    have "take (min n (length ds)) ds = take n ds" by (simp add: min_def)
    then show ?thesis using client_list_ok [of hc h "[]" ds n "[]"] q n False by (simp add: queue_peek_def)
  qed
  moreover have "queue_obj hc h (take n ds @ drop n ds)" using q by simp
  ultimately show ?thesis using client_remove_ok by blast
qed

interpretation ring: fifo "\<lambda>hc ds. \<exists>h. queue_obj hc h ds" queue_peek client_remove_entries two32
  by unfold_locales (use queue_peek_pop in blast)

subsection \<open>The properties\<close>

text \<open>An object to try the properties on: a fresh queue of thirty bytes.\<close>

definition fresh :: hctx where
  "fresh = \<lparr>content = [], osd_max_object_size = 134217728, eio = (\<lambda>_ _. False)\<rparr>"

definition fresh_head :: cls_queue_head where
  "fresh_head = \<lparr>max_head_size = 1024, front = \<lparr>offset = 1024, gen = 0\<rparr>, tail = \<lparr>offset = 1024, gen = 0\<rparr>,
     queue_size = 30 + 1024, max_urgent_data_size = 0, bl_urgent_data = []\<rparr>"

lemma fresh_queue:
  shows "\<exists>hc. client_init fresh 30 = Inr hc \<and> queue_obj hc fresh_head []" and "cap fresh_head = 30"
  using client_init_ok [of fresh 30] by (auto simp: fresh_def fresh_head_def medium_ok_def)

lemma fresh_head_simps [simp]:
  "cap fresh_head = 30" "gen (tail fresh_head) = 0" "offset (front fresh_head) = 1024" "queue_size fresh_head = 1054"
  using fresh_queue(2) by (simp_all add: fresh_head_def)

lemma fresh_queue_obj:
  obtains hc where "queue_obj hc fresh_head []"
  using fresh_queue(1) by blast

text \<open>Initialising an empty object for a queue of \<open>sz\<close> bytes stores an empty queue, whose
  reported capacity is \<open>sz\<close>.\<close>

theorem queue_init_empty:
  assumes "content hc = []" and "medium_ok hc" and "0 < sz" and "1024 + sz \<le> osd_max_object_size hc"
    and "osd_max_object_size hc \<le> 134217728"
  shows "\<exists>hc' h. client_init hc sz = Inr hc' \<and> queue_obj hc' h [] \<and> client_get_capacity hc' = Inr sz"
proof -
  from client_init_ok(1) [OF assms] obtain hc' h where "client_init hc sz = Inr hc'" and q: "queue_obj hc' h []"
    and "cap h = sz"
    using client_init_ok(2) [OF assms] by blast
  with client_capacity_ok [OF q] show ?thesis by auto
qed

theorem queue_init_empty_witness:
  "\<exists>hc' h. client_init fresh 30 = Inr hc' \<and> queue_obj hc' h [] \<and> client_get_capacity hc' = Inr 30"
  by (rule queue_init_empty) (simp_all add: fresh_def medium_ok_def)

text \<open>C21. Enqueueing a batch that fits the free space succeeds, and the stored queue then holds the old
  entries followed by the batch.\<close>

theorem queue_enqueue_appends:
  assumes "queue_obj hc h ds" and "length (stream (ds @ new)) \<le> cap h" and "new \<noteq> []"
    and "gen (tail h) + length new < two64"
  shows "\<exists>hc' h'. client_enqueue hc new = Inr hc' \<and> queue_obj hc' h' (ds @ new) \<and> front h' = front h \<and> cap h' = cap h"
proof -
  obtain hc' h' where "client_enqueue hc new = Inr hc'" "queue_obj hc' h' (ds @ new)" "h' = h\<lparr>tail := tail h'\<rparr>"
    using client_enqueue_ok [OF assms] by blast
  moreover have "front h' = front h" "cap h' = cap h" by (subst \<open>h' = _\<close>, simp add: cap_def)+
  ultimately show ?thesis by blast
qed

theorem queue_enqueue_appends_witness:
  "\<exists>hc h hc' h'. queue_obj hc h [] \<and> client_enqueue hc [[1, 2], []] = Inr hc' \<and> queue_obj hc' h' ([] @ [[1, 2], []]) \<and>
     front h' = front h \<and> cap h' = cap h"
proof -
  obtain hc where q: "queue_obj hc fresh_head []" by (rule fresh_queue_obj)
  have "\<exists>hc' h'. client_enqueue hc [[1, 2], []] = Inr hc' \<and> queue_obj hc' h' ([] @ [[1, 2], []]) \<and>
      front h' = front fresh_head \<and> cap h' = cap fresh_head"
    by (rule queue_enqueue_appends [OF q]) (simp_all add: two64_def)
  with q show ?thesis by blast
qed

text \<open>C22. A batch that does not fit is refused with \<open>ENOSPC\<close>, unless a proper prefix of it fills the
  ring to the last byte.\<close>

theorem queue_enqueue_refuses:
  assumes "queue_rep hc h ds" and "length (stream (ds @ new)) > cap h" and "gen (tail h) + length new < two64"
    and "\<forall>d\<in>set new. length d < two32"
    and "\<forall>k\<in>{1..<length new}. length (stream (ds @ take k new)) \<noteq> cap h"
  shows "queue_enqueue hc h new = Inl ENOSPC"
proof (cases "queue_full h")
  case False
  have rep: "ring_rep hc h (stream ds)" using assms(1) by (simp add: queue_rep_def)
  have "length (stream ds) \<noteq> cap h" using ring_rep_full [OF rep] False by simp
  then have "length (stream ds) + length (stream (take k new)) \<noteq> cap h" if "k < length new" for k
    using assms(5) that by (cases k) auto
  then show ?thesis
    using False assms(2-4) by (simp add: queue_enqueue_def enqueue_all_full [OF rep])
qed (simp add: queue_enqueue_def)

theorem queue_enqueue_refuses_witness:
  "\<exists>hc. queue_rep hc fresh_head [] \<and> queue_enqueue hc fresh_head [replicate 21 7] = Inl ENOSPC"
proof -
  obtain hc where q: "queue_obj hc fresh_head []" by (rule fresh_queue_obj)
  then have rep: "queue_rep hc fresh_head []" by (simp add: queue_obj_def)
  have "queue_enqueue hc fresh_head [replicate 21 7] = Inl ENOSPC"
    by (rule queue_enqueue_refuses [OF rep]) (simp_all add: two64_def two32_def)
  with rep show ?thesis by blast
qed

text \<open>C23. The test for a full queue is made once, before the batch. When an entry of a batch fills the
  ring to the last byte, the entry after it is written over the entries at the front and the batch
  succeeds.\<close>

theorem queue_batch_overwrites:
  assumes "queue_rep hc h ds" and "length (stream (ds @ [d1])) = cap h"
    and "offset (front h) + length (entry_bytes d2) \<le> queue_size h" and "gen (tail h) + 1 < two64"
  shows "\<exists>hc' h'. queue_enqueue hc h [d1, d2] = Inr (hc', h') \<and>
    length (stream (ds @ [d1, d2])) > cap h \<and>
    obj_read (content hc') (offset (front h')) (length (entry_bytes d2)) = entry_bytes d2"
proof -
  have rep: "ring_rep hc h (stream ds)" using assms(1) by (simp add: queue_rep_def)
  have nf: "\<not> queue_full h" using ring_rep_full [OF rep] assms(2) by simp
  have "length (stream ds) + length (entry_bytes d1) \<le> cap h" using assms(2) by simp
  from enqueue_one_ok [OF rep this assms(4)] obtain hc1 h1 where one: "enqueue_one hc h d1 = Inr (hc1, h1)"
    and e1: "enqueued 1 hc h hc1 h1 (stream ds @ entry_bytes d1)" by metis
  have rep1: "ring_rep hc1 h1 (stream ds @ entry_bytes d1)" and same: "h1 = h\<lparr>tail := tail h1\<rparr>"
    using e1 by (auto simp: enqueued_def)
  have eq: "front h1 = front h" "queue_size h1 = queue_size h" "cap h1 = cap h" by (subst same, simp add: cap_def)+
  have "queue_full h1" using ring_rep_full [OF rep1] assms(2) eq by simp
  then have ofs: "offset (tail h1) = offset (front h)" using eq by (simp add: queue_full_def)
  have fit: "offset (tail h1) + length (entry_bytes d2) \<le> queue_size h1" using assms(3) ofs eq by simp
  note bounds = ring_rep_bounds [OF rep1]
  have "add64 (offset (tail h1)) (length (entry_bytes d2)) = offset (tail h1) + length (entry_bytes d2)"
    using fit bounds by (intro add64_eq) (simp add: two31_def two64_def)
  moreover have "offset (front h1) \<le> offset (tail h1)" using ofs eq by simp
  ultimately have "enqueue_one hc1 h1 d2 =
      Inr (hc1\<lparr>content := obj_write (content hc1) (offset (tail h1)) (entry_bytes d2)\<rparr>, tail_after h1 (length (entry_bytes d2)))"
    using write_at_tail_ok [OF rep1 fit] fit
    by (auto simp: enqueue_one_def Let_def tail_after_wrap simp del: length_entry_bytes)
  then have "queue_enqueue hc h [d1, d2] =
      Inr (hc1\<lparr>content := obj_write (content hc1) (offset (front h)) (entry_bytes d2)\<rparr>, tail_after h1 (length (entry_bytes d2)))"
    using nf one ofs by (simp add: queue_enqueue_def del: length_entry_bytes)
  moreover have "front (tail_after h1 (length (entry_bytes d2))) = front h" using eq by (simp add: tail_after_def)
  moreover have "obj_read (obj_write c a b) a (length b) = b" for c a b
    by (simp add: obj_read_def obj_write_def)
  moreover have "length (stream (ds @ [d1, d2])) > cap h" using assms(2) by simp
  ultimately show ?thesis by (simp del: length_entry_bytes)
qed

theorem queue_batch_overwrites_witness:
  "\<exists>hc hc' h'. queue_rep hc fresh_head [] \<and> queue_enqueue hc fresh_head [replicate 20 7, [1]] = Inr (hc', h') \<and>
     length (stream ([] @ [replicate 20 7, [1]])) > cap fresh_head \<and>
     obj_read (content hc') (offset (front h')) (length (entry_bytes [1])) = entry_bytes [1]"
proof -
  obtain hc where q: "queue_obj hc fresh_head []" by (rule fresh_queue_obj)
  then have rep: "queue_rep hc fresh_head []" by (simp add: queue_obj_def)
  have "\<exists>hc' h'. queue_enqueue hc fresh_head [replicate 20 7, [1]] = Inr (hc', h') \<and>
     length (stream ([] @ [replicate 20 7, [1]])) > cap fresh_head \<and>
     obj_read (content hc') (offset (front h')) (length (entry_bytes [1])) = entry_bytes [1]"
    by (rule queue_batch_overwrites [OF rep]) (simp_all add: two64_def)
  with rep show ?thesis by blast
qed

text \<open>C24. Listing from the start of any stored entry returns the entries from there, as many as asked
  for, each with the marker of its position, whatever the 1024-byte chunks and the end of the ring cut
  apart; the next marker is the position after them, and the truncation flag says if entries remain.\<close>

theorem queue_list_entries_of_stream:
  assumes "queue_obj hc h (pre @ es)" and "0 < mx" and "mx < two32" and "es \<noteq> []"
    and "mk = to_str (marker_at h (pos h (front h) + length (stream pre))) \<or> mk = [] \<and> pre = []"
  shows "\<exists>es' nm. client_list_entries hc mk mx = Inr (es', mx < length es, nm) \<and> map data es' = take mx es \<and>
    es' = listed h (pos h (front h) + length (stream pre)) (take mx es) \<and>
    nm = to_str (marker_at h (pos h (front h) + length (stream (pre @ take mx es))))"
proof -
  have "take (min mx (length es)) es = take mx es" "min mx (length es) < length es \<longleftrightarrow> mx < length es"
    by (auto simp: min_def)
  then show ?thesis using client_list_ok [OF assms] by (simp add: add.assoc)
qed

theorem queue_list_entries_of_stream_witness:
  "\<exists>hc h es' nm. queue_obj hc h ([] @ [[1, 2], []]) \<and> client_list_entries hc [] 1 = Inr (es', True, nm) \<and>
     map data es' = [[1, 2]]"
proof -
  obtain hc0 where q0: "queue_obj hc0 fresh_head []" by (rule fresh_queue_obj)
  obtain hc h where q: "queue_obj hc h ([] @ [[1, 2], []])"
    using client_enqueue_ok [OF q0, of "[[1, 2], []]"] by (auto simp: two64_def)
  have "\<exists>es' nm. client_list_entries hc [] 1 = Inr (es', 1 < length [[1, 2], [] :: bytes], nm) \<and> map data es' = take 1 [[1, 2], []] \<and>
    es' = listed h (pos h (front h) + length (stream [])) (take 1 [[1, 2], []]) \<and>
    nm = to_str (marker_at h (pos h (front h) + length (stream ([] @ take 1 [[1, 2], []]))))"
    by (rule queue_list_entries_of_stream [OF q]) (simp_all add: two32_def)
  with q show ?thesis by auto
qed

text \<open>C25. A consumer that lists at most \<open>n\<close> entries and removes up to the marker it was given receives,
  after enough turns, exactly the entries of the queue in their order, and leaves it empty.\<close>

theorem queue_consumer_fifo:
  assumes "queue_obj hc h ds" and "0 < n" and "n < two32" and "length ds \<le> n * k"
  shows "\<exists>hc' h'. consume queue_peek client_remove_entries n k hc = Inr (ds, hc') \<and> queue_obj hc' h' []"
  using ring.consume_all [OF _ assms(2-4)] assms(1) by blast

theorem queue_consumer_fifo_witness:
  "\<exists>hc h hc' h'. queue_obj hc h [[1, 2], []] \<and> consume queue_peek client_remove_entries 1 2 hc = Inr ([[1, 2], []], hc') \<and>
     queue_obj hc' h' []"
proof -
  obtain hc0 where q0: "queue_obj hc0 fresh_head []" by (rule fresh_queue_obj)
  obtain hc h where q: "queue_obj hc h [[1, 2], []]"
    using client_enqueue_ok [OF q0, of "[[1, 2], []]"] by (auto simp: two64_def)
  have "\<exists>hc' h'. consume queue_peek client_remove_entries 1 2 hc = Inr ([[1, 2], []], hc') \<and> queue_obj hc' h' []"
    by (rule queue_consumer_fifo [OF q]) (simp_all add: two32_def)
  with q show ?thesis by blast
qed

text \<open>C26. A head that fits its reserved space is read back as it was written, also when it is longer
  than the first kilobyte that is read.\<close>

theorem queue_head_roundtrip:
  assumes "head_fits h" and "max_head_size h < osd_max_object_size hc" and "osd_max_object_size hc < two31"
    and "medium_ok hc"
  shows "\<exists>hc'. queue_write_head hc h = Inr hc' \<and> queue_read_head hc' = Inr h"
proof -
  let ?hc = "hc\<lparr>content := obj_write (content hc) 0 (head_bytes h)\<rparr>"
  have "medium_ok ?hc" using assms(4) by (simp add: medium_ok_def)
  with read_head_stored [OF head_stored_write [OF assms(1)]] write_head_ok [OF assms(1-3)] show ?thesis by blast
qed

theorem queue_head_roundtrip_witness:
  "\<exists>hc'. queue_write_head fresh (fresh_head\<lparr>max_head_size := 5000, bl_urgent_data := replicate 4000 1\<rparr>) = Inr hc' \<and>
     queue_read_head hc' = Inr (fresh_head\<lparr>max_head_size := 5000, bl_urgent_data := replicate 4000 1\<rparr>)"
  by (rule queue_head_roundtrip)
    (simp_all add: fresh_def fresh_head_def head_fits_def marker_fits_def medium_ok_def two31_def two64_def)

end
