(* ===== verification/Cls_Lock.thy ===== *)
theory Cls_Lock
  imports Encoding "HOL-Library.Product_Lexorder" "HOL-Library.List_Lexorder" "HOL-Library.Char_ord"
begin

unbundle bit_operations_syntax

text \<open>
  The advisory lock object class (\<open>src/cls/lock/cls_lock.cc\<close>). The locks of an object are kept in its
  extended attributes, one per lock name. A value of an attribute is a decoded lock record, or
  \<open>Opaque\<close> when it does not decode as one. A client is its entity name; a time is seconds and
  nanoseconds with the arithmetic of \<open>utime_t\<close>, zero meaning that a lock does not expire. \<open>ceph_clock_now\<close> is an argument: a method that reads the clock
  twice has two. As the OSD drops the effects of a method that fails, an error carries no object.
\<close>

subsection \<open>Types\<close>

datatype ClsLockType = LOCK_NONE | LOCK_EXCLUSIVE | LOCK_SHARED | LOCK_EXCLUSIVE_EPHEMERAL | LOCK_OTHER nat

definition cls_lock_is_exclusive :: "ClsLockType \<Rightarrow> bool" where
  "cls_lock_is_exclusive t \<longleftrightarrow> LOCK_EXCLUSIVE = t \<or> LOCK_EXCLUSIVE_EPHEMERAL = t"

definition cls_lock_is_ephemeral :: "ClsLockType \<Rightarrow> bool" where
  "cls_lock_is_ephemeral t \<longleftrightarrow> LOCK_EXCLUSIVE_EPHEMERAL = t"

definition cls_lock_is_valid :: "ClsLockType \<Rightarrow> bool" where
  "cls_lock_is_valid t \<longleftrightarrow> LOCK_SHARED = t \<or> LOCK_EXCLUSIVE = t \<or> LOCK_EXCLUSIVE_EPHEMERAL = t"

definition LOCK_FLAG_MAY_RENEW :: nat where "LOCK_FLAG_MAY_RENEW = 1"
definition LOCK_FLAG_MUST_RENEW :: nat where "LOCK_FLAG_MUST_RENEW = 2"

type_synonym entity_name = "nat \<times> nat"
type_synonym locker_id = "entity_name \<times> string"

text \<open>\<open>utime_t\<close> (\<open>include/utime.h\<close>): seconds and nanoseconds of 32 bits, compared in this order. The sum of two times
  keeps the largest number of seconds when it would exceed it, and carries nanoseconds only when they are more than a
  second: exactly \<open>10\<^sup>9\<close> of them stay.\<close>

type_synonym utime = "nat \<times> nat"

definition utime_zero :: utime where
  "utime_zero = (0, 0)"

definition cap_to_u32_max :: "nat \<Rightarrow> nat" where
  "cap_to_u32_max t = min t (two32 - 1)"

definition utime_normalize :: "utime \<Rightarrow> utime" where
  "utime_normalize t = (if snd t > 10 ^ 9 then (cap_to_u32_max (fst t + snd t div 10 ^ 9), snd t mod 10 ^ 9) else t)"

definition utime_add :: "utime \<Rightarrow> utime \<Rightarrow> utime" where
  "utime_add l r = utime_normalize (cap_to_u32_max (fst l + fst r), (snd l + snd r) mod two32)"

record locker_info =
  expiration :: utime
  addr :: nat
  description :: string

record lock_info =
  lockers :: "(locker_id, locker_info) smap"
  lock_type :: ClsLockType
  tag :: string

definition lock_info0 :: lock_info where
  "lock_info0 = \<lparr>lockers = [], lock_type = LOCK_NONE, tag = []\<rparr>"

datatype attr = Lock lock_info | Opaque

subsection \<open>The object and its attributes\<close>

record lobj =
  obj_exists :: bool
  attrs :: "(string, attr) smap"
  max_attr_name_len :: nat
  attr_too_big :: "attr \<Rightarrow> bool"

definition cls_cxx_getxattr :: "lobj \<Rightarrow> string \<Rightarrow> attr res" where
  "cls_cxx_getxattr ob key =
     (if \<not> obj_exists ob then Inl ENOENT
      else case map_of (attrs ob) key of None \<Rightarrow> Inl ENODATA | Some a \<Rightarrow> Inr a)"

definition cls_cxx_getxattrs :: "lobj \<Rightarrow> (string, attr) smap res" where
  "cls_cxx_getxattrs ob = (if \<not> obj_exists ob then Inl ENOENT else Inr (attrs ob))"

definition cls_cxx_setxattr :: "lobj \<Rightarrow> string \<Rightarrow> attr \<Rightarrow> lobj res" where
  "cls_cxx_setxattr ob key a =
     (if attr_too_big ob a then Inl EFBIG
      else if length key > max_attr_name_len ob then Inl ENAMETOOLONG
      else Inr (ob\<lparr>obj_exists := True, attrs := smap_put key a (attrs ob)\<rparr>))"

definition cls_cxx_remove :: "lobj \<Rightarrow> lobj res" where
  "cls_cxx_remove ob =
     (if \<not> obj_exists ob then Inl ENOENT else Inr (ob\<lparr>obj_exists := False, attrs := []\<rparr>))"

subsection \<open>Reading and writing a lock\<close>

definition LOCK_PREFIX :: string where
  "LOCK_PREFIX = ''lock.''"

definition clean_lock :: "lobj \<Rightarrow> lobj res" where
  "clean_lock ob = cls_cxx_remove ob"

definition expired :: "utime \<Rightarrow> locker_info \<Rightarrow> bool" where
  "expired now info \<longleftrightarrow> expiration info \<noteq> utime_zero \<and> expiration info < now"

text \<open>The lockers that have not expired.\<close>

definition live :: "utime \<Rightarrow> lock_info \<Rightarrow> lock_info" where
  "live now l = l\<lparr>lockers := filter (\<lambda>p. \<not> expired now (snd p)) (lockers l)\<rparr>"

definition clean_expired :: "lobj \<Rightarrow> lock_info \<Rightarrow> lobj" where
  "clean_expired ob l =
     (if lockers l = [] \<and> cls_lock_is_ephemeral (lock_type l)
      then case clean_lock ob of Inl _ \<Rightarrow> ob | Inr ob \<Rightarrow> ob
      else ob)"

definition read_lock :: "lobj \<Rightarrow> utime \<Rightarrow> string \<Rightarrow> (lobj \<times> lock_info) res" where
  "read_lock ob now name =
     (case cls_cxx_getxattr ob (LOCK_PREFIX @ name) of
        Inl e \<Rightarrow> if e = ENODATA then Inr (ob, lock_info0) else Inl e
      | Inr Opaque \<Rightarrow> Inl EIO
      | Inr (Lock l) \<Rightarrow>
          let l = live now l in Inr (clean_expired ob l, l))"

definition write_lock :: "lobj \<Rightarrow> string \<Rightarrow> lock_info \<Rightarrow> lobj res" where
  "write_lock ob name l = cls_cxx_setxattr ob (LOCK_PREFIX @ name) (Lock l)"

subsection \<open>Taking a lock\<close>

text \<open>The lock after the request, from the lock that was read: the checks of \<open>lock_obj\<close> against the
  current lockers, in their order.\<close>

definition grant_lock ::
  "utime \<Rightarrow> entity_name \<times> nat \<Rightarrow> ClsLockType \<Rightarrow> utime \<Rightarrow> string \<Rightarrow> bool \<Rightarrow> bool \<Rightarrow> string \<Rightarrow> string \<Rightarrow>
   lock_info \<Rightarrow> lock_info res" where
  "grant_lock now inst ty duration descr fail_if_exists fail_if_does_not_exist cookie tg linfo =
     (let ls = lockers linfo;
          lid = (fst inst, cookie);
          others = (if map_of ls lid \<noteq> None then smap_del lid ls else ls)
      in if ls \<noteq> [] \<and> tg \<noteq> tag linfo then Inl EBUSY
         else if map_of ls lid \<noteq> None \<and> fail_if_exists \<and> \<not> fail_if_does_not_exist then Inl EEXIST
         else if map_of ls lid = None \<and> fail_if_does_not_exist then Inl ENOENT
         else if others \<noteq> [] \<and> cls_lock_is_exclusive ty then Inl EBUSY
         else if others \<noteq> [] \<and> lock_type linfo \<noteq> ty then Inl EBUSY
         else let ex = (if duration \<noteq> utime_zero then utime_add now duration else utime_zero);
                  info = \<lparr>expiration = ex, addr = snd inst, description = descr\<rparr>
              in Inr (linfo\<lparr>lock_type := ty, tag := tg, lockers := smap_put lid info others\<rparr>))"

text \<open>A lock on an object that does not exist is a lock without lockers.\<close>

definition read_for_lock :: "lobj \<Rightarrow> utime \<Rightarrow> string \<Rightarrow> (lobj \<times> lock_info) res" where
  "read_for_lock ob now name =
     (case read_lock ob now name of
        Inl e \<Rightarrow> if e \<noteq> ENOENT then Inl e else Inr (ob, lock_info0)
      | Inr p \<Rightarrow> Inr p)"

definition lock_obj ::
  "lobj \<Rightarrow> utime \<Rightarrow> utime \<Rightarrow> entity_name \<times> nat \<Rightarrow> string \<Rightarrow> ClsLockType \<Rightarrow> utime \<Rightarrow> string \<Rightarrow> nat \<Rightarrow> string \<Rightarrow>
   string \<Rightarrow> lobj res" where
  "lock_obj ob now now' inst name ty duration descr flags cookie tg =
     (let fail_if_exists = (flags AND LOCK_FLAG_MAY_RENEW = 0);
          fail_if_does_not_exist = (flags AND LOCK_FLAG_MUST_RENEW \<noteq> 0)
      in if \<not> cls_lock_is_valid ty then Inl EINVAL
         else if name = [] then Inl EINVAL
         else if \<not> fail_if_exists \<and> fail_if_does_not_exist then Inl EINVAL
         else
           case read_for_lock ob now name of
             Inl e \<Rightarrow> Inl e
           | Inr (ob, linfo) \<Rightarrow>
               (case grant_lock now' inst ty duration descr fail_if_exists fail_if_does_not_exist cookie tg linfo of
                  Inl e \<Rightarrow> Inl e
                | Inr linfo \<Rightarrow> write_lock ob name linfo))"

record cls_lock_lock_op =
  lop_name :: string
  lop_type :: ClsLockType
  lop_cookie :: string
  lop_tag :: string
  lop_description :: string
  lop_duration :: utime
  lop_flags :: nat

text \<open>The argument of a method is the decoded operation, or \<open>None\<close> where it does not decode.\<close>

definition lock_op :: "lobj \<Rightarrow> utime \<Rightarrow> utime \<Rightarrow> entity_name \<times> nat \<Rightarrow> cls_lock_lock_op option \<Rightarrow> lobj res" where
  "lock_op ob now now' inst inp =
     (case inp of
        None \<Rightarrow> Inl EINVAL
      | Some op \<Rightarrow> lock_obj ob now now' inst (lop_name op) (lop_type op) (lop_duration op) (lop_description op)
          (lop_flags op) (lop_cookie op) (lop_tag op))"

subsection \<open>Giving up and breaking a lock\<close>

definition remove_lock :: "lobj \<Rightarrow> utime \<Rightarrow> string \<Rightarrow> entity_name \<Rightarrow> string \<Rightarrow> lobj res" where
  "remove_lock ob now name locker cookie =
     (case read_lock ob now name of
        Inl e \<Rightarrow> Inl e
      | Inr (ob, linfo) \<Rightarrow>
          if map_of (lockers linfo) (locker, cookie) = None then Inl ENOENT
          else let linfo = linfo\<lparr>lockers := smap_del (locker, cookie) (lockers linfo)\<rparr>
               in if cls_lock_is_ephemeral (lock_type linfo)
                  then if lockers linfo \<noteq> [] then Inl ABORT else clean_lock ob
                  else write_lock ob name linfo)"

record cls_lock_unlock_op =
  uop_name :: string
  uop_cookie :: string

definition unlock_op :: "lobj \<Rightarrow> utime \<Rightarrow> entity_name \<times> nat \<Rightarrow> cls_lock_unlock_op option \<Rightarrow> lobj res" where
  "unlock_op ob now inst inp =
     (case inp of
        None \<Rightarrow> Inl EINVAL
      | Some op \<Rightarrow> remove_lock ob now (uop_name op) (fst inst) (uop_cookie op))"

record cls_lock_break_op =
  bop_name :: string
  bop_locker :: entity_name
  bop_cookie :: string

definition break_lock :: "lobj \<Rightarrow> utime \<Rightarrow> cls_lock_break_op option \<Rightarrow> lobj res" where
  "break_lock ob now inp =
     (case inp of
        None \<Rightarrow> Inl EINVAL
      | Some op \<Rightarrow> remove_lock ob now (bop_name op) (bop_locker op) (bop_cookie op))"

subsection \<open>Queries\<close>

text \<open>Reading an expired ephemeral lock removes the object, so the queries return it too. The OSD fails a call that wrote
  through a method not marked as writing (\<open>osd/PrimaryLogPG.cc\<close>), which is left out: more states can be reached here.\<close>

record cls_lock_get_info_reply =
  rep_lockers :: "(locker_id, locker_info) smap"
  rep_lock_type :: ClsLockType
  rep_tag :: string

definition get_info :: "lobj \<Rightarrow> utime \<Rightarrow> string option \<Rightarrow> (lobj \<times> cls_lock_get_info_reply) res" where
  "get_info ob now inp =
     (case inp of
        None \<Rightarrow> Inl EINVAL
      | Some name \<Rightarrow>
          (case read_lock ob now name of
             Inl e \<Rightarrow> Inl e
           | Inr (ob, linfo) \<Rightarrow>
               Inr (ob, \<lparr>rep_lockers = foldl (\<lambda>m p. smap_put (fst p) (snd p) m) [] (lockers linfo),
                         rep_lock_type = lock_type linfo, rep_tag = tag linfo\<rparr>)))"

definition list_locks :: "lobj \<Rightarrow> string list res" where
  "list_locks ob =
     (case cls_cxx_getxattrs ob of
        Inl e \<Rightarrow> Inl e
      | Inr as \<Rightarrow>
          let pos = length LOCK_PREFIX
          in Inr (map (\<lambda>p. drop pos (fst p)) (filter (\<lambda>p. take pos (fst p) = LOCK_PREFIX) as)))"

record cls_lock_assert_op =
  aop_name :: string
  aop_type :: ClsLockType
  aop_cookie :: string
  aop_tag :: string

text \<open>The checks \<open>assert_locked\<close> and \<open>set_cookie\<close> have in common, up to the look for the client.\<close>

definition check_lock ::
  "lobj \<Rightarrow> utime \<Rightarrow> string \<Rightarrow> ClsLockType \<Rightarrow> string \<Rightarrow> (lobj \<times> lock_info) res" where
  "check_lock ob now name ty tg =
     (if \<not> cls_lock_is_valid ty then Inl EINVAL
      else if name = [] then Inl EINVAL
      else case read_lock ob now name of
          Inl e \<Rightarrow> Inl e
        | Inr (ob, linfo) \<Rightarrow>
            if lockers linfo = [] then Inl EBUSY
            else if lock_type linfo \<noteq> ty then Inl EBUSY
            else if tag linfo \<noteq> tg then Inl EBUSY
            else Inr (ob, linfo))"

definition assert_locked :: "lobj \<Rightarrow> utime \<Rightarrow> entity_name \<times> nat \<Rightarrow> cls_lock_assert_op option \<Rightarrow> lobj res" where
  "assert_locked ob now inst inp =
     (case inp of
        None \<Rightarrow> Inl EINVAL
      | Some op \<Rightarrow>
          (case check_lock ob now (aop_name op) (aop_type op) (aop_tag op) of
             Inl e \<Rightarrow> Inl e
           | Inr (ob, linfo) \<Rightarrow>
               if map_of (lockers linfo) (fst inst, aop_cookie op) = None then Inl EBUSY else Inr ob))"

record cls_lock_set_cookie_op =
  sop_name :: string
  sop_type :: ClsLockType
  sop_cookie :: string
  sop_tag :: string
  sop_new_cookie :: string

definition set_cookie :: "lobj \<Rightarrow> utime \<Rightarrow> entity_name \<times> nat \<Rightarrow> cls_lock_set_cookie_op option \<Rightarrow> lobj res" where
  "set_cookie ob now inst inp =
     (case inp of
        None \<Rightarrow> Inl EINVAL
      | Some op \<Rightarrow>
          (case check_lock ob now (sop_name op) (sop_type op) (sop_tag op) of
             Inl e \<Rightarrow> Inl e
           | Inr (ob, linfo) \<Rightarrow>
               (case map_of (lockers linfo) (fst inst, sop_cookie op) of
                  None \<Rightarrow> Inl EBUSY
                | Some info \<Rightarrow>
                    if map_of (lockers linfo) (fst inst, sop_new_cookie op) \<noteq> None then Inl EBUSY
                    else write_lock ob (sop_name op)
                           (linfo\<lparr>lockers := smap_put (fst inst, sop_new_cookie op) info
                              (smap_del (fst inst, sop_cookie op) (lockers linfo))\<rparr>))))"

end
