(* ===== verification/Cls_Lock_Correct.thy ===== *)
theory Cls_Lock_Correct
  imports Cls_Lock
begin

text \<open>
  The lock class as a transition system: any clients call any methods at any times. An exclusive lock
  never has two lockers, so the assertion in \<open>remove_lock\<close> holds and two clients cannot both pass
  \<open>assert_locked\<close>; a request is granted exactly when its conditions hold against the lockers that
  have not expired; a lock is held until it expires.
\<close>

subsection \<open>Ordered maps under filters and deletion\<close>

lemma map_of_filter_live:
  "smap_wf m \<Longrightarrow> map_of (filter (\<lambda>p. P (snd p)) m) k =
    (case map_of m k of None \<Rightarrow> None | Some v \<Rightarrow> if P v then Some v else None)"
proof (induction m)
  case (Cons p m)
  obtain j v where p: "p = (j, v)" by (cases p)
  have "map_of m j = None" using Cons.prems p by (force simp: map_of_eq_None_iff)
  with Cons p show ?case by auto
qed simp

lemma length_smap_del: "map_of m k \<noteq> None \<Longrightarrow> Suc (length (smap_del k m)) = length m"
  by (induction k m rule: smap_del.induct) (auto split: if_splits)

lemma length_smap_del_le: "length (smap_del k m) \<le> length m"
  by (induction k m rule: smap_del.induct) auto

lemma length_smap_put_new: "map_of m k = None \<Longrightarrow> length (smap_put k v m) = Suc (length m)"
  by (induction k v m rule: smap_put.induct) (auto split: if_splits)

lemma smap_put_not_Nil [simp]: "smap_put k v m \<noteq> []"
  by (induction k v m rule: smap_put.induct) auto

subsection \<open>The invariant\<close>

definition lock_ok :: "lock_info \<Rightarrow> bool" where
  "lock_ok l \<longleftrightarrow> smap_wf (lockers l) \<and> (cls_lock_is_exclusive (lock_type l) \<longrightarrow> length (lockers l) \<le> 1)"

definition locks_ok :: "lobj \<Rightarrow> bool" where
  "locks_ok ob \<longleftrightarrow> (\<forall>k l. map_of (attrs ob) k = Some (Lock l) \<longrightarrow> lock_ok l)"

lemma lock_info0_ok [simp]: "lock_ok lock_info0"
  by (simp add: lock_ok_def lock_info0_def)

lemma locks_ok_clean: "clean_lock ob = Inr ob' \<Longrightarrow> locks_ok ob'"
  by (auto simp: clean_lock_def cls_cxx_remove_def locks_ok_def split: if_splits)

lemma locks_ok_write:
  assumes "write_lock ob name l = Inr ob'" and "locks_ok ob" and "lock_ok l"
  shows "locks_ok ob'"
  using assms by (auto simp: write_lock_def cls_cxx_setxattr_def locks_ok_def map_of_put split: if_splits)

lemma lock_ok_live:
  assumes "lock_ok l"
  shows "lock_ok (live now l)"
proof -
  have "length (lockers (live now l)) \<le> length (lockers l)" by (simp add: live_def)
  moreover have "lock_type (live now l) = lock_type l" "smap_wf (lockers l) \<Longrightarrow> smap_wf (lockers (live now l))"
    by (simp_all add: live_def smap_wf_filter)
  ultimately show ?thesis using assms unfolding lock_ok_def by auto
qed

lemma locks_ok_clean_expired: "locks_ok ob \<Longrightarrow> locks_ok (clean_expired ob l)"
  by (auto simp: clean_expired_def locks_ok_clean split: sum.splits)

lemma read_lock_cases:
  assumes "read_lock ob now name = Inr (ob', l)"
  obtains (none) "ob' = ob" "l = lock_info0" "obj_exists ob" "map_of (attrs ob) (LOCK_PREFIX @ name) = None"
  | (some) l0 where "map_of (attrs ob) (LOCK_PREFIX @ name) = Some (Lock l0)" "l = live now l0" "ob' = clean_expired ob l"
  using assms unfolding read_lock_def cls_cxx_getxattr_def Let_def
  by (auto split: if_splits option.splits attr.splits)

lemma read_lock_ok:
  assumes "read_lock ob now name = Inr (ob', l)" and "locks_ok ob"
  shows "lock_ok l" and "locks_ok ob'"
proof -
  have "lock_ok l \<and> locks_ok ob'"
    using assms(1)
  proof (cases rule: read_lock_cases)
    case none
    then show ?thesis using assms(2) by simp
  next
    case (some l0)
    then have "lock_ok l0" using assms(2) by (simp add: locks_ok_def)
    with some show ?thesis using assms(2) by (simp add: lock_ok_live locks_ok_clean_expired)
  qed
  then show "lock_ok l" "locks_ok ob'" by simp_all
qed

lemma read_for_lock_ok:
  assumes "read_for_lock ob now name = Inr (ob', l)" and "locks_ok ob"
  shows "lock_ok l" and "locks_ok ob'"
  using assms read_lock_ok [of ob now name] by (auto simp: read_for_lock_def split: sum.splits if_splits)

lemma grant_lock_ok:
  assumes "lock_ok l" and "grant_lock now inst ty dur descr fe fn cookie tg l = Inr l'"
  shows "lock_ok l'"
proof -
  let ?i = "(fst inst, cookie)"
  define others where "others = (if map_of (lockers l) ?i \<noteq> None then smap_del ?i (lockers l) else lockers l)"
  have wf: "smap_wf others" using assms(1) by (auto simp: lock_ok_def others_def)
  have guard: "\<not> (others \<noteq> [] \<and> cls_lock_is_exclusive ty)"
    and "\<exists>info. l' = l\<lparr>lock_type := ty, tag := tg, lockers := smap_put ?i info others\<rparr>"
    using assms(2) unfolding grant_lock_def Let_def others_def [symmetric] by (auto split: if_splits)
  then obtain info where "l' = l\<lparr>lock_type := ty, tag := tg, lockers := smap_put ?i info others\<rparr>" by blast
  moreover have "length (smap_put ?i info others) \<le> 1" if "cls_lock_is_exclusive ty"
    using guard that by simp
  ultimately show ?thesis using wf by (auto simp: lock_ok_def)
qed

lemma lock_obj_steps:
  assumes "lock_obj ob now now' inst name ty dur descr flags cookie tg = Inr ob'"
  obtains ob1 l l' where "read_for_lock ob now name = Inr (ob1, l)"
    and "grant_lock now' inst ty dur descr (flags AND LOCK_FLAG_MAY_RENEW = 0) (flags AND LOCK_FLAG_MUST_RENEW \<noteq> 0)
      cookie tg l = Inr l'"
    and "write_lock ob1 name l' = Inr ob'"
  using assms unfolding lock_obj_def Let_def by (auto split: if_splits sum.splits)

lemma lock_obj_ok:
  assumes "lock_obj ob now now' inst name ty dur descr flags cookie tg = Inr ob'" and "locks_ok ob"
  shows "locks_ok ob'"
  using assms(1)
proof (rule lock_obj_steps)
  fix ob1 l l'
  assume r: "read_for_lock ob now name = Inr (ob1, l)" and w: "write_lock ob1 name l' = Inr ob'"
    and g: "grant_lock now' inst ty dur descr (flags AND LOCK_FLAG_MAY_RENEW = 0) (flags AND LOCK_FLAG_MUST_RENEW \<noteq> 0)
      cookie tg l = Inr l'"
  note ok = read_for_lock_ok [OF r assms(2)]
  show "locks_ok ob'" by (rule locks_ok_write [OF w ok(2) grant_lock_ok [OF ok(1) g]])
qed

lemma remove_lock_ok:
  assumes "remove_lock ob now name locker cookie = Inr ob'" and "locks_ok ob"
  shows "locks_ok ob'"
proof -
  obtain ob1 l where r: "read_lock ob now name = Inr (ob1, l)"
    using assms(1) by (auto simp: remove_lock_def split: sum.splits)
  note ok = read_lock_ok [OF r assms(2)]
  have "lock_ok (l\<lparr>lockers := smap_del (locker, cookie) (lockers l)\<rparr>)"
    using ok(1) length_smap_del_le [of "(locker, cookie)" "lockers l"] by (auto simp: lock_ok_def)
  then show ?thesis
    using assms(1) r ok(2) locks_ok_write locks_ok_clean
    by (auto simp: remove_lock_def Let_def split: if_splits)
qed

lemma remove_lock_no_abort:
  assumes "locks_ok ob"
  shows "remove_lock ob now name locker cookie \<noteq> Inl ABORT"
proof (cases "read_lock ob now name")
  case (Inl e)
  then have "e \<noteq> ABORT"
    unfolding read_lock_def cls_cxx_getxattr_def Let_def by (auto split: if_splits option.splits attr.splits)
  with Inl show ?thesis by (simp add: remove_lock_def)
next
  case (Inr p)
  obtain ob1 l where p: "p = (ob1, l)" by (cases p)
  note ok = read_lock_ok [OF Inr [unfolded p] assms]
  have "smap_del (locker, cookie) (lockers l) = []"
    if "map_of (lockers l) (locker, cookie) \<noteq> None" "cls_lock_is_ephemeral (lock_type l)"
  proof -
    have "length (lockers l) \<le> 1"
      using ok(1) that(2) by (auto simp: lock_ok_def cls_lock_is_exclusive_def cls_lock_is_ephemeral_def)
    then have "length (smap_del (locker, cookie) (lockers l)) = 0" using length_smap_del [OF that(1)] by linarith
    then show ?thesis by simp
  qed
  then show ?thesis
    using Inr p by (auto simp: remove_lock_def Let_def write_lock_def clean_lock_def cls_cxx_setxattr_def cls_cxx_remove_def
        split: if_splits)
qed

lemma check_lock_read:
  assumes "check_lock ob now name ty tg = Inr (ob', l)"
  shows "read_lock ob now name = Inr (ob', l)" and "lock_type l = ty" and "tag l = tg"
  using assms by (auto simp: check_lock_def split: if_splits sum.splits)

lemma set_cookie_ok:
  assumes "set_cookie ob now inst inp = Inr ob'" and "locks_ok ob"
  shows "locks_ok ob'"
proof -
  obtain op where op: "inp = Some op" using assms(1) by (cases inp) (auto simp: set_cookie_def)
  obtain ob1 l where c: "check_lock ob now (sop_name op) (sop_type op) (sop_tag op) = Inr (ob1, l)"
    using assms(1) op by (auto simp: set_cookie_def split: sum.splits)
  note ok = read_lock_ok [OF check_lock_read(1) [OF c] assms(2)]
  let ?i = "(fst inst, sop_cookie op)" and ?j = "(fst inst, sop_new_cookie op)"
  obtain info where info: "map_of (lockers l) ?i = Some info" and new: "map_of (lockers l) ?j = None"
    and w: "write_lock ob1 (sop_name op) (l\<lparr>lockers := smap_put ?j info (smap_del ?i (lockers l))\<rparr>) = Inr ob'"
    using assms(1) op c by (auto simp: set_cookie_def split: option.splits if_splits)
  have wf: "smap_wf (lockers l)" using ok(1) by (simp add: lock_ok_def)
  then have "map_of (smap_del ?i (lockers l)) ?j = None" using new by (simp add: map_of_del)
  from length_smap_put_new [OF this, of info]
  have "length (smap_put ?j info (smap_del ?i (lockers l))) = length (lockers l)"
    using length_smap_del [of "lockers l" ?i] info by simp
  then have "lock_ok (l\<lparr>lockers := smap_put ?j info (smap_del ?i (lockers l))\<rparr>)"
    using ok(1) wf by (auto simp: lock_ok_def)
  with w ok(2) show ?thesis by (rule locks_ok_write)
qed

lemma assert_locked_check:
  assumes "assert_locked ob now inst inp = Inr ob'"
  obtains op l where "inp = Some op" and "check_lock ob now (aop_name op) (aop_type op) (aop_tag op) = Inr (ob', l)"
    and "map_of (lockers l) (fst inst, aop_cookie op) \<noteq> None"
  using assms unfolding assert_locked_def by (auto split: option.splits sum.splits if_splits)

subsection \<open>The transition system\<close>

inductive lock_step :: "lobj \<Rightarrow> lobj \<Rightarrow> bool" where
  lock: "lock_op ob now now' inst inp = Inr ob' \<Longrightarrow> lock_step ob ob'"
| unlock: "unlock_op ob now inst inp = Inr ob' \<Longrightarrow> lock_step ob ob'"
| break: "break_lock ob now inp = Inr ob' \<Longrightarrow> lock_step ob ob'"
| cookie: "set_cookie ob now inst inp = Inr ob' \<Longrightarrow> lock_step ob ob'"
| assert: "assert_locked ob now inst inp = Inr ob' \<Longrightarrow> lock_step ob ob'"
| info: "get_info ob now inp = Inr (ob', r) \<Longrightarrow> lock_step ob ob'"

definition lock_init :: "lobj \<Rightarrow> bool" where
  "lock_init ob \<longleftrightarrow> attrs ob = []"

lemma locks_ok_step: "lock_step ob ob' \<Longrightarrow> locks_ok ob \<Longrightarrow> locks_ok ob'"
proof (induction rule: lock_step.induct)
  case (lock ob now now' inst inp ob')
  then show ?case by (cases inp) (auto simp: lock_op_def intro: lock_obj_ok)
next
  case (unlock ob now inst inp ob')
  then show ?case by (cases inp) (auto simp: unlock_op_def intro: remove_lock_ok)
next
  case (break ob now inp ob')
  then show ?case by (cases inp) (auto simp: break_lock_def intro: remove_lock_ok)
next
  case (cookie ob now inst inp ob')
  then show ?case by (rule set_cookie_ok)
next
  case (assert ob now inst inp ob')
  from assert.hyps show ?case
  proof (rule assert_locked_check)
    fix op l assume "check_lock ob now (aop_name op) (aop_type op) (aop_tag op) = Inr (ob', l)"
    from read_lock_ok(2) [OF check_lock_read(1) [OF this] assert.prems] show ?thesis .
  qed
next
  case (info ob now inp ob' r)
  then show ?case by (auto simp: get_info_def split: option.splits sum.splits dest: read_lock_ok)
qed

interpretation lk: invariant_system lock_init lock_step locks_ok
proof
  show "locks_ok ob" if "lock_init ob" for ob using that by (simp add: lock_init_def locks_ok_def)
  show "locks_ok ob'" if "locks_ok ob" "lock_step ob ob'" for ob ob' using locks_ok_step that by blast
qed

subsection \<open>Granting\<close>

text \<open>The limits on attributes do not stand in the way.\<close>

definition attr_fits :: "lobj \<Rightarrow> string \<Rightarrow> bool" where
  "attr_fits ob name \<longleftrightarrow> length (LOCK_PREFIX @ name) \<le> max_attr_name_len ob \<and> (\<forall>a. \<not> attr_too_big ob a)"

lemma write_lock_fits:
  "attr_fits ob name \<Longrightarrow> write_lock ob name l =
    Inr (ob\<lparr>obj_exists := True, attrs := smap_put (LOCK_PREFIX @ name) (Lock l) (attrs ob)\<rparr>)"
  by (simp add: attr_fits_def write_lock_def cls_cxx_setxattr_def)

lemma attr_fits_clean [simp]: "attr_fits (clean_expired ob l) name = attr_fits ob name"
  by (auto simp: attr_fits_def clean_expired_def clean_lock_def cls_cxx_remove_def)

lemma read_lock_some:
  assumes "obj_exists ob" and "map_of (attrs ob) (LOCK_PREFIX @ name) = Some (Lock l)"
  shows "read_lock ob now name = Inr (clean_expired ob (live now l), live now l)"
  using assms by (simp add: read_lock_def cls_cxx_getxattr_def Let_def)

lemma smap_Nil_iff: "m = [] \<longleftrightarrow> (\<forall>k. map_of m k = None)"
proof (cases m)
  case (Cons p m')
  then have "map_of m (fst p) \<noteq> None" by (cases p) simp
  with Cons show ?thesis by auto
qed simp

lemma grant_lock_exact:
  assumes wf: "smap_wf (lockers l)" and ty: "cls_lock_is_valid ty"
  shows "(\<exists>l'. grant_lock now inst ty dur descr fe fn cookie tg l = Inr l') \<longleftrightarrow>
    (lockers l = [] \<or> tg = tag l) \<and>
    (if map_of (lockers l) (fst inst, cookie) \<noteq> None then \<not> fe \<or> fn else \<not> fn) \<and>
    ((\<forall>j. j \<noteq> (fst inst, cookie) \<longrightarrow> map_of (lockers l) j = None) \<or> ty = LOCK_SHARED \<and> lock_type l = LOCK_SHARED)"
proof -
  let ?i = "(fst inst, cookie)"
  define others where "others = (if map_of (lockers l) ?i \<noteq> None then smap_del ?i (lockers l) else lockers l)"
  have "map_of others = (map_of (lockers l))(?i := None)"
    using map_of_del [OF wf, of ?i] by (auto simp: others_def fun_eq_iff)
  then have empty: "others = [] \<longleftrightarrow> (\<forall>j. j \<noteq> ?i \<longrightarrow> map_of (lockers l) j = None)"
    unfolding smap_Nil_iff [of others] by auto
  have excl: "cls_lock_is_exclusive ty \<longleftrightarrow> ty \<noteq> LOCK_SHARED"
    using ty by (auto simp: cls_lock_is_valid_def cls_lock_is_exclusive_def)
  show ?thesis
    unfolding grant_lock_def Let_def others_def [symmetric] empty [symmetric] excl by (auto split: if_splits)
qed

lemma grant_lock_result:
  assumes "grant_lock now inst ty dur descr fe fn cookie tg l = Inr l'"
  shows "lock_type l' = ty" and "tag l' = tg" and "lockers l' \<noteq> []"
    and "map_of (lockers l') (fst inst, cookie) =
      Some \<lparr>expiration = (if dur \<noteq> utime_zero then utime_add now dur else utime_zero), addr = snd inst, description = descr\<rparr>"
  using assms unfolding grant_lock_def Let_def by (auto simp: map_of_put split: if_splits)

lemma lock_obj_exact:
  assumes ob: "obj_exists ob" "map_of (attrs ob) (LOCK_PREFIX @ name) = Some (Lock l)" and ok: "lock_ok l"
    and ty: "cls_lock_is_valid ty" and name: "name \<noteq> []" and fits: "attr_fits ob name"
  shows "(\<exists>ob'. lock_obj ob now now' inst name ty dur descr flags cookie tg = Inr ob') \<longleftrightarrow>
    \<not> (flags AND LOCK_FLAG_MAY_RENEW \<noteq> 0 \<and> flags AND LOCK_FLAG_MUST_RENEW \<noteq> 0) \<and>
    (\<exists>l'. grant_lock now' inst ty dur descr (flags AND LOCK_FLAG_MAY_RENEW = 0) (flags AND LOCK_FLAG_MUST_RENEW \<noteq> 0)
      cookie tg (live now l) = Inr l')"
proof -
  have "read_for_lock ob now name = Inr (clean_expired ob (live now l), live now l)"
    using read_lock_some [OF ob] by (simp add: read_for_lock_def)
  then show ?thesis
    using ty name fits by (auto simp: lock_obj_def Let_def write_lock_fits split: sum.splits)
qed

text \<open>Times as nanoseconds. The sum is exact below the largest second.\<close>

definition utime_ok :: "utime \<Rightarrow> bool" where
  "utime_ok t \<longleftrightarrow> fst t < two32 \<and> snd t < 10 ^ 9"

definition utime_ns :: "utime \<Rightarrow> nat" where
  "utime_ns t = fst t * 10 ^ 9 + snd t"

lemma utime_add_cases:
  assumes "utime_ok a" and "utime_ok d" and "fst a + fst d + 1 < two32"
  shows "utime_add a d = (if snd a + snd d > 10 ^ 9 then (fst a + fst d + 1, snd a + snd d - 10 ^ 9) else (fst a + fst d, snd a + snd d))"
proof -
  have n: "snd a + snd d < 2 * 10 ^ 9" "snd a + snd d < two32" "fst a + fst d \<le> two32 - 1" "fst a + fst d + 1 \<le> two32 - 1"
    using assms by (simp_all add: utime_ok_def two32_def)
  then have "(snd a + snd d) div 10 ^ 9 = 1 \<and> (snd a + snd d) mod 10 ^ 9 = snd a + snd d - 10 ^ 9" if "snd a + snd d > 10 ^ 9"
    using that by (simp add: div_nat_eqI mod_if [of "snd a + snd d"])
  with n show ?thesis by (simp add: utime_add_def utime_normalize_def cap_to_u32_max_def min_absorb1)
qed

lemma utime_add_nonzero: "utime_ok a \<Longrightarrow> utime_ok d \<Longrightarrow> fst a + fst d + 1 < two32 \<Longrightarrow> d \<noteq> utime_zero \<Longrightarrow> utime_add a d \<noteq> utime_zero"
  by (cases d) (auto simp: utime_add_cases utime_zero_def)

lemma ns_less: "utime_ok t \<Longrightarrow> fst t < s \<Longrightarrow> utime_ns t < s * 10 ^ 9"
  using mult_le_mono1 [of "fst t + 1" s "10 ^ 9"] by (simp add: utime_ok_def utime_ns_def)

lemma utime_le_ns:
  assumes t: "utime_ok t"
  shows "n < 10 ^ 9 \<Longrightarrow> t \<le> (s, n) \<longleftrightarrow> utime_ns t \<le> s * 10 ^ 9 + n"
    and "t \<le> (s, 10 ^ 9) \<longleftrightarrow> utime_ns t < s * 10 ^ 9 + 10 ^ 9"
proof -
  have lt: "utime_ns t < s * 10 ^ 9" if "fst t < s" using ns_less [OF t that] .
  have gt: "s * 10 ^ 9 + 10 ^ 9 \<le> utime_ns t" if "s < fst t"
    using mult_le_mono1 [of "s + 1" "fst t" "10 ^ 9"] that by (simp add: utime_ns_def)
  have eq: "utime_ns t = s * 10 ^ 9 + snd t" if "fst t = s" using that by (simp add: utime_ns_def)
  consider "fst t < s" | "fst t = s" | "s < fst t" by linarith
  then show "t \<le> (s, n) \<longleftrightarrow> utime_ns t \<le> s * 10 ^ 9 + n" if "n < 10 ^ 9"
    by cases (use lt gt eq that in \<open>(cases t; fastforce)+\<close>)
  consider "fst t < s" | "fst t = s" | "s < fst t" by linarith
  then show "t \<le> (s, 10 ^ 9) \<longleftrightarrow> utime_ns t < s * 10 ^ 9 + 10 ^ 9"
    by cases (use lt gt eq t in \<open>(cases t; fastforce simp: utime_ok_def)+\<close>)
qed

lemma utime_le_add:
  assumes "utime_ok a" and "utime_ok d" and "fst a + fst d + 1 < two32" and "utime_ok t"
  shows "t \<le> utime_add a d \<longleftrightarrow> utime_ns t < utime_ns a + utime_ns d \<or>
    utime_ns t = utime_ns a + utime_ns d \<and> snd a + snd d \<noteq> 10 ^ 9"
proof -
  have sum: "utime_ns a + utime_ns d = (fst a + fst d) * 10 ^ 9 + (snd a + snd d)" by (simp add: utime_ns_def add_mult_distrib)
  consider "snd a + snd d < 10 ^ 9" | "snd a + snd d = 10 ^ 9" | "10 ^ 9 < snd a + snd d" by linarith
  then show ?thesis
  proof cases
    case 1
    then show ?thesis using utime_le_ns(1) [OF assms(4) 1, of "fst a + fst d"] by (simp add: utime_add_cases [OF assms(1-3)] sum le_less)
  next
    case 2
    then show ?thesis using utime_le_ns(2) [OF assms(4), of "fst a + fst d"] by (simp add: utime_add_cases [OF assms(1-3)] sum)
  next
    case 3
    moreover have "snd a + snd d - 10 ^ 9 < 10 ^ 9" using assms(1,2) unfolding utime_ok_def by linarith
    ultimately show ?thesis using utime_le_ns(1) [OF assms(4), of "snd a + snd d - 10 ^ 9" "fst a + fst d + 1"]
      by (auto simp: utime_add_cases [OF assms(1-3)] sum)
  qed
qed

lemma assert_after_lock:
  assumes lock: "lock_obj ob now now' inst name ty dur descr flags cookie tg = Inr ob'" and "locks_ok ob"
    and nz: "dur \<noteq> utime_zero \<Longrightarrow> utime_add now' dur \<noteq> utime_zero"
  shows "(\<exists>ob2. assert_locked ob' t inst (Some \<lparr>aop_name = name, aop_type = ty, aop_cookie = cookie, aop_tag = tg\<rparr>) = Inr ob2) \<longleftrightarrow>
    dur = utime_zero \<or> t \<le> utime_add now' dur"
  using lock
proof (rule lock_obj_steps)
  fix ob1 l l'
  assume r: "read_for_lock ob now name = Inr (ob1, l)" and w: "write_lock ob1 name l' = Inr ob'"
    and g: "grant_lock now' inst ty dur descr (flags AND LOCK_FLAG_MAY_RENEW = 0) (flags AND LOCK_FLAG_MUST_RENEW \<noteq> 0)
      cookie tg l = Inr l'"
  note res = grant_lock_result [OF g]
  have wf: "smap_wf (lockers l')"
    using grant_lock_ok [OF read_for_lock_ok(1) [OF r assms(2)] g] by (simp add: lock_ok_def)
  have valid: "cls_lock_is_valid ty" "name \<noteq> []"
    using lock by (auto simp: lock_obj_def Let_def split: if_splits)
  have "obj_exists ob'" "map_of (attrs ob') (LOCK_PREFIX @ name) = Some (Lock l')"
    using w by (auto simp: write_lock_def cls_cxx_setxattr_def map_of_put split: if_splits)
  note rd = read_lock_some [OF this, of t]
  let ?i = "(fst inst, cookie)"
  have own: "map_of (lockers (live t l')) ?i \<noteq> None \<longleftrightarrow> dur = utime_zero \<or> t \<le> utime_add now' dur"
    using map_of_filter_live [OF wf, of "\<lambda>x. \<not> expired t x" ?i] res(4) nz by (auto simp: live_def expired_def not_less)
  have "lock_type (live t l') = ty" "tag (live t l') = tg" using res by (simp_all add: live_def)
  moreover have "lockers (live t l') \<noteq> []" if "map_of (lockers (live t l')) ?i \<noteq> None" using that by auto
  ultimately show ?thesis
    unfolding own [symmetric] using valid rd by (auto simp: assert_locked_def check_lock_def)
qed

subsection \<open>The properties\<close>

text \<open>An object whose lock \<open>a\<close> a client took exclusively for ten seconds at second 5.\<close>

definition lock_blank :: lobj where
  "lock_blank = \<lparr>obj_exists = False, attrs = [], max_attr_name_len = 100, attr_too_big = (\<lambda>_. False)\<rparr>"

definition lock_request :: cls_lock_lock_op where
  "lock_request = \<lparr>lop_name = ''a'', lop_type = LOCK_EXCLUSIVE, lop_cookie = ''c'', lop_tag = [], lop_description = [],
     lop_duration = (10, 0), lop_flags = 0\<rparr>"

definition lock_taken_info :: lock_info where
  "lock_taken_info = \<lparr>lockers = [(((8, 1), ''c''), \<lparr>expiration = (15, 0), addr = 0, description = []\<rparr>)],
     lock_type = LOCK_EXCLUSIVE, tag = []\<rparr>"

definition lock_taken :: lobj where
  "lock_taken = lock_blank\<lparr>obj_exists := True, attrs := [(''lock.a'', Lock lock_taken_info)]\<rparr>"

lemma lock_taken_run:
  "lock_op lock_blank (5, 0) (5, 0) ((8, 1), 0) (Some lock_request) = Inr lock_taken" "lock_init lock_blank"
  "lock_step lock_blank lock_taken" "locks_ok lock_taken"
proof -
  show l: "lock_op lock_blank (5, 0) (5, 0) ((8, 1), 0) (Some lock_request) = Inr lock_taken"
    by (simp add: lock_op_def lock_request_def lock_obj_def Let_def cls_lock_is_valid_def read_for_lock_def read_lock_def
        cls_cxx_getxattr_def lock_blank_def grant_lock_def lock_info0_def cls_lock_is_exclusive_def write_lock_def
        cls_cxx_setxattr_def LOCK_PREFIX_def lock_taken_def lock_taken_info_def utime_zero_def utime_add_def utime_normalize_def
        cap_to_u32_max_def two32_def)
  show i: "lock_init lock_blank" by (simp add: lock_init_def lock_blank_def)
  show s: "lock_step lock_blank lock_taken" using l by (rule lock_step.lock)
  show "locks_ok lock_taken" using lk.inv_init [OF i] s by (rule lk.inv_step)
qed

text \<open>C27. Two clients that both pass \<open>assert_locked\<close> for an exclusive lock, at whatever times and in
  whatever state the methods can reach, are the same client with the same cookie.\<close>

theorem lock_mutual_exclusion:
  assumes "lock_init ob0" and "lock_step\<^sup>*\<^sup>* ob0 ob"
    and "assert_locked ob t inst (Some \<lparr>aop_name = name, aop_type = ty, aop_cookie = c, aop_tag = tg\<rparr>) = Inr ob1"
    and "assert_locked ob t' inst' (Some \<lparr>aop_name = name, aop_type = ty', aop_cookie = c', aop_tag = tg'\<rparr>) = Inr ob2"
    and "cls_lock_is_exclusive ty"
  shows "(fst inst, c) = (fst inst', c')"
proof -
  have ok: "locks_ok ob" using assms(1,2) by (rule lk.inv_reachable)
  have passed: "\<exists>l info. map_of (attrs ob) (LOCK_PREFIX @ name) = Some (Lock l) \<and> lock_type l = y \<and>
      map_of (lockers l) (fst j, k) = Some info"
    if passed: "assert_locked ob u j (Some \<lparr>aop_name = name, aop_type = y, aop_cookie = k, aop_tag = g\<rparr>) = Inr ob'" for u j y k g ob'
  proof -
    obtain l where c: "check_lock ob u name y g = Inr (ob', l)" and m: "map_of (lockers l) (fst j, k) \<noteq> None"
      using assert_locked_check [OF passed] by (metis cls_lock_assert_op.select_convs option.inject)
    from check_lock_read(1) [OF c] show ?thesis
    proof (cases rule: read_lock_cases)
      case none
      then show ?thesis using m by (simp add: lock_info0_def)
    next
      case (some l0)
      then have "lock_ok l0" using ok by (simp add: locks_ok_def)
      then have "map_of (lockers l0) (fst j, k) \<noteq> None"
        using m some map_of_filter_live [of "lockers l0" "\<lambda>x. \<not> expired u x" "(fst j, k)"]
        by (auto simp: live_def lock_ok_def split: option.splits)
      moreover have "lock_type l0 = y" using check_lock_read(2) [OF c] some by (simp add: live_def)
      ultimately show ?thesis using some by auto
    qed
  qed
  obtain l i1 i2 where l: "map_of (attrs ob) (LOCK_PREFIX @ name) = Some (Lock l)" "lock_type l = ty"
    and m: "map_of (lockers l) (fst inst, c) = Some i1" "map_of (lockers l) (fst inst', c') = Some i2"
    using passed [OF assms(3)] passed [OF assms(4)] by auto
  have "length (lockers l) \<le> 1" using ok l assms(5) by (auto simp: locks_ok_def lock_ok_def)
  with m show ?thesis by (cases "lockers l") (auto split: if_splits)
qed

theorem lock_mutual_exclusion_witness:
  "{(fst inst, c) | inst c. \<exists>t ob1. assert_locked lock_taken t inst
      (Some \<lparr>aop_name = ''a'', aop_type = LOCK_EXCLUSIVE, aop_cookie = c, aop_tag = []\<rparr>) = Inr ob1} = {((8, 1), ''c'')}"
proof -
  have run: "lock_step\<^sup>*\<^sup>* lock_blank lock_taken" using lock_taken_run(3) by (rule r_into_rtranclp)
  have held: "assert_locked lock_taken (7, 0) ((8, 1), 0)
      (Some \<lparr>aop_name = ''a'', aop_type = LOCK_EXCLUSIVE, aop_cookie = ''c'', aop_tag = []\<rparr>) = Inr lock_taken"
    by (simp add: assert_locked_def check_lock_def cls_lock_is_valid_def read_lock_def cls_cxx_getxattr_def lock_taken_def
        lock_blank_def lock_taken_info_def LOCK_PREFIX_def live_def expired_def clean_expired_def Let_def utime_zero_def)
  have ex: "cls_lock_is_exclusive LOCK_EXCLUSIVE" by (simp add: cls_lock_is_exclusive_def)
  have "(fst inst, c) = ((8, 1), ''c'')" if "assert_locked lock_taken t inst
      (Some \<lparr>aop_name = ''a'', aop_type = LOCK_EXCLUSIVE, aop_cookie = c, aop_tag = []\<rparr>) = Inr ob1" for inst c t ob1
    using lock_mutual_exclusion [OF lock_taken_run(2) run that held ex] by simp
  with held show ?thesis by fastforce
qed

text \<open>C28. A request is granted exactly when no more than one renewal flag is set, the tag matches that
  of the current lockers, the client's own lock exists if and only if the flags say it may or must, and
  there is no other locker or both the request and the lock are shared. Lockers that have expired count
  for nothing.\<close>

theorem lock_granted_iff:
  assumes "obj_exists ob" and "map_of (attrs ob) (LOCK_PREFIX @ name) = Some (Lock l)" and "lock_ok l"
    and "cls_lock_is_valid ty" and "name \<noteq> []" and "attr_fits ob name"
  shows "(\<exists>ob'. lock_obj ob now now' inst name ty dur descr flags cookie tg = Inr ob') \<longleftrightarrow>
    (let ls = lockers (live now l);
         may = flags AND LOCK_FLAG_MAY_RENEW \<noteq> 0; must = flags AND LOCK_FLAG_MUST_RENEW \<noteq> 0 in
     \<not> (may \<and> must) \<and> (ls = [] \<or> tg = tag l) \<and>
     (if map_of ls (fst inst, cookie) \<noteq> None then may \<or> must else \<not> must) \<and>
     ((\<forall>j. j \<noteq> (fst inst, cookie) \<longrightarrow> map_of ls j = None) \<or> ty = LOCK_SHARED \<and> lock_type l = LOCK_SHARED))"
proof -
  have wf: "smap_wf (lockers (live now l))" using lock_ok_live [OF assms(3)] by (simp add: lock_ok_def)
  have same: "tag (live now l) = tag l" "lock_type (live now l) = lock_type l" by (simp_all add: live_def)
  show ?thesis
    unfolding lock_obj_exact [OF assms] grant_lock_exact [OF wf assms(4)] same Let_def by auto
qed

theorem lock_granted_iff_witness:
  "lock_obj lock_taken (16, 0) (16, 0) ((8, 2), 0) ''a'' LOCK_EXCLUSIVE (0, 0) [] 0 ''d'' ''t'' \<in> range Inr"
proof -
  have "map_of (attrs lock_taken) (LOCK_PREFIX @ ''a'') = Some (Lock lock_taken_info)"
    by (simp add: lock_taken_def lock_blank_def LOCK_PREFIX_def)
  moreover have "lockers (live (16, 0) lock_taken_info) = []" by (simp add: live_def lock_taken_info_def expired_def utime_zero_def)
  ultimately have "\<exists>ob'. lock_obj lock_taken (16, 0) (16, 0) ((8, 2), 0) ''a'' LOCK_EXCLUSIVE (0, 0) [] 0 ''d'' ''t'' = Inr ob'"
    by (subst lock_granted_iff [where l = lock_taken_info])
      (auto simp: lock_taken_def lock_blank_def lock_ok_def lock_taken_info_def cls_lock_is_valid_def attr_fits_def LOCK_PREFIX_def)
  then show ?thesis by auto
qed

text \<open>C29. After a client took a lock, its \<open>assert_locked\<close> with the same arguments succeeds for ever when no duration was given, and
  otherwise exactly as long as the clock has not passed the time of the lock plus the duration, in nanoseconds. When the
  nanoseconds of both add up to exactly one second, which the sum does not carry, the lock is gone one nanosecond
  earlier. Times are normalised and the sum is below the largest second.\<close>

theorem lock_held_until_expiry:
  assumes "lock_init ob0" and "lock_step\<^sup>*\<^sup>* ob0 ob"
    and "lock_obj ob now now' inst name ty dur descr flags cookie tg = Inr ob'"
    and "utime_ok now'" and "utime_ok dur" and "utime_ok t" and "fst now' + fst dur + 1 < two32"
  shows "(\<exists>ob2. assert_locked ob' t inst (Some \<lparr>aop_name = name, aop_type = ty, aop_cookie = cookie, aop_tag = tg\<rparr>) = Inr ob2) \<longleftrightarrow>
    utime_ns dur = 0 \<or> utime_ns t < utime_ns now' + utime_ns dur \<or>
    utime_ns t = utime_ns now' + utime_ns dur \<and> snd now' + snd dur \<noteq> 10 ^ 9"
proof -
  have "dur = utime_zero \<longleftrightarrow> utime_ns dur = 0" by (cases dur) (simp add: utime_zero_def utime_ns_def)
  then show ?thesis
    using assert_after_lock [OF assms(3) lk.inv_reachable [OF assms(1,2)] utime_add_nonzero [OF assms(4,5,7)], of t]
      utime_le_add [OF assms(4,5,7,6)] by simp
qed

theorem lock_held_until_expiry_witness:
  "{t. utime_ok t \<and> (\<exists>ob2. assert_locked lock_taken t ((8, 1), 0)
      (Some \<lparr>aop_name = ''a'', aop_type = LOCK_EXCLUSIVE, aop_cookie = ''c'', aop_tag = []\<rparr>) = Inr ob2)} =
   {t. utime_ok t \<and> utime_ns t \<le> 15 * 10 ^ 9}"
proof -
  have l: "lock_obj lock_blank (5, 0) (5, 0) ((8, 1), 0) ''a'' LOCK_EXCLUSIVE (10, 0) [] 0 ''c'' [] = Inr lock_taken"
    using lock_taken_run(1) by (simp add: lock_op_def lock_request_def)
  have ok: "utime_ok (5, 0)" "utime_ok (10, 0)" "fst (5, 0) + fst (10, 0) + 1 < two32" by (simp_all add: utime_ok_def two32_def)
  have "(\<exists>ob2. assert_locked lock_taken t ((8, 1), 0)
      (Some \<lparr>aop_name = ''a'', aop_type = LOCK_EXCLUSIVE, aop_cookie = ''c'', aop_tag = []\<rparr>) = Inr ob2) \<longleftrightarrow> utime_ns t \<le> 15 * 10 ^ 9"
    if "utime_ok t" for t
    using lock_held_until_expiry [OF lock_taken_run(2) rtranclp.rtrancl_refl l ok(1,2) that ok(3)] by (simp add: utime_ns_def le_less)
  then show ?thesis by blast
qed

text \<open>C30. The assertion in \<open>remove_lock\<close>, that an ephemeral lock has no locker left when its locker is
  removed, holds in every state the methods can reach.\<close>

theorem lock_remove_never_aborts:
  assumes "lock_init ob0" and "lock_step\<^sup>*\<^sup>* ob0 ob"
  shows "unlock_op ob now inst u \<noteq> Inl ABORT \<and> break_lock ob now b \<noteq> Inl ABORT"
  using remove_lock_no_abort [OF lk.inv_reachable [OF assms]]
  by (auto simp: unlock_op_def break_lock_def split: option.splits)

text \<open>An ephemeral lock, broken by another client: the assertion is reached, and the object goes.\<close>

definition ephemeral_taken :: lobj where
  "ephemeral_taken = lock_blank\<lparr>obj_exists := True,
     attrs := [(''lock.a'', Lock (lock_taken_info\<lparr>lock_type := LOCK_EXCLUSIVE_EPHEMERAL\<rparr>))]\<rparr>"

lemma ephemeral_taken_run: "lock_step lock_blank ephemeral_taken"
proof (rule lock_step.lock)
  show "lock_op lock_blank (5, 0) (5, 0) ((8, 1), 0) (Some (lock_request\<lparr>lop_type := LOCK_EXCLUSIVE_EPHEMERAL\<rparr>)) = Inr ephemeral_taken"
    by (simp add: lock_op_def lock_request_def lock_obj_def Let_def cls_lock_is_valid_def read_for_lock_def read_lock_def
        cls_cxx_getxattr_def lock_blank_def grant_lock_def lock_info0_def cls_lock_is_exclusive_def write_lock_def
        cls_cxx_setxattr_def LOCK_PREFIX_def ephemeral_taken_def lock_taken_info_def utime_zero_def utime_add_def
        utime_normalize_def cap_to_u32_max_def two32_def)
qed

theorem lock_remove_never_aborts_witness:
  "break_lock ephemeral_taken (7, 0) (Some \<lparr>bop_name = ''a'', bop_locker = (8, 1), bop_cookie = ''c''\<rparr>) =
     Inr (lock_blank\<lparr>obj_exists := False\<rparr>)"
proof -
  have "break_lock ephemeral_taken (7, 0) (Some \<lparr>bop_name = ''a'', bop_locker = (8, 1), bop_cookie = ''c''\<rparr>) \<noteq> Inl ABORT"
    using lock_remove_never_aborts [OF lock_taken_run(2) r_into_rtranclp [of lock_step, OF ephemeral_taken_run]] by blast
  then show ?thesis
    by (auto simp: break_lock_def remove_lock_def read_lock_def cls_cxx_getxattr_def ephemeral_taken_def lock_blank_def
        lock_taken_info_def LOCK_PREFIX_def live_def expired_def clean_expired_def Let_def utime_zero_def cls_lock_is_ephemeral_def
        clean_lock_def cls_cxx_remove_def)
qed

end
