(* ===== verification/Intarith.thy ===== *)
theory Intarith
  imports Ceph_Prelude
begin

unbundle bit_operations_syntax

text \<open>
  The integer helpers of \<open>src/include/intarith.h\<close> that the placement and the allocators use: rounding to
  powers of two by bit masks on 64-bit values, and the number of significant bits. On powers of two the
  masks are shown to be the rounding they stand for.
\<close>

text \<open>\<open>cbits\<close> is the number of bits up to the highest one that is set.\<close>

fun cbits :: "nat \<Rightarrow> nat" where
  "cbits v = (if v = 0 then 0 else Suc (cbits (v div 2)))"

declare cbits.simps [simp del]

definition neg64 :: "nat \<Rightarrow> nat" where
  "neg64 x = sub64 0 x"

definition isp2 :: "nat \<Rightarrow> bool" where
  "isp2 x \<longleftrightarrow> x AND sub64 x 1 = 0"

definition p2align :: "nat \<Rightarrow> nat \<Rightarrow> nat" where
  "p2align x align = x AND neg64 align"

definition p2roundup :: "nat \<Rightarrow> nat \<Rightarrow> nat" where
  "p2roundup x align = neg64 (neg64 x AND neg64 align)"

lemma nat_and_le: "(x::nat) AND y \<le> x"
proof -
  have "int (x AND y) = int x AND int y" by (simp add: of_nat_and_eq)
  also have "\<dots> \<le> int x" by simp
  finally show ?thesis by simp
qed

lemma p2align_le: "p2align x align \<le> x"
  by (simp add: p2align_def nat_and_le)

subsection \<open>Powers of two\<close>

lemma neg64_eq: "0 < x \<Longrightarrow> x \<le> two64 \<Longrightarrow> neg64 x = two64 - x"
  by (cases "x = two64") (simp_all add: neg64_def sub64_def)

lemma neg64_0 [simp]: "neg64 0 = 0"
  by (simp add: neg64_def sub64_def)

lemma and_pred_eq_0:
  fixes x :: nat
  shows "0 < x \<Longrightarrow> x AND (x - 1) = 0 \<Longrightarrow> \<exists>k. x = 2 ^ k"
proof (induction x rule: less_induct)
  case (less x)
  show ?case
  proof (cases "even x")
    case True
    then obtain y where y: "x = 2 * y" by blast
    then have "(x - 1) div 2 = y - 1" using less.prems by linarith
    then have "x AND (x - 1) = 2 * (y AND (y - 1))" using y by (subst and_rec) simp
    then obtain k where "y = 2 ^ k" using less.IH [of y] less.prems y by auto
    then have "x = 2 ^ Suc k" using y by simp
    then show ?thesis by blast
  next
    case False
    then obtain y where y: "x = 2 * y + 1" by (blast elim: oddE)
    then have "x AND (x - 1) = 2 * y" by (subst and_rec) simp
    then have "x = 2 ^ 0" using less.prems y by simp
    then show ?thesis by blast
  qed
qed

lemma isp2_power:
  assumes "isp2 x" and "0 < x" and "x < two64"
  obtains k where "k < 64" and "x = 2 ^ k"
proof -
  have "sub64 x 1 = x - 1" using assms by (simp add: u64_simps)
  then obtain k where k: "x = 2 ^ k" using and_pred_eq_0 assms by (auto simp: isp2_def)
  then have "(2::nat) ^ k < 2 ^ 64" using assms(3) by (simp add: two64_def)
  then have "k < 64" by (simp only: power_strict_increasing_iff)
  with k show ?thesis using that by blast
qed

lemma p2align_eq:
  assumes "x < two64" and "k < 64"
  shows "p2align x (2 ^ k) = x div 2 ^ k * 2 ^ k"
proof -
  have "(2::nat) ^ 64 = 2 ^ k * 2 ^ (64 - k)" using assms(2) by (simp flip: power_add)
  then have "two64 - 2 ^ k = push_bit k (mask (64 - k))"
    by (simp add: two64_def push_bit_eq_mult mask_eq_exp_minus_1 algebra_simps)
  moreover have "(2::nat) ^ k \<le> two64" using assms(2) unfolding two64_def by (intro power_increasing) simp_all
  ultimately have "p2align x (2 ^ k) = x AND push_bit k (mask (64 - k))"
    by (simp add: p2align_def neg64_eq)
  also have "\<dots> = push_bit k (drop_bit k x)"
  proof (rule bit_eqI)
    fix n
    have "n < 64" if "bit x n"
    proof (rule ccontr)
      assume "\<not> n < 64"
      then have "(2::nat) ^ 64 \<le> 2 ^ n" by (intro power_increasing) simp_all
      then have "x div 2 ^ n = 0" using assms(1) by (simp add: two64_def)
      then show False using that by (simp add: bit_iff_odd)
    qed
    then show "bit (x AND push_bit k (mask (64 - k))) n = bit (push_bit k (drop_bit k x)) n"
      using assms(2) by (auto simp: bit_and_iff bit_push_bit_iff bit_mask_iff bit_drop_bit_eq)
  qed
  finally show ?thesis by (simp add: push_bit_eq_mult drop_bit_eq_div)
qed

lemma p2align_props:
  assumes "x < two64" and "k < 64"
  shows "2 ^ k dvd p2align x (2 ^ k)" and "y \<le> x \<Longrightarrow> 2 ^ k dvd y \<Longrightarrow> y \<le> p2align x (2 ^ k)"
proof -
  show "2 ^ k dvd p2align x (2 ^ k)" by (simp add: p2align_eq assms)
  show "y \<le> p2align x (2 ^ k)" if "y \<le> x" "2 ^ k dvd y"
  proof -
    from that(2) obtain q where "y = q * 2 ^ k" by (metis dvd_def mult.commute)
    moreover from this have "q \<le> x div 2 ^ k" using that(1) by (simp add: less_eq_div_iff_mult_less_eq)
    ultimately show ?thesis by (simp add: p2align_eq assms)
  qed
qed

text \<open>Rounding up gives the next multiple.\<close>

lemma p2roundup_props:
  assumes "k < 64" and "x \<le> two64 - 2 ^ k"
  shows "2 ^ k dvd p2roundup x (2 ^ k)" and "x \<le> p2roundup x (2 ^ k)" and "p2roundup x (2 ^ k) < x + 2 ^ k"
proof -
  let ?a = "(2::nat) ^ k" and ?y = "p2roundup x (2 ^ k)"
  have a: "?a \<le> two64" "?a dvd two64"
    using assms(1) unfolding two64_def by (intro power_increasing le_imp_power_dvd; simp)+
  have "?a dvd ?y \<and> x \<le> ?y \<and> ?y < x + ?a"
  proof (cases "x = 0")
    case True
    then show ?thesis by (simp add: p2roundup_def)
  next
    case False
    have nn: "neg64 x = two64 - x" using False assms(2) by (intro neg64_eq) simp_all
    have lt: "two64 - x < two64" using False by simp
    have z: "neg64 x AND neg64 ?a = (two64 - x) div ?a * ?a"
      using p2align_eq [OF lt assms(1)] by (simp add: p2align_def nn)
    let ?z = "(two64 - x) div ?a * ?a"
    have zx: "?z + (two64 - x) mod ?a = two64 - x" by (rule div_mult_mod_eq)
    have "?a \<le> two64 - x" using assms(2) a(1) by linarith
    then have pos: "0 < ?z" by (simp add: div_greater_zero_iff)
    have zle: "?z \<le> two64" using zx by linarith
    have y: "?y = two64 - ?z" unfolding p2roundup_def z using pos zle by (rule neg64_eq)
    have "?a dvd ?y" unfolding y using a(2) by (rule dvd_diff_nat) simp
    moreover have "(two64 - x) mod ?a < ?a" by simp
    ultimately show ?thesis using zx y assms(2) by linarith
  qed
  then show "2 ^ k dvd ?y" "x \<le> ?y" "?y < x + 2 ^ k" by simp_all
qed

lemma p2roundup_least:
  assumes "k < 64" and "x \<le> two64 - 2 ^ k" and "x \<le> y" and "2 ^ k dvd y"
  shows "p2roundup x (2 ^ k) \<le> y"
proof (rule ccontr)
  assume less: "\<not> p2roundup x (2 ^ k) \<le> y"
  have "2 ^ k dvd p2roundup x (2 ^ k) - y" using p2roundup_props(1) [OF assms(1,2)] assms(4) by (rule dvd_diff_nat)
  then have "2 ^ k \<le> p2roundup x (2 ^ k) - y" using less by (intro dvd_imp_le) simp_all
  then show False using p2roundup_props(3) [OF assms(1,2)] assms(3) less by linarith
qed

lemma low_bit_pos:
  assumes "0 < x" and "x < two64"
  shows "x AND neg64 x \<noteq> 0"
proof -
  have n: "neg64 x = two64 - x" using assms by (intro neg64_eq) simp_all
  have "\<exists>k q. x = 2 ^ k * q \<and> odd q"
  proof -
    have "\<exists>k q. x = 2 ^ k * q \<and> odd q" if "0 < x" for x :: nat
      using that
    proof (induction x rule: less_induct)
      case (less x)
      show ?case
      proof (cases "even x")
        case True
        then obtain y where y: "x = 2 * y" by blast
        then obtain k q where "y = 2 ^ k * q" "odd q" using less.IH [of y] less.prems by auto
        then have "x = 2 ^ Suc k * q \<and> odd q" using y by simp
        then show ?thesis by blast
      qed (auto intro: exI [of _ 0])
    qed
    then show ?thesis using assms(1) .
  qed
  then obtain k q where x: "x = 2 ^ k * q" and q: "odd q" by blast
  have "(2::nat) ^ k \<le> x" using x q by (cases q) simp_all
  then have "(2::nat) ^ k < 2 ^ 64" using assms(2) by (simp add: two64_def)
  then have k: "k < 64" by (simp only: power_strict_increasing_iff)
  have "two64 = 2 ^ k * 2 ^ (64 - k)" using k by (simp add: two64_def flip: power_add)
  then have "two64 - x = 2 ^ k * (2 ^ (64 - k) - q)" by (simp add: x right_diff_distrib')
  moreover have "q < 2 ^ (64 - k)" using assms(2) x \<open>two64 = 2 ^ k * 2 ^ (64 - k)\<close> by (metis nat_mult_less_cancel1 zero_less_numeral zero_less_power)
  then have "odd (2 ^ (64 - k) - q)" using q k by simp
  ultimately have "bit x k" "bit (two64 - x) k" using x q by (simp_all add: bit_iff_odd)
  then have "bit (x AND neg64 x) k" by (simp add: n bit_and_iff)
  then show ?thesis by (metis bit_0_eq bot_apply bot_bool_def)
qed

subsection \<open>Significant bits\<close>

lemma cbits_0 [simp]: "cbits 0 = 0"
  by (simp add: cbits.simps)

lemma cbits_bounds: "v < 2 ^ cbits v" "v \<noteq> 0 \<Longrightarrow> 2 ^ (cbits v - 1) \<le> v"
proof (induction v rule: cbits.induct)
  case (1 v)
  {
    case 1
    show ?case
    proof (cases "v = 0")
      case False
      then have "v div 2 < 2 ^ cbits (v div 2)" using \<open>v \<noteq> 0 \<Longrightarrow> v div 2 < 2 ^ cbits (v div 2)\<close> by simp
      with False show ?thesis by (simp add: cbits.simps [of v])
    qed (simp add: cbits.simps)
  next
    case 2
    show ?case
    proof (cases "v div 2 = 0")
      case True
      then show ?thesis using \<open>v \<noteq> 0\<close> by (simp add: cbits.simps [of v] cbits.simps [of "v div 2"])
    next
      case False
      then have "2 ^ (cbits (v div 2) - 1) \<le> v div 2"
        using \<open>v \<noteq> 0 \<Longrightarrow> v div 2 \<noteq> 0 \<Longrightarrow> 2 ^ (cbits (v div 2) - 1) \<le> v div 2\<close> \<open>v \<noteq> 0\<close> by simp
      moreover have "cbits (v div 2) = Suc (cbits (v div 2) - 1)" using False by (simp add: cbits.simps [of "v div 2"])
      then have "(2::nat) ^ cbits (v div 2) = 2 * 2 ^ (cbits (v div 2) - 1)" by (metis power_Suc)
      ultimately show ?thesis using \<open>v \<noteq> 0\<close> by (simp add: cbits.simps [of v])
    qed
  }
qed

lemma cbits_mono: "a \<le> b \<Longrightarrow> cbits a \<le> cbits b"
proof (cases "a = 0")
  case True
  then show ?thesis by (simp add: cbits.simps [of 0])
next
  case False
  assume "a \<le> b"
  have "(2::nat) ^ (cbits a - 1) \<le> a" using False by (rule cbits_bounds)
  also have "a < 2 ^ cbits b" using \<open>a \<le> b\<close> cbits_bounds(1) [of b] by simp
  finally have "cbits a - 1 < cbits b" by (simp add: power_strict_increasing_iff)
  then show ?thesis by simp
qed

end
