(* ===== verification/Osd_Map.thy ===== *)
theory Osd_Map
  imports Intarith
begin

unbundle bit_operations_syntax

text \<open>
  Placement in the OSD map (\<open>src/osd/OSDMap.cc\<close>): from a placement group to the OSDs that serve it. The
  stages are those of the code: CRUSH gives the raw list, nonexistent OSDs are dropped, the upmap
  exceptions are applied, OSDs that are down are dropped, the primary is chosen by affinity, and the
  temporary mappings override the result. CRUSH itself (\<open>do_rule\<close>) and its hash are arguments
  (\<open>crush_env\<close>): every statement holds for any placement function. The loops that work in place are
  kept as loops. \<open>None\<close> is the abort on a pool of unknown type.
\<close>

definition CRUSH_ITEM_NONE :: int where
  "CRUSH_ITEM_NONE = 0x7fffffff"

definition CEPH_OSD_EXISTS :: nat where "CEPH_OSD_EXISTS = 1"
definition CEPH_OSD_UP :: nat where "CEPH_OSD_UP = 2"
definition CEPH_OSD_MAX_PRIMARY_AFFINITY :: nat where "CEPH_OSD_MAX_PRIMARY_AFFINITY = 0x10000"

subsection \<open>Pools and placement groups\<close>

record pg_t =
  pg_pool :: int
  pg_ps :: nat

record pg_pool_t =
  pool_type :: nat
  pool_size :: nat
  crush_rule :: int
  pg_num :: nat
  pgp_num :: nat
  pg_num_mask :: nat
  pgp_num_mask :: nat
  hashpspool :: bool

definition TYPE_REPLICATED :: nat where "TYPE_REPLICATED = 1"
definition TYPE_ERASURE :: nat where "TYPE_ERASURE = 3"

definition can_shift_osds :: "pg_pool_t \<Rightarrow> bool option" where
  "can_shift_osds p =
     (if pool_type p = TYPE_REPLICATED then Some True
      else if pool_type p = TYPE_ERASURE then Some False
      else None)"

definition ceph_stable_mod :: "nat \<Rightarrow> nat \<Rightarrow> nat \<Rightarrow> nat" where
  "ceph_stable_mod x b bmask =
     (if x AND bmask < b then x AND bmask else x AND (drop_bit 1 bmask))"

text \<open>\<open>pg_num\<close> and \<open>pgp_num\<close> are positive and at most \<open>2 ^ 31\<close>, so that the shift of an \<open>int\<close> is defined.\<close>

definition calc_pg_masks :: "pg_pool_t \<Rightarrow> pg_pool_t" where
  "calc_pg_masks p =
     p\<lparr>pg_num_mask := push_bit (cbits (pg_num p - 1)) 1 - 1, pgp_num_mask := push_bit (cbits (pgp_num p - 1)) 1 - 1\<rparr>"

definition raw_pg_to_pg :: "pg_pool_t \<Rightarrow> pg_t \<Rightarrow> pg_t" where
  "raw_pg_to_pg p pg = pg\<lparr>pg_ps := ceph_stable_mod (pg_ps pg) (pg_num p) (pg_num_mask p)\<rparr>"

text \<open>What CRUSH provides: the rule for a pool, the OSDs a rule gives, and the hash.\<close>

record crush_env =
  find_rule :: "int \<Rightarrow> nat \<Rightarrow> nat \<Rightarrow> int"
  do_rule :: "int \<Rightarrow> nat \<Rightarrow> nat \<Rightarrow> nat list \<Rightarrow> int \<Rightarrow> int list"
  crush_hash32_2 :: "nat \<Rightarrow> int \<Rightarrow> nat"

definition raw_pg_to_pps :: "crush_env \<Rightarrow> pg_pool_t \<Rightarrow> pg_t \<Rightarrow> nat" where
  "raw_pg_to_pps c p pg =
     (let ps = ceph_stable_mod (pg_ps pg) (pgp_num p) (pgp_num_mask p)
      in if hashpspool p then crush_hash32_2 c ps (pg_pool pg)
         else nat ((int ps + pg_pool pg) mod int two32))"

subsection \<open>The map\<close>

record osd_map =
  max_osd :: int
  osd_state :: "nat list"
  osd_weight :: "nat list"
  osd_primary_affinity :: "nat list option"
  pools :: "int \<rightharpoonup> pg_pool_t"
  pg_upmap :: "pg_t \<rightharpoonup> int list"
  pg_upmap_items :: "pg_t \<rightharpoonup> (int \<times> int) list"
  pg_temp :: "pg_t \<rightharpoonup> int list"
  primary_temp :: "pg_t \<rightharpoonup> int"

definition osd_exists :: "osd_map \<Rightarrow> int \<Rightarrow> bool" where
  "osd_exists m osd \<longleftrightarrow> osd \<ge> 0 \<and> osd < max_osd m \<and> osd_state m ! nat osd AND CEPH_OSD_EXISTS \<noteq> 0"

definition is_up :: "osd_map \<Rightarrow> int \<Rightarrow> bool" where
  "is_up m osd \<longleftrightarrow> osd_exists m osd \<and> osd_state m ! nat osd AND CEPH_OSD_UP \<noteq> 0"

definition is_down :: "osd_map \<Rightarrow> int \<Rightarrow> bool" where
  "is_down m osd \<longleftrightarrow> \<not> is_up m osd"

subsection \<open>Raw mapping\<close>

text \<open>The loop that closes the gaps in place: \<open>i\<close> is the index, \<open>removed\<close> the OSDs dropped so far.\<close>

function compact_loop :: "osd_map \<Rightarrow> nat \<Rightarrow> nat \<Rightarrow> int list \<Rightarrow> int list \<times> nat" where
  "compact_loop m i removed osds =
     (if \<not> i < length osds then (osds, removed)
      else if \<not> osd_exists m (osds ! i) then compact_loop m (Suc i) (Suc removed) osds
      else compact_loop m (Suc i) removed (if removed > 0 then osds[i - removed := osds ! i] else osds))"
  by pat_completeness auto
termination
  by (relation "measure (\<lambda>(m, i, removed, osds). length osds - i)") auto

declare compact_loop.simps [simp del]

definition remove_nonexistent_osds :: "osd_map \<Rightarrow> pg_pool_t \<Rightarrow> int list \<Rightarrow> int list option" where
  "remove_nonexistent_osds m pool osds = do {
     shift \<leftarrow> can_shift_osds pool;
     if shift then
       let (osds, removed) = compact_loop m 0 0 osds
       in Some (if removed > 0 then take (length osds - removed) osds else osds)
     else Some (map (\<lambda>osd. if \<not> osd_exists m osd then CRUSH_ITEM_NONE else osd) osds) }"

definition pg_to_raw_osds_pps :: "crush_env \<Rightarrow> osd_map \<Rightarrow> pg_pool_t \<Rightarrow> pg_t \<Rightarrow> (int list \<times> nat) option" where
  "pg_to_raw_osds_pps c m pool pg =
     (let pps = raw_pg_to_pps c pool pg;
          sz = pool_size pool;
          ruleno = find_rule c (crush_rule pool) (pool_type pool) sz;
          osds = (if ruleno \<ge> 0 then do_rule c ruleno pps sz (osd_weight m) (pg_pool pg) else [])
      in map_option (\<lambda>osds. (osds, pps)) (remove_nonexistent_osds m pool osds))"

fun pick_primary :: "int list \<Rightarrow> int" where
  "pick_primary [] = -1"
| "pick_primary (osd # osds) = (if osd \<noteq> CRUSH_ITEM_NONE then osd else pick_primary osds)"

subsection \<open>Upmap exceptions\<close>

definition marked_out :: "osd_map \<Rightarrow> int \<Rightarrow> bool" where
  "marked_out m osd \<longleftrightarrow> osd \<noteq> CRUSH_ITEM_NONE \<and> osd < max_osd m \<and> osd \<ge> 0 \<and> osd_weight m ! nat osd = 0"

text \<open>The scan for one item: whether the target appears, and where the source first does. The scan
  stops at the target.\<close>

fun upmap_scan :: "osd_map \<Rightarrow> int \<times> int \<Rightarrow> nat \<Rightarrow> nat option \<Rightarrow> int list \<Rightarrow> bool \<times> nat option" where
  "upmap_scan m r i pos [] = (False, pos)"
| "upmap_scan m r i pos (osd # osds) =
     (if osd = snd r then (True, pos)
      else upmap_scan m r (Suc i)
             (if osd = fst r \<and> pos = None \<and> \<not> marked_out m (snd r) then Some i else pos) osds)"

definition upmap_item :: "osd_map \<Rightarrow> int list \<Rightarrow> int \<times> int \<Rightarrow> int list" where
  "upmap_item m raw r =
     (case upmap_scan m r 0 None raw of
        (False, Some pos) \<Rightarrow> raw[pos := snd r]
      | _ \<Rightarrow> raw)"

definition apply_upmap :: "osd_map \<Rightarrow> pg_pool_t \<Rightarrow> pg_t \<Rightarrow> int list \<Rightarrow> int list" where
  "apply_upmap m pool raw_pg raw =
     (let pg = raw_pg_to_pg pool raw_pg
      in case pg_upmap m pg of
           Some osds \<Rightarrow>
             if list_ex (marked_out m) osds then raw
             else (case pg_upmap_items m pg of None \<Rightarrow> osds | Some items \<Rightarrow> foldl (upmap_item m) osds items)
         | None \<Rightarrow> (case pg_upmap_items m pg of None \<Rightarrow> raw | Some items \<Rightarrow> foldl (upmap_item m) raw items))"

subsection \<open>The up set\<close>

definition raw_to_up_osds :: "osd_map \<Rightarrow> pg_pool_t \<Rightarrow> int list \<Rightarrow> int list option" where
  "raw_to_up_osds m pool raw = do {
     shift \<leftarrow> can_shift_osds pool;
     if shift then Some (filter (\<lambda>osd. \<not> (\<not> osd_exists m osd \<or> is_down m osd)) raw)
     else Some (map (\<lambda>osd. if \<not> osd_exists m osd \<or> is_down m osd then CRUSH_ITEM_NONE else osd) raw) }"

text \<open>The position of the primary: the first OSD whose affinity does not reject the placement group,
  and else the first OSD.\<close>

fun affinity_scan :: "crush_env \<Rightarrow> nat list \<Rightarrow> nat \<Rightarrow> nat \<Rightarrow> nat option \<Rightarrow> int list \<Rightarrow> nat option" where
  "affinity_scan c aff seed i pos [] = pos"
| "affinity_scan c aff seed i pos (o' # osds) =
     (if o' = CRUSH_ITEM_NONE then affinity_scan c aff seed (Suc i) pos osds
      else
        let a = aff ! nat o'
        in if a < CEPH_OSD_MAX_PRIMARY_AFFINITY \<and> drop_bit 16 (crush_hash32_2 c seed o') \<ge> a
           then affinity_scan c aff seed (Suc i) (if pos = None then Some i else pos) osds
           else Some i)"

text \<open>\<open>for (i = pos; i > 0; --i) osds[i] = osds[i-1]\<close>.\<close>

fun shift_right :: "nat \<Rightarrow> int list \<Rightarrow> int list" where
  "shift_right 0 osds = osds"
| "shift_right (Suc i) osds = shift_right i (osds[Suc i := osds ! i])"

definition apply_primary_affinity ::
  "crush_env \<Rightarrow> osd_map \<Rightarrow> nat \<Rightarrow> pg_pool_t \<Rightarrow> int list \<Rightarrow> int \<Rightarrow> (int list \<times> int) option" where
  "apply_primary_affinity c m seed pool osds primary =
     (case osd_primary_affinity m of
        None \<Rightarrow> Some (osds, primary)
      | Some aff \<Rightarrow>
          if \<not> list_ex (\<lambda>osd. osd \<noteq> CRUSH_ITEM_NONE \<and> aff ! nat osd \<noteq> CEPH_OSD_MAX_PRIMARY_AFFINITY) osds
          then Some (osds, primary)
          else (case affinity_scan c aff seed 0 None osds of
                  None \<Rightarrow> Some (osds, primary)
                | Some pos \<Rightarrow> do {
                    let primary = osds ! pos;
                    shift \<leftarrow> can_shift_osds pool;
                    if shift \<and> pos > 0 then Some ((shift_right pos osds)[0 := primary], primary)
                    else Some (osds, primary) }))"

subsection \<open>Temporary mappings\<close>

primrec temp_loop :: "osd_map \<Rightarrow> pg_pool_t \<Rightarrow> int list \<Rightarrow> int list option" where
  "temp_loop m pool [] = Some []"
| "temp_loop m pool (osd # osds) = do {
     here \<leftarrow> (if \<not> osd_exists m osd \<or> is_down m osd
              then do { shift \<leftarrow> can_shift_osds pool; Some (if shift then [] else [CRUSH_ITEM_NONE]) }
              else Some [osd]);
     rest \<leftarrow> temp_loop m pool osds;
     Some (here @ rest) }"

definition get_temp_osds :: "osd_map \<Rightarrow> pg_pool_t \<Rightarrow> pg_t \<Rightarrow> (int list \<times> int) option" where
  "get_temp_osds m pool raw_pg = do {
     let pg = raw_pg_to_pg pool raw_pg;
     temp \<leftarrow> (case pg_temp m pg of None \<Rightarrow> Some [] | Some osds \<Rightarrow> temp_loop m pool osds);
     Some (temp, case primary_temp m pg of Some p \<Rightarrow> p | None \<Rightarrow> pick_primary temp) }"

subsection \<open>The pipeline\<close>

record up_acting =
  up :: "int list"
  up_primary :: int
  acting :: "int list"
  acting_primary :: int

definition no_osds :: up_acting where
  "no_osds = \<lparr>up = [], up_primary = -1, acting = [], acting_primary = -1\<rparr>"

definition pg_to_raw_osds :: "crush_env \<Rightarrow> osd_map \<Rightarrow> pg_t \<Rightarrow> (int list \<times> int) option" where
  "pg_to_raw_osds c m pg =
     (case pools m (pg_pool pg) of
        None \<Rightarrow> Some ([], -1)
      | Some pool \<Rightarrow> map_option (\<lambda>(raw, _). (raw, pick_primary raw)) (pg_to_raw_osds_pps c m pool pg))"

text \<open>\<open>raw_upmap\<close>; the other result is the list before the exceptions, as \<open>pg_to_raw_osds\<close> gives it.\<close>

definition pg_to_raw_upmap :: "crush_env \<Rightarrow> osd_map \<Rightarrow> pg_t \<Rightarrow> int list option" where
  "pg_to_raw_upmap c m pg =
     (case pools m (pg_pool pg) of
        None \<Rightarrow> Some []
      | Some pool \<Rightarrow> map_option (\<lambda>(raw, _). apply_upmap m pool pg raw) (pg_to_raw_osds_pps c m pool pg))"

definition pg_to_raw_up :: "crush_env \<Rightarrow> osd_map \<Rightarrow> pg_t \<Rightarrow> (int list \<times> int) option" where
  "pg_to_raw_up c m pg =
     (case pools m (pg_pool pg) of
        None \<Rightarrow> Some ([], -1)
      | Some pool \<Rightarrow> do {
          (raw, pps) \<leftarrow> pg_to_raw_osds_pps c m pool pg;
          let raw = apply_upmap m pool pg raw;
          u \<leftarrow> raw_to_up_osds m pool raw;
          apply_primary_affinity c m pps pool u (pick_primary raw) })"

text \<open>The results are asked for all at once here: \<open>up\<close>, \<open>up_primary\<close>, \<open>acting\<close> and
  \<open>acting_primary\<close> are not null.\<close>

definition pg_to_up_acting_osds :: "crush_env \<Rightarrow> osd_map \<Rightarrow> pg_t \<Rightarrow> bool \<Rightarrow> up_acting option" where
  "pg_to_up_acting_osds c m pg raw_to_pg =
     (case pools m (pg_pool pg) of
        None \<Rightarrow> Some no_osds
      | Some pool \<Rightarrow>
          if \<not> raw_to_pg \<and> pg_ps pg \<ge> pg_num pool then Some no_osds
          else do {
            (act, act_primary) \<leftarrow> get_temp_osds m pool pg;
            (raw, pps) \<leftarrow> pg_to_raw_osds_pps c m pool pg;
            let raw = apply_upmap m pool pg raw;
            u \<leftarrow> raw_to_up_osds m pool raw;
            (u, u_primary) \<leftarrow> apply_primary_affinity c m pps pool u (pick_primary u);
            Some (if act = []
                  then \<lparr>up = u, up_primary = u_primary, acting = u,
                        acting_primary = (if act_primary = -1 then u_primary else act_primary)\<rparr>
                  else \<lparr>up = u, up_primary = u_primary, acting = act, acting_primary = act_primary\<rparr>) })"

subsection \<open>Roles\<close>

fun role_scan :: "int \<Rightarrow> nat \<Rightarrow> int list \<Rightarrow> int" where
  "role_scan osd i [] = -1"
| "role_scan osd i (a # act) = (if a = osd then int i else role_scan osd (Suc i) act)"

text \<open>A negative shard is \<open>NO_SHARD\<close>.\<close>

definition calc_pg_role :: "int \<Rightarrow> int \<Rightarrow> int list \<Rightarrow> int" where
  "calc_pg_role osd shard act =
     (if shard = -1 then role_scan osd 0 act
      else if shard < int (length act) \<and> act ! nat shard = osd then shard
      else -1)"

text \<open>\<open>nrep\<close> is 0 for the whole list and else at most its length.\<close>

definition calc_pg_role_broken :: "int \<Rightarrow> int list \<Rightarrow> nat \<Rightarrow> int" where
  "calc_pg_role_broken osd act nrep =
     (let nrep = (if nrep = 0 then length act else nrep) in role_scan osd 0 (take nrep act))"

definition primary_changed_broken :: "int \<Rightarrow> int list \<Rightarrow> int \<Rightarrow> int list \<Rightarrow> bool" where
  "primary_changed_broken oldprimary oldacting newprimary newacting =
     (if oldacting = [] \<and> newacting = [] then False
      else if (oldacting = []) \<noteq> (newacting = []) then True
      else if oldprimary \<noteq> newprimary then True
      else calc_pg_role_broken oldprimary oldacting 0 \<noteq> calc_pg_role_broken newprimary newacting 0)"

end
