(* ===== verification/Osd_Map_Correct.thy ===== *)
theory Osd_Map_Correct
  imports Osd_Map "HOL-Library.Multiset"
begin

text \<open>
  The placement pipeline against what it is for: the in-place loops are a filter and a rotation, the
  up set is the raw set without the OSDs that are down, its primary is a live OSD of it, the acting set
  is the live part of a temporary mapping or else the up set, no OSD serves a placement group twice,
  and growing \<open>pg_num\<close> moves objects to new placement groups only.
\<close>

subsection \<open>Placement group numbers\<close>

text \<open>The residue as remainders of powers of two.\<close>

definition pg_mask :: "nat \<Rightarrow> nat" where
  "pg_mask b = push_bit (cbits (b - 1)) 1 - 1"

lemma stable_mod_eq:
  "ceph_stable_mod x b (pg_mask b) =
    (let n = cbits (b - 1) in if x mod 2 ^ n < b then x mod 2 ^ n else x mod 2 ^ (n - 1))"
proof -
  have "pg_mask b = mask (cbits (b - 1))" by (simp add: pg_mask_def mask_eq_exp_minus_1)
  moreover have "drop_bit 1 (mask n) = (mask (n - 1) :: nat)" for n
    by (cases n) (simp_all add: drop_bit_mask_eq)
  ultimately show ?thesis
    by (simp add: ceph_stable_mod_def Let_def take_bit_eq_mod flip: take_bit_eq_mask)
qed

lemma stable_mod_less:
  assumes "0 < b"
  shows "ceph_stable_mod x b (pg_mask b) < b"
proof (cases "b = 1")
  case True
  then show ?thesis by (simp add: stable_mod_eq Let_def cbits.simps)
next
  case False
  then have "2 ^ (cbits (b - 1) - 1) \<le> b - 1" using assms by (intro cbits_bounds) simp
  moreover have "x mod 2 ^ (cbits (b - 1) - 1) < 2 ^ (cbits (b - 1) - 1)" by simp
  ultimately have "x mod 2 ^ (cbits (b - 1) - 1) < b" using assms by linarith
  then show ?thesis by (simp add: stable_mod_eq Let_def)
qed

lemma stable_mod_grow:
  assumes "0 < b" and "b \<le> b'" and "ceph_stable_mod x b' (pg_mask b') < b"
  shows "ceph_stable_mod x b' (pg_mask b') = ceph_stable_mod x b (pg_mask b)"
proof -
  let ?n = "cbits (b - 1)" and ?n' = "cbits (b' - 1)"
  have le: "?n \<le> ?n'" using assms(2) by (intro cbits_mono) simp
  have b: "b \<le> 2 ^ ?n" using cbits_bounds(1) [of "b - 1"] assms(1) by linarith
  have low: "x mod 2 ^ k mod 2 ^ ?n = x mod 2 ^ ?n" if "?n \<le> k" for k
    using that by (intro mod_mod_cancel le_imp_power_dvd)
  have use: "ceph_stable_mod x b (pg_mask b) = x mod 2 ^ k" if "?n \<le> k" "x mod 2 ^ k < b" for k
    using low [OF that(1)] that(2) b by (simp add: stable_mod_eq Let_def)
  show ?thesis
  proof (cases "x mod 2 ^ ?n' < b'")
    case True
    then show ?thesis using assms(3) use [OF le] by (simp add: stable_mod_eq Let_def)
  next
    case False
    then have r: "ceph_stable_mod x b' (pg_mask b') = x mod 2 ^ (?n' - 1)" by (simp add: stable_mod_eq Let_def)
    show ?thesis
    proof (cases "?n' = ?n")
      case True
      then show ?thesis using False assms(2) r by (simp add: stable_mod_eq Let_def)
    next
      case neq: False
      then have "?n \<le> ?n' - 1" using le by linarith
      then show ?thesis using r assms(3) use [of "?n' - 1"] by simp
    qed
  qed
qed

subsection \<open>The loops in place\<close>

text \<open>The list while the gaps are closed: what is kept, as many elements as were dropped, and the rest.\<close>

lemma compact_loop_eq:
  "length J = removed \<Longrightarrow> i = length K + removed \<Longrightarrow>
   \<exists>J'. compact_loop m i removed (K @ J @ R) = (K @ filter (osd_exists m) R @ J', length J')"
proof (induction R arbitrary: i removed K J)
  case Nil
  then show ?case by (simp add: compact_loop.simps)
next
  case (Cons r R)
  have ith: "(K @ J @ r # R) ! i = r" and il: "i < length (K @ J @ r # R)" using Cons.prems by (simp_all add: nth_append)
  note step = compact_loop.simps [of m i removed "K @ J @ r # R", unfolded ith]
  show ?case
  proof (cases "osd_exists m r")
    case False
    then have "compact_loop m i removed (K @ J @ r # R) = compact_loop m (Suc i) (Suc removed) (K @ (J @ [r]) @ R)"
      using il unfolding step by simp
    then show ?thesis using Cons.IH [of "J @ [r]" "Suc removed" "Suc i" K] Cons.prems False by simp
  next
    case True
    show ?thesis
    proof (cases J)
      case Nil
      then have "compact_loop m i removed (K @ J @ r # R) = compact_loop m (Suc i) removed ((K @ [r]) @ [] @ R)"
        using il True Nil Cons.prems(1) unfolding step by simp
      then show ?thesis using Cons.IH [of "[]" removed "Suc i" "K @ [r]"] Cons.prems Nil True by simp
    next
      case J: (Cons j J1)
      have "(K @ J @ r # R)[i - removed := r] = (K @ [r]) @ (J1 @ [r]) @ R"
        using J Cons.prems by (simp add: list_update_append)
      then have "compact_loop m i removed (K @ J @ r # R) = compact_loop m (Suc i) removed ((K @ [r]) @ (J1 @ [r]) @ R)"
        using il True Cons.prems(1) J unfolding step by simp
      then show ?thesis using Cons.IH [of "J1 @ [r]" removed "Suc i" "K @ [r]"] Cons.prems J True by simp
    qed
  qed
qed

lemma remove_nonexistent_eq:
  "remove_nonexistent_osds m pool osds =
    map_option (\<lambda>shift. if shift then filter (osd_exists m) osds
      else map (\<lambda>osd. if osd_exists m osd then osd else CRUSH_ITEM_NONE) osds) (can_shift_osds pool)"
proof -
  obtain J where c: "compact_loop m 0 0 osds = (filter (osd_exists m) osds @ J, length J)"
    using compact_loop_eq [of "[]" 0 0 "[]" m osds] by auto
  show ?thesis
    by (cases "can_shift_osds pool") (auto simp: remove_nonexistent_osds_def c)
qed

lemma length_shift_right [simp]: "length (shift_right i osds) = length osds"
  by (induction i arbitrary: osds) simp_all

lemma shift_right_nth:
  "i < length osds \<Longrightarrow> j < length osds \<Longrightarrow>
   shift_right i osds ! j = (if 0 < j \<and> j \<le> i then osds ! (j - 1) else osds ! j)"
  by (induction i arbitrary: osds) (auto simp: nth_list_update le_Suc_eq)

lemma move_to_front:
  assumes "pos < length osds"
  shows "(shift_right pos osds)[0 := osds ! pos] = osds ! pos # take pos osds @ drop (Suc pos) osds"
proof (rule nth_equalityI)
  fix j assume "j < length ((shift_right pos osds)[0 := osds ! pos])"
  then show "(shift_right pos osds)[0 := osds ! pos] ! j = (osds ! pos # take pos osds @ drop (Suc pos) osds) ! j"
    using assms by (cases j) (auto simp: shift_right_nth nth_list_update nth_append)
qed (use assms in simp)

lemma mset_move_to_front:
  assumes "pos < length osds"
  shows "mset ((shift_right pos osds)[0 := osds ! pos]) = mset osds"
proof -
  have "mset osds = mset (take pos osds @ osds ! pos # drop (Suc pos) osds)"
    using id_take_nth_drop [OF assms] by simp
  then show ?thesis by (simp add: move_to_front [OF assms])
qed

subsection \<open>Choosing the primary\<close>

lemma affinity_scan_pos:
  "affinity_scan c aff seed i pos osds = Some k \<Longrightarrow>
   pos = Some k \<or> (\<exists>j < length osds. k = i + j \<and> osds ! j \<noteq> CRUSH_ITEM_NONE)"
proof (induction c aff seed i pos osds rule: affinity_scan.induct)
  case (2 c aff seed i pos x osds)
  have step: "affinity_scan c aff seed (Suc i) q osds = Some k \<Longrightarrow>
      q = Some k \<or> (\<exists>j < length (x # osds). k = i + j \<and> (x # osds) ! j \<noteq> CRUSH_ITEM_NONE)"
    if "affinity_scan c aff seed (Suc i) q osds = Some k \<Longrightarrow>
      q = Some k \<or> (\<exists>j < length osds. k = Suc i + j \<and> osds ! j \<noteq> CRUSH_ITEM_NONE)" for q
    using that by (auto 0 4 intro: exI [of _ "Suc _"])
  show ?case
  proof (cases "x = CRUSH_ITEM_NONE")
    case True
    then show ?thesis using 2(1) 2(3) step [of pos] by simp
  next
    case False
    then show ?thesis using 2(2) [OF False refl] 2(3) step [of "if pos = None then Some i else pos"]
      by (auto simp: Let_def split: if_splits)
  qed
qed simp

lemma affinity_scan_some: "pos \<noteq> None \<Longrightarrow> affinity_scan c aff seed i pos osds \<noteq> None"
  by (induction c aff seed i pos osds rule: affinity_scan.induct) (auto simp: Let_def)

lemma affinity_scan_none:
  "affinity_scan c aff seed i None osds = None \<Longrightarrow> \<forall>x\<in>set osds. x = CRUSH_ITEM_NONE"
proof (induction osds arbitrary: i)
  case (Cons x osds)
  then show ?case by (auto simp: Let_def affinity_scan_some split: if_splits)
qed simp

lemma pick_primary_cases:
  "pick_primary osds = (case filter (\<lambda>x. x \<noteq> CRUSH_ITEM_NONE) osds of [] \<Rightarrow> -1 | x # _ \<Rightarrow> x)"
  by (induction osds rule: pick_primary.induct) auto

definition live_osds :: "osd_map \<Rightarrow> bool \<Rightarrow> int list \<Rightarrow> int list" where
  "live_osds m shift osds =
     (if shift then filter (is_up m) osds else map (\<lambda>osd. if is_up m osd then osd else CRUSH_ITEM_NONE) osds)"

lemma dead_iff: "(\<not> osd_exists m osd \<or> is_down m osd) \<longleftrightarrow> \<not> is_up m osd"
  by (auto simp: is_down_def is_up_def)

lemma raw_to_up_eq: "raw_to_up_osds m pool raw = map_option (\<lambda>shift. live_osds m shift raw) (can_shift_osds pool)"
  unfolding raw_to_up_osds_def dead_iff live_osds_def by (cases "can_shift_osds pool") (auto cong: if_cong)

lemma temp_loop_eq:
  assumes "can_shift_osds pool = Some shift"
  shows "temp_loop m pool osds = Some (live_osds m shift osds)"
proof (induction osds)
  case (Cons x osds)
  then show ?case unfolding temp_loop.simps dead_iff using assms by (simp add: live_osds_def)
qed (simp add: live_osds_def)

lemma none_not_up: "max_osd m \<le> CRUSH_ITEM_NONE \<Longrightarrow> \<not> is_up m CRUSH_ITEM_NONE"
  by (simp add: is_up_def osd_exists_def)

lemma live_osds_set:
  assumes "x \<in> set (live_osds m shift osds)"
  shows "is_up m x \<or> \<not> shift \<and> x = CRUSH_ITEM_NONE"
  using assms by (auto simp: live_osds_def split: if_splits)

lemma live_osds_all_none:
  assumes "\<not> is_up m CRUSH_ITEM_NONE"
  shows "(\<forall>x\<in>set (live_osds m shift osds). x = CRUSH_ITEM_NONE) \<longleftrightarrow> (\<forall>x\<in>set osds. \<not> is_up m x)"
  using assms by (induction osds) (auto simp: live_osds_def)

lemma live_osds_not_none:
  assumes "max_osd m \<le> CRUSH_ITEM_NONE"
  shows "filter (\<lambda>x. x \<noteq> CRUSH_ITEM_NONE) (live_osds m shift osds) = filter (is_up m) osds"
  using none_not_up [OF assms] by (induction osds) (auto simp: live_osds_def)

text \<open>A list of live OSDs and its primary.\<close>

definition primary_of :: "osd_map \<Rightarrow> bool \<Rightarrow> int list \<Rightarrow> int \<Rightarrow> bool" where
  "primary_of m shift osds p \<longleftrightarrow> (\<forall>x\<in>set osds. is_up m x \<or> \<not> shift \<and> x = CRUSH_ITEM_NONE) \<and>
     (if \<exists>x\<in>set osds. is_up m x then p \<in> set osds \<and> is_up m p else p = -1)"

lemma primary_of_live:
  assumes "\<not> is_up m CRUSH_ITEM_NONE"
    and "if \<forall>x\<in>set (live_osds m shift osds). x = CRUSH_ITEM_NONE then p = -1
      else p \<in> set (live_osds m shift osds) \<and> p \<noteq> CRUSH_ITEM_NONE"
  shows "primary_of m shift (live_osds m shift osds) p"
proof -
  let ?l = "live_osds m shift osds"
  have "is_up m x \<longleftrightarrow> x \<noteq> CRUSH_ITEM_NONE" if "x \<in> set ?l" for x using assms(1) live_osds_set [OF that] by auto
  then show ?thesis using assms(2) live_osds_set [of _ m shift osds] unfolding primary_of_def by (auto split: if_splits)
qed

lemma pick_primary_live:
  "if \<forall>x\<in>set osds. x = CRUSH_ITEM_NONE then pick_primary osds = -1
   else pick_primary osds \<in> set osds \<and> pick_primary osds \<noteq> CRUSH_ITEM_NONE"
  by (induction osds rule: pick_primary.induct) auto

lemma apply_primary_affinity_spec:
  assumes sh: "can_shift_osds pool = Some shift"
  shows "\<exists>osds' p. apply_primary_affinity c m seed pool osds (pick_primary osds) = Some (osds', p) \<and>
    mset osds' = mset osds \<and> (\<not> shift \<longrightarrow> osds' = osds) \<and>
    (if \<forall>x\<in>set osds. x = CRUSH_ITEM_NONE then p = -1 else p \<in> set osds \<and> p \<noteq> CRUSH_ITEM_NONE) \<and>
    (shift \<and> osds \<noteq> [] \<and> CRUSH_ITEM_NONE \<notin> set osds \<longrightarrow> p = hd osds')"
proof -
  let ?spec = "\<lambda>osds' p. mset osds' = mset osds \<and> (\<not> shift \<longrightarrow> osds' = osds) \<and>
    (if \<forall>x\<in>set osds. x = CRUSH_ITEM_NONE then p = -1 else p \<in> set osds \<and> p \<noteq> CRUSH_ITEM_NONE) \<and>
    (shift \<and> osds \<noteq> [] \<and> CRUSH_ITEM_NONE \<notin> set osds \<longrightarrow> p = hd osds')"
  have same: "?spec osds (pick_primary osds)"
  proof -
    note pick_primary_live [of osds]
    moreover have "osds \<noteq> [] \<and> CRUSH_ITEM_NONE \<notin> set osds \<longrightarrow> pick_primary osds = hd osds"
      by (cases osds) auto
    ultimately show ?thesis by blast
  qed
  show ?thesis
  proof (cases "apply_primary_affinity c m seed pool osds (pick_primary osds) = Some (osds, pick_primary osds)")
    case True
    then show ?thesis using same by blast
  next
    case False
    then obtain aff pos where scan: "osd_primary_affinity m = Some aff" "affinity_scan c aff seed 0 None osds = Some pos"
      and any: "list_ex (\<lambda>osd. osd \<noteq> CRUSH_ITEM_NONE \<and> aff ! nat osd \<noteq> CEPH_OSD_MAX_PRIMARY_AFFINITY) osds"
      unfolding apply_primary_affinity_def by (auto split: option.splits if_splits)
    have pos: "pos < length osds" "osds ! pos \<noteq> CRUSH_ITEM_NONE"
      using affinity_scan_pos [OF scan(2)] by auto
    then have mem: "osds ! pos \<in> set osds" by simp
    let ?res = "if shift \<and> pos > 0 then (shift_right pos osds)[0 := osds ! pos] else osds"
    have "apply_primary_affinity c m seed pool osds (pick_primary osds) = Some (?res, osds ! pos)"
      unfolding apply_primary_affinity_def using scan any sh by (simp add: Let_def)
    moreover have "?spec ?res (osds ! pos)"
      using pos mem mset_move_to_front [OF pos(1)] move_to_front [OF pos(1)]
      by (cases osds) (auto simp: hd_conv_nth)
    ultimately show ?thesis by blast
  qed
qed

subsection \<open>No OSD twice\<close>

text \<open>How often an OSD stands in a list; holes do not count.\<close>

definition osd_times :: "int \<Rightarrow> int list \<Rightarrow> nat" where
  "osd_times x osds = (if x = CRUSH_ITEM_NONE then 0 else count (mset osds) x)"

lemma osd_times_mset: "mset a = mset b \<Longrightarrow> osd_times x a = osd_times x b"
  by (simp add: osd_times_def)

lemma osd_times_Nil [simp]: "osd_times x [] = 0"
  by (simp add: osd_times_def)

lemma osd_times_filter: "osd_times x (filter P osds) \<le> osd_times x osds"
  by (simp add: osd_times_def count_filter_mset)

lemma osd_times_map: "osd_times x (map (\<lambda>osd. if P osd then osd else CRUSH_ITEM_NONE) osds) \<le> osd_times x osds"
  unfolding osd_times_def by (induction osds) auto

lemma osd_times_live: "osd_times x (live_osds m shift osds) \<le> osd_times x osds"
  by (simp add: live_osds_def osd_times_filter osd_times_map)

lemma upmap_scan_result:
  "upmap_scan m r i pos osds = (False, q) \<Longrightarrow>
   snd r \<notin> set osds \<and> (q = pos \<or> (\<exists>j < length osds. q = Some (i + j) \<and> osds ! j = fst r \<and> \<not> marked_out m (snd r)))"
proof (induction m r i pos osds rule: upmap_scan.induct)
  case (2 m r i pos x osds)
  have ne: "x \<noteq> snd r" and rest: "upmap_scan m r (Suc i)
      (if x = fst r \<and> pos = None \<and> \<not> marked_out m (snd r) then Some i else pos) osds = (False, q)"
    using 2(2) by (auto split: if_splits)
  from 2(1) [OF ne rest] ne show ?case
    by (auto split: if_splits intro: exI [of _ 0] exI [of _ "Suc _"])
qed simp

lemma upmap_item_cases:
  obtains "upmap_item m raw r = raw"
  | pos where "upmap_item m raw r = raw[pos := snd r]" "pos < length raw" "raw ! pos = fst r" "snd r \<notin> set raw"
    "\<not> marked_out m (snd r)"
proof (cases "upmap_scan m r 0 None raw")
  case (Pair found q)
  show ?thesis
  proof (cases "found \<or> q = None")
    case True
    then have "upmap_item m raw r = raw" using Pair by (auto simp: upmap_item_def split: option.splits bool.splits)
    then show ?thesis by (rule that)
  next
    case False
    then obtain pos where q: "q = Some pos" "\<not> found" by auto
    then have "upmap_item m raw r = raw[pos := snd r]" using Pair by (simp add: upmap_item_def)
    moreover have "snd r \<notin> set raw" "pos < length raw \<and> raw ! pos = fst r \<and> \<not> marked_out m (snd r)"
      using upmap_scan_result [of m r 0 None raw q] Pair q by auto
    ultimately show ?thesis by (intro that(2)) auto
  qed
qed

text \<open>An item replaces the source by a target that is not in the list yet.\<close>

lemma osd_times_item: "osd_times x (upmap_item m raw r) \<le> max 1 (osd_times x raw)"
proof (cases rule: upmap_item_cases [of m raw r])
  case (2 pos)
  have "count (mset raw) (snd r) = 0" using 2(4) by (simp add: count_eq_zero_iff)
  moreover have "raw ! pos \<noteq> snd r" using 2(4) nth_mem [OF 2(2)] by metis
  ultimately show ?thesis unfolding osd_times_def 2(1) mset_update [OF 2(2)]
    by (cases "x = snd r") (auto simp del: count_mset_0_iff)
qed simp

lemma osd_times_items: "osd_times x (foldl (upmap_item m) raw items) \<le> max 1 (osd_times x raw)"
proof (induction items arbitrary: raw)
  case (Cons r items)
  from Cons [of "upmap_item m raw r"] osd_times_item [of x m raw r] show ?case by simp
qed simp

lemma osd_times_upmap:
  "osd_times x (apply_upmap m pool pg raw) \<le>
   max 1 (max (osd_times x raw) (osd_times x (case pg_upmap m (raw_pg_to_pg pool pg) of None \<Rightarrow> [] | Some osds \<Rightarrow> osds)))"
  using osd_times_items [of x m] by (fastforce simp: apply_upmap_def Let_def le_max_iff_disj split: option.splits)

subsection \<open>The pipeline\<close>

text \<open>A placement group that is asked for: its pool exists and is of a known type, and its number is in
  range. OSD numbers stay below \<open>CRUSH_ITEM_NONE\<close>.\<close>

definition mapped :: "osd_map \<Rightarrow> pg_t \<Rightarrow> bool \<Rightarrow> pg_pool_t \<Rightarrow> bool \<Rightarrow> bool" where
  "mapped m pg raw_to_pg pool shift \<longleftrightarrow> pools m (pg_pool pg) = Some pool \<and> can_shift_osds pool = Some shift \<and>
     (raw_to_pg \<or> pg_ps pg < pg_num pool) \<and> max_osd m \<le> CRUSH_ITEM_NONE"

text \<open>What CRUSH gives for the placement group: the result of the rule of the pool, if there is one.\<close>

definition crush_osds :: "crush_env \<Rightarrow> osd_map \<Rightarrow> pg_pool_t \<Rightarrow> pg_t \<Rightarrow> int list" where
  "crush_osds c m pool pg =
     (let ruleno = find_rule c (crush_rule pool) (pool_type pool) (pool_size pool)
      in if ruleno \<ge> 0 then do_rule c ruleno (raw_pg_to_pps c pool pg) (pool_size pool) (osd_weight m) (pg_pool pg) else [])"

lemma raw_osds_eq:
  "pg_to_raw_osds_pps c m pool pg =
   map_option (\<lambda>osds. (osds, raw_pg_to_pps c pool pg)) (remove_nonexistent_osds m pool (crush_osds c m pool pg))"
  by (simp add: pg_to_raw_osds_pps_def crush_osds_def Let_def)

lemma osd_times_raw:
  assumes "can_shift_osds pool = Some shift" and "pg_to_raw_osds_pps c m pool pg = Some (raw0, pps)"
  shows "osd_times x raw0 \<le> osd_times x (crush_osds c m pool pg)"
  using assms by (auto simp: raw_osds_eq remove_nonexistent_eq osd_times_filter osd_times_map)

lemma up_acting_steps:
  assumes "mapped m pg raw_to_pg pool shift"
  obtains raw0 u up' upp where "pg_to_raw_osds_pps c m pool pg = Some (raw0, raw_pg_to_pps c pool pg)"
    and "u = live_osds m shift (apply_upmap m pool pg raw0)"
    and "apply_primary_affinity c m (raw_pg_to_pps c pool pg) pool u (pick_primary u) = Some (up', upp)"
    and "mset up' = mset u" and "\<not> shift \<longrightarrow> up' = u"
    and "if \<forall>x\<in>set u. x = CRUSH_ITEM_NONE then upp = -1 else upp \<in> set u \<and> upp \<noteq> CRUSH_ITEM_NONE"
    and "shift \<and> u \<noteq> [] \<and> CRUSH_ITEM_NONE \<notin> set u \<longrightarrow> upp = hd up'"
proof -
  have sh: "can_shift_osds pool = Some shift" using assms by (simp add: mapped_def)
  obtain raw0 where raw: "pg_to_raw_osds_pps c m pool pg = Some (raw0, raw_pg_to_pps c pool pg)"
    using sh by (auto simp: raw_osds_eq remove_nonexistent_eq)
  let ?u = "live_osds m shift (apply_upmap m pool pg raw0)"
  from apply_primary_affinity_spec [OF sh, of c m "raw_pg_to_pps c pool pg" ?u] that [OF raw refl] show ?thesis by blast
qed

definition temp_osds :: "osd_map \<Rightarrow> pg_pool_t \<Rightarrow> bool \<Rightarrow> pg_t \<Rightarrow> int list" where
  "temp_osds m pool shift pg =
     (case pg_temp m (raw_pg_to_pg pool pg) of None \<Rightarrow> [] | Some osds \<Rightarrow> live_osds m shift osds)"

lemma get_temp_eq:
  assumes "can_shift_osds pool = Some shift"
  shows "get_temp_osds m pool pg = Some (temp_osds m pool shift pg,
    case primary_temp m (raw_pg_to_pg pool pg) of Some p \<Rightarrow> p | None \<Rightarrow> pick_primary (temp_osds m pool shift pg))"
  using temp_loop_eq [OF assms, of m] by (auto simp: get_temp_osds_def temp_osds_def split: option.splits)

lemma up_acting_eq:
  assumes "mapped m pg raw_to_pg pool shift"
    and "pg_to_raw_osds_pps c m pool pg = Some (raw0, pps)"
    and "apply_primary_affinity c m pps pool (live_osds m shift (apply_upmap m pool pg raw0))
      (pick_primary (live_osds m shift (apply_upmap m pool pg raw0))) = Some (up', upp)"
  shows "pg_to_up_acting_osds c m pg raw_to_pg = Some (
    let t = temp_osds m pool shift pg;
        tp = (case primary_temp m (raw_pg_to_pg pool pg) of Some p \<Rightarrow> p | None \<Rightarrow> pick_primary t) in
    if t = [] then \<lparr>up = up', up_primary = upp, acting = up', acting_primary = (if tp = -1 then upp else tp)\<rparr>
    else \<lparr>up = up', up_primary = upp, acting = t, acting_primary = tp\<rparr>)"
  using assms get_temp_eq [of pool shift m pg]
  by (auto simp: pg_to_up_acting_osds_def mapped_def raw_to_up_eq Let_def)

subsection \<open>The properties\<close>

text \<open>A map of three OSDs, the first of them down, and a placement function that always gives all of
  them.\<close>

definition demo_crush :: crush_env where
  "demo_crush = \<lparr>find_rule = (\<lambda>_ _ _. 0), do_rule = (\<lambda>_ _ _ _ _. [0, 1, 2]), crush_hash32_2 = (\<lambda>s _. s)\<rparr>"

definition demo_pool :: pg_pool_t where
  "demo_pool = \<lparr>pool_type = 1, pool_size = 3, crush_rule = 0, pg_num = 6, pgp_num = 6, pg_num_mask = 7, pgp_num_mask = 7,
     hashpspool = True\<rparr>"

definition demo_map :: osd_map where
  "demo_map = \<lparr>max_osd = 3, osd_state = [1, 3, 3], osd_weight = [1, 1, 1], osd_primary_affinity = None,
     pools = [1 \<mapsto> demo_pool], pg_upmap = Map.empty, pg_upmap_items = Map.empty, pg_temp = Map.empty, primary_temp = Map.empty\<rparr>"

definition demo_pg :: pg_t where
  "demo_pg = \<lparr>pg_pool = 1, pg_ps = 13\<rparr>"

lemma demo_mapped: "mapped demo_map demo_pg True demo_pool True"
  by (simp add: mapped_def demo_map_def demo_pg_def demo_pool_def can_shift_osds_def TYPE_REPLICATED_def CRUSH_ITEM_NONE_def)

lemma demo_up: "is_up demo_map osd \<longleftrightarrow> osd \<in> {1, 2}" "osd_exists demo_map osd \<longleftrightarrow> osd \<in> {0, 1, 2}"
proof -
  have "nat osd = 0 \<or> nat osd = 1 \<or> nat osd = 2" if "osd \<ge> 0" "osd < 3" using that by auto
  then show "is_up demo_map osd \<longleftrightarrow> osd \<in> {1, 2}" "osd_exists demo_map osd \<longleftrightarrow> osd \<in> {0, 1, 2}"
    by (auto simp: is_up_def osd_exists_def demo_map_def CEPH_OSD_EXISTS_def CEPH_OSD_UP_def)
qed

lemma demo_raw_pps: "pg_to_raw_osds_pps demo_crush demo_map demo_pool demo_pg = Some ([0, 1, 2], 5)"
proof -
  have "raw_pg_to_pps demo_crush demo_pool demo_pg = 5"
    by (simp add: raw_pg_to_pps_def demo_pool_def demo_pg_def demo_crush_def ceph_stable_mod_def)
  moreover have "remove_nonexistent_osds demo_map demo_pool [0, 1, 2] = Some [0, 1, 2]"
    by (simp add: remove_nonexistent_eq demo_up can_shift_osds_def demo_pool_def TYPE_REPLICATED_def)
  ultimately show ?thesis by (simp add: pg_to_raw_osds_pps_def Let_def demo_crush_def)
qed

lemma demo_fields [simp]:
  "pg_upmap demo_map = Map.empty" "pg_upmap_items demo_map = Map.empty" "pools demo_map (pg_pool demo_pg) = Some demo_pool"
  "pg_temp demo_map = Map.empty" "primary_temp demo_map = Map.empty"
  by (simp_all add: demo_map_def demo_pg_def)

lemma demo_no_upmap: "apply_upmap demo_map demo_pool demo_pg raw = raw"
  by (simp add: apply_upmap_def Let_def)

lemma demo_raw: "pg_to_raw_upmap demo_crush demo_map demo_pg = Some [0, 1, 2]"
  by (simp add: pg_to_raw_upmap_def demo_raw_pps demo_no_upmap)

text \<open>The same map with an upmap item for the placement group and a temporary mapping.\<close>

definition moved_map :: osd_map where
  "moved_map = demo_map\<lparr>pg_upmap_items := [\<lparr>pg_pool = 1, pg_ps = 5\<rparr> \<mapsto> [(1, 2)]],
     pg_temp := [\<lparr>pg_pool = 1, pg_ps = 5\<rparr> \<mapsto> [2, 0, 1]]\<rparr>"

lemma moved_mapped: "mapped moved_map demo_pg True demo_pool True"
  using demo_mapped by (simp add: mapped_def moved_map_def)

lemma moved_pg: "raw_pg_to_pg demo_pool demo_pg = \<lparr>pg_pool = 1, pg_ps = 5\<rparr>"
  by (simp add: raw_pg_to_pg_def demo_pool_def demo_pg_def ceph_stable_mod_def)

lemma moved_crush [simp]:
  "crush_osds demo_crush moved_map demo_pool demo_pg = [0, 1, 2]" "pg_upmap moved_map (raw_pg_to_pg demo_pool demo_pg) = None"
  "pg_temp moved_map (raw_pg_to_pg demo_pool demo_pg) = Some [2, 0, 1]"
  "primary_temp moved_map (raw_pg_to_pg demo_pool demo_pg) = None"
  by (simp_all add: crush_osds_def demo_crush_def moved_map_def moved_pg)

lemma moved_temp: "temp_osds moved_map demo_pool True demo_pg = [2, 1]"
proof -
  have "is_up moved_map osd = is_up demo_map osd" for osd by (simp add: moved_map_def is_up_def osd_exists_def)
  then show ?thesis by (simp add: temp_osds_def live_osds_def demo_up(1))
qed

text \<open>C31. The up set is the raw mapping, with the exceptions applied, without the OSDs that are down: in a
  replicated pool they are left out and the primary stands first, in an erasure-coded pool they leave a
  hole at their position. The up primary is a live OSD of the up set, and -1 when there is none.\<close>

theorem osdmap_up_set:
  assumes "mapped m pg raw_to_pg pool shift"
  shows "\<exists>raw ua. pg_to_raw_upmap c m pg = Some raw \<and> pg_to_up_acting_osds c m pg raw_to_pg = Some ua \<and>
    (if shift then mset (up ua) = mset (filter (is_up m) raw) \<and> (up ua \<noteq> [] \<longrightarrow> up_primary ua = hd (up ua))
     else up ua = map (\<lambda>osd. if is_up m osd then osd else CRUSH_ITEM_NONE) raw) \<and>
    (if \<exists>osd\<in>set raw. is_up m osd then up_primary ua \<in> set (up ua) \<and> is_up m (up_primary ua) else up_primary ua = -1)"
proof -
  obtain raw0 u up' upp where raw: "pg_to_raw_osds_pps c m pool pg = Some (raw0, raw_pg_to_pps c pool pg)"
    and u: "u = live_osds m shift (apply_upmap m pool pg raw0)"
    and aff: "apply_primary_affinity c m (raw_pg_to_pps c pool pg) pool u (pick_primary u) = Some (up', upp)"
    and spec: "mset up' = mset u" "\<not> shift \<longrightarrow> up' = u"
      "if \<forall>x\<in>set u. x = CRUSH_ITEM_NONE then upp = -1 else upp \<in> set u \<and> upp \<noteq> CRUSH_ITEM_NONE"
      "shift \<and> u \<noteq> [] \<and> CRUSH_ITEM_NONE \<notin> set u \<longrightarrow> upp = hd up'"
    by (rule up_acting_steps [OF assms, of c])
  let ?raw = "apply_upmap m pool pg raw0"
  have nn: "\<not> is_up m CRUSH_ITEM_NONE" using assms none_not_up by (simp add: mapped_def)
  have "pg_to_raw_upmap c m pg = Some ?raw" using assms raw by (simp add: pg_to_raw_upmap_def mapped_def)
  moreover obtain ua where ua: "pg_to_up_acting_osds c m pg raw_to_pg = Some ua" "up ua = up'" "up_primary ua = upp"
    using up_acting_eq [OF assms raw aff [unfolded u]] by (auto simp: Let_def)
  moreover have "if shift then mset up' = mset (filter (is_up m) ?raw) \<and> (up' \<noteq> [] \<longrightarrow> upp = hd up')
     else up' = map (\<lambda>osd. if is_up m osd then osd else CRUSH_ITEM_NONE) ?raw"
  proof (cases shift)
    case True
    then have "u = filter (is_up m) ?raw" by (simp add: u live_osds_def)
    moreover have "up' \<noteq> [] \<longleftrightarrow> u \<noteq> []" using spec(1) by (metis mset_zero_iff)
    ultimately show ?thesis using True spec(1,4) nn by auto
  qed (use spec(2) in \<open>simp add: u live_osds_def\<close>)
  moreover have "if \<exists>osd\<in>set ?raw. is_up m osd then upp \<in> set up' \<and> is_up m upp else upp = -1"
  proof -
    have eq: "set up' = set u" using spec(1) by (rule mset_eq_setD)
    have all: "(\<forall>x\<in>set u. x = CRUSH_ITEM_NONE) \<longleftrightarrow> \<not> (\<exists>osd\<in>set ?raw. is_up m osd)"
      unfolding u using live_osds_all_none [OF nn] by blast
    have "is_up m x" if "x \<in> set u" "x \<noteq> CRUSH_ITEM_NONE" for x
      using live_osds_set [of x m shift ?raw] that u by auto
    then show ?thesis using spec(3) all eq by auto
  qed
  ultimately show ?thesis by auto
qed

theorem osdmap_up_set_witness:
  "\<exists>ua. pg_to_up_acting_osds demo_crush demo_map demo_pg True = Some ua \<and> mset (up ua) = {#1, 2#} \<and> up_primary ua \<in> {1, 2}"
proof -
  obtain ua where ua: "pg_to_up_acting_osds demo_crush demo_map demo_pg True = Some ua"
    "mset (up ua) = mset (filter (is_up demo_map) [0, 1, 2])" "up_primary ua \<in> set (up ua)"
    using osdmap_up_set [OF demo_mapped, of demo_crush] by (auto simp: demo_raw demo_up(1) split: if_splits)
  then have "mset (up ua) = {#1, 2#}" by (simp add: demo_up(1))
  moreover from this have "set (up ua) = {1, 2}" by (metis set_mset_mset set_mset_add_mset_insert set_mset_empty)
  ultimately show ?thesis using ua by auto
qed

text \<open>C32. The acting set is the live part of the temporary mapping when that is not empty, and else the up
  set. Without a temporary primary the acting primary is a live OSD of the acting set, or -1 when there is
  none; a temporary primary is used as it is.\<close>

theorem osdmap_acting_set:
  assumes "mapped m pg raw_to_pg pool shift"
  shows "\<exists>ua. pg_to_up_acting_osds c m pg raw_to_pg = Some ua \<and>
    acting ua = (if temp_osds m pool shift pg = [] then up ua else temp_osds m pool shift pg) \<and>
    (\<forall>osd\<in>set (acting ua). is_up m osd \<or> \<not> shift \<and> osd = CRUSH_ITEM_NONE) \<and>
    (case primary_temp m (raw_pg_to_pg pool pg) of
       None \<Rightarrow> if \<exists>osd\<in>set (acting ua). is_up m osd
               then acting_primary ua \<in> set (acting ua) \<and> is_up m (acting_primary ua) else acting_primary ua = -1
     | Some p \<Rightarrow> p \<noteq> -1 \<longrightarrow> acting_primary ua = p)"
proof -
  obtain raw0 u up' upp where raw: "pg_to_raw_osds_pps c m pool pg = Some (raw0, raw_pg_to_pps c pool pg)"
    and u: "u = live_osds m shift (apply_upmap m pool pg raw0)"
    and aff: "apply_primary_affinity c m (raw_pg_to_pps c pool pg) pool u (pick_primary u) = Some (up', upp)"
    and spec: "mset up' = mset u"
      "if \<forall>x\<in>set u. x = CRUSH_ITEM_NONE then upp = -1 else upp \<in> set u \<and> upp \<noteq> CRUSH_ITEM_NONE"
    by (rule up_acting_steps [OF assms, of c])
  let ?t = "temp_osds m pool shift pg"
  have nn: "\<not> is_up m CRUSH_ITEM_NONE" using assms none_not_up by (simp add: mapped_def)
  have up: "primary_of m shift up' upp"
    using primary_of_live [OF nn spec(2) [unfolded u]] mset_eq_setD [OF spec(1)] unfolding u primary_of_def by simp
  have t: "primary_of m shift ?t (pick_primary ?t)"
    using primary_of_live [OF nn pick_primary_live]
    by (cases "pg_temp m (raw_pg_to_pg pool pg)") (simp_all add: temp_osds_def primary_of_def)
  let ?tp = "case primary_temp m (raw_pg_to_pg pool pg) of Some p \<Rightarrow> p | None \<Rightarrow> pick_primary ?t"
  have "pg_to_up_acting_osds c m pg raw_to_pg = Some \<lparr>up = up', up_primary = upp, acting = (if ?t = [] then up' else ?t),
      acting_primary = (if ?t = [] \<and> ?tp = -1 then upp else ?tp)\<rparr>"
    unfolding up_acting_eq [OF assms raw aff [unfolded u]] Let_def by simp
  moreover have "pick_primary ?t = -1" if "?t = []" using that by simp
  ultimately show ?thesis using up t unfolding primary_of_def
    by (cases "?t = []"; cases "primary_temp m (raw_pg_to_pg pool pg)") simp_all
qed

theorem osdmap_acting_set_witness:
  "\<exists>ua. pg_to_up_acting_osds demo_crush moved_map demo_pg True = Some ua \<and> acting ua = [2, 1] \<and> acting_primary ua \<in> {1, 2}"
proof -
  have "is_up moved_map 2" by (simp add: moved_map_def is_up_def osd_exists_def demo_map_def CEPH_OSD_EXISTS_def CEPH_OSD_UP_def)
  then show ?thesis using osdmap_acting_set [OF moved_mapped, of demo_crush] by (auto simp: moved_temp)
qed

text \<open>C33. The mapping adds no second copy of an OSD: an OSD is in the up set at most as often as CRUSH or
  the explicit mapping of the placement group names it, or once, whatever the upmap items are, and in the
  acting set at most as often as in the up set or the temporary mapping. So where CRUSH and the two
  mappings name no OSD twice, neither set does; what CRUSH returns is not restricted.\<close>

theorem osdmap_no_osd_added_twice:
  assumes "mapped m pg raw_to_pg pool shift"
  shows "\<exists>ua. pg_to_up_acting_osds c m pg raw_to_pg = Some ua \<and>
    osd_times x (up ua) \<le> max 1 (max (osd_times x (crush_osds c m pool pg))
      (osd_times x (case pg_upmap m (raw_pg_to_pg pool pg) of None \<Rightarrow> [] | Some osds \<Rightarrow> osds))) \<and>
    osd_times x (acting ua) \<le> max (osd_times x (up ua))
      (osd_times x (case pg_temp m (raw_pg_to_pg pool pg) of None \<Rightarrow> [] | Some osds \<Rightarrow> osds))"
proof -
  obtain raw0 u up' upp where raw: "pg_to_raw_osds_pps c m pool pg = Some (raw0, raw_pg_to_pps c pool pg)"
    and u: "u = live_osds m shift (apply_upmap m pool pg raw0)"
    and aff: "apply_primary_affinity c m (raw_pg_to_pps c pool pg) pool u (pick_primary u) = Some (up', upp)"
    and spec: "mset up' = mset u"
    by (rule up_acting_steps [OF assms, of c])
  let ?named = "\<lambda>e. case e of None \<Rightarrow> [] | Some osds \<Rightarrow> osds"
  have "osd_times x up' \<le> osd_times x (apply_upmap m pool pg raw0)"
    using osd_times_mset [OF spec] osd_times_live [of x m shift "apply_upmap m pool pg raw0"] u by simp
  moreover note osd_times_upmap [of x m pool pg raw0]
  moreover have "osd_times x raw0 \<le> osd_times x (crush_osds c m pool pg)"
    using osd_times_raw [OF _ raw] assms by (simp add: mapped_def)
  ultimately have up: "osd_times x up' \<le> max 1 (max (osd_times x (crush_osds c m pool pg))
      (osd_times x (?named (pg_upmap m (raw_pg_to_pg pool pg)))))" by linarith
  have temp: "osd_times x (temp_osds m pool shift pg) \<le> osd_times x (?named (pg_temp m (raw_pg_to_pg pool pg)))"
    by (cases "pg_temp m (raw_pg_to_pg pool pg)") (simp_all add: temp_osds_def osd_times_live)
  show ?thesis
    unfolding up_acting_eq [OF assms raw aff [unfolded u]] Let_def using up temp by (auto simp: le_max_iff_disj)
qed

text \<open>The item \<open>1 \<rightarrow> 2\<close> of the map below would give a second copy of OSD 2.\<close>

theorem osdmap_no_osd_added_twice_witness:
  "\<exists>ua. pg_to_up_acting_osds demo_crush moved_map demo_pg True = Some ua \<and> osd_times 2 (up ua) \<le> 1 \<and> osd_times 2 (acting ua) \<le> 1"
  using osdmap_no_osd_added_twice [OF moved_mapped, of demo_crush 2] by (auto simp: moved_crush osd_times_def)

text \<open>C34. Placement group numbers are in range, and raising \<open>pg_num\<close> splits: an object stays in its placement
  group or moves to one of the new ones, never to another old one.\<close>

theorem pg_split_stable:
  assumes "0 < pg_num p" and "pg_num p \<le> pg_num p'"
  shows "pg_ps (raw_pg_to_pg (calc_pg_masks p) pg) < pg_num p \<and>
    (raw_pg_to_pg (calc_pg_masks p') pg = raw_pg_to_pg (calc_pg_masks p) pg \<or>
     pg_ps (raw_pg_to_pg (calc_pg_masks p') pg) \<in> {pg_num p ..< pg_num p'})"
proof -
  have eq: "raw_pg_to_pg (calc_pg_masks q) pg = pg\<lparr>pg_ps := ceph_stable_mod (pg_ps pg) (pg_num q) (pg_mask (pg_num q))\<rparr>" for q
    by (simp add: raw_pg_to_pg_def calc_pg_masks_def pg_mask_def)
  show ?thesis
    unfolding eq using stable_mod_less [OF assms(1)] stable_mod_less [of "pg_num p'"] stable_mod_grow [OF assms] assms
    by (metis atLeastLessThan_iff less_le_trans linorder_not_le pg_t.select_convs(2) pg_t.surjective pg_t.update_convs(2))
qed

theorem pg_split_stable_witness:
  "pg_ps (raw_pg_to_pg (calc_pg_masks demo_pool) demo_pg) < 6 \<and>
   (raw_pg_to_pg (calc_pg_masks (demo_pool\<lparr>pg_num := 16\<rparr>)) demo_pg = raw_pg_to_pg (calc_pg_masks demo_pool) demo_pg \<or>
    pg_ps (raw_pg_to_pg (calc_pg_masks (demo_pool\<lparr>pg_num := 16\<rparr>)) demo_pg) \<in> {6..<16})"
  using pg_split_stable [of demo_pool "demo_pool\<lparr>pg_num := 16\<rparr>" demo_pg] by (simp add: demo_pool_def)

text \<open>C35. \<open>pg_to_raw_up\<close> picks the primary from the raw list, before the OSDs that are down are dropped,
  where the pipeline above picks it from the up set. So whenever the first OSD of the raw list is down, and
  no OSD has a primary affinity of its own, the primary it returns is that OSD, which is down and not in the up set it
  returns, although the up set of the pipeline for the same placement group has a primary that is up as soon as
  one OSD of the raw list is.\<close>

theorem osdmap_raw_up_primary_down:
  assumes "mapped m pg raw_to_pg pool shift" and "osd_primary_affinity m = None"
    and "pg_to_raw_upmap c m pg = Some (osd # raw)" and "osd \<in> {0..<CRUSH_ITEM_NONE}" and "\<not> is_up m osd"
  shows "\<exists>u ua. pg_to_raw_up c m pg = Some (u, osd) \<and> osd \<notin> set u \<and>
    pg_to_up_acting_osds c m pg raw_to_pg = Some ua \<and> up ua = u \<and> up_primary ua = pick_primary u \<and> up_primary ua \<noteq> osd"
proof -
  obtain raw0 u up' upp where raw: "pg_to_raw_osds_pps c m pool pg = Some (raw0, raw_pg_to_pps c pool pg)"
    and u: "u = live_osds m shift (apply_upmap m pool pg raw0)"
    and aff: "apply_primary_affinity c m (raw_pg_to_pps c pool pg) pool u (pick_primary u) = Some (up', upp)"
    by (rule up_acting_steps [OF assms(1), of c])
  have up: "apply_upmap m pool pg raw0 = osd # raw"
    using assms(1,3) raw by (simp add: pg_to_raw_upmap_def mapped_def)
  have same: "up' = u" "upp = pick_primary u" using aff assms(2) by (auto simp: apply_primary_affinity_def)
  have out: "osd \<notin> set u" using live_osds_set [of osd m shift] assms(4,5) u by auto
  have "pg_to_raw_up c m pg = Some (u, osd)"
    using assms raw u up by (simp add: pg_to_raw_up_def mapped_def raw_to_up_eq apply_primary_affinity_def)
  moreover have "pick_primary u \<noteq> osd" using pick_primary_live [of u] out assms(4) by (auto split: if_splits)
  ultimately show ?thesis
    using up_acting_eq [OF assms(1) raw aff [unfolded u]] out same by (auto simp: Let_def)
qed

theorem osdmap_raw_up_primary_down_witness:
  "\<exists>u ua. pg_to_raw_up demo_crush demo_map demo_pg = Some (u, 0) \<and> 0 \<notin> set u \<and> \<not> is_up demo_map 0 \<and>
    pg_to_up_acting_osds demo_crush demo_map demo_pg True = Some ua \<and> up ua = u \<and> up_primary ua \<noteq> 0"
proof -
  have "osd_primary_affinity demo_map = None" "(0::int) \<in> {0..<CRUSH_ITEM_NONE}"
    by (simp_all add: demo_map_def CRUSH_ITEM_NONE_def)
  moreover have "\<not> is_up demo_map 0" by (simp add: demo_up(1))
  ultimately show ?thesis using osdmap_raw_up_primary_down [OF demo_mapped _ demo_raw] by blast
qed

end
