(* ===== verification/Avl_Allocator.thy ===== *)
theory Avl_Allocator
  imports Interval_Set Intarith "HOL-Library.Product_Lexorder"
begin

text \<open>
  The AVL block allocator of BlueStore (\<open>src/os/bluestore/AvlAllocator.cc\<close>). The free ranges of a device
  are kept in two trees that share their nodes: \<open>range_tree\<close>, ordered by offset, and \<open>range_size_tree\<close>,
  ordered by size. A tree is the list of its elements in order, an iterator is a position in it; both
  trees are kept and updated one after the other as in the code. \<open>None\<close> is a failed assertion.
\<close>

subsection \<open>State\<close>

record range_seg_t =
  rs_start :: nat
  rs_end :: nat

definition rs_length :: "range_seg_t \<Rightarrow> nat" where
  "rs_length r = sub64 (rs_end r) (rs_start r)"

text \<open>The order of \<open>range_size_tree\<close>: by size, then by offset (\<open>shorter_t\<close>).\<close>

definition seg_key :: "range_seg_t \<Rightarrow> nat \<times> nat" where
  "seg_key r = (rs_length r, rs_start r)"

record avl_allocator =
  range_tree :: "range_seg_t list"
  range_size_tree :: "range_seg_t list"
  num_total :: nat
  block_size :: nat
  num_free :: nat
  lbas :: "nat list"
  range_size_alloc_threshold :: nat
  range_size_alloc_free_pct :: int
  max_search_count :: nat
  max_search_bytes :: nat
  range_count_cap :: nat

definition NO_BLOCK :: nat where
  "NO_BLOCK = two64 - 1"

text \<open>The constructor; the four tunables are the configuration's. \<open>range_count_cap\<close> is 0 in this class.\<close>

definition avl_new :: "nat \<Rightarrow> nat \<Rightarrow> nat \<Rightarrow> int \<Rightarrow> nat \<Rightarrow> nat \<Rightarrow> avl_allocator" where
  "avl_new device_size bs bf_threshold bf_free_pct ff_count ff_bytes =
     \<lparr>range_tree = [], range_size_tree = [], num_total = device_size, block_size = bs, num_free = 0,
      lbas = replicate 64 0, range_size_alloc_threshold = bf_threshold, range_size_alloc_free_pct = bf_free_pct,
      max_search_count = ff_count, max_search_bytes = ff_bytes, range_count_cap = 0\<rparr>"

subsection \<open>The trees\<close>

definition range_size_tree_rm :: "range_seg_t \<Rightarrow> avl_allocator \<Rightarrow> avl_allocator option" where
  "range_size_tree_rm r s = do {
     ensure (num_free s \<ge> rs_length r);
     Some (s\<lparr>num_free := sub64 (num_free s) (rs_length r), range_size_tree := remove1 r (range_size_tree s)\<rparr>) }"

definition lowest_size_available :: "avl_allocator \<Rightarrow> nat" where
  "lowest_size_available s = (case range_size_tree s of [] \<Rightarrow> 0 | rs # _ \<Rightarrow> rs_length rs)"

text \<open>To be overridden by a class with a cap on the ranges.\<close>

definition spillover_range :: "nat \<Rightarrow> nat \<Rightarrow> avl_allocator \<Rightarrow> avl_allocator option" where
  "spillover_range start stop s = do { ensure False; Some s }"

definition size_tree_insert :: "range_seg_t \<Rightarrow> avl_allocator \<Rightarrow> avl_allocator" where
  "size_tree_insert r s =
     s\<lparr>range_size_tree := insort_key seg_key r (range_size_tree s), num_free := add64 (num_free s) (rs_length r)\<rparr>"

definition insert_before :: "nat \<Rightarrow> range_seg_t \<Rightarrow> avl_allocator \<Rightarrow> avl_allocator" where
  "insert_before pos r s = s\<lparr>range_tree := take pos (range_tree s) @ r # drop pos (range_tree s)\<rparr>"

definition try_insert_range ::
  "nat \<Rightarrow> nat \<Rightarrow> nat option \<Rightarrow> avl_allocator \<Rightarrow> (bool \<times> avl_allocator) option" where
  "try_insert_range start stop insert_pos s =
     (let fits = range_count_cap s = 0 \<or> length (range_size_tree s) < range_count_cap s;
          remove_lowest = \<not> fits \<and> sub64 stop start > lowest_size_available s
      in if \<not> fits \<and> \<not> remove_lowest
         then do { s \<leftarrow> spillover_range start stop s; Some (False, s) }
         else do {
           let new_rs = \<lparr>rs_start = start, rs_end = stop\<rparr>;
           let s = (case insert_pos of None \<Rightarrow> s | Some pos \<Rightarrow> size_tree_insert new_rs (insert_before pos new_rs s));
           if remove_lowest then do {
             let r = hd (range_size_tree s);
             s \<leftarrow> range_size_tree_rm r s;
             s \<leftarrow> spillover_range (rs_start r) (rs_end r) s;
             Some (True, s\<lparr>range_tree := remove1 r (range_tree s)\<rparr>) }
           else Some (True, s) })"

definition range_size_tree_try_insert :: "range_seg_t \<Rightarrow> avl_allocator \<Rightarrow> avl_allocator option" where
  "range_size_tree_try_insert r s = do {
     (res, s) \<leftarrow> try_insert_range (rs_start r) (rs_end r) None s;
     Some (if res then size_tree_insert r s else s\<lparr>range_tree := remove1 r (range_tree s)\<rparr>) }"

definition add_to_tree :: "nat \<Rightarrow> nat \<Rightarrow> avl_allocator \<Rightarrow> avl_allocator option" where
  "add_to_tree start sz s = do {
     ensure (sz \<noteq> 0);
     let stop = add64 start sz;
     let rt = range_tree s;
     let after = length (takeWhile (\<lambda>r. \<not> stop \<le> rs_start r) rt);
     let merge_before = (after > 0 \<and> rs_end (rt ! (after - 1)) = start);
     let merge_after = (after < length rt \<and> rs_start (rt ! after) = stop);
     if merge_before \<and> merge_after then do {
       s \<leftarrow> range_size_tree_rm (rt ! (after - 1)) s;
       s \<leftarrow> range_size_tree_rm (rt ! after) s;
       let rs = (rt ! after)\<lparr>rs_start := rs_start (rt ! (after - 1))\<rparr>;
       let s = s\<lparr>range_tree := erase_at (after - 1) ((range_tree s)[after := rs])\<rparr>;
       range_size_tree_try_insert rs s }
     else if merge_before then do {
       s \<leftarrow> range_size_tree_rm (rt ! (after - 1)) s;
       let rs = (rt ! (after - 1))\<lparr>rs_end := stop\<rparr>;
       let s = s\<lparr>range_tree := (range_tree s)[after - 1 := rs]\<rparr>;
       range_size_tree_try_insert rs s }
     else if merge_after then do {
       s \<leftarrow> range_size_tree_rm (rt ! after) s;
       let rs = (rt ! after)\<lparr>rs_start := start\<rparr>;
       let s = s\<lparr>range_tree := (range_tree s)[after := rs]\<rparr>;
       range_size_tree_try_insert rs s }
     else map_option snd (try_insert_range start stop (Some after) s) }"

definition process_range_removal :: "nat \<Rightarrow> nat \<Rightarrow> nat \<Rightarrow> avl_allocator \<Rightarrow> avl_allocator option" where
  "process_range_removal start stop i s = do {
     let rs = range_tree s ! i;
     let left_over = (rs_start rs \<noteq> start);
     let right_over = (rs_end rs \<noteq> stop);
     s \<leftarrow> range_size_tree_rm rs s;
     if left_over \<and> right_over then do {
       let left = rs\<lparr>rs_end := start\<rparr>;
       let s = s\<lparr>range_tree := (range_tree s)[i := left]\<rparr>;
       (_, s) \<leftarrow> try_insert_range stop (rs_end rs) (Some (Suc i)) s;
       range_size_tree_try_insert left s }
     else if left_over then do {
       let left = rs\<lparr>rs_end := start\<rparr>;
       range_size_tree_try_insert left (s\<lparr>range_tree := (range_tree s)[i := left]\<rparr>) }
     else if right_over then do {
       let right = rs\<lparr>rs_start := stop\<rparr>;
       range_size_tree_try_insert right (s\<lparr>range_tree := (range_tree s)[i := right]\<rparr>) }
     else Some (s\<lparr>range_tree := erase_at i (range_tree s)\<rparr>) }"

text \<open>\<open>range_tree.find\<close>: the first range that ends after \<open>start\<close>, when it begins before \<open>stop\<close>.\<close>

definition find_range :: "nat \<Rightarrow> nat \<Rightarrow> range_seg_t list \<Rightarrow> nat option" where
  "find_range start stop rt =
     (let i = length (takeWhile (\<lambda>r. rs_end r \<le> start) rt)
      in if i < length rt \<and> \<not> stop \<le> rs_start (rt ! i) then Some i else None)"

definition remove_from_tree :: "nat \<Rightarrow> nat \<Rightarrow> avl_allocator \<Rightarrow> avl_allocator option" where
  "remove_from_tree start sz s = do {
     let stop = add64 start sz;
     ensure (sz \<noteq> 0);
     ensure (sz \<le> num_free s);
     i \<leftarrow> find_range start stop (range_tree s);
     ensure (rs_start (range_tree s ! i) \<le> start);
     ensure (rs_end (range_tree s ! i) \<ge> stop);
     process_range_removal start stop i s }"

text \<open>
  The loop over the ranges that overlap with what is to be removed. The iterator is kept as its distance
  from the end of the tree, which the changes at the current range leave alone for the next one. The
  calls of the callback (offset, length, found) are the list that is returned.
\<close>

fun try_remove_loop ::
  "nat \<Rightarrow> nat \<Rightarrow> nat \<Rightarrow> avl_allocator \<Rightarrow> ((nat \<times> nat \<times> bool) list \<times> nat \<times> avl_allocator) option" where
  "try_remove_loop 0 start stop s = Some ([], start, s)"
| "try_remove_loop (Suc k) start stop s = do {
     let i = length (range_tree s) - Suc k;
     let rs = range_tree s ! i;
     let (cbs, start) = (if start < rs_start rs then ([(start, sub64 (rs_start rs) start, False)], rs_start rs) else ([], start));
     let range_end = min (rs_end rs) stop;
     s \<leftarrow> process_range_removal start range_end i s;
     let cbs = cbs @ [(start, sub64 range_end start, True)];
     let start = range_end;
     if k > 0 \<and> rs_start (range_tree s ! (length (range_tree s) - k)) < stop \<and> start < stop
     then do { (cbs', start, s) \<leftarrow> try_remove_loop k start stop s; Some (cbs @ cbs', start, s) }
     else Some (cbs, start, s) }"

definition try_remove_from_tree ::
  "nat \<Rightarrow> nat \<Rightarrow> avl_allocator \<Rightarrow> ((nat \<times> nat \<times> bool) list \<times> avl_allocator) option" where
  "try_remove_from_tree start sz s = do {
     let stop = add64 start sz;
     ensure (sz \<noteq> 0);
     case find_range start stop (range_tree s) of
       None \<Rightarrow> Some ([(start, sz, False)], s)
     | Some i \<Rightarrow>
         if rs_start (range_tree s ! i) \<ge> stop then Some ([(start, sz, False)], s)
         else do {
           (cbs, start, s) \<leftarrow> try_remove_loop (length (range_tree s) - i) start stop s;
           Some (if start < stop then (cbs @ [(start, sub64 stop start, False)], s) else (cbs, s)) } }"

subsection \<open>Choosing a block\<close>

text \<open>The first-fit search returns a block or gives up (\<open>Inl\<close>), or runs to the end of its ranges; the
  cursor and the counters are threaded through. \<open>dist\<close> is the test on the distance searched.\<close>

fun pick_scan ::
  "avl_allocator \<Rightarrow> nat \<Rightarrow> nat \<Rightarrow> (nat \<Rightarrow> nat) \<Rightarrow> range_seg_t list \<Rightarrow> nat \<Rightarrow> nat \<Rightarrow> nat \<Rightarrow>
   (nat \<times> nat) + (nat \<times> nat \<times> nat)" where
  "pick_scan s sz align dist [] cursor count bytes = Inr (cursor, count, bytes)"
| "pick_scan s sz align dist (rs # rest) cursor count bytes =
     (let offset = p2roundup (rs_start rs) align;
          cursor = add64 offset sz
      in if add64 offset sz \<le> rs_end rs then Inl (offset, cursor)
         else
           let count = (if max_search_count s > 0 then Suc count mod two32 else count)
           in if max_search_count s > 0 \<and> count > max_search_count s then Inl (NO_BLOCK, cursor)
              else if max_search_bytes s > 0 \<and> dist (rs_start rs) > max_search_bytes s then Inl (NO_BLOCK, cursor)
              else pick_scan s sz align dist rest cursor count (dist (rs_start rs)))"

definition pick_block_after :: "nat \<Rightarrow> nat \<Rightarrow> nat \<Rightarrow> avl_allocator \<Rightarrow> nat \<times> nat" where
  "pick_block_after cursor sz align s =
     (let rt = range_tree s;
          i = length (takeWhile (\<lambda>r. rs_end r \<le> cursor) rt)
      in case pick_scan s sz align (\<lambda>x. sub64 x (rs_start (rt ! i))) (drop i rt) cursor 0 0 of
           Inl r \<Rightarrow> r
         | Inr (cursor, count, bytes) \<Rightarrow>
             if cursor = 0 then (NO_BLOCK, cursor)
             else (case pick_scan s sz align (\<lambda>x. add64 bytes x) (take i rt) cursor count bytes of
                     Inl r \<Rightarrow> r
                   | Inr (cursor, _) \<Rightarrow> (NO_BLOCK, cursor)))"

text \<open>Best fit: the smallest range that can hold an aligned block.\<close>

definition pick_block_fits :: "nat \<Rightarrow> nat \<Rightarrow> avl_allocator \<Rightarrow> nat" where
  "pick_block_fits sz align s =
     (case find (\<lambda>rs. add64 (p2roundup (rs_start rs) align) sz \<le> rs_end rs)
             (dropWhile (\<lambda>r. rs_length r < sz) (range_size_tree s)) of
        Some rs \<Rightarrow> p2roundup (rs_start rs) align
      | None \<Rightarrow> NO_BLOCK)"

text \<open>Best fit with smaller and smaller sizes, for when the ranges are misaligned.\<close>

function fits_loop :: "nat \<Rightarrow> nat \<Rightarrow> avl_allocator \<Rightarrow> nat \<times> nat" where
  "fits_loop sz unit s =
     (let start = pick_block_fits sz unit s
      in if start \<noteq> NO_BLOCK then (start, sz)
         else
           let sz' = p2align (sz div 2) unit
           in if sz' \<ge> unit \<and> sz' > 0 then fits_loop sz' unit s else (NO_BLOCK, sz'))"
  by pat_completeness auto

termination
proof (relation "measure (\<lambda>(sz, unit, s). sz)", goal_cases)
  case (2 sz unit s start sz')
  have "sz' \<le> sz div 2" using 2 p2align_le [of "sz div 2" unit] by simp
  then have "sz' < sz" using 2 by linarith
  then show ?case by simp
qed simp

declare fits_loop.simps [simp del]

subsection \<open>Allocation\<close>

text \<open>One block: \<open>None\<close> in the result is \<open>-ENOSPC\<close>.\<close>

definition first_fit :: "bool \<Rightarrow> nat \<Rightarrow> nat \<Rightarrow> nat \<Rightarrow> avl_allocator \<Rightarrow> (nat \<times> avl_allocator) option" where
  "first_fit force_range_size_alloc max_size sz unit s =
     (let free_pct = int (mul64 (num_free s) 100 div num_total s)
      in if force_range_size_alloc \<or> max_size < range_size_alloc_threshold s \<or> free_pct < range_size_alloc_free_pct s
         then Some (NO_BLOCK, s)
         else do {
           let align = sz AND neg64 sz;
           ensure (align \<noteq> 0);
           let ix = cbits align - 1;
           let (start, cursor) = pick_block_after (lbas s ! ix) sz unit s;
           Some (start, s\<lparr>lbas := (lbas s)[ix := cursor]\<rparr>) })"

definition largest_size :: "avl_allocator \<Rightarrow> nat" where
  "largest_size s = (if range_size_tree s = [] then 0 else rs_length (last (range_size_tree s)))"

definition take_block ::
  "nat \<Rightarrow> nat \<Rightarrow> nat \<Rightarrow> avl_allocator \<Rightarrow> ((nat \<times> nat) option \<times> avl_allocator) option" where
  "take_block start sz unit s = do {
     let (start, sz) = (if start = NO_BLOCK then fits_loop sz unit s else (start, sz));
     if start = NO_BLOCK then Some (None, s)
     else do { s \<leftarrow> remove_from_tree start sz s; Some (Some (start, sz), s) } }"

definition allocate_block :: "nat \<Rightarrow> nat \<Rightarrow> avl_allocator \<Rightarrow> ((nat \<times> nat) option \<times> avl_allocator) option" where
  "allocate_block sz unit s =
     (let max_size = largest_size s
      in if max_size < sz \<and> max_size < unit then Some (None, s)
         else do {
           let force_range_size_alloc = (max_size < sz);
           let sz = (if force_range_size_alloc then p2align max_size unit else sz);
           ensure (force_range_size_alloc \<longrightarrow> sz > 0);
           (start, s) \<leftarrow> first_fit force_range_size_alloc max_size sz unit s;
           take_block start sz unit s })"

text \<open>A block is not empty and no larger than asked for, so the loop makes progress.\<close>

lemma fits_loop_le: "snd (fits_loop sz unit s) \<le> sz"
proof (induction sz unit s rule: fits_loop.induct)
  case (1 sz unit s)
  have "p2align (sz div 2) unit \<le> sz" using p2align_le [of "sz div 2" unit] by linarith
  moreover from this have "snd (fits_loop (p2align (sz div 2) unit) unit s) \<le> sz"
    if "pick_block_fits sz unit s = NO_BLOCK" "unit \<le> p2align (sz div 2) unit" "0 < p2align (sz div 2) unit"
    using 1 [OF refl _ refl] that by linarith
  ultimately show ?case unfolding fits_loop.simps [of sz unit s] by (simp add: Let_def)
qed

lemma fits_loop_pos:
  assumes "0 < unit" and "0 < sz"
  shows "fst (fits_loop sz unit s) \<noteq> NO_BLOCK \<Longrightarrow> 0 < snd (fits_loop sz unit s)"
  using assms(2)
proof (induction sz rule: less_induct)
  case (less sz)
  have "p2align (sz div 2) unit < sz" using p2align_le [of "sz div 2" unit] less.prems by linarith
  then show ?case using less unfolding fits_loop.simps [of sz unit s] by (auto simp: Let_def split: if_splits)
qed

lemma allocate_block_progress:
  assumes "allocate_block sz unit s = Some (Some (off, len), s')"
  shows "0 < len \<and> len \<le> sz"
proof -
  let ?max = "largest_size s"
  let ?sz = "if ?max < sz then p2align ?max unit else sz"
  obtain start s1 where rest: "take_block start ?sz unit s1 = Some (Some (off, len), s')"
    using assms unfolding allocate_block_def Let_def by (auto simp: bind_eq_Some_conv split: if_split_asm)
  have sz: "?sz \<le> sz" using p2align_le [of ?max unit] by (simp split: if_splits)
  have rm: "remove_from_tree off len s1 = Some s'" "len = ?sz \<or> len = snd (fits_loop ?sz unit s1)"
    using rest unfolding take_block_def by (auto simp: Let_def bind_eq_Some_conv split: prod.splits if_split_asm)
  then have "len \<noteq> 0" by (auto simp: remove_from_tree_def Let_def)
  moreover have "len \<le> sz" using rm(2) sz fits_loop_le [of ?sz unit s1] by linarith
  ultimately show ?thesis by simp
qed

function allocate_loop ::
  "nat \<Rightarrow> nat \<Rightarrow> nat \<Rightarrow> nat \<Rightarrow> (nat \<times> nat) list \<Rightarrow> avl_allocator \<Rightarrow> (nat \<times> (nat \<times> nat) list \<times> avl_allocator) option" where
  "allocate_loop want unit max_alloc_size allocated extents s =
     (if \<not> allocated < want then Some (allocated, extents, s)
      else (case allocate_block (min max_alloc_size (want - allocated)) unit s of
              None \<Rightarrow> None
            | Some (None, s) \<Rightarrow> Some (allocated, extents, s)
            | Some (Some (offset, len), s) \<Rightarrow>
                allocate_loop want unit max_alloc_size (allocated + len) (extents @ [(offset, len mod two32)]) s))"
  by pat_completeness auto
termination
proof (relation "measure (\<lambda>(want, unit, max_alloc_size, allocated, extents, s). want - allocated)", goal_cases)
  case (2 want unit max_alloc_size allocated extents s x2 x xa x2a off len)
  then show ?case by (auto dest!: allocate_block_progress)
qed simp

declare allocate_loop.simps [simp del]

text \<open>The result is the number of bytes allocated, or \<open>-ENOSPC\<close>; \<open>hint\<close> is not used.\<close>

definition allocate_bytes ::
  "nat \<Rightarrow> nat \<Rightarrow> nat \<Rightarrow> (nat \<times> nat) list \<Rightarrow> avl_allocator \<Rightarrow> (int \<times> (nat \<times> nat) list \<times> avl_allocator) option" where
  "allocate_bytes want unit max_alloc_size extents s = do {
     (allocated, extents, s) \<leftarrow> allocate_loop want unit max_alloc_size 0 extents s;
     Some (if allocated \<noteq> 0 then int allocated else - 28, extents, s) }"

text \<open>The largest block: the caller's limit, or no limit for 0, and what the length of an extent can hold.\<close>

definition alloc_cap :: "nat \<Rightarrow> nat \<Rightarrow> avl_allocator \<Rightarrow> nat" where
  "alloc_cap want max_alloc_size s =
     (let max_alloc_size = (if max_alloc_size = 0 then want else max_alloc_size)
      in if max_alloc_size \<ge> two32 - 1 then p2align (two32 - 1) (block_size s) else max_alloc_size)"

definition avl_allocate ::
  "nat \<Rightarrow> nat \<Rightarrow> nat \<Rightarrow> (nat \<times> nat) list \<Rightarrow> avl_allocator \<Rightarrow> (int \<times> (nat \<times> nat) list \<times> avl_allocator) option" where
  "avl_allocate want unit max_alloc_size extents s = do {
     ensure (isp2 unit);
     ensure (unit \<noteq> 0 \<and> want mod unit = 0);
     allocate_bytes want unit (alloc_cap want max_alloc_size s) extents s }"

subsection \<open>Releasing and loading\<close>

primrec release_all :: "(nat \<times> nat) list \<Rightarrow> avl_allocator \<Rightarrow> avl_allocator option" where
  "release_all [] s = Some s"
| "release_all (e # es) s = do { s \<leftarrow> add_to_tree (fst e) (snd e) s; release_all es s }"

definition avl_release :: "interval_set \<Rightarrow> avl_allocator \<Rightarrow> avl_allocator option" where
  "avl_release release_set s = release_all (iset_m release_set) s"

definition release_extents :: "(nat \<times> nat) list \<Rightarrow> avl_allocator \<Rightarrow> avl_allocator option" where
  "release_extents release_set s = release_all release_set s"

definition init_add_free :: "nat \<Rightarrow> nat \<Rightarrow> avl_allocator \<Rightarrow> avl_allocator option" where
  "init_add_free offset len s = (if len = 0 then Some s else add_to_tree offset len s)"

definition init_rm_free :: "nat \<Rightarrow> nat \<Rightarrow> avl_allocator \<Rightarrow> avl_allocator option" where
  "init_rm_free offset len s = (if len = 0 then Some s else remove_from_tree offset len s)"

definition avl_shutdown :: "avl_allocator \<Rightarrow> avl_allocator" where
  "avl_shutdown s = s\<lparr>range_size_tree := [], range_tree := []\<rparr>"

text \<open>The ranges \<open>dump\<close> passes to its callback.\<close>

definition avl_dump :: "avl_allocator \<Rightarrow> (nat \<times> nat) list" where
  "avl_dump s = map (\<lambda>rs. (rs_start rs, sub64 (rs_end rs) (rs_start rs))) (range_tree s)"

end
