(* ===== verification/Avl_Allocator_Correct.thy ===== *)
theory Avl_Allocator_Correct
  imports Avl_Allocator Interval_Set_Correct "HOL-Library.Multiset" "HOL-Library.Code_Target_Nat"
begin

text \<open>
  The allocator against the set of free bytes: the two trees stay in step, every operation changes the set
  as it should and never fails an assertion, blocks are aligned, free and disjoint, and an allocation that
  falls short leaves no aligned block free.
\<close>

subsection \<open>Free ranges\<close>

definition seg_bytes :: "range_seg_t \<Rightarrow> nat set" where
  "seg_bytes r = {rs_start r..<rs_end r}"

definition free_bytes :: "range_seg_t list \<Rightarrow> nat set" where
  "free_bytes rt = (\<Union>r\<in>set rt. seg_bytes r)"

definition segs_wf :: "nat \<Rightarrow> range_seg_t list \<Rightarrow> bool" where
  "segs_wf n rt \<longleftrightarrow> sorted_wrt (\<lambda>a b. rs_end a < rs_start b) rt \<and> (\<forall>r\<in>set rt. rs_start r < rs_end r \<and> rs_end r \<le> n)"

lemma free_bytes_simps [simp]:
  "free_bytes [] = {}"
  "free_bytes (r # rt) = seg_bytes r \<union> free_bytes rt"
  "free_bytes (xs @ ys) = free_bytes xs \<union> free_bytes ys"
  by (auto simp: free_bytes_def)

lemma segs_wf_Nil [simp]: "segs_wf n []"
  by (simp add: segs_wf_def)

lemma segs_wf_Cons [simp]:
  "segs_wf n (r # rt) \<longleftrightarrow> rs_start r < rs_end r \<and> rs_end r \<le> n \<and> (\<forall>q\<in>set rt. rs_end r < rs_start q) \<and> segs_wf n rt"
  by (auto simp: segs_wf_def)

lemma segs_wf_append [simp]:
  "segs_wf n (xs @ ys) \<longleftrightarrow> segs_wf n xs \<and> segs_wf n ys \<and> (\<forall>p\<in>set xs. \<forall>q\<in>set ys. rs_end p < rs_start q)"
  by (auto simp: segs_wf_def sorted_wrt_append)

lemma segs_wf_mem: "segs_wf n rt \<Longrightarrow> r \<in> set rt \<Longrightarrow> rs_start r < rs_end r \<and> rs_end r \<le> n"
  by (simp add: segs_wf_def)

lemma free_bytes_le: "segs_wf n rt \<Longrightarrow> free_bytes rt \<subseteq> {..<n}"
  by (auto simp: free_bytes_def seg_bytes_def dest!: segs_wf_mem)

lemma finite_free_bytes [simp]: "finite (free_bytes rt)"
  by (simp add: free_bytes_def seg_bytes_def)

lemma card_free_bytes:
  "segs_wf n rt \<Longrightarrow> card (free_bytes rt) = sum_list (map (\<lambda>r. rs_end r - rs_start r) rt)"
proof (induction rt)
  case (Cons r rt)
  have "seg_bytes r \<inter> free_bytes rt = {}"
    using Cons.prems by (fastforce simp: seg_bytes_def free_bytes_def)
  then have "card (free_bytes (r # rt)) = card (seg_bytes r) + card (free_bytes rt)"
    by (simp add: card_Un_disjoint seg_bytes_def)
  then show ?case using Cons by (simp add: seg_bytes_def)
qed simp

text \<open>A run of free bytes lies in one range, since ranges do not touch.\<close>

lemma run_in_seg:
  assumes "segs_wf n rt" and "a < b" and "{a..<b} \<subseteq> free_bytes rt"
  shows "\<exists>r\<in>set rt. rs_start r \<le> a \<and> b \<le> rs_end r"
  using assms
proof (induction rt)
  case (Cons r rt)
  show ?case
  proof (cases "a < rs_end r")
    case True
    have "a \<in> free_bytes (r # rt)" using Cons.prems(2,3) by (auto simp only: subset_iff atLeastLessThan_iff)
    then have a: "rs_start r \<le> a" using Cons.prems(1) True by (force simp: seg_bytes_def free_bytes_def)
    have "rs_end r \<notin> free_bytes (r # rt)" using Cons.prems(1) by (force simp: seg_bytes_def free_bytes_def)
    then have "b \<le> rs_end r" using Cons.prems(3) True by (meson atLeastLessThan_iff leI less_imp_le subsetD)
    with a show ?thesis by auto
  next
    case False
    then have "{a..<b} \<inter> seg_bytes r = {}" by (auto simp: seg_bytes_def)
    then have "{a..<b} \<subseteq> free_bytes rt" using Cons.prems(3) by auto
    then show ?thesis using Cons by auto
  qed
qed simp

lemma seg_subset: "r \<in> set rt \<Longrightarrow> rs_start r \<le> a \<Longrightarrow> b \<le> rs_end r \<Longrightarrow> {a..<b} \<subseteq> free_bytes rt"
  by (auto simp: free_bytes_def seg_bytes_def)

subsection \<open>The two trees\<close>

definition total_size :: "range_seg_t list \<Rightarrow> nat" where
  "total_size st = sum_list (map rs_length st)"

text \<open>The allocator's invariant: a device below \<open>2 ^ 63\<close> bytes, ranges that are disjoint and do not touch, the
  same ranges in both trees, and their total size.\<close>

definition in_step :: "avl_allocator \<Rightarrow> bool" where
  "in_step s \<longleftrightarrow> sorted (map seg_key (range_size_tree s)) \<and> mset (range_size_tree s) = mset (range_tree s) \<and>
     num_free s = total_size (range_size_tree s)"

definition avl_ok :: "avl_allocator \<Rightarrow> bool" where
  "avl_ok s \<longleftrightarrow> segs_wf (num_total s) (range_tree s) \<and> in_step s \<and> num_total s < 2 ^ 63 \<and>
     range_count_cap s = 0 \<and> length (lbas s) = 64"

definition with_trees :: "avl_allocator \<Rightarrow> range_seg_t list \<Rightarrow> range_seg_t list \<Rightarrow> avl_allocator" where
  "with_trees s rt st = s\<lparr>range_tree := rt, range_size_tree := st, num_free := total_size st\<rparr>"

lemma with_trees_simps [simp]:
  "range_tree (with_trees s rt st) = rt" "range_size_tree (with_trees s rt st) = st"
  "num_free (with_trees s rt st) = total_size st" "num_total (with_trees s rt st) = num_total s"
  "block_size (with_trees s rt st) = block_size s" "lbas (with_trees s rt st) = lbas s"
  "range_count_cap (with_trees s rt st) = range_count_cap s"
  by (simp_all add: with_trees_def)

lemma with_trees_update [simp]:
  "(with_trees s rt st)\<lparr>range_tree := rt'\<rparr> = with_trees s rt' st" "with_trees (with_trees s rt st) rt' st' = with_trees s rt' st'"
  by (simp_all add: with_trees_def)

lemma with_trees_self: "num_free s = total_size (range_size_tree s) \<Longrightarrow> s = with_trees s (range_tree s) (range_size_tree s)"
  by (cases s) (simp add: with_trees_def)

lemma seg_length: "rs_start r \<le> rs_end r \<Longrightarrow> rs_end r < two64 \<Longrightarrow> rs_length r = rs_end r - rs_start r"
  by (simp add: rs_length_def u64_simps)

lemma total_perm: "mset xs = mset ys \<Longrightarrow> total_size xs = total_size ys"
  unfolding total_size_def by (metis mset_map sum_mset_sum_list)

lemma total_card:
  assumes "segs_wf n rt" and "n < two64"
  shows "total_size rt = card (free_bytes rt)"
proof -
  have "rs_length r = rs_end r - rs_start r" if "r \<in> set rt" for r
    using segs_wf_mem [OF assms(1) that] assms(2) by (intro seg_length) linarith+
  then have "map rs_length rt = map (\<lambda>r. rs_end r - rs_start r) rt" by simp
  then show ?thesis unfolding total_size_def card_free_bytes [OF assms(1)] by (rule arg_cong)
qed

lemma total_le: "segs_wf n rt \<Longrightarrow> n < two64 \<Longrightarrow> total_size rt \<le> n"
  using total_card [of n rt] card_mono [OF _ free_bytes_le, of n rt] by simp

lemma rm_with_trees:
  assumes "r \<in> set st" and "total_size st < two64"
  shows "range_size_tree_rm r (with_trees s rt st) = Some (with_trees s rt (remove1 r st))"
proof -
  have t: "total_size st = rs_length r + total_size (remove1 r st)"
    unfolding total_size_def using assms(1) by (rule sum_list_map_remove1)
  then have "sub64 (total_size st) (rs_length r) = total_size (remove1 r st)" using assms(2) by (simp add: u64_simps)
  then show ?thesis using t by (simp add: range_size_tree_rm_def) (simp add: with_trees_def)
qed

lemma total_insort: "total_size (insort_key seg_key r st) = rs_length r + total_size st"
proof -
  have "mset (insort_key seg_key r st) = mset (r # st)" by simp
  then show ?thesis using total_perm [of "insort_key seg_key r st" "r # st"] by (simp add: total_size_def)
qed

lemma size_insert_with_trees:
  assumes "rs_length r + total_size st < two64"
  shows "size_tree_insert r (with_trees s rt st) = with_trees s rt (insort_key seg_key r st)"
  using assms by (simp add: size_tree_insert_def with_trees_def total_insort add64_def add.commute)

lemma try_insert_uncapped:
  assumes "range_count_cap s = 0"
  shows "try_insert_range a b (Some pos) s =
      Some (True, size_tree_insert \<lparr>rs_start = a, rs_end = b\<rparr> (insert_before pos \<lparr>rs_start = a, rs_end = b\<rparr> s))"
    and "range_size_tree_try_insert r s = Some (size_tree_insert r s)"
  using assms by (simp_all add: try_insert_range_def range_size_tree_try_insert_def Let_def)

text \<open>The effect of an operation: new ranges, in both trees.\<close>

definition trees_become :: "avl_allocator option \<Rightarrow> avl_allocator \<Rightarrow> range_seg_t list \<Rightarrow> bool" where
  "trees_become res s rt \<longleftrightarrow>
     (\<exists>st. res = Some (with_trees s rt st) \<and> sorted (map seg_key st) \<and> mset st = mset rt)"

lemma trees_becomeE:
  assumes "trees_become res s rt" and "avl_ok s" and "segs_wf (num_total s) rt"
  obtains s' where "res = Some s'" and "avl_ok s'" and "range_tree s' = rt" and "num_total s' = num_total s"
    and "block_size s' = block_size s"
proof -
  obtain st where "res = Some (with_trees s rt st)" "sorted (map seg_key st)" "mset st = mset rt"
    using assms(1) by (auto simp: trees_become_def)
  moreover from this have "avl_ok (with_trees s rt st)" using assms(2,3) by (simp add: avl_ok_def in_step_def)
  ultimately show ?thesis by (intro that [of "with_trees s rt st"]) simp_all
qed

lemma avl_ok_trees:
  assumes "avl_ok s"
  obtains st where "s = with_trees s (range_tree s) st" and "sorted (map seg_key st)" and "mset st = mset (range_tree s)"
    and "range_size_tree s = st"
  using assms with_trees_self [of s] by (auto simp: avl_ok_def in_step_def)

lemma two64_big: "(2::nat) ^ 63 < two64"
  by (simp add: two64_def)

lemma avl_ok_sizes:
  assumes "avl_ok s"
  shows "num_total s < two64" and "num_free s = card (free_bytes (range_tree s))"
proof -
  show l: "num_total s < two64" using assms two64_big by (auto simp: avl_ok_def)
  show "num_free s = card (free_bytes (range_tree s))"
    using assms total_card [OF _ l] total_perm [of "range_size_tree s" "range_tree s"] by (simp add: avl_ok_def in_step_def)
qed

text \<open>Replacing one range by others, the way the operations do: out of the size tree, changed in the range
  tree, and into the size tree again.\<close>

lemma sorted_remove1_key: "sorted (map f xs) \<Longrightarrow> sorted (map f (remove1 x xs))"
  by (rule sorted_map_remove1)

lemma total_bound:
  assumes "segs_wf n rt" and "n < two64" and "mset st = mset rt"
  shows "total_size st < two64"
  using total_le [OF assms(1,2)] total_perm [OF assms(3)] assms(2) by simp

lemma mset_remove1_middle: "mset st = mset (xs @ r # ys) \<Longrightarrow> mset (remove1 r st) = mset (xs @ ys)"
  by simp

lemma size_insert_mset:
  assumes "segs_wf n (xs @ r # ys)" and "n < two64" and "mset st = mset (xs @ ys)" and "sorted (map seg_key st)"
  shows "size_tree_insert r (with_trees s rt st) = with_trees s rt (insort_key seg_key r st)"
    and "sorted (map seg_key (insort_key seg_key r st))" and "mset (insort_key seg_key r st) = mset (xs @ r # ys)"
proof -
  have m: "mset (r # st) = mset (xs @ r # ys)" using assms(3) by simp
  have "total_size (r # st) < two64" using total_bound [OF assms(1,2) m] .
  then show "size_tree_insert r (with_trees s rt st) = with_trees s rt (insort_key seg_key r st)"
    by (intro size_insert_with_trees) (simp add: total_size_def)
  show "sorted (map seg_key (insort_key seg_key r st))" using assms(4) by (simp add: sorted_insort_key)
  show "mset (insort_key seg_key r st) = mset (xs @ r # ys)" using m by simp
qed

lemma reinsert:
  assumes "segs_wf n (xs @ r # ys)" and "n < two64" and "mset st = mset (xs @ ys)" and "sorted (map seg_key st)"
  shows "trees_become (Some (size_tree_insert r (with_trees s (xs @ r # ys) st))) s (xs @ r # ys)"
  unfolding trees_become_def size_insert_mset(1) [OF assms] using size_insert_mset(2,3) [OF assms] by blast

subsection \<open>Adding a range\<close>

lemma add_split:
  assumes "segs_wf n rt" and "a < b" and "{a..<b} \<inter> free_bytes rt = {}"
  obtains xs ys where "rt = xs @ ys" and "length (takeWhile (\<lambda>r. \<not> b \<le> rs_start r) rt) = length xs"
    and "\<forall>r\<in>set xs. rs_end r \<le> a" and "\<forall>r\<in>set ys. b \<le> rs_start r"
proof
  let ?xs = "takeWhile (\<lambda>r. \<not> b \<le> rs_start r) rt" and ?ys = "dropWhile (\<lambda>r. \<not> b \<le> rs_start r) rt"
  show "rt = ?xs @ ?ys" by simp
  show "\<forall>r\<in>set ?xs. rs_end r \<le> a"
  proof
    fix r assume "r \<in> set ?xs"
    then have r: "r \<in> set rt" "rs_start r < b" by (auto dest: set_takeWhileD)
    then have "{a..<b} \<inter> seg_bytes r = {}" using assms(3) by (auto simp: free_bytes_def)
    moreover have "max a (rs_start r) \<in> {a..<b} \<inter> seg_bytes r" if "a < rs_end r"
      using that r assms(2) segs_wf_mem [OF assms(1) r(1)] by (auto simp: seg_bytes_def)
    ultimately show "rs_end r \<le> a" by (metis empty_iff not_le)
  qed
  show "\<forall>r\<in>set ?ys. b \<le> rs_start r"
  proof (cases ?ys)
    case (Cons y ys)
    then have "b \<le> rs_start y" using hd_dropWhile [of "\<lambda>r. \<not> b \<le> rs_start r" rt] by simp
    moreover have "segs_wf n (y # ys)" using assms(1) Cons takeWhile_dropWhile_id [of "\<lambda>r. \<not> b \<le> rs_start r" rt]
      by (metis segs_wf_append)
    ultimately show ?thesis unfolding Cons by fastforce
  next
    case Nil
    then show ?thesis by (simp only: list.set ball_simps)
  qed
qed simp

text \<open>What becomes of the ranges.\<close>

definition added :: "range_seg_t list \<Rightarrow> range_seg_t list \<Rightarrow> nat \<Rightarrow> nat \<Rightarrow> range_seg_t list" where
  "added xs ys a b =
     (if xs \<noteq> [] \<and> rs_end (last xs) = a
      then if ys \<noteq> [] \<and> rs_start (hd ys) = b then butlast xs @ (hd ys)\<lparr>rs_start := rs_start (last xs)\<rparr> # tl ys
           else butlast xs @ (last xs)\<lparr>rs_end := b\<rparr> # ys
      else if ys \<noteq> [] \<and> rs_start (hd ys) = b then xs @ (hd ys)\<lparr>rs_start := a\<rparr> # tl ys
      else xs @ \<lparr>rs_start = a, rs_end = b\<rparr> # ys)"

lemma added_wf:
  assumes "segs_wf n (xs @ ys)" and "a < b" and "b \<le> n" and "\<forall>r\<in>set xs. rs_end r \<le> a" and "\<forall>r\<in>set ys. b \<le> rs_start r"
  shows "segs_wf n (added xs ys a b) \<and> free_bytes (added xs ys a b) = free_bytes (xs @ ys) \<union> {a..<b}"
proof -
  have "segs_wf n (added xs ys a b)"
    using assms by (cases xs rule: rev_cases; cases ys) (fastforce simp: added_def le_less)+
  moreover have "free_bytes (added xs ys a b) = free_bytes (xs @ ys) \<union> {a..<b}"
    using assms by (cases xs rule: rev_cases; cases ys) (auto simp: added_def seg_bytes_def)
  ultimately show ?thesis by blast
qed

lemma add_to_tree_trees:
  assumes ok: "avl_ok s" and rt: "range_tree s = xs @ ys" and ab: "a < b" "b \<le> num_total s"
    and xs: "\<forall>r\<in>set xs. rs_end r \<le> a" and ys: "\<forall>r\<in>set ys. b \<le> rs_start r"
    and after: "length (takeWhile (\<lambda>r. \<not> b \<le> rs_start r) (range_tree s)) = length xs"
  shows "trees_become (add_to_tree a (b - a) s) s (added xs ys a b)"
proof -
  let ?n = "num_total s"
  have n: "?n < two64" and wf: "segs_wf ?n (xs @ ys)" and cap: "range_count_cap s = 0"
    using ok avl_ok_sizes(1) rt by (auto simp: avl_ok_def)
  have wf': "segs_wf ?n (added xs ys a b)" using added_wf [OF wf ab xs ys] by simp
  obtain st where s: "s = with_trees s (xs @ ys) st" and st: "sorted (map seg_key st)" "mset st = mset (xs @ ys)"
    using avl_ok_trees [OF ok] rt by metis
  have b: "add64 a (b - a) = b" using ab n by (simp add: u64_simps)
  have tot: "total_size st < two64" using total_bound [OF wf n st(2)] .
  have tot1: "total_size (remove1 r st) < two64" if "r \<in> set st" for r
    using tot sum_list_map_remove1 [OF that, of rs_length] by (simp add: total_size_def)
  have rm: "range_size_tree_rm r (with_trees s l st) = Some (with_trees s l (remove1 r st))" if "r \<in> set (xs @ ys)" for r l
    using that tot mset_eq_setD [OF st(2)] by (intro rm_with_trees) simp_all
  note tree_simps = rm try_insert_uncapped [of "with_trees s _ _"] cap nth_append list_update_append
  consider (both) xs' x y ys' where "xs = xs' @ [x]" "ys = y # ys'" "rs_end x = a" "rs_start y = b"
    | (before) xs' x where "xs = xs' @ [x]" "rs_end x = a" "\<not> (ys \<noteq> [] \<and> rs_start (hd ys) = b)"
    | (behind) y ys' where "ys = y # ys'" "rs_start y = b" "\<not> (xs \<noteq> [] \<and> rs_end (last xs) = a)"
    | (none) "\<not> (ys \<noteq> [] \<and> rs_start (hd ys) = b)" "\<not> (xs \<noteq> [] \<and> rs_end (last xs) = a)"
    by (cases xs rule: rev_cases; cases ys) auto
  then show ?thesis
  proof cases
    case both
    let ?r = "y\<lparr>rs_start := rs_start x\<rparr>"
    have y: "y \<in> set (remove1 x st)" using st(2) both by (simp flip: set_mset_mset)
    have x: "x \<in> set st" using st(2) both by (simp flip: set_mset_mset)
    have new: "added xs ys a b = xs' @ ?r # ys'" using both by (simp add: added_def)
    have "add_to_tree a (b - a) s = Some (size_tree_insert ?r (with_trees s (xs' @ ?r # ys') (remove1 y (remove1 x st))))"
      using ab by (subst s, unfold add_to_tree_def Let_def b)
        (use both x y tot1 after rt in \<open>simp add: tree_simps rm_with_trees\<close>)
    then show ?thesis unfolding new
      using reinsert [OF wf' [unfolded new] n] st both by (simp add: sorted_remove1_key)
  next
    case before
    let ?r = "x\<lparr>rs_end := b\<rparr>"
    have new: "added xs ys a b = xs' @ ?r # ys" using before by (auto simp: added_def)
    have "add_to_tree a (b - a) s = Some (size_tree_insert ?r (with_trees s (xs' @ ?r # ys) (remove1 x st)))"
      using ab by (subst s, unfold add_to_tree_def Let_def b)
        (use before after rt in \<open>cases ys; simp add: tree_simps\<close>)
    then show ?thesis unfolding new
      using reinsert [OF wf' [unfolded new] n] st before by (simp add: sorted_remove1_key)
  next
    case behind
    let ?r = "y\<lparr>rs_start := a\<rparr>"
    have new: "added xs ys a b = xs @ ?r # ys'" using behind by (auto simp: added_def)
    have "add_to_tree a (b - a) s = Some (size_tree_insert ?r (with_trees s (xs @ ?r # ys') (remove1 y st)))"
      using ab by (subst s, unfold add_to_tree_def Let_def b)
        (use behind after rt in \<open>cases xs rule: rev_cases; simp add: tree_simps\<close>)
    then show ?thesis unfolding new
      using reinsert [OF wf' [unfolded new] n] st behind by (simp add: sorted_remove1_key)
  next
    case none
    let ?r = "\<lparr>rs_start = a, rs_end = b\<rparr>"
    have new: "added xs ys a b = xs @ ?r # ys" using none by (auto simp: added_def)
    have "add_to_tree a (b - a) s = Some (size_tree_insert ?r (with_trees s (xs @ ?r # ys) st))"
      using ab by (subst s, unfold add_to_tree_def Let_def b)
        (use none after rt in \<open>cases ys; cases xs rule: rev_cases; simp add: tree_simps insert_before_def\<close>)
    then show ?thesis unfolding new
      using reinsert [OF wf' [unfolded new] n] st by simp
  qed
qed

text \<open>Releasing a range that is not free never fails, and the range becomes free.\<close>

lemma add_to_tree_ok:
  assumes ok: "avl_ok s" and len: "0 < len" "a + len \<le> num_total s" and dis: "{a..<a + len} \<inter> free_bytes (range_tree s) = {}"
  obtains s' where "add_to_tree a len s = Some s'" and "avl_ok s'"
    and "free_bytes (range_tree s') = free_bytes (range_tree s) \<union> {a..<a + len}"
    and "num_total s' = num_total s" and "block_size s' = block_size s"
proof -
  have wf: "segs_wf (num_total s) (range_tree s)" using ok by (simp add: avl_ok_def)
  have ab: "a < a + len" using len by simp
  obtain xs ys where split: "range_tree s = xs @ ys"
      "length (takeWhile (\<lambda>r. \<not> a + len \<le> rs_start r) (range_tree s)) = length xs"
      "\<forall>r\<in>set xs. rs_end r \<le> a" "\<forall>r\<in>set ys. a + len \<le> rs_start r"
    by (rule add_split [OF wf ab dis])
  have new: "segs_wf (num_total s) (added xs ys a (a + len))"
      "free_bytes (added xs ys a (a + len)) = free_bytes (range_tree s) \<union> {a..<a + len}"
    using added_wf [OF _ ab len(2) split(3,4)] wf split(1) by simp_all
  have "trees_become (add_to_tree a (a + len - a) s) s (added xs ys a (a + len))"
    by (rule add_to_tree_trees [OF ok split(1) ab len(2) split(3,4,2)])
  from trees_becomeE [OF this ok new(1)] show thesis using that new(2) by (metis add_diff_cancel_left')
qed

subsection \<open>Removing a range\<close>

definition removed :: "range_seg_t \<Rightarrow> nat \<Rightarrow> nat \<Rightarrow> range_seg_t list" where
  "removed rs a b = (if rs_start rs \<noteq> a then [rs\<lparr>rs_end := a\<rparr>] else []) @ (if rs_end rs \<noteq> b then [rs\<lparr>rs_start := b\<rparr>] else [])"

lemma removed_wf:
  assumes "segs_wf n (xs @ rs # ys)" and "rs_start rs \<le> a" and "a < b" and "b \<le> rs_end rs"
  shows "segs_wf n (xs @ removed rs a b @ ys)" and "free_bytes (xs @ removed rs a b @ ys) = free_bytes (xs @ rs # ys) - {a..<b}"
proof -
  show "segs_wf n (xs @ removed rs a b @ ys)" using assms by (force simp: removed_def)
  have "free_bytes (removed rs a b) = seg_bytes rs - {a..<b}" using assms(2-4) by (auto simp: removed_def seg_bytes_def)
  moreover have "free_bytes xs \<inter> {a..<b} = {}" "free_bytes ys \<inter> {a..<b} = {}"
    using assms by (fastforce simp: free_bytes_def seg_bytes_def)+
  ultimately show "free_bytes (xs @ removed rs a b @ ys) = free_bytes (xs @ rs # ys) - {a..<b}" by auto
qed

lemma process_removal_trees:
  assumes ok: "avl_ok s" and rt: "range_tree s = xs @ rs # ys" and ab: "rs_start rs \<le> a" "a < b" "b \<le> rs_end rs"
  shows "trees_become (process_range_removal a b (length xs) s) s (xs @ removed rs a b @ ys)"
proof -
  let ?n = "num_total s"
  have n: "?n < two64" and wf: "segs_wf ?n (xs @ rs # ys)" and cap: "range_count_cap s = 0"
    using ok avl_ok_sizes(1) rt by (auto simp: avl_ok_def)
  have wf': "segs_wf ?n (xs @ removed rs a b @ ys)" using removed_wf(1) [OF wf ab] .
  obtain st where s: "s = with_trees s (xs @ rs # ys) st" and st: "sorted (map seg_key st)" "mset st = mset (xs @ rs # ys)"
    using avl_ok_trees [OF ok] rt by metis
  have tot: "total_size st < two64" using total_bound [OF wf n st(2)] .
  have rm: "range_size_tree_rm rs (with_trees s l st) = Some (with_trees s l (remove1 rs st))" for l
    using tot mset_eq_setD [OF st(2)] by (intro rm_with_trees) simp_all
  have m1: "mset (remove1 rs st) = mset (xs @ ys)" "sorted (map seg_key (remove1 rs st))"
    using st by (simp_all add: sorted_remove1_key)
  note tree_simps = rm try_insert_uncapped [of "with_trees s _ _"] cap nth_append list_update_append insert_before_def
  let ?l = "rs\<lparr>rs_end := a\<rparr>" and ?r = "rs\<lparr>rs_start := b\<rparr>" and ?st = "remove1 rs st"
  show ?thesis
  proof (cases "rs_start rs = a"; cases "rs_end rs = b")
    assume c: "rs_start rs = a" "rs_end rs = b"
    have "process_range_removal a b (length xs) s = Some (with_trees s (xs @ ys) ?st)"
      by (subst s, unfold process_range_removal_def Let_def) (use c in \<open>simp add: tree_simps\<close>)
    then show ?thesis unfolding trees_become_def using m1 c by (intro exI [of _ ?st]) (simp add: removed_def)
  next
    assume c: "rs_start rs = a" "rs_end rs \<noteq> b"
    have "process_range_removal a b (length xs) s = Some (size_tree_insert ?r (with_trees s (xs @ ?r # ys) ?st))"
      by (subst s, unfold process_range_removal_def Let_def) (use c in \<open>simp add: tree_simps\<close>)
    then show ?thesis using reinsert [OF _ n m1, of ?r] wf' c by (simp add: removed_def)
  next
    assume c: "rs_start rs \<noteq> a" "rs_end rs = b"
    have "process_range_removal a b (length xs) s = Some (size_tree_insert ?l (with_trees s (xs @ ?l # ys) ?st))"
      by (subst s, unfold process_range_removal_def Let_def) (use c in \<open>simp add: tree_simps\<close>)
    then show ?thesis using reinsert [OF _ n m1, of ?l] wf' c by (simp add: removed_def)
  next
    assume c: "rs_start rs \<noteq> a" "rs_end rs \<noteq> b"
    then have wf2: "segs_wf ?n (xs @ ?l # ?r # ys)" using wf' by (simp add: removed_def)
    then have wf3: "segs_wf ?n (xs @ ?r # ys)" by simp
    note r = size_insert_mset [OF wf3 n m1]
    have rr: "\<lparr>rs_start = b, rs_end = rs_end rs\<rparr> = ?r" by simp
    have "process_range_removal a b (length xs) s =
        Some (size_tree_insert ?l (with_trees s (xs @ ?l # ?r # ys) (insort_key seg_key ?r ?st)))"
      by (subst s, unfold process_range_removal_def Let_def) (use c in \<open>simp add: tree_simps r(1) rr\<close>)
    then show ?thesis using reinsert [OF wf2 n, of "insort_key seg_key ?r ?st"] r(2,3) c by (simp add: removed_def)
  qed
qed

lemma find_range_split:
  assumes "segs_wf n (xs @ rs # ys)" and "rs_start rs \<le> a" and "a < rs_end rs" and "a < b"
  shows "find_range a b (xs @ rs # ys) = Some (length xs)"
proof -
  have "rs_end r \<le> a" if "r \<in> set xs" for r using assms(1,2) that by fastforce
  then have "takeWhile (\<lambda>r. rs_end r \<le> a) (xs @ rs # ys) = xs" using assms(3) by (auto simp: takeWhile_append2)
  then show ?thesis using assms(2,4) by (simp add: find_range_def)
qed

text \<open>Taking out a free range never fails, and taking out any other fails an assertion.\<close>

lemma remove_from_tree_ok:
  assumes ok: "avl_ok s" and len: "0 < len" and free: "{a..<a + len} \<subseteq> free_bytes (range_tree s)"
  obtains s' where "remove_from_tree a len s = Some s'" and "avl_ok s'"
    and "free_bytes (range_tree s') = free_bytes (range_tree s) - {a..<a + len}"
    and "num_total s' = num_total s" and "block_size s' = block_size s"
proof -
  have wf: "segs_wf (num_total s) (range_tree s)" using ok by (simp add: avl_ok_def)
  obtain rs where rs: "rs \<in> set (range_tree s)" "rs_start rs \<le> a" "a + len \<le> rs_end rs"
    using run_in_seg [OF wf _ free] len by auto
  then obtain xs ys where rt: "range_tree s = xs @ rs # ys" by (meson in_set_conv_decomp)
  have stop: "add64 a len = a + len"
    using rs segs_wf_mem [OF wf rs(1)] avl_ok_sizes(1) [OF ok] by (simp add: u64_simps)
  have "card {a..<a + len} \<le> num_free s" using free avl_ok_sizes(2) [OF ok] by (simp only: card_mono finite_free_bytes)
  moreover have "find_range a (a + len) (range_tree s) = Some (length xs)"
    using find_range_split [of "num_total s" xs rs ys a "a + len"] wf rt rs len by simp
  ultimately have eq: "remove_from_tree a len s = process_range_removal a (a + len) (length xs) s"
    using len rs(2,3) by (simp add: remove_from_tree_def Let_def stop rt)
  have ab: "a < a + len" using len by simp
  note new = removed_wf [OF wf [unfolded rt] rs(2) ab rs(3)]
  from trees_becomeE [OF process_removal_trees [OF ok rt rs(2) ab rs(3)] ok new(1)]
  show thesis using that new(2) unfolding eq rt by metis
qed

lemma remove_from_tree_free:
  assumes ok: "avl_ok s" and "remove_from_tree a len s = Some s'" and "a + len < two64"
  shows "0 < len \<and> {a..<a + len} \<subseteq> free_bytes (range_tree s)"
proof -
  have stop: "add64 a len = a + len" using assms(3) by (simp add: u64_simps)
  obtain i where i: "find_range a (a + len) (range_tree s) = Some i" "rs_start (range_tree s ! i) \<le> a"
      "a + len \<le> rs_end (range_tree s ! i)" "0 < len"
    using assms(2) by (auto simp: remove_from_tree_def Let_def stop bind_eq_Some_conv ensure_def split: if_splits)
  then have "i < length (range_tree s)" by (auto simp: find_range_def Let_def split: if_splits)
  then show ?thesis using seg_subset [OF nth_mem i(2,3)] i(4) by blast
qed

subsection \<open>Removing what is free of a range\<close>

text \<open>The calls of the callback: they tile the range, each on bytes that are all free or all not free.\<close>

fun tiles :: "nat set \<Rightarrow> nat \<Rightarrow> (nat \<times> nat \<times> bool) list \<Rightarrow> nat \<Rightarrow> bool" where
  "tiles F a [] b \<longleftrightarrow> a = b"
| "tiles F a ((off, len, found) # cbs) b \<longleftrightarrow> off = a \<and> 0 < len \<and>
     (if found then {a..<a + len} \<subseteq> F else {a..<a + len} \<inter> F = {}) \<and> tiles F (a + len) cbs b"

lemma tiles_append: "tiles F a c b \<Longrightarrow> tiles F b c' d \<Longrightarrow> tiles F a (c @ c') d"
  by (induction F a c b rule: tiles.induct) auto

lemma tiles_cong: "tiles F a cbs b \<Longrightarrow> (\<And>x. a \<le> x \<Longrightarrow> x \<in> F \<longleftrightarrow> x \<in> F') \<Longrightarrow> tiles F' a cbs b"
proof (induction F a cbs b rule: tiles.induct)
  case (2 F a off len found cbs b)
  have "tiles F' (a + len) cbs b" using 2 by simp
  moreover have "if found then {a..<a + len} \<subseteq> F' else {a..<a + len} \<inter> F' = {}"
    using 2(2) 2(3) by (fastforce split: if_splits)
  ultimately show ?case using 2(2) by simp
qed simp

lemma tiles_mono: "tiles F a cbs b \<Longrightarrow> a \<le> b"
  by (induction F a cbs b rule: tiles.induct) auto

text \<open>One round of the loop, at the range \<open>r\<close>.\<close>

lemma try_remove_step:
  assumes ok: "avl_ok s" and rt: "range_tree s = xs @ r # ys" and xs: "\<forall>q\<in>set xs. rs_end q \<le> a"
    and a: "a < rs_end r" "rs_start r < b" "a < b" and b: "b \<le> num_total s"
  defines "m \<equiv> max a (rs_start r)" and "e \<equiv> min (rs_end r) b"
  obtains s1 cbs where "avl_ok s1" and "range_tree s1 = xs @ removed r m e @ ys" and "num_total s1 = num_total s"
    and "free_bytes (range_tree s1) = free_bytes (range_tree s) - {a..<e}" and "tiles (free_bytes (range_tree s)) a cbs e"
    and "try_remove_loop (Suc (length ys)) a b s =
      (if ys \<noteq> [] \<and> rs_start (hd ys) < b \<and> e < b
       then do { (cbs', a', s') \<leftarrow> try_remove_loop (length ys) e b s1; Some (cbs @ cbs', a', s') }
       else Some (cbs, e, s1))"
proof -
  let ?F = "free_bytes (range_tree s)"
  have wf: "segs_wf (num_total s) (xs @ r # ys)" and n: "num_total s < two64"
    using ok rt avl_ok_sizes(1) by (auto simp: avl_ok_def)
  have r: "rs_start r < rs_end r" "rs_end r \<le> num_total s" using wf by simp_all
  have me: "rs_start r \<le> m" "m < e" "e \<le> rs_end r" "a \<le> m" "m = a \<or> m = rs_start r"
    using a r unfolding m_def e_def by auto
  obtain s1 where s1: "process_range_removal m e (length xs) s = Some s1" "avl_ok s1"
      "range_tree s1 = xs @ removed r m e @ ys" "num_total s1 = num_total s"
    by (rule trees_becomeE [OF process_removal_trees [OF ok rt me(1-3)] ok removed_wf(1) [OF wf me(1-3)]])
  have gap: "{a..<m} \<inter> ?F = {}"
  proof (cases "m = a")
    case False
    then have "m = rs_start r" using me(5) by simp
    then have "rs_end q \<le> a \<or> m \<le> rs_start q" if "q \<in> set (range_tree s)" for q
      using that wf xs me r(1) unfolding rt by fastforce
    then show ?thesis by (force simp: free_bytes_def seg_bytes_def)
  qed simp
  have fm: "{m..<e} \<subseteq> ?F" using seg_subset [of r "range_tree s" m e] me rt by simp
  have "{a..<e} = {a..<m} \<union> {m..<e}" using me by auto
  then have F: "free_bytes (range_tree s1) = ?F - {a..<e}"
    using removed_wf(2) [OF wf me(1-3)] s1(3) gap unfolding rt by auto
  let ?cbs = "(if a < rs_start r then [(a, rs_start r - a, False)] else []) @ [(m, e - m, True)]"
  have t: "tiles ?F a ?cbs e" using gap fm me a unfolding m_def by (auto split: if_splits)
  have sub: "sub64 e m = e - m" "a < rs_start r \<Longrightarrow> sub64 (rs_start r) a = rs_start r - a"
    using me r n by (intro sub64_eq; linarith)+
  have next_rs: "ys \<noteq> [] \<Longrightarrow> range_tree s1 ! (length (range_tree s1) - length ys) = hd ys"
    unfolding s1(3) by (simp add: nth_append hd_conv_nth)
  have m: "(if a < rs_start r then rs_start r else a) = m" unfolding m_def by auto
  have "try_remove_loop (Suc (length ys)) a b s =
      (if ys \<noteq> [] \<and> rs_start (hd ys) < b \<and> e < b
       then do { (cbs', a', s') \<leftarrow> try_remove_loop (length ys) e b s1; Some (?cbs @ cbs', a', s') }
       else Some (?cbs, e, s1))"
    using s1(1) sub next_rs m unfolding try_remove_loop.simps Let_def
    by (cases "a < rs_start r"; cases "ys = []") (simp_all add: rt nth_append flip: e_def)
  then show thesis by (rule that [OF s1(2-4) F t])
qed

lemma try_remove_loop_ok:
  assumes "avl_ok s" and "range_tree s = xs @ r # ys" and "\<forall>q\<in>set xs. rs_end q \<le> a" and "a < rs_end r" and "rs_start r < b"
    and "a < b" and "b \<le> num_total s"
  shows "\<exists>cbs a' s'. try_remove_loop (Suc (length ys)) a b s = Some (cbs, a', s') \<and> avl_ok s' \<and> a' \<le> b \<and>
    tiles (free_bytes (range_tree s)) a cbs a' \<and> {a'..<b} \<inter> free_bytes (range_tree s) = {} \<and>
    free_bytes (range_tree s') = free_bytes (range_tree s) - {a..<b} \<and> num_total s' = num_total s"
  using assms
proof (induction "length ys" arbitrary: s xs r ys a rule: less_induct)
  case less
  let ?e = "min (rs_end r) b" and ?m = "max a (rs_start r)" and ?F = "free_bytes (range_tree s)"
  obtain s1 cbs where s1: "avl_ok s1" "range_tree s1 = xs @ removed r ?m ?e @ ys" "num_total s1 = num_total s"
      "free_bytes (range_tree s1) = ?F - {a..<?e}" and t: "tiles ?F a cbs ?e"
    and loop: "try_remove_loop (Suc (length ys)) a b s =
      (if ys \<noteq> [] \<and> rs_start (hd ys) < b \<and> ?e < b
       then do { (cbs', a', s') \<leftarrow> try_remove_loop (length ys) ?e b s1; Some (cbs @ cbs', a', s') }
       else Some (cbs, ?e, s1))"
    by (rule try_remove_step [OF less.prems])
  have wf: "segs_wf (num_total s) (xs @ r # ys)" using less.prems(1,2) by (simp add: avl_ok_def)
  have split: "{a..<b} = {a..<?e} \<union> {?e..<b}" using less.prems(4,6) by (intro ivl_disj_un_two(3) [symmetric]) simp_all
  show ?case
  proof (cases "ys \<noteq> [] \<and> rs_start (hd ys) < b \<and> ?e < b")
    case True
    then obtain y ys' where ys: "ys = y # ys'" by (cases ys) auto
    have e: "?e = rs_end r" using True by (simp add: min_def split: if_splits)
    have rt: "range_tree s1 = (xs @ removed r ?m ?e) @ y # ys'" using s1(2) ys by simp
    have prev: "\<forall>q\<in>set (xs @ removed r ?m ?e). rs_end q \<le> ?e"
      using less.prems(3,4) wf unfolding e by (fastforce simp: removed_def)
    obtain cbs' a' s' where r: "try_remove_loop (length ys) ?e b s1 = Some (cbs', a', s')" "avl_ok s'" "a' \<le> b"
        "tiles (free_bytes (range_tree s1)) ?e cbs' a'" "{a'..<b} \<inter> free_bytes (range_tree s1) = {}"
        "free_bytes (range_tree s') = free_bytes (range_tree s1) - {?e..<b}" "num_total s' = num_total s1"
      using less.hyps [OF _ s1(1) rt prev] True ys wf s1(3) less.prems(7) by auto
    have "tiles ?F ?e cbs' a'" by (rule tiles_cong [OF r(4)]) (use s1(4) in auto)
    then have "tiles ?F a (cbs @ cbs') a'" by (rule tiles_append [OF t])
    moreover have "rs_end r \<le> a'" using tiles_mono [OF r(4)] unfolding e .
    then have "{a'..<b} \<inter> {a..<?e} = {}" unfolding e by auto
    then have "{a'..<b} \<inter> ?F = {}" using r(5) unfolding s1(4) by blast
    moreover have "free_bytes (range_tree s') = ?F - {a..<b}" unfolding r(6) s1(4) split by blast
    ultimately show ?thesis using loop True r s1(3) by simp
  next
    case False
    have "{?e..<b} \<inter> ?F = {}"
    proof (cases "?e < b")
      case True
      then have e: "?e = rs_end r" and hd: "ys = [] \<or> b \<le> rs_start (hd ys)" using False by auto
      have "rs_end q \<le> rs_end r \<or> b \<le> rs_start q" if "q \<in> set (range_tree s)" for q
      proof (cases ys)
        case (Cons y ys')
        then show ?thesis using that wf hd unfolding less.prems(2) by fastforce
      qed (use that wf in \<open>fastforce simp: less.prems(2)\<close>)
      then show ?thesis unfolding e by (force simp: free_bytes_def seg_bytes_def)
    qed simp
    moreover from this have "free_bytes (range_tree s1) = ?F - {a..<b}" unfolding s1(4) split by blast
    ultimately show ?thesis using loop False t s1 by (auto simp: if_False)
  qed
qed

lemma try_remove_ok:
  assumes ok: "avl_ok s" and "0 < len" and "a + len \<le> num_total s"
  shows "\<exists>cbs s'. try_remove_from_tree a len s = Some (cbs, s') \<and> avl_ok s' \<and>
    tiles (free_bytes (range_tree s)) a cbs (a + len) \<and>
    free_bytes (range_tree s') = free_bytes (range_tree s) - {a..<a + len}"
proof -
  let ?F = "free_bytes (range_tree s)" and ?i = "length (takeWhile (\<lambda>r. rs_end r \<le> a) (range_tree s))"
  have wf: "segs_wf (num_total s) (range_tree s)" and n: "num_total s < two64"
    using ok avl_ok_sizes(1) by (auto simp: avl_ok_def)
  have stop: "add64 a len = a + len" using assms(3) n by (intro add64_eq) linarith
  show ?thesis
  proof (cases "?i < length (range_tree s) \<and> rs_start (range_tree s ! ?i) < a + len")
    case True
    define xs ys where "xs = take ?i (range_tree s)" and "ys = drop (Suc ?i) (range_tree s)"
    let ?r = "range_tree s ! ?i"
    have rt: "range_tree s = xs @ ?r # ys" unfolding xs_def ys_def using True by (simp add: id_take_nth_drop)
    have xs: "\<forall>q\<in>set xs. rs_end q \<le> a" unfolding xs_def by (metis set_takeWhileD takeWhile_eq_take)
    have r: "a < rs_end ?r" using nth_length_takeWhile [of "\<lambda>r. rs_end r \<le> a" "range_tree s"] True by simp
    have k: "length (range_tree s) - ?i = Suc (length ys)" unfolding ys_def using True by (simp add: Suc_diff_Suc)
    obtain cbs a' s' where l: "try_remove_loop (Suc (length ys)) a (a + len) s = Some (cbs, a', s')" "avl_ok s'" "a' \<le> a + len"
        "tiles ?F a cbs a'" "{a'..<a + len} \<inter> ?F = {}" "free_bytes (range_tree s') = ?F - {a..<a + len}"
      using try_remove_loop_ok [OF ok rt xs r, of "a + len"] True assms by auto
    have "find_range a (a + len) (range_tree s) = Some ?i" using True by (simp add: find_range_def Let_def)
    then have "try_remove_from_tree a len s = Some (if a' < a + len then (cbs @ [(a', a + len - a', False)], s') else (cbs, s'))"
      using l(1) assms True k n by (simp add: try_remove_from_tree_def Let_def stop u64_simps)
    moreover have "tiles ?F a (if a' < a + len then cbs @ [(a', a + len - a', False)] else cbs) (a + len)"
      using tiles_append [OF l(4), of "[(a', a + len - a', False)]"] l(3-5) by auto
    ultimately show ?thesis using l(2,6) by (cases "a' < a + len") auto
  next
    case False
    let ?P = "\<lambda>r. rs_end r \<le> a"
    have none: "find_range a (a + len) (range_tree s) = None" using False by (auto simp: find_range_def Let_def)
    have "rs_end q \<le> a \<or> a + len \<le> rs_start q" if q: "q \<in> set (range_tree s)" for q
    proof (cases "dropWhile ?P (range_tree s)")
      case Nil
      then show ?thesis using q by (simp add: dropWhile_eq_Nil_conv)
    next
      case (Cons y ys)
      then have rt: "range_tree s = takeWhile ?P (range_tree s) @ y # ys" by (metis takeWhile_dropWhile_id)
      then have "?i < length (range_tree s) \<and> range_tree s ! ?i = y"
        by (metis length_append less_add_same_cancel1 length_greater_0_conv list.distinct(1) nth_append_length)
      then have y: "a + len \<le> rs_start y" using False by auto
      have "q \<in> set (takeWhile ?P (range_tree s)) \<or> q \<in> set (y # ys)" using q rt by (metis Un_iff set_append)
      moreover have "segs_wf (num_total s) (y # ys)" using wf rt by (metis segs_wf_append)
      ultimately show ?thesis using y by (fastforce dest: set_takeWhileD)
    qed
    then have "{a..<a + len} \<inter> ?F = {}" by (force simp: free_bytes_def seg_bytes_def)
    then show ?thesis using none assms(2) ok by (auto simp: try_remove_from_tree_def Let_def stop)
  qed
qed

subsection \<open>Choosing a block\<close>

text \<open>A block that may be handed out: aligned, and free.\<close>

definition block_ok :: "avl_allocator \<Rightarrow> nat \<Rightarrow> nat \<Rightarrow> nat \<Rightarrow> bool" where
  "block_ok s unit off len \<longleftrightarrow> unit dvd off \<and> {off..<off + len} \<subseteq> free_bytes (range_tree s)"

text \<open>The requests that the choice is made for: a power of two, at most the largest device, as the unit.\<close>

definition unit_ok :: "nat \<Rightarrow> bool" where
  "unit_ok unit \<longleftrightarrow> (\<exists>k<64. unit = 2 ^ k)"

lemma unit_pos: "unit_ok unit \<Longrightarrow> 0 < unit"
  by (auto simp: unit_ok_def)

lemma unit_ok_isp2: "isp2 unit \<Longrightarrow> 0 < unit \<Longrightarrow> unit < two64 \<Longrightarrow> unit_ok unit"
  by (metis isp2_power unit_ok_def)

lemma roundup_ok:
  assumes "unit_ok unit" and "x < 2 ^ 63"
  shows "unit dvd p2roundup x unit" and "x \<le> p2roundup x unit" and "p2roundup x unit \<le> 2 ^ 63"
    and "x \<le> y \<Longrightarrow> unit dvd y \<Longrightarrow> p2roundup x unit \<le> y"
proof -
  obtain k where k: "k < 64" "unit = 2 ^ k" using assms(1) by (auto simp: unit_ok_def)
  have "(2::nat) ^ k \<le> 2 ^ 63" using k(1) by (intro power_increasing) simp_all
  then have x: "x \<le> two64 - 2 ^ k" using assms(2) by (simp add: two64_def)
  show "unit dvd p2roundup x unit" "x \<le> p2roundup x unit" using p2roundup_props [OF k(1) x] k(2) by simp_all
  show least: "p2roundup x unit \<le> y" if "x \<le> y" "unit dvd y" for y using p2roundup_least [OF k(1) x] that k(2) by simp
  have "unit dvd 2 ^ 63" unfolding k(2) using k(1) by (intro le_imp_power_dvd) simp
  then show "p2roundup x unit \<le> 2 ^ 63" using assms(2) by (intro least less_imp_le)
qed

lemma fitting_block:
  assumes ok: "avl_ok s" and u: "unit_ok unit" and sz: "sz < 2 ^ 63" and r: "r \<in> set (range_tree s)"
  shows "add64 (p2roundup (rs_start r) unit) sz = p2roundup (rs_start r) unit + sz"
    and "p2roundup (rs_start r) unit + sz \<le> rs_end r \<Longrightarrow>
      block_ok s unit (p2roundup (rs_start r) unit) sz \<and> p2roundup (rs_start r) unit \<noteq> NO_BLOCK"
proof -
  have n: "num_total s < 2 ^ 63" and wf: "segs_wf (num_total s) (range_tree s)" using ok by (simp_all add: avl_ok_def)
  have x: "rs_start r < 2 ^ 63" using segs_wf_mem [OF wf r] n by linarith
  note ru = roundup_ok [OF u x]
  have "p2roundup (rs_start r) unit + sz < 2 ^ 63 + 2 ^ 63" using ru(3) sz by (intro add_le_less_mono)
  then show "add64 (p2roundup (rs_start r) unit) sz = p2roundup (rs_start r) unit + sz"
    by (intro add64_eq) (simp add: two64_def)
  show "block_ok s unit (p2roundup (rs_start r) unit) sz \<and> p2roundup (rs_start r) unit \<noteq> NO_BLOCK"
    if fit: "p2roundup (rs_start r) unit + sz \<le> rs_end r"
  proof
    show "block_ok s unit (p2roundup (rs_start r) unit) sz"
      unfolding block_ok_def using ru(1) seg_subset [OF r ru(2) fit] by blast
    have "p2roundup (rs_start r) unit \<le> 2 ^ 63" by (rule ru(3))
    then show "p2roundup (rs_start r) unit \<noteq> NO_BLOCK" by (auto simp: NO_BLOCK_def two64_def)
  qed
qed

lemma pick_scan_ok:
  assumes "avl_ok s" and "unit_ok unit" and "sz < 2 ^ 63"
  shows "set rest \<subseteq> set (range_tree s) \<Longrightarrow> pick_scan s sz unit dist rest cursor cnt bytes = Inl (off, c) \<Longrightarrow>
    off \<noteq> NO_BLOCK \<Longrightarrow> block_ok s unit off sz"
proof (induction rest arbitrary: cursor cnt bytes)
  case (Cons rs rest)
  have "rs \<in> set (range_tree s)" using Cons.prems(1) by simp
  note fit = fitting_block [OF assms this]
  show ?case
  proof (cases "p2roundup (rs_start rs) unit + sz \<le> rs_end rs")
    case True
    then show ?thesis using Cons.prems(2) fit by (auto simp: Let_def)
  next
    case False
    then obtain count' where "pick_scan s sz unit dist rest (p2roundup (rs_start rs) unit + sz) count' (dist (rs_start rs)) = Inl (off, c)"
      using Cons.prems(2,3) fit(1) unfolding pick_scan.simps Let_def by (auto split: if_split_asm)
    then show ?thesis using Cons.IH Cons.prems by simp
  qed
qed simp

lemma pick_block_after_ok:
  assumes "avl_ok s" and "unit_ok unit" and "sz < 2 ^ 63"
    and "pick_block_after cursor sz unit s = (off, c)" and "off \<noteq> NO_BLOCK"
  shows "block_ok s unit off sz"
proof -
  let ?i = "length (takeWhile (\<lambda>r. rs_end r \<le> cursor) (range_tree s))"
  have sub: "set (drop ?i (range_tree s)) \<subseteq> set (range_tree s)" "set (take ?i (range_tree s)) \<subseteq> set (range_tree s)"
    by (simp_all add: set_drop_subset set_take_subset)
  show ?thesis
    using assms(4,5) pick_scan_ok [OF assms(1-3) sub(1)] pick_scan_ok [OF assms(1-3) sub(2)]
    unfolding pick_block_after_def Let_def by (auto split: sum.splits prod.splits if_splits)
qed

text \<open>Best fit finds a block whenever there is one of that size.\<close>

lemma sorted_dropWhile_lengths:
  "sorted (map seg_key st) \<Longrightarrow> dropWhile (\<lambda>r. rs_length r < n) st = filter (\<lambda>r. n \<le> rs_length r) st"
proof (induction st)
  case (Cons r st)
  show ?case
  proof (cases "rs_length r < n")
    case False
    have "n \<le> rs_length q" if "q \<in> set st" for q
      using Cons.prems that False by (fastforce simp: seg_key_def)
    then have "filter (\<lambda>r. n \<le> rs_length r) st = st" by (simp add: filter_id_conv)
    then show ?thesis using False by simp
  qed (use Cons in simp)
qed simp

lemma pick_block_fits_ok:
  assumes ok: "avl_ok s" and u: "unit_ok unit" and sz: "sz < 2 ^ 63" "0 < sz"
  shows "if \<exists>off. block_ok s unit off sz then block_ok s unit (pick_block_fits sz unit s) sz \<and> pick_block_fits sz unit s \<noteq> NO_BLOCK
    else pick_block_fits sz unit s = NO_BLOCK"
proof -
  let ?fit = "\<lambda>rs. add64 (p2roundup (rs_start rs) unit) sz \<le> rs_end rs" and ?st = "range_size_tree s"
  have st: "sorted (map seg_key ?st)" "set ?st = set (range_tree s)"
    using ok mset_eq_setD by (auto simp: avl_ok_def in_step_def)
  have n: "num_total s < 2 ^ 63" and wf: "segs_wf (num_total s) (range_tree s)" using ok by (simp_all add: avl_ok_def)
  have eq: "pick_block_fits sz unit s =
      (case find ?fit (filter (\<lambda>r. sz \<le> rs_length r) ?st) of Some rs \<Rightarrow> p2roundup (rs_start rs) unit | None \<Rightarrow> NO_BLOCK)"
    by (simp add: pick_block_fits_def sorted_dropWhile_lengths [OF st(1)])
  have some: "find ?fit (filter (\<lambda>r. sz \<le> rs_length r) ?st) \<noteq> None" if b: "block_ok s unit off sz" for off
  proof -
    obtain r where r: "r \<in> set (range_tree s)" "rs_start r \<le> off" "off + sz \<le> rs_end r"
      using run_in_seg [OF wf, of off "off + sz"] b sz(2) by (auto simp: block_ok_def)
    note m = segs_wf_mem [OF wf r(1)]
    have "p2roundup (rs_start r) unit \<le> off" using roundup_ok(4) [OF u _ r(2)] b m n by (simp add: block_ok_def)
    then have "?fit r" using fitting_block(1) [OF ok u sz(1) r(1)] r(3) by simp
    moreover have "sz \<le> rs_length r" using r m n two64_big by (subst seg_length) linarith+
    ultimately show ?thesis using r(1) st(2) by (auto simp: find_None_iff)
  qed
  show ?thesis
  proof (cases "find ?fit (filter (\<lambda>r. sz \<le> rs_length r) ?st)")
    case None
    then show ?thesis using some eq by auto
  next
    case (Some rs)
    then have rs: "rs \<in> set (range_tree s)" "?fit rs" using st(2) by (auto simp: find_Some_iff dest: nth_mem)
    then show ?thesis using fitting_block [OF ok u sz(1) rs(1)] Some eq by auto
  qed
qed

text \<open>The loop over smaller sizes gives up only when not even one aligned unit is free.\<close>

lemma fits_loop_ok:
  assumes ok: "avl_ok s" and u: "unit_ok unit"
  shows "sz < 2 ^ 63 \<Longrightarrow> 0 < sz \<Longrightarrow> fits_loop sz unit s = (off, len) \<Longrightarrow>
    (if off = NO_BLOCK then unit dvd sz \<longrightarrow> \<not> (\<exists>off. block_ok s unit off unit)
     else block_ok s unit off len \<and> (unit dvd sz \<longrightarrow> unit dvd len))"
proof (induction sz rule: less_induct)
  case (less sz)
  obtain k where k: "k < 64" "unit = 2 ^ k" using u by (auto simp: unit_ok_def)
  let ?sz = "p2align (sz div 2) unit"
  have half: "sz div 2 < two64" using less.prems(1) two64_big by linarith
  have al: "unit dvd ?sz" "y \<le> sz div 2 \<Longrightarrow> unit dvd y \<Longrightarrow> y \<le> ?sz" for y
    using p2align_props [OF half k(1)] k(2) by simp_all
  have sz': "?sz \<le> sz div 2" by (rule p2align_le)
  note best = pick_block_fits_ok [OF ok u less.prems(1,2)]
  show ?case
  proof (cases "pick_block_fits sz unit s = NO_BLOCK")
    case False
    then show ?thesis using less.prems(3) best unfolding fits_loop.simps [of sz unit s]
      by (auto simp: Let_def split: if_splits)
  next
    case none: True
    show ?thesis
    proof (cases "?sz \<ge> unit \<and> 0 < ?sz")
      case True
      then have "fits_loop ?sz unit s = (off, len)"
        using less.prems(3) none unfolding fits_loop.simps [of sz unit s] by (simp add: Let_def)
      moreover have "?sz < sz" "?sz < 2 ^ 63" using sz' less.prems by linarith+
      ultimately show ?thesis using less.IH [of ?sz] True al(1) by (auto split: if_splits)
    next
      case False
      then have "off = NO_BLOCK" using less.prems(3) none unfolding fits_loop.simps [of sz unit s] by (auto simp: Let_def)
      moreover have "\<not> (\<exists>off. block_ok s unit off unit)" if d: "unit dvd sz"
      proof -
        have "\<not> unit \<le> sz div 2" using al(2) [of unit] False unit_pos [OF u] by auto
        then have "sz < 2 * unit" by linarith
        then have "sz = unit" using d less.prems(2) by (auto elim!: dvdE)
        then show ?thesis using best none by (auto split: if_splits)
      qed
      ultimately show ?thesis by simp
    qed
  qed
qed

subsection \<open>Allocating one block\<close>

lemma avl_ok_lbas: "avl_ok s \<Longrightarrow> avl_ok (s\<lparr>lbas := (lbas s)[i := v]\<rparr>)"
  by (simp add: avl_ok_def in_step_def)

lemma largest_size_ge:
  assumes "avl_ok s" and "r \<in> set (range_tree s)"
  shows "rs_end r - rs_start r \<le> largest_size s"
proof -
  let ?st = "range_size_tree s"
  have st: "sorted (map seg_key ?st)" "set ?st = set (range_tree s)"
    using assms(1) mset_eq_setD by (auto simp: avl_ok_def in_step_def)
  have m: "rs_start r < rs_end r" "rs_end r < two64"
    using assms segs_wf_mem [of "num_total s" "range_tree s" r] two64_big by (auto simp: avl_ok_def)
  have "r \<in> set ?st" using assms(2) st(2) by simp
  then obtain i where i: "i < length ?st" "r = ?st ! i" by (auto simp: in_set_conv_nth)
  then have "?st \<noteq> []" by auto
  then have "seg_key r \<le> seg_key (last ?st)"
    using sorted_nth_mono [OF st(1), of i "length ?st - 1"] i by (simp add: last_conv_nth)
  then have "rs_length r \<le> rs_length (last ?st)" by (auto simp: seg_key_def)
  then show ?thesis using i m seg_length [of r] by (auto simp: largest_size_def)
qed

lemma block_ok_largest:
  assumes "avl_ok s" and "block_ok s unit off len" and "0 < len"
  shows "len \<le> largest_size s"
proof -
  obtain r where "r \<in> set (range_tree s)" "rs_start r \<le> off" "off + len \<le> rs_end r"
    using run_in_seg [of "num_total s" "range_tree s" off "off + len"] assms by (auto simp: block_ok_def avl_ok_def)
  then show ?thesis using largest_size_ge [OF assms(1), of r] by linarith
qed

lemma first_fit_ok:
  assumes ok: "avl_ok s" and u: "unit_ok unit" and sz: "0 < sz" "sz < 2 ^ 63"
  obtains start s1 where "first_fit force mx sz unit s = Some (start, s1)" and "avl_ok s1"
    and "range_tree s1 = range_tree s" and "num_total s1 = num_total s" and "block_size s1 = block_size s"
    and "start = NO_BLOCK \<or> block_ok s1 unit start sz"
proof (cases "first_fit force mx sz unit s = Some (NO_BLOCK, s)")
  case True
  then show thesis by (rule that) (use ok in auto)
next
  case False
  let ?ix = "cbits (sz AND neg64 sz) - 1"
  obtain start c where p: "pick_block_after (lbas s ! ?ix) sz unit s = (start, c)" by fastforce
  let ?s = "s\<lparr>lbas := (lbas s)[?ix := c]\<rparr>"
  have "sz AND neg64 sz \<noteq> 0" using sz two64_big by (intro low_bit_pos) linarith+
  then have "first_fit force mx sz unit s = Some (start, ?s)"
    using False p unfolding first_fit_def Let_def by (auto split: if_split_asm)
  moreover have "start = NO_BLOCK \<or> block_ok ?s unit start sz"
    using pick_block_after_ok [OF ok u sz(2) p] by (auto simp: block_ok_def)
  ultimately show thesis using avl_ok_lbas [OF ok] by (intro that [of start ?s]) simp_all
qed

text \<open>One block is aligned, free and no larger than asked for; without one, no aligned unit is free.\<close>

definition block_taken :: "nat \<Rightarrow> nat \<Rightarrow> avl_allocator \<Rightarrow> (nat \<times> nat) option \<Rightarrow> avl_allocator \<Rightarrow> bool" where
  "block_taken sz unit s res s' \<longleftrightarrow> avl_ok s' \<and> num_total s' = num_total s \<and> block_size s' = block_size s \<and>
     (case res of
        None \<Rightarrow> range_tree s' = range_tree s \<and> (unit dvd sz \<longrightarrow> \<not> (\<exists>off. block_ok s unit off unit))
      | Some (off, len) \<Rightarrow> block_ok s unit off len \<and> 0 < len \<and> len \<le> sz \<and> (unit dvd sz \<longrightarrow> unit dvd len) \<and>
          free_bytes (range_tree s') = free_bytes (range_tree s) - {off..<off + len})"

lemma take_block_ok:
  assumes ok: "avl_ok s" and u: "unit_ok unit" and sz: "0 < sz" "sz < 2 ^ 63"
    and start: "start = NO_BLOCK \<or> block_ok s unit start sz"
  shows "\<exists>res s'. take_block start sz unit s = Some (res, s') \<and>
    avl_ok s' \<and> num_total s' = num_total s \<and> block_size s' = block_size s \<and>
     (case res of
        None \<Rightarrow> s' = s \<and> (unit dvd sz \<longrightarrow> \<not> (\<exists>off. block_ok s unit off unit))
      | Some (off, len) \<Rightarrow> block_ok s unit off len \<and> (unit dvd sz \<longrightarrow> unit dvd len) \<and>
          free_bytes (range_tree s') = free_bytes (range_tree s) - {off..<off + len})"
proof -
  obtain off len where f: "(if start = NO_BLOCK then fits_loop sz unit s else (start, sz)) = (off, len)" by fastforce
  have pos: "0 < len" if "off \<noteq> NO_BLOCK"
    using fits_loop_pos [of unit sz s] unit_pos [OF u] sz(1) f that by (auto split: if_splits)
  show ?thesis
  proof (cases "off = NO_BLOCK")
    case True
    then have "fits_loop sz unit s = (NO_BLOCK, len)" using f by (auto split: if_splits)
    from fits_loop_ok [OF ok u sz(2,1) this] True f ok show ?thesis by (simp add: take_block_def)
  next
    case False
    have b: "block_ok s unit off len" "unit dvd sz \<longrightarrow> unit dvd len"
      using fits_loop_ok [OF ok u sz(2,1), of off len] f False start by (auto split: if_splits)
    obtain s' where "remove_from_tree off len s = Some s'" "avl_ok s'"
        "free_bytes (range_tree s') = free_bytes (range_tree s) - {off..<off + len}"
        "num_total s' = num_total s" "block_size s' = block_size s"
      by (rule remove_from_tree_ok [OF ok pos [OF False]]) (use b(1) in \<open>auto simp: block_ok_def\<close>)
    then show ?thesis using b f False by (simp add: take_block_def)
  qed
qed

lemma allocate_block_ok:
  assumes ok: "avl_ok s" and u: "unit_ok unit" and sz: "0 < sz" "sz < 2 ^ 63"
  shows "\<exists>res s'. allocate_block sz unit s = Some (res, s') \<and> block_taken sz unit s res s'"
proof -
  let ?max = "largest_size s"
  obtain k where k: "k < 64" "unit = 2 ^ k" using u by (auto simp: unit_ok_def)
  show ?thesis
  proof (cases "?max < sz \<and> ?max < unit")
    case True
    then have "\<not> (\<exists>off. block_ok s unit off unit)" using block_ok_largest [OF ok _ unit_pos [OF u]] by auto
    then show ?thesis using True ok by (auto simp: allocate_block_def Let_def block_taken_def)
  next
    case False
    let ?sz = "if ?max < sz then p2align ?max unit else sz"
    have p: "unit \<le> p2align ?max unit" "unit dvd p2align ?max unit" if "?max < sz"
      using p2align_props [of ?max k] that sz two64_big False k by auto
    have sz': "0 < ?sz" "?sz \<le> sz" "?sz < 2 ^ 63" "unit dvd sz \<Longrightarrow> unit dvd ?sz"
      using p unit_pos [OF u] sz p2align_le [of ?max unit] by (auto split: if_splits)
    obtain start s1 where ff: "first_fit (?max < sz) ?max ?sz unit s = Some (start, s1)" "avl_ok s1"
        "range_tree s1 = range_tree s" "num_total s1 = num_total s" "block_size s1 = block_size s"
        "start = NO_BLOCK \<or> block_ok s1 unit start ?sz"
      by (rule first_fit_ok [OF ok u sz'(1,3), of "?max < sz" ?max])
    have eq: "allocate_block sz unit s = take_block start ?sz unit s1"
      unfolding allocate_block_def Let_def using False sz'(1) ff(1) by (simp split: if_split_asm)
    obtain res s' where t: "take_block start ?sz unit s1 = Some (res, s')" "avl_ok s'" "num_total s' = num_total s1"
        "block_size s' = block_size s1"
        "case res of None \<Rightarrow> s' = s1 \<and> (unit dvd ?sz \<longrightarrow> \<not> (\<exists>off. block_ok s1 unit off unit))
          | Some (off, len) \<Rightarrow> block_ok s1 unit off len \<and> (unit dvd ?sz \<longrightarrow> unit dvd len) \<and>
          free_bytes (range_tree s') = free_bytes (range_tree s1) - {off..<off + len}"
      using take_block_ok [OF ff(2) u sz'(1,3) ff(6)] by blast
    have "block_taken sz unit s res s'"
      using t ff(3-5) sz'(4) allocate_block_progress [of sz unit s] eq
      by (auto simp: block_taken_def block_ok_def split: option.splits)
    then show ?thesis using eq t(1) by auto
  qed
qed

subsection \<open>Allocating many\<close>

text \<open>The blocks a request gets: they are what leaves the free set, one by one.\<close>

definition bytes_of :: "(nat \<times> nat) list \<Rightarrow> nat set" where
  "bytes_of es = (\<Union>(off, len)\<in>set es. {off..<off + len})"

fun carved :: "nat \<Rightarrow> nat \<Rightarrow> nat set \<Rightarrow> (nat \<times> nat) list \<Rightarrow> nat set \<Rightarrow> bool" where
  "carved unit mx F [] F' \<longleftrightarrow> F' = F"
| "carved unit mx F ((off, len) # es) F' \<longleftrightarrow> unit dvd off \<and> 0 < len \<and> len \<le> mx \<and> {off..<off + len} \<subseteq> F \<and>
     carved unit mx (F - {off..<off + len}) es F'"

lemma carved_bytes: "carved unit mx F es F' \<Longrightarrow> bytes_of es \<subseteq> F \<and> F' = F - bytes_of es"
  by (induction unit mx F es F' rule: carved.induct) (auto simp: bytes_of_def)

lemma carved_disjoint:
  "carved unit mx F es F' \<Longrightarrow> sorted_wrt (\<lambda>a b. {fst a..<fst a + snd a} \<inter> {fst b..<fst b + snd b} = {}) es"
proof (induction unit mx F es F' rule: carved.induct)
  case (2 unit mx F off len es F')
  then have sub: "bytes_of es \<subseteq> F - {off..<off + len}" using carved_bytes [of unit mx "F - {off..<off + len}" es F'] by simp
  have "{off..<off + len} \<inter> {fst e..<fst e + snd e} = {}" if "e \<in> set es" for e
  proof -
    have "{fst e..<fst e + snd e} \<subseteq> bytes_of es" unfolding bytes_of_def using that by (auto simp: case_prod_beta)
    with sub show ?thesis by blast
  qed
  then show ?case using 2 by simp
qed simp

lemma carved_each: "carved unit mx F es F' \<Longrightarrow> list_all (\<lambda>(off, len). unit dvd off \<and> 0 < len \<and> len \<le> mx) es"
  by (induction unit mx F es F' rule: carved.induct) auto

lemma carved_sum: "carved unit mx F es F' \<Longrightarrow> finite F \<Longrightarrow> card F = card F' + sum_list (map snd es)"
proof (induction unit mx F es F' rule: carved.induct)
  case (2 unit mx F off len es F')
  then have "card F = card (F - {off..<off + len}) + len"
    using card_Diff_subset [of "{off..<off + len}" F] card_mono [of F "{off..<off + len}"] by simp
  then show ?case using 2 by simp
qed simp

lemma allocate_loop_ok:
  assumes "avl_ok s" and "unit_ok unit" and "0 < mx" and "mx < two32" and "allocated \<le> want"
  shows "\<exists>n es s'. allocate_loop want unit mx allocated extents s = Some (allocated + n, extents @ es, s') \<and>
    avl_ok s' \<and> num_total s' = num_total s \<and> block_size s' = block_size s \<and>
    carved unit mx (free_bytes (range_tree s)) es (free_bytes (range_tree s')) \<and>
    n = sum_list (map snd es) \<and> allocated + n \<le> want \<and>
    (unit dvd mx \<and> unit dvd want - allocated \<and> allocated + n < want \<longrightarrow> \<not> (\<exists>off. block_ok s' unit off unit))"
  using assms
proof (induction want unit mx allocated extents s rule: allocate_loop.induct)
  case (1 want unit mx allocated extents s)
  note eq = allocate_loop.simps [of want unit mx allocated extents s]
  show ?case
  proof (cases "allocated < want")
    case False
    then show ?thesis using 1(2,6) unfolding eq by (intro exI [of _ 0] exI [of _ "[]"] exI [of _ s]) simp
  next
    case True
    let ?sz = "min mx (want - allocated)"
    have "(2::nat) ^ 32 < 2 ^ 63" by simp
    then have sz: "0 < ?sz" "?sz < 2 ^ 63" using True 1(4,5) by (auto simp: two32_def)
    obtain res s1 where a: "allocate_block ?sz unit s = Some (res, s1)" "block_taken ?sz unit s res s1"
      using allocate_block_ok [OF 1(2,3) sz] by blast
    show ?thesis
    proof (cases res)
      case None
      then have "\<not> (\<exists>off. block_ok s1 unit off unit)" if "unit dvd mx" "unit dvd want - allocated"
        using a(2) that by (auto simp: block_taken_def block_ok_def min_def)
      then show ?thesis using True a None 1(6) unfolding eq
        by (intro exI [of _ 0] exI [of _ "[]"] exI [of _ s1]) (simp add: block_taken_def)
    next
      case (Some e)
      obtain off len where e: "e = (off, len)" by fastforce
      have t: "avl_ok s1" "num_total s1 = num_total s" "block_size s1 = block_size s" "block_ok s unit off len"
          "0 < len" "len \<le> mx" "len \<le> want - allocated" "unit dvd ?sz \<longrightarrow> unit dvd len"
          "free_bytes (range_tree s1) = free_bytes (range_tree s) - {off..<off + len}"
        using a(2) Some e by (auto simp: block_taken_def)
      have al: "allocated + len \<le> want" using True t(7) by linarith
      have l32: "len mod two32 = len" using t(6) 1(5) by simp
      obtain n es s' where r: "allocate_loop want unit mx (allocated + len) (extents @ [(off, len)]) s1 =
            Some (allocated + len + n, (extents @ [(off, len)]) @ es, s')"
          "avl_ok s'" "num_total s' = num_total s1" "block_size s' = block_size s1"
          "carved unit mx (free_bytes (range_tree s1)) es (free_bytes (range_tree s'))"
          "n = sum_list (map snd es)" "allocated + len + n \<le> want"
          "unit dvd mx \<and> unit dvd want - (allocated + len) \<and> allocated + len + n < want \<longrightarrow> \<not> (\<exists>off. block_ok s' unit off unit)"
        using 1(1) [OF _ a(1) refl Some e [symmetric] t(1) 1(3-5)] True al unfolding l32 by blast
      have "unit dvd want - (allocated + len)" if "unit dvd mx" "unit dvd want - allocated"
        using that t(8) dvd_diff_nat [OF that(2), of len] by (simp add: min_def split: if_splits)
      then show ?thesis using r t True a(1) Some e l32 unfolding eq
        by (intro exI [of _ "len + n"] exI [of _ "(off, len) # es"] exI [of _ s']) (auto simp: block_ok_def ac_simps)
    qed
  qed
qed

text \<open>What a caller may ask for: sizes in units that are powers of two, on a device whose block size is one.\<close>

definition request_ok :: "avl_allocator \<Rightarrow> nat \<Rightarrow> nat \<Rightarrow> bool" where
  "request_ok s want unit \<longleftrightarrow> isp2 unit \<and> 0 < unit \<and> unit < two64 \<and> unit dvd want \<and>
     isp2 (block_size s) \<and> 0 < block_size s \<and> block_size s < two32"

lemma alloc_cap_bounds:
  assumes "request_ok s want unit" and "0 < want"
  shows "0 < alloc_cap want mx s \<and> alloc_cap want mx s < two32"
proof -
  have b: "isp2 (block_size s)" "0 < block_size s" "block_size s < two32" using assms(1) by (simp_all add: request_ok_def)
  have "two32 < two64" by (simp add: two32_def two64_def)
  then have "block_size s < two64" using b(3) by linarith
  then obtain k where k: "k < 64" "block_size s = 2 ^ k" by (rule isp2_power [OF b(1,2)])
  have "2 ^ k \<le> p2align (two32 - 1) (2 ^ k)"
    using p2align_props(2) [of "two32 - 1" k "2 ^ k"] k b(3) \<open>two32 < two64\<close> by simp
  moreover have "p2align (two32 - 1) (2 ^ k) \<le> two32 - 1" by (rule p2align_le)
  moreover have "(0::nat) < 2 ^ k" "0 < two32" by (simp_all add: two32_def)
  ultimately have "0 < p2align (two32 - 1) (block_size s)" "p2align (two32 - 1) (block_size s) < two32"
    unfolding k(2) by linarith+
  then show ?thesis using assms(2) by (auto simp: alloc_cap_def Let_def)
qed

lemma avl_allocate_loop:
  assumes ok: "avl_ok s" and req: "request_ok s want unit"
  obtains es s' where "avl_allocate want unit mx extents s =
      Some (if es = [] then - 28 else int (sum_list (map snd es)), extents @ es, s')"
    and "avl_ok s'" and "num_total s' = num_total s" and "block_size s' = block_size s"
    and "carved unit (alloc_cap want mx s) (free_bytes (range_tree s)) es (free_bytes (range_tree s'))"
    and "sum_list (map snd es) \<le> want"
    and "unit dvd alloc_cap want mx s \<and> sum_list (map snd es) < want \<longrightarrow> \<not> (\<exists>off. block_ok s' unit off unit)"
proof -
  have u: "unit_ok unit" "unit dvd want" "isp2 unit" "0 < unit" using req unit_ok_isp2 by (simp_all add: request_ok_def)
  have pre: "avl_allocate want unit mx extents s = allocate_bytes want unit (alloc_cap want mx s) extents s"
    using u by (simp add: avl_allocate_def dvd_imp_mod_0)
  show thesis
  proof (cases "want = 0")
    case True
    then have "avl_allocate want unit mx extents s = Some (- 28, extents, s)"
      unfolding pre by (simp add: allocate_bytes_def allocate_loop.simps)
    then show thesis using ok True by (intro that [of "[]" s]) simp_all
  next
    case False
    obtain n es s' where r: "allocate_loop want unit (alloc_cap want mx s) 0 extents s = Some (0 + n, extents @ es, s')"
        "avl_ok s'" "num_total s' = num_total s" "block_size s' = block_size s"
        "carved unit (alloc_cap want mx s) (free_bytes (range_tree s)) es (free_bytes (range_tree s'))"
        "n = sum_list (map snd es)" "0 + n \<le> want"
        "unit dvd alloc_cap want mx s \<and> unit dvd want - 0 \<and> 0 + n < want \<longrightarrow> \<not> (\<exists>off. block_ok s' unit off unit)"
      using allocate_loop_ok [OF ok u(1), of "alloc_cap want mx s" 0 want extents] alloc_cap_bounds [OF req, of mx] False
      by auto
    have "n = 0 \<longleftrightarrow> es = []" using r(5,6) by (cases es) auto
    then have "avl_allocate want unit mx extents s =
        Some (if es = [] then - 28 else int (sum_list (map snd es)), extents @ es, s')"
      unfolding pre allocate_bytes_def using r(1,6) by simp
    then show thesis using r u(2) by (intro that [of es s']) simp_all
  qed
qed

subsection \<open>Releasing\<close>

lemma release_all_ok:
  assumes "avl_ok s" and "\<forall>e\<in>set es. 0 < snd e \<and> iv_stop e \<le> num_total s"
    and "sorted_wrt (\<lambda>a b. {fst a..<iv_stop a} \<inter> {fst b..<iv_stop b} = {}) es"
    and "elems_of es \<inter> free_bytes (range_tree s) = {}"
  shows "\<exists>s'. release_all es s = Some s' \<and> avl_ok s' \<and> free_bytes (range_tree s') = free_bytes (range_tree s) \<union> elems_of es \<and>
    num_total s' = num_total s \<and> block_size s' = block_size s"
  using assms
proof (induction es arbitrary: s)
  case (Cons e es)
  have len: "0 < snd e" "fst e + snd e \<le> num_total s" using Cons.prems(2) by simp_all
  have dis: "{fst e..<fst e + snd e} \<inter> free_bytes (range_tree s) = {}" using Cons.prems(4) by auto
  obtain s1 where s1: "add_to_tree (fst e) (snd e) s = Some s1" "avl_ok s1"
      "free_bytes (range_tree s1) = free_bytes (range_tree s) \<union> {fst e..<iv_stop e}"
      "num_total s1 = num_total s" "block_size s1 = block_size s"
    by (rule add_to_tree_ok [OF Cons.prems(1) len dis])
  have rest: "elems_of es \<inter> {fst e..<iv_stop e} = {}"
  proof -
    have "{fst e..<iv_stop e} \<inter> {fst b..<iv_stop b} = {}" if "b \<in> set es" for b
      using Cons.prems(3) that by (simp only: sorted_wrt.simps)
    then show ?thesis unfolding elems_of_def by blast
  qed
  have "\<exists>s'. release_all es s1 = Some s' \<and> avl_ok s' \<and> free_bytes (range_tree s') = free_bytes (range_tree s1) \<union> elems_of es \<and>
      num_total s' = num_total s1 \<and> block_size s' = block_size s1"
    using Cons.prems(2-4) s1(3,4) rest by (intro Cons.IH [OF s1(2)]) auto
  then show ?case using s1 by auto
qed simp

lemma iv_wf_disjoint: "iv_wf m \<Longrightarrow> sorted_wrt (\<lambda>a b. {fst a..<iv_stop a} \<inter> {fst b..<iv_stop b} = {}) m"
  unfolding iv_wf_def by (rule sorted_wrt_mono_rel [of _ "\<lambda>p q. iv_stop p < fst q"]) auto

lemma avl_release_ok:
  assumes ok: "avl_ok s" and "iset_inv rel" and sub: "elems rel \<subseteq> {..<num_total s} - free_bytes (range_tree s)"
  shows "\<exists>s'. avl_release rel s = Some s' \<and> avl_ok s' \<and> free_bytes (range_tree s') = free_bytes (range_tree s) \<union> elems rel \<and>
    num_total s' = num_total s \<and> block_size s' = block_size s"
  unfolding avl_release_def elems_def
proof (rule release_all_ok [OF ok])
  have wf: "iv_wf (iset_m rel)" using assms(2) by (simp add: iset_inv_def)
  then show "sorted_wrt (\<lambda>a b. {fst a..<iv_stop a} \<inter> {fst b..<iv_stop b} = {}) (iset_m rel)" by (rule iv_wf_disjoint)
  show "elems_of (iset_m rel) \<inter> free_bytes (range_tree s) = {}" using sub by (auto simp: elems_def)
  show "\<forall>e\<in>set (iset_m rel). 0 < snd e \<and> iv_stop e \<le> num_total s"
  proof
    fix e assume e: "e \<in> set (iset_m rel)"
    then have pos: "0 < snd e" using wf by (auto simp: iv_ok_def dest: iv_wf_ok)
    then have "iv_stop e - 1 \<in> elems rel" using e by (auto simp: elems_def elems_of_def intro!: bexI [of _ e])
    then have "iv_stop e - 1 < num_total s" using sub by blast
    then show "0 < snd e \<and> iv_stop e \<le> num_total s" using pos by linarith
  qed
qed

subsection \<open>The allocator in use\<close>

text \<open>The allocator and the bytes its users hold. At first they hold the device; loading the free list, the
  calls of the users and the loading of what is in use move bytes between the two.\<close>

record avl_sys =
  alloc :: avl_allocator
  held :: "nat set"

definition avl_init :: "avl_sys \<Rightarrow> bool" where
  "avl_init s \<longleftrightarrow> (\<exists>n bs thr pct cnt by. alloc s = avl_new n bs thr pct cnt by \<and> held s = {..<n} \<and> n < 2 ^ 63 \<and>
     isp2 bs \<and> 0 < bs \<and> bs < two32)"

inductive avl_step :: "avl_sys \<Rightarrow> avl_sys \<Rightarrow> bool" where
  add_free: "{a..<a + len} \<subseteq> held s \<Longrightarrow> init_add_free a len (alloc s) = Some al \<Longrightarrow>
    avl_step s (s\<lparr>alloc := al, held := held s - {a..<a + len}\<rparr>)"
| rm_free: "a + len < two64 \<Longrightarrow> init_rm_free a len (alloc s) = Some al \<Longrightarrow>
    avl_step s (s\<lparr>alloc := al, held := held s \<union> {a..<a + len}\<rparr>)"
| allocate: "unit < two64 \<Longrightarrow> avl_allocate want unit mx [] (alloc s) = Some (ret, es, al) \<Longrightarrow>
    avl_step s (s\<lparr>alloc := al, held := held s \<union> bytes_of es\<rparr>)"
| release: "iset_inv rel \<Longrightarrow> elems rel \<subseteq> held s \<Longrightarrow> avl_release rel (alloc s) = Some al \<Longrightarrow>
    avl_step s (s\<lparr>alloc := al, held := held s - elems rel\<rparr>)"

definition avl_inv :: "avl_sys \<Rightarrow> bool" where
  "avl_inv s \<longleftrightarrow> avl_ok (alloc s) \<and> held s \<subseteq> {..<num_total (alloc s)} \<and>
     free_bytes (range_tree (alloc s)) = {..<num_total (alloc s)} - held s \<and>
     isp2 (block_size (alloc s)) \<and> 0 < block_size (alloc s) \<and> block_size (alloc s) < two32"

lemma avl_new_ok: "n < 2 ^ 63 \<Longrightarrow> avl_ok (avl_new n bs thr pct cnt by)"
  by (simp add: avl_ok_def in_step_def avl_new_def total_size_def)

lemma avl_inv_init: "avl_init s \<Longrightarrow> avl_inv s"
  using avl_new_ok by (auto simp: avl_init_def avl_inv_def) (auto simp: avl_new_def)

text \<open>An operation that takes \<open>B\<close> out of the free bytes, or puts it there, keeps the invariant.\<close>

lemma avl_inv_move:
  assumes "avl_inv s" and "avl_ok al" and "num_total al = num_total (alloc s)" and "block_size al = block_size (alloc s)"
  shows "B \<subseteq> held s \<Longrightarrow> free_bytes (range_tree al) = free_bytes (range_tree (alloc s)) \<union> B \<Longrightarrow>
      avl_inv (s\<lparr>alloc := al, held := held s - B\<rparr>)"
    and "B \<subseteq> free_bytes (range_tree (alloc s)) \<Longrightarrow> free_bytes (range_tree al) = free_bytes (range_tree (alloc s)) - B \<Longrightarrow>
      avl_inv (s\<lparr>alloc := al, held := held s \<union> B\<rparr>)"
  using assms by (auto simp: avl_inv_def)

lemma avl_inv_step: "avl_step s t \<Longrightarrow> avl_inv s \<Longrightarrow> avl_inv t"
proof (induction rule: avl_step.induct)
  case (add_free a len s al)
  show ?case
  proof (cases "len = 0")
    case True
    then show ?thesis using add_free by (simp add: init_add_free_def avl_inv_def)
  next
    case False
    have le: "a + len \<le> num_total (alloc s)"
    proof -
      have "a + len - 1 \<in> {a..<a + len}" using False by simp
      then have "a + len - 1 < num_total (alloc s)" using add_free(1,3) by (auto simp: avl_inv_def)
      then show ?thesis by linarith
    qed
    have "{a..<a + len} \<inter> free_bytes (range_tree (alloc s)) = {}" using add_free(1,3) by (auto simp: avl_inv_def)
    then obtain al' where "add_to_tree a len (alloc s) = Some al'" "avl_ok al'"
        "free_bytes (range_tree al') = free_bytes (range_tree (alloc s)) \<union> {a..<a + len}"
        "num_total al' = num_total (alloc s)" "block_size al' = block_size (alloc s)"
      using add_to_tree_ok [of "alloc s" len a] add_free(3) False le by (metis avl_inv_def neq0_conv)
    then show ?thesis using add_free False avl_inv_move(1) [OF add_free(3)] by (simp add: init_add_free_def)
  qed
next
  case (rm_free a len s al)
  show ?case
  proof (cases "len = 0")
    case True
    then show ?thesis using rm_free by (simp add: init_rm_free_def avl_inv_def)
  next
    case False
    have ok: "avl_ok (alloc s)" using rm_free(3) by (simp add: avl_inv_def)
    have r: "remove_from_tree a len (alloc s) = Some al" using rm_free(2) False by (simp add: init_rm_free_def)
    note free = remove_from_tree_free [OF ok r rm_free(1)]
    obtain al' where "remove_from_tree a len (alloc s) = Some al'" "avl_ok al'"
        "free_bytes (range_tree al') = free_bytes (range_tree (alloc s)) - {a..<a + len}"
        "num_total al' = num_total (alloc s)" "block_size al' = block_size (alloc s)"
      using free by (auto elim: remove_from_tree_ok [OF ok, of len a])
    then show ?thesis using r free avl_inv_move(2) [OF rm_free(3)] by simp
  qed
next
  case (allocate unit want mx s ret es al)
  have ok: "avl_ok (alloc s)" using allocate(3) by (simp add: avl_inv_def)
  have "isp2 unit" "unit \<noteq> 0" "want mod unit = 0" using allocate(2) by (auto simp: avl_allocate_def)
  then have req: "request_ok (alloc s) want unit" using allocate(1,3) by (auto simp: request_ok_def avl_inv_def)
  obtain es' al' where a: "avl_allocate want unit mx [] (alloc s) =
        Some (if es' = [] then - 28 else int (sum_list (map snd es')), [] @ es', al')"
      "avl_ok al'" "num_total al' = num_total (alloc s)" "block_size al' = block_size (alloc s)"
      "carved unit (alloc_cap want mx (alloc s)) (free_bytes (range_tree (alloc s))) es' (free_bytes (range_tree al'))"
    by (rule avl_allocate_loop [OF ok req])
  then have "es = es'" "al = al'" using allocate(2) by simp_all
  then show ?case using a(2-4) carved_bytes [OF a(5)] avl_inv_move(2) [OF allocate(3)] by simp
next
  case (release rel s al)
  have "elems rel \<subseteq> {..<num_total (alloc s)} - free_bytes (range_tree (alloc s))" using release(2,4) by (auto simp: avl_inv_def)
  then obtain al' where "avl_release rel (alloc s) = Some al'" "avl_ok al'"
      "free_bytes (range_tree al') = free_bytes (range_tree (alloc s)) \<union> elems rel"
      "num_total al' = num_total (alloc s)" "block_size al' = block_size (alloc s)"
    using avl_release_ok [of "alloc s" rel] release(1,4) by (metis avl_inv_def)
  then show ?case using release avl_inv_move(1) [OF release(4)] by simp
qed

interpretation avl: invariant_system avl_init avl_step avl_inv
  using avl_inv_init avl_inv_step by unfold_locales

subsection \<open>The properties\<close>

text \<open>A device of 64 KB in blocks of 4 KB, with 8 KB free at 4 KB and a misaligned range further on.\<close>

definition demo_alloc :: avl_allocator where
  "demo_alloc = (avl_new 65536 4096 0 0 0 0)\<lparr>range_tree := [\<lparr>rs_start = 4096, rs_end = 12288\<rparr>, \<lparr>rs_start = 20000, rs_end = 26000\<rparr>],
     range_size_tree := [\<lparr>rs_start = 20000, rs_end = 26000\<rparr>, \<lparr>rs_start = 4096, rs_end = 12288\<rparr>], num_free := 14192\<rparr>"

lemma demo_ok: "avl_ok demo_alloc" "request_ok demo_alloc 16384 4096"
  by (simp_all add: demo_alloc_def avl_new_def avl_ok_def in_step_def total_size_def rs_length_def seg_key_def sub64_def
      request_ok_def isp2_def two64_def two32_def)

text \<open>The device has less free than the 16 KB asked for here.\<close>

lemma demo_allocate:
  obtains ret es s' where "avl_allocate 16384 4096 0 [] demo_alloc = Some (ret, es, s')" and "ret < 16384"
proof -
  obtain es s' where a: "avl_allocate 16384 4096 0 [] demo_alloc =
        Some (if es = [] then - 28 else int (sum_list (map snd es)), [] @ es, s')" "avl_ok s'"
      "carved 4096 (alloc_cap 16384 0 demo_alloc) (free_bytes (range_tree demo_alloc)) es (free_bytes (range_tree s'))"
    by (rule avl_allocate_loop [OF demo_ok])
  have "sum_list (map snd es) \<le> num_free demo_alloc" using carved_sum [OF a(3)] avl_ok_sizes(2) [OF demo_ok(1)] by simp
  then have "sum_list (map snd es) < 16384" by (simp add: demo_alloc_def)
  then show thesis using that [of "if es = [] then - 28 else int (sum_list (map snd es))" es s'] a(1) by simp
qed

text \<open>C37. An allocation never fails an assertion. What it hands out is appended to the caller's extents: they are
  not empty, aligned to the unit, free before, disjoint, exactly what leaves the free bytes, and no more than
  wanted; the result is their size, or \<open>-ENOSPC\<close> when there are none.\<close>

theorem avl_allocate_exact:
  assumes "avl_ok s" and "request_ok s want unit"
  shows "\<exists>es s'. avl_allocate want unit mx extents s =
      Some (if es = [] then - 28 else int (sum_list (map snd es)), extents @ es, s') \<and>
    avl_ok s' \<and> list_all (\<lambda>(off, len). unit dvd off \<and> 0 < len \<and> len \<le> alloc_cap want mx s) es \<and>
    sorted_wrt (\<lambda>a b. {fst a..<fst a + snd a} \<inter> {fst b..<fst b + snd b} = {}) es \<and>
    bytes_of es \<subseteq> free_bytes (range_tree s) \<and> free_bytes (range_tree s') = free_bytes (range_tree s) - bytes_of es \<and>
    sum_list (map snd es) \<le> want \<and> num_free s = num_free s' + sum_list (map snd es)"
proof -
  obtain es s' where a: "avl_allocate want unit mx extents s =
        Some (if es = [] then - 28 else int (sum_list (map snd es)), extents @ es, s')"
      "avl_ok s'" "carved unit (alloc_cap want mx s) (free_bytes (range_tree s)) es (free_bytes (range_tree s'))"
      "sum_list (map snd es) \<le> want"
    by (rule avl_allocate_loop [OF assms])
  moreover have "list_all (\<lambda>(off, len). unit dvd off \<and> 0 < len \<and> len \<le> alloc_cap want mx s) es"
    using a(3) by (rule carved_each)
  moreover have "num_free s = num_free s' + sum_list (map snd es)"
    using carved_sum [OF a(3)] avl_ok_sizes(2) [OF assms(1)] avl_ok_sizes(2) [OF a(2)] by simp
  ultimately show ?thesis using carved_disjoint [OF a(3)] carved_bytes [OF a(3)] by blast
qed

theorem avl_allocate_exact_witness:
  "\<exists>ret es s'. avl_allocate 16384 4096 0 [] demo_alloc = Some (ret, es, s') \<and>
    bytes_of es \<subseteq> {4096..<12288} \<union> {20000..<26000} \<and> num_free demo_alloc = num_free s' + sum_list (map snd es)"
proof -
  have "free_bytes (range_tree demo_alloc) = {4096..<12288} \<union> {20000..<26000}"
    by (simp add: demo_alloc_def seg_bytes_def)
  then show ?thesis using avl_allocate_exact [OF demo_ok, of 0 "[]"] by auto
qed

text \<open>C38. An allocation that falls short had no choice, when the size of the largest block it may hand out is a multiple of the
  unit: no aligned unit is left free then. (With another limit the last block asked for can be larger than the unit, and an
  aligned unit may be left.)\<close>

theorem avl_allocate_complete:
  assumes "avl_ok s" and "request_ok s want unit" and "unit dvd alloc_cap want mx s"
    and "avl_allocate want unit mx extents s = Some (ret, es, s')" and "ret < int want" and "0 < want"
  shows "\<not> (\<exists>off. unit dvd off \<and> {off..<off + unit} \<subseteq> free_bytes (range_tree s'))"
proof -
  obtain es1 s1 where a: "avl_allocate want unit mx extents s =
        Some (if es1 = [] then - 28 else int (sum_list (map snd es1)), extents @ es1, s1)"
      "unit dvd alloc_cap want mx s \<and> sum_list (map snd es1) < want \<longrightarrow> \<not> (\<exists>off. block_ok s1 unit off unit)"
      "carved unit (alloc_cap want mx s) (free_bytes (range_tree s)) es1 (free_bytes (range_tree s1))"
    by (rule avl_allocate_loop [OF assms(1,2)])
  have "sum_list (map snd es1) < want" using a(1) assms(4-6) by (auto split: if_splits)
  then show ?thesis using a(1,2) assms(3,4) by (auto simp: block_ok_def)
qed

theorem avl_allocate_complete_witness:
  "\<exists>ret es s'. avl_allocate 16384 4096 0 [] demo_alloc = Some (ret, es, s') \<and>
    \<not> (\<exists>off. 4096 dvd off \<and> {off..<off + 4096} \<subseteq> free_bytes (range_tree s'))"
proof -
  obtain ret es s' where s': "avl_allocate 16384 4096 0 [] demo_alloc = Some (ret, es, s')" "ret < 16384"
    by (rule demo_allocate)
  have "4096 dvd alloc_cap 16384 0 demo_alloc" by (simp add: alloc_cap_def two32_def)
  from avl_allocate_complete [OF demo_ok this s'(1)] s' show ?thesis by auto
qed

text \<open>C36. The allocator in use: in every reachable state an allocation succeeds or reports that there is no space,
  what it hands out is held by nobody, its blocks are disjoint, the bytes it counts as free are the ones nobody
  holds, and any set of held bytes can be released.\<close>

theorem avl_no_double_allocation:
  assumes "avl_init s" and "avl_step\<^sup>*\<^sup>* s t" and "request_ok (alloc t) want unit"
  shows "(\<exists>ret es al. avl_allocate want unit mx [] (alloc t) = Some (ret, es, al) \<and> bytes_of es \<inter> held t = {} \<and>
      sorted_wrt (\<lambda>a b. {fst a..<fst a + snd a} \<inter> {fst b..<fst b + snd b} = {}) es \<and>
      num_free al = card ({..<num_total (alloc t)} - held t - bytes_of es)) \<and>
    (\<forall>rel. iset_inv rel \<and> elems rel \<subseteq> held t \<longrightarrow> avl_release rel (alloc t) \<noteq> None)"
proof
  have inv: "avl_inv t" using avl.inv_reachable [OF assms(1,2)] .
  then have ok: "avl_ok (alloc t)" and free: "free_bytes (range_tree (alloc t)) = {..<num_total (alloc t)} - held t"
    by (simp_all add: avl_inv_def)
  obtain es al where a: "avl_allocate want unit mx [] (alloc t) =
        Some (if es = [] then - 28 else int (sum_list (map snd es)), [] @ es, al)" "avl_ok al"
      "carved unit (alloc_cap want mx (alloc t)) (free_bytes (range_tree (alloc t))) es (free_bytes (range_tree al))"
    by (rule avl_allocate_loop [OF ok assms(3)])
  show "\<exists>ret es al. avl_allocate want unit mx [] (alloc t) = Some (ret, es, al) \<and> bytes_of es \<inter> held t = {} \<and>
      sorted_wrt (\<lambda>a b. {fst a..<fst a + snd a} \<inter> {fst b..<fst b + snd b} = {}) es \<and>
      num_free al = card ({..<num_total (alloc t)} - held t - bytes_of es)"
    using a(1) carved_bytes [OF a(3)] carved_disjoint [OF a(3)] avl_ok_sizes(2) [OF a(2)] free by auto
  show "\<forall>rel. iset_inv rel \<and> elems rel \<subseteq> held t \<longrightarrow> avl_release rel (alloc t) \<noteq> None"
  proof (intro allI impI)
    fix rel assume rel: "iset_inv rel \<and> elems rel \<subseteq> held t"
    then have "elems rel \<subseteq> {..<num_total (alloc t)} - free_bytes (range_tree (alloc t))" using inv by (auto simp: avl_inv_def)
    then show "avl_release rel (alloc t) \<noteq> None" using avl_release_ok [OF ok, of rel] rel by auto
  qed
qed

text \<open>A device of 64 KB: 8 KB are made free, one block of them is handed out, and then the other one.\<close>

lemma two_blocks_run:
  "Option.bind (init_add_free 4096 8192 (avl_new 65536 4096 0 0 0 0)) (\<lambda>al1. Option.bind (avl_allocate 4096 4096 0 [] al1)
     (\<lambda>(r, es, al2). map_option (\<lambda>(r', es', al3). (r, es, block_size al2, num_total al2, r', es')) (avl_allocate 4096 4096 0 [] al2))) =
   Some (4096, [(4096, 4096)], 4096, 65536, 4096, [(8192, 4096)])"
  by code_simp

theorem avl_no_double_allocation_witness:
  "\<exists>s t ret es al. avl_init s \<and> avl_step\<^sup>*\<^sup>* s t \<and> held t = {..<65536} - {8192..<12288} \<and>
     avl_allocate 4096 4096 0 [] (alloc t) = Some (ret, es, al) \<and> es = [(8192, 4096)] \<and> bytes_of es \<inter> held t = {} \<and>
     num_free al = card ({..<65536::nat} - held t - bytes_of es) \<and>
     avl_release \<lparr>iset_size = 4096, iset_m = [(4096, 4096)]\<rparr> (alloc t) \<noteq> None"
proof -
  let ?new = "avl_new 65536 4096 0 0 0 0" and ?rel = "\<lparr>iset_size = 4096, iset_m = [(4096, 4096)]\<rparr>"
  obtain al1 al2 al3 where a: "init_add_free 4096 8192 ?new = Some al1" "avl_allocate 4096 4096 0 [] al1 = Some (4096, [(4096, 4096)], al2)"
    "block_size al2 = 4096" "num_total al2 = 65536" "avl_allocate 4096 4096 0 [] al2 = Some (4096, [(8192, 4096)], al3)"
    using two_blocks_run by (auto simp: bind_eq_Some_conv)
  let ?s = "\<lparr>alloc = ?new, held = {..<65536}\<rparr>" and ?s1 = "\<lparr>alloc = al1, held = {..<65536} - {4096..<4096 + 8192}\<rparr>"
  let ?t = "\<lparr>alloc = al2, held = ({..<65536} - {4096..<4096 + 8192}) \<union> bytes_of [(4096, 4096)]\<rparr>"
  have p2: "isp2 4096" by (simp add: isp2_def sub64_def two64_def)
  then have init: "avl_init ?s" unfolding avl_init_def
    by (intro exI [of _ 65536] exI [of _ 4096] exI [of _ 0]) (simp add: two32_def)
  have "avl_step ?s ?s1" using add_free [of 4096 8192 ?s al1] a(1) by (simp add: subset_iff)
  moreover have "avl_step ?s1 ?t" using avl_step.allocate [of 4096 4096 0 ?s1 4096 "[(4096, 4096)]" al2] a(2) by (simp add: two64_def)
  ultimately have run: "avl_step\<^sup>*\<^sup>* ?s ?t" by (meson converse_rtranclp_into_rtranclp r_into_rtranclp)
  have held: "held ?t = {..<65536} - {8192..<12288}" by (auto simp: bytes_of_def)
  have req: "request_ok (alloc ?t) 4096 4096" using p2 a(3) by (simp add: request_ok_def two64_def two32_def)
  have rel: "iset_inv ?rel \<and> elems ?rel \<subseteq> held ?t"
    unfolding held by (auto simp: iset_inv_def iv_ok_def elems_def two64_def)
  note w = avl_no_double_allocation [OF init run req, of 0]
  have "bytes_of [(8192, 4096)] \<inter> held ?t = {} \<and> num_free al3 = card ({..<65536::nat} - held ?t - bytes_of [(8192, 4096)])"
    using conjunct1 [OF w] a(4,5) by auto
  moreover have "avl_release ?rel (alloc ?t) \<noteq> None" using conjunct2 [OF w] rel by blast
  ultimately show ?thesis using init run held a(5) by (intro exI [of _ ?s] exI [of _ ?t] exI [of _ 4096] exI [of _ "[(8192, 4096)]"] exI [of _ al3]) simp
qed

text \<open>Taking a range out of the free bytes piece by piece: the callback sees pieces that tile the range in
  order, each flagged as found exactly when its bytes were free, and afterwards none of the range is free.\<close>

theorem avl_try_remove_tiles:
  assumes "avl_ok s" and "0 < len" and "a + len \<le> num_total s"
  shows "\<exists>cbs s'. try_remove_from_tree a len s = Some (cbs, s') \<and> avl_ok s' \<and>
    tiles (free_bytes (range_tree s)) a cbs (a + len) \<and>
    free_bytes (range_tree s') = free_bytes (range_tree s) - {a..<a + len}"
  using assms by (rule try_remove_ok)

theorem avl_try_remove_tiles_witness:
  "\<exists>cbs s'. try_remove_from_tree 8192 16384 demo_alloc = Some (cbs, s') \<and>
    free_bytes (range_tree s') = ({4096..<12288} \<union> {20000..<26000}) - {8192..<24576}"
proof -
  have "free_bytes (range_tree demo_alloc) = {4096..<12288} \<union> {20000..<26000}"
    by (simp add: demo_alloc_def seg_bytes_def)
  moreover have "8192 + 16384 \<le> num_total demo_alloc" by (simp add: demo_alloc_def avl_new_def)
  ultimately show ?thesis using avl_try_remove_tiles [OF demo_ok(1), of 16384 8192] by auto
qed

end
