(* ===== verification/Paxos.thy ===== *)
theory Paxos
  imports Ceph_Prelude "HOL-Library.Code_Target_Nat"
begin

text \<open>
  The monitors' replicated log (\<open>src/mon/Paxos.cc\<close>): the leader of an election collects promises, proposes
  a value for the version after the last committed one, and commits it when the whole quorum has accepted
  it. One definition per handler. The state of a monitor is the object \<open>paxos\<close> with the key/value store it
  writes to; a restart keeps only the store. Handlers return the new state and the messages sent, and
  \<open>None\<close> where an assertion fails. Values are store transactions. Versions and proposal numbers count up
  from 0 and do not wrap. Waiting callbacks, timers as such, statistics and feature maps are left out: a
  timer is the event of its expiry, and what the services do is an event too.
\<close>

subsection \<open>The store\<close>

text \<open>Operations of a transaction, as far as the paxos keys are concerned; those of the services are
  numbered. An empty transaction still has a non-empty encoding.\<close>

datatype mon_op = PutFirstCommitted nat | EraseVersion nat | ServiceOp nat

type_synonym txn = "mon_op list"

record mon_store =
  st_versions :: "(nat, txn) smap"
  st_last_pn :: nat
  st_accepted_pn :: nat
  st_last_committed :: nat
  st_first_committed :: nat
  st_pending_v :: nat
  st_pending_pn :: nat
  st_services :: "nat list"

definition empty_store :: mon_store where
  "empty_store = \<lparr>st_versions = [], st_last_pn = 0, st_accepted_pn = 0, st_last_committed = 0, st_first_committed = 0,
     st_pending_v = 0, st_pending_pn = 0, st_services = []\<rparr>"

fun apply_op :: "mon_op \<Rightarrow> mon_store \<Rightarrow> mon_store" where
  "apply_op (PutFirstCommitted v) st = st\<lparr>st_first_committed := v\<rparr>"
| "apply_op (EraseVersion v) st = st\<lparr>st_versions := smap_del v (st_versions st)\<rparr>"
| "apply_op (ServiceOp x) st = st\<lparr>st_services := st_services st @ [x]\<rparr>"

definition apply_txn :: "txn \<Rightarrow> mon_store \<Rightarrow> mon_store" where
  "apply_txn t st = fold apply_op t st"

definition put_version :: "nat \<Rightarrow> txn \<Rightarrow> mon_store \<Rightarrow> mon_store" where
  "put_version v t st = st\<lparr>st_versions := smap_put v t (st_versions st)\<rparr>"

subsection \<open>State and messages\<close>

datatype px_state = RECOVERING | ACTIVE | UPDATING | UPDATING_PREVIOUS | WRITING | WRITING_PREVIOUS | REFRESH | SHUTDOWN

datatype px_role = ELECTING | LEADER | PEON

datatype px_op = OP_COLLECT | OP_LAST | OP_BEGIN | OP_ACCEPT | OP_COMMIT | OP_LEASE | OP_LEASE_ACK

record px_msg =
  pm_op :: px_op
  pm_from :: nat
  pm_to :: nat
  pm_epoch :: nat
  pm_first_committed :: nat
  pm_last_committed :: nat
  pm_pn_from :: nat
  pm_pn :: nat
  pm_uncommitted_pn :: nat
  pm_lease :: nat
  pm_values :: "(nat, txn) smap"

text \<open>\<open>paxos\<close> and what it uses of the monitor: its rank, the number of monitors, its role, the election epoch,
  the quorum (in order) and the leader. \<open>queued\<close> is the commit handed to the store and not yet written.\<close>

record paxos =
  px_store :: mon_store
  px_rank :: nat
  px_size :: nat
  px_role :: px_role
  px_epoch :: nat
  px_quorum :: "nat list"
  px_leader :: nat
  state :: px_state
  first_committed :: nat
  last_committed :: nat
  last_pn :: nat
  accepted_pn :: nat
  accepted_pn_from :: nat
  num_last :: nat
  peer_first_committed :: "(nat, nat) smap"
  peer_last_committed :: "(nat, nat) smap"
  uncommitted_v :: nat
  uncommitted_pn :: nat
  uncommitted_value :: "txn option"
  new_value :: "txn option"
  accepted :: "nat list"
  pending_proposal :: "txn option"
  plugged :: bool
  trimming :: bool
  pending_finishers :: bool
  committing_finishers :: bool
  commits_started :: nat
  queued :: "(nat \<times> txn) option"
  lease_expire :: nat
  acked_lease :: "nat list"
  lease_ack_timeout_event :: bool

text \<open>The configuration, and what the services answer when they are refreshed: whether the monitor has to
  bootstrap.\<close>

record px_conf =
  paxos_min :: nat
  paxos_trim_min :: nat
  paxos_trim_max :: nat
  mon_lease :: nat
  need_bootstrap :: "mon_store \<Rightarrow> bool"

type_synonym px_result = "(paxos \<times> px_msg list) option"

definition new_msg :: "paxos \<Rightarrow> px_op \<Rightarrow> nat \<Rightarrow> px_msg" where
  "new_msg p oper dest =
     \<lparr>pm_op = oper, pm_from = px_rank p, pm_to = dest, pm_epoch = px_epoch p, pm_first_committed = 0, pm_last_committed = 0,
      pm_pn_from = 0, pm_pn = 0, pm_uncommitted_pn = 0, pm_lease = 0, pm_values = []\<rparr>"

definition other_quorum :: "paxos \<Rightarrow> nat list" where
  "other_quorum p = filter (\<lambda>q. q \<noteq> px_rank p) (px_quorum p)"

definition is_writing :: "paxos \<Rightarrow> bool" where
  "is_writing p \<longleftrightarrow> state p = WRITING \<or> state p = WRITING_PREVIOUS"

definition is_updating :: "paxos \<Rightarrow> bool" where
  "is_updating p \<longleftrightarrow> state p = UPDATING \<or> state p = UPDATING_PREVIOUS"

fun set_insert :: "nat \<Rightarrow> nat list \<Rightarrow> nat list" where
  "set_insert x [] = [x]"
| "set_insert x (y # ys) = (if x < y then x # y # ys else if x = y then y # ys else y # set_insert x ys)"

text \<open>A started monitor has loaded its variables from the store. Here the number the monitor accepted as a
  leader is gone: \<open>collect\<close> below stores \<open>last_pn\<close> only. The code asserts here that the oldest version is not
  beyond the last committed one; \<open>restart_consistent\<close> of \<open>Paxos_Agreement\<close> shows that it is not.\<close>

definition px_init :: "nat \<Rightarrow> nat \<Rightarrow> nat \<Rightarrow> mon_store \<Rightarrow> paxos" where
  "px_init rank sz epoch st =
     \<lparr>px_store = st, px_rank = rank, px_size = sz, px_role = ELECTING, px_epoch = epoch, px_quorum = [], px_leader = 0,
      state = RECOVERING, first_committed = st_first_committed st, last_committed = st_last_committed st,
      last_pn = st_last_pn st, accepted_pn = st_accepted_pn st, accepted_pn_from = 0, num_last = 0,
      peer_first_committed = [], peer_last_committed = [], uncommitted_v = 0, uncommitted_pn = 0, uncommitted_value = None,
      new_value = None, accepted = [], pending_proposal = None, plugged = False, trimming = False,
      pending_finishers = False, committing_finishers = False, commits_started = 0, queued = None,
      lease_expire = 0, acked_lease = [], lease_ack_timeout_event = False\<rparr>"

subsection \<open>Phase 1\<close>

definition get_new_proposal_number :: "nat \<Rightarrow> paxos \<Rightarrow> nat \<times> paxos" where
  "get_new_proposal_number gt p =
     (let pn = (if last_pn p < gt then gt else last_pn p);
          pn = (pn div 100 + 1) * 100 + px_rank p
      in (pn, p\<lparr>last_pn := pn, px_store := (px_store p)\<lparr>st_last_pn := pn\<rparr>\<rparr>))"

text \<open>The number under which the value after the last committed one was accepted: \<open>fallback\<close> is used when
  the store does not say.\<close>

definition pending_pn_of :: "paxos \<Rightarrow> nat \<Rightarrow> nat" where
  "pending_pn_of p fallback =
     (let v = st_pending_v (px_store p); pn = st_pending_pn (px_store p)
      in if v \<noteq> 0 \<and> pn \<noteq> 0 \<and> v = last_committed p + 1 then pn else fallback)"

definition collect :: "nat \<Rightarrow> paxos \<Rightarrow> px_result" where
  "collect oldpn p = do {
     let p = p\<lparr>state := RECOVERING\<rparr>;
     ensure (px_role p = LEADER);
     let p = p\<lparr>uncommitted_v := 0, uncommitted_pn := 0, uncommitted_value := None,
               peer_first_committed := [], peer_last_committed := []\<rparr>;
     let p = (case map_of (st_versions (px_store p)) (last_committed p + 1) of
                None \<Rightarrow> p
              | Some t \<Rightarrow> p\<lparr>uncommitted_pn := pending_pn_of p (accepted_pn p), uncommitted_v := last_committed p + 1,
                            uncommitted_value := Some t\<rparr>);
     let (pn, p) = get_new_proposal_number (max (accepted_pn p) oldpn) p;
     let p = p\<lparr>accepted_pn := pn, accepted_pn_from := last_committed p, num_last := 1\<rparr>;
     Some (p, map (\<lambda>q. (new_msg p OP_COLLECT q)\<lparr>pm_last_committed := last_committed p, pm_first_committed := first_committed p,
                         pm_pn := accepted_pn p\<rparr>) (other_quorum p)) }"

text \<open>\<open>share_state\<close> adds the versions the peer misses to a message.\<close>

definition share_state :: "px_msg \<Rightarrow> nat \<Rightarrow> paxos \<Rightarrow> px_msg option" where
  "share_state m peer_lc p = do {
     ensure (peer_lc < last_committed p);
     let vs = filter (\<lambda>(v, t). peer_lc + 1 \<le> v \<and> v \<le> last_committed p) (st_versions (px_store p));
     Some (m\<lparr>pm_values := fold (\<lambda>(v, t) m. smap_put v t m) vs (pm_values m), pm_last_committed := last_committed p\<rparr>) }"

text \<open>\<open>store_state\<close> commits the versions of a message that come next.\<close>

definition commit_version :: "nat \<times> txn \<Rightarrow> mon_store \<Rightarrow> mon_store" where
  "commit_version vt st = apply_txn (snd vt) (put_version (fst vt) (snd vt) st)"

definition store_state :: "px_msg \<Rightarrow> paxos \<Rightarrow> (bool \<times> paxos) option" where
  "store_state m p =
     (if pm_values m \<noteq> [] \<and> fst (hd (pm_values m)) > last_committed p + 1 then Some (False, p)
      else
        let rest = dropWhile (\<lambda>(v, t). v \<le> last_committed p) (pm_values m);
            vs = takeWhile (\<lambda>(v, t). v \<le> pm_last_committed m) rest
        in if vs = [] then Some (False, p)
           else do {
             let lc = fst (last vs);
             let st = fold commit_version vs ((px_store p)\<lparr>st_last_committed := lc\<rparr>);
             let p = p\<lparr>last_committed := lc, px_store := st, first_committed := st_first_committed st\<rparr>;
             let p = (if uncommitted_v p \<noteq> 0 \<and> uncommitted_v p \<le> lc
                      then p\<lparr>uncommitted_v := 0, uncommitted_pn := 0, uncommitted_value := None\<rparr> else p);
             ensure (st_last_committed st = last_committed p);
             Some (True, p) })"

subsection \<open>Phase 2\<close>

definition commit_start :: "paxos \<Rightarrow> paxos option" where
  "commit_start p = do {
     v \<leftarrow> new_value p;
     let p = p\<lparr>queued := Some (last_committed p + 1, v)\<rparr>;
     p \<leftarrow> (if state p = UPDATING_PREVIOUS then Some (p\<lparr>state := WRITING_PREVIOUS\<rparr>)
           else if state p = UPDATING then Some (p\<lparr>state := WRITING\<rparr>) else None);
     Some (p\<lparr>commits_started := commits_started p + 1\<rparr>) }"

definition px_begin :: "txn \<Rightarrow> paxos \<Rightarrow> px_result" where
  "px_begin v p = do {
     ensure (px_role p = LEADER);
     ensure (is_updating p);
     ensure (length (px_quorum p) = 1 \<or> num_last p > px_size p div 2);
     ensure (new_value p = None);
     let v = (if last_committed p = 0 then PutFirstCommitted 1 # v else v);
     let st = put_version (last_committed p + 1) v (px_store p);
     let st = st\<lparr>st_pending_v := last_committed p + 1, st_pending_pn := accepted_pn p\<rparr>;
     let p = p\<lparr>accepted := [px_rank p], new_value := Some v, px_store := st\<rparr>;
     if length (px_quorum p) = 1 then do { p \<leftarrow> commit_start p; Some (p, []) }
     else Some (p, map (\<lambda>q. (new_msg p OP_BEGIN q)\<lparr>pm_values := [(last_committed p + 1, v)], pm_last_committed := last_committed p,
                              pm_pn := accepted_pn p\<rparr>) (other_quorum p)) }"

definition handle_begin :: "px_msg \<Rightarrow> paxos \<Rightarrow> px_result" where
  "handle_begin m p =
     (if pm_pn m < accepted_pn p then Some (p, [])
      else do {
        ensure (pm_pn m = accepted_pn p);
        ensure (pm_last_committed m = last_committed p);
        let v = last_committed p + 1;
        t \<leftarrow> map_of (pm_values m) v;
        let st = put_version v t (px_store p);
        let p = p\<lparr>state := UPDATING, lease_expire := 0, px_store := st\<lparr>st_pending_v := v, st_pending_pn := accepted_pn p\<rparr>\<rparr>;
        Some (p, [(new_msg p OP_ACCEPT (pm_from m))\<lparr>pm_pn := accepted_pn p, pm_last_committed := last_committed p\<rparr>]) })"

definition handle_accept :: "px_msg \<Rightarrow> paxos \<Rightarrow> px_result" where
  "handle_accept m p =
     (if pm_pn m \<noteq> accepted_pn p then Some (p, [])
      else if last_committed p > 0 \<and> pm_last_committed m < last_committed p - 1 then Some (p, [])
      else do {
        ensure (pm_last_committed m = last_committed p \<or> pm_last_committed m + 1 = last_committed p);
        ensure (is_updating p);
        ensure (pm_from m \<notin> set (accepted p));
        let p = p\<lparr>accepted := set_insert (pm_from m) (accepted p)\<rparr>;
        if accepted p = px_quorum p then do { p \<leftarrow> commit_start p; Some (p, []) }
        else Some (p, []) })"

subsection \<open>Leases and rounds\<close>

definition extend_lease :: "px_conf \<Rightarrow> nat \<Rightarrow> paxos \<Rightarrow> px_result" where
  "extend_lease c now p = do {
     ensure (px_role p = LEADER);
     let p = p\<lparr>lease_expire := now + mon_lease c, acked_lease := [px_rank p], lease_ack_timeout_event := True\<rparr>;
     Some (p, map (\<lambda>q. (new_msg p OP_LEASE q)\<lparr>pm_last_committed := last_committed p, pm_first_committed := first_committed p,
                         pm_lease := lease_expire p\<rparr>) (other_quorum p)) }"

text \<open>The number of versions kept, which the code narrows to an \<open>int\<close>, stays below \<open>2 ^ 31\<close>.\<close>

definition should_trim :: "px_conf \<Rightarrow> paxos \<Rightarrow> bool" where
  "should_trim c p \<longleftrightarrow> \<not> trimming p \<and> last_committed p - first_committed p > paxos_min c + paxos_trim_min c"

text \<open>The leader adds to one pending transaction.\<close>

definition get_pending_transaction :: "paxos \<Rightarrow> paxos option" where
  "get_pending_transaction p = do {
     ensure (px_role p = LEADER);
     if pending_proposal p = None
     then do { ensure (\<not> pending_finishers p); Some (p\<lparr>pending_proposal := Some []\<rparr>) }
     else Some p }"

definition trim :: "px_conf \<Rightarrow> paxos \<Rightarrow> paxos option" where
  "trim c p = do {
     ensure (should_trim c p);
     let stop = min (last_committed p - paxos_min c) (first_committed p + paxos_trim_max c);
     if first_committed p \<ge> stop then Some p
     else do {
       p \<leftarrow> get_pending_transaction p;
       t \<leftarrow> pending_proposal p;
       Some (p\<lparr>pending_proposal := Some (t @ map EraseVersion [first_committed p ..< stop] @ [PutFirstCommitted stop]),
              trimming := True, pending_finishers := True\<rparr>) } }"

text \<open>Of the contexts waiting for a proposal only the one that ends a trim is in the model.\<close>

definition reset_pending_committing_finishers :: "paxos \<Rightarrow> paxos" where
  "reset_pending_committing_finishers p =
     p\<lparr>trimming := (if pending_finishers p \<or> committing_finishers p then False else trimming p),
       pending_finishers := False, committing_finishers := False\<rparr>"

definition commit_proposal :: "paxos \<Rightarrow> paxos option" where
  "commit_proposal p = do {
     ensure (px_role p = LEADER);
     ensure (state p = REFRESH);
     Some (p\<lparr>trimming := (if committing_finishers p then False else trimming p), committing_finishers := False\<rparr>) }"

definition propose_pending :: "paxos \<Rightarrow> px_result" where
  "propose_pending p = do {
     ensure (state p = ACTIVE);
     t \<leftarrow> pending_proposal p;
     px_begin t (p\<lparr>lease_ack_timeout_event := False, pending_proposal := None, pending_finishers := committing_finishers p,
                   committing_finishers := pending_finishers p, state := UPDATING\<rparr>) }"

definition trigger_propose :: "paxos \<Rightarrow> px_result" where
  "trigger_propose p =
     (if plugged p then Some (p, []) else if state p = ACTIVE then propose_pending p else Some (p, []))"

definition finish_round :: "px_conf \<Rightarrow> paxos \<Rightarrow> px_result" where
  "finish_round c p = do {
     ensure (px_role p = LEADER);
     let p = p\<lparr>state := ACTIVE\<rparr>;
     p \<leftarrow> (if should_trim c p then trim c p else Some p);
     if state p = ACTIVE \<and> pending_proposal p \<noteq> None then propose_pending p else Some (p, []) }"

text \<open>A restart of the protocol (\<open>Paxos::restart\<close>, called by a monitor that leaves its quorum) when no write
  is under way.\<close>

definition restart_idle :: "paxos \<Rightarrow> paxos" where
  "restart_idle p = reset_pending_committing_finishers
     (p\<lparr>px_role := ELECTING, px_quorum := [], lease_ack_timeout_event := False, new_value := None, state := RECOVERING,
        pending_proposal := None\<rparr>)"

text \<open>\<open>do_refresh\<close>: the services read the store, and may ask for a bootstrap.\<close>

definition do_refresh :: "px_conf \<Rightarrow> paxos \<Rightarrow> bool \<times> paxos" where
  "do_refresh c p = (if need_bootstrap c (px_store p) then (False, restart_idle p) else (True, p))"

text \<open>The store writes the queued commit and then calls \<open>commit_finish\<close>.\<close>

definition write_queued :: "paxos \<Rightarrow> paxos" where
  "write_queued p =
     (case queued p of
        None \<Rightarrow> p
      | Some (v, t) \<Rightarrow> p\<lparr>px_store := apply_txn t ((px_store p)\<lparr>st_last_committed := v\<rparr>), queued := None\<rparr>)"

definition commit_finish :: "px_conf \<Rightarrow> nat \<Rightarrow> paxos \<Rightarrow> px_result" where
  "commit_finish c now p = do {
     let p = p\<lparr>lease_expire := 0, last_committed := last_committed p + 1, first_committed := st_first_committed (px_store p)\<rparr>;
     ensure (st_last_committed (px_store p) = last_committed p);
     v \<leftarrow> new_value p;
     let out = map (\<lambda>q. (new_msg p OP_COMMIT q)\<lparr>pm_values := [(last_committed p, v)], pm_pn := accepted_pn p,
                          pm_last_committed := last_committed p\<rparr>) (other_quorum p);
     let p = p\<lparr>new_value := None\<rparr>;
     ensure (is_writing p);
     let p = p\<lparr>state := REFRESH\<rparr>;
     ensure (commits_started p > 0);
     let p = p\<lparr>commits_started := commits_started p - 1\<rparr>;
     let (fine, p) = do_refresh c p;
     if \<not> fine then Some (p, out)
     else do {
       p \<leftarrow> commit_proposal p;
       (p, out1) \<leftarrow> (if length (px_quorum p) > 1 then extend_lease c now p else Some (p, []));
       (p, out2) \<leftarrow> finish_round c p;
       Some (p, out @ out1 @ out2) } }"

definition committed :: "px_conf \<Rightarrow> nat \<Rightarrow> paxos \<Rightarrow> px_result" where
  "committed c now p =
     (if state p = SHUTDOWN then do { ensure (commits_started p > 0); Some (p\<lparr>commits_started := commits_started p - 1\<rparr>, []) }
      else commit_finish c now p)"

text \<open>\<open>Monitor::bootstrap\<close> waits for the writes under way and then restarts. A monitor alone in its quorum may
  start the next commit when one is finished, and waits for that too; \<open>None\<close> if there is no end of them. Messages that arrive while it waits are those delivered before.\<close>

partial_function (option) wait_for_paxos_write :: "px_conf \<Rightarrow> nat \<Rightarrow> paxos \<Rightarrow> px_result" where
  "wait_for_paxos_write c now p =
     (if is_writing p
      then Option.bind (committed c now (write_queued p)) (\<lambda>(p, out).
             Option.bind (wait_for_paxos_write c now p) (\<lambda>(p, out2). Some (p, out @ out2)))
      else Some (p, []))"

declare wait_for_paxos_write.simps [code]

definition bootstrap :: "px_conf \<Rightarrow> nat \<Rightarrow> paxos \<Rightarrow> px_result" where
  "bootstrap c now p = do { (p, out) \<leftarrow> wait_for_paxos_write c now p; Some (restart_idle p, out) }"

subsection \<open>The handlers of phase 1\<close>

definition handle_collect :: "px_conf \<Rightarrow> nat \<Rightarrow> px_msg \<Rightarrow> paxos \<Rightarrow> px_result" where
  "handle_collect c now m p = do {
     ensure (px_role p = PEON);
     let p = p\<lparr>state := RECOVERING\<rparr>;
     if pm_first_committed m > last_committed p + 1 then bootstrap c now p
     else do {
       let previous_pn = accepted_pn p;
       let p = (if pm_pn m > accepted_pn p
                then p\<lparr>accepted_pn := pm_pn m, accepted_pn_from := pm_pn_from m,
                       px_store := (px_store p)\<lparr>st_accepted_pn := pm_pn m\<rparr>\<rparr>
                else p);
       let r = (new_msg p OP_LAST (pm_from m))\<lparr>pm_last_committed := last_committed p, pm_first_committed := first_committed p,
                  pm_pn := accepted_pn p, pm_pn_from := accepted_pn_from p\<rparr>;
       r \<leftarrow> (if pm_last_committed m < last_committed p then share_state r (pm_last_committed m) p else Some r);
       let r = (case map_of (st_versions (px_store p)) (last_committed p + 1) of
                  Some t \<Rightarrow>
                    if pm_last_committed m \<le> last_committed p
                    then r\<lparr>pm_values := smap_put (last_committed p + 1) t (pm_values r),
                           pm_uncommitted_pn := pending_pn_of p previous_pn\<rparr>
                    else r
                | None \<Rightarrow> r);
       Some (p, [r]) } }"

text \<open>The loop over the peers that answered: \<open>None\<close> in the result is the bootstrap when one is too far behind.\<close>

fun update_peers :: "paxos \<Rightarrow> (nat \<times> nat) list \<Rightarrow> (bool \<times> px_msg list) option" where
  "update_peers p [] = Some (True, [])"
| "update_peers p ((q, lc) # ps) =
     (if lc + 1 < first_committed p \<and> first_committed p > 1 then Some (False, [])
      else do {
        out \<leftarrow> (if lc < last_committed p then map_option (\<lambda>m. [m]) (share_state (new_msg p OP_COMMIT q) lc p) else Some []);
        (fine, outs) \<leftarrow> update_peers p ps;
        Some (fine, out @ outs) })"

text \<open>A value that was accepted but not committed: the one with the highest number is remembered.\<close>

definition learn_uncommitted :: "px_msg \<Rightarrow> paxos \<Rightarrow> paxos" where
  "learn_uncommitted m p =
     (if pm_uncommitted_pn m \<noteq> 0 \<and> pm_uncommitted_pn m \<ge> uncommitted_pn p \<and> pm_last_committed m \<ge> last_committed p \<and>
         pm_last_committed m + 1 \<ge> uncommitted_v p
      then p\<lparr>uncommitted_v := pm_last_committed m + 1, uncommitted_pn := pm_uncommitted_pn m,
             uncommitted_value := map_of (pm_values m) (pm_last_committed m + 1)\<rparr>
      else p)"

text \<open>A peer that accepted our number; the flag says that a refresh is still due.\<close>

definition peer_accepted :: "px_conf \<Rightarrow> nat \<Rightarrow> bool \<Rightarrow> px_msg \<Rightarrow> paxos \<Rightarrow> (bool \<times> paxos \<times> px_msg list) option" where
  "peer_accepted c now need_refresh m p = do {
     let p = learn_uncommitted m (p\<lparr>num_last := num_last p + 1\<rparr>);
     if num_last p \<noteq> length (px_quorum p) then Some (need_refresh, p, [])
     else do {
       let p = p\<lparr>peer_first_committed := [], peer_last_committed := []\<rparr>;
       case uncommitted_value p of
         Some v \<Rightarrow>
           if uncommitted_v p = last_committed p + 1
           then do { (p, out) \<leftarrow> px_begin v (p\<lparr>state := UPDATING_PREVIOUS\<rparr>); Some (need_refresh, p, out) }
           else do {
             (p, out) \<leftarrow> extend_lease c now p;
             let (fine, p) = do_refresh c p;
             if \<not> fine then Some (False, p, out)
             else do { (p, out2) \<leftarrow> finish_round c p; Some (False, p, out @ out2) } }
       | None \<Rightarrow> do {
             (p, out) \<leftarrow> extend_lease c now p;
             let (fine, p) = do_refresh c p;
             if \<not> fine then Some (False, p, out)
             else do { (p, out2) \<leftarrow> finish_round c p; Some (False, p, out @ out2) } } } }"

definition handle_last :: "px_conf \<Rightarrow> nat \<Rightarrow> px_msg \<Rightarrow> paxos \<Rightarrow> px_result" where
  "handle_last c now m p =
     (if px_role p \<noteq> LEADER then Some (p, [])
      else do {
        let p = p\<lparr>peer_first_committed := smap_put (pm_from m) (pm_first_committed m) (peer_first_committed p),
                  peer_last_committed := smap_put (pm_from m) (pm_last_committed m) (peer_last_committed p)\<rparr>;
        if pm_first_committed m > last_committed p + 1 then bootstrap c now p
        else do {
          (need_refresh, p) \<leftarrow> store_state m p;
          (fine, out) \<leftarrow> update_peers p (peer_last_committed p);
          if \<not> fine then do { (p, out2) \<leftarrow> bootstrap c now p; Some (p, out @ out2) }
          else do {
            (need_refresh, p, out2) \<leftarrow>
              (if pm_pn m > accepted_pn p then do { (p, out2) \<leftarrow> collect (pm_pn m) p; Some (need_refresh, p, out2) }
               else if pm_pn m = accepted_pn p then peer_accepted c now need_refresh m p
               else Some (need_refresh, p, []));
            Some (if need_refresh then snd (do_refresh c p) else p, out @ out2) } } })"

definition handle_commit :: "px_conf \<Rightarrow> px_msg \<Rightarrow> paxos \<Rightarrow> px_result" where
  "handle_commit c m p = do {
     ensure (px_role p = PEON);
     (_, p) \<leftarrow> store_state m p;
     Some (snd (do_refresh c p), []) }"

definition handle_lease :: "px_msg \<Rightarrow> paxos \<Rightarrow> px_result" where
  "handle_lease m p =
     (if px_role p \<noteq> PEON \<or> last_committed p \<noteq> pm_last_committed m then Some (p, [])
      else
        let p = p\<lparr>lease_expire := max (lease_expire p) (pm_lease m), state := ACTIVE\<rparr>
        in Some (p, [(new_msg p OP_LEASE_ACK (pm_from m))\<lparr>pm_last_committed := last_committed p,
                       pm_first_committed := first_committed p\<rparr>]))"

definition handle_lease_ack :: "px_msg \<Rightarrow> paxos \<Rightarrow> px_result" where
  "handle_lease_ack m p =
     (if \<not> lease_ack_timeout_event p then Some (p, [])
      else if pm_from m \<notin> set (acked_lease p) then
        let p = p\<lparr>acked_lease := set_insert (pm_from m) (acked_lease p)\<rparr>
        in Some (if acked_lease p = px_quorum p then p\<lparr>lease_ack_timeout_event := False\<rparr> else p, [])
      else Some (p, []))"

subsection \<open>Timers\<close>

definition collect_timeout :: "px_conf \<Rightarrow> nat \<Rightarrow> paxos \<Rightarrow> px_result" where
  "collect_timeout c now p = do { ensure (px_role p = LEADER); bootstrap c now p }"

definition accept_timeout :: "px_conf \<Rightarrow> nat \<Rightarrow> paxos \<Rightarrow> px_result" where
  "accept_timeout c now p = do { ensure (px_role p = LEADER); ensure (is_updating p \<or> is_writing p); bootstrap c now p }"

definition lease_ack_timeout :: "px_conf \<Rightarrow> nat \<Rightarrow> paxos \<Rightarrow> px_result" where
  "lease_ack_timeout c now p = do {
     ensure (px_role p = LEADER); ensure (state p = ACTIVE); bootstrap c now (p\<lparr>lease_ack_timeout_event := False\<rparr>) }"

definition lease_timeout :: "px_conf \<Rightarrow> nat \<Rightarrow> paxos \<Rightarrow> px_result" where
  "lease_timeout c now p = do { ensure (px_role p = PEON); bootstrap c now p }"

definition lease_renew_timeout :: "px_conf \<Rightarrow> nat \<Rightarrow> paxos \<Rightarrow> px_result" where
  "lease_renew_timeout c now p = extend_lease c now p"

subsection \<open>Roles and dispatch\<close>

definition leader_init :: "paxos \<Rightarrow> px_result" where
  "leader_init p =
     (let p = reset_pending_committing_finishers (p\<lparr>lease_ack_timeout_event := False, new_value := None, pending_proposal := None\<rparr>)
      in if length (px_quorum p) = 1 then Some (p\<lparr>state := ACTIVE\<rparr>, [])
         else collect 0 (p\<lparr>state := RECOVERING, lease_expire := 0\<rparr>))"

definition peon_init :: "paxos \<Rightarrow> paxos" where
  "peon_init p = reset_pending_committing_finishers
     (p\<lparr>lease_ack_timeout_event := False, new_value := None, state := RECOVERING, lease_expire := 0, pending_proposal := None\<rparr>)"

definition win_election :: "nat \<Rightarrow> nat list \<Rightarrow> paxos \<Rightarrow> px_result" where
  "win_election epoch active p = do {
     ensure (px_role p = ELECTING);
     leader_init (p\<lparr>px_role := LEADER, px_epoch := epoch, px_leader := px_rank p, px_quorum := active\<rparr>) }"

definition lose_election :: "nat \<Rightarrow> nat list \<Rightarrow> nat \<Rightarrow> paxos \<Rightarrow> paxos" where
  "lose_election epoch q l p = peon_init (p\<lparr>px_role := PEON, px_epoch := epoch, px_leader := l, px_quorum := q\<rparr>)"

definition px_dispatch :: "px_conf \<Rightarrow> nat \<Rightarrow> px_msg \<Rightarrow> paxos \<Rightarrow> px_result" where
  "px_dispatch c now m p =
     (if px_role p \<noteq> LEADER \<and> px_role p \<noteq> PEON then Some (p, [])
      else do {
        ensure (px_role p = LEADER \<or> px_role p = PEON \<and> pm_from m = px_leader p);
        case pm_op m of
          OP_COLLECT \<Rightarrow> handle_collect c now m p
        | OP_LAST \<Rightarrow> handle_last c now m p
        | OP_BEGIN \<Rightarrow> handle_begin m p
        | OP_ACCEPT \<Rightarrow> handle_accept m p
        | OP_COMMIT \<Rightarrow> handle_commit c m p
        | OP_LEASE \<Rightarrow> handle_lease m p
        | OP_LEASE_ACK \<Rightarrow> handle_lease_ack m p })"

text \<open>What the monitor does with a paxos message first: messages of other election epochs are not handled.
  Messages come from monitors with the capability the code checks; a monitor that synchronises its store, which drops
  them, is one that is electing here.\<close>

definition mon_dispatch :: "px_conf \<Rightarrow> nat \<Rightarrow> px_msg \<Rightarrow> paxos \<Rightarrow> px_result" where
  "mon_dispatch c now m p =
     (if pm_epoch m > px_epoch p then bootstrap c now p
      else if pm_epoch m \<noteq> px_epoch p then Some (p, [])
      else px_dispatch c now m p)"

subsection \<open>Reading\<close>

definition is_lease_valid :: "nat \<Rightarrow> paxos \<Rightarrow> bool" where
  "is_lease_valid now p \<longleftrightarrow> length (px_quorum p) = 1 \<or> now < lease_expire p"

definition is_readable :: "nat \<Rightarrow> nat \<Rightarrow> paxos \<Rightarrow> bool" where
  "is_readable now v p \<longleftrightarrow> v \<le> last_committed p \<and> (px_role p = PEON \<or> px_role p = LEADER) \<and>
     (state p = ACTIVE \<or> state p = UPDATING \<or> state p = WRITING) \<and> last_committed p > 0 \<and> is_lease_valid now p"

definition is_writeable :: "nat \<Rightarrow> paxos \<Rightarrow> bool" where
  "is_writeable now p \<longleftrightarrow> px_role p = LEADER \<and> state p = ACTIVE \<and> is_lease_valid now p"

text \<open>The services add to the pending transaction and ask for its proposal, now or when they are unplugged.\<close>

definition add_pending :: "nat list \<Rightarrow> paxos \<Rightarrow> paxos option" where
  "add_pending xs p = do {
     p \<leftarrow> get_pending_transaction p;
     t \<leftarrow> pending_proposal p;
     Some (p\<lparr>pending_proposal := Some (t @ map ServiceOp xs)\<rparr>) }"

definition plug :: "paxos \<Rightarrow> paxos option" where
  "plug p = do { ensure (\<not> plugged p); Some (p\<lparr>plugged := True\<rparr>) }"

definition unplug :: "paxos \<Rightarrow> paxos option" where
  "unplug p = do { ensure (plugged p); Some (p\<lparr>plugged := False\<rparr>) }"

end
