(* ===== verification/Paxos_System.thy ===== *)
theory Paxos_System
  imports Paxos
begin

text \<open>
  The monitors together: one \<open>paxos\<close> per rank, the messages on their way and the elections that were won.
  Messages between two monitors arrive in the order they were sent, at most once, and may be lost, as over
  the messenger's sessions. An election hands a majority to one leader per epoch, which is what the
  election component shows; a monitor takes part in it when it has left its old quorum. A timer may fire
  whenever its handler's assertions allow it, and a monitor may restart at any moment, with or without the
  write it had queued: it then has what its store has. An event that would fail an assertion is no event
  of the system; the monitor restarts instead.
\<close>

record px_sys =
  sys_nodes :: "paxos list"
  sys_net :: "px_msg list"
  sys_reigns :: "(nat \<times> nat \<times> nat list) list"
  sys_now :: nat

datatype px_event =
    Bootstrap nat
  | Win nat nat "nat list"
  | Lose nat nat
  | Deliver nat nat
  | Lost nat nat
  | Written nat
  | Crash nat bool
  | AddPending nat "nat list"
  | TriggerPropose nat
  | Plug nat
  | Unplug nat
  | CollectTimeout nat
  | AcceptTimeout nat
  | LeaseAckTimeout nat
  | LeaseTimeout nat
  | LeaseRenewTimeout nat
  | Tick

definition px_sys_init :: "nat \<Rightarrow> px_sys" where
  "px_sys_init n = \<lparr>sys_nodes = map (\<lambda>i. px_init i n 0 empty_store) [0..<n], sys_net = [], sys_reigns = [], sys_now = 0\<rparr>"

definition at_node :: "nat \<Rightarrow> (paxos \<Rightarrow> px_result) \<Rightarrow> px_sys \<Rightarrow> px_sys option" where
  "at_node i f s = do {
     ensure (i < length (sys_nodes s));
     (p, out) \<leftarrow> f (sys_nodes s ! i);
     Some (s\<lparr>sys_nodes := (sys_nodes s)[i := p], sys_net := sys_net s @ out\<rparr>) }"

definition quiet :: "(paxos \<Rightarrow> paxos option) \<Rightarrow> paxos \<Rightarrow> px_result" where
  "quiet f p = map_option (\<lambda>p. (p, [])) (f p)"

text \<open>The oldest message from one monitor to another, and the rest.\<close>

fun take_msg :: "nat \<Rightarrow> nat \<Rightarrow> px_msg list \<Rightarrow> (px_msg \<times> px_msg list) option" where
  "take_msg i j [] = None"
| "take_msg i j (m # ms) =
     (if pm_from m = i \<and> pm_to m = j then Some (m, ms)
      else map_option (\<lambda>(x, xs). (x, m # xs)) (take_msg i j ms))"

definition is_quorum :: "nat \<Rightarrow> nat list \<Rightarrow> bool" where
  "is_quorum n q \<longleftrightarrow> sorted_wrt (<) q \<and> (\<forall>i\<in>set q. i < n) \<and> n < 2 * length q"

definition write_done :: "px_conf \<Rightarrow> nat \<Rightarrow> paxos \<Rightarrow> px_result" where
  "write_done c now p = do { ensure (queued p \<noteq> None); committed c now (write_queued p) }"

definition crash :: "bool \<Rightarrow> paxos \<Rightarrow> paxos" where
  "crash written p = px_init (px_rank p) (px_size p) (px_epoch p) (px_store (if written then write_queued p else p))"

fun px_exec :: "px_conf \<Rightarrow> px_event \<Rightarrow> px_sys \<Rightarrow> px_sys option" where
  "px_exec c (Bootstrap i) s = at_node i (bootstrap c (sys_now s)) s"
| "px_exec c (Win i e q) s = do {
     ensure (map_of (sys_reigns s) e = None \<and> is_quorum (length (sys_nodes s)) q \<and> i \<in> set q);
     at_node i (\<lambda>p. do { ensure (px_epoch p < e); win_election e q p }) (s\<lparr>sys_reigns := (e, i, q) # sys_reigns s\<rparr>) }"
| "px_exec c (Lose j e) s = do {
     (l, q) \<leftarrow> map_of (sys_reigns s) e;
     ensure (j \<in> set q \<and> j \<noteq> l);
     at_node j (\<lambda>p. do { ensure (px_role p = ELECTING \<and> px_epoch p < e); Some (lose_election e q l p, []) }) s }"
| "px_exec c (Deliver i j) s = do {
     (m, ms) \<leftarrow> take_msg i j (sys_net s);
     at_node j (mon_dispatch c (sys_now s) m) (s\<lparr>sys_net := ms\<rparr>) }"
| "px_exec c (Lost i j) s = do { (m, ms) \<leftarrow> take_msg i j (sys_net s); Some (s\<lparr>sys_net := ms\<rparr>) }"
| "px_exec c (Written i) s = at_node i (write_done c (sys_now s)) s"
| "px_exec c (Crash i written) s = at_node i (\<lambda>p. Some (crash written p, [])) s"
| "px_exec c (AddPending i xs) s = at_node i (quiet (add_pending xs)) s"
| "px_exec c (TriggerPropose i) s = at_node i trigger_propose s"
| "px_exec c (Plug i) s = at_node i (quiet plug) s"
| "px_exec c (Unplug i) s = at_node i (quiet unplug) s"
| "px_exec c (CollectTimeout i) s = at_node i (collect_timeout c (sys_now s)) s"
| "px_exec c (AcceptTimeout i) s = at_node i (accept_timeout c (sys_now s)) s"
| "px_exec c (LeaseAckTimeout i) s = at_node i (lease_ack_timeout c (sys_now s)) s"
| "px_exec c (LeaseTimeout i) s = at_node i (lease_timeout c (sys_now s)) s"
| "px_exec c (LeaseRenewTimeout i) s = at_node i (lease_renew_timeout c (sys_now s)) s"
| "px_exec c Tick s = Some (s\<lparr>sys_now := Suc (sys_now s)\<rparr>)"

fun px_run :: "px_conf \<Rightarrow> px_event list \<Rightarrow> px_sys \<Rightarrow> px_sys option" where
  "px_run c [] s = Some s"
| "px_run c (e # es) s = do { s \<leftarrow> px_exec c e s; px_run c es s }"

end
