(* ===== verification/Paxos_Log.thy ===== *)
theory Paxos_Log
  imports Paxos_System
begin

text \<open>
  What the committed part of a monitor's store is: the result of applying a list of values, one per version.
  The first version is special, since every leader that proposes or re-proposes it puts the operation that
  sets \<open>first_committed\<close> in front, so its value is determined up to repetitions of that operation
  (\<open>canon\<close>). A log is good when the versions kept are those from \<open>first_committed\<close> to the end.
\<close>

definition canon :: "nat \<Rightarrow> txn \<Rightarrow> txn" where
  "canon v t = (if v = 1 then PutFirstCommitted 1 # dropWhile ((=) (PutFirstCommitted 1)) t else t)"

definition raw_ok :: "nat \<Rightarrow> txn \<Rightarrow> bool" where
  "raw_ok v t \<longleftrightarrow> (v = 1 \<longrightarrow> (\<exists>u. t = PutFirstCommitted 1 # u))"

definition replay :: "txn list \<Rightarrow> mon_store" where
  "replay h = fold commit_version (zip [1..<length h + 1] h) empty_store"

definition store_log :: "mon_store \<Rightarrow> txn list \<Rightarrow> bool" where
  "store_log st h \<longleftrightarrow> st_services st = st_services (replay h) \<and> st_first_committed st = st_first_committed (replay h) \<and>
     (\<forall>v. 1 \<le> v \<and> v \<le> length h \<longrightarrow> map_option (canon v) (map_of (st_versions st) v) = map_of (st_versions (replay h)) v) \<and>
     (\<forall>v t. v \<le> length h \<and> map_of (st_versions st) v = Some t \<longrightarrow> raw_ok v t)"

definition good_log :: "txn list \<Rightarrow> bool" where
  "good_log h \<longleftrightarrow> dom (map_of (st_versions (replay h))) = {v. 1 \<le> v \<and> st_first_committed (replay h) \<le> v \<and> v \<le> length h} \<and>
     (h \<noteq> [] \<longrightarrow> 1 \<le> st_first_committed (replay h) \<and> st_first_committed (replay h) \<le> length h)"

subsection \<open>Applying a transaction\<close>

definition erased :: "txn \<Rightarrow> nat set" where
  "erased t = {v. EraseVersion v \<in> set t}"

fun services_of :: "txn \<Rightarrow> nat list" where
  "services_of [] = []"
| "services_of (ServiceOp x # t) = x # services_of t"
| "services_of (_ # t) = services_of t"

fun first_after :: "txn \<Rightarrow> nat \<Rightarrow> nat" where
  "first_after [] k = k"
| "first_after (PutFirstCommitted v # t) k = first_after t v"
| "first_after (_ # t) k = first_after t k"

lemma apply_txn_simps [simp]:
  "st_last_pn (apply_txn t st) = st_last_pn st" "st_accepted_pn (apply_txn t st) = st_accepted_pn st"
  "st_last_committed (apply_txn t st) = st_last_committed st" "st_pending_v (apply_txn t st) = st_pending_v st"
  "st_pending_pn (apply_txn t st) = st_pending_pn st" "st_services (apply_txn t st) = st_services st @ services_of t"
  "st_first_committed (apply_txn t st) = first_after t (st_first_committed st)"
proof -
  have "st_last_pn (fold apply_op t st) = st_last_pn st \<and> st_accepted_pn (fold apply_op t st) = st_accepted_pn st \<and>
     st_last_committed (fold apply_op t st) = st_last_committed st \<and> st_pending_v (fold apply_op t st) = st_pending_v st \<and>
     st_pending_pn (fold apply_op t st) = st_pending_pn st \<and> st_services (fold apply_op t st) = st_services st @ services_of t \<and>
     st_first_committed (fold apply_op t st) = first_after t (st_first_committed st)"
  proof (induction t arbitrary: st)
    case (Cons x t)
    show ?case by (cases x) (simp_all add: Cons.IH)
  qed simp
  then show "st_last_pn (apply_txn t st) = st_last_pn st" "st_accepted_pn (apply_txn t st) = st_accepted_pn st"
    "st_last_committed (apply_txn t st) = st_last_committed st" "st_pending_v (apply_txn t st) = st_pending_v st"
    "st_pending_pn (apply_txn t st) = st_pending_pn st" "st_services (apply_txn t st) = st_services st @ services_of t"
    "st_first_committed (apply_txn t st) = first_after t (st_first_committed st)"
    by (simp_all add: apply_txn_def)
qed

lemma apply_txn_versions:
  "smap_wf (st_versions st) \<Longrightarrow> smap_wf (st_versions (apply_txn t st)) \<and>
   map_of (st_versions (apply_txn t st)) v = (if v \<in> erased t then None else map_of (st_versions st) v)"
  unfolding apply_txn_def
proof (induction t arbitrary: st)
  case (Cons x t)
  show ?case
  proof (cases x)
    case (EraseVersion u)
    then show ?thesis
      using Cons.IH [of "apply_op x st"] Cons.prems by (auto simp: smap_wf_del map_of_del erased_def)
  qed (use Cons.IH [of "apply_op x st"] Cons.prems in \<open>auto simp: erased_def\<close>)
qed (simp add: erased_def)

lemma put_version_simps [simp]:
  "st_last_pn (put_version v t st) = st_last_pn st" "st_accepted_pn (put_version v t st) = st_accepted_pn st"
  "st_last_committed (put_version v t st) = st_last_committed st" "st_pending_v (put_version v t st) = st_pending_v st"
  "st_pending_pn (put_version v t st) = st_pending_pn st" "st_services (put_version v t st) = st_services st"
  "st_first_committed (put_version v t st) = st_first_committed st"
  "st_versions (put_version v t st) = smap_put v t (st_versions st)"
  by (simp_all add: put_version_def)

lemma dropWhile_first: "erased (dropWhile ((=) (PutFirstCommitted v)) t) = erased t"
  "services_of (dropWhile ((=) (PutFirstCommitted v)) t) = services_of t"
  "first_after (dropWhile ((=) (PutFirstCommitted v)) t) v = first_after t v"
  by (induction t) (auto simp: erased_def)

lemma canon_effect:
  assumes "raw_ok v t"
  shows "erased (canon v t) = erased t" "services_of (canon v t) = services_of t" "first_after (canon v t) k = first_after t k"
proof -
  have er: "erased (PutFirstCommitted w # t) = erased t" for w t by (auto simp: erased_def)
  show "erased (canon v t) = erased t" by (simp add: canon_def er dropWhile_first)
  show "services_of (canon v t) = services_of t" by (simp add: canon_def dropWhile_first)
  show "first_after (canon v t) k = first_after t k"
    using assms by (auto simp: canon_def raw_ok_def dropWhile_first)
qed

lemma canon_again: "canon 1 (PutFirstCommitted 1 # t) = canon 1 t" "canon v (canon v t) = canon v t"
  by (auto simp: canon_def dropWhile_idem)

lemma raw_ok_canon: "raw_ok v (canon v t)"
  by (simp add: raw_ok_def canon_def)

subsection \<open>Logs\<close>

lemma replay_Nil [simp]: "replay [] = empty_store"
  by (simp add: replay_def)

lemma replay_snoc: "replay (h @ [t]) = commit_version (length h + 1, t) (replay h)"
proof -
  have "[1..<length (h @ [t]) + 1] = [1..<length h + 1] @ [length h + 1]" by simp
  moreover have "zip ([1..<length h + 1] @ [length h + 1]) (h @ [t]) = zip [1..<length h + 1] h @ [(length h + 1, t)]"
    by (subst zip_append) (simp_all del: upt_Suc)
  ultimately have "zip [1..<length (h @ [t]) + 1] (h @ [t]) = zip [1..<length h + 1] h @ [(length h + 1, t)]" by metis
  then show ?thesis by (simp add: replay_def)
qed

lemma replay_wf: "smap_wf (st_versions (replay h))"
proof (induction h rule: rev_induct)
  case (snoc t h)
  then show ?case by (simp add: replay_snoc commit_version_def apply_txn_versions smap_wf_put)
qed (simp add: empty_store_def)

lemma replay_snoc_simps [simp]:
  "st_services (replay (h @ [t])) = st_services (replay h) @ services_of t"
  "st_first_committed (replay (h @ [t])) = first_after t (st_first_committed (replay h))"
  "map_of (st_versions (replay (h @ [t]))) v =
     (if v \<in> erased t then None else if v = length h + 1 then Some t else map_of (st_versions (replay h)) v)"
  by (simp_all add: replay_snoc commit_version_def apply_txn_versions smap_wf_put replay_wf map_of_put)

lemma replay_version: "map_of (st_versions (replay h)) v = Some t \<Longrightarrow> 1 \<le> v \<and> v \<le> length h \<and> t = h ! (v - 1)"
proof (induction h rule: rev_induct)
  case (snoc x h)
  then show ?case by (auto simp: nth_append split: if_splits)
qed (simp add: empty_store_def)

lemma store_log_empty: "store_log empty_store []"
  by (simp add: store_log_def empty_store_def)

lemma store_log_commit:
  assumes "store_log st h" and "smap_wf (st_versions st)" and "raw_ok (length h + 1) t"
    and "map_of (st_versions st') (length h + 1) = Some t"
    and "\<forall>v\<le>length h. map_of (st_versions st') v = map_of (st_versions st) v"
    and "smap_wf (st_versions st')" and "st_services st' = st_services st" and "st_first_committed st' = st_first_committed st"
  shows "store_log (apply_txn t st') (h @ [canon (length h + 1) t])"
  using assms by (auto simp: store_log_def canon_effect apply_txn_versions le_Suc_eq)

lemma store_log_cong:
  "store_log st h \<Longrightarrow> st_services st' = st_services st \<Longrightarrow> st_first_committed st' = st_first_committed st \<Longrightarrow>
   \<forall>v\<le>length h. map_of (st_versions st') v = map_of (st_versions st) v \<Longrightarrow> store_log st' h"
  by (auto simp: store_log_def)

lemma good_log_empty [simp]: "good_log []"
  by (auto simp: good_log_def empty_store_def)

text \<open>What a leader may add: operations of services, and a trim of the oldest versions.\<close>

definition services_only :: "txn \<Rightarrow> bool" where
  "services_only t \<longleftrightarrow> (\<forall>x\<in>set t. \<exists>k. x = ServiceOp k)"

lemma services_only_effect: "services_only t \<Longrightarrow> erased t = {}" "services_only t \<Longrightarrow> first_after t k = k"
  by (induction t) (auto simp: services_only_def erased_def)

lemma first_after_append [simp]: "first_after (t @ u) k = first_after u (first_after t k)"
  by (induction t k rule: first_after.induct) auto

lemma erased_append [simp]: "erased (t @ u) = erased t \<union> erased u"
  by (auto simp: erased_def)

lemma erased_trim [simp]: "erased (map EraseVersion vs) = set vs" "erased [PutFirstCommitted k] = {}"
  by (auto simp: erased_def)

lemma first_after_erase [simp]: "first_after (map EraseVersion vs) k = k"
  by (induction vs) auto

lemma good_log_services:
  assumes "good_log h" and "services_only t" and "h \<noteq> []"
  shows "good_log (h @ [t])"
  using assms unfolding good_log_def by (auto simp: services_only_effect dom_def set_eq_iff le_Suc_eq)

lemma good_log_first:
  assumes "services_only t"
  shows "good_log [PutFirstCommitted 1 # t]"
proof -
  have "erased (PutFirstCommitted 1 # t) = {}" "first_after (PutFirstCommitted 1 # t) k = 1" for k
    using services_only_effect [OF assms] by (auto simp: erased_def)
  then show ?thesis
    using replay_snoc_simps [of "[]" "PutFirstCommitted 1 # t"] by (auto simp: good_log_def dom_def empty_store_def)
qed

lemma good_log_trim:
  assumes "good_log h" and "services_only t" and "h \<noteq> []" and "st_first_committed (replay h) < k" and "k \<le> length h"
  shows "good_log (h @ [t @ map EraseVersion [st_first_committed (replay h)..<k] @ [PutFirstCommitted k]])"
  using assms unfolding good_log_def
  by (auto simp: services_only_effect dom_def set_eq_iff le_Suc_eq)

text \<open>The versions a store keeps, when it is that of a good log.\<close>

lemma store_log_dom:
  assumes "store_log st h" and "good_log h" and "1 \<le> v" and "v \<le> length h"
  shows "v \<in> dom (map_of (st_versions st)) \<longleftrightarrow> st_first_committed st \<le> v"
proof -
  have "map_option (canon v) (map_of (st_versions st) v) = map_of (st_versions (replay h)) v"
    using assms by (simp add: store_log_def)
  then have "map_of (st_versions st) v = None \<longleftrightarrow> map_of (st_versions (replay h)) v = None"
    by (metis map_option_is_None)
  moreover have "v \<in> dom (map_of (st_versions (replay h))) \<longleftrightarrow> st_first_committed (replay h) \<le> v"
    using assms by (simp add: good_log_def)
  ultimately show ?thesis using assms(1) by (auto simp: store_log_def dom_def)
qed

lemma store_log_value:
  assumes "store_log st h" and "1 \<le> v" and "v \<le> length h" and "map_of (st_versions st) v = Some t"
  shows "canon v t = h ! (v - 1)" "raw_ok v t"
proof -
  show "raw_ok v t" using assms by (simp add: store_log_def)
  have "map_of (st_versions (replay h)) v = Some (canon v t)"
    using assms by (simp add: store_log_def) (metis map_option_eq_Some)
  then show "canon v t = h ! (v - 1)" using replay_version by blast
qed

subsection \<open>Ordered maps of versions\<close>

lemma smap_dropWhile:
  "smap_wf m \<Longrightarrow> dropWhile (\<lambda>(v, t). v \<le> k) m = filter (\<lambda>(v, t). k < v) (m :: (nat, 'v) smap)"
proof (induction m)
  case (Cons x m)
  then show ?case
    by (cases x) (auto intro!: filter_True [symmetric] simp: not_le dest: less_trans)
qed simp

lemma smap_takeWhile:
  "smap_wf m \<Longrightarrow> takeWhile (\<lambda>(v, t). v \<le> k) m = filter (\<lambda>(v, t). v \<le> k) (m :: (nat, 'v) smap)"
proof (induction m)
  case (Cons x m)
  then show ?case
    by (cases x) (auto intro!: filter_False [symmetric] simp: not_le dest: less_trans)
qed simp

text \<open>The versions of a message that come next.\<close>

definition next_versions :: "px_msg \<Rightarrow> paxos \<Rightarrow> (nat, txn) smap" where
  "next_versions m p = filter (\<lambda>(v, t). last_committed p < v \<and> v \<le> pm_last_committed m) (pm_values m)"

lemma next_versions_scan:
  "smap_wf (pm_values m) \<Longrightarrow>
   takeWhile (\<lambda>(v, t). v \<le> pm_last_committed m) (dropWhile (\<lambda>(v, t). v \<le> last_committed p) (pm_values m)) = next_versions m p"
  by (simp add: smap_dropWhile smap_takeWhile smap_wf_filter next_versions_def)
     (rule filter_cong, auto)

lemma fold_commit_last_committed [simp]: "st_last_committed (fold commit_version vs st) = st_last_committed st"
proof -
  have ops: "st_last_committed (fold apply_op t s) = st_last_committed s" for t s
  proof (induction t arbitrary: s)
    case (Cons x t)
    then show ?case by (cases x) auto
  qed simp
  show ?thesis
    by (induction vs arbitrary: st) (auto simp: commit_version_def apply_txn_def put_version_def ops)
qed

end
