(* ===== verification/Paxos_Voting.thy ===== *)
theory Paxos_Voting
  imports Ceph_Prelude
begin

text \<open>
  Voting, the abstract core of the protocol. A vote is a monitor, a version, a proposal number and a value. A
  value may be proposed under a number when a quorum has promised that number and either none of them has
  voted under a lower one, or the value is that of the highest lower number any of them has voted under. Then
  one value at most is decided for a version, whatever the quorums are as long as any two of them meet.
\<close>

type_synonym ('a, 'v) vote = "'a \<times> nat \<times> nat \<times> 'v"

definition decided :: "('a set \<Rightarrow> bool) \<Rightarrow> ('a, 'v) vote set \<Rightarrow> nat \<Rightarrow> 'v \<Rightarrow> bool" where
  "decided quo V v t \<longleftrightarrow> (\<exists>pn Q. quo Q \<and> (\<forall>j\<in>Q. (j, v, pn, t) \<in> V))"

definition free_below :: "('a, 'v) vote set \<Rightarrow> 'a set \<Rightarrow> nat \<Rightarrow> nat \<Rightarrow> nat \<Rightarrow> bool" where
  "free_below V Q v lo pn \<longleftrightarrow> (\<forall>q\<in>Q. \<forall>b u. (q, v, b, u) \<in> V \<longrightarrow> b \<le> lo \<or> pn \<le> b)"

text \<open>\<open>may_propose\<close>: the highest number below \<open>pn\<close> under which \<open>Q\<close> voted is 0, for none, or \<open>lo\<close>.\<close>

definition may_propose :: "('a set \<Rightarrow> bool) \<Rightarrow> ('a \<Rightarrow> nat) \<Rightarrow> ('a, 'v) vote set \<Rightarrow> nat \<Rightarrow> nat \<Rightarrow> 'v \<Rightarrow> bool" where
  "may_propose quo acc V v pn t \<longleftrightarrow> (\<exists>Q lo. quo Q \<and> (\<forall>q\<in>Q. pn \<le> acc q) \<and> free_below V Q v lo pn \<and>
     (lo = 0 \<or> lo < pn \<and> (\<exists>q. (q, v, lo, t) \<in> V)))"

definition one_value :: "('a, 'v) vote set \<Rightarrow> bool" where
  "one_value V \<longleftrightarrow> (\<forall>i j v pn t u. (i, v, pn, t) \<in> V \<longrightarrow> (j, v, pn, u) \<in> V \<longrightarrow> t = u)"

definition votes_ok :: "('a set \<Rightarrow> bool) \<Rightarrow> ('a \<Rightarrow> nat) \<Rightarrow> ('a, 'v) vote set \<Rightarrow> bool" where
  "votes_ok quo acc V \<longleftrightarrow> one_value V \<and> (\<forall>i v pn t. (i, v, pn, t) \<in> V \<longrightarrow> 0 < pn \<and> may_propose quo acc V v pn t)"

lemma decided_mono: "decided quo V v t \<Longrightarrow> V \<subseteq> V' \<Longrightarrow> decided quo V' v t"
  unfolding decided_def by blast

lemma may_propose_mono:
  assumes "may_propose quo acc V v pn t" and "V \<subseteq> V'" and "\<And>q. acc q \<le> acc' q"
    and "\<And>q w b u. (q, w, b, u) \<in> V' \<Longrightarrow> (q, w, b, u) \<in> V \<or> acc q \<le> b"
  shows "may_propose quo acc' V' v pn t"
proof -
  obtain Q lo where Q: "quo Q" "\<forall>q\<in>Q. pn \<le> acc q" "free_below V Q v lo pn" "lo = 0 \<or> lo < pn \<and> (\<exists>q. (q, v, lo, t) \<in> V)"
    using assms(1) unfolding may_propose_def by blast
  have "\<forall>q\<in>Q. pn \<le> acc' q" using Q(2) assms(3) le_trans by blast
  moreover have "free_below V' Q v lo pn"
    using Q(2,3) assms(4) le_trans unfolding free_below_def by blast
  ultimately show ?thesis using Q(1,4) assms(2) unfolding may_propose_def by blast
qed

lemma votes_ok_acc: "votes_ok quo acc V \<Longrightarrow> (\<And>q. acc q \<le> acc' q) \<Longrightarrow> votes_ok quo acc' V"
  using may_propose_mono [of quo acc V _ _ _ V acc'] unfolding votes_ok_def by blast

lemma votes_ok_insert:
  assumes "votes_ok quo acc V" and "acc j \<le> pn" and "0 < pn"
    and "(\<exists>k. (k, v, pn, t) \<in> V) \<or> (\<forall>k u. (k, v, pn, u) \<notin> V) \<and> may_propose quo acc V v pn t"
  shows "votes_ok quo acc (insert (j, v, pn, t) V)"
proof -
  let ?V = "insert (j, v, pn, t) V"
  have one: "one_value V" using assms(1) by (simp add: votes_ok_def)
  have val: "u = t" if "(k, v, pn, u) \<in> V" for k u
    using assms(4) that one unfolding one_value_def by blast
  then have "one_value ?V" using one unfolding one_value_def by (metis insertE old.prod.inject)
  moreover have keep: "may_propose quo acc ?V w b u" if "may_propose quo acc V w b u" for w b u
    by (rule may_propose_mono [OF that]) (use assms(2) in auto)
  moreover have "may_propose quo acc V v pn t"
    using assms(1,4) unfolding votes_ok_def by blast
  ultimately show ?thesis using assms(1,3) unfolding votes_ok_def by blast
qed

context quorum_system
begin

lemma proposals_agree:
  assumes ok: "votes_ok is_quorum acc V"
    and dec: "is_quorum R" "\<forall>j\<in>R. (j, v, b, t) \<in> V"
  shows "(i, v, pn, u) \<in> V \<Longrightarrow> b \<le> pn \<Longrightarrow> u = t"
proof (induction pn arbitrary: i u rule: less_induct)
  case (less pn)
  obtain k where k: "k \<in> R" using dec(1) quorums_meet [OF dec(1) dec(1)] by blast
  show ?case
  proof (cases "b = pn")
    case True
    then show ?thesis using ok dec(2) k less.prems(1) unfolding votes_ok_def one_value_def by blast
  next
    case False
    then have lt: "b < pn" using less.prems by simp
    obtain Q lo where Q: "is_quorum Q" "free_below V Q v lo pn" "lo = 0 \<or> lo < pn \<and> (\<exists>q. (q, v, lo, u) \<in> V)"
      using ok less.prems(1) unfolding votes_ok_def may_propose_def by blast
    obtain q where q: "q \<in> Q" "q \<in> R" using quorums_meet [OF Q(1) dec(1)] by blast
    then have "(q, v, b, t) \<in> V" using dec(2) by blast
    with lt Q(2) q(1) have "b \<le> lo" unfolding free_below_def by (meson not_le)
    moreover have "0 < b" using ok dec(2) k unfolding votes_ok_def by blast
    ultimately show ?thesis using Q(3) less.IH [of lo] by auto
  qed
qed

lemma decided_unique:
  assumes "votes_ok is_quorum acc V" and "decided is_quorum V v t" and "decided is_quorum V v u"
  shows "t = u"
proof -
  obtain b R where R: "is_quorum R" "\<forall>j\<in>R. (j, v, b, t) \<in> V" using assms(2) unfolding decided_def by blast
  obtain c S where S: "is_quorum S" "\<forall>j\<in>S. (j, v, c, u) \<in> V" using assms(3) unfolding decided_def by blast
  obtain r where r: "r \<in> R" using quorums_meet [OF R(1) R(1)] by blast
  obtain s where s: "s \<in> S" using quorums_meet [OF S(1) S(1)] by blast
  show ?thesis
  proof (cases "b \<le> c")
    case True
    then show ?thesis using proposals_agree [OF assms(1) R] S(2) s by blast
  next
    case False
    then show ?thesis using proposals_agree [OF assms(1) S] R(2) r by (meson nat_le_linear)
  qed
qed

end

text \<open>Quorums of the monitors: more than half of the ranks.\<close>

definition quo :: "nat \<Rightarrow> nat set \<Rightarrow> bool" where
  "quo n Q \<longleftrightarrow> Q \<subseteq> {..<n} \<and> n < 2 * card Q"

interpretation ranks: quorum_system "quo n" for n
proof
  fix q r assume m: "quo n q" "quo n r"
  show "q \<inter> r \<noteq> {}"
  proof
    assume "q \<inter> r = {}"
    moreover have "finite q" "finite r" using m by (auto simp: quo_def intro: finite_subset)
    ultimately have "card q + card r = card (q \<union> r)" by (simp add: card_Un_disjoint)
    also have "\<dots> \<le> card {..<n}" using m by (intro card_mono) (auto simp: quo_def)
    finally show False using m unfolding quo_def by simp
  qed
qed

end
