(* ===== verification/Paxos_Inv.thy ===== *)
theory Paxos_Inv
  imports Paxos_Log Paxos_Voting
begin

text \<open>
  The invariant of the monitors. Besides their states and the messages on their way it speaks of votes (the
  values stored under a number), promises (the numbers accepted from a leader) and counted answers. The
  summary \<open>psum\<close> is what one monitor relies on of the others: it only grows (\<open>grows\<close>), and what is said of
  messages and of the other monitors is kept when it does.
\<close>

definition owner :: "nat \<Rightarrow> nat" where
  "owner pn = pn mod 100"

record psum =
  lcs :: "nat \<Rightarrow> nat"
  accs :: "nat \<Rightarrow> nat"
  lps :: "nat \<Rightarrow> nat"
  votes :: "(nat, txn) vote set"
  proms :: "(nat \<times> nat) set"
  rgs :: "nat \<rightharpoonup> nat \<times> nat list"

definition summ :: "(nat \<Rightarrow> paxos) \<Rightarrow> (nat \<rightharpoonup> nat \<times> nat list) \<Rightarrow> (nat, txn) vote set \<Rightarrow> (nat \<times> nat) set \<Rightarrow> psum" where
  "summ P rg V A = \<lparr>lcs = (\<lambda>i. last_committed (P i)), accs = (\<lambda>i. accepted_pn (P i)), lps = (\<lambda>i. last_pn (P i)),
     votes = V, proms = A, rgs = rg\<rparr>"

lemma summ_simps [simp]:
  "lcs (summ P rg V A) i = last_committed (P i)" "accs (summ P rg V A) i = accepted_pn (P i)"
  "lps (summ P rg V A) i = last_pn (P i)" "votes (summ P rg V A) = V" "proms (summ P rg V A) = A" "rgs (summ P rg V A) = rg"
  by (simp_all add: summ_def)

definition grows :: "nat \<Rightarrow> psum \<Rightarrow> psum \<Rightarrow> bool" where
  "grows i s s' \<longleftrightarrow> (\<forall>k. lcs s k \<le> lcs s' k \<and> accs s k \<le> accs s' k \<and> lps s k \<le> lps s' k) \<and>
     (\<forall>k. k \<noteq> i \<longrightarrow> lcs s' k = lcs s k \<and> accs s' k = accs s k \<and> lps s' k = lps s k) \<and>
     votes s \<subseteq> votes s' \<and> proms s \<subseteq> proms s' \<and> rgs s \<subseteq>\<^sub>m rgs s' \<and>
     (\<forall>j v b t. (j, v, b, t) \<in> votes s' \<longrightarrow> (j, v, b, t) \<in> votes s \<or> j = i \<and> accs s i \<le> b) \<and>
     (\<forall>j b. (j, b) \<in> proms s' \<longrightarrow> (j, b) \<in> proms s \<or> j = i \<and> accs s i < b)"

subsection \<open>Messages\<close>

definition values_ok :: "nat \<Rightarrow> psum \<Rightarrow> px_msg \<Rightarrow> bool" where
  "values_ok n s m \<longleftrightarrow> smap_wf (pm_values m) \<and>
     (\<forall>v t. map_of (pm_values m) v = Some t \<and> v \<le> pm_last_committed m \<longrightarrow>
        1 \<le> v \<and> raw_ok v t \<and> decided (quo n) (votes s) v (canon v t) \<and>
        (\<forall>u. v \<le> u \<and> u \<le> pm_last_committed m \<longrightarrow> u \<in> dom (map_of (pm_values m))))"

definition last_ok :: "nat \<Rightarrow> psum \<Rightarrow> px_msg \<Rightarrow> bool" where
  "last_ok n s m \<longleftrightarrow> pm_pn m \<le> accs s (pm_from m) \<and> pm_last_committed m \<le> lcs s (pm_from m) \<and> values_ok n s m \<and>
     (\<forall>v. pm_first_committed m \<le> v \<and> lcs s (pm_to m) < v \<and> v \<le> pm_last_committed m \<longrightarrow> v \<in> dom (map_of (pm_values m))) \<and>
     (pm_uncommitted_pn m \<noteq> 0 \<longrightarrow> (\<exists>t. map_of (pm_values m) (pm_last_committed m + 1) = Some t \<and> raw_ok (pm_last_committed m + 1) t \<and>
        (pm_from m, pm_last_committed m + 1, pm_uncommitted_pn m, canon (pm_last_committed m + 1) t) \<in> votes s)) \<and>
     (owner (pm_pn m) = pm_to m \<longrightarrow> (pm_from m, pm_pn m) \<in> proms s \<and> pm_uncommitted_pn m < pm_pn m \<and>
        (\<forall>v b t. (pm_from m, v, b, t) \<in> votes s \<and> b < pm_pn m \<longrightarrow>
           v \<le> pm_last_committed m \<or> v \<le> lcs s (pm_to m) \<or> v = pm_last_committed m + 1 \<and> b \<le> pm_uncommitted_pn m))"

fun op_ok :: "px_op \<Rightarrow> nat \<Rightarrow> psum \<Rightarrow> nat \<Rightarrow> px_msg \<Rightarrow> bool" where
  "op_ok OP_COLLECT n s l m \<longleftrightarrow> pm_from m = l \<and> owner (pm_pn m) = pm_from m \<and> pm_pn m \<le> lps s (pm_from m) \<and>
     pm_last_committed m \<le> lcs s (pm_from m) \<and> 0 < pm_pn m"
| "op_ok OP_LAST n s l m \<longleftrightarrow> pm_to m = l \<and> last_ok n s m"
| "op_ok OP_BEGIN n s l m \<longleftrightarrow> pm_from m = l \<and> owner (pm_pn m) = pm_from m \<and>
     (\<exists>t. pm_values m = [(pm_last_committed m + 1, t)] \<and> raw_ok (pm_last_committed m + 1) t \<and>
        (pm_from m, pm_last_committed m + 1, pm_pn m, canon (pm_last_committed m + 1) t) \<in> votes s)"
| "op_ok OP_ACCEPT n s l m \<longleftrightarrow> pm_to m = l \<and> owner (pm_pn m) = pm_to m \<and>
     (\<exists>t. (pm_from m, pm_last_committed m + 1, pm_pn m, t) \<in> votes s)"
| "op_ok OP_COMMIT n s l m \<longleftrightarrow> pm_from m = l \<and> values_ok n s m"
| "op_ok OP_LEASE n s l m \<longleftrightarrow> pm_from m = l"
| "op_ok OP_LEASE_ACK n s l m \<longleftrightarrow> pm_to m = l"

definition msg_ok :: "nat \<Rightarrow> psum \<Rightarrow> px_msg \<Rightarrow> bool" where
  "msg_ok n s m \<longleftrightarrow> (pm_op m \<noteq> OP_COMMIT \<longrightarrow> pm_from m < n \<and> pm_to m < n \<and> pm_from m \<noteq> pm_to m) \<and>
     (\<exists>l q. rgs s (pm_epoch m) = Some (l, q) \<and> pm_from m \<in> set q \<and> (pm_op m \<noteq> OP_COMMIT \<longrightarrow> pm_to m \<in> set q) \<and> op_ok (pm_op m) n s l m)"

lemma values_ok_mono: "values_ok n s m \<Longrightarrow> votes s \<subseteq> votes s' \<Longrightarrow> values_ok n s' m"
  unfolding values_ok_def using decided_mono by metis

lemma last_ok_grows:
  assumes ok: "last_ok n s m" and g: "grows i s s'"
  shows "last_ok n s' m"
proof -
  have mono: "lcs s k \<le> lcs s' k" "accs s k \<le> accs s' k" "votes s \<subseteq> votes s'" "proms s \<subseteq> proms s'" for k
    using g by (auto simp: grows_def)
  have old: "(j, v, b, t) \<in> votes s" if "(j, v, b, t) \<in> votes s'" "b < pm_pn m" "j = pm_from m" for j v b t
  proof -
    have "pm_pn m \<le> accs s (pm_from m)" using ok by (simp add: last_ok_def)
    moreover have "(j, v, b, t) \<in> votes s \<or> j = i \<and> accs s i \<le> b" using that(1) g unfolding grows_def by blast
    ultimately show ?thesis using that(2,3) by auto
  qed
  show ?thesis
    using ok mono values_ok_mono [OF _ mono(3)] old unfolding last_ok_def
    by (smt (verit, best) le_less_trans le_trans subsetD)
qed

lemma op_ok_grows: "op_ok oper n s l m \<Longrightarrow> grows i s s' \<Longrightarrow> op_ok oper n s' l m"
proof (cases oper)
  case OP_COLLECT
  assume "op_ok oper n s l m" "grows i s s'"
  then show ?thesis using OP_COLLECT by (auto simp: grows_def intro: le_trans)
qed (auto simp: last_ok_grows grows_def intro: values_ok_mono)

lemma msg_ok_grows: "msg_ok n s m \<Longrightarrow> grows i s s' \<Longrightarrow> msg_ok n s' m"
  unfolding msg_ok_def using op_ok_grows map_le_def [of "rgs s" "rgs s'"] grows_def [of i s s']
  by (metis domI)

subsection \<open>Monitors\<close>

definition store_ok :: "paxos \<Rightarrow> bool" where
  "store_ok p \<longleftrightarrow> smap_wf (st_versions (px_store p)) \<and>
     (\<forall>v\<in>dom (map_of (st_versions (px_store p))). 1 \<le> v \<and> v \<le> last_committed p + 1) \<and>
     st_last_committed (px_store p) = last_committed p \<and> st_first_committed (px_store p) = first_committed p \<and>
     st_last_pn (px_store p) = last_pn p \<and> st_accepted_pn (px_store p) \<le> accepted_pn p \<and>
     (map_of (st_versions (px_store p)) (last_committed p + 1) \<noteq> None \<longrightarrow> st_pending_v (px_store p) = last_committed p + 1)"

definition log_ok :: "nat \<Rightarrow> psum \<Rightarrow> paxos \<Rightarrow> bool" where
  "log_ok n s p \<longleftrightarrow> (\<exists>h. length h = last_committed p \<and> good_log h \<and> store_log (px_store p) h \<and>
     (\<forall>k<last_committed p. decided (quo n) (votes s) (k + 1) (h ! k)))"

text \<open>A monitor's own votes are under numbers it has accepted; the last one for the next version is stored.\<close>

definition ballot_ok :: "psum \<Rightarrow> nat \<Rightarrow> paxos \<Rightarrow> bool" where
  "ballot_ok s i p \<longleftrightarrow>
     (\<forall>v b t. (i, v, b, t) \<in> votes s \<longrightarrow> b \<le> accepted_pn p \<and> 1 \<le> v \<and> v \<le> last_committed p + 1 \<and>
        (v = last_committed p + 1 \<longrightarrow> b \<le> st_pending_pn (px_store p) \<and> map_of (st_versions (px_store p)) v \<noteq> None)) \<and>
     (\<forall>t. map_of (st_versions (px_store p)) (last_committed p + 1) = Some t \<longrightarrow> raw_ok (last_committed p + 1) t \<and>
        0 < st_pending_pn (px_store p) \<and>
        (i, last_committed p + 1, st_pending_pn (px_store p), canon (last_committed p + 1) t) \<in> votes s)"

definition base_ok :: "nat \<Rightarrow> psum \<Rightarrow> nat \<Rightarrow> paxos \<Rightarrow> bool" where
  "base_ok n s i p \<longleftrightarrow> px_rank p = i \<and> px_size p = n \<and> store_ok p \<and> log_ok n s p \<and> ballot_ok s i p \<and>
     (\<forall>t. pending_proposal p = Some t \<longrightarrow> services_only t) \<and>
     (accepted_pn p = 0 \<or> (i, accepted_pn p) \<in> proms s \<or> owner (accepted_pn p) = i \<and> accepted_pn p \<le> last_pn p)"

text \<open>What a collecting leader knows: no monitor that answered has voted under a lower number for a version we
  have not committed, except for the next one, and then not under a higher number than the value we
  remember.\<close>

definition knows :: "psum \<Rightarrow> (nat \<times> nat) set \<Rightarrow> nat \<Rightarrow> paxos \<Rightarrow> bool" where
  "knows s K i p \<longleftrightarrow>
     (\<forall>j v b t. (j = i \<or> (j, accepted_pn p) \<in> K) \<and> (j, v, b, t) \<in> votes s \<and> b < accepted_pn p \<longrightarrow>
        v \<le> last_committed p \<or> v = last_committed p + 1 \<and> uncommitted_v p = last_committed p + 1 \<and> b \<le> uncommitted_pn p) \<and>
     (if uncommitted_v p = 0 then uncommitted_pn p = 0 \<and> uncommitted_value p = None
      else uncommitted_v p = last_committed p + 1 \<and> uncommitted_pn p < accepted_pn p \<and>
        (\<exists>t j. uncommitted_value p = Some t \<and> raw_ok (last_committed p + 1) t \<and>
           (j, last_committed p + 1, uncommitted_pn p, canon (last_committed p + 1) t) \<in> votes s))"

definition settled :: "psum \<Rightarrow> paxos \<Rightarrow> bool" where
  "settled s p \<longleftrightarrow> (\<forall>j v b t. j \<in> set (px_quorum p) \<and> (j, v, b, t) \<in> votes s \<and> b < accepted_pn p \<longrightarrow>
     v \<le> last_committed p \<or> v = last_committed p + 1 \<and> new_value p \<noteq> None)"

definition counted :: "(nat \<times> nat) set \<Rightarrow> nat \<Rightarrow> nat set" where
  "counted K pn = {j. (j, pn) \<in> K}"

text \<open>The round under way.\<close>

definition proposal_ok :: "psum \<Rightarrow> nat \<Rightarrow> paxos \<Rightarrow> bool" where
  "proposal_ok s i p \<longleftrightarrow>
     (case new_value p of
        None \<Rightarrow> \<forall>v t. (i, v, accepted_pn p, t) \<in> votes s \<longrightarrow> v \<le> last_committed p
      | Some t \<Rightarrow> map_of (st_versions (px_store p)) (last_committed p + 1) = Some t \<and> st_pending_pn (px_store p) = accepted_pn p \<and>
          i \<in> set (accepted p) \<and> set (accepted p) \<subseteq> set (px_quorum p) \<and>
          (\<forall>j\<in>set (accepted p). (j, last_committed p + 1, accepted_pn p, canon (last_committed p + 1) t) \<in> votes s)) \<and>
     (\<forall>v t. queued p = Some (v, t) \<longrightarrow> v = last_committed p + 1 \<and> new_value p = Some t \<and> accepted p = px_quorum p)"

definition leader_ok :: "nat \<Rightarrow> psum \<Rightarrow> (nat \<times> nat) set \<Rightarrow> nat \<Rightarrow> paxos \<Rightarrow> bool" where
  "leader_ok n s K i p \<longleftrightarrow> rgs s (px_epoch p) = Some (i, px_quorum p) \<and> owner (accepted_pn p) = i \<and> last_pn p = accepted_pn p \<and>
     0 < accepted_pn p \<and> num_last p = 1 + card (counted K (accepted_pn p)) \<and>
     counted K (accepted_pn p) \<subseteq> set (px_quorum p) - {i} \<and>
     (if state p = RECOVERING then new_value p = None \<and> knows s K i p
      else counted K (accepted_pn p) = set (px_quorum p) - {i} \<and> settled s p) \<and>
     proposal_ok s i p"

definition role_ok :: "nat \<Rightarrow> psum \<Rightarrow> (nat \<times> nat) set \<Rightarrow> nat \<Rightarrow> paxos \<Rightarrow> bool" where
  "role_ok n s K i p \<longleftrightarrow> (queued p \<noteq> None \<longrightarrow> px_role p = LEADER \<and> is_writing p) \<and>
     (px_role p = PEON \<longrightarrow> rgs s (px_epoch p) = Some (px_leader p, px_quorum p) \<and> px_leader p \<noteq> i) \<and>
     (px_role p = LEADER \<longrightarrow> leader_ok n s K i p)"

definition prefix_ok :: "nat \<Rightarrow> psum \<Rightarrow> nat \<Rightarrow> txn \<Rightarrow> bool" where
  "prefix_ok n s v t \<longleftrightarrow> (\<exists>h. length h + 1 = v \<and> (\<forall>k<length h. decided (quo n) (votes s) (k + 1) (h ! k)) \<and> good_log (h @ [t]))"

definition glob_ok :: "nat \<Rightarrow> psum \<Rightarrow> (nat \<times> nat) set \<Rightarrow> bool" where
  "glob_ok n s K \<longleftrightarrow> (\<forall>e l q. rgs s e = Some (l, q) \<longrightarrow> is_quorum n q \<and> l \<in> set q) \<and>
     (\<forall>j b. (j, b) \<in> proms s \<longrightarrow> j < n \<and> 0 < b \<and> b \<le> accs s j \<and> owner b \<noteq> j \<and> b \<le> lps s (owner b)) \<and> K \<subseteq> proms s \<and>
     (\<forall>j v b t. (j, v, b, t) \<in> votes s \<longrightarrow> j < n \<and> owner b < n \<and> b \<le> lps s (owner b) \<and> (owner b, v, b, t) \<in> votes s \<and> prefix_ok n s v t) \<and>
     votes_ok (quo n) (accs s) (votes s)"

lemma log_ok_mono: "log_ok n s p \<Longrightarrow> votes s \<subseteq> votes s' \<Longrightarrow> log_ok n s' p"
  unfolding log_ok_def using decided_mono by metis

lemma prefix_ok_mono: "prefix_ok n s v t \<Longrightarrow> votes s \<subseteq> votes s' \<Longrightarrow> prefix_ok n s' v t"
  unfolding prefix_ok_def using decided_mono by metis

lemma base_ok_grows:
  assumes "base_ok n s k p" and "grows i s s'" and "k \<noteq> i"
  shows "base_ok n s' k p"
proof -
  have same: "(k, v, b, t) \<in> votes s' \<longleftrightarrow> (k, v, b, t) \<in> votes s" for v b t
    using assms(2,3) unfolding grows_def by blast
  have sub: "votes s \<subseteq> votes s'" "proms s \<subseteq> proms s'" using assms(2) by (auto simp: grows_def)
  have "ballot_ok s' k p" using assms(1) by (simp add: base_ok_def ballot_ok_def same)
  moreover have "log_ok n s' p" using assms(1) log_ok_mono [OF _ sub(1)] by (simp add: base_ok_def)
  ultimately show ?thesis using assms(1) sub(2) unfolding base_ok_def by blast
qed

lemma leader_ok_grows:
  assumes ok: "leader_ok n s K k p" and glob: "glob_ok n s K" and g: "grows i s s'" and "k \<noteq> i"
    and K: "counted K' (accepted_pn p) = counted K (accepted_pn p)"
  shows "leader_ok n s' K' k p"
proof -
  have same: "(k, v, b, t) \<in> votes s' \<longleftrightarrow> (k, v, b, t) \<in> votes s" for v b t
    using assms(3,4) unfolding grows_def by blast
  have sub: "votes s \<subseteq> votes s'" "rgs s \<subseteq>\<^sub>m rgs s'" using g by (auto simp: grows_def)
  have K': "(j, accepted_pn p) \<in> K' \<longleftrightarrow> (j, accepted_pn p) \<in> K" for j using K by (auto simp: counted_def)
  have old: "(j, v, b, t) \<in> votes s"
    if "(j, v, b, t) \<in> votes s'" "b < accepted_pn p" "j = k \<or> (j, accepted_pn p) \<in> K" for j v b t
  proof (rule ccontr)
    assume "(j, v, b, t) \<notin> votes s"
    then have j: "j = i" "accs s i \<le> b" using that(1) g unfolding grows_def by blast+
    then have "(i, accepted_pn p) \<in> proms s" using that(3) \<open>k \<noteq> i\<close> glob unfolding glob_ok_def by blast
    then have "accepted_pn p \<le> accs s i" using glob unfolding glob_ok_def by blast
    with j(2) that(2) show False by simp
  qed
  have "rgs s' (px_epoch p) = Some (k, px_quorum p)"
    using ok sub(2) unfolding leader_ok_def map_le_def by (metis domI)
  moreover have "proposal_ok s' k p"
    using ok sub(1) same unfolding leader_ok_def proposal_ok_def by (auto split: option.splits)
  moreover have "knows s' K' k p" if "knows s K k p"
    using that old sub(1) unfolding knows_def K' by (smt (verit, best) subsetD)
  moreover have "settled s' p" if "counted K (accepted_pn p) = set (px_quorum p) - {k}" "settled s p"
    using that old unfolding settled_def counted_def
    by (metis (mono_tags, lifting) Diff_iff mem_Collect_eq singletonD)
  ultimately show ?thesis using ok unfolding leader_ok_def K by (auto split: if_splits)
qed

lemma role_ok_grows:
  assumes "role_ok n s K k p" and "glob_ok n s K" and "grows i s s'" and "k \<noteq> i"
    and "px_role p = LEADER \<longrightarrow> counted K' (accepted_pn p) = counted K (accepted_pn p)"
  shows "role_ok n s' K' k p"
proof -
  have "rgs s \<subseteq>\<^sub>m rgs s'" using assms(3) by (simp add: grows_def)
  then show ?thesis
    using assms leader_ok_grows [OF _ assms(2,3,4)] unfolding role_ok_def map_le_def by (metis domI)
qed

subsection \<open>Growing sets of votes and promises\<close>

lemma glob_ok_grows:
  assumes ok: "glob_ok n s K" and g: "grows i s s'" and rg: "\<forall>e l q. rgs s' e = Some (l, q) \<longrightarrow> is_quorum n q \<and> l \<in> set q"
    and "votes s' = votes s" and "proms s' = proms s" and K: "K' \<subseteq> proms s"
  shows "glob_ok n s' K'"
proof -
  have le: "accs s k \<le> accs s' k" "lps s k \<le> lps s' k" for k using g by (auto simp: grows_def)
  have prefix: "prefix_ok n s' v t" if "prefix_ok n s v t" for v t
    using prefix_ok_mono [OF that, of s'] assms(4) by simp
  have "votes_ok (quo n) (accs s') (votes s')"
    using ok votes_ok_acc le(1) unfolding glob_ok_def assms(4) by blast
  moreover have "j < n \<and> 0 < b \<and> b \<le> accs s' j \<and> owner b \<noteq> j \<and> b \<le> lps s' (owner b)" if "(j, b) \<in> proms s'" for j b
    using that ok le le_trans unfolding glob_ok_def assms(5) by metis
  moreover have "j < n \<and> owner b < n \<and> b \<le> lps s' (owner b) \<and> (owner b, v, b, t) \<in> votes s' \<and> prefix_ok n s' v t"
    if "(j, v, b, t) \<in> votes s'" for j v b t
    using that ok le prefix le_trans unfolding glob_ok_def assms(4) by metis
  ultimately show ?thesis using rg K assms(5) unfolding glob_ok_def by blast
qed

lemma glob_ok_promise:
  assumes ok: "glob_ok n s K" and "j < n" and "0 < b" and "owner b \<noteq> j" and "b \<le> lps s (owner b)" and "b \<le> accs s j"
  shows "glob_ok n (s\<lparr>proms := insert (j, b) (proms s)\<rparr>) K"
proof -
  have "prefix_ok n (s\<lparr>proms := A\<rparr>) v t = prefix_ok n s v t" for A v t by (simp add: prefix_ok_def)
  then show ?thesis using assms unfolding glob_ok_def by auto
qed

lemma glob_ok_vote:
  assumes ok: "glob_ok n s K" and "j < n" and "0 < b" and "accs s j = b" and "(k, v, b, t) \<in> votes s"
  shows "glob_ok n (s\<lparr>votes := insert (j, v, b, t) (votes s)\<rparr>) K"
proof -
  have "votes_ok (quo n) (accs s) (insert (j, v, b, t) (votes s))"
    using ok assms by (intro votes_ok_insert) (auto simp: glob_ok_def)
  moreover have "prefix_ok n (s\<lparr>votes := insert (j, v, b, t) (votes s)\<rparr>) w u" if "prefix_ok n s w u" for w u
    by (rule prefix_ok_mono [OF that]) auto
  moreover have "owner b < n \<and> b \<le> lps s (owner b) \<and> (owner b, v, b, t) \<in> votes s \<and> prefix_ok n s v t"
    using ok assms(5) unfolding glob_ok_def by blast
  ultimately show ?thesis using ok assms(2) unfolding glob_ok_def by auto
qed

lemma glob_ok_propose:
  assumes ok: "glob_ok n s K" and "i < n" and "0 < b" and "accs s i = b" and "owner b = i" and "b \<le> lps s i"
    and "\<forall>k u. (k, v, b, u) \<notin> votes s" and "may_propose (quo n) (accs s) (votes s) v b t" and "prefix_ok n s v t"
  shows "glob_ok n (s\<lparr>votes := insert (i, v, b, t) (votes s)\<rparr>) K"
proof -
  have "votes_ok (quo n) (accs s) (insert (i, v, b, t) (votes s))"
    using ok assms by (intro votes_ok_insert) (auto simp: glob_ok_def)
  moreover have "prefix_ok n (s\<lparr>votes := insert (i, v, b, t) (votes s)\<rparr>) w u" if "prefix_ok n s w u" for w u
    by (rule prefix_ok_mono [OF that]) auto
  ultimately show ?thesis using ok assms unfolding glob_ok_def by auto
qed

subsection \<open>The messages on their way\<close>

definition is_msg :: "px_op \<Rightarrow> nat \<Rightarrow> nat \<Rightarrow> px_msg \<Rightarrow> bool" where
  "is_msg oper i j m \<longleftrightarrow> pm_op m = oper \<and> pm_from m = i \<and> pm_to m = j"

definition collects :: "nat \<Rightarrow> nat \<Rightarrow> px_msg list \<Rightarrow> nat list" where
  "collects i j net = map pm_pn (filter (is_msg OP_COLLECT i j) net)"

text \<open>The positive answers of a monitor to a number, and the proposals and acceptances of a round.\<close>

definition answers :: "nat \<Rightarrow> nat \<Rightarrow> px_msg list \<Rightarrow> nat" where
  "answers j pn net = length (filter (\<lambda>m. is_msg OP_LAST j (owner pn) m \<and> pm_pn m = pn) net)"

definition in_round :: "nat \<Rightarrow> nat \<Rightarrow> nat \<Rightarrow> px_msg \<Rightarrow> bool" where
  "in_round i j pn m \<longleftrightarrow> (is_msg OP_BEGIN i j m \<or> is_msg OP_ACCEPT j i m) \<and> pm_pn m = pn"

definition asked :: "nat \<Rightarrow> nat \<Rightarrow> nat \<Rightarrow> px_msg list \<Rightarrow> nat" where
  "asked i j pn net = length (filter (in_round i j pn) net)"

text \<open>Collects to one monitor have growing numbers it has not promised yet; a number is answered or counted once;
  an answer that comes after a counted one brings nothing new.\<close>

definition collect_ok :: "px_msg list \<Rightarrow> (nat \<times> nat) set \<Rightarrow> bool" where
  "collect_ok net A \<longleftrightarrow> (\<forall>i j. sorted_wrt (<) (collects i j net)) \<and>
     (\<forall>m\<in>set net. pm_op m = OP_COLLECT \<longrightarrow> (\<forall>b\<ge>pm_pn m. owner b = pm_from m \<longrightarrow> (pm_to m, b) \<notin> A))"

definition once_ok :: "px_msg list \<Rightarrow> (nat \<times> nat) set \<Rightarrow> bool" where
  "once_ok net K \<longleftrightarrow> (\<forall>j b. answers j b net + (if (j, b) \<in> K then 1 else 0) \<le> 1)"

definition order_ok :: "px_msg list \<Rightarrow> bool" where
  "order_ok net \<longleftrightarrow> (\<forall>m\<in>set net. \<forall>m'\<in>set net. pm_op m = OP_LAST \<and> pm_op m' = OP_LAST \<and> pm_from m = pm_from m' \<and>
     pm_pn m < pm_pn m' \<longrightarrow> pm_last_committed m \<le> pm_last_committed m')"

definition stale_ok :: "(nat \<Rightarrow> paxos) \<Rightarrow> px_msg list \<Rightarrow> (nat \<times> nat) set \<Rightarrow> bool" where
  "stale_ok P net K \<longleftrightarrow> (\<forall>m\<in>set net. \<forall>b. pm_op m = OP_LAST \<and> (pm_from m, b) \<in> K \<and> pm_pn m < b \<longrightarrow>
     pm_last_committed m \<le> last_committed (P (owner b)))"

definition later_ok :: "(nat \<Rightarrow> paxos) \<Rightarrow> px_msg list \<Rightarrow> (nat \<times> nat) set \<Rightarrow> bool" where
  "later_ok P net A \<longleftrightarrow> (\<forall>m\<in>set net. pm_op m = OP_LAST \<and> px_role (P (pm_to m)) = LEADER \<and> px_epoch (P (pm_to m)) = pm_epoch m \<and>
     accepted_pn (P (pm_to m)) < pm_pn m \<longrightarrow> (pm_from m, accepted_pn (P (pm_to m))) \<notin> A)"

definition answer_ok :: "(nat \<Rightarrow> paxos) \<Rightarrow> px_msg list \<Rightarrow> (nat \<times> nat) set \<Rightarrow> (nat \<times> nat) set \<Rightarrow> bool" where
  "answer_ok P net K A \<longleftrightarrow> once_ok net K \<and> order_ok net \<and> stale_ok P net K \<and> later_ok P net A"

definition round_ok :: "nat \<Rightarrow> paxos \<Rightarrow> px_msg list \<Rightarrow> bool" where
  "round_ok i p net \<longleftrightarrow> (px_role p = LEADER \<longrightarrow>
     (\<forall>j. asked i j (accepted_pn p) net + (if new_value p \<noteq> None \<and> j \<in> set (accepted p) then 1 else 0) \<le> 1) \<and>
     (\<forall>m\<in>set net. \<forall>j. in_round i j (accepted_pn p) m \<longrightarrow> pm_last_committed m = last_committed p \<and> new_value p \<noteq> None \<and>
        j \<in> set (px_quorum p)))"

definition ginv :: "nat \<Rightarrow> (nat \<Rightarrow> paxos) \<Rightarrow> px_msg list \<Rightarrow> (nat \<rightharpoonup> nat \<times> nat list) \<Rightarrow> (nat, txn) vote set \<Rightarrow> (nat \<times> nat) set \<Rightarrow>
    (nat \<times> nat) set \<Rightarrow> bool" where
  "ginv n P net rg V K A \<longleftrightarrow> glob_ok n (summ P rg V A) K \<and> (\<forall>m\<in>set net. msg_ok n (summ P rg V A) m) \<and>
     (\<forall>i<n. base_ok n (summ P rg V A) i (P i) \<and> role_ok n (summ P rg V A) K i (P i)) \<and>
     collect_ok net A \<and> answer_ok P net K A \<and> (\<forall>i<n. round_ok i (P i) net)"

text \<open>One monitor moves: what has to be shown of the new state.\<close>

lemma ginv_step:
  assumes inv: "ginv n P net rg V K A" and "i < n" and g: "grows i (summ P rg V A) (summ (P(i := p)) rg' V' A')"
    and "glob_ok n (summ (P(i := p)) rg' V' A') K'"
    and "base_ok n (summ (P(i := p)) rg' V' A') i p" and "role_ok n (summ (P(i := p)) rg' V' A') K' i p"
    and K: "\<forall>k<n. k \<noteq> i \<and> px_role (P k) = LEADER \<longrightarrow> counted K' (accepted_pn (P k)) = counted K (accepted_pn (P k))"
    and net: "\<forall>m\<in>set net'. m \<in> set net \<or> msg_ok n (summ (P(i := p)) rg' V' A') m"
    and "collect_ok net' A'" and "answer_ok (P(i := p)) net' K' A'" and "\<forall>k<n. round_ok k ((P(i := p)) k) net'"
  shows "ginv n (P(i := p)) net' rg' V' K' A'"
proof -
  have "msg_ok n (summ (P(i := p)) rg' V' A') m" if "m \<in> set net'" for m
    using that net inv msg_ok_grows [OF _ g] unfolding ginv_def by blast
  moreover have "base_ok n (summ (P(i := p)) rg' V' A') k ((P(i := p)) k)" if "k < n" for k
    using that inv assms(5) base_ok_grows [OF _ g] by (auto simp: ginv_def)
  moreover have "role_ok n (summ (P(i := p)) rg' V' A') K' k ((P(i := p)) k)" if "k < n" for k
    using that inv assms(6) role_ok_grows [OF _ _ g] K by (auto simp: ginv_def)
  ultimately show ?thesis using assms unfolding ginv_def by blast
qed

end
