(* ===== verification/Paxos_Steps.thy ===== *)
theory Paxos_Steps
  imports Paxos_Inv
begin

text \<open>
  The moves of the protocol keep the invariant: catching up and committing, asking for a new number, promising,
  counting an answer, proposing, voting, counting a vote. Each handler is a sequence of such moves.
\<close>

lemma net_append [simp]:
  "collects i j (net @ out) = collects i j net @ collects i j out"
  "answers j b (net @ out) = answers j b net + answers j b out"
  "asked i j b (net @ out) = asked i j b net + asked i j b out"
  "collects i j [] = []" "answers j b [] = 0" "asked i j b [] = 0"
  by (simp_all add: collects_def answers_def asked_def)

lemma net_Cons:
  "collects i j (m # net) = (if is_msg OP_COLLECT i j m then pm_pn m # collects i j net else collects i j net)"
  "answers j b (m # net) = (if is_msg OP_LAST j (owner b) m \<and> pm_pn m = b then 1 else 0) + answers j b net"
  "asked i j b (m # net) = (if in_round i j b m then 1 else 0) + asked i j b net"
  by (simp_all add: collects_def answers_def asked_def)

lemma collects_none: "\<forall>m\<in>set out. pm_op m \<noteq> OP_COLLECT \<Longrightarrow> collects i j out = []"
  by (induction out) (auto simp: net_Cons is_msg_def)

lemma answers_none: "\<forall>m\<in>set out. pm_op m \<noteq> OP_LAST \<Longrightarrow> answers j b out = 0"
  by (induction out) (auto simp: net_Cons is_msg_def)

lemma asked_none: "\<forall>m\<in>set out. pm_op m \<noteq> OP_BEGIN \<and> pm_op m \<noteq> OP_ACCEPT \<Longrightarrow> asked i j b out = 0"
  by (induction out) (auto simp: net_Cons is_msg_def in_round_def)

text \<open>Messages that carry no part of a round.\<close>

definition plain :: "px_msg list \<Rightarrow> bool" where
  "plain out \<longleftrightarrow> (\<forall>m\<in>set out. pm_op m \<in> {OP_COMMIT, OP_LEASE, OP_LEASE_ACK})"

lemma plain_simps [simp]: "plain []" "plain (out @ out') \<longleftrightarrow> plain out \<and> plain out'"
  by (auto simp: plain_def)

lemma plain_none:
  assumes "plain out"
  shows "collects i j out = []" "answers j b out = 0" "asked i j b out = 0" "m \<in> set out \<Longrightarrow> pm_op m \<noteq> OP_COLLECT"
    "m \<in> set out \<Longrightarrow> pm_op m \<noteq> OP_LAST" "m \<in> set out \<Longrightarrow> \<not> in_round i j b m"
proof -
  have ops: "pm_op m = OP_COMMIT \<or> pm_op m = OP_LEASE \<or> pm_op m = OP_LEASE_ACK" if "m \<in> set out" for m
    using assms that unfolding plain_def by blast
  then have none: "\<forall>m\<in>set out. pm_op m \<noteq> OP_COLLECT \<and> pm_op m \<noteq> OP_LAST \<and> pm_op m \<noteq> OP_BEGIN \<and> pm_op m \<noteq> OP_ACCEPT"
    by (metis px_op.distinct)
  then show "collects i j out = []" "answers j b out = 0" "asked i j b out = 0"
    by (simp_all add: collects_none answers_none asked_none)
  show "m \<in> set out \<Longrightarrow> pm_op m \<noteq> OP_COLLECT" "m \<in> set out \<Longrightarrow> pm_op m \<noteq> OP_LAST" "m \<in> set out \<Longrightarrow> \<not> in_round i j b m"
    using none by (auto simp: in_round_def is_msg_def)
qed

lemma collect_ok_plain: "plain out \<Longrightarrow> collect_ok (net @ out) A \<longleftrightarrow> collect_ok net A"
  using plain_none unfolding collect_ok_def by (simp add: ball_Un)

lemma round_ok_plain: "plain out \<Longrightarrow> round_ok i p (net @ out) \<longleftrightarrow> round_ok i p net"
  using plain_none unfolding round_ok_def by (simp add: ball_Un)

lemma answer_ok_plain: "plain out \<Longrightarrow> answer_ok P (net @ out) K A \<longleftrightarrow> answer_ok P net K A"
  using plain_none(2,5) [of out] unfolding answer_ok_def once_ok_def order_ok_def stale_ok_def later_ok_def
  by (simp add: ball_Un)

lemma collect_ok_remove: "collect_ok (a @ m # b) A \<Longrightarrow> collect_ok (a @ b) A"
  unfolding collect_ok_def by (auto simp: net_Cons sorted_wrt_append split: if_splits)

lemma round_ok_remove: "round_ok i p (a @ m # b) \<Longrightarrow> round_ok i p (a @ b)"
  unfolding round_ok_def by (fastforce simp: net_Cons split: if_splits)

lemma once_ok_remove: "once_ok (a @ m # b) K \<Longrightarrow> once_ok (a @ b) K"
proof -
  assume "once_ok (a @ m # b) K"
  then have "answers j c (a @ m # b) + (if (j, c) \<in> K then 1 else 0) \<le> 1" for j c by (simp only: once_ok_def)
  moreover have "answers j c (a @ b) \<le> answers j c (a @ m # b)" for j c by (simp add: net_Cons)
  ultimately show ?thesis unfolding once_ok_def by (meson add_le_mono1 le_trans)
qed

lemma answer_ok_remove: "answer_ok P (a @ m # b) K A \<Longrightarrow> answer_ok P (a @ b) K A"
  unfolding answer_ok_def using once_ok_remove by (auto simp: order_ok_def stale_ok_def later_ok_def)

lemma stale_ok_move:
  "stale_ok P net K \<Longrightarrow> last_committed (P i) \<le> last_committed p \<Longrightarrow> stale_ok (P(i := p)) net K"
  unfolding stale_ok_def using le_trans by fastforce

lemma answer_ok_move:
  assumes "answer_ok P net K A" and "last_committed (P i) \<le> last_committed p"
    and "px_role p = LEADER \<longrightarrow> px_role (P i) = LEADER \<and> px_epoch p = px_epoch (P i) \<and> accepted_pn p = accepted_pn (P i)"
  shows "answer_ok (P(i := p)) net K A"
proof -
  have "later_ok (P(i := p)) net A" using assms unfolding answer_ok_def later_ok_def by (auto split: if_splits)
  then show ?thesis using assms(1) stale_ok_move [where P = P and i = i and p = p] assms(2) unfolding answer_ok_def by blast
qed

lemma ginv_drop: "ginv n P (a @ m # b) rg V K A \<Longrightarrow> ginv n P (a @ b) rg V K A"
  unfolding ginv_def by (auto intro: collect_ok_remove answer_ok_remove round_ok_remove)

lemma grows_move:
  "last_committed (P i) \<le> last_committed p \<Longrightarrow> accepted_pn (P i) \<le> accepted_pn p \<Longrightarrow> last_pn (P i) \<le> last_pn p \<Longrightarrow>
   grows i (summ P rg V A) (summ (P(i := p)) rg V A)"
  by (auto simp: grows_def)

lemma ginv_move:
  assumes inv: "ginv n P net rg V K A" and i: "i < n" and lc: "last_committed (P i) \<le> last_committed p"
    and same: "accepted_pn p = accepted_pn (P i)" "last_pn p = last_pn (P i)"
    and base: "base_ok n (summ (P(i := p)) rg V A) i p" and role: "role_ok n (summ (P(i := p)) rg V A) K i p"
    and lead: "px_role p = LEADER \<longrightarrow> px_role (P i) = LEADER \<and> px_epoch p = px_epoch (P i)"
    and round: "round_ok i p net"
    and out: "plain out" "\<forall>m\<in>set out. msg_ok n (summ (P(i := p)) rg V A) m"
  shows "ginv n (P(i := p)) (net @ out) rg V K A"
proof -
  have g: "grows i (summ P rg V A) (summ (P(i := p)) rg V A)"
    using lc same by (intro grows_move) auto
  have glob: "glob_ok n (summ P rg V A) K" using inv by (simp add: ginv_def)
  show ?thesis
  proof (rule ginv_step [OF inv i g _ base role])
    show "glob_ok n (summ (P(i := p)) rg V A) K"
      using glob by (intro glob_ok_grows [OF glob g]) (auto simp: glob_ok_def)
    show "collect_ok (net @ out) A" using inv out(1) by (simp add: ginv_def collect_ok_plain)
    show "answer_ok (P(i := p)) (net @ out) K A"
      using inv out(1) lc lead same by (simp add: ginv_def answer_ok_plain answer_ok_move)
    show "\<forall>k<n. round_ok k ((P(i := p)) k) (net @ out)"
      using inv round out(1) by (simp add: ginv_def round_ok_plain)
    show "\<forall>m\<in>set (net @ out). m \<in> set net \<or> msg_ok n (summ (P(i := p)) rg V A) m" using out(2) by auto
  qed simp
qed

lemma summ_same:
  "last_committed p = last_committed (P i) \<Longrightarrow> accepted_pn p = accepted_pn (P i) \<Longrightarrow> last_pn p = last_pn (P i) \<Longrightarrow>
   summ (P(i := p)) rg V A = summ P rg V A"
  by (auto simp: summ_def fun_eq_iff)

subsection \<open>Catching up\<close>

lemma good_log_extend:
  assumes glob: "glob_ok n s K" and h: "\<forall>k<length h. decided (quo n) (votes s) (k + 1) (h ! k)"
    and t: "decided (quo n) (votes s) (length h + 1) t"
  shows "good_log (h @ [t])"
proof -
  have ok: "votes_ok (quo n) (accs s) (votes s)" using glob by (simp add: glob_ok_def)
  obtain b Q where Q: "quo n Q" "\<forall>j\<in>Q. (j, length h + 1, b, t) \<in> votes s" using t unfolding decided_def by blast
  obtain j where "j \<in> Q" using ranks.quorums_meet [OF Q(1) Q(1)] by blast
  then have "prefix_ok n s (length h + 1) t" using Q(2) glob unfolding glob_ok_def by blast
  then obtain g where g: "length g = length h" "\<forall>k<length g. decided (quo n) (votes s) (k + 1) (g ! k)" "good_log (g @ [t])"
    unfolding prefix_ok_def by auto
  have "g ! k = h ! k" if "k < length h" for k
    using that g(1,2) h ranks.decided_unique [OF ok] by metis
  then have "g = h" using g(1) by (simp add: nth_equalityI)
  then show ?thesis using g(3) by simp
qed

definition log_of :: "nat \<Rightarrow> psum \<Rightarrow> mon_store \<Rightarrow> txn list \<Rightarrow> bool" where
  "log_of n s st h \<longleftrightarrow> smap_wf (st_versions st) \<and> good_log h \<and> store_log st h \<and> (\<forall>k<length h. decided (quo n) (votes s) (k + 1) (h ! k))"

lemma log_of_commit:
  assumes "glob_ok n s K" and "log_of n s st h" and "raw_ok (length h + 1) t" and "decided (quo n) (votes s) (length h + 1) (canon (length h + 1) t)"
    and "smap_wf (st_versions st')" and "map_of (st_versions st') (length h + 1) = Some t"
    and "\<forall>v\<le>length h. map_of (st_versions st') v = map_of (st_versions st) v"
    and "st_services st' = st_services st" and "st_first_committed st' = st_first_committed st"
  shows "log_of n s (apply_txn t st') (h @ [canon (length h + 1) t])"
proof -
  have "good_log (h @ [canon (length h + 1) t])"
    using assms(1,2,4) by (intro good_log_extend) (auto simp: log_of_def)
  moreover have "store_log (apply_txn t st') (h @ [canon (length h + 1) t])"
    using assms by (intro store_log_commit [of st]) (auto simp: log_of_def)
  ultimately show ?thesis
    using assms(2,4,5) by (auto simp: log_of_def apply_txn_versions nth_append less_Suc_eq)
qed

lemma commit_run:
  assumes glob: "glob_ok n s K"
  shows "log_of n s st h \<Longrightarrow> map fst vs = [length h + 1..<length h + 1 + length vs] \<Longrightarrow>
    \<forall>(v, t)\<in>set vs. raw_ok v t \<and> decided (quo n) (votes s) v (canon v t) \<Longrightarrow>
    \<exists>h'. length h' = length h + length vs \<and> log_of n s (fold commit_version vs st) h' \<and>
      dom (map_of (st_versions (fold commit_version vs st))) \<subseteq> dom (map_of (st_versions st)) \<union> set (map fst vs)"
proof (induction vs arbitrary: st h)
  case (Cons x vs)
  obtain v t where x: "x = (v, t)" by (cases x)
  have cut: "[length h + 1..<length h + 1 + length (x # vs)] = (length h + 1) # [length h + 2..<length h + 2 + length vs]"
    by (subst upt_conv_Cons) auto
  then have v: "v = length h + 1" and rest: "map fst vs = [length h + 2..<length h + 2 + length vs]"
    using Cons.prems(2) x by simp_all
  let ?st = "put_version v t st"
  have "log_of n s (apply_txn t ?st) (h @ [canon v t])"
    using Cons.prems(1,3) x unfolding v
    by (intro log_of_commit [OF glob]) (auto simp: log_of_def smap_wf_put map_of_put)
  then obtain h' where h': "length h' = length h + 1 + length vs" "log_of n s (fold commit_version vs (apply_txn t ?st)) h'"
    "dom (map_of (st_versions (fold commit_version vs (apply_txn t ?st)))) \<subseteq> dom (map_of (st_versions (apply_txn t ?st))) \<union> set (map fst vs)"
    using Cons.IH [of "apply_txn t ?st" "h @ [canon v t]"] rest Cons.prems(3) by auto
  moreover have "dom (map_of (st_versions (apply_txn t ?st))) \<subseteq> insert v (dom (map_of (st_versions st)))"
    using Cons.prems(1) by (auto simp: log_of_def apply_txn_versions smap_wf_put map_of_put split: if_splits)
  ultimately have "length h' = length h + length (x # vs) \<and> log_of n s (fold commit_version (x # vs) st) h' \<and>
      dom (map_of (st_versions (fold commit_version (x # vs) st))) \<subseteq> dom (map_of (st_versions st)) \<union> set (map fst (x # vs))"
    by (auto simp: x commit_version_def)
  then show ?case by blast
qed auto

text \<open>The next versions in a message follow one another without a gap.\<close>

lemma next_versions_run:
  assumes ok: "values_ok n s m" and first: "\<not> last_committed p + 1 < fst (hd (pm_values m))" and ne: "next_versions m p \<noteq> []"
  shows "map fst (next_versions m p) = [last_committed p + 1..<pm_last_committed m + 1]"
proof (rule sorted_distinct_set_unique)
  let ?vs = "next_versions m p"
  have wf: "smap_wf (pm_values m)" using ok by (simp add: values_ok_def)
  then have "smap_wf ?vs" by (simp add: next_versions_def smap_wf_filter)
  then show "sorted (map fst ?vs)" "distinct (map fst ?vs)"
    by (auto simp: smap_wf_def strict_sorted_iff)
  obtain v t where v: "(v, t) \<in> set (pm_values m)" "last_committed p < v" "v \<le> pm_last_committed m"
    using ne unfolding next_versions_def by (auto simp: filter_empty_conv)
  obtain k u ms where k: "pm_values m = (k, u) # ms" using v(1) by (cases "pm_values m") auto
  have "k \<le> v" using v(1) wf k by auto
  moreover have "map_of (pm_values m) k = Some u" using k by simp
  ultimately have dom: "w \<in> dom (map_of (pm_values m))" if "k \<le> w" "w \<le> pm_last_committed m" for w
    using ok v(3) that le_trans unfolding values_ok_def by blast
  have "w \<in> fst ` set (pm_values m)" if "last_committed p < w" "w \<le> pm_last_committed m" for w
    using dom [OF _ that(2)] first k that(1) by (simp add: dom_map_of_conv_image_fst)
  then have "{w. last_committed p < w \<and> w \<le> pm_last_committed m} \<subseteq> fst ` set ?vs"
    unfolding next_versions_def by (force simp: image_iff)
  moreover have "fst ` set ?vs \<subseteq> {w. last_committed p < w \<and> w \<le> pm_last_committed m}"
    unfolding next_versions_def by auto
  ultimately have "fst ` set ?vs = {w. last_committed p < w \<and> w \<le> pm_last_committed m}" by blast
  then show "set (map fst ?vs) = set [last_committed p + 1..<pm_last_committed m + 1]" by (simp only: set_map) auto
qed (simp_all del: upt_Suc)

definition learned :: "nat \<Rightarrow> mon_store \<Rightarrow> paxos \<Rightarrow> paxos" where
  "learned lc st p = p\<lparr>last_committed := lc, px_store := st, first_committed := st_first_committed st,
     uncommitted_v := (if uncommitted_v p \<noteq> 0 \<and> uncommitted_v p \<le> lc then 0 else uncommitted_v p),
     uncommitted_pn := (if uncommitted_v p \<noteq> 0 \<and> uncommitted_v p \<le> lc then 0 else uncommitted_pn p),
     uncommitted_value := (if uncommitted_v p \<noteq> 0 \<and> uncommitted_v p \<le> lc then None else uncommitted_value p)\<rparr>"

lemma store_state_cases:
  assumes "smap_wf (pm_values m)"
  shows "store_state m p =
    (if pm_values m \<noteq> [] \<and> last_committed p + 1 < fst (hd (pm_values m)) \<or> next_versions m p = [] then Some (False, p)
     else Some (True, learned (fst (last (next_versions m p)))
       (fold commit_version (next_versions m p) ((px_store p)\<lparr>st_last_committed := fst (last (next_versions m p))\<rparr>)) p))"
  unfolding store_state_def Let_def next_versions_scan [OF assms] by (simp add: learned_def)

lemma fold_commit_keeps [simp]:
  "st_last_pn (fold commit_version vs st) = st_last_pn st" "st_accepted_pn (fold commit_version vs st) = st_accepted_pn st"
  "st_pending_v (fold commit_version vs st) = st_pending_v st" "st_pending_pn (fold commit_version vs st) = st_pending_pn st"
  by (induction vs arbitrary: st) (auto simp: commit_version_def)

lemma base_ok_learned:
  assumes base: "base_ok n s i p" and lt: "last_committed p < lc" and h: "log_of n s st h" "length h = lc"
    and keys: "\<And>v. v \<in> dom (map_of (st_versions st)) \<Longrightarrow> 1 \<le> v \<and> v \<le> lc"
    and st: "st_last_committed st = lc" "st_last_pn st = st_last_pn (px_store p)" "st_accepted_pn st = st_accepted_pn (px_store p)"
  shows "base_ok n s i (learned lc st p)"
proof -
  have none: "map_of (st_versions st) (lc + 1) = None" using keys [of "lc + 1"] by (cases "map_of (st_versions st) (lc + 1)") auto
  have "1 \<le> v \<and> v \<le> lc + 1" if "v \<in> dom (map_of (st_versions st))" for v using keys [OF that] by simp
  then have "store_ok (learned lc st p)"
    using base st none h(1) by (simp add: learned_def base_ok_def store_ok_def log_of_def)
  moreover have "log_ok n s (learned lc st p)" using h by (auto simp: learned_def log_ok_def log_of_def)
  moreover have "ballot_ok s i (learned lc st p)"
    using base none lt unfolding base_ok_def ballot_ok_def by (fastforce simp: learned_def)
  ultimately show ?thesis using base by (simp add: base_ok_def) (simp add: learned_def)
qed

lemma store_state_learns:
  assumes glob: "glob_ok n s K" and base: "base_ok n s i p" and ok: "values_ok n s m" and st: "store_state m p = Some (ch, p')"
  shows "p' = p \<and> (pm_last_committed m \<le> last_committed p \<or> last_committed p + 1 \<notin> dom (map_of (pm_values m))) \<or>
    last_committed p < pm_last_committed m \<and> (\<exists>st. p' = learned (pm_last_committed m) st p) \<and> base_ok n s i p'"
proof (cases "pm_values m \<noteq> [] \<and> last_committed p + 1 < fst (hd (pm_values m)) \<or> next_versions m p = []")
  case True
  have wf: "smap_wf (pm_values m)" using ok by (simp add: values_ok_def)
  have "last_committed p + 1 \<notin> dom (map_of (pm_values m))" if "last_committed p < pm_last_committed m"
  proof
    assume "last_committed p + 1 \<in> dom (map_of (pm_values m))"
    then obtain t where t: "(last_committed p + 1, t) \<in> set (pm_values m)" by (auto dest: map_of_SomeD)
    then have "(last_committed p + 1, t) \<in> set (next_versions m p)" using that by (simp add: next_versions_def)
    moreover have "fst (hd (pm_values m)) \<le> last_committed p + 1" using t wf by (cases "pm_values m") (force intro: less_imp_le)+
    ultimately show False using True by auto
  qed
  then show ?thesis using True st store_state_cases [OF wf] by (auto simp: not_le)
next
  case False
  have wf: "smap_wf (pm_values m)" using ok by (simp add: values_ok_def)
  let ?vs = "next_versions m p" and ?lc = "pm_last_committed m"
  have ne: "?vs \<noteq> []" and "pm_values m \<noteq> []" using False by (auto simp: next_versions_def)
  then have run: "map fst ?vs = [last_committed p + 1..<?lc + 1]" using next_versions_run [OF ok] False by auto
  then have lt: "last_committed p < ?lc" using ne by (metis Nil_is_map_conv add_less_cancel_right not_less upt_conv_Nil)
  then have last: "fst (last ?vs) = ?lc" using run ne last_map [of ?vs fst] by simp
  have len: "length ?vs = ?lc - last_committed p" using run by (metis length_map length_upt diff_add_inverse2 add_diff_cancel_right)
  let ?old = "(px_store p)\<lparr>st_last_committed := ?lc\<rparr>" and ?st = "fold commit_version ?vs ((px_store p)\<lparr>st_last_committed := ?lc\<rparr>)"
  have p': "p' = learned ?lc ?st p" using st unfolding store_state_cases [OF wf] if_not_P [OF False] last by simp
  obtain h where h: "length h = last_committed p" "log_of n s ?old h"
    using base by (auto simp: base_ok_def log_ok_def log_of_def store_ok_def store_log_def)
  have vals: "\<forall>(v, t)\<in>set ?vs. raw_ok v t \<and> decided (quo n) (votes s) v (canon v t)"
    using ok map_of_smap_Some [OF wf] by (auto simp: values_ok_def next_versions_def)
  obtain h' where h': "length h' = ?lc" "log_of n s ?st h'"
    and dom: "dom (map_of (st_versions ?st)) \<subseteq> dom (map_of (st_versions (px_store p))) \<union> set (map fst ?vs)"
    using commit_run [OF glob h(2) _ vals] run len h(1) lt by auto
  have keys: "1 \<le> v \<and> v \<le> ?lc" if "v \<in> dom (map_of (st_versions ?st))" for v
  proof -
    have "v \<in> dom (map_of (st_versions (px_store p))) \<or> v \<in> set [last_committed p + 1..<?lc + 1]"
      using subsetD [OF dom that] unfolding run Un_iff .
    moreover have "1 \<le> v \<and> v \<le> last_committed p + 1" if "v \<in> dom (map_of (st_versions (px_store p)))"
      using that base unfolding base_ok_def store_ok_def by blast
    moreover have "last_committed p + 1 \<le> v \<and> v \<le> ?lc" if "v \<in> set [last_committed p + 1..<?lc + 1]"
      using that by (simp del: upt_Suc)
    ultimately show ?thesis using lt by linarith
  qed
  then have "base_ok n s i p'"
    unfolding p' using h' by (intro base_ok_learned [OF base lt]) simp_all
  then show ?thesis using lt p' by blast
qed

lemma base_ok_cong: "votes s' = votes s \<Longrightarrow> proms s' = proms s \<Longrightarrow> base_ok n s' i p \<longleftrightarrow> base_ok n s i p"
  by (simp add: base_ok_def log_ok_def ballot_ok_def)

lemma role_ok_cong: "votes s' = votes s \<Longrightarrow> rgs s' = rgs s \<Longrightarrow> role_ok n s' K i p \<longleftrightarrow> role_ok n s K i p"
  by (simp only: role_ok_def leader_ok_def knows_def settled_def proposal_ok_def)

lemma base_ok_summ: "base_ok n (summ Q rg V A) i p \<longleftrightarrow> base_ok n (summ P rg V A) i p"
  by (rule base_ok_cong) simp_all

lemma role_ok_summ: "role_ok n (summ Q rg V A) K i p \<longleftrightarrow> role_ok n (summ P rg V A) K i p"
  by (rule role_ok_cong) simp_all

text \<open>Catching up changes what a leader knows only while it collects answers.\<close>

lemma role_ok_learned:
  assumes role: "role_ok n s K i p" and lt: "last_committed p < lc" and rec: "px_role p = LEADER \<longrightarrow> state p = RECOVERING"
  shows "role_ok n s K i (learned lc st p)"
proof -
  let ?p = "learned lc st p"
  have same: "px_role ?p = px_role p" "queued ?p = queued p" "px_epoch ?p = px_epoch p" "px_leader ?p = px_leader p"
    "px_quorum ?p = px_quorum p" "state ?p = state p" "accepted_pn ?p = accepted_pn p" "last_pn ?p = last_pn p"
    "num_last ?p = num_last p" "new_value ?p = new_value p" "last_committed ?p = lc" "is_writing ?p = is_writing p"
    by (simp_all add: learned_def is_writing_def)
  show ?thesis
  proof (cases "px_role p = LEADER")
    case True
    then have ok: "leader_ok n s K i p" and st: "state p = RECOVERING" using role rec by (auto simp: role_ok_def)
    then have k: "knows s K i p" and none: "new_value p = None" by (simp_all add: leader_ok_def)
    have q: "queued p = None" using ok none by (cases "queued p") (auto simp: leader_ok_def proposal_ok_def)
    have le: "v \<le> lc" if "j = i \<or> (j, accepted_pn p) \<in> K" "(j, v, b, t) \<in> votes s" "b < accepted_pn p" for j v b t
    proof -
      have "v \<le> last_committed p \<or> v = last_committed p + 1" using k that unfolding knows_def by blast
      then show ?thesis using lt by auto
    qed
    have "uncommitted_v p = 0 \<or> uncommitted_v p = last_committed p + 1"
      using k unfolding knows_def by meson
    then have un: "uncommitted_v ?p = 0 \<and> uncommitted_pn ?p = 0 \<and> uncommitted_value ?p = None"
      using lt k unfolding knows_def by (auto simp: learned_def split: if_splits)
    have "knows s K i ?p"
      using le un unfolding knows_def same by auto
    moreover have "proposal_ok s i ?p"
      using ok none q lt unfolding leader_ok_def proposal_ok_def same by (fastforce dest: less_imp_le intro: le_trans)
    ultimately have "leader_ok n s K i ?p" using ok st none unfolding leader_ok_def same by auto
    then show ?thesis using q unfolding role_ok_def same by (simp add: True)
  next
    case False
    then show ?thesis using role unfolding role_ok_def same by auto
  qed
qed

lemma round_ok_learned:
  "round_ok i p net \<Longrightarrow> (px_role p = LEADER \<longrightarrow> new_value p = None) \<Longrightarrow> round_ok i (learned lc st p) net"
  unfolding round_ok_def by (auto simp: learned_def)

lemma ginv_learn:
  assumes inv: "ginv n P net rg V K A" and i: "i < n" and ok: "values_ok n (summ P rg V A) m"
    and st: "store_state m (P i) = Some (ch, p)"
    and rec: "px_role (P i) = LEADER \<longrightarrow> state (P i) = RECOVERING \<or> pm_last_committed m \<le> last_committed (P i)"
  shows "ginv n (P(i := p)) net rg V K A"
proof -
  let ?s = "summ P rg V A" and ?t = "summ (P(i := p)) rg V A"
  have glob: "glob_ok n ?s K" and base: "base_ok n ?s i (P i)" and role: "role_ok n ?s K i (P i)" and round: "round_ok i (P i) net"
    using inv i by (simp_all add: ginv_def)
  consider "p = P i" | st where "last_committed (P i) < pm_last_committed m" "p = learned (pm_last_committed m) st (P i)" "base_ok n ?s i p"
    using store_state_learns [OF glob base ok st] by blast
  then show ?thesis
  proof cases
    case 1
    then show ?thesis using inv by simp
  next
    case (2 st)
    have rec': "px_role (P i) = LEADER \<longrightarrow> state (P i) = RECOVERING" using rec 2(1) by auto
    then have none: "px_role (P i) = LEADER \<longrightarrow> new_value (P i) = None" using role by (auto simp: role_ok_def leader_ok_def)
    have "ginv n (P(i := p)) (net @ []) rg V K A"
    proof (rule ginv_move [OF inv i])
      show "base_ok n ?t i p" using 2(3) base_ok_summ by blast
      show "role_ok n ?t K i p"
        using role_ok_learned [OF role 2(1) rec'] role_ok_summ 2(2) by blast
      show "round_ok i p net" using round_ok_learned [OF round none] 2(2) by simp
    qed (use 2(1) in \<open>simp_all add: 2(2) learned_def\<close>)
    then show ?thesis by simp
  qed
qed

subsection \<open>Committing\<close>

lemma base_ok_same:
  "px_rank p' = px_rank p \<Longrightarrow> px_size p' = px_size p \<Longrightarrow> px_store p' = px_store p \<Longrightarrow> last_committed p' = last_committed p \<Longrightarrow>
   first_committed p' = first_committed p \<Longrightarrow> last_pn p' = last_pn p \<Longrightarrow> accepted_pn p' = accepted_pn p \<Longrightarrow>
   pending_proposal p' = pending_proposal p \<or> pending_proposal p' = None \<Longrightarrow> base_ok n s i p \<Longrightarrow> base_ok n s i p'"
  unfolding base_ok_def store_ok_def log_ok_def ballot_ok_def by auto

lemma quorum_quo: "is_quorum n q \<Longrightarrow> quo n (set q)"
proof -
  assume "is_quorum n q"
  moreover from this have "card (set q) = length q"
    by (intro distinct_card) (simp add: is_quorum_def strict_sorted_iff)
  ultimately show ?thesis by (auto simp: is_quorum_def quo_def)
qed

lemma leader_okD:
  assumes "glob_ok n s K" and "leader_ok n s K i p"
  shows "is_quorum n (px_quorum p)" "quo n (set (px_quorum p))" "i \<in> set (px_quorum p)" "\<forall>j\<in>set (px_quorum p). j < n"
proof -
  show q: "is_quorum n (px_quorum p)" "i \<in> set (px_quorum p)" using assms unfolding glob_ok_def leader_ok_def by blast+
  show "quo n (set (px_quorum p))" "\<forall>j\<in>set (px_quorum p). j < n" using q quorum_quo by (auto simp: is_quorum_def)
qed

lemma queued_decided:
  assumes "glob_ok n s K" and "leader_ok n s K i p" and "queued p = Some (v, t)"
  shows "v = last_committed p + 1" "decided (quo n) (votes s) v (canon v t)" "map_of (st_versions (px_store p)) v = Some t"
proof -
  have q: "v = last_committed p + 1" "new_value p = Some t" "accepted p = px_quorum p"
    using assms(2,3) by (auto simp: leader_ok_def proposal_ok_def)
  then show "v = last_committed p + 1" "map_of (st_versions (px_store p)) v = Some t"
    using assms(2) by (auto simp: leader_ok_def proposal_ok_def)
  have "\<forall>j\<in>set (px_quorum p). (j, v, accepted_pn p, canon v t) \<in> votes s"
    using assms(2) q unfolding leader_ok_def proposal_ok_def by auto
  then show "decided (quo n) (votes s) v (canon v t)"
    using leader_okD(2) [OF assms(1,2)] unfolding decided_def by blast
qed

lemma base_ok_commit:
  assumes glob: "glob_ok n s K" and base: "base_ok n s i p" and lead: "leader_ok n s K i p" and q: "queued p = Some (v, t)"
  shows "base_ok n s i (learned v (apply_txn t ((px_store p)\<lparr>st_last_committed := v\<rparr>)) p)"
proof -
  have v: "v = last_committed p + 1" and dec: "decided (quo n) (votes s) v (canon v t)"
    and stored: "map_of (st_versions (px_store p)) v = Some t"
    using queued_decided [OF glob lead q] by auto
  let ?st = "apply_txn t ((px_store p)\<lparr>st_last_committed := v\<rparr>)"
  have wf: "smap_wf (st_versions (px_store p))" using base by (simp add: base_ok_def store_ok_def)
  obtain h where h: "length h = last_committed p" "log_of n s (px_store p) h"
    using base by (auto simp: base_ok_def log_ok_def log_of_def store_ok_def)
  have raw: "raw_ok v t" using base stored v by (auto simp: base_ok_def ballot_ok_def)
  have log: "log_of n s ?st (h @ [canon (length h + 1) t])"
    using h raw dec stored wf v by (intro log_of_commit [OF glob h(2)]) auto
  have "1 \<le> u \<and> u \<le> v" if "u \<in> dom (map_of (st_versions ?st))" for u
  proof -
    have "u \<in> dom (map_of (st_versions (px_store p)))"
      using that wf by (auto simp: apply_txn_versions split: if_splits)
    then show ?thesis using base v unfolding base_ok_def store_ok_def by blast
  qed
  then show ?thesis using h(1) v by (intro base_ok_learned [OF base _ log]) simp_all
qed

lemma to_quorum:
  assumes glob: "glob_ok n s K" and lead: "leader_ok n s K i p" and i: "i < n" "px_rank p = i"
    and m: "pm_from m = i" "pm_to m \<in> set (other_quorum p)" "pm_epoch m = px_epoch p" "op_ok (pm_op m) n s i m"
  shows "msg_ok n s m"
proof -
  have "pm_to m \<in> set (px_quorum p)" "pm_to m \<noteq> i" using m(2) i(2) by (auto simp: other_quorum_def)
  then show ?thesis
    using assms leader_okD [OF glob lead] unfolding msg_ok_def leader_ok_def by auto
qed

definition committed_node :: "nat \<Rightarrow> txn \<Rightarrow> paxos \<Rightarrow> paxos" where
  "committed_node v t p = (let st = apply_txn t ((px_store p)\<lparr>st_last_committed := v\<rparr>)
     in p\<lparr>px_store := st, queued := None, lease_expire := 0, last_committed := v, first_committed := st_first_committed st,
          new_value := None, state := REFRESH, commits_started := commits_started p - 1\<rparr>)"

lemma ginv_commit:
  assumes inv: "ginv n P net rg V K A" and i: "i < n" and q: "queued (P i) = Some (v, t)"
    and out: "out = map (\<lambda>k. (new_msg p OP_COMMIT k)\<lparr>pm_values := [(v, t)], pm_pn := b, pm_last_committed := v\<rparr>) (other_quorum p)"
    and p: "p = committed_node v t (P i)"
  shows "ginv n (P(i := p)) (net @ out) rg V K A \<and> px_role p = LEADER"
proof -
  let ?s = "summ P rg V A" and ?t = "summ (P(i := p)) rg V A"
  have glob: "glob_ok n ?s K" and base: "base_ok n ?s i (P i)" and role: "role_ok n ?s K i (P i)" and round: "round_ok i (P i) net"
    using inv i by (simp_all add: ginv_def)
  have L: "px_role (P i) = LEADER" and lead: "leader_ok n ?s K i (P i)" and writing: "is_writing (P i)"
    using role q by (auto simp: role_ok_def)
  have v: "v = last_committed (P i) + 1" and dec: "decided (quo n) V v (canon v t)"
    and stored: "map_of (st_versions (px_store (P i))) v = Some t"
    using queued_decided [OF glob lead q] by auto
  have nv: "new_value (P i) = Some t" "accepted (P i) = px_quorum (P i)" using lead q by (auto simp: leader_ok_def proposal_ok_def)
  have raw: "raw_ok v t" using base stored v by (auto simp: base_ok_def ballot_ok_def)
  have same: "px_role p = LEADER" "queued p = None" "px_epoch p = px_epoch (P i)" "px_leader p = px_leader (P i)"
    "px_quorum p = px_quorum (P i)" "state p = REFRESH" "accepted_pn p = accepted_pn (P i)" "last_pn p = last_pn (P i)"
    "num_last p = num_last (P i)" "new_value p = None" "last_committed p = v" "accepted p = accepted (P i)"
    using L by (simp_all add: p committed_node_def Let_def)
  have rec: "state (P i) \<noteq> RECOVERING" using writing by (auto simp: is_writing_def)
  have "base_ok n ?s i p"
    by (rule base_ok_same [OF _ _ _ _ _ _ _ _ base_ok_commit [OF glob base lead q]]) (simp_all add: p committed_node_def learned_def Let_def)
  then have base': "base_ok n ?t i p" using base_ok_summ by blast
  have "settled ?s p"
    using lead rec v unfolding leader_ok_def settled_def same by (fastforce)
  moreover have "proposal_ok ?s i p"
    using base unfolding proposal_ok_def same base_ok_def ballot_ok_def by (simp add: v)
  ultimately have "leader_ok n ?s K i p" using lead rec unfolding leader_ok_def same by auto
  then have role': "role_ok n ?t K i p" using role_ok_summ by (fastforce simp: role_ok_def same)
  then have lead': "leader_ok n ?t K i p" by (simp add: role_ok_def same)
  have "\<not> in_round i j (accepted_pn (P i)) m" if "m \<in> set net" for m j
  proof
    assume r: "in_round i j (accepted_pn (P i)) m"
    then have "j \<in> set (accepted (P i))" using round L that nv unfolding round_ok_def by auto
    moreover have "asked i j (accepted_pn (P i)) net + (if new_value (P i) \<noteq> None \<and> j \<in> set (accepted (P i)) then 1 else 0) \<le> 1"
      using round L unfolding round_ok_def by blast
    ultimately have "asked i j (accepted_pn (P i)) net = 0" by (simp add: nv(1))
    then show False using that r by (auto simp: asked_def filter_empty_conv)
  qed
  then have "round_ok i p net" unfolding round_ok_def same by (auto simp: asked_def filter_empty_conv)
  moreover have "msg_ok n ?t m" if "m \<in> set out" for m
  proof -
    have glob': "glob_ok n ?t K"
      using glob by (intro glob_ok_grows [OF glob grows_move]) (auto simp: same v glob_ok_def)
    have "values_ok n ?t m" using that dec raw v by (auto simp: out new_msg_def values_ok_def smap_wf_def split: if_splits)
    then show ?thesis using that base by (intro to_quorum [OF glob' lead' i]) (auto simp: out new_msg_def p committed_node_def Let_def base_ok_def)
  qed
  moreover have "plain out" by (auto simp: out plain_def new_msg_def)
  ultimately show ?thesis
    using same v L by (intro conjI ginv_move [OF inv i _ _ _ base' role']) auto
qed

end
