(* ===== verification/Paxos_Moves.thy ===== *)
theory Paxos_Moves
  imports Paxos_Steps
begin

text \<open>
  The moves of a ballot: a new number, promises, counted answers, a proposal, votes and counted votes.
\<close>

lemma collect_ok_none: "\<forall>m\<in>set out. pm_op m \<noteq> OP_COLLECT \<Longrightarrow> collect_ok (net @ out) A \<longleftrightarrow> collect_ok net A"
  using collects_none [of out] unfolding collect_ok_def by (simp add: ball_Un)

lemma answer_ok_none: "\<forall>m\<in>set out. pm_op m \<noteq> OP_LAST \<Longrightarrow> answer_ok P (net @ out) K A \<longleftrightarrow> answer_ok P net K A"
  using answers_none [of out] unfolding answer_ok_def once_ok_def order_ok_def stale_ok_def later_ok_def by (simp add: ball_Un)

lemma round_ok_none:
  assumes "\<forall>m\<in>set out. \<forall>j. \<not> in_round i j (accepted_pn p) m"
  shows "round_ok i p (net @ out) \<longleftrightarrow> round_ok i p net"
proof -
  have "asked i j (accepted_pn p) out = 0" for j using assms by (simp add: asked_def filter_empty_conv)
  then show ?thesis using assms unfolding round_ok_def by (simp add: ball_Un)
qed

subsection \<open>A new number\<close>

lemma new_proposal_number:
  assumes "get_new_proposal_number gt p = (pn, p')" and "px_rank p < 100"
  shows "gt < pn" "last_pn p < pn" "owner pn = px_rank p" "p' = p\<lparr>last_pn := pn, px_store := (px_store p)\<lparr>st_last_pn := pn\<rparr>\<rparr>"
proof -
  have less: "x < (x div 100 + 1) * 100 + r" for x r :: nat
    using mod_less_divisor [of 100 x] div_mult_mod_eq [of x 100] by (simp only: add_mult_distrib)
  define m where "m = (if last_pn p < gt then gt else last_pn p)"
  have pn: "pn = (m div 100 + 1) * 100 + px_rank p" using assms(1) by (simp add: get_new_proposal_number_def Let_def m_def)
  then have "m < pn" using less by simp
  then show "gt < pn" "last_pn p < pn" by (auto simp: m_def split: if_splits)
  show "owner pn = px_rank p" using assms(2) unfolding pn owner_def by (simp only: mod_mult_self3 mod_less)
  show "p' = p\<lparr>last_pn := pn, px_store := (px_store p)\<lparr>st_last_pn := pn\<rparr>\<rparr>"
    using assms(1) by (auto simp: get_new_proposal_number_def Let_def)
qed

text \<open>Nothing uses a number its owner has not drawn yet.\<close>

lemma fresh_number:
  assumes inv: "ginv n P net rg V K A" and i: "i < n" and pn: "owner pn = i" "last_pn (P i) < pn"
  shows "pn \<le> b \<Longrightarrow> owner b = i \<Longrightarrow> (j, b) \<notin> A" "(j, v, pn, t) \<notin> V"
    "m \<in> set net \<Longrightarrow> pm_op m = OP_COLLECT \<Longrightarrow> pm_from m = i \<Longrightarrow> pm_pn m < pn"
    "m \<in> set net \<Longrightarrow> \<not> in_round i j pn m"
proof -
  have glob: "glob_ok n (summ P rg V A) K" using inv by (simp add: ginv_def)
  show "(j, b) \<notin> A" if "pn \<le> b" "owner b = i" for j b
  proof
    assume "(j, b) \<in> A"
    then have "b \<le> last_pn (P (owner b))" using glob by (auto simp: glob_ok_def)
    then show False using that pn by simp
  qed
  show vote: "(j, v, pn, t) \<notin> V" for j v t
  proof
    assume "(j, v, pn, t) \<in> V"
    then have "pn \<le> last_pn (P (owner pn))" using glob by (auto simp: glob_ok_def)
    then show False using pn by simp
  qed
  show "pm_pn m < pn" if m: "m \<in> set net" "pm_op m = OP_COLLECT" "pm_from m = i"
  proof -
    have "msg_ok n (summ P rg V A) m" using inv m(1) by (simp add: ginv_def)
    then show ?thesis using m(2,3) pn(2) by (auto simp: msg_ok_def)
  qed
  show "\<not> in_round i j pn m" if m: "m \<in> set net"
  proof
    assume r: "in_round i j pn m"
    have "msg_ok n (summ P rg V A) m" using inv m by (simp add: ginv_def)
    then show False using r vote by (auto simp: in_round_def is_msg_def msg_ok_def)
  qed
qed

lemma collects_to:
  assumes "distinct qs" and "\<And>k. k \<in> set qs \<Longrightarrow> pm_op (f k) = OP_COLLECT \<and> pm_from (f k) = i \<and> pm_to (f k) = k \<and> pm_pn (f k) = pn"
  shows "collects i' j (map f qs) = (if i' = i \<and> j \<in> set qs then [pn] else [])"
  using assms
proof (induction qs)
  case (Cons k qs)
  then show ?case by (auto simp: net_Cons is_msg_def)
qed simp

text \<open>A monitor accepts a higher number.\<close>

lemma base_ok_number:
  assumes base: "base_ok n s i p"
    and same: "px_rank p' = px_rank p" "px_size p' = px_size p" "last_committed p' = last_committed p" "first_committed p' = first_committed p"
      "pending_proposal p' = pending_proposal p" "st_versions (px_store p') = st_versions (px_store p)"
      "st_services (px_store p') = st_services (px_store p)" "st_first_committed (px_store p') = st_first_committed (px_store p)"
      "st_last_committed (px_store p') = st_last_committed (px_store p)" "st_pending_v (px_store p') = st_pending_v (px_store p)"
      "st_pending_pn (px_store p') = st_pending_pn (px_store p)"
    and pn: "st_last_pn (px_store p') = last_pn p'" "st_accepted_pn (px_store p') \<le> accepted_pn p'" "accepted_pn p \<le> accepted_pn p'"
      "(i, accepted_pn p') \<in> proms s \<or> owner (accepted_pn p') = i \<and> accepted_pn p' \<le> last_pn p'"
  shows "base_ok n s i p'"
proof -
  have "store_ok p'" using base same pn unfolding base_ok_def store_ok_def by simp
  moreover have "log_ok n s p'" using base same unfolding base_ok_def log_ok_def store_log_def by simp
  moreover have "ballot_ok s i p'" using base same pn(3) le_trans unfolding base_ok_def ballot_ok_def by (simp, blast)
  ultimately show ?thesis using base same pn(4) unfolding base_ok_def by auto
qed

definition collecting :: "paxos \<Rightarrow> paxos" where
  "collecting p =
     (let p = p\<lparr>state := RECOVERING\<rparr>;
          p = p\<lparr>uncommitted_v := 0, uncommitted_pn := 0, uncommitted_value := None, peer_first_committed := [], peer_last_committed := []\<rparr>
      in case map_of (st_versions (px_store p)) (last_committed p + 1) of
           None \<Rightarrow> p
         | Some t \<Rightarrow> p\<lparr>uncommitted_pn := pending_pn_of p (accepted_pn p), uncommitted_v := last_committed p + 1, uncommitted_value := Some t\<rparr>)"

lemma collecting_simps [simp]:
  "px_rank (collecting p) = px_rank p" "px_size (collecting p) = px_size p" "px_store (collecting p) = px_store p"
  "last_committed (collecting p) = last_committed p" "first_committed (collecting p) = first_committed p"
  "last_pn (collecting p) = last_pn p" "accepted_pn (collecting p) = accepted_pn p" "px_quorum (collecting p) = px_quorum p"
  "pending_proposal (collecting p) = pending_proposal p" "px_role (collecting p) = px_role p" "px_epoch (collecting p) = px_epoch p"
  "new_value (collecting p) = new_value p" "queued (collecting p) = queued p" "state (collecting p) = RECOVERING"
  by (simp_all add: collecting_def Let_def split: option.splits)

lemma collect_steps:
  assumes "collect x p = Some (p', out)"
  obtains pn r where "get_new_proposal_number (max (accepted_pn p) x) (collecting p) = (pn, r)"
    and "p' = r\<lparr>accepted_pn := pn, accepted_pn_from := last_committed r, num_last := 1\<rparr>"
    and "out = map (\<lambda>k. (new_msg p' OP_COLLECT k)\<lparr>pm_last_committed := last_committed p', pm_first_committed := first_committed p',
                         pm_pn := accepted_pn p'\<rparr>) (other_quorum p')"
proof -
  obtain pn r where pn: "get_new_proposal_number (max (accepted_pn p) x) (collecting p) = (pn, r)"
    by (cases "get_new_proposal_number (max (accepted_pn p) x) (collecting p)")
  have "collect x p = do { ensure (px_role p = LEADER);
     let (pn, p) = get_new_proposal_number (max (accepted_pn (collecting p)) x) (collecting p);
     let p = p\<lparr>accepted_pn := pn, accepted_pn_from := last_committed p, num_last := 1\<rparr>;
     Some (p, map (\<lambda>q. (new_msg p OP_COLLECT q)\<lparr>pm_last_committed := last_committed p, pm_first_committed := first_committed p,
                         pm_pn := accepted_pn p\<rparr>) (other_quorum p)) }"
    by (simp add: collect_def collecting_def Let_def)
  moreover have "px_role p = LEADER" using assms by (cases "px_role p = LEADER") (simp_all add: collect_def)
  ultimately show ?thesis using assms pn by (intro that [OF pn]) (simp_all add: Let_def)
qed

text \<open>A leader starts with what it has stored itself.\<close>

lemma knows_collecting:
  assumes ballot: "ballot_ok s i p" and stp: "store_ok p" and lt: "accepted_pn p < pn" and none: "counted K pn = {}"
    and p': "last_committed p' = last_committed p" "accepted_pn p' = pn" "uncommitted_v p' = uncommitted_v (collecting p)"
      "uncommitted_pn p' = uncommitted_pn (collecting p)" "uncommitted_value p' = uncommitted_value (collecting p)"
  shows "knows s K i p'"
proof (cases "map_of (st_versions (px_store p)) (last_committed p + 1)")
  case None
  then have "uncommitted_v p' = 0" "uncommitted_pn p' = 0" "uncommitted_value p' = None"
    unfolding p' by (simp_all add: collecting_def Let_def)
  moreover have "v \<le> last_committed p" if "(i, v, b, t) \<in> votes s" for v b t
    using ballot that None unfolding ballot_ok_def by (fastforce simp: le_Suc_eq)
  ultimately show ?thesis using none by (auto simp: knows_def p'(1,2) counted_def)
next
  case (Some t)
  let ?st = "px_store p" and ?v = "last_committed p + 1"
  have st: "st_pending_v ?st = ?v" "0 < st_pending_pn ?st" "raw_ok ?v t" "(i, ?v, st_pending_pn ?st, canon ?v t) \<in> votes s"
    using ballot stp Some by (auto simp: ballot_ok_def store_ok_def)
  then have un: "uncommitted_v p' = ?v" "uncommitted_pn p' = st_pending_pn ?st" "uncommitted_value p' = Some t"
    using Some unfolding p' by (simp_all add: collecting_def Let_def pending_pn_of_def)
  have votes: "b \<le> accepted_pn p" "v \<le> last_committed p \<or> v = ?v \<and> b \<le> st_pending_pn ?st" if "(i, v, b, u) \<in> votes s" for v b u
    using ballot that unfolding ballot_ok_def by (fastforce simp: le_Suc_eq)+
  have "st_pending_pn ?st < pn" using votes(1) [OF st(4)] lt by simp
  moreover have "\<forall>j v b u. (j = i \<or> (j, pn) \<in> K) \<and> (j, v, b, u) \<in> votes s \<and> b < pn \<longrightarrow>
      v \<le> last_committed p \<or> v = ?v \<and> b \<le> st_pending_pn ?st"
    using votes(2) none unfolding counted_def by blast
  ultimately show ?thesis using st unfolding knows_def p'(1,2) un by auto
qed

text \<open>New collects go out, with a number nobody has seen.\<close>

lemma collect_ok_new:
  assumes ok: "collect_ok net A" and out: "\<And>m. m \<in> set out \<Longrightarrow> pm_op m = OP_COLLECT \<and> pm_from m = i \<and> pm_pn m = pn"
    and col: "\<And>i' j. collects i' j out = (if i' = i \<and> j \<in> qs then [pn] else [])"
    and old: "\<And>m. m \<in> set net \<Longrightarrow> pm_op m = OP_COLLECT \<Longrightarrow> pm_from m = i \<Longrightarrow> pm_pn m < pn"
    and fresh: "\<And>j b. pn \<le> b \<Longrightarrow> owner b = i \<Longrightarrow> (j, b) \<notin> A"
  shows "collect_ok (net @ out) A"
proof -
  have "b < pn" if "b \<in> set (collects i j net)" for b j using that old by (auto simp: collects_def is_msg_def)
  then have "sorted_wrt (<) (collects i' j net @ collects i' j out)" for i' j
    using ok by (auto simp: collect_ok_def col sorted_wrt_append)
  moreover have "(pm_to m, b) \<notin> A" if "m \<in> set out" "pm_pn m \<le> b" "owner b = pm_from m" for m b
    using fresh that out [OF that(1)] by simp
  ultimately show ?thesis using ok by (auto simp: collect_ok_def)
qed

lemma ginv_collect:
  assumes inv: "ginv n P net rg V K A" and i: "i < n" and n: "n \<le> 100"
    and rg: "rg \<subseteq>\<^sub>m rg'" "\<forall>e l q. rg' e = Some (l, q) \<longrightarrow> is_quorum n q \<and> l \<in> set q"
    and base: "base_ok n (summ P rg V A) i p"
    and p: "px_role p = LEADER" "rg' (px_epoch p) = Some (i, px_quorum p)" "new_value p = None" "queued p = None"
      "last_committed p = last_committed (P i)" "accepted_pn p = accepted_pn (P i)" "last_pn p = last_pn (P i)"
    and col: "collect x p = Some (p', out)"
  shows "ginv n (P(i := p')) (net @ out) rg' V K A"
proof -
  let ?st = "px_store p"
  obtain pn r where pn: "get_new_proposal_number (max (accepted_pn p) x) (collecting p) = (pn, r)"
    and p': "p' = r\<lparr>accepted_pn := pn, accepted_pn_from := last_committed r, num_last := 1\<rparr>"
    and out: "out = map (\<lambda>k. (new_msg p' OP_COLLECT k)\<lparr>pm_last_committed := last_committed p', pm_first_committed := first_committed p',
                         pm_pn := accepted_pn p'\<rparr>) (other_quorum p')"
    using collect_steps [OF col] by blast
  have rank: "px_rank p = i" using base by (simp add: base_ok_def)
  have num: "accepted_pn p < pn" "last_pn p < pn" "owner pn = i" and r: "r = (collecting p)\<lparr>last_pn := pn, px_store := ?st\<lparr>st_last_pn := pn\<rparr>\<rparr>"
    using new_proposal_number [OF pn] rank i n by auto
  have same: "px_role p' = LEADER" "queued p' = None" "px_epoch p' = px_epoch p" "px_quorum p' = px_quorum p" "state p' = RECOVERING"
    "accepted_pn p' = pn" "last_pn p' = pn" "num_last p' = 1" "new_value p' = None" "last_committed p' = last_committed p"
    "px_rank p' = i" "px_store p' = ?st\<lparr>st_last_pn := pn\<rparr>"
    using p rank by (simp_all add: p' r)
  let ?s = "summ P rg V A" and ?t = "summ (P(i := p')) rg' V A"
  note fresh = fresh_number [OF inv i num(3)]
  have lt: "last_pn (P i) < pn" "accepted_pn (P i) < pn" using num p by simp_all
  have glob: "glob_ok n ?s K" using inv by (simp add: ginv_def)
  have g: "grows i ?s ?t" using lt rg(1) p(5) by (auto simp: grows_def same)
  have glob': "glob_ok n ?t K" using glob rg(2) by (intro glob_ok_grows [OF glob g]) (auto simp: glob_ok_def)
  have none: "counted K pn = {}" using fresh(1) [OF lt(1) order_refl num(3)] glob by (auto simp: counted_def glob_ok_def)
  have base': "base_ok n ?t i p'"
  proof -
    have "base_ok n ?s i p'"
      using base num by (intro base_ok_number [OF base]) (simp_all add: p' r base_ok_def store_ok_def)
    then show ?thesis using base_ok_cong by (metis summ_simps(4,5))
  qed
  have "ballot_ok ?t i p" "store_ok p" using base by (simp_all add: base_ok_def ballot_ok_def)
  then have "knows ?t K i p'" using num(1) none by (rule knows_collecting) (simp_all add: p' r)
  moreover have "proposal_ok ?t i p'" using fresh(2) [OF lt(1)] by (simp add: proposal_ok_def same)
  ultimately have lead: "leader_ok n ?t K i p'" using p(2) num none by (simp add: leader_ok_def same)
  then have role: "role_ok n ?t K i p'" by (simp add: role_ok_def same)
  have qs: "distinct (other_quorum p')" using leader_okD(1) [OF glob' lead] by (simp add: other_quorum_def is_quorum_def strict_sorted_iff)
  have ops: "pm_op m = OP_COLLECT" "pm_from m = i" "pm_pn m = pn" "pm_to m \<in> set (other_quorum p')"
    "pm_epoch m = px_epoch p" "pm_last_committed m = last_committed p" if "m \<in> set out" for m
    using that by (auto simp: out new_msg_def same)
  have col': "collects i' j out = (if i' = i \<and> j \<in> set (other_quorum p') then [pn] else [])" for i' j
    unfolding out by (rule collects_to [OF qs]) (simp add: new_msg_def same)
  show ?thesis
  proof (rule ginv_step [OF inv i g glob' base' role])
    have "msg_ok n ?t m" if "m \<in> set out" for m
      using ops [OF that] num by (intro to_quorum [OF glob' lead i]) (auto simp: same)
    then show "\<forall>m\<in>set (net @ out). m \<in> set net \<or> msg_ok n ?t m" by auto
    have "collect_ok net A" using inv by (simp add: ginv_def)
    then show "collect_ok (net @ out) A"
      by (rule collect_ok_new [OF _ _ col']) (use ops fresh(1,3) [OF lt(1)] in simp_all)
    have "later_ok (P(i := p')) net A" using inv fresh(1) [OF lt(1) order_refl num(3)] by (auto simp: ginv_def answer_ok_def later_ok_def same)
    moreover have "stale_ok (P(i := p')) net K" using inv p(5) by (intro stale_ok_move) (simp_all add: ginv_def answer_ok_def same)
    ultimately have "answer_ok (P(i := p')) net K A" using inv by (simp add: ginv_def answer_ok_def)
    then show "answer_ok (P(i := p')) (net @ out) K A" using ops(1) by (simp add: answer_ok_none)
    have nor: "\<not> in_round k j b m" if "m \<in> set out" for k j b m using ops(1) [OF that] by (simp add: in_round_def is_msg_def)
    have "round_ok i p' net" using fresh(4) [OF lt(1)] by (auto simp: round_ok_def same asked_def filter_empty_conv)
    then show "\<forall>k<n. round_ok k ((P(i := p')) k) (net @ out)" using inv nor by (simp add: round_ok_none ginv_def)
  qed simp
qed

subsection \<open>Sharing committed versions\<close>

definition shared :: "nat \<Rightarrow> paxos \<Rightarrow> (nat, txn) smap" where
  "shared peer_lc p = filter (\<lambda>(v, t). peer_lc + 1 \<le> v \<and> v \<le> last_committed p) (st_versions (px_store p))"

lemma map_of_filter_key: "map_of (filter (\<lambda>(v, t). P v) m) k = (if P k then map_of m k else None)"
  by (induction m) auto

lemma fold_put_id: "smap_wf vs \<Longrightarrow> fold (\<lambda>(v, t) m. smap_put v t m) vs [] = vs"
proof (induction vs rule: rev_induct)
  case (snoc x vs)
  then show ?case by (cases x) (simp add: smap_wf_append smap_put_last)
qed simp

lemma share_state_eq:
  assumes "smap_wf (st_versions (px_store p))" and "pm_values m = []" and "share_state m peer_lc p = Some r"
  shows "r = m\<lparr>pm_values := shared peer_lc p, pm_last_committed := last_committed p\<rparr>" "peer_lc < last_committed p"
proof -
  have wf: "smap_wf (shared peer_lc p)" using assms(1) by (simp add: shared_def smap_wf_filter)
  show "peer_lc < last_committed p" using assms(3) by (cases "peer_lc < last_committed p") (simp_all add: share_state_def)
  then show "r = m\<lparr>pm_values := shared peer_lc p, pm_last_committed := last_committed p\<rparr>"
    using assms(2,3) fold_put_id [OF wf] by (simp add: share_state_def Let_def shared_def)
qed

lemma shared_ok:
  assumes base: "base_ok n s i p"
  shows "smap_wf (shared k p)" "map_of (shared k p) v = (if k < v \<and> v \<le> last_committed p then map_of (st_versions (px_store p)) v else None)"
    "map_of (shared k p) v = Some t \<Longrightarrow> 1 \<le> v \<and> raw_ok v t \<and> decided (quo n) (votes s) v (canon v t)"
    "k < v \<Longrightarrow> v \<le> last_committed p \<Longrightarrow> v \<in> dom (map_of (shared k p)) \<longleftrightarrow> first_committed p \<le> v"
proof -
  obtain h where h: "length h = last_committed p" "good_log h" "store_log (px_store p) h"
    "\<forall>k<last_committed p. decided (quo n) (votes s) (k + 1) (h ! k)"
    using base by (auto simp: base_ok_def log_ok_def)
  show "smap_wf (shared k p)" using base by (simp add: shared_def smap_wf_filter base_ok_def store_ok_def)
  show eq: "map_of (shared k p) v = (if k < v \<and> v \<le> last_committed p then map_of (st_versions (px_store p)) v else None)" for v
    unfolding shared_def by (subst map_of_filter_key) (simp add: Suc_le_eq)
  show "1 \<le> v \<and> raw_ok v t \<and> decided (quo n) (votes s) v (canon v t)" if "map_of (shared k p) v = Some t"
  proof -
    have v: "1 \<le> v" "v \<le> last_committed p" and t: "map_of (st_versions (px_store p)) v = Some t" using that eq by (auto split: if_splits)
    have "decided (quo n) (votes s) (v - 1 + 1) (h ! (v - 1))" using v h(4) by (cases v) auto
    then show ?thesis using v t store_log_value [OF h(3) v(1)] h(1) by simp
  qed
  show "v \<in> dom (map_of (shared k p)) \<longleftrightarrow> first_committed p \<le> v" if "k < v" "v \<le> last_committed p"
  proof -
    have "v \<in> dom (map_of (shared k p)) \<longleftrightarrow> v \<in> dom (map_of (st_versions (px_store p)))" using that eq by (simp add: dom_def)
    also have "\<dots> \<longleftrightarrow> first_committed p \<le> v"
      using store_log_dom [OF h(3,2)] that h(1) base by (simp add: base_ok_def store_ok_def)
    finally show ?thesis .
  qed
qed

lemma values_ok_shared:
  assumes base: "base_ok n s i p" and m: "pm_values m = shared k p" "pm_last_committed m = last_committed p"
  shows "values_ok n s m"
proof -
  have "u \<in> dom (map_of (shared k p))" if "map_of (shared k p) v = Some t" "v \<le> u" "u \<le> last_committed p" for v u t
  proof -
    have "k < v" "v \<le> last_committed p" using that(1) shared_ok(2) [OF base] by (auto split: if_splits)
    then have "first_committed p \<le> v" "k < u" using shared_ok(4) [OF base, of k v] that by auto
    then show ?thesis using shared_ok(4) [OF base, of k u] that by simp
  qed
  then show ?thesis using shared_ok(1,3) [OF base] unfolding values_ok_def m by blast
qed

subsection \<open>Promises\<close>

lemma summ_update [simp]:
  "(summ P rg V A)\<lparr>proms := A'\<rparr> = summ P rg V A'" "(summ P rg V A)\<lparr>votes := V'\<rparr> = summ P rg V' A"
  by (simp_all add: summ_def)

text \<open>The answer to a collect, for a monitor that holds \<open>p\<close> and had accepted \<open>prev\<close> before.\<close>

definition last_reply :: "px_msg \<Rightarrow> paxos \<Rightarrow> px_msg" where
  "last_reply m p =
     (let vals = (if pm_last_committed m < last_committed p then shared (pm_last_committed m) p else []);
          own = map_of (st_versions (px_store p)) (last_committed p + 1)
      in (new_msg p OP_LAST (pm_from m))\<lparr>pm_last_committed := last_committed p, pm_first_committed := first_committed p,
           pm_pn := accepted_pn p, pm_pn_from := accepted_pn_from p,
           pm_values := (if pm_last_committed m \<le> last_committed p \<and> own \<noteq> None then smap_put (last_committed p + 1) (the own) vals else vals),
           pm_uncommitted_pn := (if pm_last_committed m \<le> last_committed p \<and> own \<noteq> None then st_pending_pn (px_store p) else 0)\<rparr>)"

definition promised :: "px_msg \<Rightarrow> paxos \<Rightarrow> paxos" where
  "promised m p = (let p = p\<lparr>state := RECOVERING\<rparr>
     in if pm_pn m > accepted_pn p
        then p\<lparr>accepted_pn := pm_pn m, accepted_pn_from := pm_pn_from m, px_store := (px_store p)\<lparr>st_accepted_pn := pm_pn m\<rparr>\<rparr>
        else p)"

lemma promised_simps [simp]:
  "px_rank (promised m p) = px_rank p" "px_size (promised m p) = px_size p" "px_role (promised m p) = px_role p"
  "px_epoch (promised m p) = px_epoch p" "px_leader (promised m p) = px_leader p" "px_quorum (promised m p) = px_quorum p"
  "last_committed (promised m p) = last_committed p" "first_committed (promised m p) = first_committed p" "last_pn (promised m p) = last_pn p"
  "accepted_pn (promised m p) = max (accepted_pn p) (pm_pn m)" "queued (promised m p) = queued p"
  "pending_proposal (promised m p) = pending_proposal p"
  "st_versions (px_store (promised m p)) = st_versions (px_store p)" "st_services (px_store (promised m p)) = st_services (px_store p)"
  "st_first_committed (px_store (promised m p)) = st_first_committed (px_store p)"
  "st_last_committed (px_store (promised m p)) = st_last_committed (px_store p)"
  "st_pending_v (px_store (promised m p)) = st_pending_v (px_store p)" "st_pending_pn (px_store (promised m p)) = st_pending_pn (px_store p)"
  "st_last_pn (px_store (promised m p)) = st_last_pn (px_store p)"
  "st_accepted_pn (px_store (promised m p)) = (if accepted_pn p < pm_pn m then pm_pn m else st_accepted_pn (px_store p))"
  by (simp_all add: promised_def Let_def)

lemma handle_collect_eq:
  assumes base: "base_ok n s i p" and "handle_collect c now m p = Some (p', out)" and "\<not> last_committed p + 1 < pm_first_committed m"
  shows "p' = promised m p" "out = [last_reply m (promised m p)]"
proof -
  let ?q = "promised m p"
  have wf: "smap_wf (st_versions (px_store ?q))" using base by (simp add: base_ok_def store_ok_def)
  have stored: "pending_pn_of ?q b = st_pending_pn (px_store ?q)" if "map_of (st_versions (px_store ?q)) (last_committed ?q + 1) \<noteq> None" for b
    using base that by (auto simp: base_ok_def store_ok_def ballot_ok_def pending_pn_of_def Let_def)
  let ?r = "(new_msg ?q OP_LAST (pm_from m))\<lparr>pm_last_committed := last_committed ?q, pm_first_committed := first_committed ?q,
                  pm_pn := accepted_pn ?q, pm_pn_from := accepted_pn_from ?q\<rparr>"
  have "px_role p = PEON" using assms(2) by (cases "px_role p = PEON") (simp_all add: handle_collect_def)
  then have *: "handle_collect c now m p = do {
       r \<leftarrow> (if pm_last_committed m < last_committed ?q then share_state ?r (pm_last_committed m) ?q else Some ?r);
       let r = (case map_of (st_versions (px_store ?q)) (last_committed ?q + 1) of
                  Some t \<Rightarrow>
                    if pm_last_committed m \<le> last_committed ?q
                    then r\<lparr>pm_values := smap_put (last_committed ?q + 1) t (pm_values r),
                           pm_uncommitted_pn := pending_pn_of ?q (accepted_pn p)\<rparr>
                    else r
                | None \<Rightarrow> r);
       Some (?q, [r]) }"
    using assms(3) unfolding handle_collect_def promised_def Let_def
    by (cases "accepted_pn p < pm_pn m"; cases "map_of (st_versions (px_store p)) (last_committed p + 1)") simp_all
  show "p' = ?q" using assms(2) unfolding * by (auto simp: Let_def bind_eq_Some_conv)
  have r: "r = ?r\<lparr>pm_values := (if pm_last_committed m < last_committed ?q then shared (pm_last_committed m) ?q else [])\<rparr>"
    if "(if pm_last_committed m < last_committed ?q then share_state ?r (pm_last_committed m) ?q else Some ?r) = Some r" for r
    using that share_state_eq [OF wf, of ?r] by (auto simp: new_msg_def split: if_splits)
  obtain r where "(if pm_last_committed m < last_committed ?q then share_state ?r (pm_last_committed m) ?q else Some ?r) = Some r"
    and out: "out = [case map_of (st_versions (px_store ?q)) (last_committed ?q + 1) of
                  Some t \<Rightarrow>
                    if pm_last_committed m \<le> last_committed ?q
                    then r\<lparr>pm_values := smap_put (last_committed ?q + 1) t (pm_values r),
                           pm_uncommitted_pn := pending_pn_of ?q (accepted_pn p)\<rparr>
                    else r
                | None \<Rightarrow> r]"
    using assms(2) unfolding * by (auto simp: Let_def bind_eq_Some_conv)
  note r = r [OF this(1)]
  show "out = [last_reply m ?q]"
    using stored unfolding out r last_reply_def Let_def
    by (cases "map_of (st_versions (px_store ?q)) (last_committed ?q + 1)") (simp_all add: new_msg_def)
qed

lemma last_reply_simps [simp]:
  "pm_op (last_reply m q) = OP_LAST" "pm_from (last_reply m q) = px_rank q" "pm_to (last_reply m q) = pm_from m"
  "pm_epoch (last_reply m q) = px_epoch q" "pm_pn (last_reply m q) = accepted_pn q" "pm_last_committed (last_reply m q) = last_committed q"
  "pm_first_committed (last_reply m q) = first_committed q"
  by (simp_all add: last_reply_def new_msg_def Let_def)

lemma last_reply_values:
  assumes base: "base_ok n s i q" and le: "pm_last_committed m \<le> last_committed q"
  shows "smap_wf (pm_values (last_reply m q))"
    "v \<le> last_committed q \<Longrightarrow> map_of (pm_values (last_reply m q)) v = map_of (shared (pm_last_committed m) q) v"
    "map_of (pm_values (last_reply m q)) (last_committed q + 1) = map_of (st_versions (px_store q)) (last_committed q + 1)"
    "pm_uncommitted_pn (last_reply m q) = (if map_of (st_versions (px_store q)) (last_committed q + 1) = None then 0 else st_pending_pn (px_store q))"
proof -
  let ?old = "if pm_last_committed m < last_committed q then shared (pm_last_committed m) q else []"
  have old: "map_of ?old v = map_of (shared (pm_last_committed m) q) v" "map_of ?old (last_committed q + 1) = None" "smap_wf ?old" for v
    using shared_ok(1,2) [OF base, of "pm_last_committed m"] by auto
  have vals: "pm_values (last_reply m q) =
      (case map_of (st_versions (px_store q)) (last_committed q + 1) of None \<Rightarrow> ?old | Some t \<Rightarrow> smap_put (last_committed q + 1) t ?old)"
    using le by (simp add: last_reply_def Let_def split: option.splits)
  show "smap_wf (pm_values (last_reply m q))"
    "v \<le> last_committed q \<Longrightarrow> map_of (pm_values (last_reply m q)) v = map_of (shared (pm_last_committed m) q) v"
    "map_of (pm_values (last_reply m q)) (last_committed q + 1) = map_of (st_versions (px_store q)) (last_committed q + 1)"
    unfolding vals using old by (auto simp: smap_wf_put map_of_put split: option.splits)
  show "pm_uncommitted_pn (last_reply m q) = (if map_of (st_versions (px_store q)) (last_committed q + 1) = None then 0 else st_pending_pn (px_store q))"
    using le by (simp add: last_reply_def Let_def new_msg_def)
qed

lemma last_reply_behind:
  "last_committed q < pm_last_committed m \<Longrightarrow> pm_values (last_reply m q) = [] \<and> pm_uncommitted_pn (last_reply m q) = 0"
  by (simp add: last_reply_def Let_def new_msg_def)

lemma last_reply_ok:
  assumes base: "base_ok n s i q" and s: "accs s i = accepted_pn q" "lcs s i = last_committed q"
    and m: "pm_last_committed m \<le> lcs s (pm_from m)"
    and prom: "owner (accepted_pn q) = pm_from m \<longrightarrow> (i, accepted_pn q) \<in> proms s \<and> 0 < accepted_pn q \<and>
      (\<forall>v b t. (i, v, b, t) \<in> votes s \<longrightarrow> b < accepted_pn q)"
  shows "last_ok n s (last_reply m q)"
proof -
  let ?r = "last_reply m q"
  have rank: "px_rank q = i" and ballot: "ballot_ok s i q" using base by (simp_all add: base_ok_def)
  have vote: "v \<le> last_committed q \<or> v = last_committed q + 1 \<and> b \<le> st_pending_pn (px_store q) \<and> map_of (st_versions (px_store q)) (last_committed q + 1) \<noteq> None"
    if "(i, v, b, t) \<in> votes s" for v b t
    using that ballot unfolding ballot_ok_def by (metis le_Suc_eq Suc_eq_plus1)
  show ?thesis
  proof (cases "last_committed q < pm_last_committed m")
    case True
    then have "v \<le> lcs s (pm_from m)" if "(i, v, b, t) \<in> votes s" for v b t
      using vote [OF that] m by auto
    then show ?thesis
      using True m prom s last_reply_behind [OF True] unfolding last_ok_def values_ok_def by (auto simp: rank)
  next
    case False
    then have le: "pm_last_committed m \<le> last_committed q" by simp
    note vals = last_reply_values [OF base le]
    have "values_ok n s (?r\<lparr>pm_values := shared (pm_last_committed m) q\<rparr>)" by (rule values_ok_shared [OF base]) simp_all
    then have "values_ok n s ?r" using vals(1,2) unfolding values_ok_def by (auto simp: dom_def) (meson le_trans)
    moreover have "v \<in> dom (map_of (pm_values ?r))" if "first_committed q \<le> v" "lcs s (pm_from m) < v" "v \<le> last_committed q" for v
      using that vals(2) [of v] shared_ok(4) [OF base, of "pm_last_committed m" v] m by (auto simp: dom_def)
    moreover have "\<exists>t. map_of (pm_values ?r) (last_committed q + 1) = Some t \<and> raw_ok (last_committed q + 1) t \<and>
        (i, last_committed q + 1, pm_uncommitted_pn ?r, canon (last_committed q + 1) t) \<in> votes s" if "pm_uncommitted_pn ?r \<noteq> 0"
      using that ballot unfolding vals(3,4) ballot_ok_def by (auto split: if_splits)
    moreover have "pm_uncommitted_pn ?r < accepted_pn q" if "owner (accepted_pn q) = pm_from m"
      using that prom ballot unfolding vals(4) ballot_ok_def by (auto, blast)
    moreover have "v \<le> last_committed q \<or> v = last_committed q + 1 \<and> b \<le> pm_uncommitted_pn ?r" if "(i, v, b, t) \<in> votes s" for v b t
      using vote [OF that] unfolding vals(4) by auto
    ultimately show ?thesis using s prom unfolding last_ok_def by (simp add: rank) blast
  qed
qed

lemma base_ok_mono: "base_ok n s i p \<Longrightarrow> votes s' = votes s \<Longrightarrow> proms s \<subseteq> proms s' \<Longrightarrow> base_ok n s' i p"
  unfolding base_ok_def log_ok_def ballot_ok_def by auto

text \<open>The oldest collect to a monitor: it has not promised that number or a later one of the same leader.\<close>

lemma collect_head:
  assumes ok: "collect_ok (a @ m # b) A" and m: "is_msg OP_COLLECT i j m" and first: "\<forall>x\<in>set a. \<not> is_msg OP_COLLECT i j x"
    and own: "owner (pm_pn m) = i"
  shows "pm_pn m \<le> c \<Longrightarrow> owner c = i \<Longrightarrow> (j, c) \<notin> A" "collect_ok (a @ b) (insert (j, pm_pn m) A)"
proof -
  show "(j, c) \<notin> A" if "pm_pn m \<le> c" "owner c = i"
    using ok m that unfolding collect_ok_def is_msg_def by auto
  have none: "filter (is_msg OP_COLLECT i j) a = []" using first by (simp add: filter_empty_conv)
  have "sorted_wrt (<) (collects i j (a @ m # b))" using ok by (simp only: collect_ok_def)
  then have later: "pm_pn m < pm_pn x" if "x \<in> set (a @ b)" "is_msg OP_COLLECT i j x" for x
    using that none m first by (auto simp: collects_def)
  have "(pm_to x, c) \<notin> insert (j, pm_pn m) A" if "x \<in> set (a @ b)" "pm_op x = OP_COLLECT" "pm_pn x \<le> c" "owner c = pm_from x" for x c
  proof -
    have "(pm_to x, c) \<notin> A" using ok that unfolding collect_ok_def by auto
    moreover have "(pm_to x, c) \<noteq> (j, pm_pn m)" using later [OF that(1)] that own by (auto simp: is_msg_def)
    ultimately show ?thesis by blast
  qed
  then show "collect_ok (a @ b) (insert (j, pm_pn m) A)"
    using collect_ok_remove [OF ok] unfolding collect_ok_def by blast
qed

lemma ballot_le: "base_ok n s i p \<Longrightarrow> (i, v, b, t) \<in> votes s \<Longrightarrow> b \<le> accepted_pn p \<and> v \<le> last_committed p + 1"
  unfolding base_ok_def ballot_ok_def by blast

text \<open>A new answer goes out.\<close>

lemma answer_ok_reply:
  assumes ans: "answer_ok P net K A" and r: "pm_op r = OP_LAST" "pm_from r = j" and p: "px_role p \<noteq> LEADER" "last_committed p = last_committed (P j)"
    and once: "owner (pm_pn r) = pm_to r \<Longrightarrow> answers j (pm_pn r) net = 0 \<and> (j, pm_pn r) \<notin> K"
    and old: "\<And>m. m \<in> set net \<Longrightarrow> pm_op m = OP_LAST \<Longrightarrow> pm_from m = j \<Longrightarrow> pm_pn m \<le> pm_pn r \<and> pm_last_committed m \<le> pm_last_committed r"
    and K: "\<And>b. (j, b) \<in> K \<Longrightarrow> b \<le> pm_pn r"
    and later: "\<And>m. m \<in> set net \<or> m = r \<Longrightarrow> pm_op m = OP_LAST \<Longrightarrow> px_role (P (pm_to m)) = LEADER \<Longrightarrow> px_epoch (P (pm_to m)) = pm_epoch m \<Longrightarrow>
      accepted_pn (P (pm_to m)) < pm_pn m \<Longrightarrow> (pm_from m, accepted_pn (P (pm_to m))) \<notin> A'"
  shows "answer_ok (P(j := p)) (net @ [r]) K A'"
proof -
  have "once_ok (net @ [r]) K"
    unfolding once_ok_def
  proof (intro allI)
    fix k b
    have "answers k b net + (if (k, b) \<in> K then 1 else 0) \<le> 1" using ans by (simp only: answer_ok_def once_ok_def)
    then show "answers k b (net @ [r]) + (if (k, b) \<in> K then 1 else 0) \<le> 1"
      using once r by (auto simp: net_Cons is_msg_def)
  qed
  moreover have "order_ok (net @ [r])"
    using ans old r unfolding answer_ok_def order_ok_def by (fastforce simp: not_less)
  moreover have "stale_ok (P(j := p)) net K" using ans p(2) by (intro stale_ok_move) (simp_all add: answer_ok_def)
  then have "stale_ok (P(j := p)) (net @ [r]) K" using K r unfolding stale_ok_def by (fastforce simp: not_less)
  moreover have "later_ok (P(j := p)) (net @ [r]) A'" using later p(1) unfolding later_ok_def by auto
  ultimately show ?thesis by (simp add: answer_ok_def)
qed

lemma collect_msg:
  assumes inv: "ginv n P (a @ m # b) rg V K A" and j: "j < n" and m: "is_msg OP_COLLECT i j m"
    and first: "\<forall>x\<in>set a. \<not> is_msg OP_COLLECT i j x"
  shows "pm_from m = i" "pm_to m = j" "i \<noteq> j" "i < n" "owner (pm_pn m) = i" "pm_pn m \<le> last_pn (P i)" "0 < pm_pn m"
    "pm_last_committed m \<le> last_committed (P i)" "pm_pn m \<le> c \<Longrightarrow> owner c = i \<Longrightarrow> (j, c) \<notin> A"
    "collect_ok (a @ b) (if accepted_pn (P j) < pm_pn m then insert (j, pm_pn m) A else A)"
    "\<not> accepted_pn (P j) < pm_pn m \<Longrightarrow> owner (accepted_pn (P j)) \<noteq> i"
proof -
  have base: "base_ok n (summ P rg V A) j (P j)" and col: "collect_ok (a @ m # b) A" and mok: "msg_ok n (summ P rg V A) m"
    using inv j by (simp_all add: ginv_def)
  show msg: "pm_from m = i" "pm_to m = j" "i \<noteq> j" "i < n" "owner (pm_pn m) = i" "pm_pn m \<le> last_pn (P i)" "0 < pm_pn m"
    "pm_last_committed m \<le> last_committed (P i)"
    using m mok by (auto simp: is_msg_def msg_ok_def)
  note head = collect_head [OF col m first msg(5)]
  show head1: "(j, c) \<notin> A" if "pm_pn m \<le> c" "owner c = i" for c using head(1) that .
  show "collect_ok (a @ b) (if accepted_pn (P j) < pm_pn m then insert (j, pm_pn m) A else A)"
    using head(2) collect_ok_remove [OF col] by simp
  show "owner (accepted_pn (P j)) \<noteq> i" if "\<not> accepted_pn (P j) < pm_pn m"
    using that base head1 msg(3,7) unfolding base_ok_def by (metis not_less not_less0 summ_simps(5))
qed

lemma answer_ok_promise:
  assumes inv: "ginv n P (a @ m # b) rg V K A" and j: "j < n" and m: "is_msg OP_COLLECT i j m"
    and first: "\<forall>x\<in>set a. \<not> is_msg OP_COLLECT i j x" and role: "px_role (P j) = PEON" and p: "p = promised m (P j)"
    and A': "A' = (if accepted_pn (P j) < pm_pn m then insert (j, pm_pn m) A else A)"
  shows "answer_ok (P(j := p)) ((a @ b) @ [last_reply m p]) K A'"
proof -
  let ?net = "a @ m # b" and ?s = "summ P rg V A" and ?acc = "accepted_pn (P j)" and ?pn = "pm_pn m" and ?r = "last_reply m p"
  note msg = collect_msg [OF inv j m first]
  have glob: "glob_ok n ?s K" and base: "base_ok n ?s j (P j)" and ans: "answer_ok P ?net K A" using inv j by (simp_all add: ginv_def)
  have acc: "accepted_pn p = max ?acc ?pn" by (simp add: p)
  have last: "pm_pn x \<le> ?acc \<and> pm_last_committed x \<le> last_committed (P j) \<and> (owner (pm_pn x) = pm_to x \<longrightarrow> (j, pm_pn x) \<in> A)"
    if "x \<in> set (a @ b)" "pm_op x = OP_LAST" "pm_from x = j" for x
  proof -
    have "msg_ok n ?s x" using inv that(1) by (auto simp: ginv_def)
    then show ?thesis using that(2,3) by (auto simp: msg_ok_def last_ok_def)
  qed
  show ?thesis
  proof (rule answer_ok_reply [OF answer_ok_remove [OF ans]])
    show "answers j (pm_pn ?r) (a @ b) = 0 \<and> (j, pm_pn ?r) \<notin> K" if "owner (pm_pn ?r) = pm_to ?r"
    proof -
      have "?acc < ?pn" using that msg(11,1) by (cases "?acc < ?pn") (auto simp: acc max_def)
      then have r: "pm_pn ?r = ?pn" by (simp add: acc)
      have no: "(j, ?pn) \<notin> A" using msg(9,5) by simp
      have "\<not> (is_msg OP_LAST j (owner ?pn) x \<and> pm_pn x = ?pn)" if "x \<in> set (a @ b)" for x
        using last [OF that] no by (auto simp: is_msg_def)
      then have "answers j ?pn (a @ b) = 0" by (simp only: answers_def filter_empty_conv list.size(3) length_0_conv) blast
      moreover have "(j, ?pn) \<notin> K" using no glob by (auto simp: glob_ok_def)
      ultimately show ?thesis unfolding r by blast
    qed
    show "c \<le> pm_pn ?r" if "(j, c) \<in> K" for c
    proof -
      have "c \<le> ?acc" using that glob unfolding glob_ok_def by auto
      then show ?thesis by (simp add: acc)
    qed
    show "(pm_from x, accepted_pn (P (pm_to x))) \<notin> A'" if x: "x \<in> set (a @ b) \<or> x = ?r" "pm_op x = OP_LAST" "px_role (P (pm_to x)) = LEADER"
      "px_epoch (P (pm_to x)) = pm_epoch x" "accepted_pn (P (pm_to x)) < pm_pn x" for x
    proof (cases "x = ?r")
      case True
      have "leader_ok n ?s K i (P i)" using inv msg(1,4) x(3) True by (auto simp: ginv_def role_ok_def)
      then have i: "last_pn (P i) = accepted_pn (P i)" "owner (accepted_pn (P i)) = i" by (auto simp: leader_ok_def)
      then have "A' = A" using x(5) msg(1,6) by (auto simp: True acc A' max_def split: if_splits)
      then show ?thesis using msg(9) [of "accepted_pn (P i)"] i msg(1,6) base by (simp add: True p base_ok_def)
    next
      case False
      then have "(pm_from x, accepted_pn (P (pm_to x))) \<notin> A" using ans x by (auto simp: answer_ok_def later_ok_def)
      moreover have "?pn < ?acc" if "pm_from x = j" "accepted_pn (P (pm_to x)) = ?pn"
        using that last [of x] x False by auto
      ultimately show ?thesis by (auto simp: A')
    qed
    show "pm_pn x \<le> pm_pn ?r \<and> pm_last_committed x \<le> pm_last_committed ?r" if "x \<in> set (a @ b)" "pm_op x = OP_LAST" "pm_from x = j" for x
      using last [OF that] by (simp add: acc p le_max_iff_disj)
  qed (use role base in \<open>simp_all add: p base_ok_def\<close>)
qed

lemma ginv_promise:
  assumes inv: "ginv n P (a @ m # b) rg V K A" and j: "j < n" and m: "is_msg OP_COLLECT i j m"
    and first: "\<forall>x\<in>set a. \<not> is_msg OP_COLLECT i j x" and role: "px_role (P j) = PEON" and ep: "px_epoch (P j) = pm_epoch m"
    and p: "p = promised m (P j)"
  shows "\<exists>A'. ginv n (P(j := p)) ((a @ b) @ [last_reply m p]) rg V K A'"
proof -
  let ?net = "a @ m # b" and ?s = "summ P rg V A" and ?acc = "accepted_pn (P j)" and ?pn = "pm_pn m"
  define A' where "A' = (if ?acc < ?pn then insert (j, ?pn) A else A)"
  let ?t = "summ (P(j := p)) rg V A'" and ?r = "last_reply m p"
  have glob: "glob_ok n ?s K" and base: "base_ok n ?s j (P j)" and rj: "role_ok n ?s K j (P j)"
    and mok: "msg_ok n ?s m"
    using inv j by (simp_all add: ginv_def)
  note msg = collect_msg [OF inv j m first]
  have acc: "accepted_pn p = max ?acc ?pn" by (simp add: p)
  have g: "grows j ?s ?t" by (auto simp: grows_def p A'_def)
  have globA: "glob_ok n (summ (P(j := p)) rg V A) K"
    using glob by (intro glob_ok_grows [OF glob grows_move [of P j p]]) (auto simp: p glob_ok_def)
  have glob': "glob_ok n ?t K"
    using globA glob_ok_promise [OF globA j msg(7)] msg(3,5,6) acc by (auto simp: A'_def split: if_splits)
  have base': "base_ok n ?t j p"
  proof (rule base_ok_number)
    show "base_ok n ?t j (P j)" by (rule base_ok_mono [OF base]) (auto simp: A'_def)
    show "(j, accepted_pn p) \<in> proms ?t \<or> owner (accepted_pn p) = j \<and> accepted_pn p \<le> last_pn p"
      using base msg(7) by (auto simp: acc max_def A'_def base_ok_def p)
  qed (use base in \<open>auto simp: p base_ok_def store_ok_def\<close>)
  have role': "role_ok n ?t K j p" using rj role by (simp add: role_ok_def p)
  have "last_ok n ?t ?r"
  proof (rule last_reply_ok [OF base'])
    have "c < ?pn" if "?acc < ?pn" "(j, v, c, t) \<in> V" for v c t using ballot_le [OF base, of v c t] that by simp
    then show "owner (accepted_pn p) = pm_from m \<longrightarrow> (j, accepted_pn p) \<in> proms ?t \<and> 0 < accepted_pn p \<and>
        (\<forall>v b t. (j, v, b, t) \<in> votes ?t \<longrightarrow> b < accepted_pn p)"
      using msg(11,1,7) by (auto simp: acc max_def A'_def)
  qed (use msg in \<open>simp_all\<close>)
  then have rok: "msg_ok n ?t ?r"
    using mok m base msg j ep by (auto simp: msg_ok_def p is_msg_def base_ok_def)
  have "ginv n (P(j := p)) ((a @ b) @ [?r]) rg V K A'"
  proof (rule ginv_step [OF inv j g glob' base' role'])
    show "\<forall>x\<in>set ((a @ b) @ [?r]). x \<in> set ?net \<or> msg_ok n ?t x" using rok by auto
    show "collect_ok ((a @ b) @ [?r]) A'"
      using msg(10) by (simp add: collect_ok_none A'_def del: append_assoc)
    show "answer_ok (P(j := p)) ((a @ b) @ [?r]) K A'" by (rule answer_ok_promise [OF inv j m first role p A'_def])
    show "\<forall>k<n. round_ok k ((P(j := p)) k) ((a @ b) @ [?r])"
    proof (intro allI impI)
      fix k assume k: "k < n"
      have "round_ok k (P k) ((a @ b) @ [?r])"
        using inv k by (subst round_ok_none) (auto simp: ginv_def in_round_def is_msg_def intro: round_ok_remove)
      moreover have "round_ok j p net" for net using role by (simp add: round_ok_def p)
      ultimately show "round_ok k ((P(j := p)) k) ((a @ b) @ [?r])" by simp
    qed
  qed simp
  then show ?thesis by blast
qed

subsection \<open>Counting answers\<close>

lemma answers_pos: "x \<in> set net \<Longrightarrow> is_msg OP_LAST j (owner b) x \<Longrightarrow> pm_pn x = b \<Longrightarrow> 0 < answers j b net"
  by (auto simp: answers_def filter_empty_conv)

lemma not_counted:
  assumes "answer_ok P net K A" and "x \<in> set net" and "is_msg OP_LAST j (owner b) x" and "pm_pn x = b"
  shows "(j, b) \<notin> K"
proof
  assume "(j, b) \<in> K"
  moreover have "answers j b net + (if (j, b) \<in> K then 1 else 0) \<le> 1" using assms(1) by (simp only: answer_ok_def once_ok_def)
  ultimately show False using answers_pos [OF assms(2-4)] by simp
qed

lemma learn_uncommitted_simps [simp]:
  "px_rank (learn_uncommitted m p) = px_rank p" "px_size (learn_uncommitted m p) = px_size p" "px_role (learn_uncommitted m p) = px_role p"
  "px_epoch (learn_uncommitted m p) = px_epoch p" "px_quorum (learn_uncommitted m p) = px_quorum p" "state (learn_uncommitted m p) = state p"
  "px_leader (learn_uncommitted m p) = px_leader p" "is_writing (learn_uncommitted m p) = is_writing p"
  "last_committed (learn_uncommitted m p) = last_committed p" "first_committed (learn_uncommitted m p) = first_committed p"
  "last_pn (learn_uncommitted m p) = last_pn p" "accepted_pn (learn_uncommitted m p) = accepted_pn p" "queued (learn_uncommitted m p) = queued p"
  "pending_proposal (learn_uncommitted m p) = pending_proposal p" "px_store (learn_uncommitted m p) = px_store p"
  "new_value (learn_uncommitted m p) = new_value p" "num_last (learn_uncommitted m p) = num_last p" "accepted (learn_uncommitted m p) = accepted p"
  by (simp_all add: learn_uncommitted_def is_writing_def)

lemma knows_count:
  assumes k: "knows s K i p" and last: "last_ok n s m" and m: "pm_to m = i" "owner (pm_pn m) = i" "pm_pn m = accepted_pn p"
    and lc: "lcs s i = last_committed p" "pm_last_committed m \<le> last_committed p" and pos: "\<And>j v b t. (j, v, b, t) \<in> votes s \<Longrightarrow> 0 < b"
  shows "knows s (insert (pm_from m, accepted_pn p) K) i (learn_uncommitted m p)"
proof -
  let ?v = "last_committed p + 1" and ?q = "learn_uncommitted m p" and ?u = "pm_uncommitted_pn m"
  have promise: "?u < accepted_pn p"
    "v \<le> last_committed p \<or> v = pm_last_committed m + 1 \<and> b \<le> ?u" if "(pm_from m, v, b, t) \<in> votes s" "b < accepted_pn p" for v b t
    using last m lc that unfolding last_ok_def by fastforce+
  have u: "?u < accepted_pn p" using last m unfolding last_ok_def by auto
  have old: "v \<le> last_committed p \<or> v = ?v \<and> uncommitted_v p = ?v \<and> b \<le> uncommitted_pn p"
    if "j = i \<or> (j, accepted_pn p) \<in> K" "(j, v, b, t) \<in> votes s" "b < accepted_pn p" for j v b t
    using k that unfolding knows_def by blast
  show ?thesis
  proof (cases "?u \<noteq> 0 \<and> uncommitted_pn p \<le> ?u \<and> last_committed p \<le> pm_last_committed m \<and> uncommitted_v p \<le> pm_last_committed m + 1")
    case True
    then have eq: "pm_last_committed m = last_committed p" using lc by simp
    then have q: "uncommitted_v ?q = ?v" "uncommitted_pn ?q = ?u" "uncommitted_value ?q = map_of (pm_values m) ?v"
      using True by (simp_all add: learn_uncommitted_def)
    obtain t where "map_of (pm_values m) ?v = Some t" "raw_ok ?v t" "(pm_from m, ?v, ?u, canon ?v t) \<in> votes s"
      using last True unfolding last_ok_def eq by auto
    moreover have "v \<le> last_committed p \<or> v = ?v \<and> b \<le> ?u"
      if "j = i \<or> (j, accepted_pn p) \<in> insert (pm_from m, accepted_pn p) K" "(j, v, b, t) \<in> votes s" "b < accepted_pn p" for j v b t
      using that old [of j v b t] promise(2) [of v b t] True eq by fastforce
    ultimately show ?thesis unfolding knows_def q by (simp add: u) blast
  next
    case False
    then have q: "?q = p" by (auto simp: learn_uncommitted_def)
    have "v \<le> last_committed p \<or> v = ?v \<and> uncommitted_v p = ?v \<and> b \<le> uncommitted_pn p"
      if "(pm_from m, v, b, t) \<in> votes s" "b < accepted_pn p" for v b t
    proof (rule ccontr)
      assume no: "\<not> ?thesis"
      then have v: "v = pm_last_committed m + 1" "b \<le> ?u" "v = ?v" using promise(2) [OF that] lc(2) by auto
      then have eq: "pm_last_committed m = last_committed p" and "?u \<noteq> 0" using pos [OF that(1)] by auto
      moreover have "uncommitted_v p \<le> ?v" "uncommitted_v p = 0 \<longrightarrow> uncommitted_pn p = 0" using k unfolding knows_def by (auto split: if_splits)
      ultimately have "?u < uncommitted_pn p" "uncommitted_v p = ?v" using False k unfolding knows_def by (auto split: if_splits)
      then show False using no v by simp
    qed
    then show ?thesis using k old unfolding q knows_def by blast
  qed
qed

lemma leader_knows: "leader_ok n s K i p \<Longrightarrow> state p = RECOVERING \<Longrightarrow> knows s K i p"
  and leader_idle: "leader_ok n s K i p \<Longrightarrow> state p = RECOVERING \<Longrightarrow> new_value p = None"
  and leader_settled: "leader_ok n s K i p \<Longrightarrow> state p \<noteq> RECOVERING \<Longrightarrow> settled s p"
  and leader_counted: "leader_ok n s K i p \<Longrightarrow> state p \<noteq> RECOVERING \<Longrightarrow> counted K (accepted_pn p) = set (px_quorum p) - {i}"
  and leader_proposal: "leader_ok n s K i p \<Longrightarrow> proposal_ok s i p"
  unfolding leader_ok_def by metis+

lemma stale_ok_insert:
  "stale_ok P net K \<Longrightarrow> (\<And>x. x \<in> set net \<Longrightarrow> pm_op x = OP_LAST \<Longrightarrow> pm_from x = j \<Longrightarrow> pm_pn x < b \<Longrightarrow>
     pm_last_committed x \<le> last_committed (P (owner b))) \<Longrightarrow> stale_ok P net (insert (j, b) K)"
  unfolding stale_ok_def by auto

lemma round_ok_same:
  "px_role p' = px_role p \<Longrightarrow> accepted_pn p' = accepted_pn p \<Longrightarrow> last_committed p' = last_committed p \<Longrightarrow>
   new_value p' = new_value p \<Longrightarrow> accepted p' = accepted p \<Longrightarrow> px_quorum p' = px_quorum p \<Longrightarrow> round_ok i p' net \<longleftrightarrow> round_ok i p net"
  by (simp only: round_ok_def)

lemma knows_num_last [simp]: "knows s K i (p\<lparr>num_last := x\<rparr>) \<longleftrightarrow> knows s K i p"
  by (simp add: knows_def)

lemma ginv_count:
  assumes inv: "ginv n P (a @ m # b) rg V K A" and i: "i < n" and m: "is_msg OP_LAST j i m" and pn: "pm_pn m = accepted_pn (P i)"
    and role: "px_role (P i) = LEADER" and rec: "state (P i) = RECOVERING" and ep: "px_epoch (P i) = pm_epoch m"
    and lc: "pm_last_committed m \<le> last_committed (P i)"
    and p: "p = learn_uncommitted m ((P i)\<lparr>num_last := num_last (P i) + 1\<rparr>)"
  shows "ginv n (P(i := p)) (a @ b) rg V (insert (j, accepted_pn (P i)) K) A"
proof -
  let ?net = "a @ m # b" and ?s = "summ P rg V A" and ?acc = "accepted_pn (P i)"
  let ?K = "insert (j, ?acc) K" and ?t = "summ (P(i := p)) rg V A"
  have same: "?t = ?s" by (rule summ_same) (simp_all add: p)
  have glob: "glob_ok n ?s K" and base: "base_ok n ?s i (P i)" and ri: "role_ok n ?s K i (P i)"
    and ans: "answer_ok P ?net K A" and mok: "msg_ok n ?s m"
    using inv i by (simp_all add: ginv_def)
  have lead: "leader_ok n ?s K i (P i)" using ri role by (simp add: role_ok_def)
  have own: "owner ?acc = i" using lead unfolding leader_ok_def by blast
  have last: "last_ok n ?s m" and jq: "j \<in> set (px_quorum (P i))" "j \<noteq> i"
    using mok m lead ep by (auto simp: msg_ok_def is_msg_def leader_ok_def)
  have new: "(j, ?acc) \<notin> K" using not_counted [OF ans, of m] m pn own by simp
  have jA: "(j, ?acc) \<in> A" using last m pn own by (simp add: last_ok_def is_msg_def)
  have glob': "glob_ok n ?s ?K" using glob jA unfolding glob_ok_def by auto
  have cnt: "counted ?K ?acc = insert j (counted K ?acc)" by (auto simp: counted_def)
  have "counted K ?acc \<subseteq> set (px_quorum (P i))" using lead unfolding leader_ok_def by blast
  then have fin: "finite (counted K ?acc)" by (rule finite_subset) simp
  have "knows ?s K i ((P i)\<lparr>num_last := num_last (P i) + 1\<rparr>)" using leader_knows [OF lead rec] by simp
  then have "knows ?s (insert (pm_from m, ?acc) K) i p"
    using knows_count [of ?s K i "(P i)\<lparr>num_last := num_last (P i) + 1\<rparr>" n m] last m pn own lc glob
    by (auto simp: p is_msg_def glob_ok_def votes_ok_def)
  then have "knows ?s ?K i p" using m by (simp add: is_msg_def)
  moreover have "proposal_ok ?s i p" using leader_proposal [OF lead] by (simp add: p proposal_ok_def split: option.splits)
  moreover have "j \<notin> counted K ?acc" using new by (simp add: counted_def)
  ultimately have "leader_ok n ?s ?K i p"
    using lead cnt fin jq rec unfolding leader_ok_def by (simp add: p)
  then have role': "role_ok n ?s ?K i p" using ri role by (simp add: role_ok_def p is_writing_def)
  show ?thesis
  proof (rule ginv_step [OF inv i])
    show "grows i ?s ?t" unfolding same by (simp add: grows_def)
    show "glob_ok n ?t ?K" "role_ok n ?t ?K i p" unfolding same by (rule glob', rule role')
    show "base_ok n ?t i p" unfolding same by (rule base_ok_same [OF _ _ _ _ _ _ _ _ base]) (simp_all add: p)
    show "\<forall>k<n. k \<noteq> i \<and> px_role (P k) = LEADER \<longrightarrow> counted ?K (accepted_pn (P k)) = counted K (accepted_pn (P k))"
      using inv own by (auto simp: ginv_def role_ok_def leader_ok_def counted_def)
    show "collect_ok (a @ b) A" using inv by (auto simp: ginv_def intro: collect_ok_remove)
    have rest: "order_ok (a @ b)" "later_ok (P(i := p)) (a @ b) A" "stale_ok (P(i := p)) (a @ b) K"
      using answer_ok_move [OF answer_ok_remove [OF ans], of i p] by (simp_all add: p answer_ok_def)
    have "pm_last_committed x \<le> last_committed (P i)" if "x \<in> set (a @ b)" "pm_op x = OP_LAST" "pm_from x = j" "pm_pn x < ?acc" for x
    proof -
      have "pm_last_committed x \<le> pm_last_committed m"
        using ans that m pn by (auto simp: answer_ok_def order_ok_def is_msg_def)
      then show ?thesis using lc by simp
    qed
    then have "stale_ok (P(i := p)) (a @ b) ?K" by (intro stale_ok_insert [OF rest(3)]) (simp_all add: own p)
    moreover have "once_ok (a @ b) ?K"
      unfolding once_ok_def
    proof (intro allI)
      fix k c
      have "answers k c ?net + (if (k, c) \<in> K then 1 else 0) \<le> 1" using ans by (simp only: answer_ok_def once_ok_def)
      then show "answers k c (a @ b) + (if (k, c) \<in> ?K then 1 else 0) \<le> 1" using m pn own by (auto simp: net_Cons split: if_splits)
    qed
    ultimately show "answer_ok (P(i := p)) (a @ b) ?K A"
      using rest unfolding answer_ok_def by blast
    show "\<forall>k<n. round_ok k ((P(i := p)) k) (a @ b)"
    proof (intro allI impI)
      fix k assume "k < n"
      then have "round_ok k (P k) (a @ b)" using inv by (auto simp: ginv_def intro: round_ok_remove)
      then show "round_ok k ((P(i := p)) k) (a @ b)" using round_ok_same [of p "P i"] by (cases "k = i") (simp_all add: p)
    qed
  qed auto
qed

subsection \<open>Proposing\<close>

definition proposed :: "txn \<Rightarrow> paxos \<Rightarrow> paxos" where
  "proposed t p = p\<lparr>accepted := [px_rank p], new_value := Some t,
     px_store := (put_version (last_committed p + 1) t (px_store p))\<lparr>st_pending_v := last_committed p + 1, st_pending_pn := accepted_pn p\<rparr>\<rparr>"

definition wrapped :: "nat \<Rightarrow> txn \<Rightarrow> txn" where
  "wrapped lc t = (if lc = 0 then PutFirstCommitted 1 # t else t)"

definition begin_msg :: "txn \<Rightarrow> paxos \<Rightarrow> nat \<Rightarrow> px_msg" where
  "begin_msg t p k = (new_msg p OP_BEGIN k)\<lparr>pm_values := [(last_committed p + 1, t)], pm_last_committed := last_committed p, pm_pn := accepted_pn p\<rparr>"

lemma begin_eq:
  assumes "px_begin u p = Some (p', out)" and "length (px_quorum p) \<noteq> 1"
  shows "p' = proposed (wrapped (last_committed p) u) p" "out = map (begin_msg (wrapped (last_committed p) u) p') (other_quorum p')"
    "new_value p = None" "px_role p = LEADER" "is_updating p" "px_size p div 2 < num_last p"
proof -
  show *: "new_value p = None" "px_role p = LEADER" "is_updating p" "px_size p div 2 < num_last p"
    using assms by (auto simp: px_begin_def)
  let ?q = "proposed (wrapped (last_committed p) u) p"
  have "px_begin u p = Some (?q, map (begin_msg (wrapped (last_committed p) u) ?q) (other_quorum ?q))"
    using * assms(2) unfolding px_begin_def Let_def
    by (simp add: proposed_def wrapped_def begin_msg_def)
  then show "p' = ?q" "out = map (begin_msg (wrapped (last_committed p) u) p') (other_quorum p')" using assms(1) by auto
qed

lemma wrapped_raw: "raw_ok (lc + 1) (wrapped lc u)" "canon (lc + 1) (wrapped lc u) = canon (lc + 1) u"
  using canon_again(1) by (auto simp: raw_ok_def wrapped_def)

lemma asked_to:
  assumes "distinct qs" and "\<And>k. k \<in> set qs \<Longrightarrow> is_msg OP_BEGIN i k (f k) \<and> pm_pn (f k) = b"
  shows "asked i j b (map f qs) = (if j \<in> set qs then 1 else 0)"
  using assms
proof (induction qs)
  case (Cons k qs)
  then show ?case by (auto simp: net_Cons in_round_def is_msg_def)
qed simp

lemma base_ok_stored:
  assumes base: "base_ok n s i p" and V: "votes s' = insert (i, last_committed p + 1, accepted_pn p, canon (last_committed p + 1) t) (votes s)"
    and A: "proms s' = proms s" and t: "raw_ok (last_committed p + 1) t" and pos: "0 < accepted_pn p"
    and p': "px_rank p' = px_rank p" "px_size p' = px_size p" "last_committed p' = last_committed p" "first_committed p' = first_committed p"
      "last_pn p' = last_pn p" "accepted_pn p' = accepted_pn p" "pending_proposal p' = pending_proposal p"
      "px_store p' = (put_version (last_committed p + 1) t (px_store p))\<lparr>st_pending_v := last_committed p + 1, st_pending_pn := accepted_pn p\<rparr>"
  shows "base_ok n s' i p'"
proof -
  have st: "store_ok p" using base by (simp add: base_ok_def)
  then have "store_ok p'" unfolding store_ok_def p' by (simp add: smap_wf_put map_of_put)
  moreover have "log_ok n s' p'"
  proof -
    have "log_ok n s p" using base by (simp add: base_ok_def)
    then have "log_ok n s' p" by (rule log_ok_mono) (simp add: V subset_insertI)
    then obtain h where h: "length h = last_committed p" "good_log h" "store_log (px_store p) h"
      "\<forall>k<last_committed p. decided (quo n) (votes s') (k + 1) (h ! k)"
      unfolding log_ok_def by blast
    have "store_log (px_store p') h" by (rule store_log_cong [OF h(3)]) (auto simp: p'(8) map_of_put h(1))
    then show ?thesis using h unfolding log_ok_def p'(3) by blast
  qed
  moreover have "ballot_ok s' i p'"
    using base pos t unfolding base_ok_def ballot_ok_def V p' by (auto simp: map_of_put)
  ultimately show ?thesis using base A unfolding base_ok_def p' by auto
qed

text \<open>A round starts: one message to each other monitor of the quorum.\<close>

lemma round_ok_begin:
  assumes none: "\<And>m j. m \<in> set net \<Longrightarrow> \<not> in_round i j (accepted_pn p) m"
    and ask: "\<And>j. asked i j (accepted_pn p) out = (if j \<in> set (other_quorum p) then 1 else 0)"
    and out: "\<And>m. m \<in> set out \<Longrightarrow> pm_op m = OP_BEGIN \<and> pm_to m \<in> set (other_quorum p) \<and> pm_last_committed m = last_committed p"
    and p: "px_rank p = i" "accepted p = [i]" "new_value p \<noteq> None"
  shows "round_ok i p (net @ out)"
proof -
  have "asked i j (accepted_pn p) net = 0" for j using none by (simp add: asked_def filter_empty_conv)
  then have "asked i j (accepted_pn p) (net @ out) + (if new_value p \<noteq> None \<and> j \<in> set (accepted p) then 1 else 0) \<le> 1" for j
    using ask p(1,2) by (simp add: other_quorum_def)
  moreover have "pm_last_committed m = last_committed p \<and> j \<in> set (px_quorum p)" if "m \<in> set (net @ out)" "in_round i j (accepted_pn p) m" for m j
  proof -
    have "m \<in> set out" using that none by auto
    then show ?thesis using out that(2) by (auto simp: in_round_def is_msg_def other_quorum_def)
  qed
  ultimately show ?thesis using p(3) unfolding round_ok_def by blast
qed

lemma ginv_propose:
  assumes inv: "ginv n P net rg V K A" and i: "i < n" and n: "1 < n"
    and core: "base_ok n (summ P rg V A) i p" "last_committed p = last_committed (P i)" "accepted_pn p = accepted_pn (P i)" "last_pn p = last_pn (P i)" "px_quorum p = px_quorum (P i)"
      "px_epoch p = px_epoch (P i)" "num_last p = num_last (P i)" "px_role (P i) = LEADER" "new_value (P i) = None" "queued p = None"
    and cnt: "counted K (accepted_pn p) = set (px_quorum p) - {i}"
    and bound: "\<And>j w b x. j \<in> set (px_quorum p) \<Longrightarrow> (j, w, b, x) \<in> V \<Longrightarrow> b < accepted_pn p \<Longrightarrow> w \<le> last_committed p + 1"
    and may: "may_propose (quo n) (accs (summ P rg V A)) V (last_committed p + 1) (accepted_pn p) (canon (last_committed p + 1) u)"
    and pre: "prefix_ok n (summ P rg V A) (last_committed p + 1) (canon (last_committed p + 1) u)"
    and bg: "px_begin u p = Some (p', out)"
  shows "\<exists>V'. V \<subseteq> V' \<and> ginv n (P(i := p')) (net @ out) rg V' K A"
proof -
  let ?s = "summ P rg V A" and ?v = "last_committed p + 1" and ?acc = "accepted_pn p"
  have glob: "glob_ok n ?s K" and lead: "leader_ok n ?s K i (P i)" and round: "round_ok i (P i) net"
    using inv i core(8) by (simp_all add: ginv_def role_ok_def)
  have q: "length (px_quorum p) \<noteq> 1" using leader_okD(1) [OF glob lead] n core(5) by (auto simp: is_quorum_def)
  define t where "t = wrapped (last_committed p) u"
  note bg' = begin_eq [OF bg q, folded t_def]
  have t: "raw_ok ?v t" "canon ?v t = canon ?v u" using wrapped_raw by (simp_all add: t_def)
  define V' where "V' = insert (i, ?v, ?acc, canon ?v t) V"
  let ?t = "summ (P(i := p')) rg V' A"
  have rank: "px_rank p = i" using core(1) by (simp add: base_ok_def)
  have same: "last_committed p' = last_committed p" "accepted_pn p' = ?acc" "last_pn p' = last_pn p" "px_role p' = LEADER" "px_epoch p' = px_epoch p"
    "px_quorum p' = px_quorum p" "new_value p' = Some t" "accepted p' = [i]" "num_last p' = num_last p" "queued p' = None" "state p' = state p"
    "px_rank p' = i" "st_pending_pn (px_store p') = ?acc" "map_of (st_versions (px_store p')) ?v = Some t"
    using bg'(4) core(10) by (simp_all add: bg'(1) proposed_def rank map_of_put)
  have st: "?t = summ P rg V' A" using summ_same [of p' P i rg V' A] same core by simp
  have own: "owner ?acc = i" "last_pn p = ?acc" "0 < ?acc" using lead core unfolding leader_ok_def by simp_all
  have fresh: "(k, ?v, ?acc, x) \<notin> V" for k x
  proof
    assume "(k, ?v, ?acc, x) \<in> V"
    then have "(i, ?v, ?acc, x) \<in> V" using glob own(1) unfolding glob_ok_def by auto
    then show False using leader_proposal [OF lead] core by (auto simp: proposal_ok_def)
  qed
  have "glob_ok n (summ P rg V' A) K"
    using glob_ok_propose [OF glob i own(3) _ own(1), of ?v "canon ?v u"] own fresh may pre core t(2) by (simp add: V'_def)
  then have glob': "glob_ok n ?t K" by (simp only: st)
  have g: "grows i ?s ?t" using core by (auto simp: grows_def same V'_def)
  have base': "base_ok n ?t i p'"
    using bg'(1) own(3) t(1) by (intro base_ok_stored [OF core(1), where t = t]) (simp_all add: proposed_def V'_def)
  have "settled ?t p'"
    using bound unfolding settled_def same by (fastforce simp: V'_def)
  moreover have "proposal_ok ?t i p'"
    using leader_okD(3) [OF glob lead] core(5) unfolding proposal_ok_def same by (simp add: V'_def)
  moreover have "state p \<noteq> RECOVERING" using bg'(5) by (auto simp: is_updating_def)
  ultimately have lead': "leader_ok n ?t K i p'"
    using lead cnt core own unfolding leader_ok_def same by simp
  then have role': "role_ok n ?t K i p'" by (simp add: role_ok_def same)
  have ops: "pm_op m = OP_BEGIN" "pm_from m = i" "pm_pn m = ?acc" "pm_to m \<in> set (other_quorum p')" "pm_epoch m = px_epoch p'"
    "pm_last_committed m = last_committed p" "pm_values m = [(?v, t)]" if "m \<in> set out" for m
    using that by (auto simp: bg'(2) begin_msg_def new_msg_def same)
  have qs: "distinct (other_quorum p')"
    using leader_okD(1) [OF glob' lead'] by (simp add: other_quorum_def is_quorum_def strict_sorted_iff)
  have ask: "asked i j ?acc out = (if j \<in> set (other_quorum p') then 1 else 0)" for j
    unfolding bg'(2) by (rule asked_to [OF qs]) (simp add: begin_msg_def new_msg_def is_msg_def same)
  have none: "\<not> in_round i j ?acc m" if "m \<in> set net" for m j using round core that by (auto simp: round_ok_def)
  have "ginv n (P(i := p')) (net @ out) rg V' K A"
  proof (rule ginv_step [OF inv i g glob' base' role'])
    have "msg_ok n ?t m" if "m \<in> set out" for m
      using ops [OF that] own t by (intro to_quorum [OF glob' lead' i]) (auto simp: same V'_def)
    then show "\<forall>m\<in>set (net @ out). m \<in> set net \<or> msg_ok n ?t m" by auto
    show "collect_ok (net @ out) A" using inv ops(1) by (simp add: collect_ok_none ginv_def)
    have "answer_ok (P(i := p')) net K A" using inv core by (intro answer_ok_move) (simp_all add: ginv_def same)
    then show "answer_ok (P(i := p')) (net @ out) K A" using ops(1) by (simp add: answer_ok_none)
    have "round_ok i p' (net @ out)"
      using none ask ops(1,4,6) by (intro round_ok_begin [of net i p' out]) (auto simp: same other_quorum_def)
    moreover have "round_ok k (P k) (net @ out)" if "k < n" "k \<noteq> i" for k
      using that inv ops by (subst round_ok_none) (auto simp: in_round_def is_msg_def ginv_def)
    ultimately show "\<forall>k<n. round_ok k ((P(i := p')) k) (net @ out)" by simp
  qed simp
  moreover have "V \<subseteq> V'" by (auto simp: V'_def)
  ultimately show ?thesis by blast
qed

text \<open>Why a leader may propose: its quorum has promised, and it knows their votes.\<close>

lemma quorum_promised:
  assumes glob: "glob_ok n s K" and lead: "leader_ok n s K i p" and acc: "accs s i = accepted_pn p"
    and cnt: "counted K (accepted_pn p) = set (px_quorum p) - {i}" and q: "q \<in> set (px_quorum p)"
  shows "accepted_pn p \<le> accs s q"
proof (cases "q = i")
  case False
  then have "(q, accepted_pn p) \<in> proms s" using cnt q glob by (auto simp: counted_def glob_ok_def)
  then show ?thesis using glob by (auto simp: glob_ok_def)
qed (simp add: acc)

lemma may_propose_new:
  assumes glob: "glob_ok n s K" and lead: "leader_ok n s K i p" and acc: "accs s i = accepted_pn p"
    and st: "state p \<noteq> RECOVERING" and none: "new_value p = None"
  shows "may_propose (quo n) (accs s) (votes s) (last_committed p + 1) (accepted_pn p) t"
proof -
  have "free_below (votes s) (set (px_quorum p)) (last_committed p + 1) 0 (accepted_pn p)"
    using leader_settled [OF lead st] none unfolding settled_def free_below_def by fastforce
  then show ?thesis
    using leader_okD(2) [OF glob lead] quorum_promised [OF glob lead acc leader_counted [OF lead st]] unfolding may_propose_def by blast
qed

lemma may_propose_old:
  assumes glob: "glob_ok n s K" and lead: "leader_ok n s K i p" and acc: "accs s i = accepted_pn p"
    and st: "state p = RECOVERING" and cnt: "counted K (accepted_pn p) = set (px_quorum p) - {i}"
    and un: "uncommitted_v p = last_committed p + 1" "uncommitted_value p = Some u"
  shows "may_propose (quo n) (accs s) (votes s) (last_committed p + 1) (accepted_pn p) (canon (last_committed p + 1) u)"
    "prefix_ok n s (last_committed p + 1) (canon (last_committed p + 1) u)"
proof -
  let ?v = "last_committed p + 1"
  have k: "knows s K i p" by (rule leader_knows [OF lead st])
  obtain j where j: "(j, ?v, uncommitted_pn p, canon ?v u) \<in> votes s" "uncommitted_pn p < accepted_pn p"
    using k un unfolding knows_def by auto
  show "prefix_ok n s ?v (canon ?v u)" using j(1) glob unfolding glob_ok_def by blast
  have "free_below (votes s) (set (px_quorum p)) ?v (uncommitted_pn p) (accepted_pn p)"
    unfolding free_below_def
  proof (intro ballI allI impI)
    fix q b x assume q: "q \<in> set (px_quorum p)" "(q, ?v, b, x) \<in> votes s"
    then have "q = i \<or> (q, accepted_pn p) \<in> K" using cnt by (auto simp: counted_def)
    then show "b \<le> uncommitted_pn p \<or> accepted_pn p \<le> b" using k q(2) unfolding knows_def by fastforce
  qed
  then show "may_propose (quo n) (accs s) (votes s) ?v (accepted_pn p) (canon ?v u)"
    using leader_okD(2) [OF glob lead] quorum_promised [OF glob lead acc cnt] j unfolding may_propose_def by blast
qed

lemma knows_settled:
  assumes "leader_ok n s K i p" and "state p = RECOVERING" and "counted K (accepted_pn p) = set (px_quorum p) - {i}"
    and "uncommitted_v p \<noteq> last_committed p + 1 \<or> uncommitted_value p = None" and "px_quorum p' = px_quorum p"
    and "accepted_pn p' = accepted_pn p" and "last_committed p' = last_committed p"
  shows "settled s p'"
  unfolding settled_def assms(5-7)
proof (intro allI impI)
  fix j v b t assume j: "j \<in> set (px_quorum p) \<and> (j, v, b, t) \<in> votes s \<and> b < accepted_pn p"
  have k: "knows s K i p" by (rule leader_knows [OF assms(1,2)])
  have "uncommitted_v p \<noteq> last_committed p + 1" using k assms(4) unfolding knows_def by (auto split: if_splits)
  moreover have "j = i \<or> (j, accepted_pn p) \<in> K" using assms(3) j by (auto simp: counted_def)
  ultimately show "v \<le> last_committed p \<or> v = last_committed p + 1 \<and> new_value p' \<noteq> None" using k j unfolding knows_def by blast
qed

subsection \<open>Votes\<close>

lemma round_ok_replace:
  assumes ok: "round_ok k p (a @ m # b)" and same: "\<And>x c. in_round k x c r \<longleftrightarrow> in_round k x c m" "pm_last_committed r = pm_last_committed m"
  shows "round_ok k p ((a @ b) @ [r])"
proof -
  have "asked k x c ((a @ b) @ [r]) = asked k x c (a @ m # b)" for x c by (simp add: net_Cons same)
  moreover have "y \<in> set (a @ m # b) \<or> y = r" if "y \<in> set ((a @ b) @ [r])" for y using that by auto
  moreover have "m \<in> set (a @ m # b)" by simp
  ultimately show ?thesis using ok same unfolding round_ok_def by metis
qed

definition voted :: "txn \<Rightarrow> paxos \<Rightarrow> paxos" where
  "voted t p = p\<lparr>state := UPDATING, lease_expire := 0,
     px_store := (put_version (last_committed p + 1) t (px_store p))\<lparr>st_pending_v := last_committed p + 1, st_pending_pn := accepted_pn p\<rparr>\<rparr>"

lemma ginv_vote:
  assumes inv: "ginv n P (a @ m # b) rg V K A" and j: "j < n" and m: "is_msg OP_BEGIN i j m" and role: "px_role (P j) = PEON"
    and ep: "px_epoch (P j) = pm_epoch m" and pn: "pm_pn m = accepted_pn (P j)" and lc: "pm_last_committed m = last_committed (P j)"
    and t: "map_of (pm_values m) (last_committed (P j) + 1) = Some t" and p: "p = voted t (P j)"
    and r: "r = (new_msg p OP_ACCEPT i)\<lparr>pm_pn := accepted_pn p, pm_last_committed := last_committed p\<rparr>"
  shows "\<exists>V'. V \<subseteq> V' \<and> ginv n (P(j := p)) ((a @ b) @ [r]) rg V' K A"
proof -
  let ?net = "a @ m # b" and ?s = "summ P rg V A" and ?v = "last_committed (P j) + 1" and ?acc = "accepted_pn (P j)"
  define V' where "V' = insert (j, ?v, ?acc, canon ?v t) V"
  let ?t = "summ (P(j := p)) rg V' A"
  have glob: "glob_ok n ?s K" and base: "base_ok n ?s j (P j)" and rj: "role_ok n ?s K j (P j)" and mok: "msg_ok n ?s m"
    using inv j by (simp_all add: ginv_def)
  have src: "pm_from m = i" "pm_to m = j" "i \<noteq> j" "i < n" and own: "owner ?acc = i" and vote: "(i, ?v, ?acc, canon ?v t) \<in> V" "raw_ok ?v t"
    using m mok t pn lc by (auto simp: is_msg_def msg_ok_def)
  have pos: "0 < ?acc" using glob vote(1) by (auto simp: glob_ok_def votes_ok_def)
  have same: "last_committed p = last_committed (P j)" "accepted_pn p = ?acc" "last_pn p = last_pn (P j)" "px_role p = PEON" "px_epoch p = px_epoch (P j)"
    "px_quorum p = px_quorum (P j)" "px_leader p = px_leader (P j)" "queued p = queued (P j)" "px_rank p = j"
    using role base by (simp_all add: p voted_def base_ok_def)
  have st: "?t = summ P rg V' A" using summ_same [of p P j rg V' A] same by simp
  have "glob_ok n (summ P rg V' A) K" using glob_ok_vote [OF glob j pos, of i ?v "canon ?v t"] vote by (simp add: V'_def)
  then have glob': "glob_ok n ?t K" by (simp only: st)
  have g: "grows j ?s ?t" by (auto simp: grows_def same V'_def)
  have base': "base_ok n ?t j p"
    using pos vote(2) by (intro base_ok_stored [OF base, where t = t]) (simp_all add: p voted_def V'_def)
  have role': "role_ok n ?t K j p" using rj role by (simp add: role_ok_def same)
  have rr: "pm_op r = OP_ACCEPT" "pm_from r = j" "pm_to r = i" "pm_pn r = ?acc" "pm_last_committed r = last_committed (P j)" "pm_epoch r = pm_epoch m"
    by (simp_all add: r new_msg_def same ep)
  have rok: "msg_ok n ?t r"
    using mok m src j rr own by (auto simp: msg_ok_def is_msg_def V'_def)
  have "ginv n (P(j := p)) ((a @ b) @ [r]) rg V' K A"
  proof (rule ginv_step [OF inv j g glob' base' role'])
    show "\<forall>x\<in>set ((a @ b) @ [r]). x \<in> set ?net \<or> msg_ok n ?t x" using rok by auto
    have "collect_ok (a @ b) A" using inv by (auto simp: ginv_def intro: collect_ok_remove)
    then show "collect_ok ((a @ b) @ [r]) A" by (subst collect_ok_none) (simp_all add: rr)
    have "answer_ok (P(j := p)) (a @ b) K A"
      using inv answer_ok_remove by (intro answer_ok_move) (auto simp: ginv_def same)
    then show "answer_ok (P(j := p)) ((a @ b) @ [r]) K A" by (subst answer_ok_none) (simp_all add: rr)
    have "round_ok k (P k) ((a @ b) @ [r])" if "k < n" for k
      using that inv m pn rr lc by (intro round_ok_replace [of k "P k" a m b]) (auto simp: ginv_def in_round_def is_msg_def)
    then show "\<forall>k<n. round_ok k ((P(j := p)) k) ((a @ b) @ [r])" by (simp add: round_ok_def [of j p] same)
  qed simp
  moreover have "V \<subseteq> V'" by (auto simp: V'_def)
  ultimately show ?thesis by blast
qed

end
