(* ===== verification/Paxos_Handlers.thy ===== *)
theory Paxos_Handlers
  imports Paxos_Moves
begin

text \<open>
  The handlers of a monitor keep the invariant of all of them: each is a sequence of the moves, with changes of
  its own variables between them that the others do not see.
\<close>

subsection \<open>Local changes\<close>

text \<open>The variables the invariant speaks of, besides the state of the protocol and the pending transaction.\<close>

definition same_core :: "paxos \<Rightarrow> paxos \<Rightarrow> bool" where
  "same_core p p' \<longleftrightarrow> px_rank p' = px_rank p \<and> px_size p' = px_size p \<and> px_store p' = px_store p \<and>
     last_committed p' = last_committed p \<and> first_committed p' = first_committed p \<and> last_pn p' = last_pn p \<and>
     accepted_pn p' = accepted_pn p \<and> px_role p' = px_role p \<and> px_epoch p' = px_epoch p \<and> px_quorum p' = px_quorum p \<and>
     px_leader p' = px_leader p \<and> num_last p' = num_last p \<and> new_value p' = new_value p \<and> accepted p' = accepted p \<and>
     queued p' = queued p \<and> uncommitted_v p' = uncommitted_v p \<and> uncommitted_pn p' = uncommitted_pn p \<and>
     uncommitted_value p' = uncommitted_value p"

lemma same_core_refl [simp]: "same_core p p"
  by (simp add: same_core_def)

lemma role_ok_tweak:
  assumes role: "role_ok n s K i p" and same: "same_core p p'"
    and st: "px_role p = LEADER \<longrightarrow> state p = RECOVERING \<longleftrightarrow> state p' = RECOVERING" "queued p \<noteq> None \<longrightarrow> is_writing p'"
  shows "role_ok n s K i p'"
proof -
  have eq: "knows s K i p' \<longleftrightarrow> knows s K i p" "settled s p' \<longleftrightarrow> settled s p" "proposal_ok s i p' \<longleftrightarrow> proposal_ok s i p"
    using same by (simp_all only: same_core_def knows_def settled_def proposal_ok_def)
  have "leader_ok n s K i p'" if "leader_ok n s K i p" "px_role p = LEADER"
    using that same st(1) unfolding leader_ok_def eq same_core_def by simp
  then show ?thesis using role same st(2) unfolding role_ok_def same_core_def by simp
qed

lemma ginv_tweak:
  assumes inv: "ginv n P net rg V K A" and i: "i < n" and same: "same_core (P i) p"
    and st: "px_role (P i) = LEADER \<longrightarrow> state (P i) = RECOVERING \<longleftrightarrow> state p = RECOVERING" "queued (P i) \<noteq> None \<longrightarrow> is_writing p"
    and pend: "pending_proposal p = pending_proposal (P i) \<or> (\<forall>t. pending_proposal p = Some t \<longrightarrow> services_only t)"
    and out: "plain out" "\<forall>m\<in>set out. msg_ok n (summ P rg V A) m"
  shows "ginv n (P(i := p)) (net @ out) rg V K A"
proof -
  have base: "base_ok n (summ P rg V A) i (P i)" and role: "role_ok n (summ P rg V A) K i (P i)" and round: "round_ok i (P i) net"
    using inv i by (simp_all add: ginv_def)
  have s: "summ (P(i := p)) rg V A = summ P rg V A" using same by (intro summ_same) (simp_all add: same_core_def)
  show ?thesis
  proof (rule ginv_move [OF inv i])
    show "base_ok n (summ (P(i := p)) rg V A) i p"
      using base same pend unfolding s same_core_def base_ok_def store_ok_def log_ok_def ballot_ok_def by auto
    show "role_ok n (summ (P(i := p)) rg V A) K i p" unfolding s by (rule role_ok_tweak [OF role same st])
    show "round_ok i p net" using round same by (subst round_ok_same [of p "P i"]) (simp_all add: same_core_def)
  qed (use same out s in \<open>simp_all add: same_core_def\<close>)
qed

text \<open>A monitor that is not a leader afterwards.\<close>

lemma ginv_follow:
  assumes inv: "ginv n P net rg V K A" and i: "i < n"
    and base: "base_ok n (summ P rg V A) i p"
    and same: "last_committed (P i) \<le> last_committed p" "accepted_pn p = accepted_pn (P i)" "last_pn p = last_pn (P i)"
    and role: "px_role p \<noteq> LEADER" "queued p = None" "px_role p = PEON \<longrightarrow> rg (px_epoch p) = Some (px_leader p, px_quorum p) \<and> px_leader p \<noteq> i"
  shows "ginv n (P(i := p)) net rg V K A"
proof -
  have "ginv n (P(i := p)) (net @ []) rg V K A"
  proof (rule ginv_move [OF inv i])
    show "base_ok n (summ (P(i := p)) rg V A) i p" using base base_ok_summ by blast
  qed (use same role in \<open>simp_all add: role_ok_def round_ok_def\<close>)
  then show ?thesis by simp
qed

lemma ginv_restart:
  assumes inv: "ginv n P net rg V K A" and i: "i < n" and q: "queued (P i) = None"
  shows "ginv n (P(i := restart_idle (P i))) net rg V K A"
proof (rule ginv_follow [OF inv i])
  have base: "base_ok n (summ P rg V A) i (P i)" using inv i by (simp add: ginv_def)
  show "base_ok n (summ P rg V A) i (restart_idle (P i))"
    by (rule base_ok_same [OF _ _ _ _ _ _ _ _ base]) (simp_all add: restart_idle_def reset_pending_committing_finishers_def)
qed (use q in \<open>simp_all add: restart_idle_def reset_pending_committing_finishers_def\<close>)

lemma ginv_same: "ginv n P net rg V K A \<Longrightarrow> ginv n (P(i := P i)) net rg V K A"
  by simp

subsection \<open>Counting votes\<close>

lemma set_set_insert: "set (set_insert x xs) = insert x (set xs)"
  by (induction xs) auto

lemma asked_pos: "m \<in> set net \<Longrightarrow> in_round i j b m \<Longrightarrow> 0 < asked i j b net"
  by (auto simp: asked_def filter_empty_conv)

definition counting :: "nat \<Rightarrow> paxos \<Rightarrow> paxos" where
  "counting j p = p\<lparr>accepted := set_insert j (accepted p)\<rparr>"

lemma ginv_accept:
  assumes inv: "ginv n P (a @ m # b) rg V K A" and i: "i < n" and m: "is_msg OP_ACCEPT j i m" and role: "px_role (P i) = LEADER"
    and ep: "px_epoch (P i) = pm_epoch m" and pn: "pm_pn m = accepted_pn (P i)"
    and q: "queued (P i) = None"
    and p: "p = counting j (P i)"
  shows "ginv n (P(i := p)) (a @ b) rg V K A" "pm_last_committed m = last_committed (P i)" "new_value (P i) \<noteq> None"
proof -
  let ?net = "a @ m # b" and ?s = "summ P rg V A" and ?acc = "accepted_pn (P i)" and ?v = "last_committed (P i) + 1"
  have glob: "glob_ok n ?s K" and base: "base_ok n ?s i (P i)" and ri: "role_ok n ?s K i (P i)" and mok: "msg_ok n ?s m"
    and round: "round_ok i (P i) ?net" using inv i by (simp_all add: ginv_def)
  have lead: "leader_ok n ?s K i (P i)" using ri role by (simp add: role_ok_def)
  have here: "in_round i j ?acc m" using m pn by (simp add: in_round_def)
  have in_net: "m \<in> set ?net" by simp
  have lc: "pm_last_committed m = last_committed (P i)" "new_value (P i) \<noteq> None" "j \<in> set (px_quorum (P i))"
    using round role here in_net unfolding round_ok_def by blast+
  then show "pm_last_committed m = last_committed (P i)" "new_value (P i) \<noteq> None" by simp_all
  obtain t where t: "new_value (P i) = Some t" using lc(2) by blast
  have asks: "asked i k ?acc ?net + (if k \<in> set (accepted (P i)) then 1 else 0) \<le> 1" for k
    using round role t unfolding round_ok_def by auto
  obtain u where u: "(j, ?v, ?acc, u) \<in> V" using mok m lc(1) pn by (auto simp: msg_ok_def is_msg_def)
  have prp: "proposal_ok ?s i (P i)" by (rule leader_proposal [OF lead])
  then have "(i, ?v, ?acc, canon ?v t) \<in> V" using t by (auto simp: proposal_ok_def)
  then have "u = canon ?v t" using u glob unfolding glob_ok_def votes_ok_def one_value_def by auto
  then have vote: "(j, ?v, ?acc, canon ?v t) \<in> V" using u by simp
  have core: "last_committed p = last_committed (P i)" "accepted_pn p = ?acc" "last_pn p = last_pn (P i)" "px_role p = px_role (P i)"
    "px_epoch p = px_epoch (P i)" "px_quorum p = px_quorum (P i)" "new_value p = new_value (P i)" "queued p = queued (P i)" "state p = state (P i)"
    "px_store p = px_store (P i)" "num_last p = num_last (P i)" "set (accepted p) = insert j (set (accepted (P i)))"
    by (simp_all add: p counting_def set_set_insert)
  have "proposal_ok ?s i p"
    using prp vote t lc(3) q unfolding proposal_ok_def core by simp
  moreover have "state (P i) \<noteq> RECOVERING" using leader_idle [OF lead] t by auto
  moreover have "settled ?s p" using leader_settled [OF lead] \<open>state (P i) \<noteq> RECOVERING\<close> unfolding settled_def core by simp
  ultimately have "leader_ok n ?s K i p" using lead unfolding leader_ok_def core by simp
  then have role': "role_ok n ?s K i p" using ri role q by (simp add: role_ok_def core)
  have s: "summ (P(i := p)) rg V A = ?s" by (rule summ_same) (simp_all add: core)
  have "ginv n (P(i := p)) ((a @ b) @ []) rg V K A"
  proof (rule ginv_move [OF ginv_drop [OF inv] i])
    show "base_ok n (summ (P(i := p)) rg V A) i p"
      unfolding s by (rule base_ok_same [OF _ _ _ _ _ _ _ _ base]) (simp_all add: p counting_def)
    show "role_ok n (summ (P(i := p)) rg V A) K i p" unfolding s by (rule role')
    have "asked i k ?acc (a @ b) + (if k \<in> insert j (set (accepted (P i))) then 1 else 0) \<le> 1" for k
      using asks [of k] here by (auto simp: net_Cons split: if_splits)
    moreover have "round_ok i (P i) (a @ b)" by (rule round_ok_remove [OF round])
    ultimately show "round_ok i p (a @ b)" using role t unfolding round_ok_def core by simp
  qed (simp_all add: core role)
  then show "ginv n (P(i := p)) (a @ b) rg V K A" by simp
qed

subsection \<open>Sequences of moves of one monitor\<close>

definition inv_at :: "nat \<Rightarrow> (nat, txn) vote set \<Rightarrow> (nat \<Rightarrow> paxos) \<Rightarrow> px_msg list \<Rightarrow> (nat \<rightharpoonup> nat \<times> nat list) \<Rightarrow> nat \<Rightarrow> paxos \<Rightarrow> bool" where
  "inv_at n V0 P net rg i p \<longleftrightarrow> i < n \<and> (\<exists>V K A. V0 \<subseteq> V \<and> ginv n (P(i := p)) net rg V K A)"

lemma inv_atI: "i < n \<Longrightarrow> ginv n (P(i := p)) net rg V K A \<Longrightarrow> V0 \<subseteq> V \<Longrightarrow> inv_at n V0 P net rg i p"
  unfolding inv_at_def by blast

lemma inv_at_refl: "i < n \<Longrightarrow> ginv n (P(i := p)) net rg V K A \<Longrightarrow> inv_at n V P net rg i p"
  unfolding inv_at_def by blast

lemma inv_atE:
  assumes "inv_at n V0 P net rg i p"
  obtains Q V K A where "i < n" "ginv n Q net rg V K A" "Q i = p" "\<And>p'. Q(i := p') = P(i := p')" "V0 \<subseteq> V"
  using assms unfolding inv_at_def by (metis fun_upd_same fun_upd_upd)

lemma inv_at_tweak:
  assumes inv: "inv_at n V0 P net rg i p" and same: "same_core p p'"
    and st: "px_role p = LEADER \<longrightarrow> state p = RECOVERING \<longleftrightarrow> state p' = RECOVERING" "queued p \<noteq> None \<longrightarrow> is_writing p'"
    and pend: "pending_proposal p' = pending_proposal p \<or> (\<forall>t. pending_proposal p' = Some t \<longrightarrow> services_only t)"
  shows "inv_at n V0 P net rg i p'"
proof -
  obtain Q V K A where Q: "i < n" "ginv n Q net rg V K A" "Q i = p" "\<And>p'. Q(i := p') = P(i := p')" "V0 \<subseteq> V"
    using inv_atE [OF inv] by blast
  have "ginv n (Q(i := p')) (net @ []) rg V K A"
    by (rule ginv_tweak [OF Q(2,1)]) (use assms Q(3) in simp_all)
  then show ?thesis using Q(1,4,5) by (intro inv_atI) auto
qed

lemma inv_at_queued:
  assumes "inv_at n V0 P net rg i p" and "queued p \<noteq> None"
  shows "px_role p = LEADER \<and> is_writing p"
proof -
  obtain Q V K A where Q: "i < n" "ginv n Q net rg V K A" "Q i = p" "\<And>p'. Q(i := p') = P(i := p')" "V0 \<subseteq> V"
    using inv_atE [OF assms(1)] by blast
  then have "role_ok n (summ Q rg V A) K i p" by (auto simp: ginv_def)
  then show ?thesis using assms(2) by (simp add: role_ok_def)
qed

lemma inv_at_restart:
  assumes "inv_at n V0 P net rg i p" and "queued p = None"
  shows "inv_at n V0 P net rg i (restart_idle p)"
proof -
  obtain Q V K A where Q: "i < n" "ginv n Q net rg V K A" "Q i = p" "\<And>p'. Q(i := p') = P(i := p')" "V0 \<subseteq> V"
    using inv_atE [OF assms(1)] by blast
  show ?thesis using ginv_restart [OF Q(2,1)] assms(2) Q by (intro inv_atI) auto
qed

lemma inv_at_refresh:
  assumes "inv_at n V0 P net rg i p" and "queued p = None" and "do_refresh c p = (fine, p')"
  shows "inv_at n V0 P net rg i p'" "fine \<Longrightarrow> p' = p" "\<not> fine \<Longrightarrow> p' = restart_idle p"
  using assms inv_at_restart [OF assms(1,2)] by (auto simp: do_refresh_def split: if_splits)

lemma inv_at_lease:
  assumes inv: "inv_at n V0 P net rg i p" and ext: "extend_lease c now p = Some (p', out)"
  shows "inv_at n V0 P (net @ out) rg i p'" "same_core p p'" "state p' = state p" "pending_proposal p' = pending_proposal p"
proof -
  obtain Q V K A where Q: "i < n" "ginv n Q net rg V K A" "Q i = p" "\<And>p'. Q(i := p') = P(i := p')" "V0 \<subseteq> V"
    using inv_atE [OF inv] by blast
  have L: "px_role p = LEADER" using ext by (cases "px_role p = LEADER") (simp_all add: extend_lease_def)
  have p': "p' = p\<lparr>lease_expire := now + mon_lease c, acked_lease := [px_rank p], lease_ack_timeout_event := True\<rparr>"
    and out: "out = map (\<lambda>q. (new_msg p' OP_LEASE q)\<lparr>pm_last_committed := last_committed p', pm_first_committed := first_committed p',
                         pm_lease := lease_expire p'\<rparr>) (other_quorum p')"
    using ext L by (auto simp: extend_lease_def Let_def)
  show same: "same_core p p'" "state p' = state p" "pending_proposal p' = pending_proposal p" by (simp_all add: p' same_core_def)
  have glob: "glob_ok n (summ Q rg V A) K" and lead: "leader_ok n (summ Q rg V A) K i p" and rank: "px_rank p = i"
    and role: "role_ok n (summ Q rg V A) K i p"
    using Q(1-3) L by (auto simp: ginv_def role_ok_def base_ok_def)
  have "msg_ok n (summ Q rg V A) m" if "m \<in> set out" for m
    using that rank by (intro to_quorum [OF glob lead Q(1) rank]) (auto simp: out new_msg_def p' other_quorum_def)
  moreover have "plain out" by (auto simp: out plain_def new_msg_def)
  moreover have "queued p \<noteq> None \<longrightarrow> is_writing p'" using role by (auto simp: role_ok_def is_writing_def same)
  ultimately have "ginv n (Q(i := p')) (net @ out) rg V K A"
    using Q same by (intro ginv_tweak [OF Q(2,1)]) simp_all
  then show "inv_at n V0 P (net @ out) rg i p'" using Q(1,4,5) by (intro inv_atI) auto
qed

subsection \<open>New rounds\<close>

definition may_add :: "paxos \<Rightarrow> txn \<Rightarrow> bool" where
  "may_add p u \<longleftrightarrow> services_only u \<or> (\<exists>t k. u = t @ map EraseVersion [first_committed p..<k] @ [PutFirstCommitted k] \<and>
     services_only t \<and> first_committed p < k \<and> k \<le> last_committed p)"

lemma canon_services: "services_only u \<Longrightarrow> canon v u = (if v = 1 then PutFirstCommitted 1 # u else u)"
  by (cases u) (auto simp: canon_def services_only_def)

lemma prefix_ok_new:
  assumes base: "base_ok n s i p" and u: "may_add p u"
  shows "prefix_ok n s (last_committed p + 1) (canon (last_committed p + 1) u)"
proof -
  obtain h where h: "length h = last_committed p" "good_log h" "store_log (px_store p) h"
    "\<forall>k<last_committed p. decided (quo n) (votes s) (k + 1) (h ! k)"
    using base by (auto simp: base_ok_def log_ok_def)
  have fc: "first_committed p = st_first_committed (replay h)" using base h(3) by (simp add: base_ok_def store_ok_def store_log_def)
  have "good_log (h @ [canon (last_committed p + 1) u])"
  proof (cases "h = []")
    case True
    then have "services_only u" using u h(1) by (auto simp: may_add_def)
    then show ?thesis using True h(1) good_log_first by (simp add: canon_services)
  next
    case False
    then have "canon (last_committed p + 1) u = u" using h(1) by (auto simp: canon_def)
    then show ?thesis
      using u good_log_services [OF h(2) _ False] good_log_trim [OF h(2) _ False] h(1) unfolding may_add_def fc by auto
  qed
  then show ?thesis using h(1,4) unfolding prefix_ok_def by auto
qed

lemma inv_at_begin:
  assumes inv: "inv_at n V0 P net rg i p" and n: "1 < n" and p: "px_role p = LEADER" "state p \<noteq> RECOVERING" "new_value p = None" "queued p = None"
    and same: "same_core p p'" "pending_proposal p' = None" and u: "may_add p u" and bg: "px_begin u p' = Some (p'', out)"
  shows "inv_at n V0 P (net @ out) rg i p''" "queued p'' = None" "state p'' = state p'"
proof -
  obtain Q V K A where Q: "i < n" "ginv n Q net rg V K A" "Q i = p" "\<And>p'. Q(i := p') = P(i := p')" "V0 \<subseteq> V"
    using inv_atE [OF inv] by blast
  let ?s = "summ Q rg V A"
  have glob: "glob_ok n ?s K" and base: "base_ok n ?s i p" and lead: "leader_ok n ?s K i p"
    using Q p(1) by (auto simp: ginv_def role_ok_def)
  have base': "base_ok n ?s i p'"
    by (rule base_ok_same [OF _ _ _ _ _ _ _ _ base]) (use same in \<open>simp_all add: same_core_def\<close>)
  have lc: "last_committed p' = last_committed p" "accepted_pn p' = accepted_pn p" "px_quorum p' = px_quorum p" using same(1) by (simp_all add: same_core_def)
  have "\<exists>V'. V \<subseteq> V' \<and> ginv n (Q(i := p'')) (net @ out) rg V' K A"
  proof (rule ginv_propose [OF Q(2,1) n base' _ _ _ _ _ _ _ _ _ _ _ _ _ bg])
    show "counted K (accepted_pn p') = set (px_quorum p') - {i}" using leader_counted [OF lead p(2)] by (simp add: lc)
    show "w \<le> last_committed p' + 1" if "j \<in> set (px_quorum p')" "(j, w, b, x) \<in> V" "b < accepted_pn p'" for j w b x
      using leader_settled [OF lead p(2)] that unfolding settled_def lc by fastforce
    show "may_propose (quo n) (accs ?s) V (last_committed p' + 1) (accepted_pn p') (canon (last_committed p' + 1) u)"
      using may_propose_new [OF glob lead _ p(2,3)] Q(3) by (simp add: lc)
    show "prefix_ok n ?s (last_committed p' + 1) (canon (last_committed p' + 1) u)" using prefix_ok_new [OF base u] by (simp add: lc)
  qed (use same p lead Q(3) in \<open>simp_all add: same_core_def\<close>)
  then show "inv_at n V0 P (net @ out) rg i p''" using Q(1,4,5) by (auto intro: inv_atI)
  have "length (px_quorum p') \<noteq> 1" using leader_okD(1) [OF glob lead] n by (auto simp: is_quorum_def lc)
  then show "queued p'' = None" "state p'' = state p'"
    using begin_eq(1) [OF bg] p(4) same(1) by (simp_all add: proposed_def same_core_def)
qed

lemma inv_at_propose_pending:
  assumes inv: "inv_at n V0 P net rg i p" and n: "1 < n" and p: "px_role p = LEADER" "state p \<noteq> RECOVERING" "new_value p = None" "queued p = None"
    and same: "same_core p p'" and u: "\<forall>u. pending_proposal p' = Some u \<longrightarrow> may_add p u" and pro: "propose_pending p' = Some (p'', out)"
  shows "inv_at n V0 P (net @ out) rg i p''" "queued p'' = None" "\<not> is_writing p''"
proof -
  obtain t where t: "pending_proposal p' = Some t" "px_begin t (p'\<lparr>lease_ack_timeout_event := False, pending_proposal := None,
      pending_finishers := committing_finishers p', committing_finishers := pending_finishers p', state := UPDATING\<rparr>) = Some (p'', out)"
    using pro by (cases "state p' = ACTIVE"; cases "pending_proposal p'") (simp_all add: propose_pending_def)
  have "same_core p (p'\<lparr>lease_ack_timeout_event := False, pending_proposal := None, pending_finishers := committing_finishers p',
      committing_finishers := pending_finishers p', state := UPDATING\<rparr>)"
    using same by (simp add: same_core_def)
  note start = inv_at_begin [OF inv n p this _ _ t(2)]
  show "inv_at n V0 P (net @ out) rg i p''" "queued p'' = None" using start(1,2) u t(1) by simp_all
  show "\<not> is_writing p''" using start(3) u t(1) by (simp add: is_writing_def)
qed

lemma pending_ok: "inv_at n V0 P net rg i p \<Longrightarrow> pending_proposal p = Some t \<Longrightarrow> services_only t"
  by (erule inv_atE) (auto simp: ginv_def base_ok_def)

lemma trim_adds:
  assumes "trim c p = Some p'" and "\<forall>t. pending_proposal p = Some t \<longrightarrow> services_only t"
  shows "same_core p p'" "state p' = state p" "pending_proposal p' = Some u \<Longrightarrow> may_add p u"
proof -
  define stop where "stop = min (last_committed p - paxos_min c) (first_committed p + paxos_trim_max c)"
  let ?new = "\<lambda>t. t @ map EraseVersion [first_committed p..<stop] @ [PutFirstCommitted stop]"
  consider "p' = p" | t where "first_committed p < stop" "services_only t"
      "p' = p\<lparr>pending_proposal := Some (?new t), trimming := True, pending_finishers := True\<rparr>"
  proof (cases "first_committed p < stop")
    case True
    then obtain r t where r: "get_pending_transaction p = Some r" "pending_proposal r = Some t"
      "p' = r\<lparr>pending_proposal := Some (t @ map EraseVersion [first_committed r..<stop] @ [PutFirstCommitted stop]), trimming := True, pending_finishers := True\<rparr>"
      using assms(1) unfolding trim_def stop_def Let_def by (auto simp: bind_eq_Some_conv ensure_def split: if_splits)
    have "services_only t" "r\<lparr>pending_proposal := x\<rparr> = p\<lparr>pending_proposal := x\<rparr>" "first_committed r = first_committed p" for x
      using r(1,2) assms(2) by (auto simp: get_pending_transaction_def services_only_def ensure_def split: if_splits)
    then show ?thesis using that(2) [OF True, of t] r(3) by simp
  next
    case False
    then show ?thesis using assms(1) that(1) unfolding trim_def stop_def Let_def by (auto simp: ensure_def split: if_splits)
  qed
  then have "same_core p p' \<and> state p' = state p \<and> (pending_proposal p' = Some u \<longrightarrow> may_add p u)"
  proof cases
    case 1
    then show ?thesis using assms(2) by (simp add: may_add_def)
  next
    case (2 t)
    have "stop \<le> last_committed p" by (simp add: stop_def)
    then have "may_add p (?new t)" using 2(1,2) unfolding may_add_def by blast
    then show ?thesis by (auto simp: 2(3) same_core_def)
  qed
  then show "same_core p p'" "state p' = state p" "pending_proposal p' = Some u \<Longrightarrow> may_add p u" by auto
qed

lemma inv_at_finish_round:
  assumes inv: "inv_at n V0 P net rg i p" and n: "1 < n" and p: "px_role p = LEADER" "state p \<noteq> RECOVERING" "new_value p = None" "queued p = None"
    and fin: "finish_round c p = Some (p', out)"
  shows "inv_at n V0 P (net @ out) rg i p' \<and> queued p' = None \<and> \<not> is_writing p'"
proof -
  let ?a = "p\<lparr>state := ACTIVE\<rparr>"
  have a: "inv_at n V0 P net rg i ?a" using inv p by (intro inv_at_tweak [OF inv]) (simp_all add: same_core_def)
  have services: "\<forall>t. pending_proposal ?a = Some t \<longrightarrow> services_only t" using pending_ok [OF a] by blast
  obtain r where r: "(if should_trim c ?a then trim c ?a else Some ?a) = Some r"
    and out: "(if state r = ACTIVE \<and> pending_proposal r \<noteq> None then propose_pending r else Some (r, [])) = Some (p', out)"
    using fin unfolding finish_round_def Let_def ensure_bind [OF p(1)] bind_eq_Some_conv by blast
  have ok: "same_core ?a r" "state r = ACTIVE" "pending_proposal r = Some u \<longrightarrow> may_add ?a u" for u
    using r trim_adds [OF _ services, of c r] services by (auto simp: may_add_def split: if_splits)
  show ?thesis
  proof (cases "pending_proposal r = None")
    case True
    then have "p' = r" "out = []" using out ok(2) by auto
    moreover have "inv_at n V0 P net rg i r" using ok p True by (intro inv_at_tweak [OF a]) simp_all
    ultimately show ?thesis using ok p by (simp add: same_core_def is_writing_def)
  next
    case False
    then have pro: "propose_pending r = Some (p', out)" using out ok(2) by simp
    have "px_role ?a = LEADER" "state ?a \<noteq> RECOVERING" "new_value ?a = None" "queued ?a = None" using p by simp_all
    note round = inv_at_propose_pending [OF a n this ok(1) _ pro]
    show ?thesis using round ok(3) by blast
  qed
qed

subsection \<open>Commits\<close>

definition commit_msgs :: "nat \<Rightarrow> txn \<Rightarrow> paxos \<Rightarrow> px_msg list" where
  "commit_msgs v t p = map (\<lambda>k. (new_msg p OP_COMMIT k)\<lparr>pm_values := [(v, t)], pm_pn := accepted_pn p, pm_last_committed := v\<rparr>) (other_quorum p)"

lemma commit_finish_eq:
  assumes q: "queued p = Some (v, t)" "v = last_committed p + 1" "new_value p = Some t" "is_writing p"
    and fin: "commit_finish c now (write_queued p) = Some (p', out)"
  shows "do {
     let (fine, p1) = do_refresh c (committed_node v t p);
     if \<not> fine then Some (p1, commit_msgs v t (committed_node v t p))
     else do {
       p1 \<leftarrow> commit_proposal p1;
       (p1, out1) \<leftarrow> (if length (px_quorum p1) > 1 then extend_lease c now p1 else Some (p1, []));
       (p1, out2) \<leftarrow> finish_round c p1;
       Some (p1, commit_msgs v t (committed_node v t p) @ out1 @ out2) } } = Some (p', out)"
proof -
  have "is_writing (write_queued p\<lparr>lease_expire := x, last_committed := y, first_committed := z, new_value := w\<rparr>)" for x y z w
    using q(4) by (simp add: write_queued_def is_writing_def q(1))
  moreover have "commits_started p > 0"
    using fin by (simp add: commit_finish_def Let_def write_queued_def q(1-3))
  ultimately show ?thesis
    using fin by (simp add: commit_finish_def Let_def write_queued_def q(1-3) commit_msgs_def committed_node_def new_msg_def other_quorum_def
          cong: if_cong prod.case_cong)
qed

lemma inv_at_commit:
  assumes inv: "inv_at n V0 P net rg i p" and n: "1 < n" and w: "is_writing p" and fin: "committed c now (write_queued p) = Some (p', out)"
  shows "inv_at n V0 P (net @ out) rg i p' \<and> queued p' = None \<and> \<not> is_writing p'"
proof -
  obtain Q V K A where Q: "i < n" "ginv n Q net rg V K A" "Q i = p" "\<And>p'. Q(i := p') = P(i := p')" "V0 \<subseteq> V"
    using inv_atE [OF inv] by blast
  have base: "base_ok n (summ Q rg V A) i p" and role: "role_ok n (summ Q rg V A) K i p" using Q(1-3) by (auto simp: ginv_def)
  have "state (write_queued p) = state p" by (simp add: write_queued_def split: option.splits)
  then have fin: "commit_finish c now (write_queued p) = Some (p', out)"
    using fin w by (auto simp: committed_def is_writing_def split: if_splits)
  show ?thesis
  proof (cases "queued p")
    case None
    then have "st_last_committed (px_store p) = last_committed p + 1" using fin by (simp add: commit_finish_def write_queued_def Let_def)
    then show ?thesis using base by (simp add: base_ok_def store_ok_def)
  next
    case (Some vt)
    then obtain v t where q: "queued p = Some (v, t)" by (cases vt) auto
    then have v: "v = last_committed p + 1" "new_value p = Some t" using role by (auto simp: role_ok_def leader_ok_def proposal_ok_def)
    let ?q = "committed_node v t p" and ?out = "commit_msgs v t (committed_node v t p)"
    have "queued (Q i) = Some (v, t)" "?q = committed_node v t (Q i)" using q Q(3) by simp_all
    note com = ginv_commit [OF Q(2,1) this(1) commit_msgs_def this(2)]
    then have inv1: "inv_at n V0 P (net @ ?out) rg i ?q" and L: "px_role ?q = LEADER" using Q(1,4,5) by (auto intro: inv_atI)
    have idle: "state ?q = REFRESH" "new_value ?q = None" "queued ?q = None" by (simp_all add: committed_node_def Let_def)
    obtain fine r where r: "do_refresh c ?q = (fine, r)" by (cases "do_refresh c ?q")
    note fresh = inv_at_refresh [OF inv1 idle(3) r]
    note steps = commit_finish_eq [OF q v w fin, unfolded Let_def r prod.case]
    show ?thesis
    proof (cases fine)
      case False
      then have "p' = restart_idle ?q" "out = ?out" using steps fresh(3) by auto
      then show ?thesis using inv_at_restart [OF inv1 idle(3)] by (simp add: restart_idle_def reset_pending_committing_finishers_def is_writing_def idle)
    next
      case True
      define cp where "cp = ?q\<lparr>trimming := (if committing_finishers ?q then False else trimming ?q), committing_finishers := False\<rparr>"
      have cp: "commit_proposal r = Some cp" using fresh(2) [OF True] L idle by (simp add: commit_proposal_def cp_def)
      obtain p1 out1 out2 where s: "(if length (px_quorum cp) > 1 then extend_lease c now cp else Some (cp, [])) = Some (p1, out1)"
        "finish_round c p1 = Some (p', out2)" "out = ?out @ out1 @ out2"
        using steps True cp by (auto simp: bind_eq_Some_conv split: prod.splits)
      have inv2: "inv_at n V0 P (net @ ?out) rg i cp"
        by (rule inv_at_tweak [OF inv1]) (simp_all add: cp_def same_core_def idle)
      have p1: "inv_at n V0 P ((net @ ?out) @ out1) rg i p1" "same_core cp p1" "state p1 = state cp"
        using s(1) inv_at_lease [OF inv2] inv2 by (auto split: if_splits)
      then have "px_role p1 = LEADER" "state p1 \<noteq> RECOVERING" "new_value p1 = None" "queued p1 = None"
        using L idle by (simp_all add: same_core_def cp_def)
      then show ?thesis using inv_at_finish_round [OF p1(1) n _ _ _ _ s(2)] s(3) by simp
    qed
  qed
qed

lemma inv_at_wait:
  assumes inv: "inv_at n V0 P net rg i p" and n: "1 < n" and wait: "wait_for_paxos_write c now p = Some (p', out)"
  shows "inv_at n V0 P (net @ out) rg i p' \<and> queued p' = None"
proof (cases "is_writing p")
  case False
  then have "p' = p" "out = []" using wait by (auto simp: wait_for_paxos_write.simps [of c now p])
  moreover have "queued p = None" using inv_at_queued [OF inv] False by blast
  ultimately show ?thesis using inv by simp
next
  case True
  then obtain p1 out1 p2 out2 where s: "committed c now (write_queued p) = Some (p1, out1)" "wait_for_paxos_write c now p1 = Some (p2, out2)"
    "p' = p2" "out = out1 @ out2"
    using wait by (subst (asm) wait_for_paxos_write.simps) (auto simp: bind_eq_Some_conv)
  note over = inv_at_commit [OF inv n True s(1)]
  then have "p2 = p1" "out2 = []" using s(2) by (auto simp: wait_for_paxos_write.simps [of c now p1])
  then show ?thesis using over s(3,4) by simp
qed

lemma inv_at_bootstrap:
  assumes "inv_at n V0 P net rg i p" and "1 < n" and "bootstrap c now p = Some (p', out)"
  shows "inv_at n V0 P (net @ out) rg i p'"
proof -
  obtain p1 where "wait_for_paxos_write c now p = Some (p1, out)" "p' = restart_idle p1"
    using assms(3) by (auto simp: bootstrap_def bind_eq_Some_conv split: prod.splits)
  then show ?thesis using inv_at_wait [OF assms(1,2)] inv_at_restart by blast
qed

end
