(* ===== verification/Paxos_Delivery.thy ===== *)
theory Paxos_Delivery
  imports Paxos_Handlers
begin

text \<open>
  Messages keep the invariant: what a monitor does with the oldest message another one has sent it.
\<close>

subsection \<open>Answers to a leader\<close>

text \<open>A leader that has all the answers it asked for only gets old ones.\<close>

lemma late_last:
  assumes inv: "ginv n P net rg V K A" and i: "i < n" and m: "m \<in> set net" "is_msg OP_LAST j i m" and role: "px_role (P i) = LEADER"
    and st: "state (P i) \<noteq> RECOVERING" and ep: "px_epoch (P i) = pm_epoch m"
  shows "pm_pn m < accepted_pn (P i)" "pm_last_committed m \<le> last_committed (P i)"
proof -
  let ?s = "summ P rg V A" and ?acc = "accepted_pn (P i)"
  have glob: "glob_ok n ?s K" and lead: "leader_ok n ?s K i (P i)" and mok: "msg_ok n ?s m" and ans: "answer_ok P net K A"
    using inv i m(1) role by (auto simp: ginv_def role_ok_def)
  have own: "owner ?acc = i" using lead by (simp add: leader_ok_def)
  have "j \<in> set (px_quorum (P i))" "j \<noteq> i"
    using mok m(2) lead ep by (auto simp: msg_ok_def is_msg_def leader_ok_def)
  then have K: "(j, ?acc) \<in> K" using leader_counted [OF lead st] by (auto simp: counted_def)
  then have A: "(j, ?acc) \<in> A" using glob by (auto simp: glob_ok_def)
  have "pm_pn m \<noteq> ?acc" using not_counted [OF ans m(1), of j ?acc] m(2) own K by auto
  moreover have "\<not> ?acc < pm_pn m" using ans m role ep A by (auto simp: answer_ok_def later_ok_def is_msg_def)
  ultimately show less: "pm_pn m < ?acc" by simp
  then show "pm_last_committed m \<le> last_committed (P i)"
    using ans m K own unfolding answer_ok_def stale_ok_def is_msg_def by metis
qed

lemma store_state_old: "smap_wf (pm_values m) \<Longrightarrow> pm_last_committed m \<le> last_committed p \<Longrightarrow> store_state m p = Some (False, p)"
  by (auto simp: store_state_cases next_versions_def filter_empty_conv)

text \<open>A leader that takes an answer has at least what the other one has committed, unless there is a gap.\<close>

lemma learns_all:
  assumes inv: "ginv n P net rg V K A" and i: "i < n" and m: "m \<in> set net" "is_msg OP_LAST j i m"
    and gap: "\<not> last_committed (P i) + 1 < pm_first_committed m" and st: "store_state m (P i) = Some (ch, p)"
  shows "pm_last_committed m \<le> last_committed p"
proof -
  let ?s = "summ P rg V A"
  have glob: "glob_ok n ?s K" and base: "base_ok n ?s i (P i)" and "msg_ok n ?s m" using inv i m(1) by (auto simp: ginv_def)
  then have last: "last_ok n ?s m" using m(2) by (auto simp: msg_ok_def is_msg_def)
  then have vals: "values_ok n ?s m" by (simp add: last_ok_def)
  have "last_committed (P i) + 1 \<in> dom (map_of (pm_values m))" if "last_committed (P i) < pm_last_committed m"
    using last that gap m(2) unfolding last_ok_def is_msg_def by auto
  then show ?thesis using store_state_learns [OF glob base vals st] by (auto simp: learned_def not_le)
qed

lemma update_peers_msgs:
  "update_peers p ps = Some (fine, out) \<Longrightarrow> m \<in> set out \<Longrightarrow> \<exists>q lc. share_state (new_msg p OP_COMMIT q) lc p = Some m"
  by (induction p ps arbitrary: fine out rule: update_peers.induct) (fastforce simp: bind_eq_Some_conv split: if_splits)+

lemma ginv_update_peers:
  assumes inv: "ginv n P net rg V K A" and i: "i < n" and role: "px_role (P i) = LEADER" and up: "update_peers (P i) ps = Some (fine, out)"
  shows "ginv n P (net @ out) rg V K A"
proof -
  let ?s = "summ P rg V A"
  have glob: "glob_ok n ?s K" and base: "base_ok n ?s i (P i)" and rk: "role_ok n ?s K i (P i)" and lead: "leader_ok n ?s K i (P i)"
    using inv i role by (auto simp: ginv_def role_ok_def)
  have m: "pm_op m = OP_COMMIT" "msg_ok n ?s m" if mem: "m \<in> set out" for m
  proof -
    obtain q lc where sh: "share_state (new_msg (P i) OP_COMMIT q) lc (P i) = Some m" using update_peers_msgs [OF up mem] by blast
    have eq: "m = (new_msg (P i) OP_COMMIT q)\<lparr>pm_values := shared lc (P i), pm_last_committed := last_committed (P i)\<rparr>"
      using share_state_eq(1) [OF _ _ sh] base by (simp add: base_ok_def store_ok_def new_msg_def)
    show op: "pm_op m = OP_COMMIT" by (simp add: eq new_msg_def)
    have "values_ok n ?s m" by (rule values_ok_shared [OF base, where k = lc]) (simp_all add: eq)
    moreover have "pm_from m = i" "pm_epoch m = px_epoch (P i)" using base by (simp_all add: eq new_msg_def base_ok_def)
    ultimately show "msg_ok n ?s m" using leader_okD(3) [OF glob lead] lead op by (simp add: msg_ok_def leader_ok_def)
  qed
  have "ginv n (P(i := P i)) (net @ out) rg V K A"
    using m rk by (intro ginv_tweak [OF inv i]) (auto simp: plain_def role_ok_def)
  then show ?thesis by simp
qed

lemma all_counted:
  assumes glob: "glob_ok n s K" and lead: "leader_ok n s K i p" and num: "num_last p = length (px_quorum p)"
  shows "counted K (accepted_pn p) = set (px_quorum p) - {i}"
proof (rule card_seteq)
  note q = leader_okD [OF glob lead]
  have "card (set (px_quorum p)) = length (px_quorum p)" using q(1) by (intro distinct_card) (simp add: is_quorum_def strict_sorted_iff)
  then have "card (set (px_quorum p) - {i}) = length (px_quorum p) - 1" using q(3) by (simp add: card_Diff_singleton)
  moreover have "num_last p = 1 + card (counted K (accepted_pn p))" using lead by (simp add: leader_ok_def)
  ultimately show "card (set (px_quorum p) - {i}) \<le> card (counted K (accepted_pn p))" using num by simp
  show "counted K (accepted_pn p) \<subseteq> set (px_quorum p) - {i}" using lead unfolding leader_ok_def by blast
qed simp

lemma inv_at_again:
  assumes inv: "inv_at n V0 P net rg i p" and n: "1 < n" and p: "px_role p = LEADER" "state p = RECOVERING" "queued p = None" "num_last p = length (px_quorum p)"
    and un: "uncommitted_v p = last_committed p + 1" "uncommitted_value p = Some u"
    and bg: "px_begin u (p\<lparr>state := UPDATING_PREVIOUS\<rparr>) = Some (p', out)"
  shows "inv_at n V0 P (net @ out) rg i p'" "queued p' = None"
proof -
  obtain Q V K A where Q: "i < n" "ginv n Q net rg V K A" "Q i = p" "\<And>p'. Q(i := p') = P(i := p')" "V0 \<subseteq> V"
    using inv_atE [OF inv] by blast
  let ?s = "summ Q rg V A" and ?p = "p\<lparr>state := UPDATING_PREVIOUS\<rparr>"
  have base: "base_ok n ?s i p" and lead: "leader_ok n ?s K i p" and glob: "glob_ok n ?s K"
    using Q(1-3) p(1) by (auto simp: ginv_def role_ok_def)
  have base': "base_ok n ?s i ?p" by (rule base_ok_same [OF _ _ _ _ _ _ _ _ base]) simp_all
  have cnt: "counted K (accepted_pn p) = set (px_quorum p) - {i}" by (rule all_counted [OF glob lead p(4)])
  have acc: "accs ?s i = accepted_pn p" using Q(3) by simp
  note may = may_propose_old [OF glob lead acc p(2) cnt un]
  have none: "new_value p = None" by (rule leader_idle [OF lead p(2)])
  have knows: "knows ?s K i p" by (rule leader_knows [OF lead p(2)])
  have "\<exists>V'. V \<subseteq> V' \<and> ginv n (Q(i := p')) (net @ out) rg V' K A"
  proof (rule ginv_propose [OF Q(2,1) n base' _ _ _ _ _ _ _ _ _ _ _ _ _ bg])
    show "w \<le> last_committed ?p + 1" if "j \<in> set (px_quorum ?p)" "(j, w, b, x) \<in> V" "b < accepted_pn ?p" for j w b x
    proof -
      have "j = i \<or> (j, accepted_pn p) \<in> K" using cnt that(1) by (auto simp: counted_def)
      then show ?thesis using knows that(2,3) unfolding knows_def by fastforce
    qed
  qed (use p none cnt may Q(3) in simp_all)
  then show "inv_at n V0 P (net @ out) rg i p'" using Q(1,4,5) by (auto intro: inv_atI)
  have "length (px_quorum p) \<noteq> 1" using leader_okD(1) [OF glob lead] n by (auto simp: is_quorum_def)
  then show "queued p' = None" using begin_eq(1) [OF bg] p(3) by (simp add: proposed_def)
qed

text \<open>The leader has all the answers: it proposes the value it has learned, or it is active.\<close>

lemma inv_at_active:
  assumes inv: "inv_at n V0 P net rg i p" and p: "px_role p = LEADER" "state p = RECOVERING" "queued p = None" "num_last p = length (px_quorum p)"
    and un: "uncommitted_v p \<noteq> last_committed p + 1 \<or> uncommitted_value p = None"
  shows "inv_at n V0 P net rg i (p\<lparr>state := ACTIVE\<rparr>)"
proof -
  obtain Q V K A where Q: "i < n" "ginv n Q net rg V K A" "Q i = p" "\<And>p'. Q(i := p') = P(i := p')" "V0 \<subseteq> V"
    using inv_atE [OF inv] by blast
  let ?s = "summ Q rg V A" and ?p = "p\<lparr>state := ACTIVE\<rparr>"
  have base: "base_ok n ?s i p" and role: "role_ok n ?s K i p" and round: "round_ok i p net" and glob: "glob_ok n ?s K"
    using Q(1-3) by (auto simp: ginv_def)
  then have lead: "leader_ok n ?s K i p" using p(1) by (simp add: role_ok_def)
  have cnt: "counted K (accepted_pn p) = set (px_quorum p) - {i}" by (rule all_counted [OF glob lead p(4)])
  have "settled ?s ?p" by (rule knows_settled [OF lead p(2) cnt un]) simp_all
  moreover have "proposal_ok ?s i ?p" using leader_proposal [OF lead] by (simp add: proposal_ok_def split: option.splits)
  ultimately have "leader_ok n ?s K i ?p" using lead cnt unfolding leader_ok_def by simp
  then have role': "role_ok n ?s K i ?p" using p by (simp add: role_ok_def)
  have s: "summ (Q(i := ?p)) rg V A = ?s" by (rule summ_same) (simp_all add: Q(3))
  have "ginv n (Q(i := ?p)) (net @ []) rg V K A"
  proof (rule ginv_move [OF Q(2,1)])
    show "base_ok n (summ (Q(i := ?p)) rg V A) i ?p"
      unfolding s by (rule base_ok_same [OF _ _ _ _ _ _ _ _ base]) simp_all
    show "role_ok n (summ (Q(i := ?p)) rg V A) K i ?p" unfolding s by (rule role')
    show "round_ok i ?p net" using round by (subst round_ok_same [of _ p]) simp_all
  qed (simp_all add: Q(3))
  then show ?thesis using Q(1,4,5) by (intro inv_atI) auto
qed

lemma finish_round_active: "finish_round c p = finish_round c (p\<lparr>state := ACTIVE\<rparr>)"
  by (simp add: finish_round_def)

lemma inv_at_lease_round:
  assumes inv: "inv_at n V0 P net rg i p" and n: "1 < n" and p: "px_role p = LEADER" "state p = RECOVERING" "queued p = None" "new_value p = None"
    "num_last p = length (px_quorum p)"
    and un: "uncommitted_v p \<noteq> last_committed p + 1 \<or> uncommitted_value p = None"
    and steps: "do { (p, out) \<leftarrow> extend_lease c now p;
             let (fine, p) = do_refresh c p;
             if \<not> fine then Some (False, p, out)
             else do { (p, out2) \<leftarrow> finish_round c p; Some (False, p, out @ out2) } } = Some (nr, p', out)"
  shows "inv_at n V0 P (net @ out) rg i p' \<and> \<not> nr"
proof -
  obtain p1 out1 where ext: "extend_lease c now p = Some (p1, out1)"
    using steps by (cases "extend_lease c now p") auto
  note p1 = inv_at_lease [OF inv ext]
  obtain fine r where r: "do_refresh c p1 = (fine, r)" by (cases "do_refresh c p1")
  have q1: "queued p1 = None" using p1(2) p(3) by (simp add: same_core_def)
  note ref = inv_at_refresh [OF p1(1) q1 r]
  show ?thesis
  proof (cases fine)
    case False
    then show ?thesis using steps ref(1) by (simp add: ext r)
  next
    case True
    then obtain out2 where out2: "finish_round c p1 = Some (p', out2)" "out = out1 @ out2" "\<not> nr"
      using steps ref(2) by (auto simp: ext r bind_eq_Some_conv)
    let ?a = "p1\<lparr>state := ACTIVE\<rparr>"
    have a: "inv_at n V0 P (net @ out1) rg i ?a" using p1(2,3) p un by (intro inv_at_active [OF p1(1)]) (simp_all add: same_core_def)
    have "px_role ?a = LEADER" "state ?a \<noteq> RECOVERING" "new_value ?a = None" "queued ?a = None"
      using p1(2) p by (simp_all add: same_core_def)
    note fin = inv_at_finish_round [OF a n this out2(1) [unfolded finish_round_active [of c p1]]]
    then show ?thesis using out2(2,3) by simp
  qed
qed

lemma inv_at_peer:
  assumes inv: "inv_at n V0 P net rg i (learn_uncommitted m (p\<lparr>num_last := num_last p + 1\<rparr>))" and n: "1 < n"
    and p: "px_role p = LEADER" "state p = RECOVERING" "queued p = None" "new_value p = None"
    and peer: "peer_accepted c now nr m p = Some (nr', p', out)"
  shows "inv_at n V0 P (net @ out) rg i p' \<and> (nr' \<longrightarrow> queued p' = None)"
proof -
  define q where "q = learn_uncommitted m (p\<lparr>num_last := num_last p + 1\<rparr>)"
  define r where "r = q\<lparr>peer_first_committed := [], peer_last_committed := []\<rparr>"
  have q: "px_role q = LEADER" "state q = RECOVERING" "queued q = None" "new_value q = None" using p by (simp_all add: q_def)
  have inv: "inv_at n V0 P net rg i q" using inv by (simp add: q_def)
  have invr: "inv_at n V0 P net rg i r" by (rule inv_at_tweak [OF inv]) (simp_all add: r_def same_core_def q)
  show ?thesis
  proof (cases "num_last q = length (px_quorum q)")
    case False
    then have "p' = q" "out = []" using peer by (auto simp: peer_accepted_def q_def Let_def)
    then show ?thesis using inv q by simp
  next
    case True
    have r: "px_role r = LEADER" "state r = RECOVERING" "queued r = None" "new_value r = None" "num_last r = length (px_quorum r)"
      using q True by (simp_all add: r_def)
    note peer = peer [unfolded peer_accepted_def, folded q_def, unfolded Let_def, folded q_def, folded r_def]
    show ?thesis
    proof (cases "\<exists>u. uncommitted_value r = Some u \<and> uncommitted_v r = last_committed r + 1")
      case un: True
      then obtain u where u: "uncommitted_value r = Some u" "uncommitted_v r = last_committed r + 1" by blast
      then have "px_begin u (r\<lparr>state := UPDATING_PREVIOUS\<rparr>) = Some (p', out)"
        using peer True by (auto simp: bind_eq_Some_conv split: prod.splits)
      then show ?thesis using inv_at_again [OF invr n r(1,2,3,5) u(2,1)] by blast
    next
      case un: False
      then have un': "uncommitted_v r \<noteq> last_committed r + 1 \<or> uncommitted_value r = None" by (cases "uncommitted_value r") auto
      have "do { (p, out) \<leftarrow> extend_lease c now r;
             let (fine, p) = do_refresh c p;
             if \<not> fine then Some (False, p, out)
             else do { (p, out2) \<leftarrow> finish_round c p; Some (False, p, out @ out2) } } = Some (nr', p', out)"
        using peer True un by (cases "uncommitted_value r") (auto simp: Let_def)
      then show ?thesis using inv_at_lease_round [OF invr n r un'] by blast
    qed
  qed
qed

lemma new_number_queued: "get_new_proposal_number gt p = (pn, r) \<Longrightarrow> queued r = queued p"
  by (auto simp: get_new_proposal_number_def Let_def)

lemma collect_queued: "collect x p = Some (p', out) \<Longrightarrow> queued p' = queued p"
  by (erule collect_steps) (simp add: new_number_queued)

text \<open>The number of the answer: a higher one makes the leader try again, its own one counts, a lower one is old.\<close>

lemma inv_at_last_number:
  assumes inv: "ginv n P (a @ m # b) rg V K A" and i: "i < n" and n: "1 < n" "n \<le> 100" and m: "is_msg OP_LAST j i m"
    and role: "px_role (P i) = LEADER" and ep: "px_epoch (P i) = pm_epoch m" and lc: "pm_last_committed m \<le> last_committed (P i)"
    and st: "state (P i) \<noteq> RECOVERING \<Longrightarrow> \<not> ch \<and> pm_pn m < accepted_pn (P i)"
    and step: "(if pm_pn m > accepted_pn (P i) then do { (p, out2) \<leftarrow> collect (pm_pn m) (P i); Some (ch, p, out2) }
       else if pm_pn m = accepted_pn (P i) then peer_accepted c now ch m (P i)
       else Some (ch, P i, [])) = Some (nr, p2, out2)"
  shows "inv_at n V P ((a @ b) @ out2) rg i p2 \<and> (nr \<longrightarrow> queued p2 = None)"
proof -
  have dropped: "inv_at n V P (a @ b) rg i (P i)" using ginv_drop [OF inv] i by (intro inv_at_refl) simp_all
  have glob: "glob_ok n (summ P rg V A) K" and base: "base_ok n (summ P rg V A) i (P i)" and lead: "leader_ok n (summ P rg V A) K i (P i)"
    using inv i role by (auto simp: ginv_def role_ok_def)
  have rgq: "\<forall>e l q. rg e = Some (l, q) \<longrightarrow> is_quorum n q \<and> l \<in> set q" using glob unfolding glob_ok_def summ_simps by blast
  have ours: "rg (px_epoch (P i)) = Some (i, px_quorum (P i))" using lead by (simp add: leader_ok_def)
  have q: "queued (P i) = None \<and> new_value (P i) = None" if "state (P i) = RECOVERING"
    using leader_idle [OF lead that] leader_proposal [OF lead] by (cases "queued (P i)") (auto simp: proposal_ok_def)
  consider (more) "accepted_pn (P i) < pm_pn m" | (same) "pm_pn m = accepted_pn (P i)" | (less) "pm_pn m < accepted_pn (P i)" by linarith
  then show ?thesis
  proof cases
    case more
    then have rec: "state (P i) = RECOVERING" using st by fastforce
    have col: "collect (pm_pn m) (P i) = Some (p2, out2)" using step more by (auto simp: bind_eq_Some_conv split: prod.splits)
    have "ginv n (P(i := p2)) ((a @ m # b) @ out2) rg V K A"
      using q [OF rec] by (intro ginv_collect [OF inv i n(2) map_le_refl rgq base role ours _ _ _ _ _ col]) simp_all
    then have "ginv n (P(i := p2)) (a @ b @ out2) rg V K A" using ginv_drop by fastforce
    moreover have "queued p2 = None" using collect_queued [OF col] q [OF rec] by simp
    ultimately show ?thesis using i by (auto intro: inv_atI)
  next
    case same
    then have rec: "state (P i) = RECOVERING" using st by fastforce
    have "ginv n (P(i := learn_uncommitted m ((P i)\<lparr>num_last := num_last (P i) + 1\<rparr>))) (a @ b) rg V (insert (j, accepted_pn (P i)) K) A"
      by (rule ginv_count [OF inv i m same role rec ep lc refl])
    then have "inv_at n V P (a @ b) rg i (learn_uncommitted m ((P i)\<lparr>num_last := num_last (P i) + 1\<rparr>))"
      using i by (intro inv_at_refl) simp_all
    moreover have "peer_accepted c now ch m (P i) = Some (nr, p2, out2)" using step same by simp
    ultimately show ?thesis using inv_at_peer [OF _ n(1) role rec] q [OF rec] by blast
  next
    case less
    then show ?thesis using step dropped st q by auto
  qed
qed

lemma inv_at_last_rest:
  assumes inv: "ginv n P (a @ m # b) rg V K A" and i: "i < n" and n: "1 < n" "n \<le> 100" and m: "is_msg OP_LAST j i m"
    and role: "px_role (P i) = LEADER" and ep: "px_epoch (P i) = pm_epoch m" and lc: "pm_last_committed m \<le> last_committed (P i)"
    and st: "state (P i) \<noteq> RECOVERING \<Longrightarrow> \<not> ch \<and> pm_pn m < accepted_pn (P i)"
    and up: "update_peers (P i) ps = Some (fine, out1)"
    and rest: "(if \<not> fine then do { (p, out2) \<leftarrow> bootstrap c now (P i); Some (p, out1 @ out2) }
          else do {
            (need_refresh, p, out2) \<leftarrow>
              (if pm_pn m > accepted_pn (P i) then do { (p, out2) \<leftarrow> collect (pm_pn m) (P i); Some (ch, p, out2) }
               else if pm_pn m = accepted_pn (P i) then peer_accepted c now ch m (P i)
               else Some (ch, P i, []));
            Some (if need_refresh then snd (do_refresh c p) else p, out1 @ out2) }) = Some (p', out)"
  shows "inv_at n V P ((a @ b) @ out) rg i p'"
proof -
  have inv1: "ginv n P (a @ m # (b @ out1)) rg V K A" using ginv_update_peers [OF inv i role up] by simp
  have dropped: "inv_at n V P ((a @ b) @ out1) rg i (P i)" using ginv_drop [OF inv1] i by (intro inv_at_refl) simp_all
  show ?thesis
  proof (cases fine)
    case False
    then obtain out2 where "bootstrap c now (P i) = Some (p', out2)" "out = out1 @ out2"
      using rest by (auto simp: bind_eq_Some_conv split: prod.splits)
    then show ?thesis using inv_at_bootstrap [OF dropped n(1)] by simp
  next
    case True
    then obtain nr p2 out2 where step: "(if pm_pn m > accepted_pn (P i) then do { (p, out2) \<leftarrow> collect (pm_pn m) (P i); Some (ch, p, out2) }
               else if pm_pn m = accepted_pn (P i) then peer_accepted c now ch m (P i)
               else Some (ch, P i, [])) = Some (nr, p2, out2)"
      and p': "p' = (if nr then snd (do_refresh c p2) else p2)" and out: "out = out1 @ out2"
      using rest by (auto simp: bind_eq_Some_conv split: prod.splits)
    have p2: "inv_at n V P (((a @ b) @ out1) @ out2) rg i p2 \<and> (nr \<longrightarrow> queued p2 = None)"
      using inv_at_last_number [OF inv1 i n m role ep lc st step] by simp
    show ?thesis
    proof (cases nr)
      case True
      obtain f r where r: "do_refresh c p2 = (f, r)" by (cases "do_refresh c p2")
      show ?thesis using inv_at_refresh(1) [OF _ _ r] p2 True by (simp add: p' out r)
    next
      case False
      then show ?thesis using p2 by (simp add: p' out)
    qed
  qed
qed

lemma inv_at_handle_last:
  assumes inv: "ginv n P (a @ m # b) rg V K A" and i: "i < n" and n: "1 < n" "n \<le> 100" and m: "is_msg OP_LAST j i m"
    and role: "px_role (P i) = LEADER" and ep: "px_epoch (P i) = pm_epoch m"
    and hl: "handle_last c now m (P i) = Some (p', out)"
  shows "inv_at n V P ((a @ b) @ out) rg i p'"
proof -
  let ?net = "a @ m # b"
  define p where "p = (P i)\<lparr>peer_first_committed := smap_put (pm_from m) (pm_first_committed m) (peer_first_committed (P i)),
                  peer_last_committed := smap_put (pm_from m) (pm_last_committed m) (peer_last_committed (P i))\<rparr>"
  define Q where "Q = P(i := p)"
  have Qi: "Q i = p" "\<And>x. Q(i := x) = P(i := x)" by (simp_all add: Q_def)
  have rk: "role_ok n (summ P rg V A) K i (P i)" using inv i by (simp add: ginv_def)
  have "ginv n Q (?net @ []) rg V K A"
    unfolding Q_def using rk by (intro ginv_tweak [OF inv i]) (auto simp: p_def same_core_def role_ok_def is_writing_def)
  then have invQ: "ginv n Q ?net rg V K A" by simp
  have in_net: "m \<in> set ?net" by simp
  have pr: "px_role p = LEADER" "px_epoch p = pm_epoch m" using role ep by (simp_all add: p_def)
  have vals: "values_ok n (summ Q rg V A) m"
  proof -
    have "msg_ok n (summ Q rg V A) m" using invQ by (auto simp: ginv_def)
    then show ?thesis using m by (auto simp: msg_ok_def is_msg_def last_ok_def)
  qed
  note hl = hl [unfolded handle_last_def, folded p_def]
  show ?thesis
  proof (cases "last_committed p + 1 < pm_first_committed m")
    case True
    then have "bootstrap c now p = Some (p', out)" using hl role by (simp add: p_def Let_def)
    moreover have "inv_at n V P (a @ b) rg i p" using ginv_drop [OF invQ] i by (intro inv_at_refl) (simp_all add: Q_def)
    ultimately show ?thesis using inv_at_bootstrap [OF _ n(1)] by blast
  next
    case gap: False
    then obtain ch p1 fine out1 where st: "store_state m p = Some (ch, p1)" and up: "update_peers p1 (peer_last_committed p1) = Some (fine, out1)"
      and rest: "(if \<not> fine then do { (p, out2) \<leftarrow> bootstrap c now p1; Some (p, out1 @ out2) }
          else do {
            (need_refresh, p, out2) \<leftarrow>
              (if pm_pn m > accepted_pn p1 then do { (p, out2) \<leftarrow> collect (pm_pn m) p1; Some (ch, p, out2) }
               else if pm_pn m = accepted_pn p1 then peer_accepted c now ch m p1
               else Some (ch, p1, []));
            Some (if need_refresh then snd (do_refresh c p) else p, out1 @ out2) }) = Some (p', out)"
      using hl role by (auto simp: p_def [symmetric] Let_def bind_eq_Some_conv split: prod.splits)
    define R where "R = P(i := p1)"
    have old: "pm_pn m < accepted_pn p \<and> pm_last_committed m \<le> last_committed p" if "state p \<noteq> RECOVERING"
      using late_last [OF invQ i in_net m] that pr by (simp add: Qi)
    have invR: "ginv n R ?net rg V K A"
      using ginv_learn [OF invQ i vals, of ch p1] st old by (auto simp: Qi R_def)
    have lc: "pm_last_committed m \<le> last_committed p1" using learns_all [OF invQ i in_net m] gap st by (simp add: Qi)
    have same: "px_role p1 = px_role p" "px_epoch p1 = px_epoch p" "accepted_pn p1 = accepted_pn p" "state p1 = state p"
      using st vals by (auto simp: store_state_cases values_ok_def learned_def split: if_splits)
    have "\<not> ch \<and> pm_pn m < accepted_pn p1" if "state p1 \<noteq> RECOVERING"
      using store_state_old [of m p] old st vals that same by (auto simp: values_ok_def)
    moreover have "px_role p1 = LEADER" "px_epoch p1 = pm_epoch m" using pr same by simp_all
    moreover have Ri: "R i = p1" by (simp add: R_def)
    ultimately have "inv_at n V R ((a @ b) @ out) rg i p'"
      using inv_at_last_rest [OF invR i n m, unfolded Ri, OF _ _ lc _ up rest] by blast
    then show ?thesis by (simp add: inv_at_def R_def)
  qed
qed

subsection \<open>Votes\<close>

lemma ginv_queue:
  assumes inv: "ginv n P net rg V K A" and i: "i < n" and p: "px_role (P i) = LEADER" "state (P i) \<noteq> RECOVERING" "new_value (P i) = Some t"
    "accepted (P i) = px_quorum (P i)" and st: "st = WRITING \<or> st = WRITING_PREVIOUS"
  shows "ginv n (P(i := (P i)\<lparr>queued := Some (last_committed (P i) + 1, t), state := st, commits_started := k\<rparr>)) net rg V K A"
proof -
  let ?p = "(P i)\<lparr>queued := Some (last_committed (P i) + 1, t), state := st, commits_started := k\<rparr>" and ?s = "summ P rg V A"
  have base: "base_ok n ?s i (P i)" and lead: "leader_ok n ?s K i (P i)" and round: "round_ok i (P i) net"
    using inv i p(1) by (auto simp: ginv_def role_ok_def)
  have "proposal_ok ?s i ?p" using leader_proposal [OF lead] p unfolding proposal_ok_def by simp
  moreover have "settled ?s ?p" using leader_settled [OF lead p(2)] unfolding settled_def by simp
  moreover have "st \<noteq> RECOVERING" using st by auto
  ultimately have "leader_ok n ?s K i ?p" using lead p(2) unfolding leader_ok_def by simp
  then have role': "role_ok n ?s K i ?p" using p(1) st by (auto simp: role_ok_def is_writing_def)
  have s: "summ (P(i := ?p)) rg V A = ?s" by (rule summ_same) simp_all
  have "ginv n (P(i := ?p)) (net @ []) rg V K A"
  proof (rule ginv_move [OF inv i])
    show "base_ok n (summ (P(i := ?p)) rg V A) i ?p"
      unfolding s by (rule base_ok_same [OF _ _ _ _ _ _ _ _ base]) simp_all
    show "role_ok n (summ (P(i := ?p)) rg V A) K i ?p" unfolding s by (rule role')
    show "round_ok i ?p net" using round by (subst round_ok_same [of _ "P i"]) simp_all
  qed (simp_all add: p(1))
  then show ?thesis by simp
qed

lemma commit_start_eq:
  assumes "commit_start p = Some p'" and "new_value p = Some t"
  obtains st where "st = WRITING \<or> st = WRITING_PREVIOUS" "p' = p\<lparr>queued := Some (last_committed p + 1, t), state := st, commits_started := commits_started p + 1\<rparr>"
  using assms unfolding commit_start_def by (auto simp: Let_def split: if_splits)

lemma inv_at_handle_accept:
  assumes inv: "ginv n P (a @ m # b) rg V K A" and i: "i < n" and m: "is_msg OP_ACCEPT j i m" and role: "px_role (P i) = LEADER"
    and ep: "px_epoch (P i) = pm_epoch m" and ha: "handle_accept m (P i) = Some (p', out)"
  shows "inv_at n V P ((a @ b) @ out) rg i p'"
proof (cases "pm_pn m \<noteq> accepted_pn (P i) \<or> last_committed (P i) > 0 \<and> pm_last_committed m < last_committed (P i) - 1")
  case True
  then have "p' = P i" "out = []" using ha by (auto simp: handle_accept_def split: if_splits)
  then show ?thesis using ginv_drop [OF inv] i by (intro inv_atI) auto
next
  case False
  let ?q = "counting j (P i)"
  have from_j: "pm_from m = j" using m by (simp add: is_msg_def)
  have up: "is_updating (P i)" and out: "out = []"
    and step: "(if accepted ?q = px_quorum (P i) then commit_start ?q else Some ?q) = Some p'"
    using ha False by (auto simp: handle_accept_def Let_def from_j counting_def bind_eq_Some_conv ensure_def split: if_splits)
  have "role_ok n (summ P rg V A) K i (P i)" using inv i by (simp add: ginv_def)
  then have q: "queued (P i) = None" using up by (cases "queued (P i)") (auto simp: role_ok_def is_writing_def is_updating_def)
  have pn: "pm_pn m = accepted_pn (P i)" using False by blast
  note acc = ginv_accept [OF inv i m role ep pn q refl]
  obtain t where t: "new_value (P i) = Some t" using acc(3) by blast
  show ?thesis
  proof (cases "accepted ?q = px_quorum (P i)")
    case True
    then have cs: "commit_start ?q = Some p'" using step by simp
    have nv: "new_value ?q = Some t" by (simp add: counting_def t)
    obtain st where st: "st = WRITING \<or> st = WRITING_PREVIOUS"
      "p' = ?q\<lparr>queued := Some (last_committed ?q + 1, t), state := st, commits_started := commits_started ?q + 1\<rparr>"
      by (rule commit_start_eq [OF cs nv])
    have "ginv n ((P(i := ?q))(i := p')) (a @ b) rg V K A"
      using ginv_queue [OF acc(1) i, of t st] True role up t st
      by (auto simp: counting_def is_updating_def)
    then show ?thesis using i out by (intro inv_at_refl) simp_all
  next
    case False
    then show ?thesis using acc(1) step out i by (intro inv_atI) auto
  qed
qed

lemma inv_at_handle_begin:
  assumes inv: "ginv n P (a @ m # b) rg V K A" and j: "j < n" and m: "is_msg OP_BEGIN i j m" and role: "px_role (P j) = PEON"
    and ep: "px_epoch (P j) = pm_epoch m" and hb: "handle_begin m (P j) = Some (p', out)"
  shows "inv_at n V P ((a @ b) @ out) rg j p'"
proof (cases "pm_pn m < accepted_pn (P j)")
  case True
  then have "p' = P j" "out = []" using hb by (auto simp: handle_begin_def)
  then show ?thesis using ginv_drop [OF inv] j by (intro inv_atI) auto
next
  case False
  then obtain t where t: "pm_pn m = accepted_pn (P j)" "pm_last_committed m = last_committed (P j)"
    "map_of (pm_values m) (last_committed (P j) + 1) = Some t" "p' = voted t (P j)"
    "out = [(new_msg p' OP_ACCEPT (pm_from m))\<lparr>pm_pn := accepted_pn p', pm_last_committed := last_committed p'\<rparr>]"
    using hb unfolding handle_begin_def Let_def by (auto simp: bind_eq_Some_conv voted_def ensure_def split: if_splits)
  have "\<exists>V'. V \<subseteq> V' \<and> ginv n (P(j := p')) ((a @ b) @ out) rg V' K A"
    using ginv_vote [OF inv j m role ep t(1-4) refl] t(5) m by (simp add: is_msg_def)
  then show ?thesis using j by (auto intro: inv_atI)
qed

subsection \<open>Messages to a peon\<close>

lemma inv_at_handle_collect:
  assumes inv: "ginv n P (a @ m # b) rg V K A" and j: "j < n" and n: "1 < n" and m: "is_msg OP_COLLECT i j m"
    and first: "\<forall>x\<in>set a. \<not> is_msg OP_COLLECT i j x" and role: "px_role (P j) = PEON" and ep: "px_epoch (P j) = pm_epoch m"
    and hc: "handle_collect c now m (P j) = Some (p', out)"
  shows "inv_at n V P ((a @ b) @ out) rg j p'"
proof (cases "last_committed (P j) + 1 < pm_first_committed m")
  case True
  have rk: "role_ok n (summ P rg V A) K j (P j)" using inv j by (simp add: ginv_def)
  have "inv_at n V P (a @ b) rg j (P j)" using ginv_drop [OF inv] j by (intro inv_at_refl) simp_all
  then have "inv_at n V P (a @ b) rg j ((P j)\<lparr>state := RECOVERING\<rparr>)"
    using rk role by (elim inv_at_tweak) (auto simp: same_core_def role_ok_def)
  moreover have "bootstrap c now ((P j)\<lparr>state := RECOVERING\<rparr>) = Some (p', out)" using hc True role by (simp add: handle_collect_def Let_def)
  ultimately show ?thesis using inv_at_bootstrap [OF _ n] by blast
next
  case False
  have base: "base_ok n (summ P rg V A) j (P j)" using inv j by (simp add: ginv_def)
  note eq = handle_collect_eq [OF base hc False]
  show ?thesis using ginv_promise [OF inv j m first role ep eq(1)] j eq by (auto intro: inv_atI)
qed

lemma peon_idle: "inv_at n V0 P net rg i p \<Longrightarrow> px_role p = PEON \<Longrightarrow> queued p = None"
  using inv_at_queued by fastforce

lemma inv_at_handle_commit:
  assumes inv: "ginv n P (a @ m # b) rg V K A" and j: "j < n" and m: "pm_op m = OP_COMMIT" and role: "px_role (P j) = PEON"
    and hc: "handle_commit c m (P j) = Some (p', out)"
  shows "inv_at n V P ((a @ b) @ out) rg j p'"
proof -
  obtain ch p where st: "store_state m (P j) = Some (ch, p)" and p': "p' = snd (do_refresh c p)" and out: "out = []"
    using hc role by (auto simp: handle_commit_def bind_eq_Some_conv)
  have "msg_ok n (summ P rg V A) m" using inv by (auto simp: ginv_def)
  then have vals: "values_ok n (summ P rg V A) m" using m by (auto simp: msg_ok_def)
  have "ginv n (P(j := p)) (a @ m # b) rg V K A" using role by (intro ginv_learn [OF inv j vals st]) simp
  then have at: "inv_at n V P (a @ b) rg j p" using ginv_drop j by (intro inv_at_refl) simp_all
  have "px_role p = PEON" using st vals role by (auto simp: store_state_cases values_ok_def learned_def split: if_splits)
  then have q: "queued p = None" using peon_idle [OF at] by simp
  obtain f r where r: "do_refresh c p = (f, r)" by (cases "do_refresh c p")
  then show ?thesis using inv_at_refresh(1) [OF at q r] by (simp add: p' out)
qed

lemma inv_at_handle_lease:
  assumes inv: "ginv n P (a @ m # b) rg V K A" and j: "j < n" and m: "is_msg OP_LEASE i j m"
    and ep: "px_epoch (P j) = pm_epoch m" and hl: "handle_lease m (P j) = Some (p', out)"
  shows "inv_at n V P ((a @ b) @ out) rg j p'"
proof (cases "px_role (P j) \<noteq> PEON \<or> last_committed (P j) \<noteq> pm_last_committed m")
  case True
  then have "p' = P j" "out = []" using hl by (auto simp: handle_lease_def)
  then show ?thesis using ginv_drop [OF inv] j by (intro inv_atI) auto
next
  case False
  let ?p = "(P j)\<lparr>lease_expire := max (lease_expire (P j)) (pm_lease m), state := ACTIVE\<rparr>"
  have p': "p' = ?p" "out = [(new_msg ?p OP_LEASE_ACK (pm_from m))\<lparr>pm_last_committed := last_committed ?p, pm_first_committed := first_committed ?p\<rparr>]"
    using hl False by (auto simp: handle_lease_def Let_def)
  have base: "base_ok n (summ P rg V A) j (P j)" and rk: "role_ok n (summ P rg V A) K j (P j)" and mok: "msg_ok n (summ P rg V A) m"
    using inv j by (auto simp: ginv_def)
  have "msg_ok n (summ P rg V A) x" if "x \<in> set out" for x
    using that mok m base ep j by (auto simp: p' msg_ok_def is_msg_def new_msg_def base_ok_def)
  moreover have "plain out" by (simp add: p' plain_def new_msg_def)
  ultimately have "ginv n (P(j := p')) ((a @ b) @ out) rg V K A"
    using False rk by (intro ginv_tweak [OF ginv_drop [OF inv] j]) (auto simp: p' same_core_def role_ok_def)
  then show ?thesis using j by (intro inv_at_refl) simp_all
qed

lemma inv_at_handle_lease_ack:
  assumes inv: "ginv n P (a @ m # b) rg V K A" and i: "i < n" and ha: "handle_lease_ack m (P i) = Some (p', out)"
  shows "inv_at n V P ((a @ b) @ out) rg i p'"
proof -
  have at: "inv_at n V P (a @ b) rg i (P i)" using ginv_drop [OF inv] i by (intro inv_at_refl) simp_all
  have "role_ok n (summ P rg V A) K i (P i)" using inv i by (auto simp: ginv_def)
  then have w: "queued (P i) \<noteq> None \<longrightarrow> is_writing (P i)" by (auto simp: role_ok_def)
  have eq: "out = []" "same_core (P i) p'" "state p' = state (P i)" "pending_proposal p' = pending_proposal (P i)"
    using ha by (auto simp: handle_lease_ack_def Let_def same_core_def split: if_splits)
  have "inv_at n V P (a @ b) rg i p'"
    by (rule inv_at_tweak [OF at eq(2)]) (use eq w in \<open>auto simp: is_writing_def\<close>)
  then show ?thesis by (simp add: eq(1))
qed

subsection \<open>Dispatch\<close>

lemma take_msg_split:
  "take_msg i j net = Some (m, ms) \<Longrightarrow>
   \<exists>a b. net = a @ m # b \<and> ms = a @ b \<and> pm_from m = i \<and> pm_to m = j \<and> (\<forall>x\<in>set a. \<not> (pm_from x = i \<and> pm_to x = j))"
proof (induction net arbitrary: ms)
  case (Cons x net)
  show ?case
  proof (cases "pm_from x = i \<and> pm_to x = j")
    case True
    then show ?thesis using Cons.prems by (intro exI [of _ "[]"] exI [of _ net]) auto
  next
    case False
    then obtain ms' where ms': "take_msg i j net = Some (m, ms')" "ms = x # ms'" using Cons.prems by auto
    then obtain a b where "net = a @ m # b" "ms' = a @ b" "pm_from m = i" "pm_to m = j" "\<forall>x\<in>set a. \<not> (pm_from x = i \<and> pm_to x = j)"
      using Cons.IH by blast
    then show ?thesis using False ms'(2) by (intro exI [of _ "x # a"] exI [of _ b]) auto
  qed
qed simp

lemma inv_at_dispatch:
  assumes inv: "ginv n P (a @ m # b) rg V K A" and j: "j < n" and n: "1 < n" "n \<le> 100" and m: "pm_from m = i" "pm_to m = j"
    and first: "\<forall>x\<in>set a. \<not> (pm_from x = i \<and> pm_to x = j)" and md: "mon_dispatch c now m (P j) = Some (p', out)"
  shows "inv_at n V P ((a @ b) @ out) rg j p'"
proof -
  have at: "inv_at n V P (a @ b) rg j (P j)" using ginv_drop [OF inv] j by (intro inv_at_refl) simp_all
  have mok: "msg_ok n (summ P rg V A) m" and rk: "role_ok n (summ P rg V A) K j (P j)" using inv j by (auto simp: ginv_def)
  consider (later) "px_epoch (P j) < pm_epoch m" | (skip) "p' = P j" "out = []"
    | (handle) "px_epoch (P j) = pm_epoch m" "px_role (P j) = LEADER \<or> px_role (P j) = PEON" "px_dispatch c now m (P j) = Some (p', out)"
    using md by (auto simp: mon_dispatch_def px_dispatch_def split: if_splits)
  then show ?thesis
  proof cases
    case later
    then show ?thesis using md inv_at_bootstrap [OF at n(1)] by (simp add: mon_dispatch_def)
  next
    case skip
    then show ?thesis using at by simp
  next
    case handle
    then have op: "px_role (P j) = LEADER \<and> pm_op m \<in> {OP_LAST, OP_ACCEPT, OP_LEASE_ACK, OP_COMMIT} \<or>
        px_role (P j) = PEON \<and> pm_op m \<in> {OP_COLLECT, OP_BEGIN, OP_COMMIT, OP_LEASE}"
      using mok rk m by (cases "pm_op m") (auto simp: msg_ok_def role_ok_def leader_ok_def)
    have is_m: "is_msg (pm_op m) i j m" "\<forall>x\<in>set a. \<not> is_msg oper i j x" for oper using m first by (auto simp: is_msg_def)
    show ?thesis
    proof (cases "px_role (P j) = LEADER")
      case True
      then show ?thesis
        using op handle is_m inv_at_handle_last [OF inv j n _ True] inv_at_handle_accept [OF inv j _ True] inv_at_handle_lease_ack [OF inv j]
        by (auto simp: px_dispatch_def handle_commit_def)
    next
      case False
      then have peon: "px_role (P j) = PEON" using handle by simp
      then show ?thesis
        using op handle is_m inv_at_handle_collect [OF inv j n(1) _ _ peon] inv_at_handle_begin [OF inv j _ peon]
          inv_at_handle_commit [OF inv j _ peon] inv_at_handle_lease [OF inv j]
        by (auto simp: px_dispatch_def)
    qed
  qed
qed

end
