(* ===== verification/Paxos_Agreement.thy ===== *)
theory Paxos_Agreement
  imports Paxos_Delivery
begin

text \<open>
  All runs of the monitors in which no monitor forgets a number it has promised: a restart happens only when
  the store has the number the monitor last accepted. In those runs every store is that of a prefix of one
  log of decided transactions.
\<close>

subsection \<open>Events\<close>

definition sys_ok :: "nat \<Rightarrow> (nat, txn) vote set \<Rightarrow> px_sys \<Rightarrow> bool" where
  "sys_ok n V0 s \<longleftrightarrow> length (sys_nodes s) = n \<and> (\<exists>V K A. V0 \<subseteq> V \<and> ginv n ((!) (sys_nodes s)) (sys_net s) (map_of (sys_reigns s)) V K A)"

fun promise_kept :: "px_event \<Rightarrow> px_sys \<Rightarrow> bool" where
  "promise_kept (Crash i written) s \<longleftrightarrow>
     (i < length (sys_nodes s) \<longrightarrow> st_accepted_pn (px_store (sys_nodes s ! i)) = accepted_pn (sys_nodes s ! i))"
| "promise_kept e s \<longleftrightarrow> True"

fun promises_kept :: "px_conf \<Rightarrow> px_event list \<Rightarrow> px_sys \<Rightarrow> bool" where
  "promises_kept c [] s \<longleftrightarrow> True"
| "promises_kept c (e # es) s \<longleftrightarrow> promise_kept e s \<and> (case px_exec c e s of None \<Rightarrow> True | Some s' \<Rightarrow> promises_kept c es s')"

lemma nth_update: "i < length xs \<Longrightarrow> (!) (xs[i := x]) = ((!) xs)(i := x)"
  by (auto simp: fun_eq_iff nth_list_update)

lemma inv_at_mono: "inv_at n V P net rg i p \<Longrightarrow> V0 \<subseteq> V \<Longrightarrow> inv_at n V0 P net rg i p"
  unfolding inv_at_def by blast

lemma sys_ok_at_node:
  assumes "at_node i f s = Some s'" and "length (sys_nodes s) = n"
    and "\<And>p out. i < n \<Longrightarrow> f (sys_nodes s ! i) = Some (p, out) \<Longrightarrow>
      inv_at n V0 ((!) (sys_nodes s)) (sys_net s @ out) (map_of (sys_reigns s)) i p"
  shows "sys_ok n V0 s'"
proof -
  obtain p out where i: "i < n" "f (sys_nodes s ! i) = Some (p, out)"
    and s': "s' = s\<lparr>sys_nodes := (sys_nodes s)[i := p], sys_net := sys_net s @ out\<rparr>"
    using assms(1,2) by (auto simp: at_node_def bind_eq_Some_conv ensure_def split: if_splits)
  then show ?thesis using assms(3) [OF i] assms(2) by (simp add: sys_ok_def inv_at_def nth_update)
qed

lemma sys_ok_inv_at:
  assumes "sys_ok n V0 s" and "i < n"
  shows "inv_at n V0 ((!) (sys_nodes s)) (sys_net s) (map_of (sys_reigns s)) i (sys_nodes s ! i)"
  using assms unfolding sys_ok_def by (auto intro: inv_atI)

text \<open>An event that only changes variables of its own.\<close>

lemma inv_at_local:
  assumes inv: "inv_at n V0 P net rg i p" and "same_core p p'" and "state p' = state p"
    and "pending_proposal p' = pending_proposal p \<or> (\<forall>t. pending_proposal p' = Some t \<longrightarrow> services_only t)"
  shows "inv_at n V0 P net rg i p'"
  using inv_at_queued [OF inv] assms by (intro inv_at_tweak [OF inv]) (auto simp: is_writing_def)

lemma inv_at_win:
  assumes inv: "ginv n P net rg V K A" and i: "i < n" and n: "1 < n" "n \<le> 100" and e: "rg e = None" "is_quorum n q" "i \<in> set q"
    and win: "win_election e q (P i) = Some (p', out)"
  shows "inv_at n V P (net @ out) (rg(e \<mapsto> (i, q))) i p'"
proof -
  let ?s = "summ P rg V A"
  have base: "base_ok n ?s i (P i)" and rk: "role_ok n ?s K i (P i)" and glob: "glob_ok n ?s K" using inv i by (auto simp: ginv_def)
  have el: "px_role (P i) = ELECTING" using win by (cases "px_role (P i) = ELECTING") (simp_all add: win_election_def)
  then have idle: "queued (P i) = None" using rk by (cases "queued (P i)") (auto simp: role_ok_def)
  define p where "p = (reset_pending_committing_finishers ((P i)\<lparr>px_role := LEADER, px_epoch := e, px_leader := px_rank (P i), px_quorum := q,
      lease_ack_timeout_event := False, new_value := None, pending_proposal := None\<rparr>))\<lparr>state := RECOVERING, lease_expire := 0\<rparr>"
  have "length q \<noteq> 1" using e(2) n by (auto simp: is_quorum_def)
  then have col: "collect 0 p = Some (p', out)"
    using win el by (simp add: win_election_def leader_init_def Let_def p_def reset_pending_committing_finishers_def)
  have base': "base_ok n ?s i p"
    by (rule base_ok_same [OF _ _ _ _ _ _ _ _ base]) (simp_all add: p_def reset_pending_committing_finishers_def)
  have "\<forall>e' l r. rg e' = Some (l, r) \<longrightarrow> is_quorum n r \<and> l \<in> set r" using glob unfolding glob_ok_def summ_simps by blast
  then have rgq: "\<forall>e' l r. (rg(e \<mapsto> (i, q))) e' = Some (l, r) \<longrightarrow> is_quorum n r \<and> l \<in> set r" using e by auto
  have sub: "rg \<subseteq>\<^sub>m rg(e \<mapsto> (i, q))" using e(1) by (auto simp: map_le_def)
  have "ginv n (P(i := p')) (net @ out) (rg(e \<mapsto> (i, q))) V K A"
    using idle by (intro ginv_collect [OF inv i n(2) sub rgq base' _ _ _ _ _ _ _ col]) (simp_all add: p_def reset_pending_committing_finishers_def)
  then show ?thesis using i by (intro inv_at_refl) simp_all
qed

lemma inv_at_lose:
  assumes inv: "ginv n P net rg V K A" and j: "j < n" and e: "rg e = Some (l, q)" "j \<noteq> l" and el: "px_role (P j) = ELECTING"
  shows "inv_at n V P net rg j (lose_election e q l (P j))"
proof -
  have base: "base_ok n (summ P rg V A) j (P j)" and rk: "role_ok n (summ P rg V A) K j (P j)" using inv j by (auto simp: ginv_def)
  then have idle: "queued (P j) = None" using el by (cases "queued (P j)") (auto simp: role_ok_def)
  have "base_ok n (summ P rg V A) j (lose_election e q l (P j))"
    by (rule base_ok_same [OF _ _ _ _ _ _ _ _ base])
       (simp_all add: lose_election_def peon_init_def reset_pending_committing_finishers_def)
  then have "ginv n (P(j := lose_election e q l (P j))) net rg V K A"
    using e idle by (intro ginv_follow [OF inv j])
      (simp_all add: lose_election_def peon_init_def reset_pending_committing_finishers_def)
  then show ?thesis using j by (intro inv_at_refl) simp_all
qed

lemma base_ok_init:
  assumes base: "base_ok n s i p" and kept: "st_accepted_pn (px_store p) = accepted_pn p"
  shows "base_ok n s i (px_init i n e (px_store p))"
  using assms unfolding base_ok_def store_ok_def log_ok_def ballot_ok_def by (simp add: px_init_def)

lemma inv_at_crash:
  assumes inv: "ginv n P net rg V K A" and i: "i < n" and kept: "st_accepted_pn (px_store (P i)) = accepted_pn (P i)"
  shows "inv_at n V P net rg i (crash written (P i))"
proof -
  let ?s = "summ P rg V A"
  have base: "base_ok n ?s i (P i)" and rk: "role_ok n ?s K i (P i)" and glob: "glob_ok n ?s K" using inv i by (auto simp: ginv_def)
  obtain p where p: "base_ok n ?s i p" "st_accepted_pn (px_store p) = accepted_pn p" "accepted_pn p = accepted_pn (P i)" "last_pn p = last_pn (P i)"
    "last_committed (P i) \<le> last_committed p" "crash written (P i) = px_init i n (px_epoch (P i)) (px_store p)"
  proof (cases "written \<and> queued (P i) \<noteq> None")
    case True
    then obtain v t where q: "queued (P i) = Some (v, t)" by auto
    then have lead: "leader_ok n ?s K i (P i)" using rk by (auto simp: role_ok_def)
    have v: "v = last_committed (P i) + 1" using queued_decided(1) [OF glob lead q] .
    show ?thesis
      using base_ok_commit [OF glob base lead q] kept base True q v
      by (intro that [of "learned v (apply_txn t ((px_store (P i))\<lparr>st_last_committed := v\<rparr>)) (P i)"])
         (simp_all add: learned_def crash_def write_queued_def base_ok_def)
  next
    case False
    then show ?thesis using base kept
      by (intro that [of "P i"]) (auto simp: crash_def write_queued_def base_ok_def split: option.splits)
  qed
  have st: "store_ok p" using p(1) by (simp add: base_ok_def)
  have "ginv n (P(i := px_init i n (px_epoch (P i)) (px_store p))) net rg V K A"
    using p(2-5) st by (intro ginv_follow [OF inv i base_ok_init [OF p(1,2)]]) (simp_all add: px_init_def store_ok_def)
  then show ?thesis using i unfolding p(6) by (intro inv_at_refl) simp_all
qed

lemma inv_at_trigger:
  assumes inv: "inv_at n V0 P net rg i p" and n: "1 < n" and tp: "trigger_propose p = Some (p', out)"
  shows "inv_at n V0 P (net @ out) rg i p'"
proof (cases "plugged p \<or> state p \<noteq> ACTIVE")
  case True
  then show ?thesis using tp inv by (auto simp: trigger_propose_def split: if_splits)
next
  case False
  then have pp: "propose_pending p = Some (p', out)" using tp by (simp add: trigger_propose_def)
  have L: "px_role p = LEADER" and nv: "new_value p = None"
    using pp False by (cases "pending_proposal p"; auto simp: propose_pending_def px_begin_def)+
  have "queued p = None" using inv_at_queued [OF inv] False by (cases "queued p") (auto simp: is_writing_def)
  moreover have "\<forall>u. pending_proposal p = Some u \<longrightarrow> may_add p u" using pending_ok [OF inv] by (auto simp: may_add_def)
  ultimately show ?thesis using inv_at_propose_pending(1) [OF inv n L _ nv _ same_core_refl _ pp] False by simp
qed

text \<open>The events of one monitor that keep the invariant whatever the others do.\<close>

definition keeps :: "nat \<Rightarrow> (paxos \<Rightarrow> px_result) \<Rightarrow> bool" where
  "keeps n f \<longleftrightarrow> (\<forall>V0 P net rg i p p' out. inv_at n V0 P net rg i p \<longrightarrow> f p = Some (p', out) \<longrightarrow> inv_at n V0 P (net @ out) rg i p')"

lemma keepsI:
  "(\<And>V0 P net rg i p p' out. inv_at n V0 P net rg i p \<Longrightarrow> f p = Some (p', out) \<Longrightarrow> inv_at n V0 P (net @ out) rg i p') \<Longrightarrow> keeps n f"
  by (simp add: keeps_def)

lemma sys_ok_keeps:
  assumes "sys_ok n V0 s" and "keeps n f" and "at_node i f s = Some s'"
  shows "sys_ok n V0 s'"
proof (rule sys_ok_at_node [OF assms(3)])
  show "length (sys_nodes s) = n" using assms(1) by (simp add: sys_ok_def)
  show "inv_at n V0 ((!) (sys_nodes s)) (sys_net s @ out) (map_of (sys_reigns s)) i p"
    if "i < n" "f (sys_nodes s ! i) = Some (p, out)" for p out
    using sys_ok_inv_at [OF assms(1) that(1)] that(2) assms(2) unfolding keeps_def by blast
qed

lemma keeps_local:
  assumes "\<And>p p'. f p = Some p' \<Longrightarrow> \<forall>t. pending_proposal p = Some t \<longrightarrow> services_only t \<Longrightarrow>
      same_core p p' \<and> state p' = state p \<and> (\<forall>t. pending_proposal p' = Some t \<longrightarrow> services_only t)"
  shows "keeps n (quiet f)"
  unfolding keeps_def
proof (intro allI impI)
  fix V0 P net rg i p p' out assume inv: "inv_at n V0 P net rg i p" and "quiet f p = Some (p', out)"
  then have f: "f p = Some p'" "out = []" by (auto simp: quiet_def)
  show "inv_at n V0 P (net @ out) rg i p'"
    using assms [OF f(1)] pending_ok [OF inv] by (simp add: f(2) inv_at_local [OF inv])
qed

lemma keeps_bootstrap: "1 < n \<Longrightarrow> keeps n (bootstrap c now)"
  by (rule keepsI) (rule inv_at_bootstrap)

lemma keeps_written: "1 < n \<Longrightarrow> keeps n (write_done c now)"
proof (rule keepsI)
  fix V0 P net rg i p p' out assume inv: "inv_at n V0 P net rg i p" and n: "1 < n" and wr: "write_done c now p = Some (p', out)"
  have q: "queued p \<noteq> None" and fin: "committed c now (write_queued p) = Some (p', out)" using wr unfolding write_done_def ensure_bind_Some by blast+
  have "is_writing p" using inv_at_queued [OF inv q] by blast
  then show "inv_at n V0 P (net @ out) rg i p'" using inv_at_commit [OF inv n _ fin] by blast
qed

lemma keeps_trigger: "1 < n \<Longrightarrow> keeps n trigger_propose"
  by (rule keepsI) (rule inv_at_trigger)

lemma keeps_services: "keeps n (quiet (add_pending xs))" "keeps n (quiet plug)" "keeps n (quiet unplug)"
  by (rule keeps_local, auto simp: add_pending_def get_pending_transaction_def plug_def unplug_def bind_eq_Some_conv same_core_def
        services_only_def ensure_def split: if_splits)+

lemma keeps_timeouts:
  assumes "1 < n"
  shows "keeps n (collect_timeout c now)" "keeps n (accept_timeout c now)" "keeps n (lease_timeout c now)"
    "keeps n (lease_ack_timeout c now)" "keeps n (lease_renew_timeout c now)"
proof -
  note boot = inv_at_bootstrap [OF _ assms]
  show "keeps n (collect_timeout c now)" "keeps n (accept_timeout c now)" "keeps n (lease_timeout c now)"
    by (rule keepsI, simp only: collect_timeout_def accept_timeout_def lease_timeout_def ensure_bind_Some, erule boot, blast)+
  show "keeps n (lease_ack_timeout c now)"
  proof (rule keepsI)
    fix V0 P net rg i p p' out assume inv: "inv_at n V0 P net rg i p" and to: "lease_ack_timeout c now p = Some (p', out)"
    have "inv_at n V0 P net rg i (p\<lparr>lease_ack_timeout_event := False\<rparr>)"
      by (rule inv_at_local [OF inv]) (simp_all add: same_core_def)
    then show "inv_at n V0 P (net @ out) rg i p'" using to unfolding lease_ack_timeout_def ensure_bind_Some by (blast intro: boot)
  qed
  show "keeps n (lease_renew_timeout c now)" by (rule keepsI) (simp only: lease_renew_timeout_def inv_at_lease(1))
qed

text \<open>Elections and messages.\<close>

lemma sys_ok_election:
  assumes ok: "sys_ok n V0 s" and n: "1 < n" "n \<le> 100" and ex: "px_exec c e s = Some s'" and e: "e = Win i ep q \<or> e = Lose i ep"
  shows "sys_ok n V0 s'"
proof -
  have len: "length (sys_nodes s) = n" using ok by (simp add: sys_ok_def)
  let ?P = "(!) (sys_nodes s)" and ?rg = "map_of (sys_reigns s)" and ?net = "sys_net s"
  obtain V K A where inv: "ginv n ?P ?net ?rg V K A" and sub: "V0 \<subseteq> V" using ok by (auto simp: sys_ok_def)
  from e show ?thesis
  proof
    assume "e = Win i ep q"
    then have q: "?rg ep = None" "is_quorum n q" "i \<in> set q"
      and step: "at_node i (\<lambda>p. do { ensure (px_epoch p < ep); win_election ep q p }) (s\<lparr>sys_reigns := (ep, i, q) # sys_reigns s\<rparr>) = Some s'"
      using ex len by (auto simp: bind_eq_Some_conv ensure_def split: if_splits)
    have "inv_at n V0 ?P (?net @ out) (?rg(ep \<mapsto> (i, q))) i p" if "i < n" "win_election ep q (?P i) = Some (p, out)" for p out
      by (rule inv_at_mono [OF inv_at_win [OF inv that(1) n q that(2)] sub])
    then show ?thesis using len by (intro sys_ok_at_node [OF step]) auto
  next
    assume "e = Lose i ep"
    then obtain l r where r: "?rg ep = Some (l, r)" "i \<noteq> l"
      and step: "at_node i (\<lambda>p. do { ensure (px_role p = ELECTING \<and> px_epoch p < ep); Some (lose_election ep r l p, []) }) s = Some s'"
      using ex by (auto simp: bind_eq_Some_conv ensure_def split: if_splits)
    show ?thesis using inv_at_mono [OF inv_at_lose [OF inv _ r] sub] by (intro sys_ok_at_node [OF step len]) auto
  qed
qed

lemma sys_ok_message:
  assumes ok: "sys_ok n V0 s" and n: "1 < n" "n \<le> 100" and ex: "px_exec c e s = Some s'" and e: "e = Deliver i j \<or> e = Lost i j"
  shows "sys_ok n V0 s'"
proof -
  have len: "length (sys_nodes s) = n" using ok by (simp add: sys_ok_def)
  obtain V K A where inv: "ginv n ((!) (sys_nodes s)) (sys_net s) (map_of (sys_reigns s)) V K A" and sub: "V0 \<subseteq> V" using ok by (auto simp: sys_ok_def)
  obtain m ms where m: "take_msg i j (sys_net s) = Some (m, ms)" using ex e by (cases "take_msg i j (sys_net s)") auto
  obtain a b where ab: "sys_net s = a @ m # b" "ms = a @ b" "pm_from m = i" "pm_to m = j" "\<forall>x\<in>set a. \<not> (pm_from x = i \<and> pm_to x = j)"
    using take_msg_split [OF m] by blast
  from e show ?thesis
  proof
    assume "e = Deliver i j"
    then have step: "at_node j (mon_dispatch c (sys_now s) m) (s\<lparr>sys_net := ms\<rparr>) = Some s'" using ex m by simp
    show ?thesis
      using inv_at_mono [OF inv_at_dispatch [OF inv [unfolded ab(1)] _ n ab(3-5)] sub] len by (intro sys_ok_at_node [OF step]) (simp_all add: ab(2))
  next
    assume "e = Lost i j"
    then have "s' = s\<lparr>sys_net := ms\<rparr>" using ex m by simp
    then show ?thesis using ginv_drop [OF inv [unfolded ab(1)]] sub len by (auto simp: sys_ok_def ab(2))
  qed
qed

lemma sys_ok_crash:
  assumes ok: "sys_ok n V0 s" and kept: "promise_kept (Crash i w) s" and ex: "px_exec c (Crash i w) s = Some s'"
  shows "sys_ok n V0 s'"
proof (rule sys_ok_at_node)
  show len: "length (sys_nodes s) = n" using ok by (simp add: sys_ok_def)
  obtain V K A where inv: "ginv n ((!) (sys_nodes s)) (sys_net s) (map_of (sys_reigns s)) V K A" and sub: "V0 \<subseteq> V" using ok by (auto simp: sys_ok_def)
  show "at_node i (\<lambda>p. Some (crash w p, [])) s = Some s'" using ex by simp
  show "inv_at n V0 ((!) (sys_nodes s)) (sys_net s @ out) (map_of (sys_reigns s)) i p" if "i < n" "Some (crash w (sys_nodes s ! i), []) = Some (p, out)" for p out
    using inv_at_mono [OF inv_at_crash [OF inv that(1), of w] sub] kept that len by auto
qed

lemma sys_ok_exec:
  assumes ok: "sys_ok n V0 s" and n: "1 < n" "n \<le> 100" and kept: "promise_kept e s" and ex: "px_exec c e s = Some s'"
  shows "sys_ok n V0 s'"
proof (cases e)
  case (Bootstrap i)
  then show ?thesis using ex sys_ok_keeps [OF ok keeps_bootstrap [OF n(1)]] by auto
next
  case (Win i ep q)
  then show ?thesis using ex sys_ok_election [OF ok n ex] by blast
next
  case (Lose i ep)
  then show ?thesis using ex sys_ok_election [OF ok n ex] by blast
next
  case (Deliver i j)
  then show ?thesis using ex sys_ok_message [OF ok n ex] by blast
next
  case (Lost i j)
  then show ?thesis using ex sys_ok_message [OF ok n ex] by blast
next
  case (Written i)
  then show ?thesis using ex sys_ok_keeps [OF ok keeps_written [OF n(1)]] by auto
next
  case (Crash i w)
  then show ?thesis using ex kept sys_ok_crash [OF ok] by blast
next
  case (AddPending i xs)
  then show ?thesis using ex sys_ok_keeps [OF ok keeps_services(1)] by auto
next
  case (TriggerPropose i)
  then show ?thesis using ex sys_ok_keeps [OF ok keeps_trigger [OF n(1)]] by auto
next
  case (Plug i)
  then show ?thesis using ex sys_ok_keeps [OF ok keeps_services(2)] by auto
next
  case (Unplug i)
  then show ?thesis using ex sys_ok_keeps [OF ok keeps_services(3)] by auto
next
  case (CollectTimeout i)
  then show ?thesis using ex sys_ok_keeps [OF ok keeps_timeouts(1) [OF n(1)]] by auto
next
  case (AcceptTimeout i)
  then show ?thesis using ex sys_ok_keeps [OF ok keeps_timeouts(2) [OF n(1)]] by auto
next
  case (LeaseAckTimeout i)
  then show ?thesis using ex sys_ok_keeps [OF ok keeps_timeouts(4) [OF n(1)]] by auto
next
  case (LeaseTimeout i)
  then show ?thesis using ex sys_ok_keeps [OF ok keeps_timeouts(3) [OF n(1)]] by auto
next
  case (LeaseRenewTimeout i)
  then show ?thesis using ex sys_ok_keeps [OF ok keeps_timeouts(5) [OF n(1)]] by auto
next
  case Tick
  then have "s' = s\<lparr>sys_now := Suc (sys_now s)\<rparr>" using ex by simp
  then show ?thesis using ok by (simp add: sys_ok_def)
qed

lemma sys_ok_init: "sys_ok n {} (px_sys_init n)"
proof -
  let ?P = "(!) (sys_nodes (px_sys_init n))" and ?s = "summ ((!) (sys_nodes (px_sys_init n))) (\<lambda>e. None) {} {}"
  have node: "?P i = px_init i n 0 empty_store" if "i < n" for i using that by (simp add: px_sys_init_def)
  have "log_ok n ?s (px_init i n 0 empty_store)" for i
    unfolding log_ok_def by (rule exI [of _ "[]"]) (simp add: px_init_def store_log_empty, simp add: empty_store_def)
  then have "base_ok n ?s i (px_init i n 0 empty_store)" for i
    by (simp add: base_ok_def store_ok_def ballot_ok_def px_init_def empty_store_def)
  moreover have "role_ok n ?s {} i (px_init i n 0 empty_store)" "round_ok i (px_init i n 0 empty_store) []" for i
    by (simp_all add: role_ok_def round_ok_def px_init_def)
  moreover have "glob_ok n ?s {}" by (simp add: glob_ok_def votes_ok_def one_value_def)
  moreover have "collect_ok [] {}" "answer_ok ?P [] {} {}"
    by (simp_all add: collect_ok_def answer_ok_def once_ok_def order_ok_def stale_ok_def later_ok_def)
  ultimately have "ginv n ?P [] (\<lambda>e. None) {} {} {}" using node by (simp add: ginv_def)
  then show ?thesis by (auto simp: sys_ok_def px_sys_init_def)
qed

text \<open>The monitors as a transition system; \<open>V0\<close> are votes it starts with.\<close>

definition kept_step :: "px_conf \<Rightarrow> px_sys \<Rightarrow> px_sys \<Rightarrow> bool" where
  "kept_step c s s' \<longleftrightarrow> (\<exists>e. promise_kept e s \<and> px_exec c e s = Some s')"

definition mons_ok :: "nat \<Rightarrow> (nat, txn) vote set \<Rightarrow> px_sys \<Rightarrow> bool" where
  "mons_ok n V0 s \<longleftrightarrow> 1 < n \<and> n \<le> 100 \<and> sys_ok n V0 s"

interpretation mons: invariant_system "\<lambda>s. 1 < n \<and> n \<le> 100 \<and> W = {} \<and> s = px_sys_init n" "kept_step c" "mons_ok n W" for n W c
  by unfold_locales (auto simp: mons_ok_def kept_step_def intro: sys_ok_init sys_ok_exec)

lemma run_steps: "promises_kept c es s \<Longrightarrow> px_run c es s = Some s' \<Longrightarrow> (kept_step c)\<^sup>*\<^sup>* s s'"
proof (induction es arbitrary: s)
  case (Cons e es)
  obtain s1 where s1: "px_exec c e s = Some s1" "px_run c es s1 = Some s'" using Cons.prems(2) by (auto simp: bind_eq_Some_conv)
  then have "kept_step c s s1" "promises_kept c es s1" using Cons.prems(1) by (auto simp: kept_step_def)
  then show ?case using Cons.IH s1(2) by (meson converse_rtranclp_into_rtranclp)
qed simp

lemma sys_ok_reached:
  "1 < n \<Longrightarrow> n \<le> 100 \<Longrightarrow> promises_kept c es (px_sys_init n) \<Longrightarrow> px_run c es (px_sys_init n) = Some s \<Longrightarrow> sys_ok n {} s"
  using mons.inv_reachable [where n = n and W = "{}" and s = "px_sys_init n", OF _ run_steps] by (simp add: mons_ok_def)

lemma sys_ok_run:
  "1 < n \<Longrightarrow> n \<le> 100 \<Longrightarrow> sys_ok n V0 s \<Longrightarrow> promises_kept c es s \<Longrightarrow> px_run c es s = Some s' \<Longrightarrow> sys_ok n V0 s'"
  using mons.inv_run [where n = n and W = V0, OF run_steps] by (simp add: mons_ok_def)

subsection \<open>One log\<close>

lemma node_log:
  assumes "ginv n P net rg V K A" and "i < n"
  obtains h where "length h = last_committed (P i)" "store_log (px_store (P i)) h" "\<forall>k<length h. decided (quo n) V (k + 1) (h ! k)"
    "first_committed (P i) = st_first_committed (px_store (P i))"
proof -
  have "base_ok n (summ P rg V A) i (P i)" using assms by (simp add: ginv_def)
  then show ?thesis by (auto simp: base_ok_def log_ok_def store_ok_def intro: that)
qed

text \<open>\<open>is_consistent\<close>, which a starting monitor asserts of its store.\<close>

lemma restart_consistent:
  assumes "ginv n P net rg V K A" and "i < n"
  shows "st_first_committed (px_store (P i)) \<le> st_last_committed (px_store (P i))"
proof -
  have "base_ok n (summ P rg V A) i (P i)" using assms by (simp add: ginv_def)
  then obtain h where "length h = st_last_committed (px_store (P i))" "good_log h" "store_log (px_store (P i)) h"
    by (auto simp: base_ok_def log_ok_def store_ok_def)
  then show ?thesis by (cases "h = []") (auto simp: good_log_def store_log_def empty_store_def)
qed

lemma logs_agree:
  assumes "votes_ok (quo n) acc V" and "\<forall>k<length g. decided (quo n) V (k + 1) (g ! k)" and "\<forall>k<length h. decided (quo n) V (k + 1) (h ! k)"
    and "length g \<le> length h"
  shows "g = take (length g) h"
proof (rule nth_equalityI)
  show "g ! k = take (length g) h ! k" if "k < length g" for k
    using that assms ranks.decided_unique [OF assms(1)] by (metis less_le_trans nth_take)
qed (use assms(4) in simp)

lemma one_log:
  assumes "sys_ok n V0 s"
  obtains h where "\<And>i. i < n \<Longrightarrow> last_committed (sys_nodes s ! i) \<le> length h \<and>
    store_log (px_store (sys_nodes s ! i)) (take (last_committed (sys_nodes s ! i)) h) \<and>
    first_committed (sys_nodes s ! i) = st_first_committed (px_store (sys_nodes s ! i))"
proof (cases "n = 0")
  case False
  let ?lc = "\<lambda>i. last_committed (sys_nodes s ! i)"
  obtain V K A where inv: "ginv n ((!) (sys_nodes s)) (sys_net s) (map_of (sys_reigns s)) V K A" using assms by (auto simp: sys_ok_def)
  then have votes: "votes_ok (quo n) (accs (summ ((!) (sys_nodes s)) (map_of (sys_reigns s)) V A)) V" by (simp add: ginv_def glob_ok_def)
  have "Max (?lc ` {..<n}) \<in> ?lc ` {..<n}" using False by (intro Max_in) auto
  then obtain j where j: "j < n" "?lc j = Max (?lc ` {..<n})" by auto
  then have j: "j < n" "\<And>i. i < n \<Longrightarrow> ?lc i \<le> ?lc j" by simp_all
  obtain h where h: "length h = ?lc j" "\<forall>k<length h. decided (quo n) V (k + 1) (h ! k)" using node_log [OF inv j(1)] by metis
  show ?thesis
  proof (rule that [of h])
    fix i assume i: "i < n"
    obtain g where g: "length g = ?lc i" "store_log (px_store (sys_nodes s ! i)) g" "\<forall>k<length g. decided (quo n) V (k + 1) (g ! k)"
      "first_committed (sys_nodes s ! i) = st_first_committed (px_store (sys_nodes s ! i))"
      using node_log [OF inv i] by metis
    have "g = take (?lc i) h" using logs_agree [OF votes g(3) h(2)] g(1) h(1) j(2) [OF i] by simp
    then show "?lc i \<le> length h \<and> store_log (px_store (sys_nodes s ! i)) (take (?lc i) h) \<and>
        first_committed (sys_nodes s ! i) = st_first_committed (px_store (sys_nodes s ! i))"
      using g h(1) j(2) [OF i] by simp
  qed
qed (use that in simp)

text \<open>C2. The monitors keep one log. Up to a hundred monitors start with empty stores, and in any order elect
  leaders, propose, exchange and lose messages, time out and restart, but restart only when the store has
  the number they last accepted. Then there is one sequence of transactions such that every monitor has
  applied an initial part of it, to a store that was empty: its services have seen the same operations in
  the same order, its oldest version is the one that log gives, and each version it still has is the
  transaction of the log at that place.\<close>

theorem paxos_one_log:
  assumes "1 < n" and "n \<le> 100" and "promises_kept c es (px_sys_init n)" and "px_run c es (px_sys_init n) = Some s"
  shows "\<exists>h. \<forall>i<n. let p = sys_nodes s ! i; k = last_committed p in k \<le> length h \<and>
    st_services (px_store p) = st_services (replay (take k h)) \<and> first_committed p = st_first_committed (replay (take k h)) \<and>
    (\<forall>v t. 1 \<le> v \<and> v \<le> k \<and> map_of (st_versions (px_store p)) v = Some t \<longrightarrow> canon v t = h ! (v - 1))"
proof -
  have ok: "sys_ok n {} s" by (rule sys_ok_reached [OF assms(1-4)])
  obtain h where h: "\<And>i. i < n \<Longrightarrow> last_committed (sys_nodes s ! i) \<le> length h \<and>
    store_log (px_store (sys_nodes s ! i)) (take (last_committed (sys_nodes s ! i)) h) \<and>
    first_committed (sys_nodes s ! i) = st_first_committed (px_store (sys_nodes s ! i))" using one_log [OF ok] by blast
  have "canon v t = h ! (v - 1)" if "i < n" "1 \<le> v" "v \<le> last_committed (sys_nodes s ! i)"
      "map_of (st_versions (px_store (sys_nodes s ! i))) v = Some t" for i v t
    using store_log_value(1) [of "px_store (sys_nodes s ! i)" "take (last_committed (sys_nodes s ! i)) h" v t] h [OF that(1)] that by simp
  then show ?thesis using h by (intro exI [of _ h]) (auto simp: Let_def store_log_def)
qed

lemma replay_services: "st_services (replay h) = concat (map services_of h)"
  by (induction h rule: rev_induct) (simp_all add: empty_store_def)

lemma apply_dropWhile:
  "st_first_committed st = v \<Longrightarrow> apply_txn (dropWhile ((=) (PutFirstCommitted v)) t) st = apply_txn t st"
  by (induction t arbitrary: st) (auto simp: apply_txn_def)

lemma apply_canon: "raw_ok v t \<Longrightarrow> apply_txn (canon v t) st = apply_txn t st"
proof (cases "v = 1")
  case True
  assume "raw_ok v t"
  then obtain u where t: "t = PutFirstCommitted 1 # u" using True by (auto simp: raw_ok_def)
  show ?thesis using apply_dropWhile [of "st\<lparr>st_first_committed := 1\<rparr>" 1 u] True by (simp add: t canon_def apply_txn_def)
qed (simp add: canon_def)

lemma store_log_agree:
  assumes g: "store_log (px_store p) g" "length g = last_committed p" and h: "store_log (px_store q) h" "length h = last_committed q"
    and pre: "g = take (length g) h"
  shows "\<exists>xs. st_services (px_store q) = st_services (px_store p) @ xs"
    "1 \<le> v \<Longrightarrow> v \<le> last_committed p \<Longrightarrow> map_of (st_versions (px_store p)) v = Some t \<Longrightarrow> map_of (st_versions (px_store q)) v = Some u \<Longrightarrow>
      apply_txn t = apply_txn u \<and> (v \<noteq> 1 \<longrightarrow> t = u)"
proof -
  have len: "length g \<le> length h" using pre by (metis length_take min.cobounded1)
  have "h = g @ drop (length g) h" using pre by (metis append_take_drop_id)
  then have "st_services (replay h) = st_services (replay g) @ concat (map services_of (drop (length g) h))"
    by (metis replay_services map_append concat_append)
  then show "\<exists>xs. st_services (px_store q) = st_services (px_store p) @ xs" using g(1) h(1) by (simp add: store_log_def)
  show "apply_txn t = apply_txn u \<and> (v \<noteq> 1 \<longrightarrow> t = u)" if v: "1 \<le> v" "v \<le> last_committed p"
    "map_of (st_versions (px_store p)) v = Some t" "map_of (st_versions (px_store q)) v = Some u"
  proof -
    have "v - 1 < length g" using v g(2) by simp
    then have "g ! (v - 1) = h ! (v - 1)" using pre by (metis nth_take)
    moreover have "canon v t = g ! (v - 1)" "raw_ok v t" using store_log_value [OF g(1) v(1) _ v(3)] v(2) g(2) by simp_all
    moreover have "canon v u = h ! (v - 1)" "raw_ok v u" using store_log_value [OF h(1) v(1) _ v(4)] v(2) g(2) len by simp_all
    ultimately show ?thesis using apply_canon by (metis canon_def ext)
  qed
qed

text \<open>C1. The monitors agree, under the same conditions, at one time and over time: a monitor now and the same or another
  monitor later. The services of the one that has committed less have applied an initial part of what those
  of the other have applied, so that nothing committed is ever lost or replaced, and where both have a
  committed version, it is the same transaction. The transaction of the first version also sets the oldest
  version, once more for each leader that proposed it again; the effect is the same.\<close>

theorem paxos_agreement:
  assumes n: "1 < n" "n \<le> 100" and now: "promises_kept c es (px_sys_init n)" "px_run c es (px_sys_init n) = Some s"
    and later: "promises_kept c es' s" "px_run c es' s = Some s'"
    and p: "i < n" "p = sys_nodes s ! i" and q: "j < n" "q = sys_nodes s' ! j"
  shows "(last_committed p \<le> last_committed q \<longrightarrow> (\<exists>xs. st_services (px_store q) = st_services (px_store p) @ xs)) \<and>
    (last_committed q \<le> last_committed p \<longrightarrow> (\<exists>xs. st_services (px_store p) = st_services (px_store q) @ xs)) \<and>
    (\<forall>v t u. 1 \<le> v \<and> v \<le> last_committed p \<and> v \<le> last_committed q \<and> map_of (st_versions (px_store p)) v = Some t \<and>
       map_of (st_versions (px_store q)) v = Some u \<longrightarrow> apply_txn t = apply_txn u \<and> (v \<noteq> 1 \<longrightarrow> t = u))"
proof -
  obtain V K A where inv: "ginv n ((!) (sys_nodes s)) (sys_net s) (map_of (sys_reigns s)) V K A"
    using sys_ok_reached [OF n now] by (auto simp: sys_ok_def)
  then have "sys_ok n V s" using sys_ok_reached [OF n now] by (auto simp: sys_ok_def)
  then have "sys_ok n V s'" by (rule sys_ok_run [OF n _ later])
  then obtain W L B where inv': "ginv n ((!) (sys_nodes s')) (sys_net s') (map_of (sys_reigns s')) W L B" and sub: "V \<subseteq> W"
    by (auto simp: sys_ok_def)
  then have votes: "votes_ok (quo n) (accs (summ ((!) (sys_nodes s')) (map_of (sys_reigns s')) W B)) W" by (simp add: ginv_def glob_ok_def)
  obtain g where g: "length g = last_committed p" "store_log (px_store p) g" "\<forall>k<length g. decided (quo n) V (k + 1) (g ! k)"
    using node_log [OF inv p(1)] p(2) by metis
  obtain h where h: "length h = last_committed q" "store_log (px_store q) h" "\<forall>k<length h. decided (quo n) W (k + 1) (h ! k)"
    using node_log [OF inv' q(1)] q(2) by metis
  have g': "\<forall>k<length g. decided (quo n) W (k + 1) (g ! k)" using g(3) decided_mono [OF _ sub] by blast
  have "g = take (length g) h" if "last_committed p \<le> last_committed q" using that logs_agree [OF votes g' h(3)] g(1) h(1) by simp
  note pq = store_log_agree [OF g(2,1) h(2,1) this]
  have "h = take (length h) g" if "last_committed q \<le> last_committed p" using that logs_agree [OF votes h(3) g'] g(1) h(1) by simp
  note qp = store_log_agree [OF h(2,1) g(2,1) this]
  have "apply_txn t = apply_txn u \<and> (v \<noteq> 1 \<longrightarrow> t = u)" if "1 \<le> v" "v \<le> last_committed p" "v \<le> last_committed q"
      "map_of (st_versions (px_store p)) v = Some t" "map_of (st_versions (px_store q)) v = Some u" for v t u
    using nat_le_linear [of "last_committed p" "last_committed q"]
  proof
    assume "last_committed p \<le> last_committed q"
    then show ?thesis using pq(2) that by blast
  next
    assume "last_committed q \<le> last_committed p"
    then show ?thesis using qp(2) [OF _ that(1,3,5,4)] by metis
  qed
  then show ?thesis using pq(1) qp(1) by blast
qed

subsection \<open>A run\<close>

definition sample_conf :: px_conf where
  "sample_conf = \<lparr>paxos_min = 500, paxos_trim_min = 250, paxos_trim_max = 500, mon_lease = 5, need_bootstrap = (\<lambda>_. False)\<rparr>"

text \<open>Three monitors. 0 leads, commits a first version and proposes a second one, which reaches 1 only; 1 restarts
  and so does 2, which has missed the first. Then 1 leads with 2: it finds the value it has stored, brings 2
  up to date and commits it.\<close>

definition first_reign :: "px_event list" where
  "first_reign = [
     Win 0 1 [0, 1, 2], Lose 1 1, Lose 2 1, Deliver 0 1, Deliver 0 2, Deliver 1 0, Deliver 2 0, Deliver 0 1, Deliver 0 2, Deliver 1 0,
     Deliver 2 0, AddPending 0 [7], TriggerPropose 0, Deliver 0 1, Deliver 0 2, Deliver 1 0, Deliver 2 0, Written 0, Deliver 0 1, Lost 0 2]"

definition second_reign :: "px_event list" where
  "second_reign = [
     AddPending 0 [8], TriggerPropose 0, Lost 0 1, Deliver 0 1, Crash 1 False, Crash 2 True, Bootstrap 0,
     Win 1 3 [1, 2], Lose 2 3, Deliver 1 2, Deliver 2 1, Deliver 1 2, Deliver 1 2, Deliver 2 1, Written 1, Deliver 1 2]"

theorem paxos_one_log_witness:
  "\<exists>s h. px_run sample_conf (first_reign @ second_reign) (px_sys_init 3) = Some s \<and> map last_committed (sys_nodes s) = [1, 2, 2] \<and>
     (\<forall>i<3. let p = sys_nodes s ! i; k = last_committed p in k \<le> length h \<and>
        st_services (px_store p) = st_services (replay (take k h)) \<and> first_committed p = st_first_committed (replay (take k h)) \<and>
        (\<forall>v t. 1 \<le> v \<and> v \<le> k \<and> map_of (st_versions (px_store p)) v = Some t \<longrightarrow> canon v t = h ! (v - 1)))"
proof -
  have kept: "promises_kept sample_conf (first_reign @ second_reign) (px_sys_init 3)" by code_simp
  have "map_option (\<lambda>s. map last_committed (sys_nodes s)) (px_run sample_conf (first_reign @ second_reign) (px_sys_init 3)) = Some [1, 2, 2]"
    by code_simp
  then obtain s where s: "px_run sample_conf (first_reign @ second_reign) (px_sys_init 3) = Some s" "map last_committed (sys_nodes s) = [1, 2, 2]"
    unfolding map_option_eq_Some by (elim exE conjE)
  have "1 < (3::nat)" "(3::nat) \<le> 100" by simp_all
  note log = paxos_one_log [OF this kept s(1)]
  show ?thesis using s log by (intro exI [of _ s]) simp
qed

theorem paxos_agreement_witness:
  "\<exists>s s'. px_run sample_conf first_reign (px_sys_init 3) = Some s \<and> px_run sample_conf second_reign s = Some s' \<and>
     last_committed (sys_nodes s ! 0) = 1 \<and> last_committed (sys_nodes s' ! 2) = 2 \<and>
     (\<exists>xs. st_services (px_store (sys_nodes s' ! 2)) = st_services (px_store (sys_nodes s ! 0)) @ xs)"
proof -
  have kept: "promises_kept sample_conf first_reign (px_sys_init 3)" by code_simp
  have "Option.bind (px_run sample_conf first_reign (px_sys_init 3)) (\<lambda>s. map_option (\<lambda>s'. (promises_kept sample_conf second_reign s,
      last_committed (sys_nodes s ! 0), last_committed (sys_nodes s' ! 2))) (px_run sample_conf second_reign s)) = Some (True, 1, 2)"
    by code_simp
  then obtain s s' where s: "px_run sample_conf first_reign (px_sys_init 3) = Some s" "px_run sample_conf second_reign s = Some s'"
    "promises_kept sample_conf second_reign s" "last_committed (sys_nodes s ! 0) = 1" "last_committed (sys_nodes s' ! 2) = 2"
    unfolding bind_eq_Some_conv map_option_eq_Some by blast
  have "(1::nat) < 3" "(3::nat) \<le> 100" "(0::nat) < 3" "(2::nat) < 3" by simp_all
  note agree = paxos_agreement [OF this(1,2) kept s(1) s(3,2) this(3) refl this(4) refl]
  then show ?thesis using s by simp
qed

end
