(* ===== verification/Paxos_Restart.thy ===== *)
theory Paxos_Restart
  imports Paxos_Agreement
begin

text \<open>
  Why the agreement of the monitors needs that restarts keep promises: a run in which a leader forgets its own
  promise, and two monitors commit different values for one version.
\<close>

subsection \<open>A forgotten promise\<close>

text \<open>Five monitors. The monitors 1 and 2 each lead, collect promises, store a value of their own for version 1
  under their number and restart: the store of 1 then says number 101 but not that 1 promised it, and the
  same for 2 with 302, which the monitor 3 has accepted. The monitor 0 can therefore collect the promises of
  1 and 2 with the number 100.\<close>

definition forget_1 :: "nat \<Rightarrow> px_event list" where
  "forget_1 x = [
     Win 2 1 [2, 3, 4], Bootstrap 2, Win 2 3 [2, 3, 4], Bootstrap 2,
     Win 1 5 [1, 3, 4], Lose 3 5, Lose 4 5, Deliver 1 3, Deliver 1 4, Deliver 3 1, Deliver 4 1,
     AddPending 1 [x], TriggerPropose 1, Crash 1 False, Bootstrap 3, Bootstrap 4,
     Lost 2 3, Lost 2 4, Lost 2 3, Lost 2 4, Lost 1 3, Lost 1 4, Lost 1 3, Lost 1 4]"

definition forget_2 :: "nat \<Rightarrow> px_event list" where
  "forget_2 y = [
     Win 2 7 [2, 3, 4], Lose 3 7, Lose 4 7, Deliver 2 3, Deliver 2 4, Deliver 3 2, Deliver 4 2,
     AddPending 2 [y], TriggerPropose 2, Lost 2 3, Deliver 2 3, Crash 2 False, Bootstrap 3, Bootstrap 4, Lost 3 2]"

text \<open>0 proposes what 2 had, with the lower number 100, and restarts. Leading again with the number 200 it finds
  that 1 has a value with 101, and commits that one.\<close>

definition commit_first :: "px_event list" where
  "commit_first = [
     Win 0 9 [0, 1, 2], Lose 1 9, Lose 2 9, Deliver 0 1, Deliver 0 2, Deliver 1 0, Deliver 2 0,
     Lost 0 1, Deliver 0 2, Lost 2 0, Crash 0 False, Bootstrap 1, Bootstrap 2,
     Win 0 11 [0, 1, 2], Lose 1 11, Lose 2 11, Deliver 0 1, Deliver 0 2, Deliver 1 0, Deliver 2 0,
     Deliver 0 1, Deliver 0 2, Deliver 1 0, Deliver 2 0, Written 0, Crash 0 False, Bootstrap 1, Bootstrap 2]"

text \<open>1 leads with 2 and 3. The value 3 has accepted has the number 302, higher than 200.\<close>

definition commit_second :: "px_event list" where
  "commit_second = [
     Win 1 13 [1, 2, 3], Lose 2 13, Lose 3 13, Deliver 1 2, Deliver 1 3, Deliver 2 1, Deliver 3 1,
     Deliver 1 2, Deliver 1 3, Deliver 2 1, Deliver 3 1, Deliver 1 2, Deliver 1 3, Deliver 2 1, Deliver 3 1, Written 1]"

text \<open>C39. Monitors that restart can commit different values for one version, whatever the values are: there is a run
  of five monitors, in which some monitor restarts although its store does not have the number it last accepted,
  at the end of which monitor 0 and monitor 1 have both committed version 1, the services of monitor 0 having
  applied \<open>x\<close> and those of monitor 1 \<open>y\<close>. The code stores the number a peer accepts but not the one a leader
  takes for itself, so that a leader which restarts may promise a lower number to another.\<close>

theorem paxos_diverges:
  "\<exists>es s. px_run sample_conf es (px_sys_init 5) = Some s \<and> \<not> promises_kept sample_conf es (px_sys_init 5) \<and>
     last_committed (sys_nodes s ! 0) = 1 \<and> st_services (px_store (sys_nodes s ! 0)) = [x] \<and>
     last_committed (sys_nodes s ! 1) = 1 \<and> st_services (px_store (sys_nodes s ! 1)) = [y]"
proof -
  let ?es = "forget_1 x @ forget_2 y @ commit_first @ commit_second"
  have "map_option (\<lambda>s. map (\<lambda>p. (last_committed p, st_services (px_store p))) (take 2 (sys_nodes s)))
     (px_run sample_conf ?es (px_sys_init 5)) = Some [(1, [x]), (1, [y])]" by code_simp
  then obtain s where s: "px_run sample_conf ?es (px_sys_init 5) = Some s"
    "map (\<lambda>p. (last_committed p, st_services (px_store p))) (take 2 (sys_nodes s)) = [(1, [x]), (1, [y])]"
    unfolding map_option_eq_Some by (elim exE conjE)
  from s(2) obtain p q r where "sys_nodes s = p # q # r"
    by (cases "sys_nodes s"; cases "tl (sys_nodes s)") auto
  moreover have "\<not> promises_kept sample_conf ?es (px_sys_init 5)" by code_simp
  ultimately show ?thesis using s by (intro exI [of _ ?es] exI [of _ s]) simp
qed

end
