(* ===== verification/Clean_Regions.thy ===== *)
theory Clean_Regions
  imports Interval_Set_Algebra
begin

text \<open>
  \<open>ObjectCleanRegions\<close> (\<open>src/osd/osd_types.cc\<close>): which bytes of an object an operation left alone. The clean
  offsets are an interval set of at most \<open>max_num_intervals\<close> ranges; beyond that the shortest range is given
  up, so that what is called clean always is. The byte at the very end of the 64-bit range is never clean.
\<close>

record clean_regions =
  new_object :: bool
  clean_omap :: bool
  clean_offsets :: interval_set

definition all_offsets :: "interval_set option" where
  "all_offsets = map_option fst (iset_insert empty_iset 0 (two64 - 1))"

definition ocr_default :: "clean_regions option" where
  "ocr_default = do { s \<leftarrow> all_offsets; Some \<lparr>new_object = False, clean_omap = True, clean_offsets = s\<rparr> }"

definition ocr_of_range :: "nat \<Rightarrow> nat \<Rightarrow> bool \<Rightarrow> clean_regions option" where
  "ocr_of_range off len co = do {
     (s, _, _) \<leftarrow> iset_insert empty_iset off len;
     Some \<lparr>new_object = False, clean_omap = co, clean_offsets = s\<rparr> }"

text \<open>The first of the shortest ranges.\<close>

fun shortest_from :: "ivs \<Rightarrow> nat \<Rightarrow> nat \<Rightarrow> nat \<Rightarrow> nat" where
  "shortest_from [] i best len = best"
| "shortest_from ((s, l) # m) i best len = (if l < len then shortest_from m (Suc i) i l else shortest_from m (Suc i) best len)"

definition shortest_ix :: "ivs \<Rightarrow> nat" where
  "shortest_ix m = shortest_from m 0 0 (snd (hd m))"

lemma shortest_from_less: "best < i + length m \<Longrightarrow> shortest_from m i best len < i + length m"
proof (induction m arbitrary: i best len)
  case (Cons p m)
  then show ?case using Cons.IH [of i "Suc i"] Cons.IH [of best "Suc i"] by (cases p) simp
qed simp

lemma shortest_ix_less: "m \<noteq> [] \<Longrightarrow> shortest_ix m < length m"
  using shortest_from_less [of 0 0 m] by (simp add: shortest_ix_def)

function ocr_trim_offsets :: "nat \<Rightarrow> interval_set \<Rightarrow> interval_set" where
  "ocr_trim_offsets mx s =
     (if iset_num_intervals s > mx \<and> iset_m s \<noteq> [] then ocr_trim_offsets mx (iset_erase_iter s (shortest_ix (iset_m s))) else s)"
  by auto
termination
proof (relation "measure (\<lambda>(mx, s). length (iset_m s))")
  fix mx s assume "iset_num_intervals s > mx \<and> iset_m s \<noteq> []"
  then have "shortest_ix (iset_m s) < length (iset_m s)" using shortest_ix_less by blast
  then show "((mx, iset_erase_iter s (shortest_ix (iset_m s))), (mx, s)) \<in> measure (\<lambda>(mx, s). length (iset_m s))"
    by (simp add: iset_erase_iter_def erase_at_def)
qed simp

declare ocr_trim_offsets.simps [simp del]

definition ocr_trim :: "nat \<Rightarrow> clean_regions \<Rightarrow> clean_regions" where
  "ocr_trim mx r = r\<lparr>clean_offsets := ocr_trim_offsets mx (clean_offsets r)\<rparr>"

definition ocr_merge :: "nat \<Rightarrow> clean_regions \<Rightarrow> clean_regions \<Rightarrow> clean_regions option" where
  "ocr_merge mx r other = do {
     s \<leftarrow> intersection_of (clean_offsets r) (clean_offsets other);
     Some (ocr_trim mx (r\<lparr>clean_offsets := s, clean_omap := clean_omap r \<and> clean_omap other\<rparr>)) }"

definition mark_data_region_dirty :: "nat \<Rightarrow> nat \<Rightarrow> nat \<Rightarrow> clean_regions \<Rightarrow> clean_regions option" where
  "mark_data_region_dirty mx off len r = do {
     region \<leftarrow> all_offsets;
     region \<leftarrow> iset_erase region off len;
     s \<leftarrow> intersection_of (clean_offsets r) region;
     Some (ocr_trim mx (r\<lparr>clean_offsets := s\<rparr>)) }"

definition mark_omap_dirty :: "clean_regions \<Rightarrow> clean_regions" where
  "mark_omap_dirty r = r\<lparr>clean_omap := False\<rparr>"

definition mark_object_new :: "clean_regions \<Rightarrow> clean_regions" where
  "mark_object_new r = r\<lparr>new_object := True\<rparr>"

definition ocr_mark_fully_dirty :: "nat \<Rightarrow> clean_regions \<Rightarrow> clean_regions option" where
  "ocr_mark_fully_dirty mx r = do {
     r \<leftarrow> mark_data_region_dirty mx 0 (two64 - 1) r;
     Some (mark_object_new (mark_omap_dirty r)) }"

definition get_dirty_regions :: "clean_regions \<Rightarrow> interval_set option" where
  "get_dirty_regions r = do { region \<leftarrow> all_offsets; subtract region (clean_offsets r) }"

definition omap_is_dirty :: "clean_regions \<Rightarrow> bool" where
  "omap_is_dirty r \<longleftrightarrow> \<not> clean_omap r"

definition object_is_exist :: "clean_regions \<Rightarrow> bool" where
  "object_is_exist r \<longleftrightarrow> \<not> new_object r"

subsection \<open>What is clean\<close>

definition ocr_inv :: "clean_regions \<Rightarrow> bool" where
  "ocr_inv r \<longleftrightarrow> iset_inv (clean_offsets r) \<and> elems (clean_offsets r) \<subseteq> {..<two64 - 1}"

definition clean_bytes :: "clean_regions \<Rightarrow> nat set" where
  "clean_bytes r = elems (clean_offsets r)"

lemma last_offset: "0 < two64 - 1" "0 + (two64 - 1) < two64"
  by (simp_all add: two64_def)

lemma all_offsets_ok: "\<exists>s. all_offsets = Some s \<and> iset_inv s \<and> elems s = {..<two64 - 1}"
proof -
  have "elems empty_iset \<inter> {0..<0 + (two64 - 1)} = {}" by simp
  then obtain r where r: "iset_insert empty_iset 0 (two64 - 1) = Some r" "inserted empty_iset 0 (two64 - 1) r"
    using iset_insert_ok [OF empty_iset_inv(1) last_offset] by blast
  then have "iset_inv (fst r) \<and> elems (fst r) = {..<two64 - 1}" by (cases r) (simp add: inserted_def atLeast0LessThan)
  moreover have "all_offsets = Some (fst r)" unfolding all_offsets_def r(1) by (rule option.map(2))
  ultimately show ?thesis by blast
qed

lemma erase_iter_ok:
  assumes inv: "iset_inv s" and i: "i < length (iset_m s)"
  shows "iset_inv (iset_erase_iter s i)" "elems (iset_erase_iter s i) \<subseteq> elems s"
proof -
  obtain xs p ys where m: "iset_m s = xs @ p # ys" "length xs = i" using i by (metis id_take_nth_drop length_take min.absorb4)
  have wf: "iv_wf (xs @ p # ys)" and sz: "iset_size s = sum_list (map snd (xs @ p # ys))" using inv m(1) by (simp_all add: iset_inv_def)
  then have wf': "iv_wf (xs @ ys)" by auto
  have "sum_list (map snd (xs @ p # ys)) < two64" by (rule sum_list_two64 [OF wf])
  then have "sub64 (iset_size s) (snd p) = sum_list (map snd (xs @ ys))" unfolding sz by (subst sub64_eq) simp_all
  then show "iset_inv (iset_erase_iter s i)" using wf' m by (simp add: iset_inv_def iset_erase_iter_def flip: m(2))
  show "elems (iset_erase_iter s i) \<subseteq> elems s" using m by (auto simp: iset_erase_iter_def elems_def simp flip: m(2))
qed

lemma trim_offsets_ok:
  "iset_inv s \<Longrightarrow> iset_inv (ocr_trim_offsets mx s) \<and> elems (ocr_trim_offsets mx s) \<subseteq> elems s \<and>
     iset_num_intervals (ocr_trim_offsets mx s) \<le> mx \<and> (iset_num_intervals s \<le> mx \<longrightarrow> ocr_trim_offsets mx s = s)"
proof (induction mx s rule: ocr_trim_offsets.induct)
  case (1 mx s)
  show ?case
  proof (cases "iset_num_intervals s > mx \<and> iset_m s \<noteq> []")
    case True
    then have "shortest_ix (iset_m s) < length (iset_m s)" using shortest_ix_less by blast
    note er = erase_iter_ok [OF 1(2) this]
    show ?thesis using 1(1) [OF True er(1)] er(2) True by (subst (1 2 3 4) ocr_trim_offsets.simps) auto
  next
    case False
    then show ?thesis using 1(2) by (subst (1 2 3 4) ocr_trim_offsets.simps) (auto simp: iset_num_intervals_def)
  qed
qed

text \<open>Every operation keeps the invariant and succeeds where its range is one of the object.\<close>

lemma ocr_trim_ok:
  "ocr_inv r \<Longrightarrow> ocr_inv (ocr_trim mx r) \<and> clean_bytes (ocr_trim mx r) \<subseteq> clean_bytes r \<and>
     iset_num_intervals (clean_offsets (ocr_trim mx r)) \<le> mx \<and> new_object (ocr_trim mx r) = new_object r \<and>
     clean_omap (ocr_trim mx r) = clean_omap r"
  using trim_offsets_ok [of "clean_offsets r" mx] by (auto simp: ocr_inv_def ocr_trim_def clean_bytes_def)

lemma ocr_default_ok:
  "\<exists>r. ocr_default = Some r \<and> ocr_inv r \<and> clean_bytes r = {..<two64 - 1} \<and> clean_omap r \<and> \<not> new_object r"
proof -
  obtain s where s: "all_offsets = Some s" "iset_inv s" "elems s = {..<two64 - 1}" using all_offsets_ok by blast
  let ?r = "\<lparr>new_object = False, clean_omap = True, clean_offsets = s\<rparr>"
  have "ocr_default = Some ?r" by (simp add: ocr_default_def s(1))
  moreover have "ocr_inv ?r" "clean_bytes ?r = {..<two64 - 1}" using s by (simp_all add: ocr_inv_def clean_bytes_def)
  ultimately show ?thesis by fastforce
qed

lemma ocr_merge_ok:
  assumes "ocr_inv r" and "ocr_inv other"
  shows "\<exists>r'. ocr_merge mx r other = Some r' \<and> ocr_inv r' \<and> clean_bytes r' \<subseteq> clean_bytes r \<inter> clean_bytes other \<and>
    clean_omap r' = (clean_omap r \<and> clean_omap other) \<and> new_object r' = new_object r"
proof -
  obtain s where s: "intersection_of (clean_offsets r) (clean_offsets other) = Some s" "iset_inv s"
    "elems s = elems (clean_offsets r) \<inter> elems (clean_offsets other)"
    using intersection_of_ok assms unfolding ocr_inv_def by blast
  let ?r = "r\<lparr>clean_offsets := s, clean_omap := clean_omap r \<and> clean_omap other\<rparr>"
  have "ocr_inv ?r" using s assms by (auto simp: ocr_inv_def)
  note t = ocr_trim_ok [OF this, of mx]
  have "ocr_merge mx r other = Some (ocr_trim mx ?r)" by (simp add: ocr_merge_def s(1))
  moreover have "clean_bytes ?r = clean_bytes r \<inter> clean_bytes other" using s(3) by (simp add: clean_bytes_def)
  ultimately show ?thesis using t by fastforce
qed

lemma mark_data_region_dirty_exact:
  assumes "ocr_inv r" and "0 < len" and "off + len < two64"
  obtains r' where "mark_data_region_dirty mx off len r = Some (ocr_trim mx r')" and "ocr_inv r'"
    and "clean_bytes r' = clean_bytes r - {off..<off + len}" and "clean_omap r' = clean_omap r" and "new_object r' = new_object r"
proof -
  obtain a where a: "all_offsets = Some a" "iset_inv a" "elems a = {..<two64 - 1}" using all_offsets_ok by blast
  have "x < two64 - 1" if "x < off + len" for x using that assms(3) by linarith
  then have "{off..<off + len} \<subseteq> elems a" unfolding a(3) by (simp add: subset_iff)
  then obtain b where b: "iset_erase a off len = Some b" "iset_inv b" "elems b = elems a - {off..<off + len}"
    using iset_erase_ok [OF a(2) assms(2)] by blast
  obtain s where s: "intersection_of (clean_offsets r) b = Some s" "iset_inv s" "elems s = elems (clean_offsets r) \<inter> elems b"
    using intersection_of_ok b(2) assms(1) unfolding ocr_inv_def by blast
  let ?r = "r\<lparr>clean_offsets := s\<rparr>"
  have "ocr_inv ?r" using s assms(1) by (auto simp: ocr_inv_def)
  moreover have "mark_data_region_dirty mx off len r = Some (ocr_trim mx ?r)" by (simp add: mark_data_region_dirty_def a(1) b(1) s(1))
  moreover have "clean_bytes ?r = clean_bytes r - {off..<off + len}" using s(3) b(3) a(3) assms(1) by (auto simp: clean_bytes_def ocr_inv_def)
  ultimately show ?thesis by (intro that [of ?r]) simp_all
qed

lemma mark_data_region_dirty_ok:
  assumes "ocr_inv r" and "0 < len" and "off + len < two64"
  shows "\<exists>r'. mark_data_region_dirty mx off len r = Some r' \<and> ocr_inv r' \<and> clean_bytes r' \<subseteq> clean_bytes r - {off..<off + len} \<and>
    clean_omap r' = clean_omap r \<and> new_object r' = new_object r"
proof -
  obtain r' where "mark_data_region_dirty mx off len r = Some (ocr_trim mx r')" "ocr_inv r'" "clean_bytes r' = clean_bytes r - {off..<off + len}"
    "clean_omap r' = clean_omap r" "new_object r' = new_object r" by (rule mark_data_region_dirty_exact [OF assms])
  then show ?thesis using ocr_trim_ok [of r' mx] by simp
qed

lemma mark_fully_dirty_ok:
  assumes "ocr_inv r"
  shows "\<exists>r'. ocr_mark_fully_dirty mx r = Some r' \<and> ocr_inv r' \<and> clean_bytes r' = {} \<and> \<not> clean_omap r' \<and> new_object r'"
proof -
  obtain r1 where r1: "mark_data_region_dirty mx 0 (two64 - 1) r = Some r1" "ocr_inv r1" "clean_bytes r1 \<subseteq> clean_bytes r - {0..<0 + (two64 - 1)}"
    using mark_data_region_dirty_ok [OF assms last_offset] by blast
  have "clean_bytes r \<subseteq> {..<two64 - 1}" using assms by (auto simp: ocr_inv_def clean_bytes_def)
  then have "clean_bytes r1 = {}" using r1(3) by (fastforce simp: atLeast0LessThan)
  then show ?thesis using r1(1,2)
    by (simp add: ocr_mark_fully_dirty_def mark_omap_dirty_def mark_object_new_def ocr_inv_def clean_bytes_def)
qed

lemma dirty_regions_ok:
  assumes "ocr_inv r"
  shows "\<exists>s. get_dirty_regions r = Some s \<and> iset_inv s \<and> elems s = {..<two64 - 1} - clean_bytes r"
proof -
  obtain a where a: "all_offsets = Some a" "iset_inv a" "elems a = {..<two64 - 1}" using all_offsets_ok by blast
  have "iv_wf (iset_m (clean_offsets r))" "elems_of (iset_m (clean_offsets r)) \<subseteq> elems a"
    using assms a(3) by (simp_all add: ocr_inv_def iset_inv_def flip: elems_def)
  from erase_all_ok [OF a(2) this] obtain s where
    "erase_all a (iset_m (clean_offsets r)) = Some s" "iset_inv s" "elems s = elems a - elems_of (iset_m (clean_offsets r))" by blast
  then show ?thesis by (simp add: get_dirty_regions_def subtract_def clean_bytes_def a(1,3) flip: elems_def)
qed

subsection \<open>Evaluation\<close>

text \<open>The two values that every new item is made of.\<close>

lemma last_offset_val: "two64 - 1 = 18446744073709551615"
  by (simp add: two64_def)

lemma all_offsets_val [code]: "all_offsets = Some \<lparr>iset_size = 18446744073709551615, iset_m = [(0, 18446744073709551615)]\<rparr>"
  unfolding all_offsets_def last_offset_val
  by (simp add: iset_insert_def empty_iset_def find_adj_def lower_bound_ix_def u64_simps two64_def)

lemma erase_all_offsets:
  "iset_erase \<lparr>iset_size = 18446744073709551615, iset_m = [(0, 18446744073709551615)]\<rparr> 0 18446744073709551615 = Some empty_iset"
  by (simp add: iset_erase_def iset_erase_claim_def empty_iset_def find_inc_def lower_bound_ix_def u64_simps two64_def erase_at_def)

lemma mark_fully_dirty_val [code]:
  "ocr_mark_fully_dirty mx r = Some \<lparr>new_object = True, clean_omap = False, clean_offsets = empty_iset\<rparr>"
proof -
  have "mark_data_region_dirty mx 0 18446744073709551615 r = Some (r\<lparr>clean_offsets := empty_iset\<rparr>)"
    by (simp add: mark_data_region_dirty_def all_offsets_val erase_all_offsets intersection_of_def empty_iset_def ocr_trim_def
        ocr_trim_offsets.simps)
  then show ?thesis unfolding ocr_mark_fully_dirty_def last_offset_val by (simp add: mark_omap_dirty_def mark_object_new_def)
qed

subsection \<open>What is dirty\<close>

lemma trim_exact: "iset_num_intervals (clean_offsets r) \<le> mx \<Longrightarrow> ocr_inv r \<Longrightarrow> ocr_trim mx r = r"
  using trim_offsets_ok [of "clean_offsets r" mx] by (simp add: ocr_trim_def ocr_inv_def)

text \<open>After \<open>ObjectCleanRegions::mark_data_region_dirty\<close> the dirty regions have every byte that was dirty and every byte of the
  range, and the clean ones are at most \<open>max_num_intervals\<close> ranges. No other byte is called dirty when the clean bytes
  that are left form no more ranges than that.\<close>

theorem clean_regions_dirty:
  assumes "ocr_inv r" and "0 < len" and "off + len < two64"
  shows "\<exists>r' d d'. mark_data_region_dirty mx off len r = Some r' \<and> get_dirty_regions r = Some d \<and> get_dirty_regions r' = Some d' \<and>
    ocr_inv r' \<and> elems d \<union> {off..<off + len} \<subseteq> elems d' \<and> iset_num_intervals (clean_offsets r') \<le> mx \<and>
    (\<forall>s. iset_inv s \<and> elems s = clean_bytes r - {off..<off + len} \<and> iset_num_intervals s \<le> mx \<longrightarrow>
       elems d' = elems d \<union> {off..<off + len})"
proof -
  obtain r' where r': "mark_data_region_dirty mx off len r = Some (ocr_trim mx r')" "ocr_inv r'" "clean_bytes r' = clean_bytes r - {off..<off + len}"
    by (rule mark_data_region_dirty_exact [OF assms])
  note t = ocr_trim_ok [OF r'(2), of mx]
  obtain d d' where d: "get_dirty_regions r = Some d" "elems d = {..<two64 - 1} - clean_bytes r"
    "get_dirty_regions (ocr_trim mx r') = Some d'" "elems d' = {..<two64 - 1} - clean_bytes (ocr_trim mx r')"
    using dirty_regions_ok [OF assms(1)] dirty_regions_ok [of "ocr_trim mx r'"] t by metis
  have in_range: "{off..<off + len} \<subseteq> {..<two64 - 1}" using assms(3) by auto
  have "elems d \<union> {off..<off + len} \<subseteq> elems d'" using t r'(3) in_range unfolding d(2,4) by blast
  moreover have "elems d' = elems d \<union> {off..<off + len}" if s: "iset_inv s" "elems s = clean_bytes r - {off..<off + len}" "iset_num_intervals s \<le> mx" for s
  proof -
    have "iset_m s = iset_m (clean_offsets r')"
      using s(1,2) r'(2,3) by (intro iv_wf_unique) (simp_all add: iset_inv_def ocr_inv_def clean_bytes_def elems_def)
    then have "ocr_trim mx r' = r'" using s(3) r'(2) by (intro trim_exact) (simp_all add: iset_num_intervals_def)
    then show ?thesis using r'(3) in_range unfolding d(2,4) by auto
  qed
  ultimately show ?thesis using r'(1) d t by blast
qed

theorem clean_regions_dirty_witness:
  "\<exists>r r' d'. ocr_default = Some r \<and> mark_data_region_dirty 1 4096 512 r = Some r' \<and> get_dirty_regions r' = Some d' \<and>
     {4096..<4608} \<subseteq> elems d' \<and> iset_num_intervals (clean_offsets r') \<le> 1"
proof -
  obtain r where r: "ocr_default = Some r" "ocr_inv r" using ocr_default_ok by blast
  have "0 < (512::nat)" "4096 + 512 < two64" by (simp_all add: two64_def)
  from clean_regions_dirty [OF r(2) this, of 1] show ?thesis using r(1) by fastforce
qed

end
