(* ===== verification/Pg_Missing.thy ===== *)
theory Pg_Missing
  imports Clean_Regions
begin

text \<open>
  Log entries of a placement group and the set of objects it is missing (\<open>src/osd/osd_types.h\<close>). An \<open>eversion_t\<close>
  is an epoch and a version, ordered by the epoch first. Objects (\<open>hobject_t\<close>) enter through their order and,
  when a placement group splits, through their hash, so that they are a type variable here.

  A missing item says which version of an object is needed, which one is stored (\<open>0'0\<close> for none or an unusable
  one) and which bytes of that version are still good. \<open>rmissing\<close> is the index from the version number needed to the object.
  Every operation that touches the clean bytes may abort in the interval set, so that it returns an option.
  Parts of an entry that the log only carries along (\<open>snaps\<close>, \<open>mtime\<close>, \<open>op_returns\<close>, \<open>reverting_to\<close> and what \<open>mod_desc\<close> says besides
  \<open>can_rollback\<close>) are left out.
\<close>

subsection \<open>Versions\<close>

datatype eversion = EV (epoch: nat) (vers: nat)

instantiation eversion :: linorder
begin

definition less_eq_eversion :: "eversion \<Rightarrow> eversion \<Rightarrow> bool" where
  "less_eq_eversion l r \<longleftrightarrow> (if epoch l = epoch r then vers l \<le> vers r else epoch l \<le> epoch r)"

definition less_eversion :: "eversion \<Rightarrow> eversion \<Rightarrow> bool" where
  "less_eversion l r \<longleftrightarrow> (if epoch l = epoch r then vers l < vers r else epoch l < epoch r)"

instance
  by standard (auto simp: less_eq_eversion_def less_eversion_def intro: eversion.expand split: if_splits)

end

definition ev0 :: eversion where
  "ev0 = EV 0 0"

definition ev_max :: eversion where
  "ev_max = EV (two32 - 1) (two64 - 1)"

lemma ev0_least [simp]: "ev0 \<le> v"
  by (simp add: ev0_def less_eq_eversion_def)

lemma not_less_ev0 [simp]: "\<not> v < ev0"
  using ev0_least [of v] leD by blast

subsection \<open>Log entries\<close>

datatype log_op = MODIFY | CLONE | DELETE | LOST_REVERT | LOST_DELETE | LOST_MARK | PROMOTE | CLEAN | ERROR

type_synonym osd_reqid = "nat \<times> nat \<times> nat"

definition no_reqid :: osd_reqid where
  "no_reqid = (0, 0, 0)"

record 'h pg_log_entry =
  le_op :: log_op
  le_soid :: 'h
  le_version :: eversion
  le_prior_version :: eversion
  le_can_rollback :: bool
  le_clean_regions :: clean_regions
  le_reqid :: osd_reqid
  le_extra_reqids :: "(osd_reqid \<times> nat) list"
  le_extra_return_codes :: "(nat, int) smap"
  le_user_version :: nat
  le_return_code :: int

definition is_clone :: "'h pg_log_entry \<Rightarrow> bool" where
  "is_clone e \<longleftrightarrow> le_op e = CLONE"

definition is_lost_revert :: "'h pg_log_entry \<Rightarrow> bool" where
  "is_lost_revert e \<longleftrightarrow> le_op e = LOST_REVERT"

definition is_lost_delete :: "'h pg_log_entry \<Rightarrow> bool" where
  "is_lost_delete e \<longleftrightarrow> le_op e = LOST_DELETE"

definition is_error :: "'h pg_log_entry \<Rightarrow> bool" where
  "is_error e \<longleftrightarrow> le_op e = ERROR"

definition is_delete :: "'h pg_log_entry \<Rightarrow> bool" where
  "is_delete e \<longleftrightarrow> le_op e = DELETE \<or> le_op e = LOST_DELETE"

definition is_update :: "'h pg_log_entry \<Rightarrow> bool" where
  "is_update e \<longleftrightarrow> le_op e \<in> {CLONE, MODIFY, PROMOTE, CLEAN, LOST_REVERT, LOST_MARK}"

definition object_is_indexed :: "'h pg_log_entry \<Rightarrow> bool" where
  "object_is_indexed e \<longleftrightarrow> \<not> is_error e"

definition reqid_is_indexed :: "'h pg_log_entry \<Rightarrow> bool" where
  "reqid_is_indexed e \<longleftrightarrow> le_reqid e \<noteq> no_reqid \<and> le_op e \<in> {MODIFY, DELETE, ERROR}"

lemma update_delete_error: "is_update e \<longleftrightarrow> \<not> is_delete e \<and> \<not> is_error e"
  by (cases "le_op e") (simp_all add: is_update_def is_delete_def is_error_def)

subsection \<open>The missing set\<close>

record pg_missing_item =
  mi_need :: eversion
  mi_have :: eversion
  mi_clean :: clean_regions
  mi_delete :: bool

record 'h pg_missing_set =
  missing :: "('h, pg_missing_item) smap"
  rmissing :: "(nat, 'h) smap"
  may_include_deletes :: bool
  changed :: "'h list"

definition missing_item :: "eversion \<Rightarrow> eversion \<Rightarrow> bool \<Rightarrow> pg_missing_item option" where
  "missing_item n h d = do { c \<leftarrow> ocr_default; Some \<lparr>mi_need = n, mi_have = h, mi_clean = c, mi_delete = d\<rparr> }"

definition item_fully_dirty :: "nat \<Rightarrow> pg_missing_item \<Rightarrow> pg_missing_item option" where
  "item_fully_dirty mx it = do { c \<leftarrow> ocr_mark_fully_dirty mx (mi_clean it); Some (it\<lparr>mi_clean := c\<rparr>) }"

definition tracker_changed :: "'h \<Rightarrow> 'h pg_missing_set \<Rightarrow> 'h pg_missing_set" where
  "tracker_changed h ms = ms\<lparr>changed := List.insert h (changed ms)\<rparr>"

definition num_missing :: "'h pg_missing_set \<Rightarrow> nat" where
  "num_missing ms = length (missing ms)"

definition have_missing :: "'h pg_missing_set \<Rightarrow> bool" where
  "have_missing ms \<longleftrightarrow> missing ms \<noteq> []"

definition is_missing :: "'h \<Rightarrow> 'h pg_missing_set \<Rightarrow> bool" where
  "is_missing h ms \<longleftrightarrow> map_of (missing ms) h \<noteq> None"

definition is_missing_at :: "'h \<Rightarrow> eversion \<Rightarrow> 'h pg_missing_set \<Rightarrow> bool" where
  "is_missing_at h v ms = (case map_of (missing ms) h of None \<Rightarrow> False | Some it \<Rightarrow> \<not> mi_need it > v)"

text \<open>An empty \<open>rmissing\<close> beside a non-empty \<open>missing\<close> is read past its end; the assertion that follows the lookup is the
  second way to stop.\<close>

definition get_oldest_need :: "'h pg_missing_set \<Rightarrow> eversion option" where
  "get_oldest_need ms =
     (if missing ms = [] then Some ev0
      else case rmissing ms of [] \<Rightarrow> None
        | (v, h) # _ \<Rightarrow> map_option mi_need (map_of (missing ms) h))"

definition missing_merge :: "nat \<Rightarrow> 'h::linorder pg_log_entry \<Rightarrow> 'h pg_missing_set \<Rightarrow> 'h pg_missing_set option" where
  "missing_merge mx e ms = (case map_of (missing ms) (le_soid e) of
       None \<Rightarrow> Some ms
     | Some it \<Rightarrow>
         if mi_have it \<noteq> ev0 \<and> le_version e > mi_have it then do {
           c \<leftarrow> ocr_merge mx (mi_clean it) (le_clean_regions e);
           Some (ms\<lparr>missing := smap_put (le_soid e) (it\<lparr>mi_clean := c\<rparr>) (missing ms)\<rparr>) }
         else Some ms)"

definition event_clean :: "nat \<Rightarrow> 'h pg_log_entry \<Rightarrow> pg_missing_item \<Rightarrow> pg_missing_item option" where
  "event_clean mx e it =
     (if is_lost_revert e then item_fully_dirty mx it
      else do { c \<leftarrow> ocr_merge mx (mi_clean it) (le_clean_regions e); Some (it\<lparr>mi_clean := c\<rparr>) })"

definition add_next_event :: "nat \<Rightarrow> 'h::linorder pg_log_entry \<Rightarrow> 'h pg_missing_set \<Rightarrow> 'h pg_missing_set option" where
  "add_next_event mx e ms = do {
     let old = map_of (missing ms) (le_soid e);
     it \<leftarrow> (if le_prior_version e = ev0 \<or> is_clone e then do {
              it \<leftarrow> missing_item (le_version e) ev0 (is_delete e); item_fully_dirty mx it }
           else case old of
             Some it \<Rightarrow> event_clean mx e (it\<lparr>mi_need := le_version e, mi_delete := is_delete e\<rparr>)
           | None \<Rightarrow> do {
               it \<leftarrow> missing_item (le_version e) (le_prior_version e) (is_delete e);
               if is_lost_revert e then item_fully_dirty mx it else Some (it\<lparr>mi_clean := le_clean_regions e\<rparr>) });
     let r = (case old of Some o' \<Rightarrow> smap_del (vers (mi_need o')) (rmissing ms) | None \<Rightarrow> rmissing ms);
     Some (tracker_changed (le_soid e) (ms\<lparr>missing := smap_put (le_soid e) it (missing ms),
       rmissing := smap_put (vers (le_version e)) (le_soid e) r\<rparr>)) }"

definition revise_need :: "nat \<Rightarrow> 'h::linorder \<Rightarrow> eversion \<Rightarrow> bool \<Rightarrow> 'h pg_missing_set \<Rightarrow> 'h pg_missing_set option" where
  "revise_need mx h n d ms = do {
     let old = map_of (missing ms) h;
     it \<leftarrow> (case old of Some it \<Rightarrow> Some (it\<lparr>mi_need := n, mi_delete := d\<rparr>) | None \<Rightarrow> missing_item n ev0 d);
     it \<leftarrow> item_fully_dirty mx it;
     let r = (case old of Some o' \<Rightarrow> smap_del (vers (mi_need o')) (rmissing ms) | None \<Rightarrow> rmissing ms);
     Some (tracker_changed h (ms\<lparr>missing := smap_put h it (missing ms), rmissing := smap_put (vers n) h r\<rparr>)) }"

definition revise_have :: "'h::linorder \<Rightarrow> eversion \<Rightarrow> 'h pg_missing_set \<Rightarrow> 'h pg_missing_set" where
  "revise_have h v ms = (case map_of (missing ms) h of
       None \<Rightarrow> ms
     | Some it \<Rightarrow> tracker_changed h (ms\<lparr>missing := smap_put h (it\<lparr>mi_have := v\<rparr>) (missing ms)\<rparr>))"

definition missing_mark_fully_dirty :: "nat \<Rightarrow> 'h::linorder \<Rightarrow> 'h pg_missing_set \<Rightarrow> 'h pg_missing_set option" where
  "missing_mark_fully_dirty mx h ms = (case map_of (missing ms) h of
       None \<Rightarrow> Some ms
     | Some it \<Rightarrow> do {
         it \<leftarrow> item_fully_dirty mx it;
         Some (tracker_changed h (ms\<lparr>missing := smap_put h it (missing ms)\<rparr>)) })"

definition missing_add :: "nat \<Rightarrow> 'h::linorder \<Rightarrow> eversion \<Rightarrow> eversion \<Rightarrow> bool \<Rightarrow> 'h pg_missing_set \<Rightarrow> 'h pg_missing_set option" where
  "missing_add mx h n hv d ms = do {
     it \<leftarrow> missing_item n hv d;
     it \<leftarrow> item_fully_dirty mx it;
     Some (tracker_changed h (ms\<lparr>missing := smap_put h it (missing ms), rmissing := smap_put (vers n) h (rmissing ms)\<rparr>)) }"

definition missing_add_item :: "'h::linorder \<Rightarrow> pg_missing_item \<Rightarrow> 'h pg_missing_set \<Rightarrow> 'h pg_missing_set" where
  "missing_add_item h it ms =
     tracker_changed h (ms\<lparr>rmissing := smap_put (vers (mi_need it)) h (rmissing ms), missing := smap_emplace h it (missing ms)\<rparr>)"

definition missing_rm_iter :: "'h \<Rightarrow> pg_missing_item \<Rightarrow> 'h pg_missing_set \<Rightarrow> 'h pg_missing_set" where
  "missing_rm_iter h it ms =
     (tracker_changed h ms)\<lparr>rmissing := smap_del (vers (mi_need it)) (rmissing ms), missing := smap_del h (missing ms)\<rparr>"

definition missing_rm :: "'h \<Rightarrow> eversion \<Rightarrow> 'h pg_missing_set \<Rightarrow> 'h pg_missing_set" where
  "missing_rm h v ms = (case map_of (missing ms) h of
       None \<Rightarrow> ms
     | Some it \<Rightarrow> if mi_need it \<le> v then missing_rm_iter h it ms else ms)"

definition missing_got :: "'h \<Rightarrow> eversion \<Rightarrow> 'h pg_missing_set \<Rightarrow> 'h pg_missing_set option" where
  "missing_got h v ms = do {
     it \<leftarrow> map_of (missing ms) h;
     ensure (mi_need it \<le> v \<or> mi_delete it);
     Some (missing_rm_iter h it ms) }"

text \<open>\<open>get_hash\<close> of an object is a parameter; the mask keeps the low \<open>bits\<close> bits.\<close>

fun missing_split_items :: "nat \<Rightarrow> ('h::linorder \<Rightarrow> nat) \<Rightarrow> nat \<Rightarrow> nat \<Rightarrow> ('h \<times> pg_missing_item) list \<Rightarrow>
    'h pg_missing_set \<Rightarrow> 'h pg_missing_set \<Rightarrow> ('h pg_missing_set \<times> 'h pg_missing_set) option" where
  "missing_split_items mx hash bits seed [] ms oms = Some (ms, oms)"
| "missing_split_items mx hash bits seed ((h, it) # its) ms oms =
     (if hash h mod 2 ^ bits = seed then do {
        oms \<leftarrow> missing_add mx h (mi_need it) (mi_have it) (mi_delete it) oms;
        missing_split_items mx hash bits seed its (missing_rm_iter h it ms) oms }
      else missing_split_items mx hash bits seed its ms oms)"

definition missing_split_into :: "nat \<Rightarrow> ('h::linorder \<Rightarrow> nat) \<Rightarrow> nat \<Rightarrow> nat \<Rightarrow> 'h pg_missing_set \<Rightarrow> 'h pg_missing_set \<Rightarrow>
    ('h pg_missing_set \<times> 'h pg_missing_set) option" where
  "missing_split_into mx hash seed bits ms oms =
     missing_split_items mx hash bits seed (missing ms) ms (oms\<lparr>may_include_deletes := may_include_deletes ms\<rparr>)"

definition missing_clear :: "'h pg_missing_set \<Rightarrow> 'h pg_missing_set" where
  "missing_clear ms = ms\<lparr>changed := fold (\<lambda>p. List.insert (fst p)) (missing ms) (changed ms), missing := [], rmissing := []\<rparr>"

definition missing_flush :: "'h pg_missing_set \<Rightarrow> 'h pg_missing_set" where
  "missing_flush ms = ms\<lparr>changed := []\<rparr>"

subsection \<open>Invariant and lookups\<close>

definition missing_inv :: "'h::linorder pg_missing_set \<Rightarrow> bool" where
  "missing_inv ms \<longleftrightarrow> smap_wf (missing ms) \<and> smap_wf (rmissing ms) \<and> (\<forall>p\<in>set (missing ms). ocr_inv (mi_clean (snd p)))"

abbreviation item_of :: "'h pg_missing_set \<Rightarrow> 'h \<Rightarrow> pg_missing_item option" where
  "item_of ms \<equiv> map_of (missing ms)"

lemma missing_inv_alt:
  "missing_inv ms \<longleftrightarrow> smap_wf (missing ms) \<and> smap_wf (rmissing ms) \<and> (\<forall>h it. item_of ms h = Some it \<longrightarrow> ocr_inv (mi_clean it))"
  unfolding missing_inv_def by (fastforce simp: map_of_smap_Some)

lemma tracker_changed_simps [simp]:
  "missing (tracker_changed h ms) = missing ms" "rmissing (tracker_changed h ms) = rmissing ms"
  "may_include_deletes (tracker_changed h ms) = may_include_deletes ms"
  by (simp_all add: tracker_changed_def)

lemma is_missing_iff: "is_missing h ms \<longleftrightarrow> (\<exists>it. item_of ms h = Some it)"
  by (simp add: is_missing_def)

lemma missing_item_ok:
  "\<exists>it. missing_item n h d = Some it \<and> mi_need it = n \<and> mi_have it = h \<and> mi_delete it = d \<and> ocr_inv (mi_clean it)"
proof -
  obtain c where c: "ocr_default = Some c" "ocr_inv c" using ocr_default_ok by blast
  show ?thesis unfolding missing_item_def c(1) using c(2) by simp
qed

lemma item_fully_dirty_ok:
  assumes "ocr_inv (mi_clean it)"
  shows "\<exists>it'. item_fully_dirty mx it = Some it' \<and> mi_need it' = mi_need it \<and> mi_have it' = mi_have it \<and>
    mi_delete it' = mi_delete it \<and> ocr_inv (mi_clean it') \<and> clean_bytes (mi_clean it') = {}"
proof -
  obtain c where "ocr_mark_fully_dirty mx (mi_clean it) = Some c" "ocr_inv c" "clean_bytes c = {}"
    using mark_fully_dirty_ok [OF assms] by blast
  then show ?thesis by (simp add: item_fully_dirty_def)
qed

lemma fresh_item_ok:
  "\<exists>it. do { it \<leftarrow> missing_item n h d; item_fully_dirty mx it } = Some it \<and> mi_need it = n \<and> mi_have it = h \<and>
     mi_delete it = d \<and> ocr_inv (mi_clean it) \<and> clean_bytes (mi_clean it) = {}"
proof -
  obtain it where it: "missing_item n h d = Some it" "mi_need it = n" "mi_have it = h" "mi_delete it = d" "ocr_inv (mi_clean it)"
    using missing_item_ok by blast
  then show ?thesis using item_fully_dirty_ok [OF it(5)] by simp
qed

lemma event_clean_ok:
  assumes "ocr_inv (mi_clean it)" and "ocr_inv (le_clean_regions e)"
  shows "\<exists>it'. event_clean mx e it = Some it' \<and> mi_need it' = mi_need it \<and> mi_have it' = mi_have it \<and>
    mi_delete it' = mi_delete it \<and> ocr_inv (mi_clean it') \<and>
    clean_bytes (mi_clean it') \<subseteq> clean_bytes (mi_clean it) \<inter> (if is_lost_revert e then {} else clean_bytes (le_clean_regions e))"
proof (cases "is_lost_revert e")
  case True
  then show ?thesis using item_fully_dirty_ok [OF assms(1)] by (auto simp: event_clean_def)
next
  case False
  obtain c where "ocr_merge mx (mi_clean it) (le_clean_regions e) = Some c" "ocr_inv c"
    "clean_bytes c \<subseteq> clean_bytes (mi_clean it) \<inter> clean_bytes (le_clean_regions e)" using ocr_merge_ok [OF assms] by blast
  then show ?thesis using False by (simp add: event_clean_def)
qed

text \<open>What an entry makes of the item of its object.\<close>

definition next_item :: "'h pg_log_entry \<Rightarrow> pg_missing_item option \<Rightarrow> pg_missing_item \<Rightarrow> bool" where
  "next_item e old it \<longleftrightarrow> mi_need it = le_version e \<and> mi_delete it = is_delete e \<and>
     mi_have it = (if le_prior_version e = ev0 \<or> is_clone e then ev0
                   else case old of None \<Rightarrow> le_prior_version e | Some o' \<Rightarrow> mi_have o') \<and>
     ocr_inv (mi_clean it) \<and>
     clean_bytes (mi_clean it) \<subseteq> (if le_prior_version e = ev0 \<or> is_clone e \<or> is_lost_revert e then {} else clean_bytes (le_clean_regions e)) \<and>
     (\<forall>o'. old = Some o' \<longrightarrow> clean_bytes (mi_clean it) \<subseteq> clean_bytes (mi_clean o'))"

lemma next_item_exists:
  assumes "ocr_inv (le_clean_regions e)" and "\<forall>o'. old = Some o' \<longrightarrow> ocr_inv (mi_clean o')"
  shows "\<exists>it. (if le_prior_version e = ev0 \<or> is_clone e then do {
              it \<leftarrow> missing_item (le_version e) ev0 (is_delete e); item_fully_dirty mx it }
           else case old of
             Some it \<Rightarrow> event_clean mx e (it\<lparr>mi_need := le_version e, mi_delete := is_delete e\<rparr>)
           | None \<Rightarrow> do {
               it \<leftarrow> missing_item (le_version e) (le_prior_version e) (is_delete e);
               if is_lost_revert e then item_fully_dirty mx it else Some (it\<lparr>mi_clean := le_clean_regions e\<rparr>) }) = Some it \<and>
        next_item e old it"
proof (cases "le_prior_version e = ev0 \<or> is_clone e")
  case True
  then show ?thesis using fresh_item_ok [of "le_version e" ev0 "is_delete e" mx] by (auto simp: next_item_def)
next
  case False
  show ?thesis
  proof (cases old)
    case None
    obtain it where it: "missing_item (le_version e) (le_prior_version e) (is_delete e) = Some it" "mi_need it = le_version e"
      "mi_have it = le_prior_version e" "mi_delete it = is_delete e" "ocr_inv (mi_clean it)" using missing_item_ok by blast
    show ?thesis using False None it item_fully_dirty_ok [OF it(5), of mx] assms(1) by (auto simp: next_item_def)
  next
    case (Some o')
    then have "ocr_inv (mi_clean (o'\<lparr>mi_need := le_version e, mi_delete := is_delete e\<rparr>))" using assms(2) by simp
    from event_clean_ok [OF this assms(1), of mx] show ?thesis using False Some by (auto simp: next_item_def split: if_splits)
  qed
qed

definition without_old :: "'h pg_missing_set \<Rightarrow> 'h \<Rightarrow> (nat, 'h) smap" where
  "without_old ms h = (case item_of ms h of Some o' \<Rightarrow> smap_del (vers (mi_need o')) (rmissing ms) | None \<Rightarrow> rmissing ms)"

text \<open>The item of \<open>h\<close> becomes \<open>it\<close>, every other one stays, and the index follows.\<close>

definition item_put :: "'h::linorder \<Rightarrow> pg_missing_item \<Rightarrow> 'h pg_missing_set \<Rightarrow> 'h pg_missing_set \<Rightarrow> bool" where
  "item_put h it ms ms' \<longleftrightarrow> missing_inv ms' \<and> item_of ms' = (item_of ms)(h \<mapsto> it) \<and>
     map_of (rmissing ms') = (map_of (without_old ms h))(vers (mi_need it) \<mapsto> h) \<and>
     may_include_deletes ms' = may_include_deletes ms"

definition item_gone :: "'h::linorder \<Rightarrow> 'h pg_missing_set \<Rightarrow> 'h pg_missing_set \<Rightarrow> bool" where
  "item_gone h ms ms' \<longleftrightarrow> missing_inv ms' \<and> item_of ms' = (item_of ms)(h := None) \<and>
     map_of (rmissing ms') = map_of (without_old ms h) \<and> may_include_deletes ms' = may_include_deletes ms"

lemma without_old_wf: "missing_inv ms \<Longrightarrow> smap_wf (without_old ms h)"
  by (auto simp: without_old_def missing_inv_def split: option.split)

lemma put_ok:
  assumes "missing_inv ms" and "ocr_inv (mi_clean it)"
  shows "item_put h it ms (tracker_changed h (ms\<lparr>missing := smap_put h it (missing ms),
     rmissing := smap_put (vers (mi_need it)) h (without_old ms h)\<rparr>))"
  using assms without_old_wf [OF assms(1), of h] by (auto simp: item_put_def missing_inv_alt smap_simps split: if_splits)

lemma add_next_event_ok:
  assumes "missing_inv ms" and "ocr_inv (le_clean_regions e)"
  shows "\<exists>ms' it. add_next_event mx e ms = Some ms' \<and> item_put (le_soid e) it ms ms' \<and> next_item e (item_of ms (le_soid e)) it"
proof -
  have "\<forall>o'. item_of ms (le_soid e) = Some o' \<longrightarrow> ocr_inv (mi_clean o')" using assms(1) by (simp add: missing_inv_alt)
  from next_item_exists [OF assms(2) this, of mx] obtain it where
    it: "(if le_prior_version e = ev0 \<or> is_clone e then do {
              it \<leftarrow> missing_item (le_version e) ev0 (is_delete e); item_fully_dirty mx it }
           else case item_of ms (le_soid e) of
             Some it \<Rightarrow> event_clean mx e (it\<lparr>mi_need := le_version e, mi_delete := is_delete e\<rparr>)
           | None \<Rightarrow> do {
               it \<leftarrow> missing_item (le_version e) (le_prior_version e) (is_delete e);
               if is_lost_revert e then item_fully_dirty mx it else Some (it\<lparr>mi_clean := le_clean_regions e\<rparr>) }) = Some it"
    and n: "next_item e (item_of ms (le_soid e)) it" by blast
  have "add_next_event mx e ms = Some (tracker_changed (le_soid e) (ms\<lparr>missing := smap_put (le_soid e) it (missing ms),
     rmissing := smap_put (vers (mi_need it)) (le_soid e) (without_old ms (le_soid e))\<rparr>))"
    unfolding add_next_event_def Let_def it using n by (simp add: without_old_def next_item_def)
  moreover have "ocr_inv (mi_clean it)" using n by (simp add: next_item_def)
  ultimately show ?thesis using put_ok [OF assms(1)] n by blast
qed

lemma revise_need_ok:
  assumes "missing_inv ms" and "item_of ms h = Some o'"
  shows "\<exists>ms' it. revise_need mx h n d ms = Some ms' \<and> item_put h it ms ms' \<and> mi_need it = n \<and> mi_delete it = d \<and>
    mi_have it = mi_have o'"
proof -
  let ?i = "o'\<lparr>mi_need := n, mi_delete := d\<rparr>"
  have "ocr_inv (mi_clean ?i)" using assms by (simp add: missing_inv_alt)
  from item_fully_dirty_ok [OF this, of mx] obtain it where it: "item_fully_dirty mx ?i = Some it" "mi_need it = n"
    "mi_have it = mi_have o'" "mi_delete it = d" "ocr_inv (mi_clean it)" by auto
  have "revise_need mx h n d ms = Some (tracker_changed h (ms\<lparr>missing := smap_put h it (missing ms),
     rmissing := smap_put (vers (mi_need it)) h (without_old ms h)\<rparr>))"
    by (simp add: revise_need_def assms(2) it without_old_def)
  then show ?thesis using put_ok [OF assms(1) it(5)] it by blast
qed

lemma missing_add_ok:
  assumes "missing_inv ms" and "item_of ms h = None"
  shows "\<exists>ms' it. missing_add mx h n hv d ms = Some ms' \<and> item_put h it ms ms' \<and> mi_need it = n \<and> mi_delete it = d \<and>
    mi_have it = hv"
proof -
  obtain it where it: "do { it \<leftarrow> missing_item n hv d; item_fully_dirty mx it } = Some it" "mi_need it = n" "mi_have it = hv"
    "mi_delete it = d" "ocr_inv (mi_clean it)" using fresh_item_ok by blast
  then obtain it0 where it0: "missing_item n hv d = Some it0" "item_fully_dirty mx it0 = Some it" by (auto simp: bind_eq_Some_conv)
  have "missing_add mx h n hv d ms = Some (tracker_changed h (ms\<lparr>missing := smap_put h it (missing ms),
     rmissing := smap_put (vers (mi_need it)) h (without_old ms h)\<rparr>))"
    by (simp add: missing_add_def it0 assms(2) without_old_def it(2))
  then show ?thesis using put_ok [OF assms(1) it(5)] it by blast
qed

lemma rm_iter_ok: "missing_inv ms \<Longrightarrow> item_of ms h = Some it \<Longrightarrow> item_gone h ms (missing_rm_iter h it ms)"
  by (auto simp: item_gone_def missing_rm_iter_def missing_inv_alt without_old_def smap_simps split: if_splits)

lemma revise_have_ok:
  assumes "missing_inv ms" and "item_of ms h = Some o'"
  shows "missing_inv (revise_have h v ms) \<and> item_of (revise_have h v ms) = (item_of ms)(h \<mapsto> o'\<lparr>mi_have := v\<rparr>) \<and>
    rmissing (revise_have h v ms) = rmissing ms \<and> may_include_deletes (revise_have h v ms) = may_include_deletes ms"
  using assms by (auto simp: revise_have_def missing_inv_alt smap_simps split: if_splits)

lemma missing_mark_fully_dirty_ok:
  assumes "missing_inv ms" and "item_of ms h = Some o'"
  shows "\<exists>ms' it. missing_mark_fully_dirty mx h ms = Some ms' \<and> missing_inv ms' \<and> item_of ms' = (item_of ms)(h \<mapsto> it) \<and>
    rmissing ms' = rmissing ms \<and> may_include_deletes ms' = may_include_deletes ms \<and>
    mi_need it = mi_need o' \<and> mi_have it = mi_have o' \<and> mi_delete it = mi_delete o'"
proof -
  have "ocr_inv (mi_clean o')" using assms by (simp add: missing_inv_alt)
  from item_fully_dirty_ok [OF this, of mx] obtain it where "item_fully_dirty mx o' = Some it" "mi_need it = mi_need o'"
    "mi_have it = mi_have o'" "mi_delete it = mi_delete o'" "ocr_inv (mi_clean it)" by auto
  then show ?thesis using assms by (auto simp: missing_mark_fully_dirty_def missing_inv_alt smap_simps split: if_splits)
qed

end
