(* ===== verification/Pg_Log.thy ===== *)
theory Pg_Log
  imports Pg_Missing
begin

text \<open>
  The log of a placement group (\<open>pg_log_t\<close> in \<open>src/osd/osd_types.h\<close>, \<open>PGLog\<close> in \<open>src/osd/PGLog.h\<close> and \<open>PGLog.cc\<close>). An
  \<open>IndexedLog\<close> extends the log with indexes by object and by request, which are pointers into the log and are
  represented by the entries they point to. \<open>rollback_info_trimmed_to_riter\<close>, a reverse iterator, is the number
  \<open>riter\<close> of entries newer than the one it points to; \<open>complete_to\<close> is the version of the entry it points to.

  Calls of the \<open>LogEntryHandler\<close>, which changes the object store, are collected in a list; a null handler collects none.
  A failed assertion is the value \<open>None\<close>.
\<close>

subsection \<open>pg\_log\_t\<close>

record pg_log_dup =
  dup_reqid :: osd_reqid
  dup_version :: eversion
  dup_user_version :: nat
  dup_return_code :: int

record 'h pg_log =
  pl_head :: eversion
  pl_tail :: eversion
  can_rollback_to :: eversion
  rollback_info_trimmed_to :: eversion
  pl_log :: "'h pg_log_entry list"
  pl_dups :: "pg_log_dup list"

definition dup_of_entry :: "'h pg_log_entry \<Rightarrow> pg_log_dup" where
  "dup_of_entry e = \<lparr>dup_reqid = le_reqid e, dup_version = le_version e, dup_user_version = le_user_version e,
     dup_return_code = le_return_code e\<rparr>"

definition pg_log_null :: "('h, 'z) pg_log_scheme \<Rightarrow> bool" where
  "pg_log_null l \<longleftrightarrow> vers (pl_head l) = 0 \<and> epoch (pl_head l) = 0"

definition pg_log_clear :: "('h, 'z) pg_log_scheme \<Rightarrow> ('h, 'z) pg_log_scheme" where
  "pg_log_clear l = l\<lparr>pl_head := ev0, pl_tail := ev0, can_rollback_to := ev0, rollback_info_trimmed_to := ev0,
     pl_log := [], pl_dups := []\<rparr>"

definition pg_log_split_out_child :: "('h \<Rightarrow> nat) \<Rightarrow> nat \<Rightarrow> nat \<Rightarrow> ('h, 'z) pg_log_scheme \<Rightarrow> ('h, 'z) pg_log_scheme \<times> 'h pg_log" where
  "pg_log_split_out_child hash seed bits l =
     (l\<lparr>pl_log := filter (\<lambda>e. hash (le_soid e) mod 2 ^ bits \<noteq> seed) (pl_log l)\<rparr>,
      \<lparr>pl_head = pl_head l, pl_tail = pl_tail l, can_rollback_to = can_rollback_to l,
       rollback_info_trimmed_to = rollback_info_trimmed_to l,
       pl_log = filter (\<lambda>e. hash (le_soid e) mod 2 ^ bits = seed) (pl_log l), pl_dups = pl_dups l\<rparr>)"

text \<open>Entries leave from the newest end until one has a version number that the new head has reached.\<close>

fun rewind_loop :: "eversion \<Rightarrow> 'h pg_log_entry list \<Rightarrow> 'h pg_log_entry list \<Rightarrow>
    ('h pg_log_entry list \<times> 'h pg_log_entry list) option" where
  "rewind_loop n [] d = Some ([], d)"
| "rewind_loop n (e # r) d =
     (if vers (le_version e) \<le> vers n then Some (e # r, d)
      else do { ensure (le_version e > n); rewind_loop n r (e # d) })"

definition pg_log_rewind_from_head :: "eversion \<Rightarrow> ('h, 'z) pg_log_scheme \<Rightarrow>
    ('h pg_log_entry list \<times> ('h, 'z) pg_log_scheme) option" where
  "pg_log_rewind_from_head n l = do {
     ensure (n \<ge> pl_tail l);
     (r, d) \<leftarrow> rewind_loop n (rev (pl_log l)) [];
     Some (d, l\<lparr>pl_log := rev r, pl_head := n,
       can_rollback_to := (if can_rollback_to l > n then n else can_rollback_to l),
       rollback_info_trimmed_to := (if rollback_info_trimmed_to l > n then n else rollback_info_trimmed_to l)\<rparr>) }"

definition pg_log_merge_from :: "('h, 'z) pg_log_scheme list \<Rightarrow> eversion \<Rightarrow> ('h, 'z) pg_log_scheme \<Rightarrow> ('h, 'z) pg_log_scheme" where
  "pg_log_merge_from slogs v l = l\<lparr>pl_log := [],
     pl_dups := sort_key dup_version (pl_dups l @ concat (map pl_dups slogs)),
     pl_head := v, pl_tail := v, can_rollback_to := v, rollback_info_trimmed_to := v\<rparr>"

subsection \<open>IndexedLog\<close>

record 'h indexed_log = "'h pg_log" +
  objects :: "'h \<rightharpoonup> 'h pg_log_entry"
  caller_ops :: "osd_reqid \<rightharpoonup> 'h pg_log_entry"
  extra_caller_ops :: "(osd_reqid \<times> 'h pg_log_entry) list"
  dup_index :: "osd_reqid \<rightharpoonup> pg_log_dup"
  indexed_objects :: bool
  indexed_caller_ops :: bool
  indexed_extra_caller_ops :: bool
  indexed_dups :: bool
  riter :: nat
  complete_to :: "eversion option"
  last_requested :: nat

datatype 'h handler_op =
    Rollback "'h pg_log_entry"
  | Rollforward "'h pg_log_entry"
  | Trim "'h pg_log_entry"
  | Remove 'h
  | TryStash 'h nat

definition objects_of :: "'h pg_log_entry list \<Rightarrow> 'h \<rightharpoonup> 'h pg_log_entry" where
  "objects_of es = fold (\<lambda>e m. if object_is_indexed e then m(le_soid e \<mapsto> e) else m) es Map.empty"

definition caller_ops_of :: "'h pg_log_entry list \<Rightarrow> osd_reqid \<rightharpoonup> 'h pg_log_entry" where
  "caller_ops_of es = fold (\<lambda>e m. if reqid_is_indexed e then m(le_reqid e \<mapsto> e) else m) es Map.empty"

definition extras_of_entry :: "'h pg_log_entry \<Rightarrow> (osd_reqid \<times> 'h pg_log_entry) list" where
  "extras_of_entry e = map (\<lambda>p. (fst p, e)) (le_extra_reqids e)"

definition dup_index_of :: "pg_log_dup list \<Rightarrow> osd_reqid \<rightharpoonup> pg_log_dup" where
  "dup_index_of ds = fold (\<lambda>d m. m(dup_reqid d \<mapsto> d)) ds Map.empty"

definition il_index :: "bool \<Rightarrow> bool \<Rightarrow> bool \<Rightarrow> bool \<Rightarrow> 'h indexed_log \<Rightarrow> 'h indexed_log" where
  "il_index ob co xt du l = l\<lparr>
     objects := (if ob then objects_of (pl_log l) else objects l),
     caller_ops := (if co then caller_ops_of (pl_log l) else caller_ops l),
     extra_caller_ops := (if xt then concat (map extras_of_entry (pl_log l)) else extra_caller_ops l),
     dup_index := (if du then dup_index_of (pl_dups l) else dup_index l),
     indexed_objects := (indexed_objects l \<or> ob),
     indexed_caller_ops := (indexed_caller_ops l \<or> co),
     indexed_extra_caller_ops := (indexed_extra_caller_ops l \<or> xt),
     indexed_dups := (indexed_dups l \<or> du)\<rparr>"

abbreviation index_all :: "'h indexed_log \<Rightarrow> 'h indexed_log" where
  "index_all \<equiv> il_index True True True True"

definition index_entry :: "'h pg_log_entry \<Rightarrow> 'h indexed_log \<Rightarrow> 'h indexed_log" where
  "index_entry e l = l\<lparr>
     objects := (if indexed_objects l \<and> object_is_indexed e \<and>
         (case objects l (le_soid e) of None \<Rightarrow> True | Some e' \<Rightarrow> le_version e' < le_version e)
       then (objects l)(le_soid e \<mapsto> e) else objects l),
     caller_ops := (if indexed_caller_ops l \<and> reqid_is_indexed e then (caller_ops l)(le_reqid e \<mapsto> e) else caller_ops l),
     extra_caller_ops := (if indexed_extra_caller_ops l then extra_caller_ops l @ extras_of_entry e else extra_caller_ops l)\<rparr>"

definition unindex_all :: "'h indexed_log \<Rightarrow> 'h indexed_log" where
  "unindex_all l = l\<lparr>objects := Map.empty, caller_ops := Map.empty, extra_caller_ops := [], dup_index := Map.empty,
     indexed_objects := False, indexed_caller_ops := False, indexed_extra_caller_ops := False, indexed_dups := False\<rparr>"

definition unindex_entry :: "'h pg_log_entry \<Rightarrow> 'h indexed_log \<Rightarrow> 'h indexed_log" where
  "unindex_entry e l = l\<lparr>
     objects := (if indexed_objects l \<and> (case objects l (le_soid e) of None \<Rightarrow> False | Some e' \<Rightarrow> le_version e' = le_version e)
       then (objects l)(le_soid e := None) else objects l),
     caller_ops := (if reqid_is_indexed e \<and> indexed_caller_ops l \<and> caller_ops l (le_reqid e) = Some e
       then (caller_ops l)(le_reqid e := None) else caller_ops l),
     extra_caller_ops := (if indexed_extra_caller_ops l then fold remove1 (extras_of_entry e) (extra_caller_ops l)
       else extra_caller_ops l)\<rparr>"

definition index_dup :: "pg_log_dup \<Rightarrow> 'h indexed_log \<Rightarrow> 'h indexed_log" where
  "index_dup d l = (if indexed_dups l then l\<lparr>dup_index := (dup_index l)(dup_reqid d \<mapsto> d)\<rparr> else l)"

definition unindex_dup :: "pg_log_dup \<Rightarrow> 'h indexed_log \<Rightarrow> 'h indexed_log" where
  "unindex_dup d l = (if indexed_dups l then l\<lparr>dup_index := (dup_index l)(dup_reqid d := None)\<rparr> else l)"

definition reset_riter :: "'h indexed_log \<Rightarrow> 'h indexed_log" where
  "reset_riter l = l\<lparr>riter := length (takeWhile (\<lambda>e. le_version e > rollback_info_trimmed_to l) (rev (pl_log l)))\<rparr>"

definition indexed_log_of :: "'h pg_log \<Rightarrow> 'h indexed_log" where
  "indexed_log_of o' = index_all (reset_riter
     (pg_log.extend o' \<lparr>objects = Map.empty, caller_ops = Map.empty, extra_caller_ops = [], dup_index = Map.empty,
        indexed_objects = False, indexed_caller_ops = False, indexed_extra_caller_ops = False, indexed_dups = False,
        riter = 0, complete_to = None, last_requested = 0\<rparr>))"

definition newest :: "nat \<Rightarrow> 'a list \<Rightarrow> 'a list" where
  "newest k xs = drop (length xs - k) xs"

text \<open>The entries given to the callback, oldest first, and whether the bounds moved.\<close>

definition advance_can_rollback_to :: "eversion \<Rightarrow> 'h indexed_log \<Rightarrow> bool \<times> 'h pg_log_entry list \<times> 'h indexed_log" where
  "advance_can_rollback_to to l = (let
     l1 = l\<lparr>can_rollback_to := (if to > can_rollback_to l then to else can_rollback_to l),
            rollback_info_trimmed_to := (if to > rollback_info_trimmed_to l then to else rollback_info_trimmed_to l)\<rparr>;
     vis = takeWhile (\<lambda>e. \<not> le_version e > rollback_info_trimmed_to l1) (newest (riter l) (pl_log l))
     in (to > can_rollback_to l \<or> to > rollback_info_trimmed_to l, vis, l1\<lparr>riter := riter l - length vis\<rparr>))"

definition trim_rollback_info_to :: "eversion \<Rightarrow> 'h indexed_log \<Rightarrow> 'h indexed_log \<times> 'h handler_op list" where
  "trim_rollback_info_to to l = (case advance_can_rollback_to to l of (_, vis, l') \<Rightarrow> (l', map Trim vis))"

definition il_roll_forward_to :: "eversion \<Rightarrow> 'h indexed_log \<Rightarrow> bool \<times> 'h indexed_log \<times> 'h handler_op list" where
  "il_roll_forward_to to l = (case advance_can_rollback_to to l of (d, vis, l') \<Rightarrow> (d, l', map Rollforward vis))"

definition skip_can_rollback_to_to_head :: "'h indexed_log \<Rightarrow> 'h indexed_log" where
  "skip_can_rollback_to_to_head l = (case advance_can_rollback_to (pl_head l) l of (_, _, l') \<Rightarrow> l')"

definition il_rewind_from_head :: "eversion \<Rightarrow> 'h indexed_log \<Rightarrow> ('h pg_log_entry list \<times> 'h indexed_log) option" where
  "il_rewind_from_head n l = do { (d, l) \<leftarrow> pg_log_rewind_from_head n l; Some (d, reset_riter (index_all l)) }"

definition reset_recovery_pointers :: "'h indexed_log \<Rightarrow> 'h indexed_log" where
  "reset_recovery_pointers l = l\<lparr>complete_to := None, last_requested := 0\<rparr>"

definition claim_log_and_clear_rollback_info :: "'h pg_log \<Rightarrow> 'h indexed_log \<Rightarrow> 'h indexed_log option" where
  "claim_log_and_clear_rollback_info o' l = do {
     ensure (rollback_info_trimmed_to l = pl_head l);
     ensure (riter l = 0);
     Some (index_all (skip_can_rollback_to_to_head (indexed_log_of o'))) }"

definition il_zero :: "'h indexed_log \<Rightarrow> 'h indexed_log option" where
  "il_zero l = do {
     ensure (rollback_info_trimmed_to l = pl_head l);
     ensure (riter l = 0);
     Some (reset_recovery_pointers ((pg_log_clear (unindex_all l))\<lparr>riter := 0\<rparr>)) }"

definition il_clear :: "'h indexed_log \<Rightarrow> 'h indexed_log option" where
  "il_clear l = il_zero (skip_can_rollback_to_to_head l)"

definition il_split_out_child :: "('h \<Rightarrow> nat) \<Rightarrow> nat \<Rightarrow> nat \<Rightarrow> 'h indexed_log \<Rightarrow> 'h indexed_log \<times> 'h indexed_log" where
  "il_split_out_child hash seed bits l = (case pg_log_split_out_child hash seed bits (unindex_all l) of
     (l', c) \<Rightarrow> (reset_riter (index_all l'), index_all (indexed_log_of c)))"

text \<open>A reverse iterator that points to the newest entry before \<open>push_back\<close> points to the new one after it and is advanced;
  any other one has one more newer entry.\<close>

definition il_add :: "'h pg_log_entry \<Rightarrow> bool \<Rightarrow> 'h indexed_log \<Rightarrow> 'h indexed_log option" where
  "il_add e applied l = do {
     ensure (applied \<or> can_rollback_to l = pl_head l);
     ensure (le_version e > pl_head l);
     ensure (vers (pl_head l) = 0 \<or> vers (le_version e) > vers (pl_head l));
     let l = l\<lparr>pl_log := pl_log l @ [e], riter := Suc (riter l), pl_head := le_version e,
       objects := (if indexed_objects l \<and> object_is_indexed e then (objects l)(le_soid e \<mapsto> e) else objects l),
       caller_ops := (if indexed_caller_ops l \<and> reqid_is_indexed e then (caller_ops l)(le_reqid e \<mapsto> e) else caller_ops l),
       extra_caller_ops := (if indexed_extra_caller_ops l then extra_caller_ops l @ extras_of_entry e else extra_caller_ops l)\<rparr>;
     Some (if applied then l else skip_can_rollback_to_to_head l) }"

subsection \<open>Looking requests up\<close>

definition lazy_index :: "bool \<Rightarrow> bool \<Rightarrow> bool \<Rightarrow> bool \<Rightarrow> 'h indexed_log \<Rightarrow> 'h indexed_log" where
  "lazy_index ob co xt du l = il_index (ob \<and> \<not> indexed_objects l) (co \<and> \<not> indexed_caller_ops l)
     (xt \<and> \<not> indexed_extra_caller_ops l) (du \<and> \<not> indexed_dups l) l"

definition logged_object :: "'h \<Rightarrow> 'h indexed_log \<Rightarrow> bool \<times> 'h indexed_log" where
  "logged_object h l = (let l = lazy_index True False False False l in (objects l h \<noteq> None, l))"

definition logged_req :: "osd_reqid \<Rightarrow> 'h indexed_log \<Rightarrow> bool \<times> 'h indexed_log" where
  "logged_req r l = (let l = lazy_index False True False False l in
     if caller_ops l r = None then
       let l = lazy_index False False True False l in (map_of (extra_caller_ops l) r \<noteq> None, l)
     else (True, l))"

text \<open>Version, user version and return code of the \<open>i\<close>-th additional request of an entry.\<close>

definition extra_return_code :: "'h pg_log_entry \<Rightarrow> nat \<Rightarrow> int" where
  "extra_return_code e i =
     (if le_return_code e \<ge> 0 then
        case map_of (le_extra_return_codes e) i of None \<Rightarrow> le_return_code e | Some c \<Rightarrow> c
      else le_return_code e)"

fun find_extra :: "osd_reqid \<Rightarrow> 'h pg_log_entry \<Rightarrow> nat \<Rightarrow> (osd_reqid \<times> nat) list \<Rightarrow> (eversion \<times> nat \<times> int) option" where
  "find_extra r e i [] = None"
| "find_extra r e i ((q, uv) # qs) =
     (if q = r then Some (le_version e, uv, extra_return_code e i) else find_extra r e (Suc i) qs)"

text \<open>The outer option is the abort of a request that is indexed and not listed, the inner one that it is not found.\<close>

definition get_request :: "osd_reqid \<Rightarrow> 'h indexed_log \<Rightarrow> ((eversion \<times> nat \<times> int) option \<times> 'h indexed_log) option" where
  "get_request r l = (let l = lazy_index False True False False l in
     case caller_ops l r of
       Some e \<Rightarrow> Some (Some (le_version e, le_user_version e, le_return_code e), l)
     | None \<Rightarrow> let l = lazy_index False False True False l in
         (case map_of (extra_caller_ops l) r of
            Some e \<Rightarrow> do { a \<leftarrow> find_extra r e 0 (le_extra_reqids e); Some (Some a, l) }
          | None \<Rightarrow> let l = lazy_index False False False True l in
              Some (map_option (\<lambda>d. (dup_version d, dup_user_version d, dup_return_code d)) (dup_index l r), l)))"

fun has_write_since_loop :: "('h \<Rightarrow> 'g) \<Rightarrow> 'h \<Rightarrow> eversion \<Rightarrow> 'h pg_log_entry list \<Rightarrow> bool" where
  "has_write_since_loop hd_of h bound [] = False"
| "has_write_since_loop hd_of h bound (e # es) =
     (if le_version e \<le> bound then False
      else if hd_of (le_soid e) = hd_of h then True
      else has_write_since_loop hd_of h bound es)"

definition has_write_since :: "('h \<Rightarrow> 'g) \<Rightarrow> 'h \<Rightarrow> eversion \<Rightarrow> 'h indexed_log \<Rightarrow> bool" where
  "has_write_since hd_of h bound l = has_write_since_loop hd_of h bound (rev (pl_log l))"

fun object_reqids_loop :: "'h \<Rightarrow> nat \<Rightarrow> 'h pg_log_entry list \<Rightarrow> (osd_reqid \<times> nat) list \<Rightarrow> (nat, int) smap \<Rightarrow>
    (osd_reqid \<times> nat) list \<times> (nat, int) smap" where
  "object_reqids_loop h mxr [] pls rcs = (pls, rcs)"
| "object_reqids_loop h mxr (e # es) pls rcs =
     (if le_soid e = h then
        let rcs = (if reqid_is_indexed e \<and> is_error e then smap_emplace (length pls) (le_return_code e) rcs else rcs);
            pls = (if reqid_is_indexed e then pls @ [(le_reqid e, le_user_version e)] else pls) @ le_extra_reqids e
        in if length pls \<ge> mxr then (take mxr pls, rcs) else object_reqids_loop h mxr es pls rcs
      else object_reqids_loop h mxr es pls rcs)"

definition get_object_reqids :: "'h \<Rightarrow> nat \<Rightarrow> 'h indexed_log \<Rightarrow> (osd_reqid \<times> nat) list \<Rightarrow> (nat, int) smap \<Rightarrow>
    (osd_reqid \<times> nat) list \<times> (nat, int) smap" where
  "get_object_reqids h mxr l pls rcs =
     (if fst (logged_object h l) then object_reqids_loop h mxr (rev (pl_log l)) pls rcs else (pls, rcs))"

subsection \<open>Trimming\<close>

definition extra_dups :: "'h pg_log_entry \<Rightarrow> pg_log_dup list" where
  "extra_dups e = map (\<lambda>(i, q, uv). \<lparr>dup_reqid = q, dup_version = le_version e, dup_user_version = uv,
      dup_return_code = extra_return_code e i\<rparr>) (enumerate 0 (le_extra_reqids e))"

definition push_dup :: "pg_log_dup \<Rightarrow> 'h indexed_log \<Rightarrow> 'h indexed_log" where
  "push_dup d l = index_dup d (l\<lparr>pl_dups := pl_dups l @ [d]\<rparr>)"

definition pop_entry :: "'h pg_log_entry \<Rightarrow> 'h indexed_log \<Rightarrow> 'h indexed_log" where
  "pop_entry e l = (let
     reset = (case complete_to l of None \<Rightarrow> False | Some v \<Rightarrow> le_version e \<ge> v);
     at_riter = (riter l \<ge> length (pl_log l) \<or> le_version e = le_version (rev (pl_log l) ! riter l));
     rest = tl (pl_log l);
     l1 = l\<lparr>pl_log := rest, riter := (if at_riter then length rest else riter l)\<rparr>
     in if reset then l1\<lparr>complete_to := (case rest of [] \<Rightarrow> None | e' # _ \<Rightarrow> Some (le_version e'))\<rparr> else l1)"

definition trim_entry :: "nat \<Rightarrow> 'h pg_log_entry \<Rightarrow> 'h indexed_log \<times> eversion \<Rightarrow> 'h indexed_log \<times> eversion" where
  "trim_entry earliest e lw = (case lw of (l, wfd) \<Rightarrow> let l = unindex_entry e l in
     if vers (le_version e) \<ge> earliest
     then (pop_entry e (fold push_dup (dup_of_entry e # extra_dups e) l), if wfd > le_version e then le_version e else wfd)
     else (pop_entry e l, wfd))"

definition earliest_dup_version :: "nat \<Rightarrow> eversion \<Rightarrow> nat" where
  "earliest_dup_version tracked v = (if vers v < tracked then 0 else vers v - tracked + 1)"

text \<open>The newest entry is read before the loop, so that an empty log has no value here.\<close>

definition il_trim :: "nat \<Rightarrow> eversion \<Rightarrow> 'h indexed_log \<Rightarrow> eversion \<Rightarrow>
    ('h indexed_log \<times> eversion list \<times> pg_log_dup list \<times> eversion) option" where
  "il_trim tracked s l wfd = do {
     ensure (s \<le> can_rollback_to l);
     ensure (pl_log l \<noteq> []);
     let earliest = earliest_dup_version tracked (le_version (last (pl_log l)));
     let es = takeWhile (\<lambda>e. \<not> le_version e > s) (pl_log l);
     let (l, wfd) = fold (trim_entry earliest) es (l, wfd);
     let ds = takeWhile (\<lambda>d. \<not> vers (dup_version d) \<ge> earliest) (pl_dups l);
     let l = fold (\<lambda>d l. (unindex_dup d l)\<lparr>pl_dups := tl (pl_dups l)\<rparr>) ds l;
     Some (if pl_tail l < s then l\<lparr>pl_tail := s\<rparr> else l, map le_version es, ds, wfd) }"

subsection \<open>PGLog\<close>

record pg_stats =
  reported_seq :: nat
  reported_epoch :: nat
  num_objects_missing :: nat

text \<open>\<open>None\<close> as \<open>last_backfill\<close> is the largest object, past every object of the placement group.\<close>

record 'h pg_info =
  last_update :: eversion
  last_complete :: eversion
  log_tail :: eversion
  last_user_version :: nat
  last_backfill :: "'h option"
  pgi_stats :: pg_stats
  hit_set :: nat
  purged_snaps :: interval_set

record 'h pglog =
  pg_missing :: "'h pg_missing_set"
  pg_log :: "'h indexed_log"
  dirty_to :: eversion
  dirty_from :: eversion
  writeout_from :: eversion
  trimmed :: "eversion list"
  dirty_to_dups :: eversion
  dirty_from_dups :: eversion
  write_from_dups :: eversion
  trimmed_dups :: "pg_log_dup list"
  touched_log :: bool
  dirty_log :: bool
  may_include_deletes_in_missing_dirty :: bool

definition past_backfill :: "'h::linorder option \<Rightarrow> 'h \<Rightarrow> bool" where
  "past_backfill lb h = (case lb of None \<Rightarrow> False | Some b \<Rightarrow> h > b)"

definition mark_dirty_to :: "eversion \<Rightarrow> 'h pglog \<Rightarrow> 'h pglog" where
  "mark_dirty_to v p = (if v > dirty_to p then p\<lparr>dirty_to := v\<rparr> else p)"

definition mark_dirty_from :: "eversion \<Rightarrow> 'h pglog \<Rightarrow> 'h pglog" where
  "mark_dirty_from v p = (if v < dirty_from p then p\<lparr>dirty_from := v\<rparr> else p)"

definition mark_writeout_from :: "eversion \<Rightarrow> 'h pglog \<Rightarrow> 'h pglog" where
  "mark_writeout_from v p = (if v < writeout_from p then p\<lparr>writeout_from := v\<rparr> else p)"

definition mark_dirty_to_dups :: "eversion \<Rightarrow> 'h pglog \<Rightarrow> 'h pglog" where
  "mark_dirty_to_dups v p = (if v > dirty_to_dups p then p\<lparr>dirty_to_dups := v\<rparr> else p)"

definition mark_dirty_from_dups :: "eversion \<Rightarrow> 'h pglog \<Rightarrow> 'h pglog" where
  "mark_dirty_from_dups v p = (if v < dirty_from_dups p then p\<lparr>dirty_from_dups := v\<rparr> else p)"

definition pglog_is_dirty :: "'h pglog \<Rightarrow> bool" where
  "pglog_is_dirty p \<longleftrightarrow> dirty_log p \<or> dirty_to p \<noteq> ev0 \<or> dirty_from p \<noteq> ev_max \<or> writeout_from p \<noteq> ev_max \<or>
     trimmed p \<noteq> [] \<or> changed (pg_missing p) \<noteq> [] \<or> trimmed_dups p \<noteq> [] \<or> dirty_to_dups p \<noteq> ev0 \<or>
     dirty_from_dups p \<noteq> ev_max \<or> write_from_dups p \<noteq> ev_max \<or> may_include_deletes_in_missing_dirty p"

definition needs_write :: "'h pglog \<Rightarrow> bool" where
  "needs_write p \<longleftrightarrow> \<not> touched_log p \<or> pglog_is_dirty p"

definition mark_log_for_rewrite :: "'h pglog \<Rightarrow> 'h pglog" where
  "mark_log_for_rewrite p =
     (mark_dirty_from_dups ev0 (mark_dirty_to_dups ev_max (mark_dirty_from ev0 (mark_dirty_to ev_max p))))\<lparr>touched_log := False\<rparr>"

definition undirty :: "'h pglog \<Rightarrow> 'h pglog" where
  "undirty p = p\<lparr>dirty_to := ev0, dirty_from := ev_max, touched_log := True, dirty_log := False, trimmed := [],
     trimmed_dups := [], writeout_from := ev_max, pg_missing := missing_flush (pg_missing p), dirty_to_dups := ev0,
     dirty_from_dups := ev_max, write_from_dups := ev_max\<rparr>"

definition reset_backfill :: "'h pglog \<Rightarrow> 'h pglog" where
  "reset_backfill p = p\<lparr>pg_missing := missing_clear (pg_missing p)\<rparr>"

definition pglog_clear :: "'h pglog \<Rightarrow> 'h pglog option" where
  "pglog_clear p = do {
     l \<leftarrow> il_clear (pg_log p);
     Some (undirty (p\<lparr>pg_missing := missing_clear (pg_missing p), pg_log := l\<rparr>)) }"

definition pglog_add :: "'h pg_log_entry \<Rightarrow> bool \<Rightarrow> 'h pglog \<Rightarrow> 'h pglog option" where
  "pglog_add e applied p = do {
     l \<leftarrow> il_add e applied (pg_log p);
     Some (mark_writeout_from (le_version e) (p\<lparr>pg_log := l\<rparr>)) }"

definition pglog_trim :: "nat \<Rightarrow> eversion \<Rightarrow> 'h pg_info \<Rightarrow> bool \<Rightarrow> bool \<Rightarrow> 'h pglog \<Rightarrow> ('h pglog \<times> 'h pg_info) option" where
  "pglog_trim tracked to info applied async p =
     (if to > pl_tail (pg_log p) then do {
        ensure (\<not> (applied \<and> \<not> async \<and> num_missing (pg_missing p) = 0) \<or> to \<le> last_complete info);
        (l, tr, td, wfd) \<leftarrow> il_trim tracked to (pg_log p) (write_from_dups p);
        Some (p\<lparr>pg_log := l, trimmed := trimmed p @ tr, trimmed_dups := trimmed_dups p @ td, write_from_dups := wfd\<rparr>,
              info\<lparr>log_tail := pl_tail l\<rparr>) }
      else Some (p, info))"

definition roll_forward_to :: "eversion \<Rightarrow> 'h pglog \<Rightarrow> 'h pglog \<times> 'h handler_op list" where
  "roll_forward_to v p = (case il_roll_forward_to v (pg_log p) of
     (d, l, ops) \<Rightarrow> (p\<lparr>pg_log := l, dirty_log := (dirty_log p \<or> d)\<rparr>, ops))"

definition roll_forward :: "'h pglog \<Rightarrow> 'h pglog \<times> 'h handler_op list" where
  "roll_forward p = roll_forward_to (pl_head (pg_log p)) p"

definition skip_rollforward :: "'h pglog \<Rightarrow> 'h pglog" where
  "skip_rollforward p = p\<lparr>pg_log := skip_can_rollback_to_to_head (pg_log p)\<rparr>"

definition reset_backfill_claim_log :: "'h pg_log \<Rightarrow> 'h pglog \<Rightarrow> ('h pglog \<times> 'h handler_op list) option" where
  "reset_backfill_claim_log o' p = (case trim_rollback_info_to (pl_head (pg_log p)) (pg_log p) of
     (l, ops) \<Rightarrow> do {
       l \<leftarrow> claim_log_and_clear_rollback_info o' l;
       Some (mark_dirty_to_dups ev_max (mark_dirty_to ev_max (p\<lparr>pg_log := l, pg_missing := missing_clear (pg_missing p)\<rparr>)), ops) })"

definition set_missing_may_contain_deletes :: "'h pglog \<Rightarrow> 'h pglog" where
  "set_missing_may_contain_deletes p =
     p\<lparr>pg_missing := (pg_missing p)\<lparr>may_include_deletes := True\<rparr>, may_include_deletes_in_missing_dirty := True\<rparr>"

definition pglog_split_into :: "nat \<Rightarrow> ('h::linorder \<Rightarrow> nat) \<Rightarrow> nat \<Rightarrow> nat \<Rightarrow> 'h pglog \<Rightarrow> 'h pglog \<Rightarrow> ('h pglog \<times> 'h pglog) option" where
  "pglog_split_into mx hash seed bits p op = (case il_split_out_child hash seed bits (pg_log p) of
     (l, cl) \<Rightarrow> do {
       (ms, oms) \<leftarrow> missing_split_into mx hash seed bits (pg_missing p) (pg_missing op);
       let op = mark_dirty_to_dups ev_max (mark_dirty_to ev_max (op\<lparr>pg_log := cl, pg_missing := oms\<rparr>));
       let p = mark_dirty_to_dups ev_max (mark_dirty_to ev_max (p\<lparr>pg_log := l, pg_missing := ms\<rparr>));
       Some (p, if may_include_deletes ms then set_missing_may_contain_deletes op else op) })"

definition pglog_merge_from :: "'h pglog list \<Rightarrow> eversion \<Rightarrow> 'h pglog \<Rightarrow> 'h pglog" where
  "pglog_merge_from srcs v p = mark_log_for_rewrite (p\<lparr>pg_missing := missing_clear (pg_missing p),
     pg_log := index_all (pg_log_merge_from (map pg_log srcs) v (unindex_all (pg_log p)))\<rparr>)"

subsection \<open>Recovery pointers\<close>

text \<open>The entries from an iterator to the end; an iterator to an entry that left the log dangles.\<close>

definition from_iter :: "eversion option \<Rightarrow> 'h pg_log_entry list \<Rightarrow> 'h pg_log_entry list option" where
  "from_iter it es = (case it of None \<Rightarrow> Some []
     | Some v \<Rightarrow> (case dropWhile (\<lambda>e. le_version e \<noteq> v) es of [] \<Rightarrow> None | es' \<Rightarrow> Some es'))"

definition iter_of :: "'h pg_log_entry list \<Rightarrow> eversion option" where
  "iter_of es = (case es of [] \<Rightarrow> None | e # _ \<Rightarrow> Some (le_version e))"

fun raise_last_complete :: "eversion \<Rightarrow> 'h pg_log_entry list \<Rightarrow> eversion \<Rightarrow> eversion option \<times> eversion" where
  "raise_last_complete oldest [] lc = (None, lc)"
| "raise_last_complete oldest (e # es) lc =
     (if oldest \<le> le_version e then (Some (le_version e), lc)
      else raise_last_complete oldest es (if lc < le_version e then le_version e else lc))"

definition recover_got :: "'h \<Rightarrow> eversion \<Rightarrow> 'h pg_info \<Rightarrow> 'h pglog \<Rightarrow> ('h pglog \<times> 'h pg_info) option" where
  "recover_got h v info p = do {
     (p, info) \<leftarrow> (if is_missing_at h v (pg_missing p) then do {
         ms \<leftarrow> missing_got h v (pg_missing p);
         let info = info\<lparr>pgi_stats := (pgi_stats info)\<lparr>num_objects_missing := num_missing ms\<rparr>\<rparr>;
         let (ct, info) = (if missing ms = [] then (None, info\<lparr>last_complete := last_update info\<rparr>)
                           else (complete_to (pg_log p), info));
         oldest \<leftarrow> get_oldest_need ms;
         es \<leftarrow> from_iter ct (pl_log (pg_log p));
         let (ct, lc) = raise_last_complete oldest es (last_complete info);
         Some (p\<lparr>pg_missing := ms, pg_log := (pg_log p)\<lparr>complete_to := ct\<rparr>\<rparr>, info\<lparr>last_complete := lc\<rparr>) }
       else Some (p, info));
     ensure (can_rollback_to (pg_log p) \<ge> v);
     Some (p, info) }"

definition reset_complete_to :: "'h pglog \<Rightarrow> ('h pglog \<times> eversion option) option" where
  "reset_complete_to p = (let es = pl_log (pg_log p) in
     if es = [] then Some (p, None)
     else do {
       oldest \<leftarrow> get_oldest_need (pg_missing p);
       let es' = (if oldest = ev0 then es else dropWhile (\<lambda>e. le_version e < oldest) es);
       ensure (es' \<noteq> []);
       let shorter = take (length es - length es') es;
       Some (p\<lparr>pg_log := (pg_log p)\<lparr>complete_to := iter_of es'\<rparr>\<rparr>,
             Some (if shorter = [] then ev0 else le_version (last shorter))) })"

definition activate_not_complete :: "'h pg_info \<Rightarrow> 'h pglog \<Rightarrow> ('h pglog \<times> 'h pg_info) option" where
  "activate_not_complete info p = do {
     (p, lc) \<leftarrow> reset_complete_to p;
     Some (p\<lparr>pg_log := (pg_log p)\<lparr>last_requested := 0\<rparr>\<rparr>,
           case lc of None \<Rightarrow> info | Some v \<Rightarrow> info\<lparr>last_complete := v\<rparr>) }"

subsection \<open>Appending entries\<close>

text \<open>The log is optional: \<open>None\<close> as \<open>lo\<close> is a null pointer.\<close>

definition append_entry :: "nat \<Rightarrow> 'h::linorder option \<Rightarrow> bool \<Rightarrow> bool \<Rightarrow> 'h pg_log_entry \<Rightarrow>
    'h indexed_log option \<Rightarrow> 'h pg_missing_set \<Rightarrow> ('h indexed_log option \<times> 'h pg_missing_set \<times> 'h handler_op list) option" where
  "append_entry mx lb maintain rb e lo ms = do {
     lo \<leftarrow> (case lo of None \<Rightarrow> Some None | Some l \<Rightarrow> map_option Some (il_add e True l));
     if \<not> past_backfill lb (le_soid e) \<and> \<not> is_error e then
       if may_include_deletes ms then do { ms \<leftarrow> add_next_event mx e ms; Some (lo, ms, []) }
       else do {
         ms \<leftarrow> (if is_delete e then Some (missing_rm (le_soid e) (le_version e) ms) else add_next_event mx e ms);
         Some (lo, ms,
           if \<not> rb then []
           else if maintain \<and> is_lost_delete e \<and> le_can_rollback e then [TryStash (le_soid e) (vers (le_version e))]
           else if is_delete e then [Remove (le_soid e)]
           else []) }
     else Some (lo, ms, []) }"

fun append_entries :: "nat \<Rightarrow> 'h::linorder option \<Rightarrow> bool \<Rightarrow> bool \<Rightarrow> 'h pg_log_entry list \<Rightarrow>
    'h indexed_log option \<Rightarrow> 'h pg_missing_set \<Rightarrow> ('h indexed_log option \<times> 'h pg_missing_set \<times> 'h handler_op list) option" where
  "append_entries mx lb maintain rb [] lo ms = Some (lo, ms, [])"
| "append_entries mx lb maintain rb (e # es) lo ms = do {
     (lo, ms, ops) \<leftarrow> append_entry mx lb maintain rb e lo ms;
     (lo, ms, ops') \<leftarrow> append_entries mx lb maintain rb es lo ms;
     Some (lo, ms, ops @ ops') }"

text \<open>The boolean is \<open>invalidate_stats\<close>.\<close>

definition append_log_entries_update_missing :: "nat \<Rightarrow> 'h::linorder option \<Rightarrow> 'h pg_log_entry list \<Rightarrow> bool \<Rightarrow>
    'h indexed_log option \<Rightarrow> 'h pg_missing_set \<Rightarrow> bool \<Rightarrow>
    (bool \<times> 'h indexed_log option \<times> 'h pg_missing_set \<times> 'h handler_op list) option" where
  "append_log_entries_update_missing mx lb es maintain lo ms rb = do {
     ensure (case lo of None \<Rightarrow> True | Some l \<Rightarrow> es = [] \<or> pl_head l < le_version (hd es));
     (lo, ms, ops) \<leftarrow> append_entries mx lb maintain rb es lo ms;
     Some (\<exists>e\<in>set es. \<not> is_error e, lo, ms, ops) }"

definition append_new_log_entries :: "nat \<Rightarrow> 'h::linorder option \<Rightarrow> 'h pg_log_entry list \<Rightarrow> bool \<Rightarrow> 'h pglog \<Rightarrow>
    (bool \<times> 'h pglog \<times> 'h handler_op list) option" where
  "append_new_log_entries mx lb es rb p = do {
     (inv, lo, ms, ops) \<leftarrow> append_log_entries_update_missing mx lb es True (Some (pg_log p)) (pg_missing p) rb;
     l \<leftarrow> lo;
     let p = p\<lparr>pg_log := l, pg_missing := ms\<rparr>;
     p \<leftarrow> (if es = [] then Some p
          else let p = mark_writeout_from (le_version (hd es)) p in
            if is_lost_delete (hd es) then map_option fst (reset_complete_to p) else Some p);
     Some (inv, p, ops) }"

subsection \<open>Divergent entries\<close>

fun split_by_object :: "'h::linorder pg_log_entry list \<Rightarrow> ('h, 'h pg_log_entry list) smap \<Rightarrow> ('h, 'h pg_log_entry list) smap" where
  "split_by_object [] m = m"
| "split_by_object (e # es) m =
     split_by_object es (smap_put (le_soid e) ((case map_of m (le_soid e) of None \<Rightarrow> [] | Some xs \<Rightarrow> xs) @ [e]) m)"

text \<open>The entries of the object that are no errors; \<open>start\<close> tells the first entry, \<open>seen\<close> that one was no error, \<open>prev\<close> is the version
  of the last such one.\<close>

fun strip_errors :: "'h \<Rightarrow> bool \<Rightarrow> bool \<Rightarrow> eversion \<Rightarrow> 'h pg_log_entry list \<Rightarrow> 'h pg_log_entry list option" where
  "strip_errors h start seen prev [] = Some []"
| "strip_errors h start seen prev (e # es) = do {
     ensure (le_soid e = h);
     ensure ((\<not> start \<and> le_prior_version e \<noteq> ev0 \<and> \<not> (\<not> seen \<and> \<not> is_error e)) \<longrightarrow>
       le_version e > prev \<and> (le_prior_version e = prev \<or> is_error e));
     es' \<leftarrow> strip_errors h False (seen \<or> \<not> is_error e) (if is_error e then prev else le_version e) es;
     Some (if is_error e then es' else e # es') }"

text \<open>The five cases for the entries \<open>es\<close> that are no errors.\<close>

definition merge_object_entries :: "nat \<Rightarrow> 'h::linorder indexed_log \<Rightarrow> 'h \<Rightarrow> 'h pg_log_entry list \<Rightarrow> eversion \<Rightarrow> bool \<Rightarrow>
    'h pg_missing_set \<Rightarrow> ('h pg_missing_set \<times> 'h handler_op list) option" where
  "merge_object_entries mx l h es ocrt rb ms = (let
     prior = le_prior_version (hd es);
     not_in_store = (\<not> is_missing h ms \<and> is_delete (last es));
     remove_trim = (if rb then (if not_in_store then [] else [Remove h]) @ map Trim es else []) in
     case (case objects l h of None \<Rightarrow> None | Some n \<Rightarrow> if le_version n \<ge> le_version (hd es) then Some n else None) of
       Some n \<Rightarrow> do {
         ensure (le_version n > le_version (last es));
         ensure (if is_update n \<or> (may_include_deletes ms \<and> is_delete n)
           then (case item_of ms h of None \<Rightarrow> False | Some it \<Rightarrow> mi_need it = le_version n)
           else \<not> is_missing h ms);
         ms \<leftarrow> missing_mark_fully_dirty mx h (revise_have h ev0 ms);
         Some (ms, remove_trim) }
     | None \<Rightarrow>
       if prior = ev0 \<or> is_clone (hd es) then
         Some (case item_of ms h of None \<Rightarrow> ms | Some it \<Rightarrow> missing_rm_iter h it ms, remove_trim)
       else case item_of ms h of
         Some it \<Rightarrow> do {
           ms \<leftarrow> (if mi_have it = prior then Some (missing_rm_iter h it ms) else revise_need mx h prior False ms);
           Some (ms, if rb then map Trim es else []) }
       | None \<Rightarrow>
           if \<forall>e\<in>set es. le_can_rollback e \<and> \<not> le_version e \<le> ocrt
           then Some (ms, if rb then map Rollback (rev es) else [])
           else do { ms \<leftarrow> missing_add mx h prior ev0 False ms; Some (ms, remove_trim) })"

definition merge_object_divergent_entries :: "nat \<Rightarrow> 'h::linorder indexed_log \<Rightarrow> 'h \<Rightarrow> 'h pg_log_entry list \<Rightarrow> 'h option \<Rightarrow>
    eversion \<Rightarrow> bool \<Rightarrow> 'h pg_missing_set \<Rightarrow> ('h pg_missing_set \<times> 'h handler_op list) option" where
  "merge_object_divergent_entries mx l h orig lb ocrt rb ms =
     (if past_backfill lb h then Some (ms, [])
      else do {
        ensure (orig \<noteq> []);
        es \<leftarrow> strip_errors h True False ev0 orig;
        if es = [] then Some (ms, []) else merge_object_entries mx l h es ocrt rb ms })"

fun merge_divergent_objects :: "nat \<Rightarrow> 'h::linorder indexed_log \<Rightarrow> ('h \<times> 'h pg_log_entry list) list \<Rightarrow> 'h option \<Rightarrow>
    eversion \<Rightarrow> bool \<Rightarrow> 'h pg_missing_set \<Rightarrow> ('h pg_missing_set \<times> 'h handler_op list) option" where
  "merge_divergent_objects mx l [] lb ocrt rb ms = Some (ms, [])"
| "merge_divergent_objects mx l ((h, es) # m) lb ocrt rb ms = do {
     (ms, ops) \<leftarrow> merge_object_divergent_entries mx l h es lb ocrt rb ms;
     (ms, ops') \<leftarrow> merge_divergent_objects mx l m lb ocrt rb ms;
     Some (ms, ops @ ops') }"

definition merge_divergent_entries :: "nat \<Rightarrow> 'h::linorder indexed_log \<Rightarrow> 'h pg_log_entry list \<Rightarrow> 'h option \<Rightarrow>
    eversion \<Rightarrow> bool \<Rightarrow> 'h pg_missing_set \<Rightarrow> ('h pg_missing_set \<times> 'h handler_op list) option" where
  "merge_divergent_entries mx l es lb ocrt rb ms = merge_divergent_objects mx l (split_by_object es []) lb ocrt rb ms"

definition rewind_divergent_log :: "nat \<Rightarrow> eversion \<Rightarrow> 'h::linorder pg_info \<Rightarrow> bool \<Rightarrow> 'h pglog \<Rightarrow>
    ('h pg_info \<times> 'h pglog \<times> 'h handler_op list) option" where
  "rewind_divergent_log mx newhead info rb p = do {
     let ocrt = can_rollback_to (pg_log p);
     let info = (if last_complete info > newhead then info\<lparr>last_complete := newhead\<rparr> else info);
     (dv, l) \<leftarrow> il_rewind_from_head newhead (pg_log p);
     let p = (if dv = [] then p\<lparr>pg_log := l\<rparr> else mark_dirty_from (le_version (hd dv)) (p\<lparr>pg_log := l\<rparr>));
     let info = info\<lparr>last_update := newhead\<rparr>;
     (ms, ops) \<leftarrow> merge_divergent_entries mx l dv (last_backfill info) ocrt rb (pg_missing p);
     Some (info, p\<lparr>pg_missing := ms\<rparr>, ops) }"

fun last_complete_before :: "eversion \<Rightarrow> 'h pg_log_entry list \<Rightarrow> eversion \<Rightarrow> eversion" where
  "last_complete_before v [] lc = lc"
| "last_complete_before v (e # es) lc = (if le_version e < v then last_complete_before v es (le_version e) else lc)"

text \<open>The point a replica's log is rewound to: our last entry that it has reached, or the larger tail.\<close>

definition last_shared :: "'h pg_log \<Rightarrow> 'h indexed_log \<Rightarrow> eversion" where
  "last_shared olog l = (let limit = max (pl_tail olog) (pl_tail l) in
     case dropWhile (\<lambda>e. \<not> le_version e \<le> pl_head olog) (rev (pl_log l)) of
       [] \<Rightarrow> limit
     | e # _ \<Rightarrow> if le_version e < limit then limit else le_version e)"

text \<open>\<open>get_items().at(...)\<close> throws when the object is not there.\<close>

definition proc_replica_log :: "nat \<Rightarrow> 'h::linorder pg_info \<Rightarrow> 'h pg_log \<Rightarrow> 'h pg_missing_set \<Rightarrow> 'h pglog \<Rightarrow>
    ('h pg_info \<times> 'h pg_missing_set) option" where
  "proc_replica_log mx oinfo olog oms p = (let l = pg_log p in
     if pl_head olog < pl_tail l \<or> pl_head olog = pl_head l then Some (oinfo, oms)
     else do {
       let lu = last_shared olog l;
       (dv, folog) \<leftarrow> il_rewind_from_head lu (indexed_log_of olog);
       (oms, _) \<leftarrow> merge_divergent_entries mx folog dv (last_backfill oinfo) (can_rollback_to olog) False oms;
       let oinfo = (if lu < last_update oinfo then oinfo\<lparr>last_update := lu\<rparr> else oinfo);
       if have_missing oms then do {
         first_missing \<leftarrow> get_oldest_need oms;
         Some (oinfo\<lparr>last_complete := last_complete_before first_missing (pl_log olog) ev0\<rparr>, oms) }
       else Some (oinfo\<lparr>last_complete := last_update oinfo\<rparr>, oms) })"

subsection \<open>Merging logs\<close>

definition extend_dups_tail :: "pg_log_dup list \<Rightarrow> 'h pglog \<Rightarrow> 'h pglog" where
  "extend_dups_tail ods p = (let
     l = pg_log p;
     v = dup_version (last (pl_dups l));
     new = rev (takeWhile (\<lambda>d. \<not> dup_version d \<le> v) (rev ods));
     l' = fold index_dup (rev new) (l\<lparr>pl_dups := pl_dups l @ new\<rparr>)
     in mark_dirty_from_dups (case new of [] \<Rightarrow> ev_max | d # _ \<Rightarrow> dup_version d) (p\<lparr>pg_log := l'\<rparr>))"

definition extend_dups_head :: "pg_log_dup list \<Rightarrow> 'h pglog \<Rightarrow> 'h pglog" where
  "extend_dups_head ods p = (let
     l = pg_log p;
     v = dup_version (hd (pl_dups l));
     new = takeWhile (\<lambda>d. \<not> dup_version d \<ge> v) ods;
     l' = fold index_dup new (l\<lparr>pl_dups := new @ pl_dups l\<rparr>)
     in mark_dirty_to_dups (if new = [] then ev0 else dup_version (last new)) (p\<lparr>pg_log := l'\<rparr>))"

definition drop_dup :: "pg_log_dup \<Rightarrow> 'h pglog \<Rightarrow> 'h pglog" where
  "drop_dup d p = mark_dirty_from_dups (dup_version d) (p\<lparr>pg_log := unindex_dup d ((pg_log p)\<lparr>pl_dups := butlast (pl_dups (pg_log p))\<rparr>)\<rparr>)"

definition merge_log_dups :: "'h pg_log \<Rightarrow> 'h pglog \<Rightarrow> bool \<times> 'h pglog" where
  "merge_log_dups olog p = (let
     ods = pl_dups olog;
     (c, p) = (if ods = [] then (False, p)
       else if pl_dups (pg_log p) = [] then
         (True, p\<lparr>dirty_from_dups := ev0, dirty_to_dups := ev_max, pg_log := fold push_dup ods (pg_log p)\<rparr>)
       else let
         newer = dup_version (last ods) > dup_version (last (pl_dups (pg_log p)));
         p = (if newer then extend_dups_tail ods p else p);
         older = dup_version (hd ods) < dup_version (hd (pl_dups (pg_log p)));
         p = (if older then extend_dups_head ods p else p)
         in (newer \<or> older, p));
     gone = takeWhile (\<lambda>d. dup_version d > pl_tail (pg_log p)) (rev (pl_dups (pg_log p)))
     in (c \<or> gone \<noteq> [], fold drop_dup gone p))"

definition extend_log_tail :: "'h pg_log \<Rightarrow> 'h pg_info \<Rightarrow> 'h pglog \<Rightarrow> 'h pg_log \<times> 'h pg_info \<times> 'h pglog" where
  "extend_log_tail olog info p = (let
     l = pg_log p;
     old = takeWhile (\<lambda>e. \<not> le_version e > pl_tail l) (pl_log olog);
     l' = fold index_entry old l
     in (olog\<lparr>pl_log := drop (length old) (pl_log olog)\<rparr>, info\<lparr>log_tail := pl_tail olog\<rparr>,
         mark_dirty_to (if old = [] then ev0 else le_version (last old))
           (p\<lparr>pg_log := l'\<lparr>pl_log := old @ pl_log l, pl_tail := pl_tail olog\<rparr>\<rparr>)))"

definition merge_stats :: "'h pg_info \<Rightarrow> 'h pg_info \<Rightarrow> 'h pg_info \<times> 'h pg_info" where
  "merge_stats oinfo info = (let
     s = pgi_stats info; os = pgi_stats oinfo;
     os = (if reported_seq os < reported_seq s \<or> reported_epoch os < reported_epoch s
           then os\<lparr>reported_seq := reported_seq s, reported_epoch := reported_epoch s\<rparr> else os);
     info = (if last_backfill info = None then info\<lparr>pgi_stats := os\<rparr> else info)
     in (oinfo\<lparr>pgi_stats := os\<rparr>, info\<lparr>hit_set := hit_set oinfo\<rparr>))"

text \<open>The entries of the other log that are newer than our head, and the version the logs are cut at.\<close>

definition cut_point :: "eversion \<Rightarrow> eversion \<Rightarrow> 'h pg_log \<Rightarrow> eversion \<times> 'h pg_log_entry list" where
  "cut_point head orig_tail olog = (let
     new = rev (takeWhile (\<lambda>e. \<not> le_version e \<le> head) (rev (pl_log olog)));
     shared = dropWhile (\<lambda>e. \<not> le_version e \<le> head) (rev (pl_log olog));
     lb = max (pl_tail olog) orig_tail
     in (case shared of [] \<Rightarrow> lb | e # _ \<Rightarrow> max lb (le_version e), new))"

definition extend_log_head :: "nat \<Rightarrow> 'h::linorder pg_info \<Rightarrow> 'h pg_log \<Rightarrow> eversion \<Rightarrow> 'h pg_info \<Rightarrow> bool \<Rightarrow> 'h pglog \<Rightarrow>
    ('h pg_info \<times> 'h pglog \<times> 'h handler_op list) option" where
  "extend_log_head mx oinfo olog orig_tail info rb p = do {
     let (lb, new) = cut_point (pl_head (pg_log p)) orig_tail olog;
     let p = mark_dirty_from lb p;
     let ocrt = can_rollback_to (pg_log p);
     (dv, l) \<leftarrow> il_rewind_from_head lb (pg_log p);
     let (_, l, ops1) = il_roll_forward_to (pl_head l) l;
     (_, lo, ms, ops2) \<leftarrow> append_log_entries_update_missing mx (last_backfill info) new False (Some l) (pg_missing p) rb;
     l \<leftarrow> lo;
     (ms, ops3) \<leftarrow> merge_divergent_entries mx l dv (last_backfill info) ocrt rb ms;
     let l = skip_can_rollback_to_to_head (l\<lparr>pl_head := pl_head olog\<rparr>);
     Some (info\<lparr>last_update := pl_head olog, last_user_version := last_user_version oinfo, purged_snaps := purged_snaps oinfo,
             pgi_stats := (pgi_stats info)\<lparr>num_objects_missing := num_missing ms\<rparr>\<rparr>,
           p\<lparr>pg_log := l, pg_missing := ms\<rparr>, ops1 @ ops2 @ ops3) }"

definition merge_log :: "nat \<Rightarrow> 'h::linorder pg_info \<Rightarrow> 'h pg_log \<Rightarrow> 'h pg_info \<Rightarrow> bool \<Rightarrow> 'h pglog \<Rightarrow>
    (bool \<times> 'h pg_info \<times> 'h pg_info \<times> 'h pglog \<times> 'h handler_op list) option" where
  "merge_log mx oinfo olog info rb p = do {
     ensure (\<not> pg_log_null (pg_log p) \<or> pl_tail olog = ev0);
     ensure (pl_head (pg_log p) \<ge> pl_tail olog \<and> pl_head olog \<ge> pl_tail (pg_log p));
     let orig_tail = pl_tail (pg_log p);
     let older = pl_tail olog < orig_tail;
     let (olog, info, p) = (if older then extend_log_tail olog info p else (olog, info, p));
     let (oinfo, info) = merge_stats oinfo info;
     let behind = pl_head olog < pl_head (pg_log p);
     (info, p, ops1) \<leftarrow> (if behind then rewind_divergent_log mx (pl_head olog) info rb p else Some (info, p, []));
     let ahead = pl_head olog > pl_head (pg_log p);
     (info, p, ops2) \<leftarrow> (if ahead then extend_log_head mx oinfo olog orig_tail info rb p else Some (info, p, []));
     let (dups, p) = merge_log_dups olog p;
     Some (older \<or> behind \<or> ahead \<or> dups, oinfo, info, p, ops1 @ ops2) }"

end
