(* ===== verification/Pg_Log_Correct.thy ===== *)
theory Pg_Log_Correct
  imports Pg_Log
begin

text \<open>
  What the missing set says is true of the object store. A history is a list of log entries over a base \<open>B\<close>, which gives the version
  of every object before the first of them; \<open>ev0\<close> is an object that does not exist. The store \<open>S\<close> gives the version stored of
  every object, and calls of the log entry handler change it (\<open>store_op\<close>): a rollback is only defined for the version that the entry made.
\<close>

subsection \<open>Histories\<close>

definition ents :: "'h \<Rightarrow> 'h pg_log_entry list \<Rightarrow> 'h pg_log_entry list" where
  "ents h es = filter (\<lambda>e. le_soid e = h \<and> \<not> is_error e) es"

definition creates :: "'h pg_log_entry \<Rightarrow> bool" where
  "creates e \<longleftrightarrow> le_prior_version e = ev0 \<or> is_clone e"

definition result :: "'h pg_log_entry \<Rightarrow> eversion" where
  "result e = (if is_delete e then ev0 else le_version e)"

definition undone :: "'h pg_log_entry \<Rightarrow> eversion" where
  "undone e = (if creates e then ev0 else le_prior_version e)"

definition cur :: "('h \<Rightarrow> eversion) \<Rightarrow> 'h pg_log_entry list \<Rightarrow> 'h \<Rightarrow> eversion" where
  "cur B es h = (if ents h es = [] then B h else result (last (ents h es)))"

definition topv :: "('h \<Rightarrow> eversion) \<Rightarrow> 'h pg_log_entry list \<Rightarrow> 'h \<Rightarrow> eversion" where
  "topv B es h = (if ents h es = [] then B h else le_version (last (ents h es)))"

definition last_deletes :: "'h pg_log_entry list \<Rightarrow> 'h \<Rightarrow> bool" where
  "last_deletes es h \<longleftrightarrow> ents h es \<noteq> [] \<and> is_delete (last (ents h es))"

text \<open>An entry continues a history: it names the version it replaces, or it makes an object that does not exist, and a clone is
  the first entry of its object.\<close>

definition step_ok :: "('h \<Rightarrow> eversion) \<Rightarrow> 'h pg_log_entry list \<Rightarrow> 'h pg_log_entry \<Rightarrow> bool" where
  "step_ok B xs e \<longleftrightarrow> ocr_inv (le_clean_regions e) \<and> (is_error e \<or>
     (topv B xs (le_soid e) < le_version e \<and> undone e = cur B xs (le_soid e) \<and> (is_clone e \<longrightarrow> ents (le_soid e) xs = [])))"

fun history :: "('h \<Rightarrow> eversion) \<Rightarrow> 'h pg_log_entry list \<Rightarrow> 'h pg_log_entry list \<Rightarrow> bool" where
  "history B xs [] = True"
| "history B xs (e # es) = (step_ok B xs e \<and> history B (xs @ [e]) es)"

definition later :: "eversion \<Rightarrow> eversion \<Rightarrow> bool" where
  "later v w \<longleftrightarrow> v < w \<and> vers v < vers w"

definition rising :: "'h pg_log_entry list \<Rightarrow> bool" where
  "rising es \<longleftrightarrow> sorted_wrt (\<lambda>a b. later (le_version a) (le_version b)) es"

lemma history_append: "history B xs (es @ fs) \<longleftrightarrow> history B xs es \<and> history B (xs @ es) fs"
  by (induction es arbitrary: xs) auto

lemma ents_Nil [simp]: "ents h [] = []"
  by (simp add: ents_def)

lemma ents_append [simp]: "ents h (es @ fs) = ents h es @ ents h fs"
  by (simp add: ents_def)

lemma ents_single: "ents h [e] = (if le_soid e = h \<and> \<not> is_error e then [e] else [])"
  by (simp add: ents_def)

lemma ents_Cons: "ents h (e # es) = (if le_soid e = h \<and> \<not> is_error e then e # ents h es else ents h es)"
  by (simp add: ents_def)

lemma set_ents: "e \<in> set (ents h es) \<longleftrightarrow> e \<in> set es \<and> le_soid e = h \<and> \<not> is_error e"
  by (auto simp: ents_def)

lemma cur_append: "ents h fs = [] \<Longrightarrow> cur B (es @ fs) h = cur B es h"
  and topv_append: "ents h fs = [] \<Longrightarrow> topv B (es @ fs) h = topv B es h"
  and last_deletes_append: "ents h fs = [] \<Longrightarrow> last_deletes (es @ fs) h = last_deletes es h"
  by (simp_all add: cur_def topv_def last_deletes_def)

lemma cur_new: "ents h fs \<noteq> [] \<Longrightarrow> cur B (es @ fs) h = result (last (ents h fs))"
  and topv_new: "ents h fs \<noteq> [] \<Longrightarrow> topv B (es @ fs) h = le_version (last (ents h fs))"
  and last_deletes_new: "ents h fs \<noteq> [] \<Longrightarrow> last_deletes (es @ fs) h = is_delete (last (ents h fs))"
  by (simp_all add: cur_def topv_def last_deletes_def)

text \<open>An object that exists has its newest version.\<close>

lemma topv_cur: "cur B es h \<noteq> ev0 \<Longrightarrow> topv B es h = cur B es h \<and> \<not> last_deletes es h"
  by (auto simp: cur_def topv_def last_deletes_def result_def split: if_splits)

lemma history_first:
  assumes "history B xs es" and "ents h es = e # r"
  shows "undone e = cur B xs h \<and> topv B xs h < le_version e"
  using assms
proof (induction es arbitrary: xs)
  case (Cons a es)
  show ?case
  proof (cases "le_soid a = h \<and> \<not> is_error a")
    case True
    then show ?thesis using Cons.prems by (auto simp: ents_Cons step_ok_def)
  next
    case False
    then have "ents h [a] = []" by (auto simp: ents_single)
    then show ?thesis using Cons.IH [of "xs @ [a]"] Cons.prems False
      by (auto simp: ents_Cons cur_append topv_append split: if_splits)
  qed
qed simp

lemma rising_append: "rising (es @ fs) \<longleftrightarrow> rising es \<and> rising fs \<and> (\<forall>e\<in>set es. \<forall>f\<in>set fs. later (le_version e) (le_version f))"
  by (simp add: rising_def sorted_wrt_append)

lemma rising_Cons: "rising (e # fs) \<longleftrightarrow> rising fs \<and> (\<forall>f\<in>set fs. later (le_version e) (le_version f))"
  by (auto simp: rising_def)

lemma rising_filter: "rising es \<Longrightarrow> rising (filter P es)"
  by (simp add: rising_def sorted_wrt_filter)

lemma rising_ents: "rising es \<Longrightarrow> rising (ents h es)"
  by (simp add: ents_def rising_filter)

lemma rising_last: "rising es \<Longrightarrow> e \<in> set es \<Longrightarrow> le_version e \<le> le_version (last es)"
  by (cases es rule: rev_cases) (auto simp: rising_append later_def)

lemma rising_last_vers: "rising es \<Longrightarrow> e \<in> set es \<Longrightarrow> vers (le_version e) \<le> vers (le_version (last es))"
  by (cases es rule: rev_cases) (auto simp: rising_append later_def)

subsection \<open>The store\<close>

fun store_op :: "'h handler_op \<Rightarrow> ('h \<Rightarrow> eversion) \<Rightarrow> ('h \<Rightarrow> eversion) option" where
  "store_op (Rollback e) S = do { ensure (le_can_rollback e \<and> S (le_soid e) = result e); Some (S(le_soid e := undone e)) }"
| "store_op (Rollforward e) S = Some S"
| "store_op (Trim e) S = Some S"
| "store_op (Remove h) S = Some (S(h := ev0))"
| "store_op (TryStash h v) S = Some (S(h := ev0))"

fun store_ops :: "'h handler_op list \<Rightarrow> ('h \<Rightarrow> eversion) \<Rightarrow> ('h \<Rightarrow> eversion) option" where
  "store_ops [] S = Some S"
| "store_ops (p # ps) S = do { S \<leftarrow> store_op p S; store_ops ps S }"

lemma store_ops_append: "store_ops (ps @ qs) S = Option.bind (store_ops ps S) (store_ops qs)"
proof (induction ps arbitrary: S)
  case (Cons p ps)
  then show ?case by (cases "store_op p S") simp_all
qed simp

lemma store_ops_idle [simp]: "store_ops (map Trim es) S = Some S" "store_ops (map Rollforward es) S = Some S"
  by (induction es) simp_all

subsection \<open>What an item promises\<close>

definition tracks :: "('h \<Rightarrow> eversion) \<Rightarrow> 'h pg_log_entry list \<Rightarrow> ('h \<Rightarrow> eversion) \<Rightarrow> 'h \<Rightarrow> pg_missing_item option \<Rightarrow> bool" where
  "tracks B es S h it' = (case it' of
       None \<Rightarrow> S h = cur B es h
     | Some it \<Rightarrow> mi_need it = topv B es h \<and> (mi_have it = ev0 \<or> mi_have it = S h) \<and> (mi_delete it \<longleftrightarrow> last_deletes es h))"

definition accurate :: "'h::linorder option \<Rightarrow> ('h \<Rightarrow> eversion) \<Rightarrow> 'h pg_log_entry list \<Rightarrow> ('h \<Rightarrow> eversion) \<Rightarrow> 'h pg_missing_set \<Rightarrow> bool" where
  "accurate lb B es S ms \<longleftrightarrow> (\<forall>h. \<not> past_backfill lb h \<longrightarrow> tracks B es S h (item_of ms h))"

lemma tracks_cong:
  "ents h fs = [] \<Longrightarrow> tracks B (es @ fs) S h it = tracks B es S h it"
  by (simp add: tracks_def cur_append topv_append last_deletes_append split: option.split)

lemma tracks_store: "S h = S' h \<Longrightarrow> tracks B es S h it = tracks B es S' h it"
  by (simp add: tracks_def split: option.split)

lemma tracks_next:
  assumes "step_ok B es e" and "\<not> is_error e" and "next_item e old it" and "tracks B es S (le_soid e) old"
  shows "tracks B (es @ [e]) S (le_soid e) (Some it)"
  using assms by (auto simp: tracks_def next_item_def step_ok_def topv_def last_deletes_def ents_single undone_def creates_def split: option.splits)

subsection \<open>Appending entries\<close>

text \<open>What an entry that is no error does to the item of its object and to the store.\<close>

definition noted :: "bool \<Rightarrow> 'h pg_log_entry \<Rightarrow> ('h \<Rightarrow> eversion) \<Rightarrow> pg_missing_item option \<Rightarrow> ('h \<Rightarrow> eversion) \<Rightarrow> pg_missing_item option \<Rightarrow> bool" where
  "noted mid e S old S' new \<longleftrightarrow>
     (if mid \<or> \<not> is_delete e then S' (le_soid e) = S (le_soid e) \<and> (\<exists>it. new = Some it \<and> next_item e old it)
      else S' (le_soid e) = ev0 \<and> new = None)"

lemma noted_tracks:
  assumes "noted mid e S old S' new" and "step_ok B es e" and "\<not> is_error e" and "tracks B es S (le_soid e) old"
  shows "tracks B (es @ [e]) S' (le_soid e) new"
proof (cases "mid \<or> \<not> is_delete e")
  case True
  then obtain it where it: "new = Some it" "next_item e old it" "S' (le_soid e) = S (le_soid e)" using assms(1) by (auto simp: noted_def)
  then show ?thesis using tracks_next [OF assms(2,3) it(2) assms(4)] tracks_store [of S' "le_soid e" S] by simp
next
  case False
  then show ?thesis using assms(1,3) by (simp add: noted_def tracks_def cur_def ents_single result_def)
qed

definition same_at :: "'h \<Rightarrow> ('h \<Rightarrow> eversion) \<Rightarrow> 'h pg_missing_set \<Rightarrow> ('h \<Rightarrow> eversion) \<Rightarrow> 'h pg_missing_set \<Rightarrow> bool" where
  "same_at h S ms S' ms' \<longleftrightarrow> S' h = S h \<and> item_of ms' h = item_of ms h"

text \<open>An entry is not older than what is needed of its object.\<close>

definition needs_le :: "'h::linorder option \<Rightarrow> 'h pg_missing_set \<Rightarrow> 'h pg_log_entry \<Rightarrow> bool" where
  "needs_le lb ms e \<longleftrightarrow> (\<forall>it. \<not> past_backfill lb (le_soid e) \<longrightarrow> \<not> is_error e \<longrightarrow> item_of ms (le_soid e) = Some it \<longrightarrow>
     mi_need it \<le> le_version e)"

lemma missing_rm_ok:
  assumes "missing_inv ms" and "\<And>it. item_of ms h = Some it \<Longrightarrow> mi_need it \<le> v"
  shows "missing_inv (missing_rm h v ms) \<and> item_of (missing_rm h v ms) = (item_of ms)(h := None) \<and>
    may_include_deletes (missing_rm h v ms) = may_include_deletes ms"
proof (cases "item_of ms h")
  case (Some it)
  then show ?thesis using rm_iter_ok [OF assms(1) Some] assms(2) [OF Some] by (simp add: missing_rm_def item_gone_def)
qed (use assms(1) in \<open>simp add: missing_rm_def fun_upd_idem\<close>)

text \<open>One entry that concerns the missing set.\<close>

lemma append_entry_live:
  assumes inv: "missing_inv ms" and ocr: "ocr_inv (le_clean_regions e)" and add: "il_add e True l = Some l'"
    and live: "\<not> past_backfill lb (le_soid e)" "\<not> is_error e" and le: "needs_le lb ms e"
  shows "\<exists>ms' ops S'. append_entry mx lb mt True e (Some l) ms = Some (Some l', ms', ops) \<and> store_ops ops S = Some S' \<and>
    missing_inv ms' \<and> may_include_deletes ms' = may_include_deletes ms \<and>
    noted (may_include_deletes ms) e S (item_of ms (le_soid e)) S' (item_of ms' (le_soid e)) \<and>
    (\<forall>h. h \<noteq> le_soid e \<longrightarrow> same_at h S ms S' ms')"
proof (cases "may_include_deletes ms \<or> \<not> is_delete e")
  case True
  obtain ms' it where a: "add_next_event mx e ms = Some ms'" "item_put (le_soid e) it ms ms'" "next_item e (item_of ms (le_soid e)) it"
    using add_next_event_ok [OF inv ocr] by blast
  have "append_entry mx lb mt True e (Some l) ms = Some (Some l', ms', [])"
    using True live add a(1) by (auto simp: append_entry_def is_lost_delete_def is_delete_def)
  then show ?thesis using a(2,3) True by (auto simp: item_put_def noted_def same_at_def)
next
  case False
  have le': "mi_need it \<le> le_version e" if "item_of ms (le_soid e) = Some it" for it
    using le live that by (simp add: needs_le_def)
  obtain ops where ops: "append_entry mx lb mt True e (Some l) ms = Some (Some l', missing_rm (le_soid e) (le_version e) ms, ops)"
    "store_ops ops S = Some (S(le_soid e := ev0))"
    using False live add by (auto simp: append_entry_def)
  then show ?thesis using missing_rm_ok [OF inv le'] False by (auto simp: noted_def same_at_def)
qed

lemma append_entry_ok:
  assumes inv: "missing_inv ms" and ocr: "ocr_inv (le_clean_regions e)" and add: "il_add e True l = Some l'"
    and le: "needs_le lb ms e"
  shows "\<exists>ms' ops S'. append_entry mx lb mt True e (Some l) ms = Some (Some l', ms', ops) \<and> store_ops ops S = Some S' \<and>
    missing_inv ms' \<and> may_include_deletes ms' = may_include_deletes ms \<and>
    (\<not> past_backfill lb (le_soid e) \<longrightarrow> \<not> is_error e \<longrightarrow>
      noted (may_include_deletes ms) e S (item_of ms (le_soid e)) S' (item_of ms' (le_soid e))) \<and>
    (\<forall>h. h \<noteq> le_soid e \<or> past_backfill lb h \<or> is_error e \<longrightarrow> same_at h S ms S' ms')"
proof (cases "\<not> past_backfill lb (le_soid e) \<and> \<not> is_error e")
  case True
  then have live: "\<not> past_backfill lb (le_soid e)" "\<not> is_error e" by simp_all
  have "h \<noteq> le_soid e" if "h \<noteq> le_soid e \<or> past_backfill lb h \<or> is_error e" for h using that live by blast
  then show ?thesis using append_entry_live [OF inv ocr add live le, of mx mt S] by blast
next
  case False
  then have "append_entry mx lb mt True e (Some l) ms = Some (Some l', ms, [])" using add by (auto simp: append_entry_def)
  then show ?thesis using False inv by (auto simp: same_at_def)
qed

text \<open>The log after entries were added.\<close>

definition appended :: "'h pg_log_entry list \<Rightarrow> 'h indexed_log \<Rightarrow> 'h indexed_log \<Rightarrow> bool" where
  "appended es l l' \<longleftrightarrow> pl_log l' = pl_log l @ es \<and> pl_head l' = (if es = [] then pl_head l else le_version (last es)) \<and>
     pl_tail l' = pl_tail l \<and> pl_dups l' = pl_dups l \<and> indexed_objects l' = indexed_objects l \<and>
     (indexed_objects l \<longrightarrow> objects l = objects_of (pl_log l) \<longrightarrow> objects l' = objects_of (pl_log l'))"

lemma objects_of_snoc:
  "objects_of (es @ [e]) = (if object_is_indexed e then (objects_of es)(le_soid e \<mapsto> e) else objects_of es)"
  by (simp add: objects_of_def)

lemma il_add_ok:
  assumes "later (pl_head l) (le_version e)"
  shows "\<exists>l'. il_add e True l = Some l' \<and> appended [e] l l'"
  using assms by (auto simp: il_add_def appended_def later_def objects_of_snoc)

lemma appended_trans: "appended es l l1 \<Longrightarrow> appended fs l1 l2 \<Longrightarrow> appended (es @ fs) l l2"
  by (auto simp: appended_def)

text \<open>The newest entry of an object decides what is said of it, whatever was said before.\<close>

definition settled :: "bool \<Rightarrow> 'h pg_log_entry list \<Rightarrow> ('h \<Rightarrow> eversion) \<Rightarrow> 'h \<Rightarrow> pg_missing_item option \<Rightarrow> bool" where
  "settled mid es S h new \<longleftrightarrow> (let n = last (ents h es) in
     if mid \<or> \<not> is_delete n then \<exists>it. new = Some it \<and> mi_need it = le_version n \<and> (mi_delete it \<longleftrightarrow> is_delete n)
     else S h = ev0 \<and> new = None)"

lemma noted_settled: "noted mid e S old S' new \<Longrightarrow> \<not> is_error e \<Longrightarrow> settled mid [e] S' (le_soid e) new"
  by (auto simp: noted_def settled_def ents_single next_item_def)

lemma settled_Cons: "ents h es \<noteq> [] \<Longrightarrow> settled mid (e # es) S h new = settled mid es S h new"
  by (simp add: settled_def ents_Cons)

lemma settled_first: "ents h es = [] \<Longrightarrow> settled mid (e # es) S h new = settled mid [e] S h new"
  by (simp add: settled_def ents_Cons)

definition append_post :: "'h::linorder option \<Rightarrow> ('h \<Rightarrow> eversion) \<Rightarrow> 'h pg_log_entry list \<Rightarrow> 'h pg_log_entry list \<Rightarrow>
    ('h \<Rightarrow> eversion) \<Rightarrow> 'h pg_missing_set \<Rightarrow> ('h \<Rightarrow> eversion) \<Rightarrow> 'h pg_missing_set \<Rightarrow> bool" where
  "append_post lb B es new S ms S' ms' \<longleftrightarrow> missing_inv ms' \<and> may_include_deletes ms' = may_include_deletes ms \<and>
     (\<forall>h. ents h new = [] \<or> past_backfill lb h \<longrightarrow> same_at h S ms S' ms') \<and>
     (\<forall>h. \<not> past_backfill lb h \<longrightarrow> ents h new \<noteq> [] \<longrightarrow> settled (may_include_deletes ms) new S' h (item_of ms' h)) \<and>
     (\<forall>h. \<not> past_backfill lb h \<longrightarrow> tracks B es S h (item_of ms h) \<longrightarrow> tracks B (es @ new) S' h (item_of ms' h))"

lemma append_post_single:
  assumes inv: "missing_inv ms'" "may_include_deletes ms' = may_include_deletes ms"
    and step: "step_ok B es e"
    and nt: "\<not> past_backfill lb (le_soid e) \<longrightarrow> \<not> is_error e \<longrightarrow>
      noted (may_include_deletes ms) e S (item_of ms (le_soid e)) S' (item_of ms' (le_soid e))"
    and same: "\<forall>h. h \<noteq> le_soid e \<or> past_backfill lb h \<or> is_error e \<longrightarrow> same_at h S ms S' ms'"
  shows "append_post lb B es [e] S ms S' ms'"
proof -
  have tr: "tracks B (es @ [e]) S' h (item_of ms' h)" if h: "\<not> past_backfill lb h" "tracks B es S h (item_of ms h)" for h
  proof (cases "h = le_soid e \<and> \<not> is_error e")
    case True
    then show ?thesis using noted_tracks [OF _ step, of "may_include_deletes ms" S "item_of ms h" S'] nt h by auto
  next
    case False
    then have "same_at h S ms S' ms'" "ents h [e] = []" using same by (auto simp: ents_single)
    then show ?thesis using h(2) tracks_store [of S' h S] by (simp add: same_at_def tracks_cong)
  qed
  have "settled (may_include_deletes ms) [e] S' h (item_of ms' h)" if "\<not> past_backfill lb h" "ents h [e] \<noteq> []" for h
    using that nt noted_settled by (fastforce simp: ents_single split: if_splits)
  moreover have "same_at h S ms S' ms'" if "ents h [e] = [] \<or> past_backfill lb h" for h
    using that same by (auto simp: ents_single split: if_splits)
  ultimately show ?thesis using inv tr by (simp add: append_post_def)
qed

lemma append_post_trans:
  assumes "append_post lb B es [e] S ms S1 ms1" and "append_post lb B (es @ [e]) new S1 ms1 S2 ms2"
  shows "append_post lb B es (e # new) S ms S2 ms2"
proof -
  have "settled (may_include_deletes ms) (e # new) S2 h (item_of ms2 h)" if h: "\<not> past_backfill lb h" "ents h (e # new) \<noteq> []" for h
  proof (cases "ents h new = []")
    case True
    then have "ents h [e] \<noteq> []" using h(2) by (auto simp: ents_Cons ents_single split: if_splits)
    then have "settled (may_include_deletes ms) [e] S1 h (item_of ms1 h)" "same_at h S1 ms1 S2 ms2"
      using assms h(1) True by (simp_all add: append_post_def)
    then have "settled (may_include_deletes ms) [e] S2 h (item_of ms2 h)" by (simp add: same_at_def settled_def Let_def split: if_splits)
    then show ?thesis using True by (simp only: settled_first)
  next
    case False
    then show ?thesis using assms h(1) by (simp add: append_post_def settled_Cons)
  qed
  moreover have "same_at h S ms S2 ms2" if "ents h (e # new) = [] \<or> past_backfill lb h" for h
  proof -
    have "ents h [e] = [] \<and> ents h new = [] \<or> past_backfill lb h" using that by (auto simp: ents_Cons ents_single split: if_splits)
    then have "same_at h S ms S1 ms1" "same_at h S1 ms1 S2 ms2" using assms by (auto simp: append_post_def)
    then show ?thesis by (simp add: same_at_def)
  qed
  ultimately show ?thesis using assms by (auto simp: append_post_def)
qed

lemma append_entries_ok:
  assumes "missing_inv ms" and "history B es new" and "rising new" and "\<forall>e\<in>set new. later (pl_head l) (le_version e)"
    and "\<forall>e\<in>set new. needs_le lb ms e"
  shows "\<exists>l' ms' ops S'. append_entries mx lb mt True new (Some l) ms = Some (Some l', ms', ops) \<and> store_ops ops S = Some S' \<and>
    appended new l l' \<and> append_post lb B es new S ms S' ms'"
  using assms
proof (induction new arbitrary: es l ms S)
  case Nil
  then show ?case by (simp add: appended_def append_post_def same_at_def)
next
  case (Cons e new)
  have e: "step_ok B es e" "history B (es @ [e]) new" "later (pl_head l) (le_version e)" "needs_le lb ms e"
    using Cons.prems by simp_all
  obtain l1 where l1: "il_add e True l = Some l1" "appended [e] l l1" using il_add_ok [OF e(3)] by blast
  have ocr: "ocr_inv (le_clean_regions e)" using e(1) by (simp add: step_ok_def)
  obtain ms1 ops1 S1 where s1: "append_entry mx lb mt True e (Some l) ms = Some (Some l1, ms1, ops1)" "store_ops ops1 S = Some S1"
    and p1: "append_post lb B es [e] S ms S1 ms1"
    using append_entry_ok [OF Cons.prems(1) ocr l1(1) e(4), of mx mt S] append_post_single [OF _ _ e(1)] by blast
  have head: "\<forall>f\<in>set new. later (pl_head l1) (le_version f)" using Cons.prems(3) l1(2) by (simp add: rising_Cons appended_def)
  have le: "needs_le lb ms1 f" if f: "f \<in> set new" for f
  proof -
    have ef: "le_version e \<le> le_version f" using Cons.prems(3) f by (auto simp: rising_Cons later_def)
    have "mi_need it \<le> le_version f" if "\<not> past_backfill lb (le_soid f)" "\<not> is_error f" "item_of ms1 (le_soid f) = Some it" for it
    proof (cases "ents (le_soid f) [e] = []")
      case True
      then have "item_of ms (le_soid f) = Some it" using p1 that by (simp add: append_post_def same_at_def)
      then show ?thesis using Cons.prems(5) that(1,2) f by (simp add: needs_le_def)
    next
      case False
      then have "settled (may_include_deletes ms) [e] S1 (le_soid f) (Some it)" using p1 that by (metis append_post_def)
      then show ?thesis using ef False by (auto simp: settled_def Let_def ents_single split: if_splits)
    qed
    then show ?thesis by (simp add: needs_le_def)
  qed
  have "missing_inv ms1" "rising new" using p1 Cons.prems(3) by (simp_all add: append_post_def rising_Cons)
  from Cons.IH [OF this(1) e(2) this(2) head] le obtain l2 ms2 ops2 S2 where
    s2: "append_entries mx lb mt True new (Some l1) ms1 = Some (Some l2, ms2, ops2)" "store_ops ops2 S1 = Some S2"
    and a2: "appended new l1 l2" and p2: "append_post lb B (es @ [e]) new S1 ms1 S2 ms2" by blast
  show ?case using s1 s2 appended_trans [OF l1(2) a2] append_post_trans [OF p1 p2] by (simp add: store_ops_append)
qed

end
