(* ===== verification/Pg_Log_Merge.thy ===== *)
theory Pg_Log_Merge
  imports Pg_Log_Correct
begin

text \<open>
  Merging the log of another copy: the missing set stays accurate. The two logs share a history \<open>xs\<close>; \<open>dv\<close> are our divergent
  entries, \<open>new\<close> those of the authoritative log. New entries are appended while the missing set still counts the divergent ones, so that
  what it says of an object with both is wrong until the divergent entries of the object are merged.
\<close>

subsection \<open>Sorting divergent entries by object\<close>

definition list_at :: "('h, 'a list) smap \<Rightarrow> 'h \<Rightarrow> 'a list" where
  "list_at m h = (case map_of m h of None \<Rightarrow> [] | Some xs \<Rightarrow> xs)"

lemma split_by_object_ok:
  "smap_wf m \<Longrightarrow> smap_wf (split_by_object es m) \<and>
     list_at (split_by_object es m) h = list_at m h @ filter (\<lambda>e. le_soid e = h) es \<and>
     (map_of (split_by_object es m) h = None \<longleftrightarrow> map_of m h = None \<and> filter (\<lambda>e. le_soid e = h) es = [])"
proof (induction es arbitrary: m)
  case (Cons e es)
  let ?m = "smap_put (le_soid e) (list_at m (le_soid e) @ [e]) m"
  have "split_by_object (e # es) m = split_by_object es ?m" by (simp add: list_at_def)
  moreover have "smap_wf ?m" using Cons.prems by blast
  moreover have "list_at ?m h = list_at m h @ (if le_soid e = h then [e] else [])"
    and "map_of ?m h = None \<longleftrightarrow> map_of m h = None \<and> le_soid e \<noteq> h" by (auto simp: list_at_def smap_simps)
  ultimately show ?case using Cons.IH [of ?m] by simp
qed (simp add: list_at_def)

lemma split_entries:
  "(h, xs) \<in> set (split_by_object es []) \<Longrightarrow> xs = filter (\<lambda>e. le_soid e = h) es \<and> xs \<noteq> []"
  using split_by_object_ok [of "[]" es h] by (auto simp: list_at_def map_of_smap_Some simp flip: map_of_smap_Some split: option.splits)

lemma split_keys: "fst ` set (split_by_object es []) = le_soid ` set es"
proof -
  have "h \<in> fst ` set (split_by_object es []) \<longleftrightarrow> h \<in> le_soid ` set es" for h
    using split_by_object_ok [of "[]" es h] map_of_eq_None_iff [of "split_by_object es []" h] by (auto simp: filter_empty_conv)
  then show ?thesis by blast
qed

lemma split_distinct: "distinct (map fst (split_by_object es []))"
  using split_by_object_ok [of "[]" es undefined] smap_wf_distinct [of "split_by_object es []"] by simp

subsection \<open>Entries of one object\<close>

lemma strip_errors_ok:
  assumes "history B xs dv" and "rising dv" and "seen \<longrightarrow> ents h xs \<noteq> [] \<and> prev = topv B xs h"
    and "if start then prev = ev0 else \<forall>f\<in>set dv. prev < le_version f"
  shows "strip_errors h start seen prev (filter (\<lambda>e. le_soid e = h) dv) = Some (ents h dv)"
  using assms
proof (induction dv arbitrary: xs start seen prev)
  case (Cons e dv)
  have e: "step_ok B xs e" "history B (xs @ [e]) dv" "rising dv" "\<forall>f\<in>set dv. le_version e < le_version f"
    using Cons.prems(1,2) by (auto simp: rising_Cons later_def)
  show ?case
  proof (cases "le_soid e = h")
    case False
    then have "ents h [e] = []" by (simp add: ents_single)
    then have "seen \<longrightarrow> ents h (xs @ [e]) \<noteq> [] \<and> prev = topv B (xs @ [e]) h" using Cons.prems(3) by (simp add: topv_append)
    moreover have "if start then prev = ev0 else \<forall>f\<in>set dv. prev < le_version f" using Cons.prems(4) by simp
    ultimately show ?thesis using Cons.IH [OF e(2,3)] False by (simp add: ents_Cons)
  next
    case True
    let ?prev = "if is_error e then prev else le_version e"
    have "prev = le_prior_version e" if "seen" "\<not> is_error e" "le_prior_version e \<noteq> ev0"
    proof -
      have "\<not> is_clone e" using e(1) that Cons.prems(3) True by (auto simp: step_ok_def)
      then have "le_prior_version e = cur B xs h" using e(1) that True by (simp add: step_ok_def undone_def creates_def)
      then show ?thesis using that Cons.prems(3) topv_cur [of B xs h] by simp
    qed
    then have ok: "(\<not> start \<and> le_prior_version e \<noteq> ev0 \<and> \<not> (\<not> seen \<and> \<not> is_error e)) \<longrightarrow>
       le_version e > prev \<and> (le_prior_version e = prev \<or> is_error e)" using Cons.prems(4) by auto
    have "prev < le_version f" if "f \<in> set dv" for f
    proof (cases start)
      case True
      then show ?thesis using that e(4) Cons.prems(4) ev0_least [of "le_version e"] by (auto intro: le_less_trans)
    qed (use that Cons.prems(4) in simp)
    then have lt: "if False then ?prev = ev0 else \<forall>f\<in>set dv. ?prev < le_version f" using e(4) by simp
    have sn: "(seen \<or> \<not> is_error e) \<longrightarrow> ents h (xs @ [e]) \<noteq> [] \<and> ?prev = topv B (xs @ [e]) h"
      using Cons.prems(3) True by (auto simp: ents_single topv_def)
    have rest: "strip_errors h False (seen \<or> \<not> is_error e) ?prev (filter (\<lambda>e. le_soid e = h) dv) = Some (ents h dv)"
      by (rule Cons.IH [OF e(2,3) sn lt])
    have f: "filter (\<lambda>e. le_soid e = h) (e # dv) = e # filter (\<lambda>e. le_soid e = h) dv" using True by (rule filter.simps(2) [THEN trans, OF if_P])
    have "strip_errors h start seen prev (e # filter (\<lambda>e. le_soid e = h) dv) =
        Option.bind (strip_errors h False (seen \<or> \<not> is_error e) ?prev (filter (\<lambda>e. le_soid e = h) dv))
          (\<lambda>es'. Some (if is_error e then es' else e # es'))"
      by (subst strip_errors.simps(2), subst ensure_bind [OF True], subst ensure_bind [OF ok]) (rule refl)
    then show ?thesis unfolding f rest by (simp add: True ents_Cons)
  qed
qed simp

text \<open>Rolling the entries of an object back, newest first, leaves the version before the first of them.\<close>

lemma rollback_chain:
  assumes "history B xs dv" and "S h = cur B (xs @ dv) h" and "\<forall>e\<in>set (ents h dv). le_can_rollback e"
  shows "store_ops (map Rollback (rev (ents h dv))) S = Some (S(h := cur B xs h))"
  using assms
proof (induction dv arbitrary: S rule: rev_induct)
  case (snoc e dv)
  have e: "history B xs dv" "step_ok B (xs @ dv) e" using snoc.prems(1) by (simp_all add: history_append)
  have can: "\<forall>e\<in>set (ents h dv). le_can_rollback e" using snoc.prems(3) by simp
  show ?case
  proof (cases "le_soid e = h \<and> \<not> is_error e")
    case True
    then have "S h = result e" using snoc.prems(2) by (simp add: cur_def ents_single)
    moreover have "undone e = cur B (xs @ dv) h" using e(2) True by (simp add: step_ok_def)
    ultimately have "store_op (Rollback e) S = Some (S(h := cur B (xs @ dv) h))" using True snoc.prems(3) by (simp add: ents_single)
    moreover have "store_ops (map Rollback (rev (ents h dv))) (S(h := cur B (xs @ dv) h)) = Some (S(h := cur B xs h))"
      using snoc.IH [OF e(1), of "S(h := cur B (xs @ dv) h)"] can by (simp only: fun_upd_same fun_upd_upd)
    ultimately show ?thesis using True by (simp add: ents_single fun_upd_def)
  next
    case False
    then have "ents h [e] = []" by (auto simp: ents_single)
    moreover from this have "S h = cur B (xs @ dv) h" using snoc.prems(2) cur_append [of h "[e]" B "xs @ dv"] by simp
    ultimately show ?thesis using snoc.IH [OF e(1), of S] snoc.prems(3) by simp
  qed
qed (simp add: fun_upd_idem)

definition only_at :: "'h::linorder \<Rightarrow> ('h \<Rightarrow> eversion) \<Rightarrow> 'h pg_missing_set \<Rightarrow> ('h \<Rightarrow> eversion) \<Rightarrow> 'h pg_missing_set \<Rightarrow> bool" where
  "only_at h S ms S' ms' \<longleftrightarrow> missing_inv ms' \<and> may_include_deletes ms' = may_include_deletes ms \<and>
     (\<forall>g. g \<noteq> h \<longrightarrow> same_at g S ms S' ms')"

lemma only_atI:
  assumes "missing_inv ms'" and "may_include_deletes ms' = may_include_deletes ms"
    and "item_of ms' = (item_of ms)(h := it)" and "\<And>g. g \<noteq> h \<Longrightarrow> S' g = S g"
  shows "only_at h S ms S' ms'" "item_of ms' h = it"
  using assms by (simp_all add: only_at_def same_at_def)

text \<open>The store after the object was removed, or left because it is not there.\<close>

lemma remove_trim_ok:
  "store_ops ((if b then [] else [Remove h]) @ map Trim es) S = Some (if b then S else S(h := ev0))"
  by (simp add: store_ops_append)

text \<open>Case 1: there is a newer entry in the log.\<close>

lemma merge_object_newer:
  assumes inv: "missing_inv ms" and n: "objects l h = Some (last (ents h new))" "ents h new \<noteq> []"
    and es: "es \<noteq> []" "\<forall>e\<in>set es. le_version e < le_version (last (ents h new))"
    and st: "settled (may_include_deletes ms) new S h (item_of ms h)"
  shows "\<exists>ms' ops S'. merge_object_entries mx l h es ocrt True ms = Some (ms', ops) \<and> store_ops ops S = Some S' \<and>
    only_at h S ms S' ms' \<and> tracks B (xs @ new) S' h (item_of ms' h)"
proof -
  let ?n = "last (ents h new)" and ?b = "\<not> is_missing h ms \<and> is_delete (last es)"
  let ?ops = "(if ?b then [] else [Remove h]) @ map Trim es"
  have ver: "le_version (hd es) \<le> le_version ?n" "le_version (last es) < le_version ?n" using es by (auto intro: less_imp_le)
  have "\<not> is_error ?n" using n(2) last_in_set [OF n(2)] by (simp add: set_ents)
  then have upd: "is_update ?n \<longleftrightarrow> \<not> is_delete ?n" by (simp add: update_delete_error)
  show ?thesis
  proof (cases "may_include_deletes ms \<or> \<not> is_delete ?n")
    case True
    then obtain it where it: "item_of ms h = Some it" "mi_need it = le_version ?n" "mi_delete it \<longleftrightarrow> is_delete ?n"
      using st by (auto simp: settled_def Let_def)
    note rh = revise_have_ok [OF inv it(1), of ev0]
    then obtain ms' it' where m: "missing_mark_fully_dirty mx h (revise_have h ev0 ms) = Some ms'" "missing_inv ms'"
      "item_of ms' = (item_of (revise_have h ev0 ms))(h \<mapsto> it')" "may_include_deletes ms' = may_include_deletes ms"
      "mi_need it' = mi_need it" "mi_have it' = ev0" "mi_delete it' = mi_delete it"
      using missing_mark_fully_dirty_ok [of "revise_have h ev0 ms" h "it\<lparr>mi_have := ev0\<rparr>" mx] by auto
    have "merge_object_entries mx l h es ocrt True ms = Some (ms', ?ops)"
      using ver True it m(1) n(1) by (auto simp: merge_object_entries_def Let_def upd)
    moreover have "store_ops ?ops S = Some (S(h := ev0))" using it(1) by (simp add: remove_trim_ok is_missing_def)
    moreover have "item_of ms' = (item_of ms)(h := Some it')" using m(3) rh by simp
    moreover have "tracks B (xs @ new) (S(h := ev0)) h (Some it')"
      using m(5-7) it n(2) by (simp add: tracks_def topv_new last_deletes_new)
    ultimately show ?thesis using only_atI [of ms' ms h "Some it'" "S(h := ev0)" S] m(2,4) by auto
  next
    case False
    then have no: "item_of ms h = None" "S h = ev0" using st by (simp_all add: settled_def Let_def)
    then have "merge_object_entries mx l h es ocrt True ms = Some (ms, ?ops)"
      using ver False n(1) by (auto simp: merge_object_entries_def Let_def upd is_missing_def revise_have_def missing_mark_fully_dirty_def)
    moreover have "store_ops ?ops S = Some S" using no(2) by (simp add: remove_trim_ok fun_upd_idem)
    moreover have "tracks B (xs @ new) S h None" using False no n(2) by (simp add: tracks_def cur_new result_def)
    moreover have "only_at h S ms S ms" using inv by (simp add: only_at_def same_at_def)
    ultimately show ?thesis using no(1) by auto
  qed
qed

text \<open>Cases 2 to 5: the object goes back to what it was before the divergent entries. The object is removed first in cases 2 and 5.\<close>

lemma removed_ok:
  assumes "ents h dv \<noteq> []" and "tracks B (xs @ dv) S h (item_of ms h)"
  shows "store_ops ((if \<not> is_missing h ms \<and> is_delete (last (ents h dv)) then [] else [Remove h]) @ map Trim es) S = Some (S(h := ev0))"
  using assms by (auto simp: remove_trim_ok is_missing_def tracks_def cur_new result_def fun_upd_idem)

text \<open>Case 3: the object is missing.\<close>

lemma merge_object_missing:
  assumes inv: "missing_inv ms" and it: "item_of ms h = Some it" and tr: "tracks B (xs @ dv) S h (Some it)"
    and prior: "cur B xs h = prior" "prior \<noteq> ev0"
  shows "\<exists>ms'. (if mi_have it = prior then Some (missing_rm_iter h it ms) else revise_need mx h prior False ms) = Some ms' \<and>
    only_at h S ms S ms' \<and> tracks B xs S h (item_of ms' h)"
proof (cases "mi_have it = prior")
  case True
  then have "S h = prior" using tr prior(2) by (simp add: tracks_def)
  then have "tracks B xs S h None" using prior(1) by (simp add: tracks_def)
  then show ?thesis using True rm_iter_ok [OF inv it] by (auto simp: only_at_def same_at_def item_gone_def)
next
  case False
  obtain ms' it' where r: "revise_need mx h prior False ms = Some ms'" "item_put h it' ms ms'" "mi_need it' = prior"
    "\<not> mi_delete it'" "mi_have it' = mi_have it" using revise_need_ok [OF inv it, of mx prior False] by auto
  have "topv B xs h = prior \<and> \<not> last_deletes xs h" using topv_cur [of B xs h] prior by simp
  then have "tracks B xs S h (Some it')" using tr r by (simp add: tracks_def)
  then show ?thesis using False r by (auto simp: only_at_def same_at_def item_put_def)
qed

text \<open>Case 5: the object is stored and cannot be rolled back.\<close>

lemma merge_object_unrollable:
  assumes inv: "missing_inv ms" and no: "item_of ms h = None" and prior: "cur B xs h = prior" "prior \<noteq> ev0"
  shows "\<exists>ms'. missing_add mx h prior ev0 False ms = Some ms' \<and> only_at h S ms (S(h := ev0)) ms' \<and>
    tracks B xs (S(h := ev0)) h (item_of ms' h)"
proof -
  obtain ms' it' where r: "missing_add mx h prior ev0 False ms = Some ms'" "item_put h it' ms ms'" "mi_need it' = prior"
    "\<not> mi_delete it'" "mi_have it' = ev0" using missing_add_ok [OF inv no, of mx prior ev0 False] by auto
  have "topv B xs h = prior \<and> \<not> last_deletes xs h" using topv_cur [of B xs h] prior by simp
  then have "tracks B xs (S(h := ev0)) h (Some it')" using r by (simp add: tracks_def)
  then show ?thesis using r by (auto simp: only_at_def same_at_def item_put_def)
qed

lemma merge_object_created:
  assumes inv: "missing_inv ms" and cr: "creates (hd es)" and c: "undone (hd es) = cur B xs h"
    and none: "(case objects l h of None \<Rightarrow> None | Some n \<Rightarrow> if le_version n \<ge> le_version (hd es) then Some n else None) = None"
  shows "\<exists>ms'. merge_object_entries mx l h es ocrt True ms =
      Some (ms', (if \<not> is_missing h ms \<and> is_delete (last es) then [] else [Remove h]) @ map Trim es) \<and>
    only_at h S ms (S(h := ev0)) ms' \<and> tracks B xs (S(h := ev0)) h (item_of ms' h)"
proof -
  let ?ms = "case item_of ms h of None \<Rightarrow> ms | Some it \<Rightarrow> missing_rm_iter h it ms"
  have "tracks B xs (S(h := ev0)) h None" using c cr by (simp add: tracks_def undone_def)
  moreover have "only_at h S ms (S(h := ev0)) ?ms \<and> item_of ?ms h = None"
    using inv rm_iter_ok [OF inv] by (auto simp: only_at_def same_at_def item_gone_def split: option.split)
  ultimately show ?thesis unfolding merge_object_entries_def Let_def none using cr by (simp add: creates_def)
qed

lemma merge_object_older:
  assumes inv: "missing_inv ms" and hist: "history B xs dv" and es: "ents h dv \<noteq> []"
    and n: "\<And>n. objects l h = Some n \<Longrightarrow> le_version n < le_version (hd (ents h dv))"
    and tr: "tracks B (xs @ dv) S h (item_of ms h)"
  shows "\<exists>ms' ops S'. merge_object_entries mx l h (ents h dv) ocrt True ms = Some (ms', ops) \<and> store_ops ops S = Some S' \<and>
    only_at h S ms S' ms' \<and> tracks B xs S' h (item_of ms' h)"
proof -
  let ?es = "ents h dv" and ?prior = "le_prior_version (hd (ents h dv))"
  let ?ops = "(if \<not> is_missing h ms \<and> is_delete (last ?es) then [] else [Remove h]) @ map Trim ?es"
  have first: "undone (hd ?es) = cur B xs h" using history_first [OF hist, of h "hd ?es" "tl ?es"] es by simp
  have none: "(case objects l h of None \<Rightarrow> None | Some n \<Rightarrow> if le_version n \<ge> le_version (hd ?es) then Some n else None) = None"
    using n by (auto simp: leD split: option.split)
  note gone = removed_ok [OF es tr]
  show ?thesis
  proof (cases "creates (hd ?es)")
    case True
    then show ?thesis using gone merge_object_created [OF inv True first none, of mx ocrt S] by auto
  next
    case False
    then have prior: "cur B xs h = ?prior" "?prior \<noteq> ev0" "\<not> is_clone (hd ?es)" using first by (simp_all add: undone_def creates_def)
    show ?thesis
    proof (cases "item_of ms h")
      case (Some it)
      then show ?thesis unfolding merge_object_entries_def Let_def none
        using merge_object_missing [OF inv Some _ prior(1,2), of dv S mx] tr prior by auto
    next
      case None
      show ?thesis
      proof (cases "\<forall>e\<in>set ?es. le_can_rollback e \<and> \<not> le_version e \<le> ocrt")
        case True
        then have "merge_object_entries mx l h ?es ocrt True ms = Some (ms, map Rollback (rev ?es))"
          unfolding merge_object_entries_def Let_def none using None prior by simp
        moreover have "store_ops (map Rollback (rev ?es)) S = Some (S(h := cur B xs h))"
          using rollback_chain [OF hist] tr None True by (simp add: tracks_def)
        moreover have "tracks B xs (S(h := cur B xs h)) h None" by (simp add: tracks_def)
        ultimately show ?thesis using inv None by (auto simp: only_at_def same_at_def)
      next
        case False
        obtain ms' where r: "missing_add mx h ?prior ev0 False ms = Some ms'" "only_at h S ms (S(h := ev0)) ms'"
          "tracks B xs (S(h := ev0)) h (item_of ms' h)" using merge_object_unrollable [OF inv None prior(1,2)] by blast
        have "merge_object_entries mx l h ?es ocrt True ms = Some (ms', ?ops)"
          unfolding merge_object_entries_def Let_def none using None prior False r(1) by auto
        then show ?thesis using gone r(2,3) by auto
      qed
    qed
  qed
qed

subsection \<open>All divergent entries\<close>

text \<open>The log holds a part of \<open>xs\<close> and then \<open>new\<close>; the entries \<open>dv\<close> were after \<open>xs\<close> and have left it.\<close>

definition forked :: "('h \<Rightarrow> eversion) \<Rightarrow> 'h pg_log_entry list \<Rightarrow> 'h pg_log_entry list \<Rightarrow> 'h pg_log_entry list \<Rightarrow> 'h indexed_log \<Rightarrow> bool" where
  "forked B xs dv new l \<longleftrightarrow> history B xs dv \<and> rising dv \<and> (\<forall>e\<in>set dv. \<forall>n\<in>set new. le_version e < le_version n) \<and>
     (\<forall>h. ents h new \<noteq> [] \<longrightarrow> objects l h = Some (last (ents h new))) \<and>
     (\<forall>h n. ents h new = [] \<longrightarrow> objects l h = Some n \<longrightarrow> (\<forall>e\<in>set dv. le_version n < le_version e))"

text \<open>What is said of an object whose divergent entries were not merged yet.\<close>

definition ready :: "bool \<Rightarrow> ('h \<Rightarrow> eversion) \<Rightarrow> 'h pg_log_entry list \<Rightarrow> 'h pg_log_entry list \<Rightarrow> 'h pg_log_entry list \<Rightarrow>
    ('h \<Rightarrow> eversion) \<Rightarrow> 'h \<Rightarrow> pg_missing_item option \<Rightarrow> bool" where
  "ready mid B xs dv new S h it \<longleftrightarrow>
     (if ents h new = [] then tracks B (xs @ dv) S h it else settled mid new S h it)"

lemma ready_store: "S h = S' h \<Longrightarrow> ready mid B xs dv new S h it = ready mid B xs dv new S' h it"
  by (simp add: ready_def tracks_def settled_def Let_def split: option.split)

definition object_post :: "'h::linorder option \<Rightarrow> ('h \<Rightarrow> eversion) \<Rightarrow> 'h pg_log_entry list \<Rightarrow> 'h pg_log_entry list \<Rightarrow> 'h pg_log_entry list \<Rightarrow>
    'h set \<Rightarrow> ('h \<Rightarrow> eversion) \<Rightarrow> 'h pg_missing_set \<Rightarrow> ('h \<Rightarrow> eversion) \<Rightarrow> 'h pg_missing_set \<Rightarrow> bool" where
  "object_post lb B xs dv new H S ms S' ms' \<longleftrightarrow> missing_inv ms' \<and> may_include_deletes ms' = may_include_deletes ms \<and>
     (\<forall>h. h \<notin> H \<or> past_backfill lb h \<or> ents h dv = [] \<longrightarrow> same_at h S ms S' ms') \<and>
     (\<forall>h\<in>H. \<not> past_backfill lb h \<longrightarrow> ents h dv \<noteq> [] \<longrightarrow> tracks B (xs @ new) S' h (item_of ms' h))"

lemma object_post_idle: "missing_inv ms \<Longrightarrow> \<forall>h\<in>H. past_backfill lb h \<or> ents h dv = [] \<Longrightarrow> object_post lb B xs dv new H S ms S ms"
  by (auto simp: object_post_def same_at_def)

lemma object_post_single:
  "only_at h S ms S' ms' \<Longrightarrow> tracks B (xs @ new) S' h (item_of ms' h) \<Longrightarrow> \<not> past_backfill lb h \<Longrightarrow> ents h dv \<noteq> [] \<Longrightarrow>
     object_post lb B xs dv new {h} S ms S' ms'"
  by (auto simp: object_post_def only_at_def)

lemma merge_object_divergent_ok:
  assumes inv: "missing_inv ms" and fk: "forked B xs dv new l" and ne: "filter (\<lambda>e. le_soid e = h) dv \<noteq> []"
    and rd: "\<not> past_backfill lb h \<Longrightarrow> ready (may_include_deletes ms) B xs dv new S h (item_of ms h)"
  shows "\<exists>ms' ops S'. merge_object_divergent_entries mx l h (filter (\<lambda>e. le_soid e = h) dv) lb ocrt True ms = Some (ms', ops) \<and>
    store_ops ops S = Some S' \<and> object_post lb B xs dv new {h} S ms S' ms'"
proof -
  let ?f = "filter (\<lambda>e. le_soid e = h) dv"
  have strip: "strip_errors h True False ev0 ?f = Some (ents h dv)"
    using fk by (intro strip_errors_ok [where xs = xs and B = B]) (simp_all add: forked_def)
  consider "past_backfill lb h \<or> ents h dv = []" | "\<not> past_backfill lb h" "ents h dv \<noteq> []" by blast
  then show ?thesis
  proof cases
    case 1
    then have "merge_object_divergent_entries mx l h ?f lb ocrt True ms = Some (ms, [])"
      using strip ne by (auto simp: merge_object_divergent_entries_def)
    then show ?thesis using object_post_idle [OF inv] 1 by fastforce
  next
    case 2
    have eq: "merge_object_divergent_entries mx l h ?f lb ocrt True ms = merge_object_entries mx l h (ents h dv) ocrt True ms"
      using strip ne 2 by (simp add: merge_object_divergent_entries_def)
    have dv: "e \<in> set dv" if "e \<in> set (ents h dv)" for e using that by (simp add: set_ents)
    have "\<exists>ms' ops S'. merge_object_entries mx l h (ents h dv) ocrt True ms = Some (ms', ops) \<and> store_ops ops S = Some S' \<and>
      only_at h S ms S' ms' \<and> tracks B (xs @ new) S' h (item_of ms' h)"
    proof (cases "ents h new = []")
      case True
      have "le_version n < le_version (hd (ents h dv))" if "objects l h = Some n" for n
        using fk that True dv [OF hd_in_set [OF 2(2)]] by (auto simp: forked_def)
      moreover have "history B xs dv" using fk by (simp add: forked_def)
      moreover have "tracks B (xs @ dv) S h (item_of ms h)" using rd [OF 2(1)] True by (simp add: ready_def)
      ultimately show ?thesis using merge_object_older [OF inv _ 2(2), where B = B and xs = xs] True by (simp add: tracks_cong)
    next
      case False
      then have "last (ents h new) \<in> set new" using last_in_set [OF False] by (simp add: set_ents)
      then have "\<forall>e\<in>set (ents h dv). le_version e < le_version (last (ents h new))" using fk dv by (auto simp: forked_def)
      moreover have "objects l h = Some (last (ents h new))" using fk False by (simp add: forked_def)
      moreover have "settled (may_include_deletes ms) new S h (item_of ms h)" using rd [OF 2(1)] False by (simp add: ready_def)
      ultimately show ?thesis using merge_object_newer [OF inv _ False 2(2)] by blast
    qed
    then show ?thesis using eq object_post_single [of h S ms _ _ B xs new lb dv] 2 by (metis (no_types, lifting))
  qed
qed

lemma object_post_trans:
  assumes "object_post lb B xs dv new {h} S ms S1 ms1" and "object_post lb B xs dv new H S1 ms1 S2 ms2" and "h \<notin> H"
  shows "object_post lb B xs dv new (insert h H) S ms S2 ms2"
proof -
  have "same_at g S ms S2 ms2" if "g \<notin> insert h H \<or> past_backfill lb g \<or> ents g dv = []" for g
  proof -
    have "same_at g S ms S1 ms1" "same_at g S1 ms1 S2 ms2" using assms that by (auto simp: object_post_def)
    then show ?thesis by (simp add: same_at_def)
  qed
  moreover have "tracks B (xs @ new) S2 h (item_of ms2 h)" if "\<not> past_backfill lb h" "ents h dv \<noteq> []"
  proof -
    have "tracks B (xs @ new) S1 h (item_of ms1 h)" "same_at h S1 ms1 S2 ms2" using assms that by (simp_all add: object_post_def)
    then show ?thesis using tracks_store [of S2 h S1] by (simp add: same_at_def)
  qed
  ultimately show ?thesis using assms(1,2) by (auto simp: object_post_def)
qed

lemma merge_divergent_objects_ok:
  assumes "missing_inv ms" and fk: "forked B xs dv new l" and "distinct (map fst m)"
    and "\<forall>(h, es)\<in>set m. es = filter (\<lambda>e. le_soid e = h) dv \<and> es \<noteq> []"
    and "\<forall>h\<in>fst ` set m. \<not> past_backfill lb h \<longrightarrow> ready (may_include_deletes ms) B xs dv new S h (item_of ms h)"
  shows "\<exists>ms' ops S'. merge_divergent_objects mx l m lb ocrt True ms = Some (ms', ops) \<and> store_ops ops S = Some S' \<and>
    object_post lb B xs dv new (fst ` set m) S ms S' ms'"
  using assms(1,3-5)
proof (induction m arbitrary: ms S)
  case Nil
  then show ?case using object_post_idle [of ms "{}"] by simp
next
  case (Cons p m)
  obtain h es where p: "p = (h, es)" by (cases p)
  then have es: "es = filter (\<lambda>e. le_soid e = h) dv" "filter (\<lambda>e. le_soid e = h) dv \<noteq> []" using Cons.prems(3) by auto
  have rd: "ready (may_include_deletes ms) B xs dv new S h (item_of ms h)" if "\<not> past_backfill lb h"
    using Cons.prems(4) p that by simp
  obtain ms1 ops1 S1 where s1: "merge_object_divergent_entries mx l h es lb ocrt True ms = Some (ms1, ops1)" "store_ops ops1 S = Some S1"
    and p1: "object_post lb B xs dv new {h} S ms S1 ms1"
    using merge_object_divergent_ok [OF Cons.prems(1) fk es(2) rd, of lb mx ocrt] es(1) by blast
  have "ready (may_include_deletes ms1) B xs dv new S1 g (item_of ms1 g)" if g: "g \<in> fst ` set m" "\<not> past_backfill lb g" for g
  proof -
    have "g \<noteq> h" using g(1) Cons.prems(2) p by auto
    then have "same_at g S ms S1 ms1" using p1 by (simp add: object_post_def)
    moreover have "ready (may_include_deletes ms) B xs dv new S g (item_of ms g)" using Cons.prems(4) g by auto
    ultimately show ?thesis using p1 ready_store [of S1 g S] by (simp add: same_at_def object_post_def)
  qed
  moreover have "missing_inv ms1" "distinct (map fst m)" "\<forall>(h, es)\<in>set m. es = filter (\<lambda>e. le_soid e = h) dv \<and> es \<noteq> []"
    using p1 Cons.prems by (simp_all add: object_post_def)
  ultimately obtain ms2 ops2 S2 where s2: "merge_divergent_objects mx l m lb ocrt True ms1 = Some (ms2, ops2)" "store_ops ops2 S1 = Some S2"
    and p2: "object_post lb B xs dv new (fst ` set m) S1 ms1 S2 ms2" using Cons.IH [of ms1 S1] by blast
  have "h \<notin> fst ` set m" using Cons.prems(2) p by auto
  then show ?case using s1 s2 object_post_trans [OF p1 p2] p by (simp add: store_ops_append)
qed

text \<open>Objects without divergent entries are right already; the others become right.\<close>

lemma merge_divergent_ok:
  assumes inv: "missing_inv ms" and fk: "forked B xs dv new l"
    and rd: "\<And>h. \<not> past_backfill lb h \<Longrightarrow> ready (may_include_deletes ms) B xs dv new S h (item_of ms h)"
    and tr: "\<And>h. \<not> past_backfill lb h \<Longrightarrow> ents h dv = [] \<Longrightarrow> tracks B (xs @ new) S h (item_of ms h)"
  shows "\<exists>ms' ops S'. merge_divergent_entries mx l dv lb ocrt True ms = Some (ms', ops) \<and> store_ops ops S = Some S' \<and>
    missing_inv ms' \<and> may_include_deletes ms' = may_include_deletes ms \<and> accurate lb B (xs @ new) S' ms'"
proof -
  let ?m = "split_by_object dv []"
  have es: "\<forall>(h, es)\<in>set ?m. es = filter (\<lambda>e. le_soid e = h) dv \<and> es \<noteq> []" using split_entries by blast
  obtain ms' ops S' where s: "merge_divergent_objects mx l ?m lb ocrt True ms = Some (ms', ops)" "store_ops ops S = Some S'"
    and p: "object_post lb B xs dv new (fst ` set ?m) S ms S' ms'"
    using merge_divergent_objects_ok [OF inv fk split_distinct es, of lb S mx ocrt] rd by blast
  have "tracks B (xs @ new) S' h (item_of ms' h)" if h: "\<not> past_backfill lb h" for h
  proof (cases "ents h dv = []")
    case True
    then have "same_at h S ms S' ms'" using p by (simp add: object_post_def)
    then show ?thesis using tr [OF h True] tracks_store [of S' h S] by (simp add: same_at_def)
  next
    case False
    then have "h \<in> fst ` set ?m" using last_in_set [OF False] by (force simp: split_keys set_ents)
    then show ?thesis using p h False unfolding object_post_def by blast
  qed
  then show ?thesis using s p by (simp add: merge_divergent_entries_def accurate_def object_post_def)
qed

end
