(* ===== verification/Pg_Log_Fork.thy ===== *)
theory Pg_Log_Fork
  imports Pg_Log_Merge
begin

text \<open>
  \<open>merge_log\<close> on two logs that share a history. A log holds the entries of its history that are newer than its tail. No tail is
  divergent: entries of only one history are later than both tails.
\<close>

subsection \<open>The index by object\<close>

lemma objects_of_eq: "objects_of es h = (if ents h es = [] then None else Some (last (ents h es)))"
proof (induction es rule: rev_induct)
  case (snoc e es)
  then show ?case by (simp add: objects_of_snoc object_is_indexed_def ents_single)
qed (simp add: objects_of_def)

lemma objects_of_append: "objects_of (es @ fs) = objects_of es ++ objects_of fs"
  by (rule ext) (simp add: objects_of_eq map_add_def)

lemma objects_of_member: "objects_of es h = Some n \<Longrightarrow> n \<in> set es"
  using last_in_set [of "ents h es"] by (auto simp: objects_of_eq set_ents split: if_splits)

lemma index_entry_flag [simp]: "indexed_objects (index_entry e l) = indexed_objects l"
  by (simp add: index_entry_def)

lemma index_older:
  assumes "indexed_objects l" and "\<And>h n e. objects l h = Some n \<Longrightarrow> e \<in> set old \<Longrightarrow> le_version e < le_version n" and "rising old"
  shows "objects (fold index_entry old l) = objects_of old ++ objects l \<and> indexed_objects (fold index_entry old l)"
  using assms
proof (induction old rule: rev_induct)
  case (snoc e old)
  let ?l = "fold index_entry old l"
  have IH: "objects ?l = objects_of old ++ objects l" "indexed_objects ?l" using snoc by (auto simp: rising_append)
  have older: "le_version n < le_version e" if "objects_of old h = Some n" for h n
    using snoc.prems(3) objects_of_member [OF that] by (auto simp: rising_append later_def)
  have newer: "le_version e < le_version n" if "objects l h = Some n" for h n using snoc.prems(2) [OF that] by simp
  have "objects (index_entry e ?l) = objects_of (old @ [e]) ++ objects l"
  proof (cases "objects l (le_soid e)")
    case None
    then have "case objects ?l (le_soid e) of None \<Rightarrow> True | Some e' \<Rightarrow> le_version e' < le_version e"
      using older IH(1) by (auto simp: map_add_def split: option.split)
    then show ?thesis using None IH by (simp add: index_entry_def objects_of_snoc object_is_indexed_def map_add_upd_left domIff)
  next
    case (Some n)
    then have "\<not> (case objects ?l (le_soid e) of None \<Rightarrow> True | Some e' \<Rightarrow> le_version e' < le_version e)"
      using newer [OF Some] IH(1) by (simp add: less_asym)
    moreover have "(objects_of old)(le_soid e \<mapsto> e) ++ objects l = objects_of old ++ objects l"
      using Some by (auto simp: map_add_def fun_eq_iff split: option.split)
    ultimately show ?thesis using IH(1) by (simp add: index_entry_def objects_of_snoc)
  qed
  then show ?case using IH(2) by simp
qed (simp add: objects_of_def)

lemma fold_index_entry_log [simp]:
  "pl_log (fold index_entry old l) = pl_log l" "pl_head (fold index_entry old l) = pl_head l" "pl_tail (fold index_entry old l) = pl_tail l"
  by (induction old arbitrary: l) (simp_all add: index_entry_def)

subsection \<open>Rewinding\<close>

lemma rewind_loop_ok:
  assumes "\<forall>e\<in>set dv. later n (le_version e)" and "c = [] \<or> vers (le_version (last c)) \<le> vers n"
  shows "rewind_loop n (rev (c @ dv)) acc = Some (rev c, dv @ acc)"
  using assms(1)
proof (induction dv arbitrary: acc rule: rev_induct)
  case Nil
  show ?case using assms(2) by (cases c rule: rev_cases) auto
next
  case (snoc e dv)
  then show ?case by (simp add: later_def)
qed

definition indexed :: "'h indexed_log \<Rightarrow> bool" where
  "indexed l \<longleftrightarrow> indexed_objects l \<and> objects l = objects_of (pl_log l)"

lemma il_rewind_ok:
  assumes "pl_log l = c @ dv" and "pl_tail l \<le> n" and "\<forall>e\<in>set dv. later n (le_version e)"
    and "c = [] \<or> vers (le_version (last c)) \<le> vers n"
  shows "\<exists>l'. il_rewind_from_head n l = Some (dv, l') \<and> pl_log l' = c \<and> pl_head l' = n \<and> pl_tail l' = pl_tail l \<and> indexed l'"
  using assms rewind_loop_ok [OF assms(3,4), of "[]"]
  by (simp add: il_rewind_from_head_def pg_log_rewind_from_head_def il_index_def reset_riter_def indexed_def)

lemma roll_forward_log:
  assumes "il_roll_forward_to v l = (d, l', ops)"
  shows "pl_log l' = pl_log l \<and> pl_head l' = pl_head l \<and> pl_tail l' = pl_tail l \<and> objects l' = objects l \<and>
    indexed_objects l' = indexed_objects l \<and> store_ops ops S = Some S"
  using assms by (auto simp: il_roll_forward_to_def advance_can_rollback_to_def Let_def)

lemma skip_log [simp]:
  "pl_log (skip_can_rollback_to_to_head l) = pl_log l" "pl_head (skip_can_rollback_to_to_head l) = pl_head l"
  "pl_tail (skip_can_rollback_to_to_head l) = pl_tail l" "objects (skip_can_rollback_to_to_head l) = objects l"
  "indexed_objects (skip_can_rollback_to_to_head l) = indexed_objects l"
  by (simp_all add: skip_can_rollback_to_to_head_def advance_can_rollback_to_def Let_def)

subsection \<open>Duplicates\<close>

text \<open>The lists of past requests do not touch the log or the missing set.\<close>

definition same_log :: "'h pglog \<Rightarrow> 'h pglog \<Rightarrow> bool" where
  "same_log p p' \<longleftrightarrow> pg_missing p' = pg_missing p \<and> pl_log (pg_log p') = pl_log (pg_log p) \<and> pl_head (pg_log p') = pl_head (pg_log p) \<and>
     pl_tail (pg_log p') = pl_tail (pg_log p) \<and> objects (pg_log p') = objects (pg_log p) \<and>
     indexed_objects (pg_log p') = indexed_objects (pg_log p)"

lemma same_log_refl [simp]: "same_log p p"
  by (simp add: same_log_def)

lemma same_log_trans: "same_log p q \<Longrightarrow> same_log q r \<Longrightarrow> same_log p r"
  by (simp add: same_log_def)

lemma index_dup_log [simp]:
  "pl_log (index_dup d l) = pl_log l" "pl_head (index_dup d l) = pl_head l" "pl_tail (index_dup d l) = pl_tail l"
  "objects (index_dup d l) = objects l" "indexed_objects (index_dup d l) = indexed_objects l"
  by (simp_all add: index_dup_def)

lemma fold_index_dup_log [simp]:
  "pl_log (fold index_dup ds l) = pl_log l" "pl_head (fold index_dup ds l) = pl_head l" "pl_tail (fold index_dup ds l) = pl_tail l"
  "objects (fold index_dup ds l) = objects l" "indexed_objects (fold index_dup ds l) = indexed_objects l"
  by (induction ds arbitrary: l) simp_all

lemma fold_push_dup_log [simp]:
  "pl_log (fold push_dup ds l) = pl_log l" "pl_head (fold push_dup ds l) = pl_head l" "pl_tail (fold push_dup ds l) = pl_tail l"
  "objects (fold push_dup ds l) = objects l" "indexed_objects (fold push_dup ds l) = indexed_objects l"
  by (induction ds arbitrary: l) (simp_all add: push_dup_def)

lemma mark_same [simp]: "same_log p (mark_dirty_from_dups v q) = same_log p q" "same_log p (mark_dirty_to_dups v q) = same_log p q"
  by (simp_all add: same_log_def mark_dirty_from_dups_def mark_dirty_to_dups_def)

lemma extend_dups_same: "same_log p (extend_dups_tail ods p)" "same_log p (extend_dups_head ods p)"
  by (simp_all add: extend_dups_tail_def extend_dups_head_def Let_def) (simp_all add: same_log_def)

lemma drop_dup_same: "same_log p (fold drop_dup ds p)"
proof (induction ds arbitrary: p)
  case (Cons d ds)
  have "same_log p (drop_dup d p)" by (simp add: drop_dup_def) (simp add: same_log_def unindex_dup_def)
  then show ?case using Cons.IH [of "drop_dup d p"] same_log_trans by auto
qed simp

lemma merge_log_dups_same: "merge_log_dups olog p = (c, p') \<Longrightarrow> same_log p p'"
proof -
  let ?ods = "pl_dups olog"
  let ?q = "if ?ods = [] then p else if pl_dups (pg_log p) = []
      then p\<lparr>dirty_from_dups := ev0, dirty_to_dups := ev_max, pg_log := fold push_dup ?ods (pg_log p)\<rparr>
      else let p = (if dup_version (last ?ods) > dup_version (last (pl_dups (pg_log p))) then extend_dups_tail ?ods p else p)
        in if dup_version (hd ?ods) < dup_version (hd (pl_dups (pg_log p))) then extend_dups_head ?ods p else p"
  assume "merge_log_dups olog p = (c, p')"
  then have "\<exists>ds. p' = fold drop_dup ds ?q" by (auto simp: merge_log_dups_def Let_def split: if_splits)
  moreover have "same_log p ?q"
    using extend_dups_same same_log_trans by (auto simp: Let_def) (simp_all add: same_log_def)
  ultimately show ?thesis using drop_dup_same same_log_trans by blast
qed

subsection \<open>Two logs with a common history\<close>

abbreviation above :: "eversion \<Rightarrow> 'h pg_log_entry list \<Rightarrow> 'h pg_log_entry list" where
  "above t es \<equiv> filter (\<lambda>e. t < le_version e) es"

definition head_of :: "eversion \<Rightarrow> 'h pg_log_entry list \<Rightarrow> eversion" where
  "head_of t es = (if es = [] then t else le_version (last es))"

definition holds :: "eversion \<Rightarrow> 'h pg_log_entry list \<Rightarrow> ('h, 'z) pg_log_scheme \<Rightarrow> bool" where
  "holds t es l \<longleftrightarrow> pl_log l = above t es \<and> pl_tail l = t \<and> pl_head l = head_of t es"

definition fork_ok :: "('h \<Rightarrow> eversion) \<Rightarrow> eversion \<Rightarrow> eversion \<Rightarrow> 'h pg_log_entry list \<Rightarrow> 'h pg_log_entry list \<Rightarrow> 'h pg_log_entry list \<Rightarrow> bool" where
  "fork_ok B t ot xs dv new \<longleftrightarrow>
     history B [] xs \<and> history B xs dv \<and> history B xs new \<and> rising (xs @ dv) \<and> rising (xs @ new) \<and>
     (\<forall>e\<in>set dv. \<forall>n\<in>set new. le_version e < le_version n) \<and>
     (\<forall>e\<in>set xs. (le_version e \<le> t \<longleftrightarrow> vers (le_version e) \<le> vers t) \<and> (le_version e \<le> ot \<longleftrightarrow> vers (le_version e) \<le> vers ot)) \<and>
     (\<forall>e\<in>set dv \<union> set new. later t (le_version e) \<and> later ot (le_version e)) \<and>
     ot \<le> head_of t (xs @ dv) \<and> t \<le> head_of ot (xs @ new)"

lemma above_rest: "t < le_version e \<Longrightarrow> rising (e # es) \<Longrightarrow> filter (\<lambda>e. \<not> le_version e > t) es = [] \<and> above t es = es"
  by (auto simp: rising_Cons later_def filter_empty_conv filter_id_conv)

lemma sorted_while:
  "rising es \<Longrightarrow> takeWhile (\<lambda>e. \<not> le_version e > t) es = filter (\<lambda>e. \<not> le_version e > t) es"
  "rising es \<Longrightarrow> dropWhile (\<lambda>e. \<not> le_version e > t) es = above t es"
proof (induction es)
  case (Cons e es)
  {
    case 1
    then show ?case using Cons above_rest [of t e es] by (cases "t < le_version e") (simp_all add: rising_Cons)
  next
    case 2
    then show ?case using Cons above_rest [of t e es] by (cases "t < le_version e") (simp_all add: rising_Cons)
  }
qed simp_all

lemma above_above: "a < b \<Longrightarrow> above b (above a xs) = above b xs"
  by (induction xs) auto

lemma above_split:
  "rising xs \<Longrightarrow> a < b \<Longrightarrow> filter (\<lambda>e. \<not> le_version e > b) (above a xs) @ above b xs = above a xs"
proof (induction xs)
  case (Cons e xs)
  have "filter (\<lambda>e. \<not> le_version e > b) (above a xs) = []" if "b < le_version e"
    using Cons.prems(1) that by (auto simp: rising_Cons later_def filter_empty_conv)
  then show ?case using Cons by (auto simp: rising_Cons)
qed simp

lemma above_all: "\<forall>e\<in>set es. later t (le_version e) \<Longrightarrow> above t es = es"
  by (simp add: filter_id_conv later_def)

text \<open>After the tail is extended our log begins at the smaller tail and the other one has the entries past both.\<close>

definition overlapped :: "eversion \<Rightarrow> eversion \<Rightarrow> 'h pg_log_entry list \<Rightarrow> 'h pg_log_entry list \<Rightarrow> 'h pg_log_entry list \<Rightarrow>
    'h pg_log \<Rightarrow> 'h indexed_log \<Rightarrow> bool" where
  "overlapped t ot xs dv new olog l \<longleftrightarrow>
     pl_log l = above (min t ot) xs @ dv \<and> pl_tail l = min t ot \<and> pl_head l = head_of t (xs @ dv) \<and> indexed l \<and>
     pl_log olog = above (max t ot) xs @ new \<and> pl_tail olog = ot \<and> pl_head olog = head_of ot (xs @ new)"

lemma extend_tail_ok:
  assumes fk: "fork_ok B t ot xs dv new" and l: "holds t (xs @ dv) (pg_log p)" "indexed (pg_log p)" and ol: "holds ot (xs @ new) olog"
    and lt: "ot < t" and ext: "extend_log_tail olog info p = (olog', info', p')"
  shows "overlapped t ot xs dv new olog' (pg_log p') \<and> pg_missing p' = pg_missing p \<and> last_backfill info' = last_backfill info \<and>
    last_update info' = last_update info \<and> pl_dups olog' = pl_dups olog"
proof -
  let ?old = "takeWhile (\<lambda>e. \<not> le_version e > t) (pl_log olog)"
  have r: "rising (above ot (xs @ new))" "rising xs" "rising (pl_log (pg_log p))" using fk l(1)
    by (simp_all add: fork_ok_def holds_def rising_append rising_filter)
  have al: "above t dv = dv" "above t new = new" "above ot new = new" "filter (\<lambda>e. \<not> le_version e > t) new = []"
    using fk by (auto simp: fork_ok_def later_def filter_id_conv filter_empty_conv)
  have olog: "pl_log olog = above ot (xs @ new)" using ol by (simp add: holds_def)
  have old: "?old = filter (\<lambda>e. \<not> le_version e > t) (above ot xs)" using sorted_while(1) [OF r(1), of t] al by (simp add: olog)
  have rest: "drop (length ?old) (pl_log olog) = above t xs @ new"
    unfolding dropWhile_eq_drop [symmetric] olog sorted_while(2) [OF r(1)] above_above [OF lt] using al by simp
  have "le_version e < le_version n" if "e \<in> set ?old" "objects (pg_log p) h = Some n" for e h n
    using that(1) objects_of_member [of "pl_log (pg_log p)" h n] that(2) l by (auto simp: old indexed_def holds_def)
  moreover have "rising ?old" using r(2) by (simp add: old rising_filter)
  ultimately have ix: "objects (fold index_entry ?old (pg_log p)) = objects_of ?old ++ objects (pg_log p)"
    "indexed_objects (fold index_entry ?old (pg_log p))"
    using index_older [of "pg_log p" ?old] l(2) by (auto simp: indexed_def)
  have tail: "pl_tail (pg_log p) = t" using l(1) by (simp add: holds_def)
  have full: "?old @ pl_log (pg_log p) = above ot xs @ dv"
    using above_split [OF r(2) lt] l(1) al by (simp add: old holds_def flip: append_assoc)
  have "indexed ((fold index_entry ?old (pg_log p))\<lparr>pl_log := ?old @ pl_log (pg_log p), pl_tail := ot\<rparr>)"
    using ix l(2) by (simp add: indexed_def objects_of_append)
  then show ?thesis using ext l(1) ol rest lt full
    by (auto simp: extend_log_tail_def Let_def overlapped_def holds_def mark_dirty_to_def indexed_def tail min_def max_def)
qed

lemma overlapped_same:
  assumes "fork_ok B t ot xs dv new" and "holds t (xs @ dv) l" "indexed l" and "holds ot (xs @ new) olog" and "\<not> ot < t"
  shows "overlapped t ot xs dv new olog l"
proof -
  have "t \<le> ot" using assms(5) by simp
  then have "min t ot = t" "max t ot = ot" by simp_all
  then show ?thesis using assms above_all [of dv t] above_all [of new ot] by (simp add: overlapped_def holds_def fork_ok_def)
qed

lemma head_of_new:
  assumes "fork_ok B t ot xs dv new" and "new \<noteq> []"
  shows "head_of t (xs @ dv) < head_of ot (xs @ new)"
proof -
  have n: "last new \<in> set new" using assms(2) by simp
  consider "dv \<noteq> []" | "dv = []" "xs \<noteq> []" | "dv = []" "xs = []" by blast
  then show ?thesis
    by cases (use assms n in \<open>simp_all add: head_of_def fork_ok_def rising_append later_def\<close>)
qed

lemma head_of_divergent:
  assumes "fork_ok B t ot xs dv []" and "dv \<noteq> []"
  shows "head_of ot xs < head_of t (xs @ dv)" and "\<forall>e\<in>set dv. later (head_of ot xs) (le_version e)"
  using assms by (auto simp: head_of_def fork_ok_def rising_append later_def)

text \<open>Where the histories end together the logs have the same head.\<close>

lemma head_of_equal:
  assumes "fork_ok B t ot xs [] []"
  shows "head_of t xs = head_of ot xs"
  using assms by (auto simp: head_of_def fork_ok_def)

definition merged :: "'h::linorder option \<Rightarrow> ('h \<Rightarrow> eversion) \<Rightarrow> eversion \<Rightarrow> eversion \<Rightarrow> 'h pg_log_entry list \<Rightarrow> ('h \<Rightarrow> eversion) \<Rightarrow> 'h pglog \<Rightarrow> bool" where
  "merged lb B t ot es S p \<longleftrightarrow> missing_inv (pg_missing p) \<and> accurate lb B es S (pg_missing p) \<and>
     pl_log (pg_log p) = above (min t ot) es \<and> pl_tail (pg_log p) = min t ot \<and> pl_head (pg_log p) = head_of ot es \<and> indexed (pg_log p)"

lemma forked_old:
  assumes "fork_ok B t ot xs dv new" and "pl_log l = above v xs @ new" and "indexed l"
  shows "forked B xs dv new l"
proof -
  have "le_version n < le_version e" if "ents h new = []" "objects l h = Some n" "e \<in> set dv" for h n e
  proof -
    have "objects_of (above v xs) h = Some n" using that(1,2) assms(2,3) by (auto simp: indexed_def objects_of_eq split: if_splits)
    then have "n \<in> set xs" using objects_of_member by fastforce
    then show ?thesis using assms(1) that(3) by (simp add: fork_ok_def rising_append later_def)
  qed
  moreover have "objects l h = Some (last (ents h new))" if "ents h new \<noteq> []" for h
    using that assms(2,3) by (simp add: indexed_def objects_of_eq)
  ultimately show ?thesis using assms(1) by (simp add: forked_def fork_ok_def rising_append)
qed

lemma rewind_divergent_ok:
  assumes fk: "fork_ok B t ot xs dv []" and ov: "overlapped t ot xs dv [] olog (pg_log p)" and ne: "dv \<noteq> []"
    and inv: "missing_inv (pg_missing p)" and acc: "accurate (last_backfill info) B (xs @ dv) S (pg_missing p)"
  shows "\<exists>info' p' ops S'. rewind_divergent_log mx (pl_head olog) info True p = Some (info', p', ops) \<and> store_ops ops S = Some S' \<and>
    last_backfill info' = last_backfill info \<and> last_update info' = pl_head olog \<and>
    merged (last_backfill info) B t ot xs S' p'"
proof -
  let ?n = "pl_head olog" and ?c = "above (min t ot) xs"
  have n: "?n = head_of ot xs" using ov by (simp add: overlapped_def)
  have last: "?c = [] \<or> vers (le_version (last ?c)) \<le> vers ?n"
  proof (cases "?c = []")
    case False
    then have "last ?c \<in> set xs" "xs \<noteq> []" using last_in_set [OF False] by auto
    moreover have "rising xs" using fk by (simp add: fork_ok_def rising_append)
    ultimately show ?thesis unfolding n using rising_last_vers [of xs "last ?c"] by (simp add: head_of_def)
  qed simp
  have tail: "pl_tail (pg_log p) \<le> ?n" using fk ov by (auto simp: fork_ok_def overlapped_def min_def)
  have lg: "pl_log (pg_log p) = ?c @ dv" using ov by (simp add: overlapped_def)
  obtain l where l: "il_rewind_from_head ?n (pg_log p) = Some (dv, l)" "pl_log l = ?c" "pl_head l = ?n" "pl_tail l = pl_tail (pg_log p)"
    "indexed l" using il_rewind_ok [OF lg tail _ last] head_of_divergent(2) [OF fk ne] n by auto
  have fkd: "forked B xs dv [] l" using forked_old [OF fk _ l(5), of "min t ot"] l(2) by simp
  have rd: "ready (may_include_deletes (pg_missing p)) B xs dv [] S h (item_of (pg_missing p) h)" if "\<not> past_backfill (last_backfill info) h" for h
    using acc that by (simp add: ready_def accurate_def)
  have tr: "tracks B (xs @ []) S h (item_of (pg_missing p) h)" if "\<not> past_backfill (last_backfill info) h" "ents h dv = []" for h
    using acc that(1) tracks_cong [OF that(2), of B xs S] by (auto simp: accurate_def)
  obtain ms ops S' where m: "merge_divergent_entries mx l dv (last_backfill info) (can_rollback_to (pg_log p)) True (pg_missing p) = Some (ms, ops)"
    "store_ops ops S = Some S'" "missing_inv ms" "accurate (last_backfill info) B (xs @ []) S' ms"
    using merge_divergent_ok [OF inv fkd rd tr] by blast
  have "pl_tail l = min t ot" using l(4) ov by (simp add: overlapped_def)
  then show ?thesis using l m n ne by (simp add: rewind_divergent_log_def merged_def mark_dirty_from_def)
qed

lemma while_rev:
  assumes "\<forall>e\<in>set new. P e" and "\<forall>e\<in>set c. \<not> P e"
  shows "takeWhile P (rev (c @ new)) = rev new" "dropWhile P (rev (c @ new)) = rev c"
  using assms by (cases c rule: rev_cases; simp add: takeWhile_append dropWhile_append)+

text \<open>The logs are cut at the end of the common history, or at the larger tail when that is all they share.\<close>

text \<open>The scan from the newest entry of the other log takes its new entries and stops at the last shared one.\<close>

lemma cut_scan:
  assumes fk: "fork_ok B t ot xs dv new" and ov: "overlapped t ot xs dv new olog l"
  shows "cut_point (pl_head l) t olog =
    (case rev (above (max t ot) xs) of [] \<Rightarrow> max t ot | e # _ \<Rightarrow> max (max t ot) (le_version e), new)"
proof -
  let ?c = "above (max t ot) xs" and ?h = "head_of t (xs @ dv)"
  have le: "le_version e \<le> ?h" if "e \<in> set xs" for e
    using fk that rising_last [of "xs @ dv" e] by (auto simp: head_of_def fork_ok_def)
  have gt: "\<not> le_version e \<le> ?h" if "e \<in> set new" for e
  proof -
    have "later t (le_version e)" "\<forall>f\<in>set (xs @ dv). le_version f < le_version e"
      using fk that by (auto simp: fork_ok_def rising_append later_def)
    then have "?h < le_version e"
      using last_in_set [of "xs @ dv"] by (cases "xs @ dv = []") (simp_all only: head_of_def later_def if_True if_False simp_thms)
    then show ?thesis by simp
  qed
  have "takeWhile (\<lambda>e. \<not> le_version e \<le> ?h) (rev (?c @ new)) = rev new" "dropWhile (\<lambda>e. \<not> le_version e \<le> ?h) (rev (?c @ new)) = rev ?c"
    using while_rev [of new "\<lambda>e. \<not> le_version e \<le> ?h" ?c] gt le by auto
  then show ?thesis using ov by (simp add: cut_point_def overlapped_def Let_def max.commute [of ot t])
qed

lemma shared_last_vers:
  assumes fk: "fork_ok B t ot xs dv new" and ne: "above (max t ot) xs \<noteq> []" and e: "e \<in> set xs"
  shows "vers (le_version e) \<le> vers (le_version (last (above (max t ot) xs)))"
proof (cases "max t ot < le_version e")
  case True
  moreover have "rising (above (max t ot) xs)" using fk by (simp add: fork_ok_def rising_append rising_filter)
  ultimately show ?thesis using e rising_last_vers [of "above (max t ot) xs" e] by simp
next
  case m: False
  let ?f = "last (above (max t ot) xs)"
  have c: "?f \<in> set xs" "max t ot < le_version ?f" using last_in_set [OF ne] by auto
  have "(le_version e \<le> t \<longleftrightarrow> vers (le_version e) \<le> vers t) \<and> (le_version e \<le> ot \<longleftrightarrow> vers (le_version e) \<le> vers ot)"
    "(le_version ?f \<le> t \<longleftrightarrow> vers (le_version ?f) \<le> vers t) \<and> (le_version ?f \<le> ot \<longleftrightarrow> vers (le_version ?f) \<le> vers ot)"
    using fk e c(1) by (simp_all add: fork_ok_def)
  then show ?thesis using m c(2) by (auto simp: max_def split: if_splits)
qed

lemma cut_point_ok:
  assumes fk: "fork_ok B t ot xs dv new" and ov: "overlapped t ot xs dv new olog l"
  shows "\<exists>cut. cut_point (pl_head l) t olog = (cut, new) \<and> (\<forall>e\<in>set dv \<union> set new. later cut (le_version e)) \<and>
    min t ot \<le> cut \<and> (\<forall>e\<in>set xs. vers (le_version e) \<le> vers cut)"
proof -
  let ?c = "above (max t ot) xs" and ?m = "max t ot"
  note cp = cut_scan [OF fk ov]
  have lat: "later t (le_version e)" "later ot (le_version e)" "\<forall>f\<in>set xs. later (le_version f) (le_version e)" if "e \<in> set dv \<union> set new" for e
    using fk that by (auto simp: fork_ok_def rising_append)
  show ?thesis
  proof (cases "?c = []")
    case True
    then have "le_version e \<le> ?m" if "e \<in> set xs" for e using that by (auto simp: filter_empty_conv le_max_iff_disj not_less)
    then have "vers (le_version e) \<le> vers ?m" if "e \<in> set xs" for e using fk that by (auto simp: fork_ok_def max_def)
    moreover have "later ?m (le_version e)" if "e \<in> set dv \<union> set new" for e using lat [OF that] by (simp add: max_def)
    moreover have "min t ot \<le> ?m" by (simp add: le_max_iff_disj)
    ultimately show ?thesis using cp True by auto
  next
    case False
    then have c: "last ?c \<in> set xs" "?m < le_version (last ?c)" using last_in_set [OF False] by auto
    have "rev ?c = last ?c # rev (butlast ?c)" using False by (metis append_butlast_last_id rev_eq_Cons_iff rev_rev_ident)
    moreover have "max ?m (le_version (last ?c)) = le_version (last ?c)" using c(2) by (rule max_absorb2 [OF less_imp_le])
    ultimately have cut: "cut_point (pl_head l) t olog = (le_version (last ?c), new)" unfolding cp by (simp only: list.case)
    have "min t ot \<le> le_version (last ?c)" using c(2) by (simp add: min_def max_def split: if_splits)
    then show ?thesis using cut lat(3) c(1) shared_last_vers [OF fk False] by auto
  qed
qed

lemma needs_le_new:
  assumes fk: "fork_ok B t ot xs dv new" and acc: "accurate lb B (xs @ dv) S ms" and n: "n \<in> set new"
  shows "needs_le lb ms n"
proof -
  let ?h = "le_soid n"
  have "topv B (xs @ dv) ?h \<le> le_version n" if "\<not> is_error n"
  proof (cases "ents ?h (xs @ dv) = []")
    case True
    have "n \<in> set (ents ?h new)" using n that by (simp add: set_ents)
    then obtain e r where er: "ents ?h new = e # r" by (cases "ents ?h new") auto
    then have "topv B xs ?h < le_version e" using history_first [of B xs new] fk by (simp add: fork_ok_def)
    moreover have "rising (e # r)" using fk er rising_ents [of new ?h] by (simp add: fork_ok_def rising_append)
    then have "le_version e \<le> le_version n" using \<open>n \<in> set (ents ?h new)\<close> er by (auto simp: rising_Cons later_def)
    ultimately show ?thesis using True by (simp add: topv_def)
  next
    case False
    then have "last (ents ?h (xs @ dv)) \<in> set (xs @ dv)" using last_in_set [OF False] by (auto simp: set_ents)
    then have "le_version (last (ents ?h (xs @ dv))) < le_version n" using fk n by (auto simp: fork_ok_def rising_append later_def)
    then show ?thesis unfolding topv_def if_not_P [OF False] by (rule less_imp_le)
  qed
  moreover have "mi_need it = topv B (xs @ dv) ?h" if "\<not> past_backfill lb ?h" "item_of ms ?h = Some it" for it
  proof -
    have "tracks B (xs @ dv) S ?h (Some it)" using acc that unfolding accurate_def by metis
    then show ?thesis by (simp add: tracks_def)
  qed
  ultimately show ?thesis by (simp add: needs_le_def)
qed

text \<open>After the new entries are appended, the objects of the divergent ones can be merged and the others are accurate.\<close>

lemma ready_appended:
  assumes acc: "accurate lb B (xs @ dv) S ms" and po: "append_post lb B xs new S ms S2 ms2"
  shows "\<not> past_backfill lb h \<Longrightarrow> ready (may_include_deletes ms2) B xs dv new S2 h (item_of ms2 h)"
    and "\<not> past_backfill lb h \<Longrightarrow> ents h dv = [] \<Longrightarrow> tracks B (xs @ new) S2 h (item_of ms2 h)"
proof -
  show "ready (may_include_deletes ms2) B xs dv new S2 h (item_of ms2 h)" if "\<not> past_backfill lb h"
  proof (cases "ents h new = []")
    case True
    then have "same_at h S ms S2 ms2" using po by (simp add: append_post_def)
    moreover have "tracks B (xs @ dv) S h (item_of ms h)" using acc that by (simp add: accurate_def)
    ultimately show ?thesis using True tracks_store [of S2 h S] by (simp add: ready_def same_at_def)
  next
    case False
    then show ?thesis using po that by (simp add: append_post_def ready_def)
  qed
  show "tracks B (xs @ new) S2 h (item_of ms2 h)" if "\<not> past_backfill lb h" "ents h dv = []"
  proof -
    have "tracks B xs S h (item_of ms h)" using acc that(1) tracks_cong [OF that(2), of B xs S] by (auto simp: accurate_def)
    then show ?thesis using po that(1) by (simp add: append_post_def)
  qed
qed

lemma extend_head_ok:
  assumes fk: "fork_ok B t ot xs dv new" and ov: "overlapped t ot xs dv new olog (pg_log p)" and ne: "new \<noteq> []"
    and inv: "missing_inv (pg_missing p)" and acc: "accurate (last_backfill info) B (xs @ dv) S (pg_missing p)"
  shows "\<exists>info' p' ops S'. extend_log_head mx oinfo olog t info True p = Some (info', p', ops) \<and> store_ops ops S = Some S' \<and>
    last_backfill info' = last_backfill info \<and> last_update info' = pl_head olog \<and>
    merged (last_backfill info) B t ot (xs @ new) S' p'"
proof -
  let ?c = "above (min t ot) xs" and ?lb = "last_backfill info" and ?ms = "pg_missing p"
  obtain cut where cut: "cut_point (pl_head (pg_log p)) t olog = (cut, new)" "\<forall>e\<in>set dv \<union> set new. later cut (le_version e)"
    "min t ot \<le> cut" "\<forall>e\<in>set xs. vers (le_version e) \<le> vers cut" using cut_point_ok [OF fk ov] by blast
  have lg: "pl_log (pg_log p) = ?c @ dv" "pl_tail (pg_log p) \<le> cut" using ov cut(3) by (simp_all add: overlapped_def)
  have last: "?c = [] \<or> vers (le_version (last ?c)) \<le> vers cut" using cut(4) last_in_set [of ?c] by auto
  obtain l where l: "il_rewind_from_head cut (pg_log p) = Some (dv, l)" "pl_log l = ?c" "pl_head l = cut" "pl_tail l = pl_tail (pg_log p)"
    "indexed l" using il_rewind_ok [OF lg _ last] cut(2) by auto
  obtain d l1 ops1 where l1: "il_roll_forward_to (pl_head l) l = (d, l1, ops1)" by (cases "il_roll_forward_to (pl_head l) l") auto
  note rf = roll_forward_log [OF l1]
  have hist: "history B xs new" "rising new" "\<forall>e\<in>set new. later (pl_head l1) (le_version e)" "\<forall>e\<in>set new. needs_le ?lb ?ms e"
    using fk cut(2) rf l(3) needs_le_new [OF fk acc] by (auto simp: fork_ok_def rising_append)
  obtain l2 ms2 ops2 S2 where s2: "append_entries mx ?lb False True new (Some l1) ?ms = Some (Some l2, ms2, ops2)" "store_ops ops2 S = Some S2"
    and ap: "appended new l1 l2" and po: "append_post ?lb B xs new S ?ms S2 ms2"
    using append_entries_ok [OF inv hist] by blast
  have "pl_head l1 < le_version (hd new)" using hist(3) ne by (simp add: later_def)
  then have app: "append_log_entries_update_missing mx ?lb new False (Some l1) ?ms True = Some (\<exists>e\<in>set new. \<not> is_error e, Some l2, ms2, ops2)"
    using s2(1) by (simp add: append_log_entries_update_missing_def)
  have l2: "pl_log l2 = ?c @ new" "pl_tail l2 = min t ot" "indexed l2" using ap rf l ov by (auto simp: appended_def indexed_def overlapped_def)
  have fkd: "forked B xs dv new l2" by (rule forked_old [OF fk l2(1,3)])
  note rd = ready_appended [OF acc po]
  have inv2: "missing_inv ms2" using po by (simp add: append_post_def)
  obtain ms3 ops3 S3 where s3: "merge_divergent_entries mx l2 dv ?lb (can_rollback_to (pg_log p)) True ms2 = Some (ms3, ops3)"
    "store_ops ops3 S2 = Some S3" "missing_inv ms3" "accurate ?lb B (xs @ new) S3 ms3"
    using merge_divergent_ok [OF inv2 fkd rd(1,2)] by blast
  have new: "above (min t ot) new = new" using fk by (auto simp: fork_ok_def later_def filter_id_conv min_def)
  have "pg_log (mark_dirty_from cut p) = pg_log p" "pg_missing (mark_dirty_from cut p) = pg_missing p" by (simp_all add: mark_dirty_from_def)
  then show ?thesis using cut(1) l(1) l1 rf app s2(2) s3 l2 new ov
    by (simp add: extend_log_head_def store_ops_append merged_def indexed_def overlapped_def)
qed

subsection \<open>merge\_log\<close>

lemma merge_stats_keeps: "merge_stats oinfo info = (oinfo', info') \<Longrightarrow> last_backfill info' = last_backfill info \<and> last_update info' = last_update info"
  by (auto simp: merge_stats_def Let_def split: if_splits)

text \<open>The part of \<open>merge_log\<close> after the tail was extended, in each of its cases.\<close>

lemma merge_heads_ok:
  assumes fk: "fork_ok B t ot xs dv new" and ov: "overlapped t ot xs dv new olog (pg_log p)"
    and inv: "missing_inv (pg_missing p)" and acc: "accurate (last_backfill info) B (xs @ dv) S (pg_missing p)"
    and lu: "last_update info = pl_head (pg_log p)"
  shows "\<exists>info1 p1 ops1 info2 p2 ops2 S'.
    (if pl_head olog < pl_head (pg_log p) then rewind_divergent_log mx (pl_head olog) info True p else Some (info, p, [])) = Some (info1, p1, ops1) \<and>
    (if pl_head olog > pl_head (pg_log p1) then extend_log_head mx oinfo olog t info1 True p1 else Some (info1, p1, [])) = Some (info2, p2, ops2) \<and>
    store_ops (ops1 @ ops2) S = Some S' \<and> last_update info2 = pl_head olog \<and> merged (last_backfill info) B t ot (xs @ new) S' p2"
proof -
  have h: "pl_head olog = head_of ot (xs @ new)" "pl_head (pg_log p) = head_of t (xs @ dv)" using ov by (simp_all add: overlapped_def)
  consider "new \<noteq> []" | "new = []" "dv \<noteq> []" | "new = []" "dv = []" by blast
  then show ?thesis
  proof cases
    case 1
    then have "pl_head (pg_log p) < pl_head olog" using head_of_new [OF fk] h by simp
    then show ?thesis using extend_head_ok [OF fk ov 1 inv acc, of mx oinfo] by (auto simp: less_asym)
  next
    case 2
    have fk2: "fork_ok B t ot xs dv []" and ov2: "overlapped t ot xs dv [] olog (pg_log p)" using fk ov 2 by simp_all
    then have lt: "pl_head olog < pl_head (pg_log p)" using head_of_divergent(1) [OF fk2 2(2)] h 2 by simp
    obtain info1 p1 ops1 S1 where r: "rewind_divergent_log mx (pl_head olog) info True p = Some (info1, p1, ops1)" "store_ops ops1 S = Some S1"
      "last_update info1 = pl_head olog" "merged (last_backfill info) B t ot xs S1 p1"
      using rewind_divergent_ok [OF fk2 ov2 2(2) inv acc] by blast
    then have "\<not> pl_head olog > pl_head (pg_log p1)" using h 2 by (simp add: merged_def)
    then show ?thesis using lt r 2 by auto
  next
    case 3
    then have "pl_head olog = pl_head (pg_log p)" using head_of_equal [of B t ot xs] fk h by simp
    moreover have "merged (last_backfill info) B t ot xs S p" using inv acc ov 3 calculation h by (simp add: merged_def overlapped_def)
    ultimately show ?thesis using 3 lu by auto
  qed
qed

lemma merge_log_ok:
  assumes fk: "fork_ok B t ot xs dv new" and l: "holds t (xs @ dv) (pg_log p)" "indexed (pg_log p)" and ol: "holds ot (xs @ new) olog"
    and inv: "missing_inv (pg_missing p)" and acc: "accurate (last_backfill info) B (xs @ dv) S (pg_missing p)"
    and lu: "last_update info = pl_head (pg_log p)"
  shows "\<exists>d oinfo' info' p' ops S'. merge_log mx oinfo olog info True p = Some (d, oinfo', info', p', ops) \<and> store_ops ops S = Some S' \<and>
    last_update info' = pl_head olog \<and> merged (last_backfill info) B t ot (xs @ new) S' p'"
proof -
  have tails: "pl_tail (pg_log p) = t" "pl_tail olog = ot" using l(1) ol by (simp_all add: holds_def)
  have "pl_head (pg_log p) \<ge> ot" "pl_head olog \<ge> t" using fk l(1) ol by (simp_all add: fork_ok_def holds_def)
  moreover have "\<not> pg_log_null (pg_log p) \<or> ot = ev0"
  proof -
    have "pg_log_null (pg_log p) \<Longrightarrow> pl_head (pg_log p) = ev0" by (cases "pl_head (pg_log p)") (simp add: pg_log_null_def ev0_def)
    then show ?thesis using calculation(1) ev0_least [of ot] by (auto intro: antisym)
  qed
  ultimately have pre: "\<not> pg_log_null (pg_log p) \<or> pl_tail olog = ev0" "pl_head (pg_log p) \<ge> pl_tail olog \<and> pl_head olog \<ge> pl_tail (pg_log p)"
    by (simp_all add: tails)
  obtain olog1 info1 p1 where e: "(if ot < t then extend_log_tail olog info p else (olog, info, p)) = (olog1, info1, p1)"
    by (metis prod_cases3)
  have ext: "overlapped t ot xs dv new olog1 (pg_log p1) \<and> pg_missing p1 = pg_missing p \<and> last_backfill info1 = last_backfill info \<and>
      last_update info1 = last_update info"
  proof (cases "ot < t")
    case True
    then show ?thesis using extend_tail_ok [OF fk l ol True] e by simp
  next
    case False
    then show ?thesis using overlapped_same [OF fk l ol] e by auto
  qed
  obtain oinfo2 info2 where ms: "merge_stats oinfo info1 = (oinfo2, info2)" by fastforce
  note keep = merge_stats_keeps [OF ms]
  have heads: "pl_head (pg_log p1) = pl_head (pg_log p)" "pl_head olog1 = pl_head olog" using ext l(1) ol by (simp_all add: overlapped_def holds_def)
  have acc1: "missing_inv (pg_missing p1)" "accurate (last_backfill info2) B (xs @ dv) S (pg_missing p1)"
    "last_update info2 = pl_head (pg_log p1)" using inv acc lu ext keep heads by simp_all
  have ov: "overlapped t ot xs dv new olog1 (pg_log p1)" using ext by simp
  obtain info3 p3 ops1 info4 p4 ops2 S' where s:
    "(if pl_head olog1 < pl_head (pg_log p1) then rewind_divergent_log mx (pl_head olog1) info2 True p1 else Some (info2, p1, [])) = Some (info3, p3, ops1)"
    "(if pl_head olog1 > pl_head (pg_log p3) then extend_log_head mx oinfo2 olog1 t info3 True p3 else Some (info3, p3, [])) = Some (info4, p4, ops2)"
    "store_ops (ops1 @ ops2) S = Some S'" "last_update info4 = pl_head olog1" "merged (last_backfill info2) B t ot (xs @ new) S' p4"
    using merge_heads_ok [OF fk ov acc1, of mx oinfo2] by blast
  obtain c p5 where d: "merge_log_dups olog1 p4 = (c, p5)" by fastforce
  have "merged (last_backfill info) B t ot (xs @ new) S' p5"
    using s(5) merge_log_dups_same [OF d] keep ext by (simp add: merged_def same_log_def indexed_def)
  moreover have "\<exists>b. merge_log mx oinfo olog info True p = Some (b, oinfo2, info4, p5, ops1 @ ops2)"
    unfolding merge_log_def ensure_bind [OF pre(1)] ensure_bind [OF pre(2)] Let_def tails e prod.case ms s(1) bind.bind_lunit s(2) d using pre by (simp add: tails)
  ultimately show ?thesis using s(3,4) heads by auto
qed

end
