(* ===== verification/Pg_Log_Recovery.thy ===== *)
theory Pg_Log_Recovery
  imports Pg_Log_Correct
begin

text \<open>
  Recovery: the index of the missing set by version number, and the point up to which a placement group is complete. The index holds
  exactly the versions needed as long as entries arrive in log order; then the oldest of them bounds \<open>last_complete\<close>.
\<close>

subsection \<open>The index of the versions needed\<close>

definition rm_ok :: "'h pg_missing_set \<Rightarrow> bool" where
  "rm_ok ms \<longleftrightarrow> (\<forall>v h. map_of (rmissing ms) v = Some h \<longleftrightarrow> (\<exists>it. item_of ms h = Some it \<and> vers (mi_need it) = v))"

lemma rm_ok_inj: "rm_ok ms \<Longrightarrow> item_of ms g = Some a \<Longrightarrow> item_of ms h = Some b \<Longrightarrow> vers (mi_need a) = vers (mi_need b) \<Longrightarrow> g = h"
  by (auto simp: rm_ok_def) (metis option.inject)

lemma without_old_map:
  assumes "missing_inv ms" and "rm_ok ms"
  shows "map_of (without_old ms h) v = Some g \<longleftrightarrow> g \<noteq> h \<and> (\<exists>it. item_of ms g = Some it \<and> vers (mi_need it) = v)"
proof (cases "item_of ms h")
  case None
  then show ?thesis using assms(2) by (auto simp: without_old_def rm_ok_def)
next
  case (Some it)
  have "smap_wf (rmissing ms)" using assms(1) by (simp add: missing_inv_def)
  then have "map_of (without_old ms h) v = (if v = vers (mi_need it) then None else map_of (rmissing ms) v)"
    using Some by (simp add: without_old_def smap_simps)
  moreover have "map_of (rmissing ms) v = Some g \<longleftrightarrow> (\<exists>b. item_of ms g = Some b \<and> vers (mi_need b) = v)"
    using assms(2) unfolding rm_ok_def by blast
  moreover have "g = h" if "item_of ms g = Some b" "vers (mi_need b) = vers (mi_need it)" for b
    using rm_ok_inj [OF assms(2) that(1) Some that(2)] .
  ultimately show ?thesis using Some by (cases "v = vers (mi_need it)") auto
qed

lemma rm_ok_put:
  assumes "missing_inv ms" and "rm_ok ms" and "item_put h it ms ms'"
    and "\<And>g a. g \<noteq> h \<Longrightarrow> item_of ms g = Some a \<Longrightarrow> vers (mi_need a) \<noteq> vers (mi_need it)"
  shows "rm_ok ms'"
  unfolding rm_ok_def
proof (intro allI)
  fix v g
  have r: "map_of (rmissing ms') v = (if v = vers (mi_need it) then Some h else map_of (without_old ms h) v)"
    and i: "item_of ms' g = (if g = h then Some it else item_of ms g)" using assms(3) by (simp_all add: item_put_def)
  show "map_of (rmissing ms') v = Some g \<longleftrightarrow> (\<exists>it. item_of ms' g = Some it \<and> vers (mi_need it) = v)"
    unfolding r i using without_old_map [OF assms(1,2), of h v g] assms(4) [of g] by auto
qed

lemma rm_ok_gone: "missing_inv ms \<Longrightarrow> rm_ok ms \<Longrightarrow> item_gone h ms ms' \<Longrightarrow> rm_ok ms'"
  using without_old_map [of ms h] by (auto simp: rm_ok_def item_gone_def)

text \<open>The oldest version needed, by number; none when nothing is missing.\<close>

lemma oldest_need_ok:
  assumes "missing_inv ms" and "rm_ok ms" and "missing ms \<noteq> []"
  shows "\<exists>h it. item_of ms h = Some it \<and> get_oldest_need ms = Some (mi_need it) \<and>
    (\<forall>g a. item_of ms g = Some a \<longrightarrow> vers (mi_need it) \<le> vers (mi_need a))"
proof -
  obtain g a r where m: "missing ms = (g, a) # r" using assms(3) by (cases "missing ms") auto
  then have "map_of (rmissing ms) (vers (mi_need a)) = Some g" using assms(2) by (auto simp: rm_ok_def)
  then obtain v h rr where rm: "rmissing ms = (v, h) # rr" by (cases "rmissing ms") auto
  then have "map_of (rmissing ms) v = Some h" by simp
  then obtain it where it: "item_of ms h = Some it" "vers (mi_need it) = v" using assms(2) by (auto simp: rm_ok_def)
  have "v \<le> vers (mi_need b)" if "item_of ms k = Some b" for k b
  proof -
    have "map_of (rmissing ms) (vers (mi_need b)) = Some k" using that assms(2) by (auto simp: rm_ok_def)
    then show ?thesis using assms(1) rm by (auto simp: missing_inv_def map_of_smap_Some split: if_splits dest!: map_of_SomeD)
  qed
  moreover have "get_oldest_need ms = Some (mi_need it)" using it(1) rm assms(3) by (simp add: get_oldest_need_def)
  ultimately show ?thesis using it by blast
qed

subsection \<open>Appending in log order\<close>

definition needs_before :: "'h pg_missing_set \<Rightarrow> nat \<Rightarrow> bool" where
  "needs_before ms v \<longleftrightarrow> (\<forall>h it. item_of ms h = Some it \<longrightarrow> vers (mi_need it) < v)"

lemma append_entry_index:
  assumes inv: "missing_inv ms" "rm_ok ms" and ocr: "ocr_inv (le_clean_regions e)" and lt: "needs_before ms (vers (le_version e))"
    and ap: "append_entry mx lb mt rb e lo ms = Some (lo', ms', ops)"
  shows "missing_inv ms' \<and> rm_ok ms' \<and> (\<forall>h it. item_of ms' h = Some it \<longrightarrow> vers (mi_need it) \<le> vers (le_version e))"
proof -
  have old: "\<forall>h it. item_of ms h = Some it \<longrightarrow> vers (mi_need it) \<le> vers (le_version e)" using lt by (auto simp: needs_before_def less_imp_le)
  consider (same) "ms' = ms" | (put) "add_next_event mx e ms = Some ms'" | (rm) "ms' = missing_rm (le_soid e) (le_version e) ms"
    using ap by (auto simp: append_entry_def bind_eq_Some_conv split: if_splits)
  then show ?thesis
  proof cases
    case same
    then show ?thesis using inv old by simp
  next
    case put
    then obtain it where it: "item_put (le_soid e) it ms ms'" "next_item e (item_of ms (le_soid e)) it"
      using add_next_event_ok [OF inv(1) ocr, of mx] by auto
    then have n: "mi_need it = le_version e" by (simp add: next_item_def)
    have "rm_ok ms'" using rm_ok_put [OF inv it(1)] lt n by (fastforce simp: needs_before_def)
    then show ?thesis using it(1) n old by (auto simp: item_put_def)
  next
    case rm
    show ?thesis
    proof (cases "\<exists>it. item_of ms (le_soid e) = Some it \<and> mi_need it \<le> le_version e")
      case True
      then obtain it where it: "item_of ms (le_soid e) = Some it" "ms' = missing_rm_iter (le_soid e) it ms" using rm by (auto simp: missing_rm_def)
      note g = rm_iter_ok [OF inv(1) it(1)]
      then show ?thesis using rm_ok_gone [OF inv g] it(2) old by (auto simp: item_gone_def)
    next
      case False
      then have "ms' = ms" using rm by (auto simp: missing_rm_def split: option.splits)
      then show ?thesis using inv old by simp
    qed
  qed
qed

lemma append_entries_index:
  assumes "missing_inv ms" and "rm_ok ms" and "rising es" and "\<forall>e\<in>set es. ocr_inv (le_clean_regions e) \<and> needs_before ms (vers (le_version e))"
    and "append_entries mx lb mt rb es lo ms = Some (lo', ms', ops)"
  shows "missing_inv ms' \<and> rm_ok ms'"
  using assms
proof (induction es arbitrary: lo ms ops)
  case (Cons e es)
  obtain lo1 ms1 ops1 ops2 where s: "append_entry mx lb mt rb e lo ms = Some (lo1, ms1, ops1)"
    "append_entries mx lb mt rb es lo1 ms1 = Some (lo', ms', ops2)" using Cons.prems(5) by (auto simp: bind_eq_Some_conv)
  have i: "missing_inv ms1 \<and> rm_ok ms1 \<and> (\<forall>h it. item_of ms1 h = Some it \<longrightarrow> vers (mi_need it) \<le> vers (le_version e))"
    using append_entry_index [OF Cons.prems(1,2) _ _ s(1)] Cons.prems(4) by simp
  have "\<forall>f\<in>set es. ocr_inv (le_clean_regions f) \<and> needs_before ms1 (vers (le_version f))"
    using i Cons.prems(3,4) by (fastforce simp: needs_before_def rising_Cons later_def)
  then show ?case using Cons.IH [OF _ _ _ _ s(2)] i Cons.prems(3) by (simp add: rising_Cons)
qed simp

subsection \<open>Completeness\<close>

lemma raise_last_complete_ok:
  assumes "raise_last_complete oldest es lc = (ct, lc')" and "lc < oldest"
  shows "lc' < oldest"
  using assms by (induction oldest es lc rule: raise_last_complete.induct) (auto simp: not_le split: if_splits)

lemma raise_iter:
  assumes "raise_last_complete oldest es lc = (ct, lc')"
  shows "ct = None \<or> (\<exists>e\<in>set es. ct = Some (le_version e))"
  using assms by (induction oldest es lc rule: raise_last_complete.induct) (auto split: if_splits)

lemma from_iter_member: "e \<in> set es \<Longrightarrow> from_iter (Some (le_version e)) es \<noteq> None"
  by (cases "dropWhile (\<lambda>a. le_version a \<noteq> le_version e) es") (auto simp: from_iter_def dropWhile_eq_Nil_conv)

lemma from_iter_subset: "from_iter it es = Some es' \<Longrightarrow> set es' \<subseteq> set es"
  by (auto simp: from_iter_def split: option.splits list.splits dest: set_dropWhileD intro: set_dropWhileD)

text \<open>Version numbers of what is missing are ordered as the versions are; nothing complete is missing.\<close>

definition needs_ordered :: "'h pg_missing_set \<Rightarrow> bool" where
  "needs_ordered ms \<longleftrightarrow> (\<forall>g a h b. item_of ms g = Some a \<longrightarrow> item_of ms h = Some b \<longrightarrow> vers (mi_need a) \<le> vers (mi_need b) \<longrightarrow>
     mi_need a \<le> mi_need b)"

definition complete_below :: "'h pg_missing_set \<Rightarrow> eversion \<Rightarrow> bool" where
  "complete_below ms v \<longleftrightarrow> (\<forall>h it. item_of ms h = Some it \<longrightarrow> v < mi_need it)"

lemma raised_below:
  assumes ms: "missing_inv ms" "rm_ok ms" "missing ms \<noteq> []" "needs_ordered ms" "complete_below ms lc"
    and o: "get_oldest_need ms = Some oldest" and r: "raise_last_complete oldest es lc = (ct, lc')"
  shows "complete_below ms lc'"
proof -
  obtain h it where it: "item_of ms h = Some it" "oldest = mi_need it" "\<And>g a. item_of ms g = Some a \<Longrightarrow> vers (mi_need it) \<le> vers (mi_need a)"
    using oldest_need_ok [OF ms(1,2,3)] o by auto
  then have "lc < oldest" using ms(5) by (auto simp: complete_below_def)
  then have "lc' < oldest" by (rule raise_last_complete_ok [OF r])
  moreover have "oldest \<le> mi_need a" if "item_of ms g = Some a" for g a
    using ms(4) it(1,2) that it(3) [OF that] unfolding needs_ordered_def by blast
  ultimately show ?thesis by (auto simp: complete_below_def intro: less_le_trans)
qed

lemma missing_got_ok:
  assumes "missing_inv ms" and "rm_ok ms" and "item_of ms h = Some it" and "mi_need it \<le> v"
  shows "\<exists>ms'. missing_got h v ms = Some ms' \<and> item_gone h ms ms' \<and> rm_ok ms'"
  using rm_iter_ok [OF assms(1,3)] rm_ok_gone [OF assms(1,2)] assms(3,4) by (auto simp: missing_got_def)

lemma recover_got_ok:
  assumes inv: "missing_inv (pg_missing p)" "rm_ok (pg_missing p)" and it: "item_of (pg_missing p) h = Some it" "mi_need it \<le> v"
    and cr: "v \<le> can_rollback_to (pg_log p)" and fi: "from_iter (complete_to (pg_log p)) (pl_log (pg_log p)) \<noteq> None"
    and or: "needs_ordered (pg_missing p)" and cb: "complete_below (pg_missing p) (last_complete info)"
  shows "\<exists>p' info'. recover_got h v info p = Some (p', info') \<and> item_of (pg_missing p') = (item_of (pg_missing p))(h := None) \<and>
    missing_inv (pg_missing p') \<and> rm_ok (pg_missing p') \<and> needs_ordered (pg_missing p') \<and>
    complete_below (pg_missing p') (last_complete info') \<and>
    (missing (pg_missing p') = [] \<longrightarrow> last_complete info' = last_update info) \<and>
    from_iter (complete_to (pg_log p')) (pl_log (pg_log p')) \<noteq> None \<and>
    can_rollback_to (pg_log p') = can_rollback_to (pg_log p) \<and> last_update info' = last_update info"
proof -
  obtain ms where ms: "missing_got h v (pg_missing p) = Some ms" "item_gone h (pg_missing p) ms" "rm_ok ms"
    using missing_got_ok [OF inv it] by blast
  have i: "item_of ms = (item_of (pg_missing p))(h := None)" "missing_inv ms" using ms(2) by (simp_all add: item_gone_def)
  have at: "is_missing_at h v (pg_missing p)" using it by (simp add: is_missing_at_def)
  have or': "needs_ordered ms" using or by (simp add: needs_ordered_def i(1))
  have cb': "complete_below ms (last_complete info)" using cb by (simp add: complete_below_def i(1))
  show ?thesis
  proof (cases "missing ms = []")
    case True
    then have "complete_below ms (last_update info)" by (simp add: complete_below_def)
    then show ?thesis using at ms(1,3) i cr or' True by (simp add: recover_got_def get_oldest_need_def from_iter_def)
  next
    case False
    obtain a :: pg_missing_item where o: "get_oldest_need ms = Some (mi_need a)" using oldest_need_ok [OF i(2) ms(3) False] by blast
    obtain es where es: "from_iter (complete_to (pg_log p)) (pl_log (pg_log p)) = Some es" using fi by blast
    obtain ct lc where r: "raise_last_complete (mi_need a) es (last_complete info) = (ct, lc)" by fastforce
    have "complete_below ms lc" by (rule raised_below [OF i(2) ms(3) False or' cb' o r])
    moreover have "from_iter ct (pl_log (pg_log p)) \<noteq> None"
      using raise_iter [OF r] from_iter_subset [OF es] from_iter_member by (force simp: from_iter_def)
    ultimately show ?thesis using at ms(1,3) i cr or' False o es r by (simp add: recover_got_def)
  qed
qed

subsection \<open>Recovering object by object\<close>

type_synonym 'h rstate = "'h pglog \<times> 'h pg_info"

text \<open>The object \<open>h\<close> has been recovered at the version needed.\<close>

inductive recover_step :: "'h::linorder rstate \<Rightarrow> 'h rstate \<Rightarrow> bool" where
  "item_of (pg_missing p) h = Some it \<Longrightarrow> recover_got h (mi_need it) info p = Some (p', info') \<Longrightarrow> recover_step (p, info) (p', info')"

definition rec_inv :: "'h::linorder rstate \<Rightarrow> bool" where
  "rec_inv s = (case s of (p, info) \<Rightarrow>
     missing_inv (pg_missing p) \<and> rm_ok (pg_missing p) \<and> needs_ordered (pg_missing p) \<and>
     complete_below (pg_missing p) (last_complete info) \<and>
     (\<forall>h it. item_of (pg_missing p) h = Some it \<longrightarrow> mi_need it \<le> can_rollback_to (pg_log p)) \<and>
     from_iter (complete_to (pg_log p)) (pl_log (pg_log p)) \<noteq> None)"

lemma rec_inv_step:
  assumes "rec_inv (p, info)" and "item_of (pg_missing p) h = Some it"
  shows "\<exists>p' info'. recover_got h (mi_need it) info p = Some (p', info') \<and> rec_inv (p', info') \<and> last_update info' = last_update info \<and>
    item_of (pg_missing p') = (item_of (pg_missing p))(h := None) \<and> (missing (pg_missing p') = [] \<longrightarrow> last_complete info' = last_update info)"
proof -
  have i: "missing_inv (pg_missing p)" "rm_ok (pg_missing p)" "mi_need it \<le> can_rollback_to (pg_log p)"
    "from_iter (complete_to (pg_log p)) (pl_log (pg_log p)) \<noteq> None" "needs_ordered (pg_missing p)" "complete_below (pg_missing p) (last_complete info)"
    using assms by (auto simp: rec_inv_def)
  obtain p' info' where r: "recover_got h (mi_need it) info p = Some (p', info')" "item_of (pg_missing p') = (item_of (pg_missing p))(h := None)"
    "missing_inv (pg_missing p')" "rm_ok (pg_missing p')" "needs_ordered (pg_missing p')" "complete_below (pg_missing p') (last_complete info')"
    "missing (pg_missing p') = [] \<longrightarrow> last_complete info' = last_update info" "from_iter (complete_to (pg_log p')) (pl_log (pg_log p')) \<noteq> None"
    and c: "can_rollback_to (pg_log p') = can_rollback_to (pg_log p)" "last_update info' = last_update info"
    using recover_got_ok [OF i(1,2) assms(2) order_refl i(3-6)] by blast
  have "mi_need a \<le> can_rollback_to (pg_log p')" if "item_of (pg_missing p') g = Some a" for g a
    using that assms(1) c r(2) by (auto simp: rec_inv_def split: if_splits)
  then have "rec_inv (p', info')" using r(3-6,8) by (simp add: rec_inv_def)
  then show ?thesis using r(1,2,7) c by blast
qed

lemma recover_step_inv: "rec_inv s \<Longrightarrow> recover_step s s' \<Longrightarrow> rec_inv s'"
  by (erule recover_step.cases) (use rec_inv_step in fastforce)

interpretation recovery: invariant_system rec_inv recover_step rec_inv
  by unfold_locales (auto intro: recover_step_inv)

text \<open>Recovery in a given order.\<close>

fun recover_all :: "'h::linorder list \<Rightarrow> 'h pglog \<Rightarrow> 'h pg_info \<Rightarrow> ('h pglog \<times> 'h pg_info) option" where
  "recover_all [] p info = Some (p, info)"
| "recover_all (h # hs) p info = do {
     it \<leftarrow> item_of (pg_missing p) h;
     (p, info) \<leftarrow> recover_got h (mi_need it) info p;
     recover_all hs p info }"

lemma map_of_none: "(\<And>k. map_of m k = None) \<Longrightarrow> m = []"
  using map_of_eq_empty_iff [of m] by (auto simp: fun_eq_iff)

lemma recover_all_ok:
  assumes "rec_inv (p, info)" and "distinct hs" and "set hs = dom (item_of (pg_missing p))"
  shows "\<exists>p' info'. recover_all hs p info = Some (p', info') \<and> missing (pg_missing p') = [] \<and> rec_inv (p', info') \<and>
    last_update info' = last_update info \<and> (hs \<noteq> [] \<longrightarrow> last_complete info' = last_update info)"
  using assms
proof (induction hs arbitrary: p info)
  case Nil
  then have "missing (pg_missing p) = []" using map_of_none [of "missing (pg_missing p)"] by (auto simp: rec_inv_def missing_inv_def)
  then show ?case using Nil.prems(1) by simp
next
  case (Cons h hs)
  then obtain it where it: "item_of (pg_missing p) h = Some it" by (metis domD list.set_intros(1))
  obtain p1 info1 where r: "recover_got h (mi_need it) info p = Some (p1, info1)" "rec_inv (p1, info1)" "last_update info1 = last_update info"
    "item_of (pg_missing p1) = (item_of (pg_missing p))(h := None)" "missing (pg_missing p1) = [] \<longrightarrow> last_complete info1 = last_update info"
    using rec_inv_step [OF Cons.prems(1) it] by blast
  have d: "distinct hs" "set hs = dom (item_of (pg_missing p1))" using Cons.prems(2,3) r(4) by auto
  obtain p2 info2 where s: "recover_all hs p1 info1 = Some (p2, info2)" "missing (pg_missing p2) = []" "rec_inv (p2, info2)"
    "last_update info2 = last_update info1" "hs \<noteq> [] \<longrightarrow> last_complete info2 = last_update info1" using Cons.IH [OF r(2) d] by blast
  have "last_complete info2 = last_update info"
  proof (cases "hs = []")
    case True
    then show ?thesis using s r(5) by simp
  next
    case False
    then show ?thesis using s(5) r(3) by simp
  qed
  then show ?case using it r s by simp
qed

text \<open>Where recovery starts: \<open>reset_complete_to\<close> stops at the first entry that is not older than the oldest version needed.\<close>

definition recoverable :: "'h::linorder pglog \<Rightarrow> bool" where
  "recoverable p \<longleftrightarrow> missing_inv (pg_missing p) \<and> rm_ok (pg_missing p) \<and> needs_ordered (pg_missing p) \<and> missing (pg_missing p) \<noteq> [] \<and>
     (\<forall>h it. item_of (pg_missing p) h = Some it \<longrightarrow> ev0 < mi_need it \<and> mi_need it \<le> can_rollback_to (pg_log p) \<and>
        (\<exists>e\<in>set (pl_log (pg_log p)). mi_need it \<le> le_version e))"

lemma last_before: "dropWhile P es = xs \<Longrightarrow> take (length es - length xs) es = takeWhile P es"
  by (metis add_diff_cancel_right' append_eq_conv_conj length_append takeWhile_dropWhile_id)

lemma reset_complete_ok:
  assumes rec: "recoverable p"
  obtains q lc where "reset_complete_to p = Some (q, Some lc)" and "rec_inv (q, info\<lparr>last_complete := lc\<rparr>)"
proof -
  have ms: "missing_inv (pg_missing p)" "rm_ok (pg_missing p)" "missing (pg_missing p) \<noteq> []" "needs_ordered (pg_missing p)"
    using rec by (simp_all add: recoverable_def)
  obtain h it where it: "item_of (pg_missing p) h = Some it" "get_oldest_need (pg_missing p) = Some (mi_need it)"
    "\<And>g a. item_of (pg_missing p) g = Some a \<Longrightarrow> vers (mi_need it) \<le> vers (mi_need a)" using oldest_need_ok [OF ms(1,2,3)] by blast
  let ?es = "pl_log (pg_log p)" and ?P = "\<lambda>e. le_version e < mi_need it"
  have first: "mi_need it \<le> mi_need a" if "item_of (pg_missing p) g = Some a" for g a
    using ms(4) it(1) that it(3) [OF that] unfolding needs_ordered_def by blast
  obtain e where e: "e \<in> set ?es" "mi_need it \<le> le_version e" and pos: "ev0 < mi_need it" using rec it(1) unfolding recoverable_def by blast
  then have ne: "?es \<noteq> []" "dropWhile ?P ?es \<noteq> []" by (auto simp: dropWhile_eq_Nil_conv not_less)
  then obtain f fs where f: "dropWhile ?P ?es = f # fs" by (cases "dropWhile ?P ?es") auto
  have nz: "mi_need it \<noteq> ev0" using pos by simp
  let ?lc = "if takeWhile ?P ?es = [] then ev0 else le_version (last (takeWhile ?P ?es))"
  let ?q = "p\<lparr>pg_log := (pg_log p)\<lparr>complete_to := Some (le_version f)\<rparr>\<rparr>"
  have before: "take (length ?es - Suc (length fs)) ?es = takeWhile ?P ?es" using last_before [OF f] by simp
  have "reset_complete_to p = Some (?q, Some ?lc)"
    unfolding reset_complete_to_def Let_def it(2) using ne(1) nz by (simp add: f iter_of_def before del: take_eq_Nil take_eq_Nil2)
  moreover have "le_version (last (takeWhile ?P ?es)) < mi_need it" if "takeWhile ?P ?es \<noteq> []"
    using set_takeWhileD [of "last (takeWhile ?P ?es)" ?P ?es] last_in_set [OF that] by simp
  then have "?lc < mi_need it" using pos by simp
  then have "complete_below (pg_missing p) ?lc" using first by (auto simp: complete_below_def intro: less_le_trans)
  moreover have "from_iter (Some (le_version f)) ?es \<noteq> None"
    using f by (intro from_iter_member) (metis list.set_intros(1) set_dropWhileD)
  ultimately show ?thesis using rec by (intro that [of ?q ?lc]) (auto simp: rec_inv_def recoverable_def)
qed

lemma recover_step_update:
  assumes "rec_inv s" and "recover_step s s'"
  shows "last_update (snd s') = last_update (snd s)"
  using assms(2)
proof cases
  case (1 p h it info p' info')
  then show ?thesis using rec_inv_step [of p info h it] assms(1) by auto
qed

lemma recover_run_update: "recover_step\<^sup>*\<^sup>* s t \<Longrightarrow> rec_inv s \<Longrightarrow> last_update (snd t) = last_update (snd s)"
proof (induction rule: rtranclp_induct)
  case (step t u)
  then show ?case using recover_step_update [OF recovery.inv_run [OF step(1,4)] step(2)] by simp
qed simp

lemma activate_ok:
  assumes "recoverable p"
  obtains q info' where "activate_not_complete info p = Some (q, info')" and "rec_inv (q, info')"
    and "last_update info' = last_update info"
proof -
  obtain q lc where q: "reset_complete_to p = Some (q, Some lc)" "rec_inv (q, info\<lparr>last_complete := lc\<rparr>)"
    by (rule reset_complete_ok [OF assms])
  then have "rec_inv (q\<lparr>pg_log := (pg_log q)\<lparr>last_requested := 0\<rparr>\<rparr>, info\<lparr>last_complete := lc\<rparr>)" by (simp add: rec_inv_def)
  moreover have "activate_not_complete info p = Some (q\<lparr>pg_log := (pg_log q)\<lparr>last_requested := 0\<rparr>\<rparr>, info\<lparr>last_complete := lc\<rparr>)"
    using q(1) by (simp add: activate_not_complete_def)
  ultimately show ?thesis using that by simp
qed

end
