(* ===== verification/Pg_Log_Peering.thy ===== *)
theory Pg_Log_Peering
  imports Pg_Log_Fork Pg_Log_Recovery "HOL-Library.Code_Target_Nat"
begin

text \<open>
  The properties of the log of a placement group, with concrete logs that show what they say.
\<close>

subsection \<open>What the primary computes for a replica\<close>

lemma merge_object_entries_quiet:
  "objects l' = objects l \<Longrightarrow>
     merge_object_entries mx l' h es ocrt False ms = map_option (\<lambda>r. (fst r, [])) (merge_object_entries mx l h es ocrt True ms)"
  unfolding merge_object_entries_def Let_def by (auto simp: ensure_def split: option.split Option.bind_split)

lemma merge_object_divergent_quiet:
  assumes "objects l' = objects l"
  shows "merge_object_divergent_entries mx l' h es lb ocrt False ms =
    map_option (\<lambda>r. (fst r, [])) (merge_object_divergent_entries mx l h es lb ocrt True ms)"
  unfolding merge_object_divergent_entries_def using merge_object_entries_quiet [OF assms]
  by (auto simp: ensure_def split: Option.bind_split)

lemma merge_divergent_objects_quiet:
  assumes "objects l' = objects l"
  shows "merge_divergent_objects mx l' m lb ocrt False ms = map_option (\<lambda>r. (fst r, [])) (merge_divergent_objects mx l m lb ocrt True ms)"
proof (induction m arbitrary: ms)
  case (Cons p m)
  obtain h es where p: "p = (h, es)" by fastforce
  note q = merge_object_divergent_quiet [OF assms, of mx h es lb ocrt ms]
  show ?case
  proof (cases "merge_object_divergent_entries mx l h es lb ocrt True ms")
    case None
    then show ?thesis using q p by simp
  next
    case (Some r)
    obtain ms1 ops1 where r: "r = (ms1, ops1)" by fastforce
    show ?thesis using q p Some r Cons.IH [of ms1] by (cases "merge_divergent_objects mx l m lb ocrt True ms1") (auto simp: split_beta)
  qed
qed simp

lemma indexed_log_of_ok:
  "indexed (indexed_log_of o') \<and> pl_log (indexed_log_of o') = pl_log o' \<and> pl_head (indexed_log_of o') = pl_head o' \<and>
     pl_tail (indexed_log_of o') = pl_tail o'"
  by (simp add: indexed_log_of_def indexed_def il_index_def reset_riter_def pg_log.defs)

lemma rewind_objects:
  assumes "pl_log l = pl_log l'" and "pl_tail l = pl_tail l'" and "il_rewind_from_head n l = Some (dv, a)"
  shows "\<exists>b. il_rewind_from_head n l' = Some (dv, b) \<and> objects b = objects a"
  using assms
  by (auto simp: il_rewind_from_head_def pg_log_rewind_from_head_def il_index_def reset_riter_def bind_eq_Some_conv ensure_def
      split: if_splits)

text \<open>When the primary has computed the missing set of a replica from its log, the replica computes the same one when it rewinds its log
  to the point the primary found.\<close>

lemma proc_replica_agrees:
  assumes pr: "proc_replica_log mx oinfo olog oms p = Some (oinfo', oms')"
    and ov: "\<not> pl_head olog < pl_tail (pg_log p)" "pl_head olog \<noteq> pl_head (pg_log p)"
    and q: "pl_log (pg_log q) = pl_log olog" "pl_tail (pg_log q) = pl_tail olog" "can_rollback_to (pg_log q) = can_rollback_to olog" "pg_missing q = oms"
    and info: "last_backfill info = last_backfill oinfo"
  shows "\<exists>info' q' ops. rewind_divergent_log mx (last_shared olog (pg_log p)) info True q = Some (info', q', ops) \<and> pg_missing q' = oms'"
proof -
  let ?n = "last_shared olog (pg_log p)"
  obtain dv fo os where f: "il_rewind_from_head ?n (indexed_log_of olog) = Some (dv, fo)"
    "merge_divergent_entries mx fo dv (last_backfill oinfo) (can_rollback_to olog) False oms = Some (oms', os)"
    using pr ov by (auto simp: proc_replica_log_def Let_def bind_eq_Some_conv split: if_splits)
  obtain b where b: "il_rewind_from_head ?n (pg_log q) = Some (dv, b)" "objects b = objects fo"
    using rewind_objects [OF _ _ f(1), of "pg_log q"] q indexed_log_of_ok [of olog] by auto
  have "merge_divergent_entries mx fo dv (last_backfill oinfo) (can_rollback_to olog) False oms =
      map_option (\<lambda>r. (fst r, [])) (merge_divergent_entries mx b dv (last_backfill oinfo) (can_rollback_to olog) True oms)"
    unfolding merge_divergent_entries_def by (rule merge_divergent_objects_quiet) (simp add: b(2))
  then obtain ops where "merge_divergent_entries mx b dv (last_backfill oinfo) (can_rollback_to olog) True oms = Some (oms', ops)"
    unfolding f(2) by (cases "merge_divergent_entries mx b dv (last_backfill oinfo) (can_rollback_to olog) True oms") auto
  then show ?thesis using b(1) q(3,4) info by (cases "dv = []") (auto simp: rewind_divergent_log_def mark_dirty_from_def Let_def)
qed

subsection \<open>Concrete logs\<close>

definition wrote :: "log_op \<Rightarrow> nat \<Rightarrow> eversion \<Rightarrow> eversion \<Rightarrow> bool \<Rightarrow> nat pg_log_entry" where
  "wrote op h v pv rb = \<lparr>le_op = op, le_soid = h, le_version = v, le_prior_version = pv, le_can_rollback = rb,
     le_clean_regions = \<lparr>new_object = False, clean_omap = True, clean_offsets = empty_iset\<rparr>, le_reqid = no_reqid,
     le_extra_reqids = [], le_extra_return_codes = [], le_user_version = 0, le_return_code = 0\<rparr>"

definition log_of :: "nat pg_log_entry list \<Rightarrow> nat pg_log" where
  "log_of es = \<lparr>pl_head = (if es = [] then ev0 else le_version (last es)), pl_tail = ev0, can_rollback_to = ev0,
     rollback_info_trimmed_to = ev0, pl_log = es, pl_dups = []\<rparr>"

definition info_at :: "eversion \<Rightarrow> eversion \<Rightarrow> nat pg_info" where
  "info_at lu lc = \<lparr>last_update = lu, last_complete = lc, log_tail = ev0, last_user_version = 0, last_backfill = None,
     pgi_stats = \<lparr>reported_seq = 0, reported_epoch = 0, num_objects_missing = 0\<rparr>, hit_set = 0, purged_snaps = empty_iset\<rparr>"

definition nothing_missing :: "nat pg_missing_set" where
  "nothing_missing = \<lparr>missing = [], rmissing = [], may_include_deletes = True, changed = []\<rparr>"

definition pglog_with :: "nat indexed_log \<Rightarrow> nat pg_missing_set \<Rightarrow> nat pglog" where
  "pglog_with l ms = \<lparr>pg_missing = ms, pg_log = l, dirty_to = ev0, dirty_from = ev_max, writeout_from = ev_max,
     trimmed = [], dirty_to_dups = ev0, dirty_from_dups = ev_max, write_from_dups = ev_max, trimmed_dups = [], touched_log = True,
     dirty_log = False, may_include_deletes_in_missing_dirty = False\<rparr>"

definition shared_entry :: "nat pg_log_entry" where
  "shared_entry = wrote MODIFY 1 (EV 1 9) ev0 True"

definition divergent_entry :: "nat pg_log_entry" where
  "divergent_entry = wrote MODIFY 1 (EV 1 10) (EV 1 9) False"

definition new_entry :: "nat pg_log_entry" where
  "new_entry = wrote MODIFY 2 (EV 2 10) ev0 True"

lemma ev_max_val [code]: "ev_max = EV 4294967295 18446744073709551615"
  by (simp add: ev_max_def two32_def two64_def)

lemma nothing_missing_inv: "missing_inv nothing_missing"
  by (simp add: missing_inv_def nothing_missing_def)

lemma nothing_missing_accurate: "accurate lb B es (cur B es) nothing_missing"
  by (simp add: accurate_def tracks_def nothing_missing_def)

lemma wrote_ocr: "ocr_inv (le_clean_regions (wrote op h v pv rb))"
  using empty_iset_inv by (simp add: ocr_inv_def wrote_def)

lemma concrete_fork: "fork_ok (\<lambda>_. ev0) ev0 ev0 [shared_entry] [divergent_entry] [new_entry]"
proof -
  have "ocr_inv (le_clean_regions shared_entry)" "ocr_inv (le_clean_regions divergent_entry)" "ocr_inv (le_clean_regions new_entry)"
    unfolding shared_entry_def divergent_entry_def new_entry_def by (rule wrote_ocr)+
  then show ?thesis
    by (simp add: fork_ok_def step_ok_def shared_entry_def divergent_entry_def new_entry_def wrote_def rising_def later_def is_error_def
        topv_def ents_def undone_def creates_def is_clone_def cur_def result_def is_delete_def head_of_def ev0_def
        less_eversion_def less_eq_eversion_def)
qed

lemma concrete_logs:
  "holds ev0 [shared_entry, divergent_entry] (log_of [shared_entry, divergent_entry])"
  "holds ev0 [shared_entry, new_entry] (log_of [shared_entry, new_entry])"
  by (simp_all add: holds_def log_of_def head_of_def shared_entry_def divergent_entry_def new_entry_def wrote_def ev0_def less_eversion_def)

lemma concrete_indexed:
  "holds ev0 [shared_entry, divergent_entry] (indexed_log_of (log_of [shared_entry, divergent_entry]))"
  using concrete_logs(1) indexed_log_of_ok [of "log_of [shared_entry, divergent_entry]"] by (simp add: holds_def)

lemma concrete_head: "last_update (info_at (EV 1 10) lc) = pl_head (indexed_log_of (log_of [shared_entry, divergent_entry]))"
proof -
  have "pl_head (log_of [shared_entry, divergent_entry]) = EV 1 10" by (simp add: log_of_def divergent_entry_def wrote_def)
  then show ?thesis using indexed_log_of_ok [of "log_of [shared_entry, divergent_entry]"] by (simp add: info_at_def)
qed

text \<open>The object of the divergent entry has not been recovered yet.\<close>

definition one_missing :: "nat pg_missing_set" where
  "one_missing = \<lparr>missing = [(1, \<lparr>mi_need = EV 1 10, mi_have = EV 1 9, mi_clean = le_clean_regions divergent_entry, mi_delete = False\<rparr>)],
     rmissing = [(10, 1)], may_include_deletes = True, changed = []\<rparr>"

lemma one_missing_ok:
  "missing_inv one_missing" "rm_ok one_missing"
  "accurate None (\<lambda>_. ev0) [shared_entry, divergent_entry] ((cur (\<lambda>_. ev0) [shared_entry, divergent_entry])(1 := EV 1 9)) one_missing"
proof -
  have "ocr_inv (le_clean_regions divergent_entry)" unfolding divergent_entry_def by (rule wrote_ocr)
  then show "missing_inv one_missing" by (simp add: missing_inv_def one_missing_def)
  show "rm_ok one_missing" by (auto simp: rm_ok_def one_missing_def)
  show "accurate None (\<lambda>_. ev0) [shared_entry, divergent_entry] ((cur (\<lambda>_. ev0) [shared_entry, divergent_entry])(1 := EV 1 9)) one_missing"
    by (auto simp: accurate_def tracks_def one_missing_def topv_def last_deletes_def ents_def is_error_def is_delete_def shared_entry_def
        divergent_entry_def wrote_def)
qed

lemma concrete_index: "indexed (indexed_log_of (log_of [shared_entry, divergent_entry]))"
  using indexed_log_of_ok by blast

subsection \<open>Properties\<close>

text \<open>C3. \<open>PGLog::merge_log\<close>, for logs that share a history and part after it, aborts in no assertion and ends with the entries of the
  authoritative log. If the missing set was true of the store before, it is true of what the handler makes of the store: an object that is
  not missing is stored in its newest version, and of one that is missing the newest version is needed and what is said to be had is stored.\<close>

theorem merge_log_accurate:
  assumes "fork_ok B t ot xs dv new" and "holds t (xs @ dv) (pg_log p)" and "indexed (pg_log p)" and "holds ot (xs @ new) olog"
    and "missing_inv (pg_missing p)" and "accurate (last_backfill info) B (xs @ dv) S (pg_missing p)"
    and "last_update info = pl_head (pg_log p)"
  shows "\<exists>d oinfo' info' p' ops S'. merge_log mx oinfo olog info True p = Some (d, oinfo', info', p', ops) \<and>
    store_ops ops S = Some S' \<and> missing_inv (pg_missing p') \<and> accurate (last_backfill info) B (xs @ new) S' (pg_missing p') \<and>
    pl_log (pg_log p') = filter (\<lambda>e. min t ot < le_version e) (xs @ new) \<and> pl_head (pg_log p') = pl_head olog \<and>
    pl_tail (pg_log p') = min t ot \<and> indexed (pg_log p') \<and> last_update info' = pl_head olog"
proof -
  obtain d oinfo' info' p' ops S' where m: "merge_log mx oinfo olog info True p = Some (d, oinfo', info', p', ops)" "store_ops ops S = Some S'"
    "last_update info' = pl_head olog" "merged (last_backfill info) B t ot (xs @ new) S' p'" using merge_log_ok [OF assms] by blast
  moreover have "pl_head olog = head_of ot (xs @ new)" using assms(4) by (simp add: holds_def)
  ultimately show ?thesis by (auto simp: merged_def)
qed

theorem merge_log_accurate_witness:
  "\<exists>d oinfo' info' p' ops S'.
     merge_log 10 (info_at (EV 2 10) (EV 2 10)) (log_of [shared_entry, new_entry]) (info_at (EV 1 10) (EV 1 10)) True
       (pglog_with (indexed_log_of (log_of [shared_entry, divergent_entry])) nothing_missing) = Some (d, oinfo', info', p', ops) \<and>
     store_ops ops (cur (\<lambda>_. ev0) [shared_entry, divergent_entry]) = Some S' \<and>
     accurate None (\<lambda>_. ev0) [shared_entry, new_entry] S' (pg_missing p')"
proof -
  let ?p = "pglog_with (indexed_log_of (log_of [shared_entry, divergent_entry])) nothing_missing"
  have p: "pg_log ?p = indexed_log_of (log_of [shared_entry, divergent_entry])" "pg_missing ?p = nothing_missing" by (simp_all add: pglog_with_def)
  have i: "last_backfill (info_at (EV 1 10) (EV 1 10)) = None" by (simp add: info_at_def)
  show ?thesis
    using merge_log_accurate [OF concrete_fork, of ?p "log_of [shared_entry, new_entry]" "info_at (EV 1 10) (EV 1 10)"
        "cur (\<lambda>_. ev0) [shared_entry, divergent_entry]" 10 "info_at (EV 2 10) (EV 2 10)"]
      concrete_indexed concrete_logs(2) concrete_head concrete_index nothing_missing_inv nothing_missing_accurate i by (auto simp: p)
qed

text \<open>C40. The index of the missing set by version number does not survive \<open>PGLog::merge_log\<close>: there are logs and a missing set
  as the property above requires, with an index that has exactly the versions needed, after whose merge an object is missing and the index
  is empty. The new entries are put in before the divergent ones are taken out, and versions of the two may have the same number; what
  takes out the old one takes out the new one. \<open>get_oldest_need\<close> then has no entry to return.\<close>

theorem merge_log_loses_index:
  "\<exists>(p :: nat pglog) olog info S xs dv new d oinfo' info' p' ops.
     fork_ok (\<lambda>_. ev0) ev0 ev0 xs dv new \<and> holds ev0 (xs @ dv) (pg_log p) \<and> indexed (pg_log p) \<and> holds ev0 (xs @ new) olog \<and>
     missing_inv (pg_missing p) \<and> rm_ok (pg_missing p) \<and> accurate (last_backfill info) (\<lambda>_. ev0) (xs @ dv) S (pg_missing p) \<and>
     last_update info = pl_head (pg_log p) \<and>
     merge_log 10 info olog info True p = Some (d, oinfo', info', p', ops) \<and>
     missing (pg_missing p') \<noteq> [] \<and> rmissing (pg_missing p') = [] \<and> get_oldest_need (pg_missing p') = None"
proof -
  let ?p = "pglog_with (indexed_log_of (log_of [shared_entry, divergent_entry])) one_missing" and ?info = "info_at (EV 1 10) (EV 1 9)"
  let ?m = "merge_log 10 ?info (log_of [shared_entry, new_entry]) ?info True ?p"
  have p: "pg_log ?p = indexed_log_of (log_of [shared_entry, divergent_entry])" "pg_missing ?p = one_missing" by (simp_all add: pglog_with_def)
  have "map_option (\<lambda>(d, oinfo', info', p', ops). (map fst (missing (pg_missing p')), rmissing (pg_missing p'))) ?m = Some ([2], [])" by code_simp
  then obtain d oinfo' info' p' ops where m: "?m = Some (d, oinfo', info', p', ops)" and r: "map fst (missing (pg_missing p')) = [2]" "rmissing (pg_missing p') = []"
    unfolding map_option_eq_Some by (elim exE conjE) (auto split: prod.splits)
  have e: "missing (pg_missing p') \<noteq> []" "get_oldest_need (pg_missing p') = None" using r by (auto simp: get_oldest_need_def)
  have h: "holds ev0 ([shared_entry] @ [divergent_entry]) (pg_log ?p)" "indexed (pg_log ?p)" "last_update ?info = pl_head (pg_log ?p)"
    "holds ev0 ([shared_entry] @ [new_entry]) (log_of [shared_entry, new_entry])"
    using concrete_indexed concrete_logs(2) concrete_head concrete_index by (simp_all add: p info_at_def)
  have a: "accurate (last_backfill ?info) (\<lambda>_. ev0) ([shared_entry] @ [divergent_entry]) ((cur (\<lambda>_. ev0) [shared_entry, divergent_entry])(1 := EV 1 9)) (pg_missing ?p)"
    using one_missing_ok(3) by (simp add: p info_at_def)
  have "missing_inv (pg_missing ?p)" "rm_ok (pg_missing ?p)" using one_missing_ok(1,2) by (simp_all add: p)
  with concrete_fork h a m r(2) e show ?thesis by blast
qed




end
