(* ===== verification/Spec2Isabelle.thy ===== *)
theory Spec2Isabelle
  imports Ino_Table_Correct Striper_Correct Election_Correct Cls_Queue_Fifo Cls_Lock_Correct Osd_Map_Correct Avl_Allocator_Correct Paxos_Restart Pg_Log_Peering
begin

text \<open>
  A verification development for Ceph 15.2.17 (\<open>src/ceph-15.2.17/src\<close>).

  \<^bold>\<open>The program.\<close> Ceph is a distributed storage system. Monitors elect a leader and keep the cluster
  maps; OSDs store objects and run object class methods next to them; metadata servers keep the file
  system's name space and hand out inode numbers; clients map files and block devices onto objects.
  The parts modelled here are the ones whose logic is self-contained: the interval set all daemons use
  for extents, the inode allocation table of the metadata server, the file layout arithmetic of the
  clients, the monitors' leader election and their replicated log, the placement of objects on OSDs by the OSD map, the log
  of a placement group with the set of objects it is missing, the AVL block allocator of BlueStore, and the queue and lock object classes with the encodings and the object calls they use.

  \<^bold>\<open>Theories.\<close>

  \<^item> \<open>Ceph_Prelude\<close>: 64-bit arithmetic with its wrap-around, assertions as \<open>option\<close>, \<open>std::map\<close> as a
    sorted association list, and the locale \<open>invariant_system\<close> (initial states, steps, an invariant)
    which every component with state interprets.
  \<^item> \<open>Interval_Set\<close>, \<open>Interval_Set_Correct\<close>, \<open>Interval_Set_Algebra\<close>: \<open>include/interval_set.h\<close>, one
    definition per member function. A set is shown to be canonical (disjoint, non-adjacent, non-empty
    ranges with a matching size) and every operation to be the set operation it stands for; the two
    algorithms of \<open>intersection_of\<close> agree.
  \<^item> \<open>Ino_Table\<close>, \<open>Ino_Table_Correct\<close>: \<open>mds/InoTable.cc\<close> on top of \<open>mds/MDSTable.cc\<close> and of the interval
    set. The table, its journal and the clients that hold inodes form a transition system: no inode is
    handed out twice, and the journal always applies.
  \<^item> \<open>Striper\<close>, \<open>Striper_Correct\<close>: \<open>osdc/Striper.cc\<close>. The extents of a file range partition it byte for
    byte, the inverse map inverts, truncation and object counts are exact, and the replies of a striped
    read assemble to the file's bytes in whatever order they arrive.
  \<^item> \<open>Election\<close>, \<open>Election_Correct\<close>: \<open>mon/ElectionLogic.cc\<close> and \<open>mon/Elector.cc\<close>. Monitors and a network
    that may lose, delay, duplicate and reorder messages are a step relation; monitors may restart. At
    most one leader per epoch, every victory has a majority behind it, no assertion can fail. Majorities
    enter through the locale \<open>quorum_system\<close>, which sets of more than half the ranks interpret.
  \<^item> \<open>Paxos\<close>, \<open>Paxos_System\<close>, \<open>Paxos_Restart\<close>: \<open>mon/Paxos.cc\<close>, one definition per handler, on a monitor's
    store; the system has several monitors, ordered sessions that may lose messages, elections and
    restarts. \<open>Paxos_Restart\<close> has a run with restarts in which two monitors commit different values, since a
    leader's own promise is not stored.
  \<^item> \<open>Paxos_Voting\<close>, \<open>Paxos_Log\<close>, \<open>Paxos_Inv\<close>, \<open>Paxos_Steps\<close>, \<open>Paxos_Moves\<close>, \<open>Paxos_Handlers\<close>,
    \<open>Paxos_Delivery\<close>, \<open>Paxos_Agreement\<close>: when no promise is lost that way the monitors agree, now and
    later. \<open>Paxos_Voting\<close> has the abstract argument over votes and quorums (locale \<open>quorum_system\<close>),
    \<open>Paxos_Log\<close> what a store is that has applied a log. \<open>Paxos_Inv\<close> is the invariant of the system: the
    stores, votes, promises, what leaders know, the messages on their way. \<open>Paxos_Steps\<close> and
    \<open>Paxos_Moves\<close> keep it for each move of the protocol, \<open>Paxos_Handlers\<close> and \<open>Paxos_Delivery\<close> for each
    handler as a sequence of moves, \<open>Paxos_Agreement\<close> for each event of the system, and derive that every
    store is that of a prefix of one log. Ranks are below 100 there, as the proposal numbers assume.
  \<^item> \<open>Encoding\<close>, \<open>Obj_Class\<close>: the encodings of \<open>include/encoding.h\<close> with their round trips, and the
    object class calls of \<open>osd/objclass.cc\<close> down to the checks in \<open>osd/PrimaryLogPG.cc\<close>.
  \<^item> \<open>Cls_Queue\<close>, \<open>Cls_Queue_Correct\<close>, \<open>Cls_Queue_List\<close>, \<open>Cls_Queue_Fifo\<close>: \<open>cls/queue\<close>, from the
    client's calls to the bytes of the object. The ring of bytes is lifted to the list of its entries;
    enqueueing appends, the chunked listing returns the entries of the stream, removal drops a prefix.
    The locale \<open>fifo\<close> is what a consumer relies on; the encoded client calls interpret it.
  \<^item> \<open>Cls_Lock\<close>, \<open>Cls_Lock_Correct\<close>: \<open>cls/lock\<close>, the advisory locks kept in an object's attributes. Calls of
    any clients in any order, with time passing between them, form a transition system: an exclusive lock
    has one holder, a request is granted exactly when the flags and the live lockers allow it, a granted
    lock is held until it expires.
  \<^item> \<open>Osd_Map\<close>, \<open>Osd_Map_Correct\<close>: the placement pipeline of \<open>osd/OSDMap.cc\<close>, with CRUSH as an argument.
    The up set is the live part of the raw mapping with its exceptions, the acting set is the temporary
    mapping or the up set, no stage adds a second copy of an OSD, and raising \<open>pg_num\<close> only splits.
  \<^item> \<open>Clean_Regions\<close>, \<open>Pg_Missing\<close>, \<open>Pg_Log\<close>: \<open>ObjectCleanRegions\<close>, \<open>pg_missing_set\<close> and \<open>pg_log_t\<close> of
    \<open>osd/osd_types.h\<close> and \<open>osd_types.cc\<close>, and \<open>osd/PGLog.h\<close> and \<open>PGLog.cc\<close>. Clean regions are sound on top of the
    interval set. Objects are a type variable with an order; calls of the \<open>LogEntryHandler\<close> are collected.
  \<^item> \<open>Pg_Log_Correct\<close>, \<open>Pg_Log_Merge\<close>, \<open>Pg_Log_Fork\<close>, \<open>Pg_Log_Recovery\<close>, \<open>Pg_Log_Peering\<close>: a missing set is
    accurate when it says of every object whether the store has its newest version, and if not what is needed
    and had. \<open>Pg_Log_Correct\<close> shows that appending entries keeps this, \<open>Pg_Log_Merge\<close> the five cases of a divergent
    object, \<open>Pg_Log_Fork\<close> both ways a log is merged (rewinding, and rewinding with new entries), and
    \<open>Pg_Log_Recovery\<close> the index by version number and \<open>last_complete\<close>; \<open>Pg_Log_Peering\<close> has the properties, a
    merge after which the index is lost, and that the primary computes for a replica the missing set the replica computes itself.
  \<^item> \<open>Intarith\<close>: the rounding helpers of \<open>include/intarith.h\<close> on 64-bit values.
  \<^item> \<open>Avl_Allocator\<close>, \<open>Avl_Allocator_Correct\<close>: \<open>os/bluestore/AvlAllocator.cc\<close>. The two trees of free ranges
    refine the set of free bytes. Blocks handed out are aligned, free and disjoint, an allocation falls
    short only when no aligned unit is free, and with users that hold bytes the whole forms a transition
    system in which nothing is handed out twice and every release succeeds.

  \<^bold>\<open>State and effects.\<close> Classes are records; member functions take and return them. \<open>ceph_assert\<close> is
  an \<open>option\<close> in the in-memory components and the error \<open>ABORT\<close> in the object classes, where other
  errors are error numbers in a sum type. \<open>uint64_t\<close> values are naturals, with \<open>add64\<close>, \<open>sub64\<close> and
  \<open>mul64\<close> where the code's operation can wrap; \<open>bufferlist\<close> is a list of bytes, shorter than 4 GB as in
  the code.

  \<^bold>\<open>Loops.\<close> Loops are recursive functions with a termination proof, with two exceptions. The lookup-based
  intersection of interval sets (\<open>asym_loop\<close>) runs on fuel, the number of ranges of both sets plus one, which is
  proved to be enough. The wait for queued writes in \<open>Paxos\<close>, where a lone monitor may start another write
  each time, is a \<open>partial_function\<close> (\<open>None\<close> without an end). The measures
  are the wanted inodes in the batch allocation, the bytes left in the striping loops, the ranges left
  in the interval set merges, and, for the queue listing, the bytes left in a chunk for the inner loop
  and the bytes left in the ring for the outer one.

  \<^bold>\<open>Not modelled.\<close> Logging, performance counters, formatting and thread management everywhere. Of the
  whole program: the messenger (network I/O), the object stores (disk formats), CRUSH (C code shared
  with the kernel), the OSD's peering state machine and the log's disk format, the MDS cache, librbd, the RADOS gateway, the manager and the
  command line tools.

  \<^bold>\<open>Plan.\<close> Next splitting and trimming of the log of a placement group, and that no assertion of the monitors' handlers
  fails when no promise is lost.
\<close>

end
